(* ===== verification/Prelude.thy ===== *)
theory Prelude
  imports Main "HOL-Library.Word"
begin

text \<open>
  Shared vocabulary of the GlyphRelay development: the machine types, C++ exceptions as
  values, saturating counters, \<open>size_t\<close> arithmetic with its wrap-around written out, the
  monotonic-time guard that several components repeat, and the locales that say what it
  means for a component to keep an invariant, to have a monotone rank and to latch.
\<close>

unbundle bit_operations_syntax

named_theorems counter_simps \<open>arithmetic of saturating counters\<close>
named_theorems size_simps \<open>size_t arithmetic that does not wrap\<close>

section \<open>Machine types and exceptions\<close>

type_synonym u8 = "8 word"
type_synonym u16 = "16 word"
type_synonym u32 = "32 word"
type_synonym u64 = "64 word"

text \<open>
  A \<open>throw\<close> of the sources is a value of this type. An operation that may throw after it
  has changed its object returns the exception together with the state it left behind.
\<close>

datatype exn =
    Invalid_argument string
  | Out_of_range string
  | Overflow_error string
  | Logic_error string
  | Runtime_error string

type_synonym ('a, 's) outcome = "(exn + 'a) \<times> 's"

text \<open>Sequencing of operations that may throw: an exception ends the sequence and keeps
  the state reached so far.\<close>

definition and_then ::
  "('a, 's) outcome \<Rightarrow> ('a \<Rightarrow> 's \<Rightarrow> ('b, 's) outcome) \<Rightarrow> ('b, 's) outcome" where
  "and_then m k = (case m of (Inl e, s) \<Rightarrow> (Inl e, s) | (Inr a, s) \<Rightarrow> k a s)"

lemma and_then_simps [simp]:
  "and_then (Inl e, s) k = (Inl e, s)"
  "and_then (Inr a, s) k = k a s"
  by (simp_all add: and_then_def)

lemma and_then_Inr:
  "and_then m k = (Inr b, t) \<longleftrightarrow> (\<exists>a s. m = (Inr a, s) \<and> k a s = (Inr b, t))"
  by (auto simp: and_then_def split: prod.splits sum.splits)

section \<open>Saturating counters\<close>

text \<open>\<open>numeric_limits<uint64_t>::max()\<close> is the all-ones word \<open>- 1\<close>.\<close>

definition saturating_increment :: "u64 \<Rightarrow> u64" where
  "saturating_increment v = (if v \<noteq> - 1 then v + 1 else v)"

definition saturating_add :: "u64 \<Rightarrow> nat \<Rightarrow> u64" where
  "saturating_add v amount =
     (let converted = word_of_nat amount in
      if converted > - 1 - v then - 1 else v + converted)"

lemma unat_max_u64: "unat (- 1 :: u64) = 2 ^ 64 - 1"
  by (simp add: unsigned_minus_1_eq_mask mask_eq_exp_minus_1)

lemma unat_lt_u64: "unat (x :: u64) < 2 ^ 64"
  using unsigned_less [of x] by simp

lemma max_minus_u64: "unat (- 1 - v :: u64) = 2 ^ 64 - 1 - unat v"
  using unat_sub [of v "- 1 :: u64"] by (simp add: unat_max_u64)

lemma unat_inc_u64: "v \<noteq> - 1 \<Longrightarrow> unat (v + 1) = unat v + 1" for v :: u64
proof -
  assume "v \<noteq> - 1"
  then have "unat v \<noteq> 2 ^ 64 - 1" using unat_max_u64 by (metis word_unat_eq_iff)
  with unat_lt_u64 [of v] have "unat v + 1 < 2 ^ 64" by linarith
  then show ?thesis by (simp add: unat_word_ariths)
qed

lemma less_inc_u64: "v \<noteq> - 1 \<Longrightarrow> v < v + 1" for v :: u64
  by (simp add: word_less_nat_alt unat_inc_u64)

lemma saturating_increment_unat [counter_simps]:
  "unat (saturating_increment v) = min (unat v + 1) (2 ^ 64 - 1)"
proof (cases "v = - 1")
  case True
  then show ?thesis by (simp add: saturating_increment_def unat_max_u64)
next
  case False
  with unat_inc_u64 [of v] unat_lt_u64 [of "v + 1"] show ?thesis by (simp add: saturating_increment_def)
qed

lemma saturating_increment_mono: "v \<le> saturating_increment v"
  using unat_lt_u64 [of v] by (simp add: word_le_nat_alt saturating_increment_unat)

lemma saturating_increment_nonzero [simp]: "saturating_increment v \<noteq> 0"
proof
  assume "saturating_increment v = 0"
  then have "unat (saturating_increment v) = 0" by simp
  then show False by (simp add: saturating_increment_unat)
qed

text \<open>\<open>checked_add\<close> and the overflow tests of the form \<open>b > max - a\<close>.\<close>

lemma gt_max_minus_u64: "b > - 1 - a \<longleftrightarrow> unat a + unat b \<ge> 2 ^ 64" for a b :: u64
  using unat_lt_u64 [of a] by (auto simp: word_less_nat_alt max_minus_u64)

lemma unat_add_no_overflow: "\<not> b > - 1 - a \<Longrightarrow> unat (a + b) = unat a + unat b" for a b :: u64
  by (simp add: gt_max_minus_u64 unat_word_ariths)

lemma saturating_add_unat [counter_simps]:
  "amount < 2 ^ 64 \<Longrightarrow> unat (saturating_add v amount) = min (unat v + amount) (2 ^ 64 - 1)"
  by (auto simp: saturating_add_def Let_def gt_max_minus_u64 unat_max_u64
      unat_of_nat unat_word_ariths min_def)

section \<open>size_t arithmetic\<close>

definition size_add :: "nat \<Rightarrow> nat \<Rightarrow> nat" where
  "size_add a b = (a + b) mod 2 ^ 64"

definition size_sub :: "nat \<Rightarrow> nat \<Rightarrow> nat" where
  "size_sub a b = (a + (2 ^ 64 - b)) mod 2 ^ 64"

definition size_mul :: "nat \<Rightarrow> nat \<Rightarrow> nat" where
  "size_mul a b = (a * b) mod 2 ^ 64"

lemma size_mul_exact [size_simps]: "a * b < 2 ^ 64 \<Longrightarrow> size_mul a b = a * b"
  by (simp add: size_mul_def)

lemma size_add_exact [size_simps]: "a + b < 2 ^ 64 \<Longrightarrow> size_add a b = a + b"
  by (simp add: size_add_def)

lemma size_sub_exact [size_simps]: "b \<le> a \<Longrightarrow> a < 2 ^ 64 \<Longrightarrow> size_sub a b = a - b"
proof -
  assume a: "b \<le> a" "a < 2 ^ 64"
  then have "a + (2 ^ 64 - b) = (a - b) + 2 ^ 64" by simp
  then have "size_sub a b = ((a - b) + 2 ^ 64) mod 2 ^ 64" by (simp only: size_sub_def)
  also have "\<dots> = (a - b) mod 2 ^ 64" by (rule mod_add_self2)
  also from a have "\<dots> = a - b" by simp
  finally show ?thesis .
qed

section \<open>Lists\<close>

lemma upt_split: "i \<le> j \<Longrightarrow> j \<le> k \<Longrightarrow> [i..<k] = [i..<j] @ [j..<k]"
  using upt_add_eq_append [of i j "k - j"] by simp

text \<open>\<open>std::copy_n (bytes, size, buffer + offset)\<close>.\<close>

definition copy_into :: "'a list \<Rightarrow> nat \<Rightarrow> 'a list \<Rightarrow> 'a list" where
  "copy_into buffer offset bytes = take offset buffer @ bytes @ drop (offset + length bytes) buffer"

lemma copy_into_take: "offset + length bytes \<le> length buffer \<Longrightarrow>
  take (offset + length bytes) (copy_into buffer offset bytes) = take offset buffer @ bytes"
  by (simp add: copy_into_def)

lemma copy_into_length: "offset + length bytes \<le> length buffer \<Longrightarrow> length (copy_into buffer offset bytes) = length buffer"
  by (simp add: copy_into_def)

lemma copy_into_nth:
  "offset + length bytes \<le> length buffer \<Longrightarrow> i < length buffer \<Longrightarrow>
   copy_into buffer offset bytes ! i =
     (if offset \<le> i \<and> i < offset + length bytes then bytes ! (i - offset) else buffer ! i)"
  by (auto simp: copy_into_def nth_append)

section \<open>Monotonic time\<close>

text \<open>\<open>last && now < *last\<close>: the clock handed to a component went backwards.\<close>

definition time_regressed :: "u64 option \<Rightarrow> u64 \<Rightarrow> bool" where
  "time_regressed previous now = (case previous of None \<Rightarrow> False | Some t \<Rightarrow> now < t)"

lemma time_regressed_simps [simp]:
  "\<not> time_regressed None now"
  "time_regressed (Some t) now \<longleftrightarrow> now < t"
  by (simp_all add: time_regressed_def)

text \<open>An unsigned difference of a later and an earlier time is the elapsed time.\<close>

lemma elapsed_unat: "t \<le> now \<Longrightarrow> unat (now - t) = unat now - unat t" for t now :: u64
  by (simp add: unat_sub)

section \<open>Components as machines\<close>

text \<open>
  A component is a step function on its state. The first contract is that every step keeps
  an invariant; then so does every sequence of calls, whatever its order.
\<close>

locale safe_machine =
  fixes step :: "'s \<Rightarrow> 'e \<Rightarrow> 's"
    and inv :: "'s \<Rightarrow> bool"
  assumes step_inv: "inv s \<Longrightarrow> inv (step s e)"
begin

lemma run_inv: "inv s \<Longrightarrow> inv (foldl step s es)"
  by (induction es arbitrary: s) (auto intro: step_inv)

end

text \<open>A machine with a rank that no step lowers (an epoch, a sequence number, a counter).\<close>

locale ranked_machine = safe_machine step inv
  for step :: "'s \<Rightarrow> 'e \<Rightarrow> 's" and inv :: "'s \<Rightarrow> bool" +
  fixes rank :: "'s \<Rightarrow> 'r :: preorder"
  assumes step_rank: "inv s \<Longrightarrow> rank s \<le> rank (step s e)"
begin

lemma run_rank: "inv s \<Longrightarrow> rank s \<le> rank (foldl step s es)"
proof (induction es arbitrary: s)
  case (Cons e es)
  from Cons.prems have "rank s \<le> rank (step s e)" by (rule step_rank)
  also from Cons have "\<dots> \<le> rank (foldl step (step s e) es)"
    by (simp add: step_inv)
  finally show ?case by simp
qed simp

end

text \<open>A machine with a latch: once set it stays set (a stopped queue, a closed gate).\<close>

locale latched_machine = safe_machine step inv
  for step :: "'s \<Rightarrow> 'e \<Rightarrow> 's" and inv :: "'s \<Rightarrow> bool" +
  fixes latched :: "'s \<Rightarrow> bool"
  assumes step_latched: "inv s \<Longrightarrow> latched s \<Longrightarrow> latched (step s e)"
begin

lemma run_latched: "inv s \<Longrightarrow> latched s \<Longrightarrow> latched (foldl step s es)"
  by (induction es arbitrary: s) (auto intro: step_latched step_inv)

end

end
