(* ===== verification/Annex_B.thy ===== *)
theory Annex_B
  imports Prelude
begin

text \<open>
  The Annex B access-unit parser and the emulation-prevention decoder
  (\<^verbatim>\<open>src/media/annex_b.cpp\<close>, \<^verbatim>\<open>include/glyphrelay/annex_b.hpp\<close>).
  Byte spans are lists of \<open>u8\<close>; offsets and sizes are \<open>size_t\<close> values that never exceed
  the length of the span. The reference encoder \<open>insert_emulation_prevention\<close> is the
  specification against which the decoder is proved.
\<close>

section \<open>Model\<close>

definition kMaximumAccessUnitBytes :: nat where
  "kMaximumAccessUnitBytes = 16 * 1024 * 1024"

definition kMaximumNalBytes :: nat where
  "kMaximumNalBytes = 8 * 1024 * 1024"

definition kMaximumNalUnits :: nat where
  "kMaximumNalUnits = 1024"

record annexb_nal_unit =
  start_code_offset :: nat
  start_code_size :: nat
  payload_offset :: nat
  payload_size :: nat
  nal_ref_idc :: u8
  unit_type :: u8

record annexb_access_unit =
  au_bytes :: "u8 list"
  nal_units :: "annexb_nal_unit list"

record annexb_parse_result =
  annexb_passed :: bool
  annexb_reason :: string
  access_unit :: annexb_access_unit

record start_code =
  sc_offset :: nat
  sc_size :: nat

function find_start_code :: "u8 list \<Rightarrow> nat \<Rightarrow> start_code" where
  "find_start_code bytes index =
     (if index + 2 < length bytes then
        if bytes ! index \<noteq> 0 \<or> bytes ! (index + 1) \<noteq> 0 then find_start_code bytes (index + 1)
        else if bytes ! (index + 2) = 1 then \<lparr>sc_offset = index, sc_size = 3\<rparr>
        else if index + 3 < length bytes \<and> bytes ! (index + 2) = 0 \<and> bytes ! (index + 3) = 1
          then \<lparr>sc_offset = index, sc_size = 4\<rparr>
        else find_start_code bytes (index + 1)
      else \<lparr>sc_offset = length bytes, sc_size = 0\<rparr>)"
  by pat_completeness auto
termination
  by (relation "measure (\<lambda>(bytes, index). length bytes - index)") auto

declare find_start_code.simps [simp del]

text \<open>The scan of \<open>valid_ebsp\<close>: the list is the rest of the payload from \<open>index\<close> on.\<close>

fun ebsp_scan :: "nat \<Rightarrow> u8 list \<Rightarrow> bool" where
  "ebsp_scan zero_count [] = True"
| "ebsp_scan zero_count (byte # rest) =
     (if zero_count \<ge> 2 \<and> byte \<le> 2 then False
      else if zero_count \<ge> 2 \<and> byte = 3 \<and> (case rest of [] \<Rightarrow> True | following # _ \<Rightarrow> following > 3)
        then False
      else ebsp_scan (if byte = 0 then zero_count + 1 else 0) rest)"

definition valid_ebsp :: "u8 list \<Rightarrow> bool" where
  "valid_ebsp payload = (if length payload \<le> 1 then False else ebsp_scan 0 (tl payload))"

definition au_payload :: "annexb_access_unit \<Rightarrow> annexb_nal_unit \<Rightarrow> exn + u8 list" where
  "au_payload au unit =
     (if payload_offset unit > length (au_bytes au) \<or>
         payload_size unit > length (au_bytes au) - payload_offset unit
      then Inl (Out_of_range ''Annex B NAL metadata exceeds its access unit'')
      else Inr (take (payload_size unit) (drop (payload_offset unit) (au_bytes au))))"

definition au_contains :: "annexb_access_unit \<Rightarrow> u8 \<Rightarrow> bool" where
  "au_contains au t = list_ex (\<lambda>unit. unit_type unit = t) (nal_units au)"

text \<open>\<open>starts_with_parameter_sets_and_idr\<close>, with its two flags as arguments of the loop.\<close>

fun parameter_sets_then_idr :: "bool \<Rightarrow> bool \<Rightarrow> annexb_nal_unit list \<Rightarrow> bool" where
  "parameter_sets_then_idr sps pps [] = False"
| "parameter_sets_then_idr sps pps (unit # rest) =
     (if unit_type unit = 7 then parameter_sets_then_idr True pps rest
      else if unit_type unit = 8 then parameter_sets_then_idr sps sps rest
      else if unit_type unit = 5 then sps \<and> pps
      else if unit_type unit \<ge> 1 \<and> unit_type unit \<le> 5 then False
      else parameter_sets_then_idr sps pps rest)"

definition starts_with_parameter_sets_and_idr :: "annexb_access_unit \<Rightarrow> bool" where
  "starts_with_parameter_sets_and_idr au = parameter_sets_then_idr False False (nal_units au)"

fun trim_payload_end :: "u8 list \<Rightarrow> nat \<Rightarrow> nat \<Rightarrow> nat" where
  "trim_payload_end bytes lo hi =
     (if hi > lo \<and> bytes ! (hi - 1) = 0 then trim_payload_end bytes lo (hi - 1) else hi)"

declare trim_payload_end.simps [simp del]

text \<open>The body of the loop of \<open>parse_annex_b_access_unit\<close>: one NAL unit, from its start code
  and the next one. \<open>Inl\<close> is the reason of an early return.\<close>

definition nal_unit_at :: "u8 list \<Rightarrow> start_code \<Rightarrow> start_code \<Rightarrow> string + annexb_nal_unit" where
  "nal_unit_at bytes current next =
     (let offset = sc_offset current + sc_size current;
          payload_end = trim_payload_end bytes offset
            (if sc_size next = 0 then length bytes else sc_offset next);
          size = payload_end - offset;
          header = bytes ! offset;
          t = header AND 0x1F
      in if payload_end = offset then Inl ''annex_b_empty_nal_unit''
         else if size > kMaximumNalBytes then Inl ''annex_b_nal_unit_too_large''
         else if header AND 0x80 \<noteq> 0 then Inl ''annex_b_forbidden_zero_bit_set''
         else if t = 0 \<or> t > 23 then Inl ''annex_b_unsupported_nal_unit_type''
         else if \<not> valid_ebsp (take size (drop offset bytes))
           then Inl ''annex_b_invalid_emulation_prevention''
         else Inr \<lparr>start_code_offset = sc_offset current, start_code_size = sc_size current,
                   payload_offset = offset, payload_size = size,
                   nal_ref_idc = drop_bit 5 header AND 3, unit_type = t\<rparr>)"

lemma find_start_code_range:
  "sc_size (find_start_code bytes i) \<noteq> 0 \<Longrightarrow>
     i \<le> sc_offset (find_start_code bytes i) \<and>
     sc_offset (find_start_code bytes i) + sc_size (find_start_code bytes i) \<le> length bytes"
proof (induction bytes i rule: find_start_code.induct)
  case (1 bytes i)
  then show ?case
    by (subst (asm) (3) find_start_code.simps, subst (1 2 3) find_start_code.simps)
      (auto split: if_splits)
qed

function parse_nal_units ::
  "u8 list \<Rightarrow> annexb_nal_unit list \<Rightarrow> start_code \<Rightarrow> string + annexb_nal_unit list" where
  "parse_nal_units bytes units current =
     (if sc_size current = 0 then Inr units
      else if length units \<ge> kMaximumNalUnits then Inl ''annex_b_too_many_nal_units''
      else let next = find_start_code bytes (sc_offset current + sc_size current)
           in case nal_unit_at bytes current next of
                Inl reason \<Rightarrow> Inl reason
              | Inr unit \<Rightarrow> parse_nal_units bytes (units @ [unit]) next)"
  by pat_completeness auto
termination
proof (relation "measure (\<lambda>(bytes, units, current).
    if sc_size current = 0 then 0 else Suc (length bytes - sc_offset current))", goal_cases)
  case 1
  show ?case by simp
next
  case (2 bytes units current x y)
  then show ?case
    using find_start_code_range [of bytes "sc_offset current + sc_size current"] by auto
qed

declare parse_nal_units.simps [simp del]

definition empty_access_unit :: annexb_access_unit where
  "empty_access_unit = \<lparr>au_bytes = [], nal_units = []\<rparr>"

definition annexb_failure :: "string \<Rightarrow> annexb_parse_result" where
  "annexb_failure reason =
     \<lparr>annexb_passed = False, annexb_reason = reason, access_unit = empty_access_unit\<rparr>"

definition parse_annex_b_access_unit :: "u8 list \<Rightarrow> annexb_parse_result" where
  "parse_annex_b_access_unit bytes =
     (if bytes = [] then annexb_failure ''annex_b_empty''
      else if length bytes > kMaximumAccessUnitBytes
        then annexb_failure ''annex_b_access_unit_too_large''
      else let first = find_start_code bytes 0 in
        if sc_size first = 0 \<or> \<not> list_all (\<lambda>byte. byte = 0) (take (sc_offset first) bytes)
          then annexb_failure ''annex_b_missing_initial_start_code''
        else case parse_nal_units bytes [] first of
            Inl reason \<Rightarrow> annexb_failure reason
          | Inr units \<Rightarrow>
              if \<not> list_ex (\<lambda>unit. unit_type unit \<ge> 1 \<and> unit_type unit \<le> 5) units
                then annexb_failure ''annex_b_access_unit_has_no_vcl''
              else \<lparr>annexb_passed = True, annexb_reason = ''annex_b_access_unit_valid'',
                    access_unit = \<lparr>au_bytes = bytes, nal_units = units\<rparr>\<rparr>)"

fun rbsp_loop :: "nat \<Rightarrow> u8 list \<Rightarrow> u8 list" where
  "rbsp_loop zero_count [] = []"
| "rbsp_loop zero_count (byte # rest) =
     (if zero_count \<ge> 2 \<and> byte = 3 then rbsp_loop 0 rest
      else byte # rbsp_loop (if byte = 0 then zero_count + 1 else 0) rest)"

definition annex_b_nal_to_rbsp :: "u8 list \<Rightarrow> exn + u8 list" where
  "annex_b_nal_to_rbsp nal_payload =
     (if nal_payload = [] \<or> hd nal_payload AND 0x80 \<noteq> 0
        then Inl (Invalid_argument ''NAL payload has an invalid header'')
      else if \<not> valid_ebsp nal_payload
        then Inl (Invalid_argument ''NAL payload has invalid emulation prevention'')
      else Inr (rbsp_loop 0 (tl nal_payload)))"

section \<open>Emulation prevention: the decoder against a reference encoder\<close>

text \<open>The encoder of H.264 7.4.1: an escape byte 3 before a byte of at most 3 that follows
  two zero bytes.\<close>

fun insert_emulation_prevention :: "nat \<Rightarrow> u8 list \<Rightarrow> u8 list" where
  "insert_emulation_prevention z [] = []"
| "insert_emulation_prevention z (b # r) =
     (if z \<ge> 2 \<and> b \<le> 3
      then 3 # b # insert_emulation_prevention (if b = 0 then 1 else 0) r
      else b # insert_emulation_prevention (if b = 0 then z + 1 else 0) r)"

lemma u8_le_3: "b \<le> 3 \<longleftrightarrow> b \<le> 2 \<or> b = 3" for b :: u8
  by (auto simp: word_le_nat_alt word_unat_eq_iff)

lemma u8_gt_3: "3 < b \<longleftrightarrow> \<not> b \<le> 2 \<and> b \<noteq> 3" for b :: u8
  using u8_le_3 [of b] by (simp add: not_le [symmetric])

lemma ebsp_scan_insert: "ebsp_scan z (insert_emulation_prevention z r)"
proof (induction z r rule: insert_emulation_prevention.induct)
  case (2 z b r)
  then show ?case by (cases "z \<ge> 2") (auto simp: u8_le_3 u8_gt_3)
qed simp

lemma rbsp_loop_insert: "rbsp_loop z (insert_emulation_prevention z r) = r"
  by (induction z r rule: insert_emulation_prevention.induct) auto

lemma insert_rbsp_loop: "ebsp_scan z e \<Longrightarrow> insert_emulation_prevention z (rbsp_loop z e) = e"
proof (induction z e rule: ebsp_scan.induct)
  case (2 z b e)
  show ?case
  proof (cases "z \<ge> 2 \<and> b = 3")
    case True
    with "2.prems" obtain c e' where e: "e = c # e'" and c: "c \<le> 3"
      by (cases e) (auto simp: not_less split: if_splits)
    from True 2 have "insert_emulation_prevention 0 (rbsp_loop 0 e) = e"
      by (auto split: if_splits)
    with True e c show ?thesis by auto
  next
    case False
    with 2 show ?thesis by (auto simp: u8_le_3 split: if_splits)
  qed
qed simp

lemma insert_Nil_iff [simp]: "insert_emulation_prevention z r = [] \<longleftrightarrow> r = []"
  by (cases r) auto

lemma ebsp_scan_iff: "ebsp_scan 0 e \<longleftrightarrow> (\<exists>r. e = insert_emulation_prevention 0 r)"
  using ebsp_scan_insert insert_rbsp_loop by metis

section \<open>Start codes\<close>

text \<open>The length of the start code at a position, 0 where there is none; the scan finds the
  first position at which it is not 0.\<close>

definition start_code_at :: "u8 list \<Rightarrow> nat \<Rightarrow> nat" where
  "start_code_at bs i =
     (if i + 2 < length bs \<and> bs ! i = 0 \<and> bs ! (i + 1) = 0 then
        if bs ! (i + 2) = 1 then 3
        else if i + 3 < length bs \<and> bs ! (i + 2) = 0 \<and> bs ! (i + 3) = 1 then 4 else 0
      else 0)"

lemma find_start_code_unfold:
  "find_start_code bs i =
     (if i + 2 < length bs then
        if start_code_at bs i \<noteq> 0 then \<lparr>sc_offset = i, sc_size = start_code_at bs i\<rparr>
        else find_start_code bs (i + 1)
      else \<lparr>sc_offset = length bs, sc_size = 0\<rparr>)"
  by (subst find_start_code.simps) (auto simp: start_code_at_def)

lemma start_code_at_end: "\<not> i + 2 < length bs \<Longrightarrow> start_code_at bs i = 0"
  by (simp add: start_code_at_def)

lemma find_start_code_none:
  "(\<And>j. i \<le> j \<Longrightarrow> start_code_at bs j = 0) \<Longrightarrow>
     find_start_code bs i = \<lparr>sc_offset = length bs, sc_size = 0\<rparr>"
proof (induction bs i rule: find_start_code.induct)
  case (1 bs i)
  have none: "start_code_at bs i = 0" using "1.prems" by simp
  have step: "find_start_code bs (i + 1) = \<lparr>sc_offset = length bs, sc_size = 0\<rparr>"
    if "i + 2 < length bs"
  proof (cases "bs ! i \<noteq> 0 \<or> bs ! (i + 1) \<noteq> 0")
    case True
    then show ?thesis using "1.IH"(1) "1.prems" that by simp
  next
    case False
    with none that have "bs ! (i + 2) \<noteq> 1"
      "\<not> (i + 3 < length bs \<and> bs ! (i + 2) = 0 \<and> bs ! (i + 3) = 1)"
      by (auto simp: start_code_at_def split: if_splits)
    with False show ?thesis using "1.IH"(2) "1.prems" that by simp
  qed
  show ?case
    using step "1.prems" [of i] by (subst find_start_code_unfold) auto
qed

lemma find_start_code_hit:
  "start_code_at bs k \<noteq> 0 \<Longrightarrow> i \<le> k \<Longrightarrow> (\<And>j. i \<le> j \<Longrightarrow> j < k \<Longrightarrow> start_code_at bs j = 0) \<Longrightarrow>
     find_start_code bs i = \<lparr>sc_offset = k, sc_size = start_code_at bs k\<rparr>"
proof (induction "k - i" arbitrary: i)
  case 0
  then have ik: "i = k" by simp
  have "k + 2 < length bs" using start_code_at_end 0 by metis
  with 0(2) show ?case unfolding ik by (subst find_start_code_unfold) simp
next
  case (Suc n)
  then have "i < k" by simp
  have "k + 2 < length bs" using start_code_at_end Suc.prems(1) by metis
  with \<open>i < k\<close> have "i + 2 < length bs" by simp
  moreover have "start_code_at bs i = 0" by (rule Suc.prems(3)) (use \<open>i < k\<close> in auto)
  moreover have "find_start_code bs (i + 1) = \<lparr>sc_offset = k, sc_size = start_code_at bs k\<rparr>"
    by (rule Suc.hyps(1)) (use Suc.hyps(2) Suc.prems \<open>i < k\<close> in auto)
  ultimately show ?case by (subst find_start_code_unfold) simp
qed

lemma find_start_code_sound:
  assumes "sc_size (find_start_code bs i) \<noteq> 0"
  shows "start_code_at bs (sc_offset (find_start_code bs i)) = sc_size (find_start_code bs i)"
  using assms
proof (induction bs i rule: find_start_code.induct)
  case (1 bs i)
  show ?case
  proof (cases "i + 2 < length bs \<and> start_code_at bs i = 0")
    case True
    then have eq: "find_start_code bs i = find_start_code bs (i + 1)"
      by (subst find_start_code_unfold) simp
    have "bs ! i \<noteq> 0 \<or> bs ! (i + 1) \<noteq> 0 \<or>
        \<not> (bs ! (i + 2) = 1) \<and> \<not> (i + 3 < length bs \<and> bs ! (i + 2) = 0 \<and> bs ! (i + 3) = 1)"
      using True by (auto simp: start_code_at_def split: if_splits)
    with True "1.IH" "1.prems" show ?thesis unfolding eq by auto
  next
    case False
    then have "find_start_code bs i = \<lparr>sc_offset = i, sc_size = start_code_at bs i\<rparr> \<or>
        sc_size (find_start_code bs i) = 0"
      by (subst (1 2) find_start_code_unfold) auto
    with "1.prems" show ?thesis by auto
  qed
qed

lemma find_start_code_zero_size:
  "sc_size (find_start_code bs i) = 0 \<Longrightarrow> sc_offset (find_start_code bs i) = length bs"
proof (induction bs i rule: find_start_code.induct)
  case (1 bs i)
  then show ?case
    by (subst find_start_code.simps) (subst (asm) (3) find_start_code.simps, auto split: if_splits)
qed

lemma start_code_at_values: "start_code_at bs i \<in> {0, 3, 4}"
  by (simp add: start_code_at_def)

lemma start_code_at_fits: "start_code_at bs i \<noteq> 0 \<Longrightarrow> i + start_code_at bs i \<le> length bs"
  by (auto simp: start_code_at_def split: if_splits)

section \<open>What a parsed access unit is\<close>

definition zeros_between :: "u8 list \<Rightarrow> nat \<Rightarrow> nat \<Rightarrow> bool" where
  "zeros_between bs a b = list_all (\<lambda>i. bs ! i = 0) [a..<b]"

text \<open>A payload the parser accepts, and the metadata it records for it.\<close>

definition nal_payload_ok :: "u8 list \<Rightarrow> bool" where
  "nal_payload_ok p =
     (1 < length p \<and> length p \<le> kMaximumNalBytes \<and> hd p AND 0x80 = 0 \<and>
      1 \<le> hd p AND 0x1F \<and> hd p AND 0x1F \<le> 23 \<and> valid_ebsp p \<and> last p \<noteq> 0)"

definition nal_unit_ok :: "u8 list \<Rightarrow> annexb_nal_unit \<Rightarrow> bool" where
  "nal_unit_ok bs u =
     (start_code_size u \<noteq> 0 \<and> start_code_size u = start_code_at bs (start_code_offset u) \<and>
      payload_offset u = start_code_offset u + start_code_size u \<and>
      payload_offset u + payload_size u \<le> length bs \<and>
      nal_payload_ok (take (payload_size u) (drop (payload_offset u) bs)) \<and>
      unit_type u = (bs ! payload_offset u) AND 0x1F \<and>
      nal_ref_idc u = drop_bit 5 (bs ! payload_offset u) AND 3)"

text \<open>The units tile the bytes: zero padding, start code, payload, in order, to the end.\<close>

fun tiles :: "u8 list \<Rightarrow> nat \<Rightarrow> annexb_nal_unit list \<Rightarrow> bool" where
  "tiles bs pos [] = zeros_between bs pos (length bs)"
| "tiles bs pos (u # us) =
     (pos \<le> start_code_offset u \<and> zeros_between bs pos (start_code_offset u) \<and>
      nal_unit_ok bs u \<and> tiles bs (payload_offset u + payload_size u) us)"

lemma trim_payload_end_props:
  "lo \<le> hi \<Longrightarrow> lo \<le> trim_payload_end bs lo hi \<and> trim_payload_end bs lo hi \<le> hi \<and>
     zeros_between bs (trim_payload_end bs lo hi) hi \<and>
     (lo < trim_payload_end bs lo hi \<longrightarrow> bs ! (trim_payload_end bs lo hi - 1) \<noteq> 0)"
proof (induction bs lo hi rule: trim_payload_end.induct)
  case (1 bs lo hi)
  show ?case
  proof (cases "hi > lo \<and> bs ! (hi - 1) = 0")
    case True
    let ?e = "trim_payload_end bs lo (hi - 1)"
    have eq: "trim_payload_end bs lo hi = ?e"
      using True by (subst trim_payload_end.simps) simp
    have "lo \<le> hi - 1" using True by linarith
    with "1.IH" [OF True] have IH: "lo \<le> ?e" "?e \<le> hi - 1" "zeros_between bs ?e (hi - 1)"
      "lo < ?e \<longrightarrow> bs ! (?e - 1) \<noteq> 0" by blast+
    have "[?e..<hi] = [?e..<hi - 1] @ [hi - 1]"
      using IH(2) True upt_Suc_append [of ?e "hi - 1"] by simp
    with IH True show ?thesis unfolding eq zeros_between_def by auto
  next
    case False
    then have "trim_payload_end bs lo hi = hi" by (subst trim_payload_end.simps) auto
    with 1(2) False show ?thesis by (auto simp: zeros_between_def)
  qed
qed

lemma nal_unit_at_ok:
  assumes r: "nal_unit_at bs cur nxt = Inr u"
    and cur: "sc_size cur \<noteq> 0" "start_code_at bs (sc_offset cur) = sc_size cur"
    and lim: "lim = (if sc_size nxt = 0 then length bs else sc_offset nxt)"
      "sc_offset cur + sc_size cur \<le> lim" "lim \<le> length bs"
  shows "nal_unit_ok bs u \<and> start_code_offset u = sc_offset cur \<and>
    payload_offset u + payload_size u \<le> lim \<and>
    zeros_between bs (payload_offset u + payload_size u) lim"
proof -
  let ?o = "sc_offset cur + sc_size cur"
  let ?e = "trim_payload_end bs ?o lim"
  let ?p = "take (?e - ?o) (drop ?o bs)"
  note trim = trim_payload_end_props [OF lim(2), of bs]
  from r lim(1) have ne: "?e \<noteq> ?o" and small: "?e - ?o \<le> kMaximumNalBytes"
    and hdr: "(bs ! ?o) AND 0x80 = 0"
    and ty: "(bs ! ?o) AND 0x1F \<noteq> 0" "\<not> (bs ! ?o) AND 0x1F > 23" and ebsp: "valid_ebsp ?p"
    and u: "u = \<lparr>start_code_offset = sc_offset cur, start_code_size = sc_size cur,
                 payload_offset = ?o, payload_size = ?e - ?o,
                 nal_ref_idc = drop_bit 5 (bs ! ?o) AND 3, unit_type = (bs ! ?o) AND 0x1F\<rparr>"
    by (auto simp: nal_unit_at_def Let_def split: if_splits)
  have len: "length ?p = ?e - ?o" "?o < ?e" "?e \<le> lim" using ne trim lim by auto
  have "hd ?p = bs ! ?o" using len lim by (simp add: hd_conv_nth)
  moreover have "last ?p = bs ! (?e - 1)"
    using len lim trim by (subst last_conv_nth) (auto simp del: length_take)
  moreover have "1 \<le> (bs ! ?o) AND 0x1F"
    using ty(1) by (metis word_gt_0 word_less_1 not_le)
  ultimately have "nal_payload_ok ?p"
    using len small hdr ty ebsp trim by (auto simp: nal_payload_ok_def valid_ebsp_def split: if_splits)
  with cur lim trim len show ?thesis
    by (auto simp: nal_unit_ok_def u)
qed

lemma parse_nal_units_tiles:
  assumes "parse_nal_units bs us cur = Inr r"
    and "length us \<le> kMaximumNalUnits"
    and "sc_size cur \<noteq> 0 \<Longrightarrow> start_code_at bs (sc_offset cur) = sc_size cur"
    and "sc_size cur = 0 \<Longrightarrow> sc_offset cur = length bs"
    and "pos \<le> sc_offset cur" and "zeros_between bs pos (sc_offset cur)"
  shows "\<exists>vs. r = us @ vs \<and> tiles bs pos vs \<and> length r \<le> kMaximumNalUnits"
  using assms
proof (induction bs us cur arbitrary: r pos rule: parse_nal_units.induct)
  case (1 bs us cur)
  let ?o = "sc_offset cur + sc_size cur"
  let ?n = "find_start_code bs ?o"
  show ?case
  proof (cases "sc_size cur = 0")
    case True
    then have "parse_nal_units bs us cur = Inr us" by (subst parse_nal_units.simps) simp
    with "1.prems" True show ?thesis by (auto intro: exI [of _ "[]"])
  next
    case False
    note eq = parse_nal_units.simps [of bs us cur]
    from "1.prems"(1) False obtain u
      where full: "length us < kMaximumNalUnits" and u: "nal_unit_at bs cur ?n = Inr u"
        and rest: "parse_nal_units bs (us @ [u]) ?n = Inr r"
      unfolding eq by (auto simp: Let_def not_le split: if_splits sum.splits)
    define lim where "lim = (if sc_size ?n = 0 then length bs else sc_offset ?n)"
    have fits: "?o \<le> length bs"
      using start_code_at_fits [of bs "sc_offset cur"] "1.prems"(3) False by simp
    have lim_eq: "lim = sc_offset ?n" by (simp add: lim_def find_start_code_zero_size)
    have lim: "?o \<le> lim" "lim \<le> length bs"
      using find_start_code_range [of bs ?o] fits by (auto simp: lim_def)
    from nal_unit_at_ok [OF u False "1.prems"(3) [OF False] lim_def lim]
    have ok: "nal_unit_ok bs u" "start_code_offset u = sc_offset cur"
      "payload_offset u + payload_size u \<le> sc_offset ?n"
      "zeros_between bs (payload_offset u + payload_size u) (sc_offset ?n)"
      by (auto simp: lim_eq)
    have "\<exists>vs. r = (us @ [u]) @ vs \<and> tiles bs (payload_offset u + payload_size u) vs \<and>
        length r \<le> kMaximumNalUnits"
    proof (rule "1.IH" [OF False _ refl u rest])
      show "\<not> kMaximumNalUnits \<le> length us" using full by simp
      show "length (us @ [u]) \<le> kMaximumNalUnits" using full by simp
      show "sc_size ?n \<noteq> 0 \<Longrightarrow> start_code_at bs (sc_offset ?n) = sc_size ?n"
        by (rule find_start_code_sound)
      show "sc_size ?n = 0 \<Longrightarrow> sc_offset ?n = length bs"
        by (rule find_start_code_zero_size)
    qed (use ok in auto)
    then obtain vs where "r = us @ u # vs" "tiles bs (payload_offset u + payload_size u) vs"
      "length r \<le> kMaximumNalUnits" by auto
    moreover have "tiles bs pos (u # vs)"
      using calculation ok "1.prems"(5,6) by simp
    ultimately show ?thesis by blast
  qed
qed

section \<open>Round trip with the 4-byte start-code writer\<close>

definition annexb_write :: "u8 list list \<Rightarrow> u8 list" where
  "annexb_write ps = concat (map (\<lambda>p. [0, 0, 0, 1] @ p) ps)"

lemma annexb_write_simps [simp]:
  "annexb_write [] = []"
  "annexb_write (p # ps) = [0, 0, 0, 1] @ p @ annexb_write ps"
  by (simp_all add: annexb_write_def)

fun written_units :: "nat \<Rightarrow> u8 list list \<Rightarrow> annexb_nal_unit list" where
  "written_units off [] = []"
| "written_units off (p # ps) =
     \<lparr>start_code_offset = off, start_code_size = 4, payload_offset = off + 4,
      payload_size = length p, nal_ref_idc = drop_bit 5 (hd p) AND 3,
      unit_type = hd p AND 0x1F\<rparr> # written_units (off + 4 + length p) ps"

lemma ebsp_scan_no_start:
  "ebsp_scan z e \<Longrightarrow> i + 2 < length e \<Longrightarrow> e ! i = 0 \<Longrightarrow> e ! (i + 1) = 0 \<Longrightarrow> \<not> e ! (i + 2) \<le> 2"
proof (induction e arbitrary: z i)
  case (Cons a e)
  show ?case
  proof (cases i)
    case 0
    with Cons.prems obtain c d e' where "e = c # d # e'"
      by (cases e; cases "tl e") auto
    with Cons.prems 0 show ?thesis by (auto split: if_splits)
  next
    case (Suc j)
    from Cons.prems(1) obtain z' where "ebsp_scan z' e" by (auto split: if_splits)
    with Cons.IH [of z' j] Cons.prems Suc show ?thesis by simp
  qed
qed simp

lemma nal_payload_no_start:
  assumes ok: "nal_payload_ok p" and i: "i < length p"
  shows "start_code_at (pre @ p @ suf) (length pre + i) = 0"
proof (cases "i + 2 < length p")
  case True
  have hd: "p ! 0 \<noteq> 0"
    using ok by (cases p) (auto simp: nal_payload_ok_def)
  have "\<not> (p ! i = 0 \<and> p ! (i + 1) = 0 \<and> p ! (i + 2) \<le> 2)"
  proof (cases i)
    case 0
    with hd show ?thesis by simp
  next
    case (Suc j)
    obtain a e where p: "p = a # e" using i by (cases p) auto
    have "ebsp_scan 0 e" using ok p by (simp add: nal_payload_ok_def valid_ebsp_def split: if_splits)
    from ebsp_scan_no_start [OF this, of j] True Suc p show ?thesis by auto
  qed
  moreover have "(pre @ p @ suf) ! (length pre + k) = p ! k" if "k < length p" for k
    using that by (simp add: nth_append)
  note n = this [of i] this [of "i + 1"] this [of "i + 2"]
  ultimately show ?thesis
    using True n by (auto simp: start_code_at_def)
next
  case False
  have "p ! (length p - 1) \<noteq> 0"
    using ok by (cases "p = []") (auto simp: nal_payload_ok_def last_conv_nth)
  moreover have "i = length p - 1 \<or> i + 1 = length p - 1" using False i by linarith
  ultimately have "p ! i \<noteq> 0 \<or> i + 1 < length p \<and> p ! (i + 1) \<noteq> 0" using i by auto
  then show ?thesis
    using i by (auto simp: start_code_at_def nth_append add.assoc)
qed

lemma find_after_payload:
  assumes "nal_payload_ok p"
  shows "find_start_code (pre @ p @ annexb_write ps) (length pre) =
    (if ps = [] then \<lparr>sc_offset = length pre + length p, sc_size = 0\<rparr>
     else \<lparr>sc_offset = length pre + length p, sc_size = 4\<rparr>)"
proof -
  let ?bs = "pre @ p @ annexb_write ps"
  have inside: "start_code_at ?bs j = 0" if "length pre \<le> j" "j < length pre + length p" for j
    using nal_payload_no_start [OF assms, of "j - length pre" pre "annexb_write ps"] that by simp
  show ?thesis
  proof (cases ps)
    case Nil
    have "start_code_at ?bs j = 0" if "length pre \<le> j" for j
      using inside [of j] start_code_at_end [of j ?bs] that Nil
      by (cases "j < length pre + length p") auto
    from find_start_code_none [OF this] Nil show ?thesis by simp
  next
    case (Cons q qs)
    have "?bs ! (length pre + length p + k) = ([0, 0, 0, 1] @ q @ annexb_write qs) ! k" for k
      using Cons by (simp add: nth_append)
    note nth = this [of 0] this [of 1] this [of 2] this [of 3]
    have four: "start_code_at ?bs (length pre + length p) = 4"
      unfolding start_code_at_def using Cons nth by (simp add: numeral_3_eq_3 numeral_2_eq_2)
    show ?thesis
      using find_start_code_hit [of ?bs "length pre + length p" "length pre"] inside four Cons
      by auto
  qed
qed

lemma nal_unit_at_written:
  assumes ok: "nal_payload_ok p"
    and bs: "bs = pre @ [0, 0, 0, 1] @ p @ annexb_write ps"
    and nxt: "nxt = find_start_code bs (length pre + 4)"
  shows "nal_unit_at bs \<lparr>sc_offset = length pre, sc_size = 4\<rparr> nxt =
    Inr (hd (written_units (length pre) (p # ps)))"
proof -
  have o: "length (pre @ [0, 0, 0, 1 :: u8]) = length pre + 4" by simp
  have lim: "(if sc_size nxt = 0 then length bs else sc_offset nxt) = length pre + 4 + length p"
    using find_after_payload [OF ok, of "pre @ [0, 0, 0, 1]" ps] unfolding nxt bs o
    by (cases ps) auto
  have byte: "bs ! (length pre + 4 + k) = p ! k" if "k < length p" for k
    using that unfolding bs by (simp add: nth_append)
  have len: "1 < length p" and lst: "last p \<noteq> 0" using ok by (auto simp: nal_payload_ok_def)
  have "bs ! (length pre + 4 + length p - 1) = last p"
    using byte [of "length p - 1"] len by (cases "p = []") (auto simp: last_conv_nth)
  with lst have trim: "trim_payload_end bs (length pre + 4) (length pre + 4 + length p) =
      length pre + 4 + length p"
    by (subst trim_payload_end.simps) simp
  have hd: "bs ! (length pre + 4) = hd p"
    using byte [of 0] len by (cases p) auto
  have "take (length p) (drop (length pre + 4) bs) = p" unfolding bs by simp
  with ok len show ?thesis
    by (auto simp: nal_unit_at_def Let_def lim trim hd nal_payload_ok_def not_less)
qed

lemma parse_nal_units_written:
  "\<lbrakk>\<forall>p \<in> set ps. nal_payload_ok p; length us + length ps \<le> kMaximumNalUnits; ps \<noteq> [];
    bs = pre @ annexb_write ps\<rbrakk> \<Longrightarrow>
   parse_nal_units bs us \<lparr>sc_offset = length pre, sc_size = 4\<rparr> =
     Inr (us @ written_units (length pre) ps)"
proof (induction ps arbitrary: us pre)
  case (Cons p ps)
  let ?n = "find_start_code bs (length pre + 4)"
  let ?u = "hd (written_units (length pre) (p # ps))"
  have ok: "nal_payload_ok p" using Cons.prems by simp
  have bs: "bs = pre @ [0, 0, 0, 1] @ p @ annexb_write ps" using Cons.prems by simp
  note unit = nal_unit_at_written [OF ok bs refl]
  have step: "parse_nal_units bs us \<lparr>sc_offset = length pre, sc_size = 4\<rparr> =
      parse_nal_units bs (us @ [?u]) ?n"
    using Cons.prems(2) unit by (subst parse_nal_units.simps) (simp add: Let_def)
  have bs': "bs = (pre @ [0, 0, 0, 1]) @ p @ annexb_write ps" using bs by simp
  have o: "length (pre @ [0, 0, 0, 1 :: u8]) = length pre + 4" by simp
  have nxt: "?n = (if ps = [] then \<lparr>sc_offset = length pre + 4 + length p, sc_size = 0\<rparr>
      else \<lparr>sc_offset = length pre + 4 + length p, sc_size = 4\<rparr>)"
    by (rule find_after_payload [OF ok, of "pre @ [0, 0, 0, 1]" ps, folded bs', unfolded o])
  show ?case
  proof (cases "ps = []")
    case True
    with step nxt show ?thesis by (simp add: parse_nal_units.simps)
  next
    case False
    have o': "length (pre @ [0, 0, 0, 1 :: u8] @ p) = length pre + 4 + length p" by simp
    have "parse_nal_units bs (us @ [?u])
        \<lparr>sc_offset = length (pre @ [0, 0, 0, 1] @ p), sc_size = 4\<rparr> =
        Inr ((us @ [?u]) @ written_units (length (pre @ [0, 0, 0, 1] @ p)) ps)"
      by (rule Cons.IH) (use Cons.prems False in auto)
    with step nxt False show ?thesis unfolding o' by simp
  qed
qed simp

lemma written_units_payloads:
  "map (au_payload \<lparr>au_bytes = pre @ annexb_write ps, nal_units = us\<rparr>)
     (written_units (length pre) ps) = map Inr ps"
proof (induction ps arbitrary: pre)
  case (Cons p ps)
  have o: "length (pre @ [0, 0, 0, 1 :: u8] @ p) = length pre + 4 + length p" by simp
  from Cons.IH [of "pre @ [0, 0, 0, 1] @ p", unfolded o] show ?case
    by (simp add: au_payload_def)
qed simp

section \<open>Properties\<close>

lemma parse_annex_b_passed:
  assumes "annexb_passed (parse_annex_b_access_unit bytes)"
  obtains units where
    "access_unit (parse_annex_b_access_unit bytes) = \<lparr>au_bytes = bytes, nal_units = units\<rparr>"
    "length units \<le> kMaximumNalUnits" "tiles bytes 0 units"
    "\<exists>u \<in> set units. 1 \<le> unit_type u \<and> unit_type u \<le> 5"
proof -
  let ?first = "find_start_code bytes 0"
  from assms obtain units where
    first: "sc_size ?first \<noteq> 0" "list_all (\<lambda>b. b = 0) (take (sc_offset ?first) bytes)"
    and units: "parse_nal_units bytes [] ?first = Inr units"
    and vcl: "list_ex (\<lambda>u. unit_type u \<ge> 1 \<and> unit_type u \<le> 5) units"
    and au: "access_unit (parse_annex_b_access_unit bytes) = \<lparr>au_bytes = bytes, nal_units = units\<rparr>"
    unfolding parse_annex_b_access_unit_def
    by (auto simp: annexb_failure_def Let_def split: if_splits sum.splits)
  have "sc_offset ?first \<le> length bytes"
    using find_start_code_range [OF first(1)] by simp
  with first(2) have "zeros_between bytes 0 (sc_offset ?first)"
    by (auto simp: zeros_between_def list_all_length)
  with parse_nal_units_tiles [OF units, of 0] first find_start_code_sound [OF first(1)]
  have "tiles bytes 0 units" "length units \<le> kMaximumNalUnits" by (auto simp: kMaximumNalUnits_def)
  with vcl show ?thesis by (auto intro!: that [OF au] simp: list_ex_iff)
qed

text \<open>The payloads of a tiled access unit are inside its bytes and acceptable.\<close>

lemma tiles_unit_ok: "tiles bs pos us \<Longrightarrow> u \<in> set us \<Longrightarrow> nal_unit_ok bs u"
  by (induction us arbitrary: pos) auto

lemma nal_unit_ok_payload:
  "nal_unit_ok bs u \<Longrightarrow> au_payload \<lparr>au_bytes = bs, nal_units = us\<rparr> u =
     Inr (take (payload_size u) (drop (payload_offset u) bs))"
  by (auto simp: nal_unit_ok_def au_payload_def)

text \<open>C7 (functional). A successful parse is sound and complete about the bytes: the access
  unit keeps the input, has at most 1024 units, its units tile the whole input (zero padding,
  a 3- or 4-byte start code, a valid payload that does not end in zero, in order, up to the
  last byte), and at least one unit is a VCL unit.\<close>

theorem parse_annex_b_sound:
  assumes "annexb_passed (parse_annex_b_access_unit bytes)"
  defines "au \<equiv> access_unit (parse_annex_b_access_unit bytes)"
  shows "au_bytes au = bytes \<and> length (nal_units au) \<le> kMaximumNalUnits \<and>
    tiles bytes 0 (nal_units au) \<and>
    (\<exists>u \<in> set (nal_units au). 1 \<le> unit_type u \<and> unit_type u \<le> 5)"
  by (rule parse_annex_b_passed [OF assms(1)]) (simp add: au_def)

definition sample_nals :: "u8 list list" where
  "sample_nals = [[0x67, 0x42, 0xE0], [0x68, 0xCE], [0x65, 0x88, 0x84]]"

lemmas annexb_eval =
  find_start_code.simps parse_nal_units.simps trim_payload_end.simps nal_unit_at_def
  parse_annex_b_access_unit_def valid_ebsp_def nal_payload_ok_def Let_def
  kMaximumAccessUnitBytes_def kMaximumNalBytes_def kMaximumNalUnits_def

lemma parse_sample:
  "annexb_passed (parse_annex_b_access_unit (annexb_write sample_nals))"
  by (simp add: sample_nals_def annexb_eval)

theorem parse_annex_b_sound_witness:
  "tiles (annexb_write sample_nals) 0
     (nal_units (access_unit (parse_annex_b_access_unit (annexb_write sample_nals))))"
  using parse_annex_b_sound [OF parse_sample] by blast

text \<open>C21 (roundtrip). Writing valid payloads with 4-byte start codes and parsing the result
  gives back exactly those payloads, in order.\<close>

theorem parse_annex_b_roundtrip:
  assumes "ps \<noteq> []" "length ps \<le> kMaximumNalUnits"
    and "length (annexb_write ps) \<le> kMaximumAccessUnitBytes"
    and "\<forall>p \<in> set ps. nal_payload_ok p"
    and "\<exists>p \<in> set ps. 1 \<le> hd p AND 0x1F \<and> hd p AND 0x1F \<le> 5"
  defines "r \<equiv> parse_annex_b_access_unit (annexb_write ps)"
  shows "annexb_passed r \<and> nal_units (access_unit r) = written_units 0 ps \<and>
    map (au_payload (access_unit r)) (nal_units (access_unit r)) = map Inr ps"
proof -
  let ?bs = "annexb_write ps"
  from assms(1) obtain p qs where ps: "ps = p # qs" by (cases ps) auto
  then have "?bs \<noteq> []" by simp
  have "start_code_at ?bs 0 = 4" using ps by (simp add: start_code_at_def)
  then have first: "find_start_code ?bs 0 = \<lparr>sc_offset = 0, sc_size = 4\<rparr>"
    using find_start_code_hit [of ?bs 0 0] by simp
  have units: "parse_nal_units ?bs [] \<lparr>sc_offset = 0, sc_size = 4\<rparr> = Inr (written_units 0 ps)"
    using parse_nal_units_written [of ps "[]" ?bs "[]"] assms by simp
  have types: "map unit_type (written_units off ps) = map (\<lambda>p. hd p AND 0x1F) ps" for off
    by (induction ps arbitrary: off) auto
  have "list_ex (\<lambda>t. t \<ge> 1 \<and> t \<le> 5) (map unit_type (written_units 0 ps))"
    using assms(5) unfolding types by (auto simp: list_ex_iff)
  then have vcl: "list_ex (\<lambda>u. unit_type u \<ge> 1 \<and> unit_type u \<le> 5) (written_units 0 ps)"
    by (simp add: list_ex_iff)
  have r: "r = \<lparr>annexb_passed = True, annexb_reason = ''annex_b_access_unit_valid'',
      access_unit = \<lparr>au_bytes = ?bs, nal_units = written_units 0 ps\<rparr>\<rparr>"
    using \<open>?bs \<noteq> []\<close> assms(3) vcl
    by (simp add: r_def parse_annex_b_access_unit_def first units Let_def)
  show ?thesis
    using written_units_payloads [of "[]" ps] by (simp add: r)
qed

theorem parse_annex_b_roundtrip_witness:
  "map (au_payload (access_unit (parse_annex_b_access_unit (annexb_write sample_nals))))
     (nal_units (access_unit (parse_annex_b_access_unit (annexb_write sample_nals)))) =
   map Inr sample_nals"
proof -
  have "sample_nals \<noteq> []" "length sample_nals \<le> kMaximumNalUnits"
    "length (annexb_write sample_nals) \<le> kMaximumAccessUnitBytes"
    "\<forall>p \<in> set sample_nals. nal_payload_ok p"
    "\<exists>p \<in> set sample_nals. 1 \<le> hd p AND 0x1F \<and> hd p AND 0x1F \<le> 5"
    by (simp_all add: sample_nals_def annexb_eval)
  then show ?thesis using parse_annex_b_roundtrip [of sample_nals] by blast
qed

text \<open>C22 (equivalence). The emulation-prevention decoder is the exact inverse of the
  reference encoder: it accepts a NAL payload with a clear forbidden bit precisely when the
  bytes after the header encode some non-empty RBSP, and then returns that RBSP.\<close>

theorem annex_b_nal_to_rbsp_inverse:
  "annex_b_nal_to_rbsp (header # ebsp) = Inr rbsp \<longleftrightarrow>
     header AND 0x80 = 0 \<and> rbsp \<noteq> [] \<and> ebsp = insert_emulation_prevention 0 rbsp"
  (is "?decoded \<longleftrightarrow> ?encoded")
proof
  assume ?decoded
  then have valid: "header AND 0x80 = 0" "ebsp \<noteq> []" "ebsp_scan 0 ebsp" and r: "rbsp = rbsp_loop 0 ebsp"
    by (auto simp: annex_b_nal_to_rbsp_def valid_ebsp_def split: if_splits)
  with insert_rbsp_loop [OF valid(3)] show ?encoded by auto
next
  assume ?encoded
  then show ?decoded
    using ebsp_scan_insert [of 0 rbsp] rbsp_loop_insert [of 0 rbsp]
    by (auto simp: annex_b_nal_to_rbsp_def valid_ebsp_def not_le Suc_le_eq)
qed

end
