(* ===== verification/H264_Parser.thy ===== *)
theory H264_Parser
  imports Annex_B "HOL-Library.Monad_Syntax" "HOL-Library.Signed_Division"
begin

text \<open>
  The H.264 sequence-parameter-set parser (\<^verbatim>\<open>src/media/h264_sps.cpp\<close>,
  \<^verbatim>\<open>include/glyphrelay/h264_sps.hpp\<close>). A \<open>BitReader\<close> method that returns \<open>false\<close> is
  \<open>None\<close>: every caller gives up at once, so the reader is never used after a failed read.
  Out-parameters are results. \<open>parse_vui\<close> writes into the result even when it fails, so it
  returns the record it has reached together with its verdict.
\<close>

section \<open>Bit reader\<close>

record bit_reader =
  br_bytes :: "u8 list"
  bit_offset :: nat

definition remaining_bits :: "bit_reader \<Rightarrow> nat" where
  "remaining_bits r = length (br_bytes r) * 8 - bit_offset r"

fun read_bits_loop :: "nat \<Rightarrow> u32 \<Rightarrow> bit_reader \<Rightarrow> u32 \<times> bit_reader" where
  "read_bits_loop 0 value r = (value, r)"
| "read_bits_loop (Suc count) value r =
     (let byte = br_bytes r ! (bit_offset r div 8);
          shift = 7 - bit_offset r mod 8
      in read_bits_loop count (push_bit 1 value OR (ucast (drop_bit shift byte) AND 1))
           (r\<lparr>bit_offset := bit_offset r + 1\<rparr>))"

definition read_bits :: "nat \<Rightarrow> bit_reader \<Rightarrow> (u32 \<times> bit_reader) option" where
  "read_bits count r =
     (if count > 32 \<or> count > remaining_bits r then None else Some (read_bits_loop count 0 r))"

definition read_bit :: "bit_reader \<Rightarrow> (bool \<times> bit_reader) option" where
  "read_bit r = do { (b, r) \<leftarrow> read_bits 1 r; Some (b \<noteq> 0, r) }"

text \<open>The loop of \<open>read_ue\<close> that counts leading zeroes; 31 of them are refused.\<close>

function ue_prefix :: "nat \<Rightarrow> bit_reader \<Rightarrow> (nat \<times> bit_reader) option" where
  "ue_prefix leading_zeroes r =
     (case read_bit r of
        None \<Rightarrow> None
      | Some (b, r') \<Rightarrow>
          if b then Some (leading_zeroes, r')
          else if leading_zeroes + 1 \<ge> 31 then None
          else ue_prefix (leading_zeroes + 1) r')"
  by pat_completeness auto
termination
  by (relation "measure (\<lambda>(leading_zeroes, r). 31 - leading_zeroes)") auto

declare ue_prefix.simps [simp del]

definition read_ue :: "bit_reader \<Rightarrow> (u32 \<times> bit_reader) option" where
  "read_ue r = do {
     (leading_zeroes, r) \<leftarrow> ue_prefix 0 r;
     (suffix, r) \<leftarrow> (if leading_zeroes \<noteq> 0 then read_bits leading_zeroes r else Some (0, r));
     Some ((push_bit leading_zeroes 1 - 1) + suffix, r)
   }"

definition read_se :: "bit_reader \<Rightarrow> (int \<times> bit_reader) option" where
  "read_se r = do {
     (code, r) \<leftarrow> read_ue r;
     let magnitude = sint ((code + 1) div 2);
     Some (if code AND 1 \<noteq> 0 then magnitude else - magnitude, r)
   }"

text \<open>A failed test inside a chain of reads.\<close>

definition require :: "bool \<Rightarrow> unit option" where
  "require b = (if b then Some () else None)"

section \<open>Syntax elements that are skipped\<close>

fun skip_scaling_list_loop :: "nat \<Rightarrow> int \<Rightarrow> int \<Rightarrow> bit_reader \<Rightarrow> bit_reader option" where
  "skip_scaling_list_loop 0 last_scale next_scale r = Some r"
| "skip_scaling_list_loop (Suc count) last_scale next_scale r =
     (if next_scale \<noteq> 0 then do {
        (delta_scale, r) \<leftarrow> read_se r;
        let next_scale = (last_scale + delta_scale + 256) smod 256;
        skip_scaling_list_loop count (if next_scale = 0 then last_scale else next_scale) next_scale r
      }
      else skip_scaling_list_loop count (if next_scale = 0 then last_scale else next_scale) next_scale r)"

definition skip_scaling_list :: "nat \<Rightarrow> bit_reader \<Rightarrow> bit_reader option" where
  "skip_scaling_list count r = skip_scaling_list_loop count 8 8 r"

text \<open>The loop over the scaling matrix: \<open>index\<close> runs up to \<open>count\<close>.\<close>

fun skip_scaling_matrix :: "nat list \<Rightarrow> bit_reader \<Rightarrow> bit_reader option" where
  "skip_scaling_matrix [] r = Some r"
| "skip_scaling_matrix (index # rest) r = do {
     (present, r) \<leftarrow> read_bit r;
     r \<leftarrow> (if present then skip_scaling_list (if index < 6 then 16 else 64) r else Some r);
     skip_scaling_matrix rest r
   }"

definition high_profiles :: "u8 list" where
  "high_profiles = [100, 110, 122, 244, 44, 83, 86, 118, 128, 138, 139, 134, 135]"

text \<open>\<open>parse_high_profile_fields\<close>: the chroma format and the separate-plane flag come in with
  their defaults and go out as read.\<close>

definition parse_high_profile_fields ::
  "u8 \<Rightarrow> u32 \<Rightarrow> bool \<Rightarrow> bit_reader \<Rightarrow> (u32 \<times> bool \<times> bit_reader) option" where
  "parse_high_profile_fields profile_idc chroma_format_idc separate_color_plane r =
     (if profile_idc \<notin> set high_profiles then Some (chroma_format_idc, separate_color_plane, r)
      else do {
        (chroma_format_idc, r) \<leftarrow> read_ue r;
        _ \<leftarrow> require (chroma_format_idc \<le> 3);
        (separate_color_plane, r) \<leftarrow>
          (if chroma_format_idc = 3 then read_bit r else Some (separate_color_plane, r));
        (bit_depth_luma_minus8, r) \<leftarrow> read_ue r;
        _ \<leftarrow> require (bit_depth_luma_minus8 \<le> 6);
        (bit_depth_chroma_minus8, r) \<leftarrow> read_ue r;
        _ \<leftarrow> require (bit_depth_chroma_minus8 \<le> 6);
        (qpprime_bypass, r) \<leftarrow> read_bit r;
        (scaling_matrix, r) \<leftarrow> read_bit r;
        r \<leftarrow> (if scaling_matrix
              then skip_scaling_matrix [0..<(if chroma_format_idc = 3 then 12 else 8)] r
              else Some r);
        Some (chroma_format_idc, separate_color_plane, r)
      })"

fun skip_hrd_entries :: "nat \<Rightarrow> bit_reader \<Rightarrow> bit_reader option" where
  "skip_hrd_entries 0 r = Some r"
| "skip_hrd_entries (Suc n) r = do {
     (ignored, r) \<leftarrow> read_ue r;
     (ignored, r) \<leftarrow> read_ue r;
     (cbr, r) \<leftarrow> read_bit r;
     skip_hrd_entries n r
   }"

definition skip_hrd :: "bit_reader \<Rightarrow> bit_reader option" where
  "skip_hrd r = do {
     (cpb_count_minus1, r) \<leftarrow> read_ue r;
     _ \<leftarrow> require (cpb_count_minus1 \<le> 31);
     (ignored, r) \<leftarrow> read_bits 4 r;
     (ignored, r) \<leftarrow> read_bits 4 r;
     r \<leftarrow> skip_hrd_entries (unat cpb_count_minus1 + 1) r;
     (ignored, r) \<leftarrow> read_bits 5 r;
     (ignored, r) \<leftarrow> read_bits 5 r;
     (ignored, r) \<leftarrow> read_bits 5 r;
     (ignored, r) \<leftarrow> read_bits 5 r;
     Some r
   }"

section \<open>Sequence parameter sets\<close>

datatype h264_profile_family =
    Constrained_baseline | Baseline | Main_profile | Extended | High | Constrained_high
  | Unknown_profile

record h264_profile_level_id =
  profile_idc :: u8
  profile_iop :: u8
  level_idc :: u8
  family :: h264_profile_family

record h264_sps_info =
  profile_level :: h264_profile_level_id
  sps_id :: u32
  coded_width :: nat
  coded_height :: nat
  visible_width :: nat
  visible_height :: nat
  frame_mbs_only :: bool
  vui_present :: bool
  video_signal_present :: bool
  full_range :: bool
  color_description_present :: bool
  color_primaries :: u8
  transfer_characteristics :: u8
  matrix_coefficients :: u8

record h264_sps_parse_result =
  sps_passed :: bool
  sps_reason :: string
  sps_info :: h264_sps_info

definition default_sps_info :: h264_sps_info where
  "default_sps_info =
     \<lparr>profile_level =
        \<lparr>profile_idc = 0, profile_iop = 0, level_idc = 0, family = Unknown_profile\<rparr>,
      sps_id = 0, coded_width = 0, coded_height = 0, visible_width = 0, visible_height = 0,
      frame_mbs_only = False, vui_present = False, video_signal_present = False,
      full_range = False, color_description_present = False, color_primaries = 2,
      transfer_characteristics = 2, matrix_coefficients = 2\<rparr>"

definition classify_h264_profile :: "u8 \<Rightarrow> u8 \<Rightarrow> h264_profile_family" where
  "classify_h264_profile idc iop =
     (if (idc = 66 \<and> iop AND 0x4F = 0x40) \<or> (idc = 77 \<and> iop AND 0x8F = 0x80) \<or>
         (idc = 88 \<and> iop AND 0xCF = 0xC0) then Constrained_baseline
      else if idc = 66 \<and> iop AND 0x4F = 0 then Baseline
      else if idc = 77 \<and> iop AND 0xAF = 0 then Main_profile
      else if idc = 88 \<and> iop AND 0xCF = 0 then Extended
      else if idc = 100 \<and> iop AND 0xFF = 0x0C then Constrained_high
      else if idc = 100 then High
      else Unknown_profile)"

fun h264_profile_family_name :: "h264_profile_family \<Rightarrow> string" where
  "h264_profile_family_name Constrained_baseline = ''constrained_baseline''"
| "h264_profile_family_name Baseline = ''baseline''"
| "h264_profile_family_name Main_profile = ''main''"
| "h264_profile_family_name Extended = ''extended''"
| "h264_profile_family_name High = ''high''"
| "h264_profile_family_name Constrained_high = ''constrained_high''"
| "h264_profile_family_name Unknown_profile = ''unknown''"

text \<open>One read inside \<open>parse_vui\<close>: a failed read ends the parse with the record so far.\<close>

definition vui_read ::
  "h264_sps_info \<Rightarrow> 'a option \<Rightarrow> ('a \<Rightarrow> bool \<times> h264_sps_info) \<Rightarrow> bool \<times> h264_sps_info" where
  "vui_read info m k = (case m of None \<Rightarrow> (False, info) | Some x \<Rightarrow> k x)"

text \<open>Everything of \<open>parse_vui\<close> after the video signal type, which writes nothing.\<close>

definition skip_vui_tail :: "bit_reader \<Rightarrow> bit_reader option" where
  "skip_vui_tail r = do {
     (present, r) \<leftarrow> read_bit r;
     r \<leftarrow> (if present then do {
            (v, r) \<leftarrow> read_ue r;
            (v, r) \<leftarrow> read_ue r;
            Some r } else Some r);
     (present, r) \<leftarrow> read_bit r;
     r \<leftarrow> (if present then do {
            (v, r) \<leftarrow> read_bits 32 r;
            (v, r) \<leftarrow> read_bits 32 r;
            (fixed, r) \<leftarrow> read_bit r;
            Some r } else Some r);
     (nal_hrd, r) \<leftarrow> read_bit r;
     r \<leftarrow> (if nal_hrd then skip_hrd r else Some r);
     (vcl_hrd, r) \<leftarrow> read_bit r;
     r \<leftarrow> (if vcl_hrd then skip_hrd r else Some r);
     r \<leftarrow> (if nal_hrd \<or> vcl_hrd then do { (low_delay, r) \<leftarrow> read_bit r; Some r } else Some r);
     (pic_struct, r) \<leftarrow> read_bit r;
     (present, r) \<leftarrow> read_bit r;
     r \<leftarrow> (if present then do {
            (motion, r) \<leftarrow> read_bit r;
            (v, r) \<leftarrow> read_ue r;
            (v, r) \<leftarrow> read_ue r;
            (v, r) \<leftarrow> read_ue r;
            (v, r) \<leftarrow> read_ue r;
            (v, r) \<leftarrow> read_ue r;
            (v, r) \<leftarrow> read_ue r;
            Some r } else Some r);
     Some r
   }"

text \<open>The aspect-ratio and overscan fields that \<open>parse_vui\<close> reads first.\<close>

definition skip_vui_head :: "bit_reader \<Rightarrow> bit_reader option" where
  "skip_vui_head r = do {
     (present, r) \<leftarrow> read_bit r;
     r \<leftarrow> (if present then do {
            (value, r) \<leftarrow> read_bits 8 r;
            if value = 255 then do {
              (value, r) \<leftarrow> read_bits 16 r;
              (value, r) \<leftarrow> read_bits 16 r;
              Some r }
            else Some r }
          else Some r);
     (present, r) \<leftarrow> read_bit r;
     (present, r) \<leftarrow> (if present then read_bit r else Some (present, r));
     Some r
   }"

definition parse_vui :: "bit_reader \<Rightarrow> h264_sps_info \<Rightarrow> bool \<times> h264_sps_info" where
  "parse_vui r info =
     vui_read info (skip_vui_head r) (\<lambda>r.
     vui_read info (read_bit r) (\<lambda>(signal, r).
     let info = info\<lparr>video_signal_present := signal\<rparr> in
     if \<not> signal then vui_read info (skip_vui_tail r) (\<lambda>r. (True, info))
     else
       vui_read info (read_bits 3 r) (\<lambda>(value, r).
       vui_read info (read_bit r) (\<lambda>(full, r).
       let info = info\<lparr>full_range := full\<rparr> in
       vui_read info (read_bit r) (\<lambda>(description, r).
       let info = info\<lparr>color_description_present := description\<rparr> in
       if \<not> description then vui_read info (skip_vui_tail r) (\<lambda>r. (True, info))
       else
         vui_read info (read_bits 8 r) (\<lambda>(value, r).
         let info = info\<lparr>color_primaries := ucast value\<rparr> in
         vui_read info (read_bits 8 r) (\<lambda>(value, r).
         let info = info\<lparr>transfer_characteristics := ucast value\<rparr> in
         vui_read info (read_bits 8 r) (\<lambda>(value, r).
         let info = info\<lparr>matrix_coefficients := ucast value\<rparr> in
         vui_read info (skip_vui_tail r) (\<lambda>r. (True, info))))))))))"

section \<open>The parser\<close>

text \<open>The stages of \<open>parse_h264_sps\<close>, in the order of the code.\<close>

definition sps_header :: "bit_reader \<Rightarrow> (u32 \<times> u32 \<times> u32 \<times> u32 \<times> bit_reader) option" where
  "sps_header r = do {
     (idc, r) \<leftarrow> read_bits 8 r;
     (iop, r) \<leftarrow> read_bits 8 r;
     _ \<leftarrow> require (iop AND 3 = 0);
     (level, r) \<leftarrow> read_bits 8 r;
     (identifier, r) \<leftarrow> read_ue r;
     Some (idc, iop, level, identifier, r)
   }"

definition sps_frame_numbering :: "bit_reader \<Rightarrow> (u32 \<times> bit_reader) option" where
  "sps_frame_numbering r = do {
     (log2_max_frame_num_minus4, r) \<leftarrow> read_ue r;
     _ \<leftarrow> require (log2_max_frame_num_minus4 \<le> 12);
     (pic_order_count_type, r) \<leftarrow> read_ue r;
     _ \<leftarrow> require (pic_order_count_type \<le> 2);
     Some (pic_order_count_type, r)
   }"

fun skip_signed :: "nat \<Rightarrow> bit_reader \<Rightarrow> bit_reader option" where
  "skip_signed 0 r = Some r"
| "skip_signed (Suc n) r = do { (ignored, r) \<leftarrow> read_se r; skip_signed n r }"

definition sps_picture_order :: "u32 \<Rightarrow> bit_reader \<Rightarrow> string + bit_reader" where
  "sps_picture_order pic_order_count_type r =
     (if pic_order_count_type = 0 then
        (case do { (lsb, r) \<leftarrow> read_ue r; _ \<leftarrow> require (lsb \<le> 12); Some r } of
           None \<Rightarrow> Inl ''sps_invalid_picture_order_count''
         | Some r \<Rightarrow> Inr r)
      else if pic_order_count_type = 1 then
        (case do { (flag, r) \<leftarrow> read_bit r; (ignored, r) \<leftarrow> read_se r; (ignored, r) \<leftarrow> read_se r;
                   (cycle, r) \<leftarrow> read_ue r; _ \<leftarrow> require (cycle \<le> 255); Some (cycle, r) } of
           None \<Rightarrow> Inl ''sps_invalid_picture_order_cycle''
         | Some (cycle, r) \<Rightarrow>
             (case skip_signed (unat cycle) r of
                None \<Rightarrow> Inl ''sps_truncated_picture_order_cycle''
              | Some r \<Rightarrow> Inr r))
      else Inr r)"

definition sps_geometry :: "bit_reader \<Rightarrow> (u32 \<times> u32 \<times> bool \<times> bit_reader) option" where
  "sps_geometry r = do {
     (max_num_ref_frames, r) \<leftarrow> read_ue r;
     _ \<leftarrow> require (max_num_ref_frames \<le> 16);
     (gaps_allowed, r) \<leftarrow> read_bit r;
     (width_in_mbs_minus1, r) \<leftarrow> read_ue r;
     _ \<leftarrow> require (width_in_mbs_minus1 \<le> 1023);
     (height_in_map_units_minus1, r) \<leftarrow> read_ue r;
     _ \<leftarrow> require (height_in_map_units_minus1 \<le> 1023);
     (mbs_only, r) \<leftarrow> read_bit r;
     Some (width_in_mbs_minus1, height_in_map_units_minus1, mbs_only, r)
   }"

definition sps_crop_flags :: "bit_reader \<Rightarrow> (bool \<times> bit_reader) option" where
  "sps_crop_flags r = do {
     (direct_8x8_inference, r) \<leftarrow> read_bit r;
     (frame_cropping, r) \<leftarrow> read_bit r;
     Some (frame_cropping, r)
   }"

definition sps_crop :: "bool \<Rightarrow> bit_reader \<Rightarrow> (u32 \<times> u32 \<times> u32 \<times> u32 \<times> bit_reader) option" where
  "sps_crop frame_cropping r =
     (if \<not> frame_cropping then Some (0, 0, 0, 0, r)
      else do {
        (crop_left, r) \<leftarrow> read_ue r;
        (crop_right, r) \<leftarrow> read_ue r;
        (crop_top, r) \<leftarrow> read_ue r;
        (crop_bottom, r) \<leftarrow> read_ue r;
        Some (crop_left, crop_right, crop_top, crop_bottom, r)
      })"

definition sps_failure :: "string \<Rightarrow> h264_sps_info \<Rightarrow> h264_sps_parse_result" where
  "sps_failure reason info = \<lparr>sps_passed = False, sps_reason = reason, sps_info = info\<rparr>"

text \<open>The arithmetic at the end: all quantities are \<open>size_t\<close>, and no product can wrap
  because every factor is below \<open>2 ^ 33\<close>.\<close>

definition sps_finish ::
  "u32 \<Rightarrow> bool \<Rightarrow> u32 \<Rightarrow> u32 \<Rightarrow> u32 \<times> u32 \<times> u32 \<times> u32 \<Rightarrow> h264_sps_info \<Rightarrow> h264_sps_parse_result" where
  "sps_finish chroma_format_idc separate_color_plane width_in_mbs_minus1 height_in_map_units_minus1
     crop info =
     (case crop of (crop_left, crop_right, crop_top, crop_bottom) \<Rightarrow>
      let frame_factor = (if frame_mbs_only info then 1 else 2);
          cw = (unat width_in_mbs_minus1 + 1) * 16;
          ch = (unat height_in_map_units_minus1 + 1) * 16 * frame_factor;
          info = info\<lparr>coded_width := cw, coded_height := ch\<rparr>;
          chroma_array_type = (if separate_color_plane then 0 else unat chroma_format_idc);
          crop_unit_x = (if chroma_array_type = 0 \<or> chroma_array_type = 3 then 1 else 2);
          sub_height = (if chroma_array_type = 1 then 2 else 1);
          crop_unit_y = (if chroma_array_type = 0 then 1 else sub_height) * frame_factor;
          horizontal_crop = (unat crop_left + unat crop_right) * crop_unit_x;
          vertical_crop = (unat crop_top + unat crop_bottom) * crop_unit_y
      in if horizontal_crop \<ge> cw \<or> vertical_crop \<ge> ch
         then sps_failure ''sps_crop_exceeds_coded_geometry'' info
         else \<lparr>sps_passed = True, sps_reason = ''sps_valid'',
               sps_info = info\<lparr>visible_width := cw - horizontal_crop,
                               visible_height := ch - vertical_crop\<rparr>\<rparr>)"

definition sps_vui :: "bit_reader \<Rightarrow> h264_sps_info \<Rightarrow> bool \<times> h264_sps_info" where
  "sps_vui r info =
     vui_read info (read_bit r) (\<lambda>(present, r).
       let info = info\<lparr>vui_present := present\<rparr>
       in if present then parse_vui r info else (True, info))"

text \<open>The second half of the parser, from the geometry on.\<close>

definition sps_layout :: "u32 \<Rightarrow> bool \<Rightarrow> bit_reader \<Rightarrow> h264_sps_info \<Rightarrow> h264_sps_parse_result" where
  "sps_layout chroma_format_idc separate_color_plane r info =
     (case sps_geometry r of
        None \<Rightarrow> sps_failure ''sps_invalid_geometry'' info
      | Some (width, height, mbs_only, r) \<Rightarrow>
          let info = info\<lparr>frame_mbs_only := mbs_only\<rparr> in
          (case (if mbs_only then Some (False, r) else read_bit r) of
             None \<Rightarrow> sps_failure ''sps_truncated_interlace_flag'' info
           | Some (mb_adaptive_frame_field, r) \<Rightarrow>
          (case sps_crop_flags r of
             None \<Rightarrow> sps_failure ''sps_truncated_crop_flags'' info
           | Some (frame_cropping, r) \<Rightarrow>
          (case sps_crop frame_cropping r of
             None \<Rightarrow> sps_failure ''sps_invalid_crop'' info
           | Some (crop_left, crop_right, crop_top, crop_bottom, r) \<Rightarrow>
          (case sps_vui r info of
             (False, info) \<Rightarrow> sps_failure ''sps_invalid_vui'' info
           | (True, info) \<Rightarrow>
               sps_finish chroma_format_idc separate_color_plane width height
                 (crop_left, crop_right, crop_top, crop_bottom) info)))))"

definition parse_sps_rbsp :: "bit_reader \<Rightarrow> h264_sps_parse_result" where
  "parse_sps_rbsp r =
     (let info = default_sps_info in
      case sps_header r of
        None \<Rightarrow> sps_failure ''sps_invalid_profile_or_identifier'' info
      | Some (idc, iop, level, identifier, r) \<Rightarrow>
          let info = info\<lparr>sps_id := identifier\<rparr> in
          if identifier > 31 then sps_failure ''sps_invalid_profile_or_identifier'' info
          else
            let info = info\<lparr>profile_level :=
                  \<lparr>profile_idc = ucast idc, profile_iop = ucast iop, level_idc = ucast level,
                   family = classify_h264_profile (ucast idc) (ucast iop)\<rparr>\<rparr> in
            (case parse_high_profile_fields (ucast idc) 1 False r of
               None \<Rightarrow> sps_failure ''sps_invalid_high_profile_fields'' info
             | Some (chroma_format_idc, separate_color_plane, r) \<Rightarrow>
            (case sps_frame_numbering r of
               None \<Rightarrow> sps_failure ''sps_invalid_frame_numbering'' info
             | Some (pic_order_count_type, r) \<Rightarrow>
            (case sps_picture_order pic_order_count_type r of
               Inl reason \<Rightarrow> sps_failure reason info
             | Inr r \<Rightarrow> sps_layout chroma_format_idc separate_color_plane r info))))"

definition parse_h264_sps :: "u8 list \<Rightarrow> h264_sps_parse_result" where
  "parse_h264_sps nal_payload =
     (if nal_payload = [] \<or> hd nal_payload AND 0x1F \<noteq> 7
        then sps_failure ''sps_nal_unit_required'' default_sps_info
      else case annex_b_nal_to_rbsp nal_payload of
          Inl _ \<Rightarrow> sps_failure ''sps_invalid_ebsp'' default_sps_info
        | Inr rbsp \<Rightarrow> parse_sps_rbsp \<lparr>br_bytes = rbsp, bit_offset = 0\<rparr>)"

section \<open>The bit reader refines a list of bits\<close>

definition byte_bits :: "u8 \<Rightarrow> bool list" where
  "byte_bits b = map (\<lambda>i. bit b (7 - i)) [0..<8]"

definition stream_bits :: "u8 list \<Rightarrow> bool list" where
  "stream_bits bs = concat (map byte_bits bs)"

definition reader_bits :: "bit_reader \<Rightarrow> bool list" where
  "reader_bits r = drop (bit_offset r) (stream_bits (br_bytes r))"

definition bits_value :: "bool list \<Rightarrow> nat" where
  "bits_value bs = foldl (\<lambda>v b. 2 * v + of_bool b) 0 bs"

lemma length_byte_bits [simp]: "length (byte_bits b) = 8"
  by (simp add: byte_bits_def)

lemma length_stream_bits [simp]: "length (stream_bits bs) = 8 * length bs"
  by (induction bs) (simp_all add: stream_bits_def)

lemma nth_byte_bits: "k < 8 \<Longrightarrow> byte_bits b ! k = bit b (7 - k)"
  by (simp add: byte_bits_def)

lemma nth_stream_bits:
  "k < 8 * length bs \<Longrightarrow> stream_bits bs ! k = bit (bs ! (k div 8)) (7 - k mod 8)"
proof (induction bs arbitrary: k)
  case (Cons b bs)
  have split: "stream_bits (b # bs) = byte_bits b @ stream_bits bs"
    by (simp add: stream_bits_def)
  show ?case
  proof (cases "k < 8")
    case True
    then show ?thesis by (simp add: split nth_append nth_byte_bits)
  next
    case False
    then have "k div 8 = Suc ((k - 8) div 8)" "k mod 8 = (k - 8) mod 8" "k - 8 < 8 * length bs"
      using Cons.prems by (auto simp: le_div_geq le_mod_geq)
    with Cons.IH [of "k - 8"] False show ?thesis by (simp add: split nth_append)
  qed
qed simp

lemma remaining_bits_eq: "remaining_bits r = length (reader_bits r)"
  by (simp add: remaining_bits_def reader_bits_def mult.commute)

lemma bit_shift_step:
  "push_bit 1 (word_of_nat v :: u32) OR (ucast (drop_bit s (b :: u8)) AND 1) =
     word_of_nat (2 * v + of_bool (bit b s))"
proof -
  have "ucast (drop_bit s b) AND (1 :: u32) = of_bool (bit b s)"
    by (rule bit_eqI) (auto simp: bit_simps)
  moreover have "push_bit 1 (word_of_nat v :: u32) OR of_bool c = word_of_nat (2 * v + of_bool c)" for c
    by (cases c) (simp_all add: or_one_eq)
  ultimately show ?thesis by simp
qed

lemma reader_bits_advance:
  "reader_bits (r\<lparr>bit_offset := bit_offset r + n\<rparr>) = drop n (reader_bits r)"
  by (simp add: reader_bits_def add.commute)

lemma reader_bits_hd:
  assumes "reader_bits r \<noteq> []"
  shows "hd (reader_bits r) = bit (br_bytes r ! (bit_offset r div 8)) (7 - bit_offset r mod 8)"
proof -
  from assms have "bit_offset r < 8 * length (br_bytes r)" by (simp add: reader_bits_def)
  then show ?thesis by (simp add: reader_bits_def hd_drop_conv_nth nth_stream_bits)
qed

lemma read_bits_loop_spec:
  "n \<le> length (reader_bits r) \<Longrightarrow>
   read_bits_loop n (word_of_nat v) r =
     (word_of_nat (foldl (\<lambda>v b. 2 * v + of_bool b) v (take n (reader_bits r))),
      r\<lparr>bit_offset := bit_offset r + n\<rparr>)"
proof (induction n arbitrary: v r)
  case (Suc n)
  let ?b = "bit (br_bytes r ! (bit_offset r div 8)) (7 - bit_offset r mod 8)"
  let ?r = "r\<lparr>bit_offset := bit_offset r + 1\<rparr>"
  obtain xs where xs: "reader_bits r = ?b # xs"
    using Suc.prems reader_bits_hd [of r] by (cases "reader_bits r") auto
  have after: "reader_bits ?r = xs" using reader_bits_advance [of r 1] xs by simp
  have "read_bits_loop (Suc n) (word_of_nat v) r = read_bits_loop n (word_of_nat (2 * v + of_bool ?b)) ?r"
    by (simp only: read_bits_loop.simps Let_def bit_shift_step)
  also have "\<dots> = (word_of_nat (foldl (\<lambda>v b. 2 * v + of_bool b) (2 * v + of_bool ?b) (take n (reader_bits ?r))),
      ?r\<lparr>bit_offset := bit_offset ?r + n\<rparr>)"
    by (rule Suc.IH) (use Suc.prems after xs in simp)
  finally show ?case unfolding after by (simp add: xs)
qed simp

text \<open>\<open>read_bits\<close> takes the value of the next \<open>count\<close> bits and moves past them; it fails
  exactly when more than 32 or more than the remaining bits are asked for.\<close>

lemma read_bits_spec:
  "read_bits n r =
     (if n \<le> 32 \<and> n \<le> length (reader_bits r)
      then Some (word_of_nat (bits_value (take n (reader_bits r))),
                 r\<lparr>bit_offset := bit_offset r + n\<rparr>)
      else None)"
  using read_bits_loop_spec [of n r 0]
  by (auto simp: read_bits_def remaining_bits_eq bits_value_def)

lemma read_bits_append:
  assumes "reader_bits r = xs @ ys" "length xs = n" "n \<le> 32"
  shows "\<exists>r'. read_bits n r = Some (word_of_nat (bits_value xs), r') \<and> reader_bits r' = ys"
  using assms by (simp add: read_bits_spec reader_bits_advance)

lemma read_bit_cons:
  assumes "reader_bits r = b # ys"
  shows "\<exists>r'. read_bit r = Some (b, r') \<and> reader_bits r' = ys"
  using read_bits_append [of r "[b]" ys 1] assms
  by (auto simp: read_bit_def bits_value_def)

section \<open>Exponential Golomb codes\<close>

fun nat_bits :: "nat \<Rightarrow> nat \<Rightarrow> bool list" where
  "nat_bits 0 x = []"
| "nat_bits (Suc k) x = bit x k # nat_bits k x"

fun log2_floor :: "nat \<Rightarrow> nat" where
  "log2_floor n = (if n \<le> 1 then 0 else Suc (log2_floor (n div 2)))"

declare log2_floor.simps [simp del]

text \<open>The code of \<open>v\<close> (H.264 9.1): as many zeroes as there are bits below the leading bit
  of \<open>v + 1\<close>, then \<open>v + 1\<close> itself.\<close>

definition ue_bits :: "nat \<Rightarrow> bool list" where
  "ue_bits v = (let k = log2_floor (v + 1) in replicate k False @ True # nat_bits k (v + 1))"

lemma length_nat_bits [simp]: "length (nat_bits k x) = k"
  by (induction k) auto

lemma bits_value_snoc: "bits_value (xs @ [b]) = 2 * bits_value xs + of_bool b"
  by (simp add: bits_value_def)

lemma foldl_bits: "foldl (\<lambda>v b. 2 * v + of_bool b) a xs = a * 2 ^ length xs + bits_value xs"
proof (induction xs rule: rev_induct)
  case (snoc b xs)
  then show ?case by (simp add: bits_value_snoc algebra_simps)
qed (simp add: bits_value_def)

lemma bits_value_Cons: "bits_value (b # xs) = of_bool b * 2 ^ length xs + bits_value xs"
  using foldl_bits [of "of_bool b" xs] by (simp add: bits_value_def)

lemma bits_value_nat_bits: "bits_value (nat_bits k x) = x mod 2 ^ k"
proof (induction k)
  case (Suc k)
  have "x mod 2 ^ Suc k = of_bool (bit x k) * 2 ^ k + x mod 2 ^ k"
    using take_bit_Suc_from_most [of k x] by (simp only: take_bit_eq_mod mult.commute)
  with Suc show ?case by (simp add: bits_value_Cons)
qed (simp add: bits_value_def)

lemma log2_floor_bounds: "1 \<le> n \<Longrightarrow> 2 ^ log2_floor n \<le> n \<and> n < 2 ^ Suc (log2_floor n)"
proof (induction n rule: log2_floor.induct)
  case (1 n)
  show ?case
  proof (cases "n \<le> 1")
    case True
    with 1 show ?thesis by (simp add: log2_floor.simps)
  next
    case False
    with "1.IH" have IH: "2 ^ log2_floor (n div 2) \<le> n div 2" "n div 2 < 2 ^ Suc (log2_floor (n div 2))"
      by auto
    have "log2_floor n = Suc (log2_floor (n div 2))" using False by (subst log2_floor.simps) simp
    with IH show ?thesis by auto
  qed
qed

lemma ue_prefix_zeroes:
  "reader_bits r = replicate k False @ True # ys \<Longrightarrow> z + k \<le> 30 \<Longrightarrow>
     \<exists>r'. ue_prefix z r = Some (z + k, r') \<and> reader_bits r' = ys"
proof (induction k arbitrary: z r)
  case 0
  then obtain r' where "read_bit r = Some (True, r')" "reader_bits r' = ys"
    using read_bit_cons by fastforce
  then show ?case by (subst ue_prefix.simps) simp
next
  case (Suc k)
  then obtain r' where r': "read_bit r = Some (False, r')" "reader_bits r' = replicate k False @ True # ys"
    using read_bit_cons [of r False "replicate k False @ True # ys"] by auto
  with Suc.IH [OF r'(2), of "z + 1"] Suc.prems(2) obtain r''
    where "ue_prefix (z + 1) r' = Some (z + Suc k, r'')" "reader_bits r'' = ys" by auto
  with r' Suc.prems(2) show ?case by (subst ue_prefix.simps) simp
qed

lemma read_ue_append:
  assumes bits: "reader_bits r = ue_bits v @ ys" and v: "v < 2 ^ 31 - 1"
  shows "\<exists>r'. read_ue r = Some (word_of_nat v, r') \<and> reader_bits r' = ys"
proof -
  define k where "k = log2_floor (v + 1)"
  have log: "2 ^ k \<le> v + 1" "v + 1 < 2 ^ Suc k"
    using log2_floor_bounds [of "v + 1"] by (simp_all add: k_def)
  have k: "k \<le> 30"
  proof (rule ccontr)
    assume "\<not> k \<le> 30"
    then have "(2 :: nat) ^ 31 \<le> 2 ^ k" by (intro power_increasing) auto
    with log v show False by simp
  qed
  have "reader_bits r = replicate k False @ True # (nat_bits k (v + 1) @ ys)"
    using bits by (simp add: ue_bits_def k_def Let_def)
  from ue_prefix_zeroes [OF this, of 0] k obtain r1
    where r1: "ue_prefix 0 r = Some (k, r1)" "reader_bits r1 = nat_bits k (v + 1) @ ys" by auto
  obtain r2 where r2: "read_bits k r1 = Some (word_of_nat ((v + 1) mod 2 ^ k), r2)" "reader_bits r2 = ys"
    using read_bits_append [OF r1(2), of k] k by (auto simp: bits_value_nat_bits)
  have split: "v + 1 = 2 ^ k + (v + 1) mod 2 ^ k"
    using log by (metis add.commute mod_less mod_if div_mult_mod_eq le_add_diff_inverse
        le_mod_geq less_diff_conv2 mult_2 power_Suc)
  have "(push_bit k 1 - 1 :: u32) + word_of_nat ((v + 1) mod 2 ^ k) =
      word_of_nat (2 ^ k + (v + 1) mod 2 ^ k) - 1"
    by (simp add: push_bit_eq_mult)
  also have "\<dots> = word_of_nat v" by (simp only: split [symmetric]) simp
  finally have val: "(push_bit k 1 - 1 :: u32) + word_of_nat ((v + 1) mod 2 ^ k) = word_of_nat v" .
  show ?thesis
  proof (cases "k = 0")
    case True
    with r1 r2 val show ?thesis by (auto simp: read_ue_def read_bits_spec)
  next
    case False
    with r1 r2 val show ?thesis by (auto simp: read_ue_def)
  qed
qed

end
