(* ===== verification/H264_Writer.thy ===== *)
theory H264_Writer
  imports H264_Parser
begin

text \<open>
  A writer for the whole syntax of a sequence parameter set (H.264 7.3.2.1.1 and annex E), as lists
  of bits, and the proof that each stage of the parser reads back what the writer put there. It is
  the reference the round trip of \<open>H264_Sps\<close> is stated against; the program has no such writer.
\<close>

section \<open>Chains of reads on known bits\<close>

text \<open>\<open>yields p bits f\<close>: whenever these bits come next, \<open>p\<close> succeeds, moves exactly past them and
  returns \<open>f\<close> of the reader after them. One rule per kind of read takes the next syntax element off
  a chain.\<close>

definition yields :: "(bit_reader \<Rightarrow> 'a option) \<Rightarrow> bool list \<Rightarrow> (bit_reader \<Rightarrow> 'a) \<Rightarrow> bool" where
  "yields p bits f \<longleftrightarrow>
     (\<forall>r ys. reader_bits r = bits @ ys \<longrightarrow> (\<exists>r'. p r = Some (f r') \<and> reader_bits r' = ys))"

lemma yieldsI:
  "(\<And>r ys. reader_bits r = bits @ ys \<Longrightarrow> \<exists>r'. p r = Some (f r') \<and> reader_bits r' = ys) \<Longrightarrow> yields p bits f"
  by (simp add: yields_def)

lemma yieldsE:
  assumes "yields p bits f" "reader_bits r = bits @ ys"
  obtains r' where "p r = Some (f r')" "reader_bits r' = ys"
  using assms by (auto simp: yields_def)

lemma yields_return: "yields (\<lambda>r. Some (f r)) [] f"
  by (rule yieldsI) auto

lemma yields_Nil: "yields p (bits @ []) f \<Longrightarrow> yields p bits f"
  by simp

lemma chain_skip:
  assumes "yields p bits (\<lambda>r. r)" "yields q bits' g"
  shows "yields (\<lambda>r. Option.bind (p r) q) (bits @ bits') g"
  using assms by (fastforce simp: yields_def)

lemma chain_read:
  assumes "yields p bits (\<lambda>r. (v, r))" "yields (k v) bits' g"
  shows "yields (\<lambda>r. Option.bind (p r) (\<lambda>(x, r). k x r)) (bits @ bits') g"
  using assms by (fastforce simp: yields_def)

lemma yields_bits: "n \<le> 32 \<Longrightarrow> yields (read_bits n) (nat_bits n x) (\<lambda>r. (word_of_nat (x mod 2 ^ n), r))"
  by (rule yieldsI) (use read_bits_append [of _ "nat_bits n x" _ n] in \<open>simp add: bits_value_nat_bits\<close>)

lemma yields_bit: "yields read_bit [b] (\<lambda>r. (b, r))"
  using read_bit_cons by (auto simp: yields_def)

lemma yields_ue: "v < 2 ^ 31 - 1 \<Longrightarrow> yields read_ue (ue_bits v) (\<lambda>r. (word_of_nat v, r))"
  using read_ue_append by (simp add: yields_def)

lemma unat_of_nat_u32: "n < 2 ^ 32 \<Longrightarrow> unat (word_of_nat n :: u32) = n"
  by (simp add: unat_of_nat)

lemmas chain_bits = chain_read [OF yields_bits]
lemmas chain_ue = chain_read [OF yields_ue]

lemma chain_bit:
  "yields (k b) bits g \<Longrightarrow> yields (\<lambda>r. Option.bind (read_bit r) (\<lambda>(x, r). k x r)) (b # bits) g"
  using chain_read [OF yields_bit, of k b bits g] by simp

lemma chain_require: "b \<Longrightarrow> yields q bits g \<Longrightarrow> yields (\<lambda>r. Option.bind (require b) (\<lambda>_. q r)) bits g"
  by (simp add: require_def)

lemma require_Some [simp]: "require b = Some u \<longleftrightarrow> b"
  by (simp add: require_def)

text \<open>An optional part: a flag, and the part when the flag is set.\<close>

definition opt_bits :: "('a \<Rightarrow> bool list) \<Rightarrow> 'a option \<Rightarrow> bool list" where
  "opt_bits f x = (case x of None \<Rightarrow> [False] | Some y \<Rightarrow> True # f y)"

lemma chain_opt:
  assumes "\<And>y. x = Some y \<Longrightarrow> yields p (f y) (\<lambda>r. r)" "yields (q (x \<noteq> None)) bits g"
  shows "yields (\<lambda>r. Option.bind (read_bit r) (\<lambda>(present, r). Option.bind (if present then p r else Some r) (q present)))
    (opt_bits f x @ bits) g"
proof (cases x)
  case None
  then show ?thesis using assms(2) by (auto simp: opt_bits_def intro!: chain_bit)
next
  case (Some y)
  then show ?thesis using assms chain_skip by (auto simp: opt_bits_def intro!: chain_bit)
qed

lemma chain_flag_when:
  assumes "yields q bits g"
  shows "yields (\<lambda>r. Option.bind (if b then Option.bind (read_bit r) (\<lambda>(x, r). Some r) else Some r) q)
    ((if b then [flag] else []) @ bits) g"
proof (cases b)
  case True
  have "yields (\<lambda>r. Option.bind (read_bit r) (\<lambda>(x, r). Some r)) [flag] (\<lambda>r. r)"
    by (intro chain_bit yields_return)
  from chain_skip [OF this assms] True show ?thesis by simp
qed (use assms in simp)

section \<open>Signed codes\<close>

text \<open>The code of a signed value (H.264 9.1.1): positive ones are odd, the others even.\<close>

definition se_code :: "int \<Rightarrow> nat" where
  "se_code i = (if 0 < i then nat (2 * i - 1) else nat (- 2 * i))"

definition se_bits :: "int \<Rightarrow> bool list" where
  "se_bits i = ue_bits (se_code i)"

lemma se_magnitude:
  assumes "m < 2 ^ 30" and that: "n = 2 * m \<or> n + 1 = 2 * m"
  shows "sint ((word_of_nat n + 1 :: u32) div 2) = int m"
proof -
  have "unat (word_of_nat (Suc n) :: u32) = Suc n"
    using assms by (intro unat_of_nat_u32) auto
  then have "unat (word_of_nat n + 1 :: u32) = n + 1" by (simp add: add.commute)
  then have u: "unat ((word_of_nat n + 1 :: u32) div 2) = m"
    using that by (auto simp: unat_div)
  have "uint ((word_of_nat n + 1 :: u32) div 2) = int m" by (simp only: u [symmetric] uint_nat)
  moreover have "signed_take_bit 31 (int m) = int m"
    by (rule signed_take_bit_int_eq_self) (use assms(1) in simp_all)
  ultimately show ?thesis by (simp add: sint_uint)
qed

lemma se_parity: "((word_of_nat n :: u32) AND 1 \<noteq> 0) \<longleftrightarrow> odd n"
proof -
  have "odd (word_of_nat n :: u32) \<longleftrightarrow> odd n" by transfer simp
  then show ?thesis by (simp add: and_one_eq mod_2_eq_odd)
qed

lemma yields_se:
  assumes "se_code i < 2 ^ 31 - 1"
  shows "yields read_se (se_bits i) (\<lambda>r. (i, r))"
  unfolding read_se_def [abs_def] se_bits_def
proof (rule yields_Nil, rule chain_ue [OF assms])
  let ?n = "se_code i" and ?m = "nat \<bar>i\<bar>"
  have n: "?n = 2 * ?m \<or> ?n + 1 = 2 * ?m" "odd ?n \<longleftrightarrow> 0 < i"
    by (auto simp: se_code_def even_nat_iff)
  have "?m < 2 ^ 30" using n(1) assms by auto
  note mag = se_magnitude [OF this n(1)]
  show "yields (\<lambda>r. let magnitude = sint ((word_of_nat ?n + 1 :: u32) div 2) in
      Some (if (word_of_nat ?n :: u32) AND 1 \<noteq> 0 then magnitude else - magnitude, r)) [] (\<lambda>r. (i, r))"
    using n(2) by (auto simp: mag se_parity Let_def yields_def)
qed

lemmas chain_se = chain_read [OF yields_se]


section \<open>Scaling lists\<close>

text \<open>A scaling list is written as the steps between its values, each the representative in -128 to
  127; a list that stops early is closed by the step that leads to 0 (H.264 7.3.2.1.1.1).\<close>

definition scale_delta :: "int \<Rightarrow> int \<Rightarrow> int" where
  "scale_delta previous v = (v - previous + 128) mod 256 - 128"

fun scaling_bits :: "nat \<Rightarrow> int \<Rightarrow> int list \<Rightarrow> bool list" where
  "scaling_bits 0 previous vs = []"
| "scaling_bits (Suc n) previous [] = se_bits (scale_delta previous 0)"
| "scaling_bits (Suc n) previous (v # vs) = se_bits (scale_delta previous v) @ scaling_bits n v vs"

definition scaling_ok :: "nat \<Rightarrow> int list \<Rightarrow> bool" where
  "scaling_ok n vs \<longleftrightarrow> length vs \<le> n \<and> (\<forall>v \<in> set vs. 1 \<le> v \<and> v \<le> 255)"

lemma scale_delta_step:
  assumes "0 \<le> previous" "0 \<le> v" "v \<le> 255"
  shows "(previous + scale_delta previous v + 256) smod 256 = v" "se_code (scale_delta previous v) < 2 ^ 31 - 1"
proof -
  let ?d = "scale_delta previous v"
  have range: "- 128 \<le> ?d" "?d \<le> 127"
    using pos_mod_bound [of 256 "v - previous + 128"] pos_mod_sign [of 256 "v - previous + 128"]
    by (simp_all add: scale_delta_def)
  then have "(previous + ?d + 256) smod 256 = (previous + ?d + 256) mod 256"
    using assms(1) by (simp add: smod_int_alt_def)
  also have "\<dots> = ((v - previous + 128) mod 256 + (previous + 128)) mod 256"
    by (rule arg_cong [where f = "\<lambda>x. x mod 256"]) (simp add: scale_delta_def)
  also have "\<dots> = ((v - previous + 128) + (previous + 128)) mod 256" by (rule mod_add_left_eq)
  also have "\<dots> = v" using assms(2,3) by simp
  finally show "(previous + ?d + 256) smod 256 = v" .
  show "se_code ?d < 2 ^ 31 - 1" using range by (auto simp: se_code_def)
qed

lemma skipped_rest: "skip_scaling_list_loop n previous 0 r = Some r"
  by (induction n arbitrary: previous) simp_all

lemma yields_scaling_loop:
  assumes "0 \<le> previous" "current \<noteq> 0" "scaling_ok n vs"
  shows "yields (skip_scaling_list_loop n previous current) (scaling_bits n previous vs) (\<lambda>r. r)"
  using assms
proof (induction n arbitrary: previous current vs)
  case 0
  then show ?case by (simp add: yields_def)
next
  case (Suc n)
  define v where "v = (case vs of [] \<Rightarrow> 0 | v # _ \<Rightarrow> v)"
  define rest where "rest = (case vs of [] \<Rightarrow> [] | _ # ws \<Rightarrow> scaling_bits n v ws)"
  have v: "0 \<le> v" "v \<le> 255" using Suc.prems(3) by (auto simp: v_def scaling_ok_def split: list.splits)
  have bits: "scaling_bits (Suc n) previous vs = se_bits (scale_delta previous v) @ rest"
    by (cases vs) (simp_all add: v_def rest_def)
  note delta = scale_delta_step [OF Suc.prems(1) v]
  have "yields (skip_scaling_list_loop n (if v = 0 then previous else v) v) rest (\<lambda>r. r)"
  proof (cases vs)
    case Nil
    then show ?thesis by (simp add: v_def rest_def yields_def skipped_rest)
  next
    case (Cons w ws)
    with Suc.prems(3) have "1 \<le> v" "scaling_ok n ws" "v = w" by (auto simp: v_def scaling_ok_def)
    with Suc.IH [of v v ws] Cons show ?thesis by (simp add: rest_def)
  qed
  from chain_se [OF delta(2), of "\<lambda>d r. let next_scale = (previous + d + 256) smod 256 in
      skip_scaling_list_loop n (if next_scale = 0 then previous else next_scale) next_scale r", unfolded Let_def delta(1), OF this]
  show ?case unfolding bits using Suc.prems(2) by (simp add: Let_def)
qed

text \<open>The scaling matrix: sixteen values for the first six lists, sixty-four for the others.\<close>

fun matrix_bits :: "nat list \<Rightarrow> int list option list \<Rightarrow> bool list" where
  "matrix_bits (i # is) (l # ls) = opt_bits (scaling_bits (if i < 6 then 16 else 64) 8) l @ matrix_bits is ls"
| "matrix_bits _ _ = []"

fun matrix_ok :: "nat list \<Rightarrow> int list option list \<Rightarrow> bool" where
  "matrix_ok (i # is) (l # ls) \<longleftrightarrow>
     (case l of None \<Rightarrow> True | Some vs \<Rightarrow> scaling_ok (if i < 6 then 16 else 64) vs) \<and> matrix_ok is ls"
| "matrix_ok is ls \<longleftrightarrow> is = [] \<and> ls = []"

lemma yields_matrix: "matrix_ok is ls \<Longrightarrow> yields (skip_scaling_matrix is) (matrix_bits is ls) (\<lambda>r. r)"
proof (induction "is" ls rule: matrix_ok.induct)
  case (1 i "is" l ls)
  have "yields (skip_scaling_list (if i < 6 then 16 else 64)) (scaling_bits (if i < 6 then 16 else 64) 8 vs) (\<lambda>r. r)"
    if "l = Some vs" for vs
    using 1 that by (simp add: skip_scaling_list_def [abs_def] yields_scaling_loop)
  then show ?case using 1 unfolding skip_scaling_matrix.simps [abs_def] matrix_bits.simps
    by (intro chain_opt) auto
qed (simp_all add: yields_def)

section \<open>Timing buffers\<close>

record hrd_fields =
  hd_bit_rate_scale :: nat
  hd_cpb_size_scale :: nat
  hd_entries :: "(nat \<times> nat \<times> bool) list"
  hd_initial_delay_length :: nat
  hd_removal_delay_length :: nat
  hd_output_delay_length :: nat
  hd_time_offset_length :: nat

text \<open>The codes the reader accepts: fewer than 31 leading zeroes.\<close>

abbreviation ue_ok :: "nat \<Rightarrow> bool" where "ue_ok v \<equiv> v < 2 ^ 31 - 1"
abbreviation se_ok :: "int \<Rightarrow> bool" where "se_ok i \<equiv> se_code i < 2 ^ 31 - 1"

definition hrd_entry_bits :: "nat \<times> nat \<times> bool \<Rightarrow> bool list" where
  "hrd_entry_bits e = (case e of (bit_rate, cpb_size, cbr) \<Rightarrow> ue_bits bit_rate @ ue_bits cpb_size @ [cbr])"

definition hrd_bits :: "hrd_fields \<Rightarrow> bool list" where
  "hrd_bits h =
     ue_bits (length (hd_entries h) - 1) @ nat_bits 4 (hd_bit_rate_scale h) @ nat_bits 4 (hd_cpb_size_scale h) @
     concat (map hrd_entry_bits (hd_entries h)) @ nat_bits 5 (hd_initial_delay_length h) @
     nat_bits 5 (hd_removal_delay_length h) @ nat_bits 5 (hd_output_delay_length h) @ nat_bits 5 (hd_time_offset_length h)"

definition hrd_ok :: "hrd_fields \<Rightarrow> bool" where
  "hrd_ok h \<longleftrightarrow>
     hd_entries h \<noteq> [] \<and> length (hd_entries h) \<le> 32 \<and> (\<forall>(a, b, c) \<in> set (hd_entries h). ue_ok a \<and> ue_ok b)"

lemma yields_hrd_entries:
  "\<forall>(a, b, c) \<in> set es. ue_ok a \<and> ue_ok b \<Longrightarrow>
     yields (skip_hrd_entries (length es)) (concat (map hrd_entry_bits es)) (\<lambda>r. r)"
proof (induction es)
  case (Cons e es)
  obtain a b c where e: "e = (a, b, c)" by (cases e)
  with Cons show ?case
    unfolding length_Cons skip_hrd_entries.simps [abs_def] list.map concat.simps hrd_entry_bits_def e prod.case append_assoc append_Cons append_Nil
    by (intro chain_ue chain_bit) auto
qed (simp add: yields_def)

lemma yields_hrd: "hrd_ok h \<Longrightarrow> yields skip_hrd (hrd_bits h) (\<lambda>r. r)"
proof (rule yields_Nil)
  assume ok: "hrd_ok h"
  let ?n = "length (hd_entries h)"
  have n: "?n - 1 \<le> 31" "(word_of_nat (?n - 1) :: u32) \<le> 31" "unat (word_of_nat (?n - 1) :: u32) + 1 = ?n"
    using ok unat_of_nat_u32 [of "?n - 1"] by (auto simp: hrd_ok_def word_le_nat_alt Suc_le_eq)
  have entries: "yields (skip_hrd_entries (unat (word_of_nat (?n - 1) :: u32) + 1)) (concat (map hrd_entry_bits (hd_entries h))) (\<lambda>r. r)"
    unfolding n(3) by (rule yields_hrd_entries) (use ok in \<open>simp add: hrd_ok_def\<close>)
  show "yields skip_hrd (hrd_bits h @ []) (\<lambda>r. r)"
    unfolding skip_hrd_def [abs_def] hrd_bits_def append_assoc
    by (rule chain_ue, use n(1) in simp, rule chain_require, rule n(2), rule chain_bits, simp, rule chain_bits, simp,
        rule chain_skip, rule entries, rule chain_bits, simp, rule chain_bits, simp, rule chain_bits, simp,
        rule chain_bits, simp, rule yields_return)
qed


section \<open>Video usability information\<close>

datatype aspect_ratio = Aspect_ratio_idc nat | Extended_sar nat nat

record vui_fields =
  vf_aspect_ratio :: "aspect_ratio option"
  vf_overscan :: "bool option"
  vf_signal :: "(nat \<times> bool \<times> (u8 \<times> u8 \<times> u8) option) option"
  vf_chroma_location :: "(nat \<times> nat) option"
  vf_timing :: "(nat \<times> nat \<times> bool) option"
  vf_nal_hrd :: "hrd_fields option"
  vf_vcl_hrd :: "hrd_fields option"
  vf_low_delay :: bool
  vf_pic_struct :: bool
  vf_restriction :: "(bool \<times> nat list) option"

fun aspect_bits :: "aspect_ratio \<Rightarrow> bool list" where
  "aspect_bits (Aspect_ratio_idc n) = nat_bits 8 n"
| "aspect_bits (Extended_sar w h) = nat_bits 8 255 @ nat_bits 16 w @ nat_bits 16 h"

definition vui_head_bits :: "vui_fields \<Rightarrow> bool list" where
  "vui_head_bits v = opt_bits aspect_bits (vf_aspect_ratio v) @ opt_bits (\<lambda>appropriate. [appropriate]) (vf_overscan v)"

definition signal_bits :: "nat \<times> bool \<times> (u8 \<times> u8 \<times> u8) option \<Rightarrow> bool list" where
  "signal_bits x = (case x of (format, full, colour) \<Rightarrow>
     nat_bits 3 format @ full #
     opt_bits (\<lambda>(primaries, transfer, matrix). byte_bits primaries @ byte_bits transfer @ byte_bits matrix) colour)"

definition restriction_bits :: "bool \<times> nat list \<Rightarrow> bool list" where
  "restriction_bits x = fst x # concat (map ue_bits (snd x))"

definition vui_tail_bits :: "vui_fields \<Rightarrow> bool list" where
  "vui_tail_bits v =
     opt_bits (\<lambda>(top_field, bottom_field). ue_bits top_field @ ue_bits bottom_field) (vf_chroma_location v) @
     opt_bits (\<lambda>(units, scale, fixed). nat_bits 32 units @ nat_bits 32 scale @ [fixed]) (vf_timing v) @
     opt_bits hrd_bits (vf_nal_hrd v) @ opt_bits hrd_bits (vf_vcl_hrd v) @
     (if vf_nal_hrd v \<noteq> None \<or> vf_vcl_hrd v \<noteq> None then [vf_low_delay v] else []) @
     vf_pic_struct v # opt_bits restriction_bits (vf_restriction v)"

definition vui_bits :: "vui_fields \<Rightarrow> bool list" where
  "vui_bits v = vui_head_bits v @ opt_bits signal_bits (vf_signal v) @ vui_tail_bits v"

definition vui_ok :: "vui_fields \<Rightarrow> bool" where
  "vui_ok v \<longleftrightarrow>
     (\<forall>n. vf_aspect_ratio v = Some (Aspect_ratio_idc n) \<longrightarrow> n < 255) \<and>
     (\<forall>a b. vf_chroma_location v = Some (a, b) \<longrightarrow> ue_ok a \<and> ue_ok b) \<and>
     (\<forall>h. vf_nal_hrd v = Some h \<or> vf_vcl_hrd v = Some h \<longrightarrow> hrd_ok h) \<and>
     (\<forall>b ns. vf_restriction v = Some (b, ns) \<longrightarrow> length ns = 6 \<and> (\<forall>n \<in> set ns. ue_ok n))"

text \<open>What the parser keeps of it.\<close>

definition vui_info :: "vui_fields \<Rightarrow> h264_sps_info \<Rightarrow> h264_sps_info" where
  "vui_info v info =
     (case vf_signal v of
        None \<Rightarrow> info\<lparr>video_signal_present := False\<rparr>
      | Some (format, full, None) \<Rightarrow>
          info\<lparr>video_signal_present := True, full_range := full, color_description_present := False\<rparr>
      | Some (format, full, Some (primaries, transfer, matrix)) \<Rightarrow>
          info\<lparr>video_signal_present := True, full_range := full, color_description_present := True,
               color_primaries := primaries, transfer_characteristics := transfer, matrix_coefficients := matrix\<rparr>)"

lemma byte_bits_nat_bits: "byte_bits b = nat_bits 8 (unat b)"
  by (simp add: byte_bits_def numeral_nat bit_unsigned_iff upt_rec)

lemma yields_byte: "yields (read_bits 8) (byte_bits b) (\<lambda>r. (ucast b, r))"
proof -
  have "unat b mod 2 ^ 8 = unat b" using unsigned_less [of b, where ?'a = nat] by simp
  then show ?thesis using yields_bits [of 8 "unat b"] by (simp add: byte_bits_nat_bits)
qed

lemmas chain_byte = chain_read [OF yields_byte]

lemma ucast_u32_u8 [simp]: "(ucast (ucast (b :: u8) :: u32) :: u8) = b"
  by (rule bit_word_eqI) (simp add: bit_simps)

lemma yields_aspect:
  assumes "\<forall>n. a = Aspect_ratio_idc n \<longrightarrow> n < 255"
  shows "yields (\<lambda>r. Option.bind (read_bits 8 r) (\<lambda>(value, r).
      if value = 255 then Option.bind (read_bits 16 r) (\<lambda>(value, r). Option.bind (read_bits 16 r) (\<lambda>(value, r). Some r))
      else Some r)) (aspect_bits a) (\<lambda>r. r)"
proof (cases a)
  case (Aspect_ratio_idc n)
  then have "n < 255" using assms by simp
  then have "(word_of_nat (n mod 2 ^ 8) :: u32) \<noteq> 255"
    using unat_of_nat_u32 [of n] by (auto dest: arg_cong [where f = unat])
  then show ?thesis unfolding Aspect_ratio_idc aspect_bits.simps
    by (intro yields_Nil [where bits = "nat_bits 8 n"] chain_bits) (simp_all add: yields_return)
next
  case (Extended_sar w h)
  show ?thesis unfolding Extended_sar aspect_bits.simps
    by (rule chain_bits, simp, simp, rule chain_bits, simp, rule yields_Nil, rule chain_bits, simp, rule yields_return)
qed

lemma yields_vui_head:
  assumes "vui_ok v"
  shows "yields skip_vui_head (vui_head_bits v) (\<lambda>r. r)"
proof -
  have overscan: "yields (\<lambda>r. Option.bind (read_bit r) (\<lambda>(present, r).
      Option.bind (if present then read_bit r else Some (present, r)) (\<lambda>(present, r). Some r)))
    (opt_bits (\<lambda>appropriate. [appropriate]) (vf_overscan v)) (\<lambda>r. r)"
    by (cases "vf_overscan v")
      (auto simp: opt_bits_def intro!: chain_bit yields_return chain_bit [where bits = "[]" and g = "\<lambda>r. r"])
  show ?thesis unfolding skip_vui_head_def [abs_def] vui_head_bits_def
    by (rule chain_opt, rule yields_aspect, use assms in \<open>simp add: vui_ok_def\<close>, rule overscan)
qed

lemma yields_chroma_location:
  assumes "ue_ok (fst x)" "ue_ok (snd x)"
  shows "yields (\<lambda>r. Option.bind (read_ue r) (\<lambda>(v, r). Option.bind (read_ue r) (\<lambda>(v, r). Some r)))
    (case x of (a, b) \<Rightarrow> ue_bits a @ ue_bits b) (\<lambda>r. r)"
  unfolding split_beta [of "\<lambda>a b. ue_bits a @ ue_bits b"]
  by (rule chain_ue, rule assms(1), rule yields_Nil, rule chain_ue, rule assms(2), rule yields_return)

lemma yields_timing:
  "yields (\<lambda>r. Option.bind (read_bits 32 r) (\<lambda>(v, r). Option.bind (read_bits 32 r) (\<lambda>(v, r).
      Option.bind (read_bit r) (\<lambda>(fixed, r). Some r))))
    (case x of (a, b, c) \<Rightarrow> nat_bits 32 a @ nat_bits 32 b @ [c]) (\<lambda>r. r)"
proof -
  obtain a b c where x: "x = (a, b, c)" by (cases x)
  show ?thesis unfolding x prod.case
    by (rule chain_bits, simp, rule chain_bits, simp, rule chain_bit, rule yields_return)
qed

lemma yields_restriction:
  assumes "length (snd x) = 6" "\<forall>n \<in> set (snd x). ue_ok n"
  shows "yields (\<lambda>r. Option.bind (read_bit r) (\<lambda>(motion, r). Option.bind (read_ue r) (\<lambda>(v, r).
      Option.bind (read_ue r) (\<lambda>(v, r). Option.bind (read_ue r) (\<lambda>(v, r). Option.bind (read_ue r) (\<lambda>(v, r).
      Option.bind (read_ue r) (\<lambda>(v, r). Option.bind (read_ue r) (\<lambda>(v, r). Some r))))))))
    (restriction_bits x) (\<lambda>r. r)"
proof -
  obtain a b c d e f where x: "snd x = [a, b, c, d, e, f]"
    using assms(1) by (auto simp: numeral_eq_Suc length_Suc_conv)
  with assms(2) have ok: "ue_ok a" "ue_ok b" "ue_ok c" "ue_ok d" "ue_ok e" "ue_ok f" by simp_all
  show ?thesis unfolding restriction_bits_def x list.map concat.simps
    by (rule chain_bit, rule chain_ue, rule ok, rule chain_ue, rule ok, rule chain_ue, rule ok, rule chain_ue, rule ok,
        rule chain_ue, rule ok, rule chain_ue, rule ok, rule yields_return)
qed

lemma yields_vui_tail:
  assumes "vui_ok v"
  shows "yields skip_vui_tail (vui_tail_bits v) (\<lambda>r. r)"
proof (rule yields_Nil)
  have location: "ue_ok (fst x)" "ue_ok (snd x)" if "vf_chroma_location v = Some x" for x
    using assms that by (cases x, simp add: vui_ok_def)+
  have restriction: "length (snd x) = 6" "\<forall>n \<in> set (snd x). ue_ok n" if "vf_restriction v = Some x" for x
    using assms that by (cases x, simp add: vui_ok_def)+
  have hrd: "yields skip_hrd (hrd_bits h) (\<lambda>r. r)" if "vf_nal_hrd v = Some h \<or> vf_vcl_hrd v = Some h" for h
    using assms that unfolding vui_ok_def by (intro yields_hrd) blast
  show "yields skip_vui_tail (vui_tail_bits v @ []) (\<lambda>r. r)"
    unfolding skip_vui_tail_def [abs_def] vui_tail_bits_def append_assoc append_Cons
    by (rule chain_opt, rule yields_chroma_location, erule location, erule location,
        rule chain_opt, rule yields_timing, rule chain_opt, rule hrd, erule disjI1,
        rule chain_opt, rule hrd, erule disjI2, rule chain_flag_when, rule chain_bit,
        rule chain_opt, rule yields_restriction, erule restriction, erule restriction, rule yields_return)
qed


lemma vui_read_Some [simp]: "vui_read info (Some x) k = k x"
  by (simp add: vui_read_def)

lemma vui_tail_read:
  assumes "vui_ok v" "reader_bits r = vui_tail_bits v @ ys"
  shows "vui_read info (skip_vui_tail r) (\<lambda>r. (True, info)) = (True, info)"
  by (rule yieldsE [OF yields_vui_tail [OF assms(1)] assms(2)]) simp

definition colour_bits :: "u8 \<times> u8 \<times> u8 \<Rightarrow> bool list" where
  "colour_bits y = (case y of (primaries, transfer, matrix) \<Rightarrow> byte_bits primaries @ byte_bits transfer @ byte_bits matrix)"

lemma signal_colour: "signal_bits (format, full, colour) = nat_bits 3 format @ full # opt_bits colour_bits colour"
  by (simp add: signal_bits_def colour_bits_def [abs_def])

text \<open>The colour description and what follows.\<close>

lemma colour_read:
  assumes "vui_ok v" "reader_bits r = opt_bits colour_bits colour @ vui_tail_bits v @ ys"
  shows "vui_read info (read_bit r) (\<lambda>(description, r).
       let info = info\<lparr>color_description_present := description\<rparr> in
       if \<not> description then vui_read info (skip_vui_tail r) (\<lambda>r. (True, info))
       else
         vui_read info (read_bits 8 r) (\<lambda>(value, r).
         let info = info\<lparr>color_primaries := ucast value\<rparr> in
         vui_read info (read_bits 8 r) (\<lambda>(value, r).
         let info = info\<lparr>transfer_characteristics := ucast value\<rparr> in
         vui_read info (read_bits 8 r) (\<lambda>(value, r).
         let info = info\<lparr>matrix_coefficients := ucast value\<rparr> in
         vui_read info (skip_vui_tail r) (\<lambda>r. (True, info)))))) =
    (True, case colour of
        None \<Rightarrow> info\<lparr>color_description_present := False\<rparr>
      | Some (p, t, m) \<Rightarrow> info\<lparr>color_description_present := True, color_primaries := p,
          transfer_characteristics := t, matrix_coefficients := m\<rparr>)"
proof (cases colour)
  case None
  then have "reader_bits r = [False] @ vui_tail_bits v @ ys" using assms(2) by (simp add: opt_bits_def)
  then obtain r1 where r1: "read_bit r = Some (False, r1)" and bits: "reader_bits r1 = vui_tail_bits v @ ys"
    by (rule yieldsE [OF yields_bit])
  show ?thesis by (simp add: None r1 vui_tail_read [OF assms(1) bits])
next
  case (Some y)
  obtain p t m where y: "y = (p, t, m)" by (cases y)
  have "reader_bits r = [True] @ byte_bits p @ byte_bits t @ byte_bits m @ vui_tail_bits v @ ys"
    using assms(2) Some y by (simp add: opt_bits_def colour_bits_def)
  then obtain r1 where r1: "read_bit r = Some (True, r1)"
    "reader_bits r1 = byte_bits p @ byte_bits t @ byte_bits m @ vui_tail_bits v @ ys" by (rule yieldsE [OF yields_bit])
  from r1(2) obtain r2 where r2: "read_bits 8 r1 = Some (ucast p, r2)" "reader_bits r2 = byte_bits t @ byte_bits m @ vui_tail_bits v @ ys"
    by (rule yieldsE [OF yields_byte])
  from r2(2) obtain r3 where r3: "read_bits 8 r2 = Some (ucast t, r3)" "reader_bits r3 = byte_bits m @ vui_tail_bits v @ ys"
    by (rule yieldsE [OF yields_byte])
  from r3(2) obtain r4 where r4: "read_bits 8 r3 = Some (ucast m, r4)" "reader_bits r4 = vui_tail_bits v @ ys"
    by (rule yieldsE [OF yields_byte])
  show ?thesis by (simp add: Some y r1(1) r2(1) r3(1) r4(1) vui_tail_read [OF assms(1) r4(2)])
qed

lemma parse_vui_bits:
  assumes "vui_ok v" "reader_bits r = vui_bits v @ ys"
  shows "parse_vui r info = (True, vui_info v info)"
proof -
  from assms(2) have "reader_bits r = vui_head_bits v @ opt_bits signal_bits (vf_signal v) @ vui_tail_bits v @ ys"
    by (simp only: vui_bits_def append_assoc)
  then obtain r1 where r1: "skip_vui_head r = Some r1" "reader_bits r1 = opt_bits signal_bits (vf_signal v) @ vui_tail_bits v @ ys"
    by (rule yieldsE [OF yields_vui_head [OF assms(1)]])
  show ?thesis
  proof (cases "vf_signal v")
    case None
    then have "reader_bits r1 = [False] @ vui_tail_bits v @ ys" using r1(2) by (simp add: opt_bits_def)
    then obtain r2 where r2: "read_bit r1 = Some (False, r2)" "reader_bits r2 = vui_tail_bits v @ ys"
      by (rule yieldsE [OF yields_bit])
    show ?thesis by (simp add: parse_vui_def r1(1) r2(1) vui_tail_read [OF assms(1) r2(2)] vui_info_def None)
  next
    case (Some x)
    obtain format full colour where x: "x = (format, full, colour)" by (cases x)
    have "reader_bits r1 = [True] @ nat_bits 3 format @ [full] @ opt_bits colour_bits colour @ vui_tail_bits v @ ys"
      using r1(2) Some x by (simp add: opt_bits_def signal_colour)
    then obtain r2 where r2: "read_bit r1 = Some (True, r2)"
      "reader_bits r2 = nat_bits 3 format @ [full] @ opt_bits colour_bits colour @ vui_tail_bits v @ ys"
      by (rule yieldsE [OF yields_bit])
    have "yields (read_bits 3) (nat_bits 3 format) (\<lambda>r. (word_of_nat (format mod 2 ^ 3), r))" by (rule yields_bits) simp
    then obtain r3 where r3: "read_bits 3 r2 = Some (word_of_nat (format mod 2 ^ 3), r3)"
      "reader_bits r3 = [full] @ opt_bits colour_bits colour @ vui_tail_bits v @ ys"
      using r2(2) by (rule yieldsE)
    from r3(2) obtain r4 where r4: "read_bit r3 = Some (full, r4)"
      "reader_bits r4 = opt_bits colour_bits colour @ vui_tail_bits v @ ys" by (rule yieldsE [OF yields_bit])
    show ?thesis
      unfolding parse_vui_def Let_def
      by (simp add: r1(1) r2(1) r3(1) r4(1) colour_read [OF assms(1) r4(2), unfolded Let_def] vui_info_def Some x split: option.split)
  qed
qed


section \<open>The sequence parameter set writer\<close>

record high_fields =
  hi_chroma_format :: nat
  hi_separate_colour_plane :: bool
  hi_bit_depth_luma_minus8 :: nat
  hi_bit_depth_chroma_minus8 :: nat
  hi_bypass :: bool
  hi_scaling :: "int list option list option"

definition scaling_indices :: "high_fields \<Rightarrow> nat list" where
  "scaling_indices h = [0..<(if hi_chroma_format h = 3 then 12 else 8)]"

definition high_bits :: "high_fields \<Rightarrow> bool list" where
  "high_bits h =
     ue_bits (hi_chroma_format h) @ (if hi_chroma_format h = 3 then [hi_separate_colour_plane h] else []) @
     ue_bits (hi_bit_depth_luma_minus8 h) @ ue_bits (hi_bit_depth_chroma_minus8 h) @ hi_bypass h #
     opt_bits (matrix_bits (scaling_indices h)) (hi_scaling h)"

definition high_ok :: "high_fields \<Rightarrow> bool" where
  "high_ok h \<longleftrightarrow> hi_chroma_format h \<le> 3 \<and> hi_bit_depth_luma_minus8 h \<le> 6 \<and> hi_bit_depth_chroma_minus8 h \<le> 6 \<and>
     (\<forall>ls. hi_scaling h = Some ls \<longrightarrow> matrix_ok (scaling_indices h) ls)"

datatype picture_order =
    Poc_lsb nat
  | Poc_cycle bool int int "int list"
  | Poc_output_order

fun poc_type :: "picture_order \<Rightarrow> nat" where
  "poc_type (Poc_lsb _) = 0"
| "poc_type (Poc_cycle _ _ _ _) = 1"
| "poc_type Poc_output_order = 2"

fun poc_bits :: "picture_order \<Rightarrow> bool list" where
  "poc_bits (Poc_lsb log2_max_lsb_minus4) = ue_bits log2_max_lsb_minus4"
| "poc_bits (Poc_cycle always_zero non_ref top_to_bottom offsets) =
     always_zero # se_bits non_ref @ se_bits top_to_bottom @ ue_bits (length offsets) @ concat (map se_bits offsets)"
| "poc_bits Poc_output_order = []"

fun poc_ok :: "picture_order \<Rightarrow> bool" where
  "poc_ok (Poc_lsb n) \<longleftrightarrow> n \<le> 12"
| "poc_ok (Poc_cycle _ a b offsets) \<longleftrightarrow>
     se_ok a \<and> se_ok b \<and> length offsets \<le> 255 \<and> (\<forall>d \<in> set offsets. se_ok d)"
| "poc_ok Poc_output_order \<longleftrightarrow> True"

record sps_fields =
  f_idc :: u8
  f_iop :: u8
  f_level :: u8
  f_id :: nat
  f_high :: "high_fields option"
  f_log2_frame_num :: nat
  f_poc :: picture_order
  f_ref_frames :: nat
  f_gaps :: bool
  f_width_mbs_minus1 :: nat
  f_height_map_units_minus1 :: nat
  f_mb_adaptive :: "bool option"
  f_direct :: bool
  f_crop :: "(nat \<times> nat \<times> nat \<times> nat) option"
  f_vui :: "vui_fields option"

text \<open>The syntax of a sequence parameter set (H.264 7.3.2.1.1): \<open>f_high\<close> is there exactly for the high
  profiles, \<open>f_mb_adaptive\<close> for interlaced video (frame_mbs_only_flag 0), \<open>f_crop\<close> with the
  offsets left, right, top, bottom.\<close>

definition crop_bits :: "nat \<times> nat \<times> nat \<times> nat \<Rightarrow> bool list" where
  "crop_bits c = (case c of (l, r, t, b) \<Rightarrow> ue_bits l @ ue_bits r @ ue_bits t @ ue_bits b)"

definition geometry_bits :: "sps_fields \<Rightarrow> bool list" where
  "geometry_bits f =
     ue_bits (f_ref_frames f) @ f_gaps f # ue_bits (f_width_mbs_minus1 f) @ ue_bits (f_height_map_units_minus1 f) @
     [f_mb_adaptive f = None]"

definition layout_bits :: "sps_fields \<Rightarrow> bool list" where
  "layout_bits f =
     geometry_bits f @ (case f_mb_adaptive f of None \<Rightarrow> [] | Some adaptive \<Rightarrow> [adaptive]) @
     f_direct f # opt_bits crop_bits (f_crop f) @ opt_bits vui_bits (f_vui f)"

definition sps_bits :: "sps_fields \<Rightarrow> bool list" where
  "sps_bits f =
     byte_bits (f_idc f) @ byte_bits (f_iop f) @ byte_bits (f_level f) @ ue_bits (f_id f) @
     (case f_high f of None \<Rightarrow> [] | Some h \<Rightarrow> high_bits h) @
     ue_bits (f_log2_frame_num f) @ ue_bits (poc_type (f_poc f)) @ poc_bits (f_poc f) @ layout_bits f"

text \<open>What it means: the chroma array type, the sampling of chroma (table 6-1) and the two rectangles
  (7-13 to 7-22).\<close>

definition chroma_array_type :: "sps_fields \<Rightarrow> nat" where
  "chroma_array_type f =
     (case f_high f of
        None \<Rightarrow> 1
      | Some h \<Rightarrow> if hi_chroma_format h = 3 \<and> hi_separate_colour_plane h then 0 else hi_chroma_format h)"

definition chroma_subsampling :: "nat \<Rightarrow> nat \<times> nat" where
  "chroma_subsampling t = (if t = 1 then (2, 2) else if t = 2 then (2, 1) else (1, 1))"

definition fields_per_frame :: "sps_fields \<Rightarrow> nat" where
  "fields_per_frame f = (if f_mb_adaptive f = None then 1 else 2)"

definition written_size :: "sps_fields \<Rightarrow> nat \<times> nat" where
  "written_size f =
     (16 * (f_width_mbs_minus1 f + 1), 16 * (f_height_map_units_minus1 f + 1) * fields_per_frame f)"

definition cropped_away :: "sps_fields \<Rightarrow> nat \<times> nat" where
  "cropped_away f =
     (case f_crop f of
        None \<Rightarrow> (0, 0)
      | Some (l, r, t, b) \<Rightarrow>
          ((l + r) * fst (chroma_subsampling (chroma_array_type f)),
           (t + b) * (snd (chroma_subsampling (chroma_array_type f)) * fields_per_frame f)))"

definition crop_ok :: "nat \<times> nat \<times> nat \<times> nat \<Rightarrow> bool" where
  "crop_ok c = (case c of (l, r, t, b) \<Rightarrow> ue_ok l \<and> ue_ok r \<and> ue_ok t \<and> ue_ok b)"

definition sps_fields_ok :: "sps_fields \<Rightarrow> bool" where
  "sps_fields_ok f \<longleftrightarrow>
     f_iop f AND 3 = 0 \<and> f_id f \<le> 31 \<and> (f_high f \<noteq> None \<longleftrightarrow> f_idc f \<in> set high_profiles) \<and>
     (\<forall>h. f_high f = Some h \<longrightarrow> high_ok h) \<and> f_log2_frame_num f \<le> 12 \<and> poc_ok (f_poc f) \<and>
     f_ref_frames f \<le> 16 \<and> f_width_mbs_minus1 f \<le> 1023 \<and> f_height_map_units_minus1 f \<le> 1023 \<and>
     (\<forall>c. f_crop f = Some c \<longrightarrow> crop_ok c) \<and> fst (cropped_away f) < fst (written_size f) \<and>
     snd (cropped_away f) < snd (written_size f) \<and> (\<forall>v. f_vui f = Some v \<longrightarrow> vui_ok v)"

definition sps_start :: "sps_fields \<Rightarrow> h264_sps_info" where
  "sps_start f = default_sps_info
     \<lparr>sps_id := word_of_nat (f_id f),
      profile_level := \<lparr>profile_idc = f_idc f, profile_iop = f_iop f, level_idc = f_level f,
        family = classify_h264_profile (f_idc f) (f_iop f)\<rparr>\<rparr>"

definition sps_expected :: "sps_fields \<Rightarrow> h264_sps_info" where
  "sps_expected f =
     (let info = (sps_start f)\<lparr>frame_mbs_only := (f_mb_adaptive f = None), vui_present := (f_vui f \<noteq> None)\<rparr>;
          info = (case f_vui f of None \<Rightarrow> info | Some v \<Rightarrow> vui_info v info)
      in info\<lparr>coded_width := fst (written_size f), coded_height := snd (written_size f),
              visible_width := fst (written_size f) - fst (cropped_away f),
              visible_height := snd (written_size f) - snd (cropped_away f)\<rparr>)"

section \<open>Reading what was written\<close>

lemma word_of_nat_le_u32: "n \<le> m \<Longrightarrow> m < 2 ^ 32 \<Longrightarrow> (word_of_nat n :: u32) \<le> word_of_nat m"
  by (simp add: word_le_nat_alt unat_of_nat)

lemma word_of_nat_eq_u32: "n < 2 ^ 32 \<Longrightarrow> m < 2 ^ 32 \<Longrightarrow> (word_of_nat n :: u32) = word_of_nat m \<longleftrightarrow> n = m"
  by (metis unat_of_nat_u32)

lemma small_le [simp]:
  "n \<le> 3 \<Longrightarrow> (word_of_nat n :: u32) \<le> 3" "n \<le> 6 \<Longrightarrow> (word_of_nat n :: u32) \<le> 6"
  "n \<le> 12 \<Longrightarrow> (word_of_nat n :: u32) \<le> 12" "n \<le> 16 \<Longrightarrow> (word_of_nat n :: u32) \<le> 16"
  "n \<le> 31 \<Longrightarrow> (word_of_nat n :: u32) \<le> 31" "n \<le> 255 \<Longrightarrow> (word_of_nat n :: u32) \<le> 255"
  "n \<le> 1023 \<Longrightarrow> (word_of_nat n :: u32) \<le> 1023"
  using word_of_nat_le_u32 [of n 3] word_of_nat_le_u32 [of n 6] word_of_nat_le_u32 [of n 12] word_of_nat_le_u32 [of n 16]
    word_of_nat_le_u32 [of n 31] word_of_nat_le_u32 [of n 255] word_of_nat_le_u32 [of n 1023] by simp_all

lemma yields_high:
  assumes "high_ok h" "idc \<in> set high_profiles"
  shows "yields (parse_high_profile_fields idc 1 False) (high_bits h)
    (\<lambda>r. (word_of_nat (hi_chroma_format h), hi_chroma_format h = 3 \<and> hi_separate_colour_plane h, r))"
proof (rule yields_Nil)
  let ?c = "hi_chroma_format h"
  note ok = assms(1) [unfolded high_ok_def]
  have three: "(word_of_nat ?c :: u32) = 3 \<longleftrightarrow> ?c = 3"
    using word_of_nat_eq_u32 [of ?c 3] ok by simp
  have plane: "yields (\<lambda>r. if (word_of_nat ?c :: u32) = 3 then read_bit r else Some (False, r))
      (if ?c = 3 then [hi_separate_colour_plane h] else []) (\<lambda>r. (?c = 3 \<and> hi_separate_colour_plane h, r))"
    unfolding three using yields_bit by (simp add: yields_return)
  have scaling: "yields (skip_scaling_matrix [0..<(if (word_of_nat ?c :: u32) = 3 then 12 else 8)])
      (matrix_bits (scaling_indices h) ls) (\<lambda>r. r)" if "hi_scaling h = Some ls" for ls
    unfolding three using yields_matrix ok that by (simp add: scaling_indices_def)
  show "yields (parse_high_profile_fields idc 1 False) (high_bits h @ [])
      (\<lambda>r. (word_of_nat ?c, ?c = 3 \<and> hi_separate_colour_plane h, r))"
    unfolding parse_high_profile_fields_def [abs_def] high_bits_def append_assoc append_Cons
    by (simp only: assms(2) not_True_eq_False if_False, rule chain_ue, use ok in simp, rule chain_require, use ok in simp,
        rule chain_read, rule plane, rule chain_ue, use ok in simp, rule chain_require, use ok in simp,
        rule chain_ue, use ok in simp, rule chain_require, use ok in simp, rule chain_bit,
        rule chain_opt, erule scaling, rule yields_return)
qed


lemma ucast_and_3: "(b :: u8) AND 3 = 0 \<Longrightarrow> (ucast b :: u32) AND 3 = 0"
proof -
  assume "b AND 3 = 0"
  moreover have "(3 :: u32) = ucast (3 :: u8)" by simp
  then have "(ucast b :: u32) AND 3 = ucast (b AND 3)"
    by (simp only: unsigned_and_eq)
  ultimately show ?thesis by simp
qed

lemma yields_header:
  assumes "iop AND 3 = 0" "ue_ok i"
  shows "yields sps_header (byte_bits idc @ byte_bits iop @ byte_bits lvl @ ue_bits i)
    (\<lambda>r. (ucast idc, ucast iop, ucast lvl, word_of_nat i, r))"
  unfolding sps_header_def [abs_def]
  by (rule chain_byte, rule chain_byte, rule chain_require, rule ucast_and_3, rule assms(1), rule chain_byte,
      rule yields_Nil, rule chain_ue, rule assms(2), rule yields_return)

lemma yields_frame_numbering:
  assumes "n \<le> 12" "t \<le> 2"
  shows "yields sps_frame_numbering (ue_bits n @ ue_bits t) (\<lambda>r. (word_of_nat t, r))"
proof -
  have "(word_of_nat t :: u32) \<le> 2" using word_of_nat_le_u32 [of t 2] assms(2) by simp
  then show ?thesis unfolding sps_frame_numbering_def [abs_def]
    by - (rule chain_ue, use assms in simp, rule chain_require, use assms in simp, rule yields_Nil,
        rule chain_ue, use assms in simp, rule chain_require, assumption, rule yields_return)
qed

lemma yields_signed:
  "\<forall>d \<in> set ds. se_ok d \<Longrightarrow> yields (skip_signed (length ds)) (concat (map se_bits ds)) (\<lambda>r. r)"
proof (induction ds)
  case (Cons d ds)
  then show ?case unfolding length_Cons skip_signed.simps [abs_def] list.map concat.simps by (intro chain_se) auto
qed (simp add: yields_def)

lemma picture_order_bits:
  assumes "poc_ok p" "reader_bits r = poc_bits p @ ys"
  shows "\<exists>r'. sps_picture_order (word_of_nat (poc_type p)) r = Inr r' \<and> reader_bits r' = ys"
proof (cases p)
  case (Poc_lsb n)
  have "yields (\<lambda>r. Option.bind (read_ue r) (\<lambda>(lsb, r). Option.bind (require (lsb \<le> 12)) (\<lambda>_. Some r))) (ue_bits n) (\<lambda>r. r)"
    by (rule yields_Nil, rule chain_ue) (use assms(1) Poc_lsb in \<open>auto intro!: chain_require yields_return\<close>)
  from yieldsE [OF this] assms(2) Poc_lsb obtain r' where
    "Option.bind (read_ue r) (\<lambda>(lsb, r). Option.bind (require (lsb \<le> 12)) (\<lambda>_. Some r)) = Some r'" "reader_bits r' = ys"
    by auto
  then show ?thesis by (simp add: Poc_lsb sps_picture_order_def)
next
  case (Poc_cycle zero a b ds)
  then have ok: "se_ok a" "se_ok b" "length ds \<le> 255" "\<forall>d \<in> set ds. se_ok d" using assms(1) by simp_all
  have "yields (\<lambda>r. Option.bind (read_bit r) (\<lambda>(flag, r). Option.bind (read_se r) (\<lambda>(ignored, r).
      Option.bind (read_se r) (\<lambda>(ignored, r). Option.bind (read_ue r) (\<lambda>(cycle, r).
      Option.bind (require (cycle \<le> 255)) (\<lambda>_. Some (cycle, r)))))))
    (zero # se_bits a @ se_bits b @ ue_bits (length ds)) (\<lambda>r. (word_of_nat (length ds), r))"
    by (rule chain_bit, rule chain_se, rule ok, rule chain_se, rule ok, rule yields_Nil, rule chain_ue, use ok in simp,
        rule chain_require, use ok in simp, rule yields_return)
  moreover have "reader_bits r = (zero # se_bits a @ se_bits b @ ue_bits (length ds)) @ concat (map se_bits ds) @ ys"
    using assms(2) Poc_cycle by simp
  ultimately obtain r1 where r1: "Option.bind (read_bit r) (\<lambda>(flag, r). Option.bind (read_se r) (\<lambda>(ignored, r).
      Option.bind (read_se r) (\<lambda>(ignored, r). Option.bind (read_ue r) (\<lambda>(cycle, r).
      Option.bind (require (cycle \<le> 255)) (\<lambda>_. Some (cycle, r)))))) = Some (word_of_nat (length ds), r1)"
    "reader_bits r1 = concat (map se_bits ds) @ ys" by (rule yieldsE)
  from yieldsE [OF yields_signed [OF ok(4)] r1(2)] obtain r2 where
    "skip_signed (length ds) r1 = Some r2" "reader_bits r2 = ys" .
  then show ?thesis using ok(3) by (simp add: Poc_cycle sps_picture_order_def r1(1) unat_of_nat_u32)
next
  case Poc_output_order
  with assms(2) show ?thesis by (simp add: sps_picture_order_def)
qed

lemma yields_geometry:
  assumes "f_ref_frames f \<le> 16" "f_width_mbs_minus1 f \<le> 1023" "f_height_map_units_minus1 f \<le> 1023"
  shows "yields sps_geometry (geometry_bits f)
    (\<lambda>r. (word_of_nat (f_width_mbs_minus1 f), word_of_nat (f_height_map_units_minus1 f), f_mb_adaptive f = None, r))"
  unfolding sps_geometry_def [abs_def] geometry_bits_def
  by (rule chain_ue, use assms in simp, rule chain_require, use assms in simp, rule chain_bit,
      rule chain_ue, use assms in simp, rule chain_require, use assms in simp,
      rule chain_ue, use assms in simp, rule chain_require, use assms in simp, rule chain_bit, rule yields_return)

definition crop_of :: "sps_fields \<Rightarrow> nat \<times> nat \<times> nat \<times> nat" where
  "crop_of f = (case f_crop f of None \<Rightarrow> (0, 0, 0, 0) | Some c \<Rightarrow> c)"

lemma yields_crop:
  assumes "crop_ok (l, r, t, b)"
  shows "yields (sps_crop True) (crop_bits (l, r, t, b))
    (\<lambda>q. (word_of_nat l, word_of_nat r, word_of_nat t, word_of_nat b, q))"
proof (rule yields_Nil)
  have ok: "ue_ok l" "ue_ok r" "ue_ok t" "ue_ok b" using assms by (simp_all add: crop_ok_def)
  show "yields (sps_crop True) (crop_bits (l, r, t, b) @ [])
      (\<lambda>q. (word_of_nat l, word_of_nat r, word_of_nat t, word_of_nat b, q))"
    unfolding sps_crop_def [abs_def] crop_bits_def prod.case append_assoc not_True_eq_False if_False
    by (rule chain_ue, rule ok, rule chain_ue, rule ok, rule chain_ue, rule ok, rule chain_ue, rule ok, rule yields_return)
qed

lemma crop_read:
  assumes "\<forall>c. f_crop f = Some c \<longrightarrow> crop_ok c" "reader_bits q = f_direct f # opt_bits crop_bits (f_crop f) @ ys" "crop_of f = (l, r, t, b)"
  shows "\<exists>q' q''. sps_crop_flags q = Some (f_crop f \<noteq> None, q') \<and>
    sps_crop (f_crop f \<noteq> None) q' = Some (word_of_nat l, word_of_nat r, word_of_nat t, word_of_nat b, q'') \<and> reader_bits q'' = ys"
proof -
  let ?some = "f_crop f \<noteq> None"
  have flags: "yields sps_crop_flags [f_direct f, ?some] (\<lambda>r. (?some, r))"
    unfolding sps_crop_flags_def [abs_def] by (rule chain_bit, rule chain_bit, rule yields_return)
  define rest where "rest = (case f_crop f of None \<Rightarrow> [] | Some c \<Rightarrow> crop_bits c)"
  have "reader_bits q = [f_direct f, ?some] @ rest @ ys"
    using assms(2) by (auto simp: rest_def opt_bits_def split: option.splits)
  with flags obtain q' where q': "sps_crop_flags q = Some (?some, q')" "reader_bits q' = rest @ ys" by (rule yieldsE)
  show ?thesis
  proof (cases "f_crop f")
    case None
    with q' assms(3) show ?thesis by (simp add: rest_def sps_crop_def crop_of_def)
  next
    case (Some c)
    with assms(1,3) have "crop_ok (l, r, t, b)" "rest = crop_bits (l, r, t, b)" by (simp_all add: crop_of_def rest_def)
    with yieldsE [OF yields_crop, of l r t b q' ys] q' Some show ?thesis by (simp; blast)
  qed
qed

lemma sps_vui_bits:
  assumes "\<forall>v. f_vui f = Some v \<longrightarrow> vui_ok v" "reader_bits r = opt_bits vui_bits (f_vui f) @ ys"
  shows "sps_vui r info = (True,
    let info = info\<lparr>vui_present := (f_vui f \<noteq> None)\<rparr> in case f_vui f of None \<Rightarrow> info | Some v \<Rightarrow> vui_info v info)"
proof (cases "f_vui f")
  case None
  then have "reader_bits r = [False] @ ys" using assms(2) by (simp add: opt_bits_def)
  then obtain r' where "read_bit r = Some (False, r')" by (rule yieldsE [OF yields_bit])
  with None show ?thesis by (simp add: sps_vui_def)
next
  case (Some v)
  then have "reader_bits r = [True] @ vui_bits v @ ys" using assms(2) by (simp add: opt_bits_def)
  then obtain r' where r': "read_bit r = Some (True, r')" "reader_bits r' = vui_bits v @ ys" by (rule yieldsE [OF yields_bit])
  then show ?thesis using parse_vui_bits [OF _ r'(2)] assms(1) Some by (simp add: sps_vui_def Let_def)
qed


text \<open>The chroma format and the separate-plane flag as the parser has them after the high-profile fields.\<close>

definition chroma_read :: "sps_fields \<Rightarrow> nat \<times> bool" where
  "chroma_read f =
     (case f_high f of
        None \<Rightarrow> (1, False)
      | Some h \<Rightarrow> (hi_chroma_format h, hi_chroma_format h = 3 \<and> hi_separate_colour_plane h))"

lemma yields_profile_fields:
  assumes "sps_fields_ok f"
  shows "yields (parse_high_profile_fields (f_idc f) 1 False) (case f_high f of None \<Rightarrow> [] | Some h \<Rightarrow> high_bits h)
    (\<lambda>r. (word_of_nat (fst (chroma_read f)), snd (chroma_read f), r))"
proof (cases "f_high f")
  case None
  then have "f_idc f \<notin> set high_profiles" using assms by (simp add: sps_fields_ok_def)
  with None show ?thesis by (simp add: parse_high_profile_fields_def [abs_def] chroma_read_def yields_return)
next
  case (Some h)
  then have "high_ok h" "f_idc f \<in> set high_profiles" using assms by (simp_all add: sps_fields_ok_def)
  with yields_high Some show ?thesis by (simp add: chroma_read_def)
qed

lemma crop_amounts:
  assumes "sps_fields_ok f" "crop_of f = (l, r, t, b)"
  defines "cat \<equiv> if snd (chroma_read f) then 0 else fst (chroma_read f)"
  shows "(l + r) * (if cat = 0 \<or> cat = 3 then 1 else 2) = fst (cropped_away f)"
    "(t + b) * ((if cat = 0 then 1 else if cat = 1 then 2 else 1) * fields_per_frame f) = snd (cropped_away f)"
    "ue_ok l" "ue_ok r" "ue_ok t" "ue_ok b" "fst (chroma_read f) \<le> 3"
proof -
  show three: "fst (chroma_read f) \<le> 3"
    using assms(1) by (auto simp: sps_fields_ok_def chroma_read_def high_ok_def split: option.splits)
  have cat: "cat = chroma_array_type f"
    by (simp add: cat_def chroma_read_def chroma_array_type_def split: option.splits)
  have "cat \<le> 3" using three by (simp add: cat_def)
  then consider "cat = 0" | "cat = 1" | "cat = 2" | "cat = 3" by linarith
  then have sampling: "(if cat = 0 \<or> cat = 3 then 1 else 2) = fst (chroma_subsampling cat)"
    "(if cat = 0 then 1 else if cat = 1 then 2 else 1) = snd (chroma_subsampling cat)"
    by (cases; simp add: chroma_subsampling_def)+
  show "(l + r) * (if cat = 0 \<or> cat = 3 then 1 else 2) = fst (cropped_away f)"
    "(t + b) * ((if cat = 0 then 1 else if cat = 1 then 2 else 1) * fields_per_frame f) = snd (cropped_away f)"
    unfolding sampling unfolding cat using assms(2) by (auto simp: cropped_away_def crop_of_def split: option.splits)
  have "crop_ok (l, r, t, b)"
    using assms(1,2) by (cases "f_crop f") (auto simp: sps_fields_ok_def crop_of_def crop_ok_def)
  then show "ue_ok l" "ue_ok r" "ue_ok t" "ue_ok b" by (simp_all add: crop_ok_def)
qed

lemma sps_finish_bits:
  assumes "sps_fields_ok f" "crop_of f = (l, r, t, b)" "frame_mbs_only info = (f_mb_adaptive f = None)"
  shows "sps_finish (word_of_nat (fst (chroma_read f))) (snd (chroma_read f)) (word_of_nat (f_width_mbs_minus1 f))
      (word_of_nat (f_height_map_units_minus1 f)) (word_of_nat l, word_of_nat r, word_of_nat t, word_of_nat b) info =
    \<lparr>sps_passed = True, sps_reason = ''sps_valid'',
     sps_info = info\<lparr>coded_width := fst (written_size f), coded_height := snd (written_size f),
        visible_width := fst (written_size f) - fst (cropped_away f),
        visible_height := snd (written_size f) - snd (cropped_away f)\<rparr>\<rparr>"
proof -
  note amounts = crop_amounts [OF assms(1,2)]
  have small: "f_width_mbs_minus1 f < 2 ^ 32" "f_height_map_units_minus1 f < 2 ^ 32" "fst (chroma_read f) < 2 ^ 32"
    "l < 2 ^ 32" "r < 2 ^ 32" "t < 2 ^ 32" "b < 2 ^ 32"
    using assms(1) amounts(3-7) by (simp_all add: sps_fields_ok_def)
  have frame: "(if frame_mbs_only info then 1 else 2) = fields_per_frame f"
    using assms(3) by (simp add: fields_per_frame_def)
  have sizes: "(f_width_mbs_minus1 f + 1) * 16 = fst (written_size f)"
    "(f_height_map_units_minus1 f + 1) * 16 * fields_per_frame f = snd (written_size f)"
    by (simp_all add: written_size_def)
  have fits: "\<not> (fst (cropped_away f) \<ge> fst (written_size f) \<or> snd (cropped_away f) \<ge> snd (written_size f))"
    using assms(1) by (simp add: sps_fields_ok_def)
  show ?thesis
    unfolding sps_finish_def prod.case Let_def unat_of_nat_u32 [OF small(1)] unat_of_nat_u32 [OF small(2)]
      unat_of_nat_u32 [OF small(3)] unat_of_nat_u32 [OF small(4)] unat_of_nat_u32 [OF small(5)]
      unat_of_nat_u32 [OF small(6)] unat_of_nat_u32 [OF small(7)] frame sizes amounts(1,2)
    by (simp only: fits if_False)
qed

lemma sps_layout_bits:
  assumes "sps_fields_ok f" "reader_bits r = layout_bits f @ ys"
  shows "sps_layout (word_of_nat (fst (chroma_read f))) (snd (chroma_read f)) r (sps_start f) =
    \<lparr>sps_passed = True, sps_reason = ''sps_valid'', sps_info = sps_expected f\<rparr>"
proof -
  note ok = assms(1) [unfolded sps_fields_ok_def]
  define field where "field = (case f_mb_adaptive f of None \<Rightarrow> [] | Some adaptive \<Rightarrow> [adaptive])"
  obtain l t b rt where crop: "crop_of f = (l, rt, t, b)" by (cases "crop_of f")
  have "yields sps_geometry (geometry_bits f)
      (\<lambda>r. (word_of_nat (f_width_mbs_minus1 f), word_of_nat (f_height_map_units_minus1 f), f_mb_adaptive f = None, r))"
    by (rule yields_geometry) (use ok in simp_all)
  then obtain r1 where r1: "sps_geometry r = Some (word_of_nat (f_width_mbs_minus1 f),
      word_of_nat (f_height_map_units_minus1 f), f_mb_adaptive f = None, r1)"
    and bits1: "reader_bits r1 = field @ f_direct f # opt_bits crop_bits (f_crop f) @ opt_bits vui_bits (f_vui f) @ ys"
    using assms(2) unfolding layout_bits_def field_def append_assoc append_Cons by (rule yieldsE)
  have "yields (\<lambda>r. if f_mb_adaptive f = None then Some (False, r) else read_bit r) field
      (\<lambda>r. (f_mb_adaptive f = Some True, r))"
    using yields_bit by (cases "f_mb_adaptive f") (auto simp: field_def yields_return)
  then obtain r2 where r2: "(if f_mb_adaptive f = None then Some (False, r1) else read_bit r1) = Some (f_mb_adaptive f = Some True, r2)"
    and bits2: "reader_bits r2 = f_direct f # opt_bits crop_bits (f_crop f) @ opt_bits vui_bits (f_vui f) @ ys"
    using bits1 by (rule yieldsE)
  have "\<forall>c. f_crop f = Some c \<longrightarrow> crop_ok c" using ok by blast
  from crop_read [OF this bits2 crop] obtain r3 r4 where
    r3: "sps_crop_flags r2 = Some (f_crop f \<noteq> None, r3)"
    and r4: "sps_crop (f_crop f \<noteq> None) r3 = Some (word_of_nat l, word_of_nat rt, word_of_nat t, word_of_nat b, r4)"
    and bits4: "reader_bits r4 = opt_bits vui_bits (f_vui f) @ ys" by blast
  have "\<forall>v. f_vui f = Some v \<longrightarrow> vui_ok v" using ok by blast
  note vui = sps_vui_bits [OF this bits4]
  define info where "info = (let info = (sps_start f)\<lparr>frame_mbs_only := (f_mb_adaptive f = None), vui_present := (f_vui f \<noteq> None)\<rparr>
    in case f_vui f of None \<Rightarrow> info | Some v \<Rightarrow> vui_info v info)"
  have frame: "frame_mbs_only info = (f_mb_adaptive f = None)"
    by (auto simp: info_def vui_info_def Let_def split: option.split)
  have "sps_layout (word_of_nat (fst (chroma_read f))) (snd (chroma_read f)) r (sps_start f) =
      sps_finish (word_of_nat (fst (chroma_read f))) (snd (chroma_read f)) (word_of_nat (f_width_mbs_minus1 f))
        (word_of_nat (f_height_map_units_minus1 f)) (word_of_nat l, word_of_nat rt, word_of_nat t, word_of_nat b) info"
    unfolding sps_layout_def r1 option.case prod.case Let_def r2 r3 r4 vui by (simp add: info_def Let_def del: not_None_eq)
  also note sps_finish_bits [OF assms(1) crop frame]
  finally show ?thesis by (simp add: sps_expected_def info_def Let_def del: not_None_eq)
qed

lemma parse_sps_rbsp_bits:
  assumes "reader_bits r = sps_bits f @ trailing" "sps_fields_ok f"
  shows "parse_sps_rbsp r = \<lparr>sps_passed = True, sps_reason = ''sps_valid'', sps_info = sps_expected f\<rparr>"
proof -
  note ok = assms(2) [unfolded sps_fields_ok_def]
  have header: "yields sps_header (byte_bits (f_idc f) @ byte_bits (f_iop f) @ byte_bits (f_level f) @ ue_bits (f_id f))
      (\<lambda>r. (ucast (f_idc f), ucast (f_iop f), ucast (f_level f), word_of_nat (f_id f), r))"
    by (rule yields_header) (use ok in simp_all)
  have "reader_bits r = (byte_bits (f_idc f) @ byte_bits (f_iop f) @ byte_bits (f_level f) @ ue_bits (f_id f)) @
      (case f_high f of None \<Rightarrow> [] | Some h \<Rightarrow> high_bits h) @ (ue_bits (f_log2_frame_num f) @ ue_bits (poc_type (f_poc f))) @
      poc_bits (f_poc f) @ layout_bits f @ trailing"
    using assms(1) by (simp add: sps_bits_def)
  with header obtain r1 where r1: "sps_header r = Some (ucast (f_idc f), ucast (f_iop f), ucast (f_level f), word_of_nat (f_id f), r1)"
    and bits1: "reader_bits r1 = (case f_high f of None \<Rightarrow> [] | Some h \<Rightarrow> high_bits h) @
      (ue_bits (f_log2_frame_num f) @ ue_bits (poc_type (f_poc f))) @ poc_bits (f_poc f) @ layout_bits f @ trailing" by (rule yieldsE)
  from yieldsE [OF yields_profile_fields [OF assms(2)] bits1] obtain r2 where
    r2: "parse_high_profile_fields (f_idc f) 1 False r1 = Some (word_of_nat (fst (chroma_read f)), snd (chroma_read f), r2)"
    and bits2: "reader_bits r2 = (ue_bits (f_log2_frame_num f) @ ue_bits (poc_type (f_poc f))) @ poc_bits (f_poc f) @ layout_bits f @ trailing" .
  have "poc_type (f_poc f) \<le> 2" by (cases "f_poc f") simp_all
  then have "yields sps_frame_numbering (ue_bits (f_log2_frame_num f) @ ue_bits (poc_type (f_poc f)))
      (\<lambda>r. (word_of_nat (poc_type (f_poc f)), r))"
    using ok by (intro yields_frame_numbering) simp_all
  then obtain r3 where r3: "sps_frame_numbering r2 = Some (word_of_nat (poc_type (f_poc f)), r3)"
    and bits3: "reader_bits r3 = poc_bits (f_poc f) @ layout_bits f @ trailing" using bits2 by (rule yieldsE)
  have "poc_ok (f_poc f)" using ok by blast
  from picture_order_bits [OF this bits3] obtain r4 where
    r4: "sps_picture_order (word_of_nat (poc_type (f_poc f))) r3 = Inr r4" and bits4: "reader_bits r4 = layout_bits f @ trailing" by blast
  have id: "\<not> word_of_nat (f_id f) > (31 :: u32)" using ok by (simp add: not_less)
  have start: "default_sps_info\<lparr>sps_id := word_of_nat (f_id f), profile_level :=
      \<lparr>profile_idc = f_idc f, profile_iop = f_iop f, level_idc = f_level f,
       family = classify_h264_profile (f_idc f) (f_iop f)\<rparr>\<rparr> = sps_start f" by (simp add: sps_start_def)
  show ?thesis
    unfolding parse_sps_rbsp_def Let_def r1 option.case prod.case ucast_u32_u8 start r2 r3 r4 sum.case
    by (simp only: id if_False sps_layout_bits [OF assms(2) bits4])
qed

lemma byte_bits_list:
  "byte_bits b = [bit b 7, bit b 6, bit b 5, bit b 4, bit b 3, bit b 2, bit b 1, bit b 0]"
  by (simp add: byte_bits_def numeral_nat upt_rec)

end
