(* ===== verification/H264_Sps.thy ===== *)
theory H264_Sps
  imports H264_Writer
begin

text \<open>
  What the sequence-parameter-set parser guarantees: the bounds of what it accepts, and that it
  reads back every set written in the H.264 syntax.
\<close>

section \<open>Frame conditions and bounds\<close>

lemma vui_read_keeps:
  "f info = c \<Longrightarrow> (\<And>x. f (snd (k x)) = c) \<Longrightarrow> f (snd (vui_read info m k)) = c"
  by (simp add: vui_read_def split: option.splits)

lemma parse_vui_keeps:
  assumes "\<And>i b. f (i\<lparr>video_signal_present := b\<rparr>) = f i" "\<And>i b. f (i\<lparr>full_range := b\<rparr>) = f i"
    "\<And>i b. f (i\<lparr>color_description_present := b\<rparr>) = f i" "\<And>i b. f (i\<lparr>color_primaries := b\<rparr>) = f i"
    "\<And>i b. f (i\<lparr>transfer_characteristics := b\<rparr>) = f i" "\<And>i b. f (i\<lparr>matrix_coefficients := b\<rparr>) = f i"
  shows "f (snd (parse_vui r info)) = f info"
  unfolding parse_vui_def Let_def split_beta
  by (auto simp: assms intro!: vui_read_keeps [where f = f])

lemma sps_vui_keeps:
  assumes "sps_vui r info = (b, info')"
  shows "profile_level info' = profile_level info \<and> sps_id info' = sps_id info \<and>
    frame_mbs_only info' = frame_mbs_only info"
proof -
  let ?info = "info\<lparr>vui_present := True\<rparr>"
  from assms have "info' \<in> {info, info\<lparr>vui_present := False\<rparr>} \<or> (\<exists>r. info' = snd (parse_vui r ?info))"
    by (auto simp: sps_vui_def vui_read_def Let_def split: option.splits if_splits)
      (metis snd_conv)
  then show ?thesis
    using parse_vui_keeps [of profile_level _ ?info] parse_vui_keeps [of sps_id _ ?info]
      parse_vui_keeps [of frame_mbs_only _ ?info] by auto
qed

lemma sps_geometry_range:
  "sps_geometry r = Some (w, h, m, r') \<Longrightarrow> w \<le> 1023 \<and> h \<le> 1023"
  by (auto simp: sps_geometry_def bind_eq_Some_conv)

lemma sps_finish_passed:
  assumes "sps_passed (sps_finish chroma sep w h crop info)"
  defines "out \<equiv> sps_info (sps_finish chroma sep w h crop info)"
  shows "0 < visible_width out \<and> visible_width out \<le> coded_width out \<and>
    0 < visible_height out \<and> visible_height out \<le> coded_height out \<and>
    coded_width out = 16 * (unat w + 1) \<and>
    coded_height out = 16 * (unat h + 1) * (if frame_mbs_only info then 1 else 2) \<and>
    frame_mbs_only out = frame_mbs_only info \<and> sps_id out = sps_id info \<and>
    profile_level out = profile_level info"
proof (cases crop)
  case (fields a b c d)
  let ?ff = "if frame_mbs_only info then 1 else 2 :: nat"
  let ?cat = "if sep then 0 else unat chroma"
  let ?hc = "(unat a + unat b) * (if ?cat = 0 \<or> ?cat = 3 then 1 else 2)"
  let ?vc = "(unat c + unat d) * ((if ?cat = 0 then 1 else if ?cat = 1 then 2 else 1) * ?ff)"
  let ?cw = "(unat w + 1) * 16"
  let ?ch = "(unat h + 1) * 16 * ?ff"
  have eq: "sps_finish chroma sep w h crop info =
      (if ?hc \<ge> ?cw \<or> ?vc \<ge> ?ch
       then sps_failure ''sps_crop_exceeds_coded_geometry''
              (info\<lparr>coded_width := ?cw, coded_height := ?ch\<rparr>)
       else \<lparr>sps_passed = True, sps_reason = ''sps_valid'',
             sps_info = info\<lparr>coded_width := ?cw, coded_height := ?ch,
               visible_width := ?cw - ?hc, visible_height := ?ch - ?vc\<rparr>\<rparr>)"
    unfolding fields sps_finish_def prod.case Let_def by (simp only:)
  have "\<not> (?hc \<ge> ?cw \<or> ?vc \<ge> ?ch)"
    using assms(1) unfolding eq by (rule contrapos_pn) (simp only: if_True sps_failure_def, simp)
  then have crop: "?hc < ?cw" "?vc < ?ch" by (simp_all only: not_le de_Morgan_disj)
  then have out: "out = info\<lparr>coded_width := ?cw, coded_height := ?ch,
      visible_width := ?cw - ?hc, visible_height := ?ch - ?vc\<rparr>"
    unfolding out_def eq by (simp only: not_le [symmetric] if_False simp_thms) simp
  obtain cw ch hc vc where "out = info\<lparr>coded_width := cw, coded_height := ch,
      visible_width := cw - hc, visible_height := ch - vc\<rparr>" "hc < cw" "vc < ch"
    "cw = 16 * (unat w + 1)" "ch = 16 * (unat h + 1) * ?ff"
    by (rule that [OF out crop]) (simp_all only: mult.commute mult.left_commute)
  then show ?thesis by auto
qed

lemma sps_layout_cases:
  assumes "sps_passed (sps_layout chroma sep r info)"
  obtains w h m r1 crop r4 info'
  where "sps_geometry r = Some (w, h, m, r1)"
    "sps_vui r4 (info\<lparr>frame_mbs_only := m\<rparr>) = (True, info')"
    "sps_layout chroma sep r info = sps_finish chroma sep w h crop info'"
proof (cases "sps_geometry r")
  case None
  with assms show ?thesis by (simp add: sps_layout_def sps_failure_def)
next
  case (Some q)
  obtain w h m r1 where q: "q = (w, h, m, r1)" by (cases q)
  let ?i = "info\<lparr>frame_mbs_only := m\<rparr>"
  note sel = sps_layout_def Some q Let_def sps_failure_def
  obtain x r2 where x: "(if m then Some (False, r1) else read_bit r1) = Some (x, r2)"
    using assms by (cases "if m then Some (False, r1) else read_bit r1") (auto simp: sel)
  obtain f r3 where f: "sps_crop_flags r2 = Some (f, r3)"
    using assms by (cases "sps_crop_flags r2") (auto simp: sel x)
  obtain a b c d r4 where c: "sps_crop f r3 = Some (a, b, c, d, r4)"
    using assms by (cases "sps_crop f r3") (auto simp: sel x f)
  obtain v info' where v: "sps_vui r4 ?i = (v, info')" by (cases "sps_vui r4 ?i")
  with assms have "v" by (cases v) (auto simp: sel x f c)
  then show ?thesis
    using that [of w h m r1 r4 info' "(a, b, c, d)"] v by (simp add: sel x f c)
qed

lemma sps_layout_passed:
  assumes "sps_passed (sps_layout chroma sep r info)"
  defines "out \<equiv> sps_info (sps_layout chroma sep r info)"
  shows "0 < visible_width out \<and> visible_width out \<le> coded_width out \<and> coded_width out \<le> 16384 \<and>
    0 < visible_height out \<and> visible_height out \<le> coded_height out \<and>
    coded_height out \<le> (if frame_mbs_only out then 16384 else 32768) \<and>
    16 dvd coded_width out \<and> 16 dvd coded_height out \<and>
    sps_id out = sps_id info \<and> profile_level out = profile_level info"
proof -
  from assms(1) obtain w h m r1 crop r4 info'
    where geo: "sps_geometry r = Some (w, h, m, r1)"
      and vui: "sps_vui r4 (info\<lparr>frame_mbs_only := m\<rparr>) = (True, info')"
      and fin: "sps_layout chroma sep r info = sps_finish chroma sep w h crop info'"
    using sps_layout_cases by metis
  have "sps_passed (sps_finish chroma sep w h crop info')" using assms(1) fin by simp
  note finished = sps_finish_passed [OF this]
  have range: "unat w \<le> 1023" "unat h \<le> 1023"
    using sps_geometry_range [OF geo] by (simp_all add: word_le_nat_alt)
  from sps_vui_keeps [OF vui] have "sps_id info' = sps_id info" "profile_level info' = profile_level info"
    by simp_all
  with finished range show ?thesis unfolding out_def fin by (auto split: if_splits)
qed

section \<open>Properties\<close>

text \<open>C23 (bounds). Whatever bytes it is given, a set the parser accepts has an identifier of at
  most 31, a coded size that is a multiple of a macroblock and at most 16384 (32768 lines when
  interlaced), and a visible rectangle that is not empty and lies inside the coded one; the
  recorded family is the classification of the recorded profile bytes.\<close>

theorem parse_h264_sps_bounds:
  assumes "sps_passed (parse_h264_sps nal)"
  defines "info \<equiv> sps_info (parse_h264_sps nal)"
  shows "sps_id info \<le> 31 \<and>
    0 < visible_width info \<and> visible_width info \<le> coded_width info \<and> coded_width info \<le> 16384 \<and>
    0 < visible_height info \<and> visible_height info \<le> coded_height info \<and>
    coded_height info \<le> (if frame_mbs_only info then 16384 else 32768) \<and>
    16 dvd coded_width info \<and> 16 dvd coded_height info \<and>
    family (profile_level info) =
      classify_h264_profile (profile_idc (profile_level info)) (profile_iop (profile_level info))"
proof -
  from assms(1) obtain idc iop lvl i chroma sep r
    where i: "i \<le> 31"
      and eq: "parse_h264_sps nal = sps_layout chroma sep r
        (default_sps_info\<lparr>sps_id := i, profile_level :=
           \<lparr>profile_idc = idc, profile_iop = iop, level_idc = lvl,
            family = classify_h264_profile idc iop\<rparr>\<rparr>)"
    unfolding parse_h264_sps_def parse_sps_rbsp_def
    by (force simp: Let_def sps_failure_def not_less
        split: option.splits sum.splits prod.splits if_splits)
  from assms(1) have "sps_passed (sps_layout chroma sep r
        (default_sps_info\<lparr>sps_id := i, profile_level :=
           \<lparr>profile_idc = idc, profile_iop = iop, level_idc = lvl,
            family = classify_h264_profile idc iop\<rparr>\<rparr>))" by (simp only: eq)
  from sps_layout_passed [OF this] i show ?thesis unfolding info_def eq by simp
qed

text \<open>C20 (roundtrip). Every sequence parameter set of the H.264 syntax (7.3.2.1.1 and annex E) is parsed
  back to exactly what was written: high profiles with their chroma format, separate colour planes,
  bit depths and scaling lists, the three picture order count types, progressive and interlaced
  frames, with and without cropping, and video usability information with all its parts, two HRD
  buffers included; protected by emulation prevention and whatever bits trail it. Values are in the
  ranges the code accepts: Exp-Golomb codes of fewer than 31 leading zeroes, coded sizes of at most
  1024 macroblocks, and a cropping rectangle that leaves something visible.\<close>

theorem parse_h264_sps_roundtrip:
  assumes "sps_fields_ok f"
    and "stream_bits rbsp = sps_bits f @ trailing"
    and "header AND 0x1F = 7" "header AND 0x80 = 0"
  shows "parse_h264_sps (header # insert_emulation_prevention 0 rbsp) =
    \<lparr>sps_passed = True, sps_reason = ''sps_valid'', sps_info = sps_expected f\<rparr>"
proof -
  have "reader_bits \<lparr>br_bytes = rbsp, bit_offset = 0\<rparr> = sps_bits f @ trailing"
    using assms(2) by (simp add: reader_bits_def)
  note parsed = parse_sps_rbsp_bits [OF this assms(1)]
  have "stream_bits rbsp \<noteq> []" unfolding assms(2) by (simp add: sps_bits_def byte_bits_list)
  then have "rbsp \<noteq> []" by (auto simp: stream_bits_def)
  then have "annex_b_nal_to_rbsp (header # insert_emulation_prevention 0 rbsp) = Inr rbsp"
    using assms(4) ebsp_scan_insert [of 0 rbsp] rbsp_loop_insert [of 0 rbsp]
    by (auto simp: annex_b_nal_to_rbsp_def valid_ebsp_def not_le Suc_le_eq)
  with assms(3) parsed show ?thesis by (simp add: parse_h264_sps_def)
qed

lemmas bit_eval = stream_bits_def byte_bits_list ue_bits_def log2_floor.simps Let_def bit_Suc bit_0

lemma nat_bits_numeral: "nat_bits (numeral k) x = bit x (pred_numeral k) # nat_bits (pred_numeral k) x"
  by (simp add: numeral_eq_Suc)

lemma scaling_bits_numeral:
  "scaling_bits (numeral k) previous [] = se_bits (scale_delta previous 0)"
  "scaling_bits (numeral k) previous (v # vs) = se_bits (scale_delta previous v) @ scaling_bits (pred_numeral k) v vs"
  by (simp_all add: numeral_eq_Suc)

lemmas syntax_eval = sps_bits_def layout_bits_def geometry_bits_def opt_bits_def crop_bits_def high_bits_def
  scaling_indices_def upt_rec scaling_bits_numeral scale_delta_def se_bits_def se_code_def vui_bits_def vui_head_bits_def
  vui_tail_bits_def signal_bits_def restriction_bits_def hrd_bits_def hrd_entry_bits_def nat_bits_numeral

text \<open>An interlaced 1920x1080 set of the High profile, level 4.0, with two scaling lists, picture order
  count type 1 and every part of the video usability information but the VCL buffer.\<close>

definition sample_vui :: vui_fields where
  "sample_vui =
     \<lparr>vf_aspect_ratio = Some (Extended_sar 4 3), vf_overscan = Some True, vf_signal = Some (5, True, Some (9, 16, 9)),
      vf_chroma_location = Some (2, 2), vf_timing = Some (1, 60, True),
      vf_nal_hrd = Some \<lparr>hd_bit_rate_scale = 1, hd_cpb_size_scale = 2, hd_entries = [(77, 99, True)],
        hd_initial_delay_length = 23, hd_removal_delay_length = 23, hd_output_delay_length = 23, hd_time_offset_length = 24\<rparr>,
      vf_vcl_hrd = None, vf_low_delay = False, vf_pic_struct = True, vf_restriction = Some (True, [2, 1, 16, 16, 2, 4])\<rparr>"

definition sample_high :: high_fields where
  "sample_high =
     \<lparr>hi_chroma_format = 1, hi_separate_colour_plane = False, hi_bit_depth_luma_minus8 = 0,
      hi_bit_depth_chroma_minus8 = 0, hi_bypass = False,
      hi_scaling = Some [Some [16, 17], None, None, None, None, None, None, Some []]\<rparr>"

definition sample_interlaced :: sps_fields where
  "sample_interlaced =
     \<lparr>f_idc = 100, f_iop = 0, f_level = 40, f_id = 3, f_high = Some sample_high, f_log2_frame_num = 4,
      f_poc = Poc_cycle False (- 1) 2 [3, - 2], f_ref_frames = 4, f_gaps = False, f_width_mbs_minus1 = 119,
      f_height_map_units_minus1 = 33, f_mb_adaptive = Some True, f_direct = True, f_crop = Some (0, 0, 0, 2),
      f_vui = Some sample_vui\<rparr>"

definition sample_interlaced_rbsp :: "u8 list" where
  "sample_interlaced_rbsp =
     [100, 0, 40, 34, 216, 65, 2, 48, 33, 18, 163, 35, 49, 74, 3, 192, 34, 126, 255, 240, 0, 64, 0, 63, 112, 145,
      0, 155, 112, 0, 0, 0, 16, 0, 0, 3, 206, 36, 4, 224, 50, 111, 123, 224, 237, 4, 66, 44, 176]"

lemma sample_interlaced_ok: "sps_fields_ok sample_interlaced"
proof -
  have "vui_ok sample_vui" by (simp add: vui_ok_def sample_vui_def hrd_ok_def)
  moreover have "high_ok sample_high" by (simp add: high_ok_def sample_high_def scaling_indices_def scaling_ok_def upt_rec)
  ultimately show ?thesis
    by (simp add: sps_fields_ok_def sample_interlaced_def high_profiles_def se_code_def crop_ok_def cropped_away_def
        written_size_def chroma_array_type_def chroma_subsampling_def fields_per_frame_def sample_high_def)
qed

lemma sample_interlaced_bits:
  "stream_bits sample_interlaced_rbsp = sps_bits sample_interlaced @ [True, False, False, False, False]"
  by (simp add: sample_interlaced_def sample_interlaced_rbsp_def sample_high_def sample_vui_def bit_eval syntax_eval)

theorem parse_h264_sps_roundtrip_witness:
  "let info = sps_info (parse_h264_sps (0x67 # insert_emulation_prevention 0 sample_interlaced_rbsp)) in
   info = sps_expected sample_interlaced \<and> visible_width info = 1920 \<and> visible_height info = 1080 \<and>
   coded_height info = 1088 \<and> \<not> frame_mbs_only info \<and> full_range info \<and> color_primaries info = 9"
  using parse_h264_sps_roundtrip [OF sample_interlaced_ok sample_interlaced_bits, where header = "0x67"]
  by (simp add: sps_expected_def sps_start_def default_sps_info_def sample_interlaced_def sample_vui_def vui_info_def
      cropped_away_def written_size_def chroma_array_type_def chroma_subsampling_def fields_per_frame_def sample_high_def)

text \<open>A 1280x720 constrained-baseline set, level 3.1: 80 by 45 macroblocks, no cropping
  beyond explicit zeroes, then the stop bit and alignment.\<close>

definition sample_fields :: sps_fields where
  "sample_fields =
     \<lparr>f_idc = 66, f_iop = 0xC0, f_level = 31, f_id = 0, f_high = None, f_log2_frame_num = 0, f_poc = Poc_output_order,
      f_ref_frames = 1, f_gaps = False, f_width_mbs_minus1 = 79, f_height_map_units_minus1 = 44, f_mb_adaptive = None,
      f_direct = True, f_crop = Some (0, 0, 0, 0), f_vui = None\<rparr>"

definition sample_rbsp :: "u8 list" where
  "sample_rbsp = [66, 0xC0, 31, 0xDA, 0x01, 0x40, 0x16, 0xFF, 0x40]"

lemma sample_fields_ok: "sps_fields_ok sample_fields"
  by (simp add: sample_fields_def sps_fields_ok_def high_profiles_def crop_ok_def cropped_away_def written_size_def
      fields_per_frame_def)

lemma sample_rbsp_bits: "stream_bits sample_rbsp = sps_bits sample_fields @ [True, False, False, False, False, False, False]"
  by (simp add: sample_fields_def sample_rbsp_def bit_eval syntax_eval)

lemma sample_sps_passed:
  "sps_passed (parse_h264_sps (0x67 # insert_emulation_prevention 0 sample_rbsp))"
proof -
  have "reader_bits \<lparr>br_bytes = sample_rbsp, bit_offset = 0\<rparr> =
      sps_bits sample_fields @ [True, False, False, False, False, False, False]"
    by (simp add: reader_bits_def sample_rbsp_bits)
  from parse_sps_rbsp_bits [OF this sample_fields_ok] show ?thesis
    by (simp add: parse_h264_sps_def annex_b_nal_to_rbsp_def valid_ebsp_def ebsp_scan_insert
        rbsp_loop_insert) (simp add: sample_rbsp_def)
qed

theorem parse_h264_sps_bounds_witness:
  "0 < visible_width (sps_info (parse_h264_sps (0x67 # insert_emulation_prevention 0 sample_rbsp)))"
  using parse_h264_sps_bounds [OF sample_sps_passed] by blast

end
