(* ===== verification/Rtp_Packetizer.thy ===== *)
theory Rtp_Packetizer
  imports Annex_B
begin

text \<open>
  The 90 kHz clock and the H.264 RTP packetizer (\<^verbatim>\<open>src/transport/rtp_transport.cpp\<close>,
  \<^verbatim>\<open>include/glyphrelay/rtp_transport.hpp\<close>): single NAL unit packets and FU-A fragments of
  at most 1200 payload bytes, 64-bit extended sequence numbers and timestamps with their wire
  truncations. The reference is a depacketizer after RFC 6184.
\<close>

section \<open>Model\<close>

definition kMaximumRtpPayloadBytes :: nat where
  "kMaximumRtpPayloadBytes = 1200"

definition kRtpHeaderBytes :: nat where
  "kRtpHeaderBytes = 12"

definition kRtpClockRate :: u64 where
  "kRtpClockRate = 90000"

definition kNanosecondsPerSecond :: u64 where
  "kNanosecondsPerSecond = 1000000000"

datatype h264_packet_role = Role_sps | Role_pps | Role_idr | Role_inter | Role_supplemental

record rtp_packet_identity =
  id_frame_id :: u64
  id_media_epoch :: u64
  id_access_unit_id :: u64
  id_dependency_epoch :: u64
  id_ssrc :: u32
  id_extended_sequence :: u64
  id_wire_sequence :: u16
  id_extended_timestamp :: u64
  id_wire_timestamp :: u32
  id_role :: h264_packet_role
  id_marker :: bool

record plaintext_rtp_packet =
  pkt_bytes :: "u8 list"
  rtp_header_bytes :: nat
  identity :: rtp_packet_identity
  retransmission :: bool

definition packet_payload :: "plaintext_rtp_packet \<Rightarrow> u8 list" where
  "packet_payload p =
     (if rtp_header_bytes p < kRtpHeaderBytes \<or> length (pkt_bytes p) < rtp_header_bytes p then []
      else drop (rtp_header_bytes p) (pkt_bytes p))"

record packetize_access_unit =
  in_annex_b :: "u8 list"
  in_frame_id :: u64
  in_media_epoch :: u64
  in_access_unit_id :: u64
  in_dependency_epoch :: u64
  in_dequeue_nanoseconds :: u64

record packetization_result =
  pk_passed :: bool
  pk_reason :: string
  pk_extended_timestamp :: u64
  pk_packets :: "plaintext_rtp_packet list"

record rtp_clock =
  base_monotonic_nanoseconds :: u64
  base_extended_timestamp :: u64
  last_extended_timestamp_opt :: "u64 option"

text \<open>\<open>RtpClock90k::map\<close>, with its four ways to refuse.\<close>

definition clock_map :: "rtp_clock \<Rightarrow> u64 \<Rightarrow> u64 option \<times> rtp_clock" where
  "clock_map c monotonic_nanoseconds =
     (if monotonic_nanoseconds < base_monotonic_nanoseconds c then (None, c)
      else
        let delta = monotonic_nanoseconds - base_monotonic_nanoseconds c;
            whole_seconds = delta div kNanosecondsPerSecond;
            remaining_nanoseconds = delta mod kNanosecondsPerSecond
        in if whole_seconds > - 1 div kRtpClockRate then (None, c)
        else
          let whole_ticks = whole_seconds * kRtpClockRate;
              fractional_ticks = (remaining_nanoseconds * kRtpClockRate) div kNanosecondsPerSecond
          in if fractional_ticks > - 1 - whole_ticks then (None, c)
          else
            let elapsed_ticks = whole_ticks + fractional_ticks
            in if elapsed_ticks > - 1 - base_extended_timestamp c then (None, c)
            else
              let candidate = base_extended_timestamp c + elapsed_ticks
              in if (case last_extended_timestamp_opt c of None \<Rightarrow> False | Some t \<Rightarrow> candidate \<le> t)
                 then (None, c)
                 else (Some candidate, c\<lparr>last_extended_timestamp_opt := Some candidate\<rparr>))"

definition last_extended_timestamp :: "rtp_clock \<Rightarrow> u64" where
  "last_extended_timestamp c =
     (case last_extended_timestamp_opt c of None \<Rightarrow> base_extended_timestamp c | Some t \<Rightarrow> t)"

record h264_rtp_packetizer =
  payload_type :: u8
  ssrc :: u32
  next_extended_sequence :: u64
  clock :: rtp_clock

definition make_packetizer :: "u8 \<Rightarrow> u32 \<Rightarrow> u64 \<Rightarrow> u64 \<Rightarrow> u64 \<Rightarrow> exn + h264_rtp_packetizer" where
  "make_packetizer pt source initial_extended_sequence base_nanoseconds base_timestamp =
     (if pt < 96 \<or> pt > 127 then Inl (Invalid_argument ''H.264 RTP payload type must be dynamic'')
      else if source = 0
        then Inl (Invalid_argument ''RTP SSRC zero is reserved by GlyphRelay'')
      else Inr \<lparr>payload_type = pt, ssrc = source, next_extended_sequence = initial_extended_sequence,
                clock = \<lparr>base_monotonic_nanoseconds = base_nanoseconds,
                         base_extended_timestamp = base_timestamp,
                         last_extended_timestamp_opt = None\<rparr>\<rparr>)"

definition write_u16 :: "u8 list \<Rightarrow> nat \<Rightarrow> u16 \<Rightarrow> u8 list" where
  "write_u16 output offset value =
     output[offset := ucast (drop_bit 8 value), offset + 1 := ucast (value AND 0xFF)]"

definition write_u32 :: "u8 list \<Rightarrow> nat \<Rightarrow> u32 \<Rightarrow> u8 list" where
  "write_u32 output offset value =
     output[offset := ucast (drop_bit 24 value), offset + 1 := ucast (drop_bit 16 value AND 0xFF),
            offset + 2 := ucast (drop_bit 8 value AND 0xFF), offset + 3 := ucast (value AND 0xFF)]"

definition packet_role :: "u8 \<Rightarrow> h264_packet_role" where
  "packet_role nal_type =
     (if nal_type = 7 then Role_sps
      else if nal_type = 8 then Role_pps
      else if nal_type = 5 then Role_idr
      else if nal_type = 1 then Role_inter
      else Role_supplemental)"

text \<open>The loop of \<open>idr_has_parameter_sets\<close>; the arguments are its three flags.\<close>

fun idr_parameter_sets_loop :: "bool \<Rightarrow> bool \<Rightarrow> bool \<Rightarrow> annexb_nal_unit list \<Rightarrow> bool" where
  "idr_parameter_sets_loop saw_sps saw_pps_after_sps saw_non_idr_vcl [] = True"
| "idr_parameter_sets_loop saw_sps saw_pps_after_sps saw_non_idr_vcl (unit # rest) =
     (if unit_type unit = 7 then idr_parameter_sets_loop True saw_pps_after_sps saw_non_idr_vcl rest
      else if unit_type unit = 8 then idr_parameter_sets_loop saw_sps saw_sps saw_non_idr_vcl rest
      else if unit_type unit = 5 then \<not> saw_non_idr_vcl \<and> saw_sps \<and> saw_pps_after_sps
      else if unit_type unit \<ge> 1 \<and> unit_type unit \<le> 5
        then idr_parameter_sets_loop saw_sps saw_pps_after_sps True rest
      else idr_parameter_sets_loop saw_sps saw_pps_after_sps saw_non_idr_vcl rest)"

definition idr_has_parameter_sets :: "annexb_access_unit \<Rightarrow> bool" where
  "idr_has_parameter_sets au = idr_parameter_sets_loop False False False (nal_units au)"

record rtp_payload =
  rp_bytes :: "u8 list"
  rp_role :: h264_packet_role

text \<open>The \<open>while\<close> loop that cuts a long NAL unit into FU-A fragments.\<close>

function fu_fragments :: "u8 \<Rightarrow> u8 \<Rightarrow> h264_packet_role \<Rightarrow> u8 list \<Rightarrow> nat \<Rightarrow> rtp_payload list" where
  "fu_fragments fu_indicator original_type role nal offset =
     (if offset < length nal then
        let remaining = length nal - offset;
            chunk_size = min remaining (kMaximumRtpPayloadBytes - 2);
            start = (offset = 1);
            fin = (chunk_size = remaining);
            fu_header = (if start then 0x80 else 0) OR (if fin then 0x40 else 0) OR original_type
        in \<lparr>rp_bytes = fu_indicator # fu_header # take chunk_size (drop offset nal), rp_role = role\<rparr>
           # fu_fragments fu_indicator original_type role nal (offset + chunk_size)
      else [])"
  by pat_completeness auto
termination
  by (relation "measure (\<lambda>(_, _, _, nal, offset). length nal - offset)")
    (auto simp: kMaximumRtpPayloadBytes_def)

declare fu_fragments.simps [simp del]

definition fragment_nal :: "u8 list \<Rightarrow> h264_packet_role \<Rightarrow> rtp_payload list" where
  "fragment_nal nal role =
     (if length nal \<le> kMaximumRtpPayloadBytes then [\<lparr>rp_bytes = nal, rp_role = role\<rparr>]
      else fu_fragments ((hd nal AND 0xE0) OR 28) (hd nal AND 0x1F) role nal 1)"

fun fragment_units :: "annexb_access_unit \<Rightarrow> annexb_nal_unit list \<Rightarrow> exn + rtp_payload list" where
  "fragment_units au [] = Inr []"
| "fragment_units au (unit # rest) =
     (case au_payload au unit of
        Inl e \<Rightarrow> Inl e
      | Inr nal \<Rightarrow>
          (case fragment_units au rest of
             Inl e \<Rightarrow> Inl e
           | Inr payloads \<Rightarrow> Inr (fragment_nal nal (packet_role (unit_type unit)) @ payloads)))"

definition fragment_access_unit :: "annexb_access_unit \<Rightarrow> exn + rtp_payload list" where
  "fragment_access_unit au = fragment_units au (nal_units au)"

definition make_packet ::
  "rtp_payload \<Rightarrow> bool \<Rightarrow> u8 \<Rightarrow> u32 \<Rightarrow> u64 \<Rightarrow> u64 \<Rightarrow> packetize_access_unit \<Rightarrow> plaintext_rtp_packet" where
  "make_packet payload marker pt source extended_sequence extended_timestamp input =
     (let wire_sequence = ucast (extended_sequence AND 0xFFFF);
          wire_timestamp = ucast (extended_timestamp AND 0xFFFFFFFF);
          bytes = replicate (kRtpHeaderBytes + length (rp_bytes payload)) 0;
          bytes = bytes[0 := 0x80, 1 := (if marker then 0x80 else 0) OR pt];
          bytes = write_u16 bytes 2 wire_sequence;
          bytes = write_u32 bytes 4 wire_timestamp;
          bytes = write_u32 bytes 8 source
      in \<lparr>pkt_bytes = take kRtpHeaderBytes bytes @ rp_bytes payload,
          rtp_header_bytes = kRtpHeaderBytes,
          identity =
            \<lparr>id_frame_id = in_frame_id input, id_media_epoch = in_media_epoch input,
             id_access_unit_id = in_access_unit_id input,
             id_dependency_epoch = in_dependency_epoch input, id_ssrc = source,
             id_extended_sequence = extended_sequence, id_wire_sequence = wire_sequence,
             id_extended_timestamp = extended_timestamp, id_wire_timestamp = wire_timestamp,
             id_role = rp_role payload, id_marker = marker\<rparr>,
          retransmission = False\<rparr>)"

definition packetization_failure :: "string \<Rightarrow> packetization_result" where
  "packetization_failure reason =
     \<lparr>pk_passed = False, pk_reason = reason, pk_extended_timestamp = 0, pk_packets = []\<rparr>"

definition make_packets ::
  "h264_rtp_packetizer \<Rightarrow> rtp_payload list \<Rightarrow> u64 \<Rightarrow> packetize_access_unit \<Rightarrow> plaintext_rtp_packet list"
where
  "make_packets s payloads extended_timestamp input =
     map (\<lambda>index. make_packet (payloads ! index) (index + 1 = length payloads) (payload_type s)
            (ssrc s) (next_extended_sequence s + word_of_nat index) extended_timestamp input)
       [0..<length payloads]"

definition packetize ::
  "h264_rtp_packetizer \<Rightarrow> packetize_access_unit \<Rightarrow> (packetization_result, h264_rtp_packetizer) outcome"
where
  "packetize s input =
     (if in_media_epoch input = 0 \<or> in_dependency_epoch input = 0 \<or> in_access_unit_id input = 0
        then (Inr (packetization_failure ''rtp_access_unit_identity_invalid''), s)
      else
        let parsed = parse_annex_b_access_unit (in_annex_b input) in
        if \<not> annexb_passed parsed
          then (Inr (packetization_failure (''rtp_'' @ annexb_reason parsed)), s)
        else if \<not> idr_has_parameter_sets (access_unit parsed)
          then (Inr (packetization_failure ''rtp_idr_missing_sps_pps''), s)
        else case fragment_access_unit (access_unit parsed) of
            Inl e \<Rightarrow> (Inl e, s)
          | Inr payloads \<Rightarrow>
              if payloads = []
                then (Inr (packetization_failure ''rtp_access_unit_has_no_payloads''), s)
              else
                let packet_count = word_of_nat (length payloads) :: u64 in
                if packet_count > - 1 - next_extended_sequence s
                  then (Inr (packetization_failure ''rtp_extended_sequence_exhausted''), s)
                else
                  (case clock_map (clock s) (in_dequeue_nanoseconds input) of
                     (None, c) \<Rightarrow>
                       (Inr (packetization_failure ''rtp_timestamp_not_strictly_increasing''),
                        s\<lparr>clock := c\<rparr>)
                   | (Some extended_timestamp, c) \<Rightarrow>
                       (Inr \<lparr>pk_passed = True, pk_reason = ''rtp_access_unit_packetized'',
                             pk_extended_timestamp = extended_timestamp,
                             pk_packets = make_packets s payloads extended_timestamp input\<rparr>,
                        s\<lparr>clock := c,
                          next_extended_sequence := next_extended_sequence s + packet_count\<rparr>)))"

section \<open>The clock is exact\<close>

text \<open>The ticks elapsed since the base, rounded down once.\<close>

definition exact_ticks :: "rtp_clock \<Rightarrow> u64 \<Rightarrow> nat" where
  "exact_ticks c t = (unat t - unat (base_monotonic_nanoseconds c)) * 90000 div 1000000000"

definition exact_timestamp :: "rtp_clock \<Rightarrow> u64 \<Rightarrow> nat" where
  "exact_timestamp c t = unat (base_extended_timestamp c) + exact_ticks c t"

definition clock_admits :: "rtp_clock \<Rightarrow> u64 \<Rightarrow> bool" where
  "clock_admits c t =
     (base_monotonic_nanoseconds c \<le> t \<and> exact_timestamp c t < 2 ^ 64 \<and>
      (case last_extended_timestamp_opt c of None \<Rightarrow> True | Some l \<Rightarrow> unat l < exact_timestamp c t))"

lemma split_ticks:
  fixes d k n :: nat
  assumes "n \<noteq> 0"
  shows "(d div n) * k + (d mod n) * k div n = d * k div n"
proof -
  have "d * k = (n * (d div n) + d mod n) * k" by (simp only: mult_div_mod_eq)
  also have "\<dots> = (d mod n) * k + n * ((d div n) * k)" by (simp only: algebra_simps)
  finally show ?thesis using assms by simp
qed

lemma clock_words:
  fixes delta :: u64
  defines "ws \<equiv> delta div kNanosecondsPerSecond" and "rem \<equiv> delta mod kNanosecondsPerSecond"
  shows "\<not> ws > - 1 div kRtpClockRate"
    and "unat (ws * kRtpClockRate) = unat delta div 1000000000 * 90000"
    and "unat (rem * kRtpClockRate div kNanosecondsPerSecond) =
      unat delta mod 1000000000 * 90000 div 1000000000"
    and "\<not> rem * kRtpClockRate div kNanosecondsPerSecond > - 1 - ws * kRtpClockRate"
    and "unat (ws * kRtpClockRate + rem * kRtpClockRate div kNanosecondsPerSecond) =
      unat delta * 90000 div 1000000000"
proof -
  define q where "q = unat delta div 1000000000"
  define m where "m = unat delta mod 1000000000"
  have "unat delta < 18446744074 * 1000000000" using unat_lt_u64 [of delta] by simp
  then have q: "q < 18446744074" unfolding q_def by (rule less_mult_imp_div_less)
  have m: "m < 1000000000" by (simp add: m_def)
  have ws: "unat ws = q" and rem: "unat rem = m"
    by (simp_all add: ws_def rem_def kNanosecondsPerSecond_def unat_div_distrib unat_mod_distrib
        q_def m_def)
  have max: "unat (- 1 div kRtpClockRate) = 204963823041217"
    by (simp add: unat_div_distrib unat_max_u64 kRtpClockRate_def)
  show "\<not> ws > - 1 div kRtpClockRate" using q by (simp add: word_less_nat_alt max ws)
  have wt: "unat (ws * kRtpClockRate) = q * 90000"
    using q by (simp add: unat_word_ariths ws kRtpClockRate_def)
  then show "unat (ws * kRtpClockRate) = unat delta div 1000000000 * 90000" by (simp add: q_def)
  have "unat (rem * kRtpClockRate) = m * 90000"
    using m by (simp add: unat_word_ariths rem kRtpClockRate_def)
  then have ft: "unat (rem * kRtpClockRate div kNanosecondsPerSecond) = m * 90000 div 1000000000"
    by (simp add: unat_div_distrib kNanosecondsPerSecond_def)
  then show "unat (rem * kRtpClockRate div kNanosecondsPerSecond) =
      unat delta mod 1000000000 * 90000 div 1000000000" by (simp add: m_def)
  have "m * 90000 div 1000000000 < 90000" by (rule less_mult_imp_div_less) (use m in simp)
  with q wt ft show nov: "\<not> rem * kRtpClockRate div kNanosecondsPerSecond > - 1 - ws * kRtpClockRate"
    by (simp add: gt_max_minus_u64)
  show "unat (ws * kRtpClockRate + rem * kRtpClockRate div kNanosecondsPerSecond) =
      unat delta * 90000 div 1000000000"
    using unat_add_no_overflow [OF nov] split_ticks [of 1000000000 "unat delta" 90000]
    by (simp add: wt ft q_def m_def)
qed

lemma clock_map_eq:
  "clock_map c t =
     (if clock_admits c t
      then (Some (word_of_nat (exact_timestamp c t)),
            c\<lparr>last_extended_timestamp_opt := Some (word_of_nat (exact_timestamp c t))\<rparr>)
      else (None, c))"
proof (cases "t < base_monotonic_nanoseconds c")
  case True
  then show ?thesis by (simp add: clock_map_def clock_admits_def not_le)
next
  case False
  let ?d = "t - base_monotonic_nanoseconds c"
  let ?e = "?d div kNanosecondsPerSecond * kRtpClockRate +
    ?d mod kNanosecondsPerSecond * kRtpClockRate div kNanosecondsPerSecond"
  from False have le: "base_monotonic_nanoseconds c \<le> t" by (simp add: not_less)
  have e: "unat ?e = exact_ticks c t"
    using clock_words(5) [of ?d] elapsed_unat [OF le] by (simp add: exact_ticks_def)
  have over: "?e > - 1 - base_extended_timestamp c \<longleftrightarrow> \<not> exact_timestamp c t < 2 ^ 64"
    by (simp only: gt_max_minus_u64 e exact_timestamp_def not_less)
  have cand: "base_extended_timestamp c + ?e = word_of_nat (exact_timestamp c t)"
    by (simp add: exact_timestamp_def e [symmetric])
  have last: "base_extended_timestamp c + ?e \<le> l \<longleftrightarrow> \<not> unat l < exact_timestamp c t"
    if "exact_timestamp c t < 2 ^ 64" for l
    using that unfolding cand by (simp add: word_le_nat_alt unat_of_nat not_less)
  show ?thesis
  proof (cases "exact_timestamp c t < 2 ^ 64")
    case True
    then show ?thesis
      using False le last [OF True] over clock_words(1,4) [of ?d]
      by (auto simp: clock_map_def clock_admits_def Let_def cand split: option.splits)
  next
    case ovf: False
    then show ?thesis
      using False over clock_words(1,4) [of ?d]
      by (simp add: clock_map_def clock_admits_def Let_def)
  qed
qed

section \<open>Fragmentation and reassembly\<close>

lemma fragment_bytes_nonempty: "nal \<noteq> [] \<Longrightarrow> fragment_nal nal role \<noteq> []"
  by (auto simp: fragment_nal_def kMaximumRtpPayloadBytes_def fu_fragments.simps Let_def)

lemma fu_fragments_size:
  "p \<in> set (fu_fragments ind ty role nal off) \<Longrightarrow>
     0 < length (rp_bytes p) \<and> length (rp_bytes p) \<le> kMaximumRtpPayloadBytes \<and> rp_role p = role"
proof (induction ind ty role nal off rule: fu_fragments.induct)
  case (1 ind ty role nal off)
  show ?case
  proof (cases "off < length nal")
    case True
    from 1(2) show ?thesis
      unfolding fu_fragments.simps [of ind ty role nal off]
      using 1(1) [OF True refl refl refl refl refl] True
      by (auto simp: Let_def kMaximumRtpPayloadBytes_def)
  next
    case False
    with 1(2) show ?thesis by (simp add: fu_fragments.simps)
  qed
qed

lemma fragment_nal_size:
  "nal \<noteq> [] \<Longrightarrow> p \<in> set (fragment_nal nal role) \<Longrightarrow>
     0 < length (rp_bytes p) \<and> length (rp_bytes p) \<le> kMaximumRtpPayloadBytes \<and> rp_role p = role"
  using fu_fragments_size [of p _ _ role nal 1]
  by (cases "length nal \<le> kMaximumRtpPayloadBytes") (auto simp: fragment_nal_def)

lemma fu_fragments_length: "length (fu_fragments ind ty role nal off) \<le> length nal - off"
proof (induction ind ty role nal off rule: fu_fragments.induct)
  case (1 ind ty role nal off)
  show ?case
  proof (cases "off < length nal")
    case True
    let ?n = "min (length nal - off) (kMaximumRtpPayloadBytes - 2)"
    have "length (fu_fragments ind ty role nal (off + ?n)) \<le> length nal - (off + ?n)"
      using 1 [OF True refl refl refl refl refl] .
    moreover have "0 < ?n" using True by (simp add: kMaximumRtpPayloadBytes_def)
    moreover have "length (fu_fragments ind ty role nal off) =
        Suc (length (fu_fragments ind ty role nal (off + ?n)))"
      using True by (subst fu_fragments.simps) (simp add: Let_def)
    ultimately show ?thesis using True by linarith
  next
    case False
    then show ?thesis by (simp add: fu_fragments.simps)
  qed
qed

lemma fragment_nal_length: "nal \<noteq> [] \<Longrightarrow> length (fragment_nal nal role) \<le> length nal"
  using fu_fragments_length [of _ _ role nal 1]
  by (auto simp: fragment_nal_def Suc_le_eq intro: le_trans [OF _ diff_le_self])

text \<open>A depacketizer after RFC 6184: a single NAL unit packet is its NAL unit; FU-A fragments
  are collected from the one with the start bit to the one with the end bit, and the NAL header
  is rebuilt from the FU indicator and the FU header.\<close>

fun depacketize :: "u8 list option \<Rightarrow> u8 list list \<Rightarrow> u8 list list option" where
  "depacketize None [] = Some []"
| "depacketize (Some partial) [] = None"
| "depacketize cur (p # ps) =
     (case p of
        [] \<Rightarrow> None
      | [single] \<Rightarrow>
          if single AND 0x1F = 28 \<or> cur \<noteq> None then None
          else map_option (Cons p) (depacketize None ps)
      | indicator # fu # data \<Rightarrow>
          if indicator AND 0x1F \<noteq> 28 then
            (if cur = None then map_option (Cons p) (depacketize None ps) else None)
          else
            let acc = (if fu AND 0x80 \<noteq> 0
                       then (if cur = None then Some (((indicator AND 0xE0) OR (fu AND 0x1F)) # data) else None)
                       else map_option (\<lambda>c. c @ data) cur)
            in case acc of
                 None \<Rightarrow> None
               | Some c \<Rightarrow> if fu AND 0x40 \<noteq> 0 then map_option (Cons c) (depacketize None ps)
                           else depacketize (Some c) ps)"

lemma fu_header_bits:
  fixes h :: u8 and start fin :: bool
  defines "fu \<equiv> (if start then 0x80 else 0) OR (if fin then 0x40 else 0) OR (h AND 0x1F)"
  shows "fu AND 0x80 \<noteq> 0 \<longleftrightarrow> start" "fu AND 0x40 \<noteq> 0 \<longleftrightarrow> fin" "fu AND 0x1F = h AND 0x1F"
    "((h AND 0xE0) OR 28) AND 0x1F = 28" "(((h AND 0xE0) OR 28) AND 0xE0) OR (h AND 0x1F) = h"
proof -
  have z: "(h AND 0x1F) AND 0x80 = 0" "(h AND 0x1F) AND 0x40 = 0" "(h AND 0xE0) AND 0x1F = 0"
    by (simp_all add: and.assoc)
  then show "fu AND 0x80 \<noteq> 0 \<longleftrightarrow> start" "fu AND 0x40 \<noteq> 0 \<longleftrightarrow> fin"
    by (auto simp: fu_def bit.conj_disj_distrib2)
  show "fu AND 0x1F = h AND 0x1F" by (simp add: fu_def bit.conj_disj_distrib2 and.assoc)
  show "((h AND 0xE0) OR 28) AND 0x1F = 28" using z by (simp add: bit.conj_disj_distrib2)
  have "(((h AND 0xE0) OR 28) AND 0xE0) OR (h AND 0x1F) = (h AND 0xE0) OR (h AND 0x1F)"
    by (simp add: bit.conj_disj_distrib2 and.assoc)
  also have "\<dots> = h AND (0xE0 OR 0x1F)" by (simp only: bit.conj_disj_distrib)
  also have "(0xE0 OR 0x1F :: u8) = - 1" by simp
  finally show "(((h AND 0xE0) OR 28) AND 0xE0) OR (h AND 0x1F) = h" by simp
qed

lemma depacketize_single:
  assumes "p \<noteq> []" "hd p AND 0x1F \<noteq> 28"
  shows "depacketize None (p # ps) = map_option (Cons p) (depacketize None ps)"
  using assms by (cases p; cases "tl p") auto

lemma depacketize_fu:
  fixes h :: u8
  defines "ind \<equiv> (h AND 0xE0) OR 28" and "ty \<equiv> h AND 0x1F"
  assumes "1 \<le> off" "off < length nal"
    and "off = 1 \<Longrightarrow> cur = None" and "off \<noteq> 1 \<Longrightarrow> cur = Some (h # drop 1 (take off nal))"
    and "hd nal = h"
  shows "depacketize cur (map rp_bytes (fu_fragments ind ty role nal off) @ ps) =
    map_option (Cons nal) (depacketize None ps)"
  using assms(3-)
proof (induction "length nal - off" arbitrary: off cur rule: less_induct)
  case less
  let ?rem = "length nal - off"
  let ?n = "min ?rem (kMaximumRtpPayloadBytes - 2)"
  let ?data = "take ?n (drop off nal)"
  let ?acc = "h # drop 1 (take (off + ?n) nal)"
  have n: "0 < ?n" "off + ?n \<le> length nal" using less.prems by (auto simp: kMaximumRtpPayloadBytes_def)
  have frag: "fu_fragments ind ty role nal off =
      \<lparr>rp_bytes = ind # ((if off = 1 then 0x80 else 0) OR (if ?n = ?rem then 0x40 else 0) OR ty) # ?data,
       rp_role = role\<rparr> # fu_fragments ind ty role nal (off + ?n)"
    using less.prems by (subst fu_fragments.simps) (simp add: Let_def)
  note hdr = fu_header_bits(1-3) [where start = "off = 1" and fin = "?n = ?rem" and h = h, folded ty_def]
    fu_header_bits(4,5) [of h, folded ty_def ind_def]
  have "take (off + ?n) nal = take off nal @ ?data" by (simp add: take_add)
  then have acc: "(if off = 1 then h # ?data else h # drop 1 (take off nal) @ ?data) = ?acc"
    using less.prems by (cases nal) (auto simp: take_Cons')
  have step: "depacketize cur (map rp_bytes (fu_fragments ind ty role nal off) @ ps) =
      (if ?n = ?rem then map_option (Cons ?acc)
         (depacketize None (map rp_bytes (fu_fragments ind ty role nal (off + ?n)) @ ps))
       else depacketize (Some ?acc) (map rp_bytes (fu_fragments ind ty role nal (off + ?n)) @ ps))"
    unfolding frag acc [symmetric] using hdr less.prems(3,4)
    by (cases "off = 1") (simp_all add: Let_def)
  show ?case
  proof (cases "?n = ?rem")
    case True
    then have "fu_fragments ind ty role nal (off + ?n) = []" using less.prems by (simp add: fu_fragments.simps)
    moreover have "?acc = nal" using True less.prems by (cases nal) auto
    ultimately show ?thesis using step True by simp
  next
    case False
    then have "off + ?n < length nal" using n by linarith
    have "depacketize (Some ?acc) (map rp_bytes (fu_fragments ind ty role nal (off + ?n)) @ ps) =
        map_option (Cons nal) (depacketize None ps)"
      by (rule less.hyps) (use n less.prems \<open>off + ?n < length nal\<close> in auto)
    then show ?thesis unfolding step if_not_P [OF False] .
  qed
qed

lemma depacketize_fragment_nal:
  assumes "nal \<noteq> []" "hd nal AND 0x1F \<noteq> 28"
  shows "depacketize None (map rp_bytes (fragment_nal nal role) @ ps) =
    map_option (Cons nal) (depacketize None ps)"
proof (cases "length nal \<le> kMaximumRtpPayloadBytes")
  case True
  with assms show ?thesis
    by (simp add: fragment_nal_def depacketize_single del: depacketize.simps)
next
  case False
  then have "1 < length nal" by (simp add: kMaximumRtpPayloadBytes_def)
  with False show ?thesis
    using depacketize_fu [of 1 nal None "hd nal" role ps] by (simp add: fragment_nal_def del: depacketize.simps)
qed

lemma depacketize_units:
  assumes "fragment_units au us = Inr payloads"
    and "map (au_payload au) us = map Inr nals"
    and "\<And>n. n \<in> set nals \<Longrightarrow> n \<noteq> [] \<and> hd n AND 0x1F \<noteq> 28"
  shows "depacketize None (map rp_bytes payloads) = Some nals"
  using assms
proof (induction us arbitrary: payloads nals)
  case (Cons u us)
  from Cons.prems(2) obtain n ns where nals: "nals = n # ns" "au_payload au u = Inr n"
    "map (au_payload au) us = map Inr ns" by (cases nals) auto
  with Cons.prems(1) obtain rest where rest: "fragment_units au us = Inr rest"
    "payloads = fragment_nal n (packet_role (unit_type u)) @ rest" by (auto split: sum.splits)
  have "depacketize None (map rp_bytes rest) = Some ns"
    using Cons.IH [OF rest(1) nals(3)] Cons.prems(3) nals(1) by auto
  with rest nals Cons.prems(3) show ?case
    by (simp add: depacketize_fragment_nal del: depacketize.simps)
qed auto

section \<open>Packets on the wire\<close>

lemma make_packet_bytes:
  "pkt_bytes (make_packet payload marker pt source es et input) =
     [0x80, (if marker then 0x80 else 0) OR pt] @
     [ucast (drop_bit 8 (ucast (es AND 0xFFFF) :: u16)), ucast ((ucast (es AND 0xFFFF) :: u16) AND 0xFF)] @
     [ucast (drop_bit 24 (ucast (et AND 0xFFFFFFFF) :: u32)),
      ucast (drop_bit 16 (ucast (et AND 0xFFFFFFFF) :: u32) AND 0xFF),
      ucast (drop_bit 8 (ucast (et AND 0xFFFFFFFF) :: u32) AND 0xFF),
      ucast ((ucast (et AND 0xFFFFFFFF) :: u32) AND 0xFF)] @
     [ucast (drop_bit 24 source), ucast (drop_bit 16 source AND 0xFF),
      ucast (drop_bit 8 source AND 0xFF), ucast (source AND 0xFF)] @
     rp_bytes payload"
proof -
  have rep: "replicate (12 + length (rp_bytes payload)) (0 :: u8) =
      [0, 0, 0, 0, 0, 0, 0, 0, 0, 0, 0, 0] @ replicate (length (rp_bytes payload)) 0"
    by (simp add: replicate_add numeral_eq_Suc)
  show ?thesis
    unfolding make_packet_def Let_def kRtpHeaderBytes_def rep write_u16_def write_u32_def
    by (simp add: numeral_eq_Suc)
qed

lemma make_packet_payload:
  "packet_payload (make_packet payload marker pt source es et input) = rp_bytes payload"
proof -
  let ?p = "make_packet payload marker pt source es et input"
  have "rtp_header_bytes ?p = 12" by (simp add: make_packet_def Let_def kRtpHeaderBytes_def)
  then show ?thesis by (simp add: packet_payload_def make_packet_bytes kRtpHeaderBytes_def)
qed

text \<open>Big-endian readers of the RTP header fields (RFC 3550).\<close>

definition wire_u16 :: "u8 list \<Rightarrow> nat \<Rightarrow> u16" where
  "wire_u16 bs i = push_bit 8 (ucast (bs ! i)) OR ucast (bs ! (i + 1))"

definition wire_u32 :: "u8 list \<Rightarrow> nat \<Rightarrow> u32" where
  "wire_u32 bs i = push_bit 24 (ucast (bs ! i)) OR push_bit 16 (ucast (bs ! (i + 1))) OR
     push_bit 8 (ucast (bs ! (i + 2))) OR ucast (bs ! (i + 3))"

lemma mask_words: "(0xFF :: u16) = mask 8" "(0xFF :: u32) = mask 8"
  "(0xFFFF :: u64) = mask 16" "(0xFFFFFFFF :: u64) = mask 32"
  by (simp_all add: mask_eq_exp_minus_1)

lemma u16_be: "push_bit 8 (ucast (ucast (drop_bit 8 v) :: u8)) OR ucast (ucast (v AND 0xFF) :: u8) = v"
  for v :: u16
  unfolding mask_words by (rule bit_word_eqI) (auto simp: bit_simps)

lemma u32_be:
  "push_bit 24 (ucast (ucast (drop_bit 24 v) :: u8)) OR
   push_bit 16 (ucast (ucast (drop_bit 16 v AND 0xFF) :: u8)) OR
   push_bit 8 (ucast (ucast (drop_bit 8 v AND 0xFF) :: u8)) OR ucast (ucast (v AND 0xFF) :: u8) = v"
  for v :: u32
proof (unfold mask_words, rule bit_word_eqI)
  fix n :: nat
  assume n: "n < LENGTH(32)"
  consider "n < 8" | "8 \<le> n" "n < 16" | "16 \<le> n" "n < 24" | "24 \<le> n" by linarith
  then show "bit (push_bit 24 (ucast (ucast (drop_bit 24 v) :: u8)) OR
   push_bit 16 (ucast (ucast (drop_bit 16 v AND mask 8) :: u8)) OR
   push_bit 8 (ucast (ucast (drop_bit 8 v AND mask 8) :: u8)) OR ucast (ucast (v AND mask 8) :: u8) :: u32) n = bit v n"
    using n by cases (auto simp: bit_simps)
qed

lemma ucast_and_masks:
  "(ucast (x AND 0xFFFF) :: u16) = ucast x" "(ucast (x AND 0xFFFFFFFF) :: u32) = ucast x"
  for x :: u64
  unfolding mask_words by (rule bit_word_eqI; auto simp: bit_simps)+

text \<open>What one packet of an access unit carries, read back from its bytes.\<close>

definition wire_packet_ok ::
  "h264_rtp_packetizer \<Rightarrow> u64 \<Rightarrow> u64 \<Rightarrow> bool \<Rightarrow> plaintext_rtp_packet \<Rightarrow> bool" where
  "wire_packet_ok s es et marker p =
     (pkt_bytes p ! 0 = 0x80 \<and> pkt_bytes p ! 1 = (if marker then 0x80 else 0) OR payload_type s \<and>
      wire_u16 (pkt_bytes p) 2 = ucast es \<and> wire_u32 (pkt_bytes p) 4 = ucast et \<and>
      wire_u32 (pkt_bytes p) 8 = ssrc s \<and>
      id_extended_sequence (identity p) = es \<and> id_wire_sequence (identity p) = ucast es \<and>
      id_extended_timestamp (identity p) = et \<and> id_wire_timestamp (identity p) = ucast et \<and>
      id_ssrc (identity p) = ssrc s \<and> id_marker (identity p) = marker \<and>
      \<not> retransmission p \<and> rtp_header_bytes p = 12 \<and>
      0 < length (packet_payload p) \<and> length (packet_payload p) \<le> kMaximumRtpPayloadBytes \<and>
      length (pkt_bytes p) = 12 + length (packet_payload p))"

lemma make_packet_ok:
  assumes "0 < length (rp_bytes payload)" "length (rp_bytes payload) \<le> kMaximumRtpPayloadBytes"
  shows "wire_packet_ok s es et marker (make_packet payload marker (payload_type s) (ssrc s) es et input)"
proof -
  let ?p = "make_packet payload marker (payload_type s) (ssrc s) es et input"
  have "wire_u16 (pkt_bytes ?p) 2 = ucast es"
    unfolding wire_u16_def make_packet_bytes ucast_and_masks
    using u16_be [of "ucast es"] by (simp add: numeral_eq_Suc)
  moreover have "wire_u32 (pkt_bytes ?p) 4 = ucast et"
    unfolding wire_u32_def make_packet_bytes ucast_and_masks
    using u32_be [of "ucast et"] by (simp add: numeral_eq_Suc)
  moreover have "wire_u32 (pkt_bytes ?p) 8 = ssrc s"
    unfolding wire_u32_def make_packet_bytes
    using u32_be [of "ssrc s"] by (simp add: numeral_eq_Suc)
  ultimately show ?thesis
    using assms unfolding wire_packet_ok_def make_packet_payload
    by (simp add: make_packet_bytes, simp add: make_packet_def Let_def kRtpHeaderBytes_def ucast_and_masks)
qed

section \<open>Packetization\<close>

lemma fragment_units_ok:
  assumes "\<And>u. u \<in> set us \<Longrightarrow> nal_unit_ok bs u"
  shows "\<exists>payloads nals. fragment_units \<lparr>au_bytes = bs, nal_units = vs\<rparr> us = Inr payloads \<and>
    map (au_payload \<lparr>au_bytes = bs, nal_units = vs\<rparr>) us = map Inr nals \<and>
    (\<forall>n \<in> set nals. n \<noteq> [] \<and> hd n AND 0x1F \<noteq> 28) \<and>
    (\<forall>p \<in> set payloads. 0 < length (rp_bytes p) \<and> length (rp_bytes p) \<le> kMaximumRtpPayloadBytes) \<and>
    (us \<noteq> [] \<longrightarrow> payloads \<noteq> []) \<and> length payloads \<le> length us * kMaximumNalBytes"
  using assms
proof (induction us)
  case (Cons u us)
  let ?au = "\<lparr>au_bytes = bs, nal_units = vs\<rparr>"
  let ?n = "take (payload_size u) (drop (payload_offset u) bs)"
  from Cons obtain payloads nals where IH: "fragment_units ?au us = Inr payloads"
    "map (au_payload ?au) us = map Inr nals" "\<forall>n \<in> set nals. n \<noteq> [] \<and> hd n AND 0x1F \<noteq> 28"
    "\<forall>p \<in> set payloads. 0 < length (rp_bytes p) \<and> length (rp_bytes p) \<le> kMaximumRtpPayloadBytes"
    "length payloads \<le> length us * kMaximumNalBytes"
    by auto
  have ok: "nal_unit_ok bs u" using Cons.prems by simp
  then have n: "nal_payload_ok ?n" unfolding nal_unit_ok_def by blast
  then have ne: "?n \<noteq> []" by (auto simp: nal_payload_ok_def)
  have "\<not> (28 :: u8) \<le> 23" by simp
  with n have ty: "hd ?n AND 0x1F \<noteq> 28" unfolding nal_payload_ok_def by metis
  have frag: "fragment_units ?au (u # us) = Inr (fragment_nal ?n (packet_role (unit_type u)) @ payloads)"
    using IH(1) nal_unit_ok_payload [OF ok] by simp
  have "length (fragment_nal ?n (packet_role (unit_type u))) \<le> kMaximumNalBytes"
    using fragment_nal_length [OF ne, of "packet_role (unit_type u)"] n
    by (simp only: nal_payload_ok_def) linarith
  then have len: "length (fragment_nal ?n (packet_role (unit_type u)) @ payloads) \<le>
      length (u # us) * kMaximumNalBytes" using IH(5) by simp
  show ?case
    by (rule exI [of _ "fragment_nal ?n (packet_role (unit_type u)) @ payloads"], rule exI [of _ "?n # nals"])
      (use frag IH len ne ty nal_unit_ok_payload [OF ok] fragment_nal_size [OF ne] fragment_bytes_nonempty [OF ne]
        in \<open>auto simp del: fragment_units.simps\<close>)
qed simp

lemma packetize_parsed:
  assumes "annexb_passed (parse_annex_b_access_unit bs)"
  defines "au \<equiv> access_unit (parse_annex_b_access_unit bs)"
  obtains payloads nals where "fragment_access_unit au = Inr payloads"
    "map (au_payload au) (nal_units au) = map Inr nals"
    "\<And>n. n \<in> set nals \<Longrightarrow> n \<noteq> [] \<and> hd n AND 0x1F \<noteq> 28"
    "\<And>p. p \<in> set payloads \<Longrightarrow> 0 < length (rp_bytes p) \<and> length (rp_bytes p) \<le> kMaximumRtpPayloadBytes"
    "payloads \<noteq> []" "length payloads < 2 ^ 64"
proof (rule parse_annex_b_passed [OF assms(1)])
  fix units
  assume au: "access_unit (parse_annex_b_access_unit bs) = \<lparr>au_bytes = bs, nal_units = units\<rparr>"
    and count: "length units \<le> kMaximumNalUnits" and tiles: "tiles bs 0 units" and vcl: "\<exists>u \<in> set units. 1 \<le> unit_type u \<and> unit_type u \<le> 5"
  from vcl have ne: "units \<noteq> []" by auto
  from fragment_units_ok [OF tiles_unit_ok [OF tiles], of units units]
  obtain payloads nals where
    "fragment_units \<lparr>au_bytes = bs, nal_units = units\<rparr> units = Inr payloads"
    "map (au_payload \<lparr>au_bytes = bs, nal_units = units\<rparr>) units = map Inr nals"
    "\<forall>n \<in> set nals. n \<noteq> [] \<and> hd n AND 0x1F \<noteq> 28"
    "\<forall>p \<in> set payloads. 0 < length (rp_bytes p) \<and> length (rp_bytes p) \<le> kMaximumRtpPayloadBytes"
    "units \<noteq> [] \<longrightarrow> payloads \<noteq> []" "length payloads \<le> length units * kMaximumNalBytes" by blast
  moreover from this count have "length payloads < 2 ^ 64"
    by (simp add: kMaximumNalUnits_def kMaximumNalBytes_def)
  ultimately show thesis
    using ne that [of payloads nals] unfolding fragment_access_unit_def au_def au by simp
qed

text \<open>A successful call, taken apart once for all its properties.\<close>

lemma packetize_passed:
  assumes "packetize s input = (Inr r, s')" "pk_passed r"
  obtains payloads nals where
    "fragment_access_unit (access_unit (parse_annex_b_access_unit (in_annex_b input))) = Inr payloads"
    "map (au_payload (access_unit (parse_annex_b_access_unit (in_annex_b input))))
       (nal_units (access_unit (parse_annex_b_access_unit (in_annex_b input)))) = map Inr nals"
    "\<And>n. n \<in> set nals \<Longrightarrow> n \<noteq> [] \<and> hd n AND 0x1F \<noteq> 28"
    "\<And>p. p \<in> set payloads \<Longrightarrow> 0 < length (rp_bytes p) \<and> length (rp_bytes p) \<le> kMaximumRtpPayloadBytes"
    "payloads \<noteq> []" "length payloads < 2 ^ 64"
    "\<not> word_of_nat (length payloads) > - 1 - next_extended_sequence s"
    "clock_admits (clock s) (in_dequeue_nanoseconds input)"
    "pk_extended_timestamp r = word_of_nat (exact_timestamp (clock s) (in_dequeue_nanoseconds input))"
    "pk_packets r = make_packets s payloads (pk_extended_timestamp r) input"
    "s' = s\<lparr>clock := (clock s)\<lparr>last_extended_timestamp_opt := Some (pk_extended_timestamp r)\<rparr>,
            next_extended_sequence := next_extended_sequence s + word_of_nat (length payloads)\<rparr>"
proof -
  let ?parsed = "parse_annex_b_access_unit (in_annex_b input)"
  have passed: "annexb_passed ?parsed"
    using assms by (auto simp: packetize_def packetization_failure_def Let_def split: if_splits)
  show thesis
  proof (rule packetize_parsed [OF passed])
    fix payloads nals
    assume frag: "fragment_access_unit (access_unit ?parsed) = Inr payloads"
      and rest: "map (au_payload (access_unit ?parsed)) (nal_units (access_unit ?parsed)) = map Inr nals"
        "\<And>n. n \<in> set nals \<Longrightarrow> n \<noteq> [] \<and> hd n AND 0x1F \<noteq> 28"
        "\<And>p. p \<in> set payloads \<Longrightarrow> 0 < length (rp_bytes p) \<and> length (rp_bytes p) \<le> kMaximumRtpPayloadBytes"
        "payloads \<noteq> []" "length payloads < 2 ^ 64"
    show thesis
      by (rule that [OF frag rest])
        (use assms in \<open>auto simp: packetize_def packetization_failure_def Let_def frag clock_map_eq
          split: if_splits\<close>)
  qed
qed

lemma packetize_total: "\<exists>r s'. packetize s input = (Inr r, s') \<and> (pk_passed r \<or> s' = s \<and> pk_packets r = [])"
proof (cases "annexb_passed (parse_annex_b_access_unit (in_annex_b input))")
  case True
  then show ?thesis
    by (rule packetize_parsed) (simp add: packetize_def packetization_failure_def Let_def clock_map_eq)
next
  case False
  then show ?thesis by (simp add: packetize_def packetization_failure_def Let_def)
qed

text \<open>The packets of a successful call carry consecutive extended sequence numbers and one
  timestamp, which the clock keeps as its last one.\<close>

lemma packetize_identities:
  assumes "packetize s input = (Inr r, s')" "pk_passed r"
  shows "map (unat \<circ> id_extended_sequence \<circ> identity) (pk_packets r) =
      [unat (next_extended_sequence s)..<unat (next_extended_sequence s')]"
    and "unat (next_extended_sequence s) \<le> unat (next_extended_sequence s')"
    and "p \<in> set (pk_packets r) \<Longrightarrow> id_extended_timestamp (identity p) = pk_extended_timestamp r"
    and "last_extended_timestamp_opt (clock s') = Some (pk_extended_timestamp r)"
    and "last_extended_timestamp_opt (clock s) = Some t \<Longrightarrow> t < pk_extended_timestamp r"
proof -
  note passed = packetize_passed [OF assms]
  obtain payloads where small: "length payloads < 2 ^ 64"
    and fits: "\<not> word_of_nat (length payloads) > - 1 - next_extended_sequence s"
    and adm: "clock_admits (clock s) (in_dequeue_nanoseconds input)"
    and ts: "pk_extended_timestamp r = word_of_nat (exact_timestamp (clock s) (in_dequeue_nanoseconds input))"
    and r: "pk_packets r = make_packets s payloads (pk_extended_timestamp r) input"
    and s': "s' = s\<lparr>clock := (clock s)\<lparr>last_extended_timestamp_opt := Some (pk_extended_timestamp r)\<rparr>,
            next_extended_sequence := next_extended_sequence s + word_of_nat (length payloads)\<rparr>"
    by (rule passed)
  have room: "unat (next_extended_sequence s) + length payloads < 2 ^ 64"
    using fits small by (simp add: gt_max_minus_u64 unat_of_nat)
  then have seq: "unat (next_extended_sequence s + word_of_nat i) = unat (next_extended_sequence s) + i"
    if "i \<le> length payloads" for i
    using that by (simp add: unat_word_ariths unat_of_nat)
  then have next': "unat (next_extended_sequence s') = unat (next_extended_sequence s) + length payloads"
    by (simp add: s')
  show "map (unat \<circ> id_extended_sequence \<circ> identity) (pk_packets r) =
      [unat (next_extended_sequence s)..<unat (next_extended_sequence s')]"
    by (rule nth_equalityI) (simp_all add: r next' make_packets_def make_packet_def Let_def seq)
  show "unat (next_extended_sequence s) \<le> unat (next_extended_sequence s')" by (simp add: next')
  show "p \<in> set (pk_packets r) \<Longrightarrow> id_extended_timestamp (identity p) = pk_extended_timestamp r"
    by (auto simp: r make_packets_def make_packet_def Let_def)
  show "last_extended_timestamp_opt (clock s') = Some (pk_extended_timestamp r)" by (simp add: s')
  show "last_extended_timestamp_opt (clock s) = Some t \<Longrightarrow> t < pk_extended_timestamp r"
    using adm by (simp add: clock_admits_def ts word_less_nat_alt unat_of_nat)
qed

text \<open>A packetizer as the constructor leaves it, and calls in any order.\<close>

definition packetizer_ok :: "h264_rtp_packetizer \<Rightarrow> bool" where
  "packetizer_ok s = (96 \<le> payload_type s \<and> payload_type s \<le> 127 \<and> ssrc s \<noteq> 0)"

definition packetizer_step :: "h264_rtp_packetizer \<Rightarrow> packetize_access_unit \<Rightarrow> h264_rtp_packetizer" where
  "packetizer_step s input = snd (packetize s input)"

lemma make_packetizer_ok: "make_packetizer pt source es bn bt = Inr s \<Longrightarrow> packetizer_ok s"
  by (auto simp: make_packetizer_def packetizer_ok_def not_less split: if_splits)

lemma packetizer_step_fields:
  "payload_type (packetizer_step s input) = payload_type s" "ssrc (packetizer_step s input) = ssrc s"
  "next_extended_sequence s \<le> next_extended_sequence (packetizer_step s input)"
proof -
  obtain r s' where p: "packetize s input = (Inr r, s')" "pk_passed r \<or> s' = s"
    using packetize_total [of s input] by blast
  have "payload_type s' = payload_type s \<and> ssrc s' = ssrc s \<and>
      next_extended_sequence s \<le> next_extended_sequence s'"
  proof (cases "pk_passed r")
    case True
    then have "next_extended_sequence s \<le> next_extended_sequence s'"
      using packetize_identities(2) [OF p(1)] by (simp add: word_le_nat_alt)
    moreover have "payload_type s' = payload_type s \<and> ssrc s' = ssrc s"
      by (rule packetize_passed [OF p(1) True]) simp
    ultimately show ?thesis by blast
  next
    case False
    with p show ?thesis by simp
  qed
  then show "payload_type (packetizer_step s input) = payload_type s"
    "ssrc (packetizer_step s input) = ssrc s"
    "next_extended_sequence s \<le> next_extended_sequence (packetizer_step s input)"
    by (simp_all add: packetizer_step_def p)
qed

interpretation packetizer: ranked_machine packetizer_step packetizer_ok next_extended_sequence
  by unfold_locales (simp_all add: packetizer_ok_def packetizer_step_fields)

text \<open>All packets a packetizer emits over a sequence of calls.\<close>

fun packetize_session :: "h264_rtp_packetizer \<Rightarrow> packetize_access_unit list \<Rightarrow> plaintext_rtp_packet list" where
  "packetize_session s [] = []"
| "packetize_session s (input # inputs) =
     (case fst (packetize s input) of
        Inl e \<Rightarrow> []
      | Inr r \<Rightarrow> pk_packets r) @ packetize_session (packetizer_step s input) inputs"

lemma packetize_session_cases:
  obtains (failed) "packetize_session s (input # inputs) = packetize_session s inputs"
      "packetizer_step s input = s"
  | (passed) r where "packetize s input = (Inr r, packetizer_step s input)" "pk_passed r"
      "packetize_session s (input # inputs) =
         pk_packets r @ packetize_session (packetizer_step s input) inputs"
proof -
  obtain r s' where p: "packetize s input = (Inr r, s')" "pk_passed r \<or> s' = s \<and> pk_packets r = []"
    using packetize_total [of s input] by blast
  from p(2) show thesis
    by (cases "pk_passed r") (use p(1) in \<open>auto simp: packetizer_step_def intro: that\<close>)
qed

lemma session_sequences:
  "map (unat \<circ> id_extended_sequence \<circ> identity) (packetize_session s inputs) =
     [unat (next_extended_sequence s)..<unat (next_extended_sequence (foldl packetizer_step s inputs))] \<and>
   unat (next_extended_sequence s) \<le> unat (next_extended_sequence (foldl packetizer_step s inputs))"
proof (induction inputs arbitrary: s)
  case (Cons input inputs)
  show ?case
  proof (cases rule: packetize_session_cases [of s input inputs])
    case failed
    with Cons.IH [of s] show ?thesis by (simp del: packetize_session.simps)
  next
    case (passed r)
    note ids = packetize_identities(1,2) [OF passed(1,2)]
    note rest = Cons.IH [of "packetizer_step s input"]
    have "[unat (next_extended_sequence s)..<unat (next_extended_sequence (foldl packetizer_step s (input # inputs)))] =
        [unat (next_extended_sequence s)..<unat (next_extended_sequence (packetizer_step s input))] @
        [unat (next_extended_sequence (packetizer_step s input))..<
          unat (next_extended_sequence (foldl packetizer_step s (input # inputs)))]"
      by (rule upt_split [OF ids(2)]) (use rest in simp)
    then show ?thesis unfolding passed(3) map_append using ids rest by (simp add: comp_def)
  qed
qed simp

lemma session_timestamps:
  "sorted (map (id_extended_timestamp \<circ> identity) (packetize_session s inputs)) \<and>
   (\<forall>p \<in> set (packetize_session s inputs). \<forall>t. last_extended_timestamp_opt (clock s) = Some t \<longrightarrow>
      t < id_extended_timestamp (identity p))"
proof (induction inputs arbitrary: s)
  case (Cons input inputs)
  show ?case
  proof (cases rule: packetize_session_cases [of s input inputs])
    case failed
    with Cons.IH [of s] show ?thesis by (simp del: packetize_session.simps)
  next
    case (passed r)
    note ids = packetize_identities(3-5) [OF passed(1,2)]
    note rest = Cons.IH [of "packetizer_step s input"]
    have same: "map (id_extended_timestamp \<circ> identity) (pk_packets r) =
        replicate (length (pk_packets r)) (pk_extended_timestamp r)"
      by (rule nth_equalityI) (simp_all add: ids(1))
    have later: "pk_extended_timestamp r < id_extended_timestamp (identity p)"
      if "p \<in> set (packetize_session (packetizer_step s input) inputs)" for p
      using that rest ids(2) by blast
    have "sorted (map (id_extended_timestamp \<circ> identity) (packetize_session s (input # inputs)))"
      unfolding passed(3) map_append same sorted_append
      using rest later by (auto simp: less_imp_le comp_def)
    moreover have "t < id_extended_timestamp (identity p)"
      if "p \<in> set (packetize_session s (input # inputs))" "last_extended_timestamp_opt (clock s) = Some t" for p t
      using that(1) ids(1) ids(3) [OF that(2)] later unfolding passed(3)
      by (auto intro: less_trans)
    ultimately show ?thesis by blast
  qed
qed simp

section \<open>Properties\<close>

definition sample_packetizer :: h264_rtp_packetizer where
  "sample_packetizer =
     \<lparr>payload_type = 96, ssrc = 7, next_extended_sequence = 65535,
      clock = \<lparr>base_monotonic_nanoseconds = 0, base_extended_timestamp = 100,
               last_extended_timestamp_opt = None\<rparr>\<rparr>"

definition sample_input :: packetize_access_unit where
  "sample_input =
     \<lparr>in_annex_b = annexb_write sample_nals, in_frame_id = 1, in_media_epoch = 1,
      in_access_unit_id = 1, in_dependency_epoch = 1, in_dequeue_nanoseconds = 1000000000\<rparr>"

lemma packetize_sample:
  "\<exists>r s'. packetize sample_packetizer sample_input = (Inr r, s') \<and> pk_passed r"
  by (simp add: sample_packetizer_def sample_input_def sample_nals_def packetize_def annexb_eval
      idr_has_parameter_sets_def fragment_access_unit_def au_payload_def fragment_nal_def
      kMaximumRtpPayloadBytes_def clock_map_eq clock_admits_def exact_timestamp_def exact_ticks_def)

text \<open>The 90 kHz clock is exact: it returns the base timestamp plus the elapsed
  nanoseconds times 90000 divided by one billion, rounded down once and without any 64-bit
  overflow, precisely when the time is not before the base, the result fits in 64 bits and it
  exceeds the last timestamp handed out; otherwise it returns nothing and keeps its state.\<close>

lemma clock_map_exact:
  "clock_map c t =
     (if clock_admits c t
      then (Some (word_of_nat (exact_timestamp c t)),
            c\<lparr>last_extended_timestamp_opt := Some (word_of_nat (exact_timestamp c t))\<rparr>)
      else (None, c))"
  by (rule clock_map_eq)

text \<open>C1 (roundtrip). Packetizing an access unit loses nothing: depacketizing the payloads of
  the packets after RFC 6184 (single NAL units and FU-A) gives back exactly the NAL units of the
  parsed access unit, in order.\<close>

theorem packetize_roundtrip:
  assumes "packetize s input = (Inr r, s')" "pk_passed r"
  defines "au \<equiv> access_unit (parse_annex_b_access_unit (in_annex_b input))"
  shows "\<exists>nals. map (au_payload au) (nal_units au) = map Inr nals \<and>
    depacketize None (map packet_payload (pk_packets r)) = Some nals"
proof (rule packetize_passed [OF assms(1,2)], fold au_def)
  fix payloads nals
  assume frag: "fragment_access_unit au = Inr payloads"
    and nals: "map (au_payload au) (nal_units au) = map Inr nals"
      "\<And>n. n \<in> set nals \<Longrightarrow> n \<noteq> [] \<and> hd n AND 0x1F \<noteq> 28"
    and r: "pk_packets r = make_packets s payloads (pk_extended_timestamp r) input"
  have "map packet_payload (pk_packets r) = map rp_bytes payloads"
    by (rule nth_equalityI) (simp_all add: r make_packets_def make_packet_payload)
  with depacketize_units [OF frag [unfolded fragment_access_unit_def] nals] nals(1) show ?thesis
    by auto
qed

theorem packetize_roundtrip_witness:
  "\<exists>r s' nals. packetize sample_packetizer sample_input = (Inr r, s') \<and>
     depacketize None (map packet_payload (pk_packets r)) = Some nals"
  using packetize_sample packetize_roundtrip [of sample_packetizer sample_input] by blast

text \<open>Every packet of a packetized access unit carries, in its bytes and in its
  identity record, the payload type, the SSRC, the low bits of its extended sequence number and
  timestamp and the marker; sequence numbers are consecutive without wrapping, only the last
  packet is marked, no payload exceeds 1200 bytes, and the next sequence number is advanced by
  the number of packets.\<close>

lemma packetize_wire_format:
  assumes "packetize s input = (Inr r, s')" "pk_passed r"
  shows "pk_packets r \<noteq> [] \<and>
    unat (next_extended_sequence s') = unat (next_extended_sequence s) + length (pk_packets r) \<and>
    (\<forall>i < length (pk_packets r).
       unat (next_extended_sequence s + word_of_nat i) = unat (next_extended_sequence s) + i \<and>
       wire_packet_ok s (next_extended_sequence s + word_of_nat i) (pk_extended_timestamp r)
         (Suc i = length (pk_packets r)) (pk_packets r ! i))"
proof (rule packetize_passed [OF assms])
  fix payloads
  assume size: "\<And>p. p \<in> set payloads \<Longrightarrow>
      0 < length (rp_bytes p) \<and> length (rp_bytes p) \<le> kMaximumRtpPayloadBytes"
    and ne: "payloads \<noteq> []" and small: "length payloads < 2 ^ 64"
    and fits: "\<not> word_of_nat (length payloads) > - 1 - next_extended_sequence s"
    and r: "pk_packets r = make_packets s payloads (pk_extended_timestamp r) input"
    and s': "s' = s\<lparr>clock := (clock s)\<lparr>last_extended_timestamp_opt := Some (pk_extended_timestamp r)\<rparr>,
            next_extended_sequence := next_extended_sequence s + word_of_nat (length payloads)\<rparr>"
  have len: "length (pk_packets r) = length payloads" by (simp add: r make_packets_def)
  have room: "unat (next_extended_sequence s) + length payloads < 2 ^ 64"
    using fits small by (simp add: gt_max_minus_u64 unat_of_nat)
  then have seq: "unat (next_extended_sequence s + word_of_nat i) = unat (next_extended_sequence s) + i"
    if "i \<le> length payloads" for i
    using that by (simp add: unat_word_ariths unat_of_nat)
  have ok: "wire_packet_ok s (next_extended_sequence s + word_of_nat i) (pk_extended_timestamp r)
      (Suc i = length (pk_packets r)) (pk_packets r ! i)" if "i < length payloads" for i
    using that size [OF nth_mem [OF that]] unfolding len by (simp add: r make_packets_def make_packet_ok)
  have "pk_packets r \<noteq> []" using len ne by auto
  then show ?thesis using seq ok by (simp add: s' len)
qed

lemma packetize_wire_format_witness:
  "\<exists>r s'. packetize sample_packetizer sample_input = (Inr r, s') \<and> pk_packets r \<noteq> [] \<and>
     unat (next_extended_sequence s') = 65535 + length (pk_packets r)"
proof -
  have "unat (next_extended_sequence sample_packetizer) = 65535" by (simp add: sample_packetizer_def)
  then show ?thesis
    using packetize_sample packetize_wire_format [of sample_packetizer sample_input] by fastforce
qed

text \<open>Packetizing never throws, and a call that fails, for whatever reason, leaves
  the packetizer exactly as it was and hands out no packet: no sequence number is consumed and the clock keeps its last
  timestamp.\<close>

lemma packetize_failure_keeps_state:
  "\<exists>r s'. packetize s input = (Inr r, s') \<and> (pk_passed r \<or> s' = s \<and> pk_packets r = [])"
  by (rule packetize_total)

text \<open>C24 (safety). Over any sequence of calls, failed ones included, the packets emitted carry
  exactly the consecutive extended sequence numbers from the initial to the final counter: none
  is skipped, reused or wrapped; and their timestamps never decrease.\<close>

theorem packetize_session_identities:
  "map (unat \<circ> id_extended_sequence \<circ> identity) (packetize_session s inputs) =
     [unat (next_extended_sequence s)..<unat (next_extended_sequence (foldl packetizer_step s inputs))] \<and>
   sorted (map (id_extended_timestamp \<circ> identity) (packetize_session s inputs))"
  using session_sequences session_timestamps by blast

end
