(* ===== verification/Retransmission_Cache.thy ===== *)
theory Retransmission_Cache
  imports Rtp_Packetizer
begin

text \<open>
  \<open>RetransmissionCache\<close> (\<^verbatim>\<open>src/transport/rtp_transport.cpp\<close>): the packets that may be sent
  again after a NACK. Entries are kept in the order they were stored, for less than 500 ms, at
  most 2048 of them and 4 MiB in all, for one pair of epochs; each is handed out at most twice.
  The locale at the end states what a client of the cache may rely on.
\<close>

section \<open>Model\<close>

datatype nack_resolution = Retransmit | Missing | Ambiguous | Retransmission_limit | Stale_epoch

record nack_lookup_result =
  nl_resolution :: nack_resolution
  nl_packet :: "plaintext_rtp_packet option"

record retransmission_cache_snapshot =
  snap_packets :: nat
  snap_bytes :: nat
  evicted_age :: u64
  evicted_packet_limit :: u64
  evicted_byte_limit :: u64
  snap_retransmissions :: u64

definition kMaximumAgeMilliseconds :: u64 where
  "kMaximumAgeMilliseconds = 500"

definition kMaximumPackets :: nat where
  "kMaximumPackets = 2048"

definition kMaximumBytes :: nat where
  "kMaximumBytes = 4 * 1024 * 1024"

definition kMaximumRetransmissions :: u32 where
  "kMaximumRetransmissions = 2"

record cache_entry =
  ce_packet :: plaintext_rtp_packet
  ce_stored_milliseconds :: u64
  ce_retransmissions :: u32

record retransmission_cache =
  rc_entries :: "cache_entry list"
  rc_bytes :: nat
  rc_media_epoch :: u64
  rc_dependency_epoch :: u64
  rc_last_now :: "u64 option"
  rc_cumulative :: retransmission_cache_snapshot

definition new_cache :: retransmission_cache where
  "new_cache =
     \<lparr>rc_entries = [], rc_bytes = 0, rc_media_epoch = 0, rc_dependency_epoch = 0, rc_last_now = None,
      rc_cumulative = \<lparr>snap_packets = 0, snap_bytes = 0, evicted_age = 0, evicted_packet_limit = 0,
                       evicted_byte_limit = 0, snap_retransmissions = 0\<rparr>\<rparr>"

definition cache_clear :: "retransmission_cache \<Rightarrow> retransmission_cache" where
  "cache_clear c =
     c\<lparr>rc_entries := [], rc_bytes := 0, rc_media_epoch := 0, rc_dependency_epoch := 0,
       rc_last_now := None\<rparr>"

definition cache_reset_epoch ::
  "retransmission_cache \<Rightarrow> u64 \<Rightarrow> u64 \<Rightarrow> (unit, retransmission_cache) outcome" where
  "cache_reset_epoch c media_epoch dependency_epoch =
     (if media_epoch = 0 \<or> dependency_epoch = 0
        then (Inl (Invalid_argument ''retransmission cache epochs must be nonzero''), c)
      else (Inr (), (cache_clear c)\<lparr>rc_media_epoch := media_epoch,
                                    rc_dependency_epoch := dependency_epoch\<rparr>))"

definition cache_validate_time ::
  "retransmission_cache \<Rightarrow> u64 \<Rightarrow> (unit, retransmission_cache) outcome" where
  "cache_validate_time c now_milliseconds =
     (if time_regressed (rc_last_now c) now_milliseconds
        then (Inl (Invalid_argument ''retransmission cache time moved backward''), c)
      else (Inr (), c\<lparr>rc_last_now := Some now_milliseconds\<rparr>))"

definition packet_size :: "cache_entry \<Rightarrow> nat" where
  "packet_size e = length (pkt_bytes (ce_packet e))"

definition evict_oldest :: "bool \<Rightarrow> retransmission_cache \<Rightarrow> retransmission_cache" where
  "evict_oldest packet_limit c =
     (case rc_entries c of
        [] \<Rightarrow> c
      | front # rest \<Rightarrow>
          let c = c\<lparr>rc_bytes := size_sub (rc_bytes c) (packet_size front), rc_entries := rest\<rparr>;
              k = rc_cumulative c
          in c\<lparr>rc_cumulative :=
                 (if packet_limit
                  then k\<lparr>evicted_packet_limit := saturating_increment (evicted_packet_limit k)\<rparr>
                  else k\<lparr>evicted_byte_limit := saturating_increment (evicted_byte_limit k)\<rparr>)\<rparr>)"

fun evict_expired_loop ::
  "u64 \<Rightarrow> cache_entry list \<Rightarrow> nat \<Rightarrow> u64 \<Rightarrow> cache_entry list \<times> nat \<times> u64" where
  "evict_expired_loop now [] bytes evicted = ([], bytes, evicted)"
| "evict_expired_loop now (front # rest) bytes evicted =
     (if now - ce_stored_milliseconds front \<ge> kMaximumAgeMilliseconds
      then evict_expired_loop now rest (size_sub bytes (packet_size front)) (saturating_increment evicted)
      else (front # rest, bytes, evicted))"

definition evict_expired :: "retransmission_cache \<Rightarrow> u64 \<Rightarrow> retransmission_cache" where
  "evict_expired c now_milliseconds =
     (case evict_expired_loop now_milliseconds (rc_entries c) (rc_bytes c) (evicted_age (rc_cumulative c)) of
        (entries, bytes, evicted) \<Rightarrow>
          c\<lparr>rc_entries := entries, rc_bytes := bytes,
            rc_cumulative := (rc_cumulative c)\<lparr>evicted_age := evicted\<rparr>\<rparr>)"

lemma evict_oldest_entries [simp]: "rc_entries (evict_oldest b c) = tl (rc_entries c)"
  by (simp add: evict_oldest_def Let_def split: list.splits)

function evict_over_packet_limit :: "retransmission_cache \<Rightarrow> retransmission_cache" where
  "evict_over_packet_limit c =
     (if length (rc_entries c) \<ge> kMaximumPackets then evict_over_packet_limit (evict_oldest True c) else c)"
  by pat_completeness auto
termination
  by (relation "measure (\<lambda>c. length (rc_entries c))") (auto simp: kMaximumPackets_def)

function evict_over_byte_limit :: "nat \<Rightarrow> retransmission_cache \<Rightarrow> retransmission_cache" where
  "evict_over_byte_limit incoming c =
     (if rc_entries c \<noteq> [] \<and> incoming > size_sub kMaximumBytes (rc_bytes c)
      then evict_over_byte_limit incoming (evict_oldest False c) else c)"
  by pat_completeness auto
termination
  by (relation "measure (\<lambda>(_, c). length (rc_entries c))") auto

declare evict_over_packet_limit.simps [simp del] evict_over_byte_limit.simps [simp del]

definition packet_storable :: "retransmission_cache \<Rightarrow> plaintext_rtp_packet \<Rightarrow> bool" where
  "packet_storable c packet =
     (\<not> (rc_media_epoch c = 0 \<or> rc_dependency_epoch c = 0 \<or>
         id_media_epoch (identity packet) \<noteq> rc_media_epoch c \<or>
         id_dependency_epoch (identity packet) \<noteq> rc_dependency_epoch c \<or>
         rtp_header_bytes packet < kRtpHeaderBytes \<or>
         length (pkt_bytes packet) < rtp_header_bytes packet \<or>
         length (packet_payload packet) > kMaximumRtpPayloadBytes \<or>
         length (pkt_bytes packet) > kMaximumBytes))"

definition same_packet :: "plaintext_rtp_packet \<Rightarrow> cache_entry \<Rightarrow> bool" where
  "same_packet packet e =
     (id_ssrc (identity (ce_packet e)) = id_ssrc (identity packet) \<and>
      id_extended_sequence (identity (ce_packet e)) = id_extended_sequence (identity packet))"

definition cache_store ::
  "retransmission_cache \<Rightarrow> plaintext_rtp_packet \<Rightarrow> u64 \<Rightarrow> (bool, retransmission_cache) outcome" where
  "cache_store c packet now_milliseconds =
     and_then (cache_validate_time c now_milliseconds) (\<lambda>_ c.
       let c = evict_expired c now_milliseconds in
       if \<not> packet_storable c packet then (Inr False, c)
       else if list_ex (same_packet packet) (rc_entries c) then (Inr False, c)
       else
         let c = evict_over_packet_limit c;
             c = evict_over_byte_limit (length (pkt_bytes packet)) c
         in (Inr True,
             c\<lparr>rc_entries := rc_entries c @
                  [\<lparr>ce_packet = packet, ce_stored_milliseconds = now_milliseconds, ce_retransmissions = 0\<rparr>],
               rc_bytes := size_add (rc_bytes c) (length (pkt_bytes packet))\<rparr>))"

text \<open>The scan of \<open>resolve\<close>: the pointer \<open>match\<close> is an index; \<open>None\<close> is the early return on a
  second match.\<close>

fun resolve_scan :: "u16 \<Rightarrow> nat \<Rightarrow> nat option \<Rightarrow> cache_entry list \<Rightarrow> nat option option" where
  "resolve_scan wire_sequence index found [] = Some found"
| "resolve_scan wire_sequence index found (e # rest) =
     (if id_wire_sequence (identity (ce_packet e)) \<noteq> wire_sequence
        then resolve_scan wire_sequence (Suc index) found rest
      else if found \<noteq> None then None
      else resolve_scan wire_sequence (Suc index) (Some index) rest)"

definition cache_resolve ::
  "retransmission_cache \<Rightarrow> u16 \<Rightarrow> u64 \<Rightarrow> u64 \<Rightarrow> u64 \<Rightarrow> (nack_lookup_result, retransmission_cache) outcome"
where
  "cache_resolve c wire_sequence media_epoch dependency_epoch now_milliseconds =
     and_then (cache_validate_time c now_milliseconds) (\<lambda>_ c.
       let c = evict_expired c now_milliseconds in
       if media_epoch \<noteq> rc_media_epoch c \<or> dependency_epoch \<noteq> rc_dependency_epoch c
         then (Inr \<lparr>nl_resolution = Stale_epoch, nl_packet = None\<rparr>, c)
       else case resolve_scan wire_sequence 0 None (rc_entries c) of
           None \<Rightarrow> (Inr \<lparr>nl_resolution = Ambiguous, nl_packet = None\<rparr>, c)
         | Some None \<Rightarrow> (Inr \<lparr>nl_resolution = Missing, nl_packet = None\<rparr>, c)
         | Some (Some i) \<Rightarrow>
             let e = rc_entries c ! i in
             if ce_retransmissions e \<ge> kMaximumRetransmissions
               then (Inr \<lparr>nl_resolution = Retransmission_limit, nl_packet = None\<rparr>, c)
             else
               let k = rc_cumulative c in
               (Inr \<lparr>nl_resolution = Retransmit, nl_packet = Some (ce_packet e)\<rparr>,
                c\<lparr>rc_entries := (rc_entries c)[i := e\<lparr>ce_retransmissions := ce_retransmissions e + 1\<rparr>],
                  rc_cumulative := k\<lparr>snap_retransmissions := saturating_increment (snap_retransmissions k)\<rparr>\<rparr>))"

definition cache_snapshot :: "retransmission_cache \<Rightarrow> retransmission_cache_snapshot" where
  "cache_snapshot c =
     (rc_cumulative c)\<lparr>snap_packets := length (rc_entries c), snap_bytes := rc_bytes c\<rparr>"

fun nack_resolution_name :: "nack_resolution \<Rightarrow> string" where
  "nack_resolution_name Retransmit = ''retransmit''"
| "nack_resolution_name Missing = ''missing''"
| "nack_resolution_name Ambiguous = ''ambiguous''"
| "nack_resolution_name Retransmission_limit = ''retransmission_limit''"
| "nack_resolution_name Stale_epoch = ''stale_epoch''"

section \<open>Invariant\<close>

definition total_bytes :: "cache_entry list \<Rightarrow> nat" where
  "total_bytes es = sum_list (map packet_size es)"

definition packet_key :: "cache_entry \<Rightarrow> u32 \<times> u64" where
  "packet_key e = (id_ssrc (identity (ce_packet e)), id_extended_sequence (identity (ce_packet e)))"

definition entry_ok :: "retransmission_cache \<Rightarrow> cache_entry \<Rightarrow> bool" where
  "entry_ok c e =
     (packet_storable c (ce_packet e) \<and> ce_retransmissions e \<le> kMaximumRetransmissions \<and>
      (case rc_last_now c of None \<Rightarrow> False | Some t \<Rightarrow> ce_stored_milliseconds e \<le> t))"

definition cache_ok :: "retransmission_cache \<Rightarrow> bool" where
  "cache_ok c =
     (rc_bytes c = total_bytes (rc_entries c) \<and> rc_bytes c \<le> kMaximumBytes \<and>
      length (rc_entries c) \<le> kMaximumPackets \<and> distinct (map packet_key (rc_entries c)) \<and>
      sorted (map ce_stored_milliseconds (rc_entries c)) \<and> (\<forall>e \<in> set (rc_entries c). entry_ok c e))"

lemma total_bytes_simps [simp]:
  "total_bytes [] = 0" "total_bytes (e # es) = packet_size e + total_bytes es"
  "total_bytes (es @ fs) = total_bytes es + total_bytes fs"
  by (simp_all add: total_bytes_def)

lemma total_bytes_drop: "total_bytes (drop k es) \<le> total_bytes es"
  using total_bytes_simps(3) [of "take k es" "drop k es"] by simp

lemma same_packet_key: "same_packet p e \<longleftrightarrow> packet_key e = (id_ssrc (identity p), id_extended_sequence (identity p))"
  by (simp add: same_packet_def packet_key_def)

text \<open>What every eviction loop does: it drops a prefix and keeps the byte count exact.\<close>

definition trimmed :: "nat \<Rightarrow> retransmission_cache \<Rightarrow> retransmission_cache \<Rightarrow> bool" where
  "trimmed k c c' =
     (rc_entries c' = drop k (rc_entries c) \<and> rc_bytes c' = total_bytes (rc_entries c') \<and>
      rc_media_epoch c' = rc_media_epoch c \<and> rc_dependency_epoch c' = rc_dependency_epoch c \<and>
      rc_last_now c' = rc_last_now c)"

lemma trimmed_trans: "trimmed j a b \<Longrightarrow> trimmed k b c \<Longrightarrow> trimmed (j + k) a c"
  by (auto simp: trimmed_def add.commute)

lemma trimmed_0: "rc_bytes c = total_bytes (rc_entries c) \<Longrightarrow> trimmed 0 c c"
  by (simp add: trimmed_def)

lemma trimmed_storable: "trimmed k c c' \<Longrightarrow> packet_storable c' p = packet_storable c p"
  by (simp add: trimmed_def packet_storable_def)

lemma trimmed_ok:
  assumes "trimmed k c c'" "cache_ok c"
  shows "cache_ok c'"
proof -
  have "entry_ok c' e" if "e \<in> set (drop k (rc_entries c))" for e
    using assms that trimmed_storable [OF assms(1)]
    by (auto simp: cache_ok_def entry_ok_def trimmed_def dest: in_set_dropD)
  then show ?thesis
    using assms total_bytes_drop [of k "rc_entries c"]
    by (auto simp: cache_ok_def trimmed_def drop_map [symmetric] sorted_wrt_drop)
qed

text \<open>Live entries: stored less than 500 ms ago.\<close>

definition live :: "u64 \<Rightarrow> cache_entry \<Rightarrow> bool" where
  "live now e = (unat now - unat (ce_stored_milliseconds e) < 500)"

lemma expired_iff:
  assumes "ce_stored_milliseconds e \<le> now"
  shows "now - ce_stored_milliseconds e \<ge> kMaximumAgeMilliseconds \<longleftrightarrow> \<not> live now e"
  using elapsed_unat [OF assms] by (simp add: word_le_nat_alt kMaximumAgeMilliseconds_def live_def not_less)

lemma drop_expired:
  assumes "sorted (map ce_stored_milliseconds es)"
  shows "\<exists>k. filter (live now) es = drop k es"
  using assms
proof (induction es)
  case (Cons e es)
  then obtain k where k: "filter (live now) es = drop k es" by auto
  show ?case
  proof (cases "live now e")
    case True
    then have "\<forall>e' \<in> set es. live now e'"
      using Cons.prems by (fastforce simp: live_def word_le_nat_alt)
    with True show ?thesis by (intro exI [of _ 0]) simp
  next
    case False
    with k show ?thesis by (intro exI [of _ "Suc k"]) simp
  qed
qed simp

lemma evict_expired_loop_eq:
  assumes "sorted (map ce_stored_milliseconds es)" "\<forall>e \<in> set es. ce_stored_milliseconds e \<le> now"
    and "total_bytes es < 2 ^ 64"
  shows "\<exists>evicted'. evict_expired_loop now es (total_bytes es) evicted =
    (filter (live now) es, total_bytes (filter (live now) es), evicted')"
  using assms
proof (induction es arbitrary: evicted)
  case (Cons e es)
  have stored: "ce_stored_milliseconds e \<le> now" using Cons.prems by simp
  show ?case
  proof (cases "live now e")
    case True
    then have "\<forall>e' \<in> set es. live now e'"
      using Cons.prems by (fastforce simp: live_def word_le_nat_alt)
    then have "filter (live now) (e # es) = e # es" using True by simp
    with True expired_iff [OF stored] show ?thesis by simp
  next
    case False
    then show ?thesis
      using Cons.IH [of "saturating_increment evicted"] Cons.prems expired_iff [OF stored]
      by (simp add: size_sub_exact)
  qed
qed simp

lemma kMaximumBytes_lt: "kMaximumBytes < 2 ^ 64"
  by (simp add: kMaximumBytes_def)

lemma evict_expired_trimmed:
  assumes "cache_ok c" "rc_last_now c = Some now"
  obtains k where "trimmed k c (evict_expired c now)"
    "rc_entries (evict_expired c now) = filter (live now) (rc_entries c)"
proof -
  have "\<forall>e \<in> set (rc_entries c). ce_stored_milliseconds e \<le> now"
    using assms by (auto simp: cache_ok_def entry_ok_def)
  moreover have "total_bytes (rc_entries c) < 2 ^ 64"
    using assms(1) kMaximumBytes_lt by (simp add: cache_ok_def)
  ultimately obtain ev where loop:
    "evict_expired_loop now (rc_entries c) (rc_bytes c) (evicted_age (rc_cumulative c)) =
      (filter (live now) (rc_entries c), total_bytes (filter (live now) (rc_entries c)), ev)"
    using evict_expired_loop_eq assms(1) by (metis cache_ok_def)
  obtain k where "filter (live now) (rc_entries c) = drop k (rc_entries c)"
    using drop_expired assms(1) by (metis cache_ok_def)
  with loop that [of k] show thesis by (simp add: evict_expired_def trimmed_def)
qed

lemma evict_oldest_trimmed:
  assumes "rc_bytes c = total_bytes (rc_entries c)" "rc_bytes c < 2 ^ 64"
  shows "trimmed 1 c (evict_oldest b c)"
  using assms
  by (cases "rc_entries c") (auto simp: evict_oldest_def trimmed_def Let_def size_sub_exact)

lemma trimmed_bytes_lt: "trimmed k c c' \<Longrightarrow> rc_bytes c = total_bytes (rc_entries c) \<Longrightarrow> rc_bytes c \<le> n \<Longrightarrow> rc_bytes c' \<le> n"
  using total_bytes_drop [of k "rc_entries c"] by (simp add: trimmed_def)

lemma evict_over_packet_limit_trimmed:
  assumes "rc_bytes c = total_bytes (rc_entries c)" "rc_bytes c < 2 ^ 64"
  shows "trimmed (length (rc_entries c) - (kMaximumPackets - 1)) c (evict_over_packet_limit c)"
  using assms
proof (induction c rule: evict_over_packet_limit.induct)
  case (1 c)
  show ?case
  proof (cases "length (rc_entries c) \<ge> kMaximumPackets")
    case True
    have t: "trimmed 1 c (evict_oldest True c)" by (rule evict_oldest_trimmed [OF 1(2,3)])
    then have "rc_bytes (evict_oldest True c) < 2 ^ 64"
      using trimmed_bytes_lt [OF t 1(2) order_refl] 1(3) by linarith
    with 1(1) [OF True] t
    have t': "trimmed (length (rc_entries c) - 1 - (kMaximumPackets - 1)) (evict_oldest True c)
        (evict_over_packet_limit (evict_oldest True c))"
      by (simp add: trimmed_def)
    have n: "1 + (length (rc_entries c) - 1 - (kMaximumPackets - 1)) = length (rc_entries c) - (kMaximumPackets - 1)"
      using True by (simp add: kMaximumPackets_def)
    have e: "evict_over_packet_limit c = evict_over_packet_limit (evict_oldest True c)"
      using True by (simp add: evict_over_packet_limit.simps [of c])
    show ?thesis using trimmed_trans [OF t t'] unfolding n e .
  next
    case False
    then show ?thesis
      using trimmed_0 [OF 1(2)] by (simp add: evict_over_packet_limit.simps [of c] kMaximumPackets_def)
  qed
qed

lemma evict_over_byte_limit_trimmed:
  assumes "rc_bytes c = total_bytes (rc_entries c)" "rc_bytes c \<le> kMaximumBytes" "incoming \<le> kMaximumBytes"
  obtains k where "trimmed k c (evict_over_byte_limit incoming c)"
    "rc_bytes (evict_over_byte_limit incoming c) + incoming \<le> kMaximumBytes"
    "\<And>j. j < k \<Longrightarrow> total_bytes (drop j (rc_entries c)) + incoming > kMaximumBytes"
proof -
  have "\<exists>k. trimmed k c (evict_over_byte_limit incoming c) \<and>
    rc_bytes (evict_over_byte_limit incoming c) + incoming \<le> kMaximumBytes \<and>
    (\<forall>j < k. total_bytes (drop j (rc_entries c)) + incoming > kMaximumBytes)"
    using assms
  proof (induction incoming c rule: evict_over_byte_limit.induct)
    case (1 incoming c)
    have room: "size_sub kMaximumBytes (rc_bytes c) = kMaximumBytes - rc_bytes c"
      using 1(3) kMaximumBytes_lt by (simp add: size_sub_exact)
    show ?case
    proof (cases "rc_entries c \<noteq> [] \<and> incoming > size_sub kMaximumBytes (rc_bytes c)")
      case True
      let ?d = "evict_oldest False c"
      have t: "trimmed 1 c ?d"
        using 1(2,3) kMaximumBytes_lt by (intro evict_oldest_trimmed) auto
      then have "rc_bytes ?d = total_bytes (rc_entries ?d)" "rc_bytes ?d \<le> kMaximumBytes"
        using trimmed_bytes_lt [OF t 1(2,3)] by (simp_all add: trimmed_def)
      with 1(1) [OF True] 1(4) obtain k where k: "trimmed k ?d (evict_over_byte_limit incoming ?d)"
        "rc_bytes (evict_over_byte_limit incoming ?d) + incoming \<le> kMaximumBytes"
        "\<forall>j < k. total_bytes (drop j (rc_entries ?d)) + incoming > kMaximumBytes" by blast
      have e: "evict_over_byte_limit incoming c = evict_over_byte_limit incoming ?d"
        using True by (simp add: evict_over_byte_limit.simps [of incoming c])
      have "total_bytes (drop j (rc_entries c)) + incoming > kMaximumBytes" if "j < 1 + k" for j
        using that True room 1(2) k(3) by (cases j) (auto simp: drop_Suc)
      then show ?thesis unfolding e using trimmed_trans [OF t k(1)] k(2) by blast
    next
      case False
      then have "evict_over_byte_limit incoming c = c"
        by (subst evict_over_byte_limit.simps) auto
      moreover have "rc_bytes c + incoming \<le> kMaximumBytes"
        using False room 1(2-4) by (cases "rc_entries c") auto
      ultimately show ?thesis using trimmed_0 [OF 1(2)] by (intro exI [of _ 0]) simp
    qed
  qed
  then show thesis using that by blast
qed

section \<open>Storing\<close>

text \<open>Room for a packet after the \<open>k\<close> oldest live entries are gone.\<close>

definition room_after :: "cache_entry list \<Rightarrow> nat \<Rightarrow> nat \<Rightarrow> bool" where
  "room_after es incoming k =
     (length (drop k es) < kMaximumPackets \<and> total_bytes (drop k es) + incoming \<le> kMaximumBytes)"

lemma cache_ok_time:
  assumes "cache_ok c" "\<not> time_regressed (rc_last_now c) now"
  shows "cache_ok (c\<lparr>rc_last_now := Some now\<rparr>)"
proof -
  have "entry_ok (c\<lparr>rc_last_now := Some now\<rparr>) e" if "e \<in> set (rc_entries c)" for e
    using assms that
    by (auto simp: cache_ok_def entry_ok_def packet_storable_def split: option.splits dest!: bspec)
  with assms show ?thesis by (simp add: cache_ok_def)
qed

text \<open>The common beginning of \<open>store\<close> and \<open>resolve\<close>: the time check and the expiry.\<close>

lemma cache_time_cases:
  assumes "cache_ok c"
  obtains (regressed) "time_regressed (rc_last_now c) now"
      "cache_validate_time c now =
         (Inl (Invalid_argument ''retransmission cache time moved backward''), c)"
  | (fresh) d where "\<not> time_regressed (rc_last_now c) now" "cache_ok d"
      "cache_validate_time c now = (Inr (), c\<lparr>rc_last_now := Some now\<rparr>)"
      "evict_expired (c\<lparr>rc_last_now := Some now\<rparr>) now = d"
      "rc_entries d = filter (live now) (rc_entries c)" "rc_last_now d = Some now"
      "rc_media_epoch d = rc_media_epoch c" "rc_dependency_epoch d = rc_dependency_epoch c"
proof (cases "time_regressed (rc_last_now c) now")
  case True
  then show thesis by (intro regressed) (simp_all add: cache_validate_time_def)
next
  case False
  let ?c = "c\<lparr>rc_last_now := Some now\<rparr>"
  from False assms have ok: "cache_ok ?c" by (simp add: cache_ok_time)
  then obtain k where k: "trimmed k ?c (evict_expired ?c now)"
    "rc_entries (evict_expired ?c now) = filter (live now) (rc_entries ?c)"
    by (rule evict_expired_trimmed) auto
  then have "cache_ok (evict_expired ?c now)" using ok by (blast intro: trimmed_ok)
  with False k show thesis
    by (intro fresh [of "evict_expired ?c now"]) (simp_all add: cache_validate_time_def trimmed_def)
qed

definition stored_entry :: "plaintext_rtp_packet \<Rightarrow> u64 \<Rightarrow> cache_entry" where
  "stored_entry p now = \<lparr>ce_packet = p, ce_stored_milliseconds = now, ce_retransmissions = 0\<rparr>"

definition store_admits :: "retransmission_cache \<Rightarrow> plaintext_rtp_packet \<Rightarrow> u64 \<Rightarrow> bool" where
  "store_admits c p now =
     (packet_storable c p \<and>
      (\<forall>e \<in> set (rc_entries c). live now e \<longrightarrow>
         packet_key e \<noteq> (id_ssrc (identity p), id_extended_sequence (identity p))))"

lemma cache_ok_append:
  assumes "trimmed k d d'" "cache_ok d" "rc_last_now d = Some now" "packet_storable d p"
    and "\<not> list_ex (same_packet p) (rc_entries d)"
    and "room_after (rc_entries d) (length (pkt_bytes p)) k"
  shows "cache_ok (d'\<lparr>rc_entries := rc_entries d' @ [stored_entry p now],
    rc_bytes := size_add (rc_bytes d') (length (pkt_bytes p))\<rparr>)" (is "cache_ok ?n")
proof -
  note ok = trimmed_ok [OF assms(1,2)]
  have st: "packet_storable ?n q = packet_storable d q" for q
    using assms(1) by (simp add: packet_storable_def trimmed_def)
  have entries: "rc_entries d' = drop k (rc_entries d)" and bytes: "rc_bytes d' = total_bytes (rc_entries d')"
    and lt: "rc_last_now d' = Some now" using assms(1,3) by (simp_all add: trimmed_def)
  have room: "rc_bytes d' + length (pkt_bytes p) \<le> kMaximumBytes" "length (rc_entries d') < kMaximumPackets"
    using assms(6) by (simp_all add: room_after_def bytes entries)
  then have bytes': "rc_bytes ?n = total_bytes (rc_entries ?n)"
    using kMaximumBytes_lt by (simp add: size_add_exact bytes stored_entry_def packet_size_def)
  have old: "entry_ok ?n e \<and> ce_stored_milliseconds e \<le> now \<and> packet_key e \<noteq> packet_key (stored_entry p now)"
    if "e \<in> set (rc_entries d')" for e
  proof -
    from that have "e \<in> set (rc_entries d)" by (auto simp: entries dest: in_set_dropD)
    then show ?thesis
      using assms(2,3,5) st
      by (auto simp: cache_ok_def entry_ok_def list_ex_iff same_packet_key packet_key_def stored_entry_def lt)
  qed
  have new: "entry_ok ?n (stored_entry p now)"
    using st assms(4) lt by (simp add: entry_ok_def stored_entry_def kMaximumRetransmissions_def)
  have "packet_key (stored_entry p now) \<notin> packet_key ` set (rc_entries d')"
    using old by (metis imageE)
  then have "distinct (map packet_key (rc_entries ?n))" using ok by (simp add: cache_ok_def)
  moreover have "sorted (map ce_stored_milliseconds (rc_entries ?n))"
    using ok old by (simp add: cache_ok_def sorted_append stored_entry_def)
  moreover have "\<forall>e \<in> set (rc_entries ?n). entry_ok ?n e" using old new by auto
  moreover have "length (rc_entries ?n) \<le> kMaximumPackets" using room(2) by simp
  moreover have "rc_bytes ?n \<le> kMaximumBytes" using room kMaximumBytes_lt by (simp add: size_add_exact)
  ultimately show ?thesis using bytes' unfolding cache_ok_def by blast
qed

lemma room_made:
  assumes "cache_ok d" "incoming \<le> kMaximumBytes"
  obtains k where
    "trimmed k d (evict_over_byte_limit incoming (evict_over_packet_limit d))"
    "room_after (rc_entries d) incoming k" "\<And>j. j < k \<Longrightarrow> \<not> room_after (rc_entries d) incoming j"
proof -
  let ?es = "rc_entries d"
  let ?j = "length ?es - (kMaximumPackets - 1)"
  let ?p = "evict_over_packet_limit d"
  have d: "rc_bytes d = total_bytes ?es" "rc_bytes d \<le> kMaximumBytes" using assms(1) by (simp_all add: cache_ok_def)
  have t: "trimmed ?j d ?p"
    using d kMaximumBytes_lt by (intro evict_over_packet_limit_trimmed) auto
  have p: "rc_bytes ?p = total_bytes (rc_entries ?p)" "rc_bytes ?p \<le> kMaximumBytes"
    using t trimmed_bytes_lt [OF t d] by (simp_all add: trimmed_def)
  obtain k where k: "trimmed k ?p (evict_over_byte_limit incoming ?p)"
    "rc_bytes (evict_over_byte_limit incoming ?p) + incoming \<le> kMaximumBytes"
    "\<And>i. i < k \<Longrightarrow> total_bytes (drop i (rc_entries ?p)) + incoming > kMaximumBytes"
    using evict_over_byte_limit_trimmed [OF p assms(2)] by metis
  have tk: "trimmed (?j + k) d (evict_over_byte_limit incoming ?p)" by (rule trimmed_trans [OF t k(1)])
  have pos: "0 < kMaximumPackets" by (simp add: kMaximumPackets_def)
  have "room_after ?es incoming (?j + k)"
    using k(2) tk pos by (simp add: room_after_def trimmed_def)
  moreover have "\<not> room_after ?es incoming i" if "i < ?j + k" for i
  proof (cases "i < ?j")
    case True
    then show ?thesis by (simp add: room_after_def) linarith
  next
    case False
    then have "i - ?j < k" using that by linarith
    from k(3) [OF this] False t have "total_bytes (drop i ?es) + incoming > kMaximumBytes"
      by (simp add: trimmed_def)
    then show ?thesis by (simp add: room_after_def)
  qed
  ultimately show thesis using that [OF tk] by blast
qed

lemma cache_store_cases:
  assumes "cache_ok c"
  obtains (regressed) "time_regressed (rc_last_now c) now"
      "cache_store c p now = (Inl (Invalid_argument ''retransmission cache time moved backward''), c)"
  | (refused) d where "\<not> time_regressed (rc_last_now c) now" "\<not> store_admits c p now"
      "cache_store c p now = (Inr False, d)" "cache_ok d"
      "rc_entries d = filter (live now) (rc_entries c)"
  | (stored) d k where "\<not> time_regressed (rc_last_now c) now" "store_admits c p now"
      "cache_store c p now = (Inr True, d)" "cache_ok d"
      "rc_entries d = drop k (filter (live now) (rc_entries c)) @ [stored_entry p now]"
      "room_after (filter (live now) (rc_entries c)) (length (pkt_bytes p)) k"
      "\<And>j. j < k \<Longrightarrow> \<not> room_after (filter (live now) (rc_entries c)) (length (pkt_bytes p)) j"
proof (cases rule: cache_time_cases [OF assms, of now, case_names old new])
  case old
  then show thesis by (intro regressed) (simp_all add: cache_store_def)
next
  case (new d)
  have adm: "store_admits c p now \<longleftrightarrow> packet_storable d p \<and> \<not> list_ex (same_packet p) (rc_entries d)"
    using new by (auto simp: store_admits_def packet_storable_def list_ex_iff same_packet_key)
  have store: "cache_store c p now =
      (if \<not> packet_storable d p then (Inr False, d)
       else if list_ex (same_packet p) (rc_entries d) then (Inr False, d)
       else
         let c = evict_over_byte_limit (length (pkt_bytes p)) (evict_over_packet_limit d)
         in (Inr True, c\<lparr>rc_entries := rc_entries c @ [stored_entry p now],
               rc_bytes := size_add (rc_bytes c) (length (pkt_bytes p))\<rparr>))"
    unfolding cache_store_def Let_def stored_entry_def new(3) and_then_simps new(4) ..
  show thesis
  proof (cases "store_admits c p now")
    case True
    then have "length (pkt_bytes p) \<le> kMaximumBytes" unfolding adm by (simp add: packet_storable_def)
    then obtain k where k:
      "trimmed k d (evict_over_byte_limit (length (pkt_bytes p)) (evict_over_packet_limit d))"
      "room_after (rc_entries d) (length (pkt_bytes p)) k"
      "\<And>j. j < k \<Longrightarrow> \<not> room_after (rc_entries d) (length (pkt_bytes p)) j"
      using room_made [OF new(2)] by metis
    let ?e = "evict_over_byte_limit (length (pkt_bytes p)) (evict_over_packet_limit d)"
    let ?n = "?e\<lparr>rc_entries := rc_entries ?e @ [stored_entry p now],
      rc_bytes := size_add (rc_bytes ?e) (length (pkt_bytes p))\<rparr>"
    have "cache_store c p now = (Inr True, ?n)" using True adm store by (simp add: Let_def)
    moreover have "cache_ok ?n" using True adm cache_ok_append [OF k(1) new(2,6) _ _ k(2)] by blast
    ultimately show thesis
      using k(2,3) by (intro stored [of ?n k, OF new(1) True]) (use k(1) new(5) in \<open>auto simp: trimmed_def\<close>)
  next
    case False
    with new show thesis by (intro refused [of d]) (auto simp: store adm)
  qed
qed

section \<open>Resolving\<close>

lemma resolve_scan_found:
  "resolve_scan w i (Some m) es =
     (if filter (\<lambda>e. id_wire_sequence (identity (ce_packet e)) = w) es = [] then Some (Some m) else None)"
  by (induction es arbitrary: i) auto

lemma resolve_scan_eq:
  "resolve_scan w i None es =
     (case filter (\<lambda>j. id_wire_sequence (identity (ce_packet (es ! j))) = w) [0..<length es] of
        [] \<Rightarrow> Some None | [j] \<Rightarrow> Some (Some (i + j)) | _ \<Rightarrow> None)"
proof (induction es arbitrary: i)
  case (Cons e es)
  let ?P = "\<lambda>es j. id_wire_sequence (identity (ce_packet (es ! j))) = w"
  have idx: "filter (?P (e # es)) [0..<length (e # es)] =
      (if id_wire_sequence (identity (ce_packet e)) = w then [0] else []) @
      map Suc (filter (?P es) [0..<length es])"
    by (simp add: upt_conv_Cons map_Suc_upt [symmetric] filter_map comp_def del: upt_Suc)
  have none: "filter (\<lambda>e. id_wire_sequence (identity (ce_packet e)) = w) es = [] \<longleftrightarrow>
      filter (?P es) [0..<length es] = []"
    by (auto simp add: filter_empty_conv all_set_conv_all_nth)
  show ?case
    unfolding idx using none Cons.IH [of "Suc i"]
    by (auto simp: resolve_scan_found split: list.splits)
qed simp

definition wire_of :: "cache_entry \<Rightarrow> u16" where
  "wire_of e = id_wire_sequence (identity (ce_packet e))"

definition bump :: "u16 \<Rightarrow> cache_entry \<Rightarrow> cache_entry" where
  "bump w e = (if wire_of e = w then e\<lparr>ce_retransmissions := ce_retransmissions e + 1\<rparr> else e)"

definition resolution_of :: "cache_entry list \<Rightarrow> nack_resolution" where
  "resolution_of matching =
     (case matching of
        [] \<Rightarrow> Missing
      | [e] \<Rightarrow> if ce_retransmissions e < kMaximumRetransmissions then Retransmit else Retransmission_limit
      | _ \<Rightarrow> Ambiguous)"

text \<open>What \<open>resolve\<close> promises: the verdict from the live entries with that wire sequence, and
  one more retransmission counted for the entry that is handed out.\<close>

definition resolve_spec ::
  "retransmission_cache \<Rightarrow> u16 \<Rightarrow> u64 \<Rightarrow> u64 \<Rightarrow> u64 \<Rightarrow> nack_lookup_result \<times> cache_entry list" where
  "resolve_spec c w me de now =
     (let alive = filter (live now) (rc_entries c);
          matching = filter (\<lambda>e. wire_of e = w) alive;
          resolution = (if me \<noteq> rc_media_epoch c \<or> de \<noteq> rc_dependency_epoch c then Stale_epoch
                        else resolution_of matching)
      in (\<lparr>nl_resolution = resolution,
           nl_packet = (if resolution = Retransmit then Some (ce_packet (hd matching)) else None)\<rparr>,
          if resolution = Retransmit then map (bump w) alive else alive))"

lemma filter_by_index:
  "filter P es = map ((!) es) (filter (\<lambda>j. P (es ! j)) [0..<length es])"
proof -
  have "filter P es = filter P (map ((!) es) [0..<length es])" by (simp only: map_nth)
  then show ?thesis by (simp add: filter_map comp_def)
qed

lemma update_unique_match:
  assumes "filter (\<lambda>j. P (es ! j)) [0..<length es] = [i]"
  shows "es[i := f (es ! i)] = map (\<lambda>e. if P e then f e else e) es" and "i < length es" and "P (es ! i)"
proof -
  have mem: "j \<in> set (filter (\<lambda>j. P (es ! j)) [0..<length es]) \<longleftrightarrow> j = i" for j
    unfolding assms by simp
  then show "i < length es" "P (es ! i)" by fastforce+
  have "P (es ! j) \<longleftrightarrow> j = i" if "j < length es" for j using mem [of j] that by simp
  then show "es[i := f (es ! i)] = map (\<lambda>e. if P e then f e else e) es"
    by (intro nth_equalityI) (auto simp: nth_list_update)
qed

lemma bump_fields [simp]:
  "ce_packet (bump w e) = ce_packet e" "ce_stored_milliseconds (bump w e) = ce_stored_milliseconds e"
  "packet_size (bump w e) = packet_size e" "packet_key (bump w e) = packet_key e"
  by (simp_all add: bump_def packet_size_def packet_key_def)

lemma cache_resolve_body:
  assumes "rc_entries d = alive"
  shows "\<exists>r d'. (case resolve_scan w 0 None (rc_entries d) of
           None \<Rightarrow> (Inr \<lparr>nl_resolution = Ambiguous, nl_packet = None\<rparr>, d)
         | Some None \<Rightarrow> (Inr \<lparr>nl_resolution = Missing, nl_packet = None\<rparr>, d)
         | Some (Some i) \<Rightarrow>
             let e = rc_entries d ! i in
             if ce_retransmissions e \<ge> kMaximumRetransmissions
               then (Inr \<lparr>nl_resolution = Retransmission_limit, nl_packet = None\<rparr>, d)
             else
               let k = rc_cumulative d in
               (Inr \<lparr>nl_resolution = Retransmit, nl_packet = Some (ce_packet e)\<rparr>,
                d\<lparr>rc_entries := (rc_entries d)[i := e\<lparr>ce_retransmissions := ce_retransmissions e + 1\<rparr>],
                  rc_cumulative := k\<lparr>snap_retransmissions := saturating_increment (snap_retransmissions k)\<rparr>\<rparr>)) =
       (Inr r, d' :: retransmission_cache) \<and>
     (r, rc_entries d') = (let matching = filter (\<lambda>e. wire_of e = w) alive; res = resolution_of matching in
        (\<lparr>nl_resolution = res, nl_packet = (if res = Retransmit then Some (ce_packet (hd matching)) else None)\<rparr>,
         if res = Retransmit then map (bump w) alive else alive)) \<and>
     rc_bytes d' = rc_bytes d \<and> rc_media_epoch d' = rc_media_epoch d \<and>
     rc_dependency_epoch d' = rc_dependency_epoch d \<and> rc_last_now d' = rc_last_now d"
proof -
  let ?P = "\<lambda>e. wire_of e = w"
  let ?idx = "filter (\<lambda>j. ?P (alive ! j)) [0..<length alive]"
  have scan: "resolve_scan w 0 None (rc_entries d) =
      (case ?idx of [] \<Rightarrow> Some None | [j] \<Rightarrow> Some (Some j) | _ \<Rightarrow> None)"
    unfolding resolve_scan_eq assms wire_of_def add_0 ..
  have matching: "filter ?P alive = map ((!) alive) ?idx" by (rule filter_by_index)
  consider "?idx = []" | i where "?idx = [i]" | i j k where "?idx = i # j # k"
    by (cases ?idx; cases "tl ?idx") auto
  then show ?thesis
  proof cases
    case 2
    note upd = update_unique_match(1) [OF 2, where f = "\<lambda>e. e\<lparr>ce_retransmissions := ce_retransmissions e + 1\<rparr>"]
    have "bump w = (\<lambda>e. if wire_of e = w then e\<lparr>ce_retransmissions := ce_retransmissions e + 1\<rparr> else e)"
      by (simp add: bump_def fun_eq_iff)
    with upd show ?thesis unfolding scan matching 2 by (auto simp: assms resolution_of_def Let_def not_le)
  qed (unfold scan matching, simp_all add: assms resolution_of_def)
qed

lemma bumped_ok:
  assumes "cache_ok d" "rc_entries d' = map (bump w) (rc_entries d)"
    and "resolution_of (filter (\<lambda>e. wire_of e = w) (rc_entries d)) = Retransmit"
    and "rc_bytes d' = rc_bytes d" "rc_media_epoch d' = rc_media_epoch d"
    and "rc_dependency_epoch d' = rc_dependency_epoch d" "rc_last_now d' = rc_last_now d"
  shows "cache_ok d'"
proof -
  have low: "ce_retransmissions (bump w e) \<le> kMaximumRetransmissions" if "e \<in> set (rc_entries d)" for e
  proof (cases "wire_of e = w")
    case True
    with that have "e \<in> set (filter (\<lambda>e. wire_of e = w) (rc_entries d))" by simp
    moreover from assms(3) obtain x where "filter (\<lambda>e. wire_of e = w) (rc_entries d) = [x]"
      "ce_retransmissions x < kMaximumRetransmissions"
      by (auto simp: resolution_of_def split: list.splits if_splits)
    ultimately have "ce_retransmissions e < kMaximumRetransmissions" by simp
    then show ?thesis by (auto simp: bump_def inc_le)
  next
    case False
    with that assms(1) show ?thesis by (simp add: bump_def cache_ok_def entry_ok_def)
  qed
  have "entry_ok d' (bump w e)" if "e \<in> set (rc_entries d)" for e
    using that assms(1,5-7) low [OF that]
    by (auto simp: cache_ok_def entry_ok_def packet_storable_def split: option.splits)
  with assms show ?thesis by (simp add: cache_ok_def total_bytes_def comp_def)
qed

lemma cache_resolve_cases:
  assumes "cache_ok c"
  obtains (regressed) "time_regressed (rc_last_now c) now"
      "cache_resolve c w me de now =
         (Inl (Invalid_argument ''retransmission cache time moved backward''), c)"
  | (resolved) r d where "\<not> time_regressed (rc_last_now c) now"
      "cache_resolve c w me de now = (Inr r, d)" "cache_ok d" "(r, rc_entries d) = resolve_spec c w me de now"
      "rc_media_epoch d = rc_media_epoch c" "rc_dependency_epoch d = rc_dependency_epoch c"
      "rc_last_now d = Some now"
proof (cases rule: cache_time_cases [OF assms, of now, case_names old new])
  case old
  then show thesis by (intro regressed) (simp_all add: cache_resolve_def)
next
  case (new d)
  show thesis
  proof (cases "me \<noteq> rc_media_epoch d \<or> de \<noteq> rc_dependency_epoch d")
    case True
    then have "cache_resolve c w me de now = (Inr \<lparr>nl_resolution = Stale_epoch, nl_packet = None\<rparr>, d)"
      unfolding cache_resolve_def new(3) and_then_simps new(4) Let_def by simp
    with True new show thesis by (intro resolved) (auto simp: resolve_spec_def Let_def)
  next
    case False
    let ?m = "filter (\<lambda>e. wire_of e = w) (rc_entries d)"
    obtain r d' where r: "cache_resolve c w me de now = (Inr r, d')"
      "(r, rc_entries d') = (let matching = ?m; res = resolution_of matching in
        (\<lparr>nl_resolution = res, nl_packet = (if res = Retransmit then Some (ce_packet (hd matching)) else None)\<rparr>,
         if res = Retransmit then map (bump w) (rc_entries d) else rc_entries d))"
      "rc_bytes d' = rc_bytes d" "rc_media_epoch d' = rc_media_epoch d"
      "rc_dependency_epoch d' = rc_dependency_epoch d" "rc_last_now d' = rc_last_now d"
      using cache_resolve_body [OF refl, where w = w and d = d] False
      unfolding cache_resolve_def new(3) and_then_simps new(4) Let_def by auto
    have "cache_ok d'"
    proof (cases "resolution_of ?m = Retransmit")
      case True
      with r bumped_ok [OF new(2) _ True r(3-6)] show ?thesis by (simp add: Let_def)
    next
      case False
      with r have "trimmed 0 d d'" using new(2) by (simp add: Let_def trimmed_def cache_ok_def)
      then show ?thesis using new(2) by (rule trimmed_ok)
    qed
    with r False new show thesis
      by (intro resolved [of r d']) (simp_all add: resolve_spec_def Let_def)
  qed
qed

section \<open>Any sequence of calls\<close>

datatype cache_op =
    Op_reset_epoch u64 u64
  | Op_store plaintext_rtp_packet u64
  | Op_resolve u16 u64 u64 u64
  | Op_clear

fun cache_step :: "retransmission_cache \<Rightarrow> cache_op \<Rightarrow> retransmission_cache" where
  "cache_step c (Op_reset_epoch me de) = snd (cache_reset_epoch c me de)"
| "cache_step c (Op_store p now) = snd (cache_store c p now)"
| "cache_step c (Op_resolve w me de now) = snd (cache_resolve c w me de now)"
| "cache_step c Op_clear = cache_clear c"

lemma new_cache_ok: "cache_ok new_cache"
  by (simp add: cache_ok_def new_cache_def)

lemma cache_clear_ok: "cache_ok (cache_clear c)"
  by (simp add: cache_ok_def cache_clear_def)

lemma cache_reset_epoch_ok: "cache_ok c \<Longrightarrow> cache_ok (snd (cache_reset_epoch c me de))"
  by (simp add: cache_ok_def cache_reset_epoch_def cache_clear_def)

lemma cache_store_ok: "cache_ok c \<Longrightarrow> cache_ok (snd (cache_store c p now))"
  by (cases rule: cache_store_cases [of c now p]) simp_all

lemma cache_resolve_ok: "cache_ok c \<Longrightarrow> cache_ok (snd (cache_resolve c w me de now))"
  by (cases rule: cache_resolve_cases [of c now w me de]) simp_all

lemmas cache_preserves = cache_clear_ok cache_reset_epoch_ok cache_store_ok cache_resolve_ok

lemma cache_step_ok: "cache_ok c \<Longrightarrow> cache_ok (cache_step c op)"
  by (cases op) (simp_all add: cache_preserves)

interpretation cache: safe_machine cache_step cache_ok
  by unfold_locales (rule cache_step_ok)

text \<open>How often a packet may still be handed out, and how often it was over a run.\<close>

definition allowance :: "u32 \<times> u64 \<Rightarrow> cache_entry list \<Rightarrow> nat" where
  "allowance key es =
     sum_list (map (\<lambda>e. 2 - unat (ce_retransmissions e)) (filter (\<lambda>e. packet_key e = key) es))"

definition packet_identity_key :: "plaintext_rtp_packet \<Rightarrow> u32 \<times> u64" where
  "packet_identity_key p = (id_ssrc (identity p), id_extended_sequence (identity p))"

fun stored_now :: "u32 \<times> u64 \<Rightarrow> retransmission_cache \<Rightarrow> cache_op \<Rightarrow> nat" where
  "stored_now key c (Op_store p now) =
     (if fst (cache_store c p now) = Inr True \<and> packet_identity_key p = key then 1 else 0)"
| "stored_now key c _ = 0"

fun resent_now :: "u32 \<times> u64 \<Rightarrow> retransmission_cache \<Rightarrow> cache_op \<Rightarrow> nat" where
  "resent_now key c (Op_resolve w me de now) =
     (case fst (cache_resolve c w me de now) of
        Inl _ \<Rightarrow> 0
      | Inr r \<Rightarrow> (case nl_packet r of None \<Rightarrow> 0 | Some p \<Rightarrow> if packet_identity_key p = key then 1 else 0))"
| "resent_now key c _ = 0"

fun total_of :: "(retransmission_cache \<Rightarrow> cache_op \<Rightarrow> nat) \<Rightarrow> retransmission_cache \<Rightarrow> cache_op list \<Rightarrow> nat" where
  "total_of f c [] = 0"
| "total_of f c (op # ops) = f c op + total_of f (cache_step c op) ops"

lemma allowance_append: "allowance key (es @ fs) = allowance key es + allowance key fs"
  by (simp add: allowance_def)

lemma allowance_filter: "allowance key (filter P es) \<le> allowance key es"
  by (induction es) (auto simp: allowance_def)

lemma allowance_drop: "allowance key (drop k es) \<le> allowance key es"
  using allowance_append [of key "take k es" "drop k es"] by simp

lemma allowance_bump:
  assumes "filter (\<lambda>e. wire_of e = w) es = [e]" "ce_retransmissions e < kMaximumRetransmissions"
  shows "(if packet_key e = key then 1 else 0) + allowance key (map (bump w) es) \<le> allowance key es"
  using assms
proof (induction es)
  case (Cons x es)
  show ?case
  proof (cases "wire_of x = w")
    case True
    with Cons.prems have x: "x = e" "\<forall>y \<in> set es. wire_of y \<noteq> w" by (auto simp: filter_empty_conv)
    then have rest: "map (bump w) es = es" by (intro map_idI) (simp add: bump_def)
    have "unat (ce_retransmissions e) < 2"
      using Cons.prems(2) by (simp add: word_less_nat_alt kMaximumRetransmissions_def)
    then have "unat (ce_retransmissions e + 1) = unat (ce_retransmissions e) + 1"
      by (simp add: unat_word_ariths)
    then have "unat (ce_retransmissions (bump w x)) = unat (ce_retransmissions e) + 1"
      using True x(1) by (simp add: bump_def)
    with \<open>unat (ce_retransmissions e) < 2\<close> x(1) show ?thesis
      by (simp add: allowance_def rest) arith
  next
    case False
    then have "bump w x = x" by (simp add: bump_def)
    with Cons False show ?thesis by (auto simp: allowance_def)
  qed
qed simp

lemma resolve_spec_packet:
  assumes "(r, es) = resolve_spec c w me de now" "nl_packet r = Some p"
  obtains e where "p = ce_packet e" "filter (\<lambda>e. wire_of e = w) (filter (live now) (rc_entries c)) = [e]"
    "ce_retransmissions e < kMaximumRetransmissions" "es = map (bump w) (filter (live now) (rc_entries c))"
    "me = rc_media_epoch c" "de = rc_dependency_epoch c" "nl_resolution r = Retransmit"
proof -
  let ?m = "filter (\<lambda>e. wire_of e = w) (filter (live now) (rc_entries c))"
  have res: "resolution_of ?m = Retransmit" "me = rc_media_epoch c" "de = rc_dependency_epoch c"
    "p = ce_packet (hd ?m)" "es = map (bump w) (filter (live now) (rc_entries c))"
    "nl_resolution r = Retransmit"
    using assms by (auto simp: resolve_spec_def Let_def split: if_splits)
  moreover from res(1) obtain e where "?m = [e]" "ce_retransmissions e < kMaximumRetransmissions"
    by (auto simp: resolution_of_def split: list.splits if_splits)
  ultimately show thesis using that [of e] by simp
qed

lemma allowance_step:
  assumes "cache_ok c"
  shows "resent_now key c op + allowance key (rc_entries (cache_step c op)) \<le>
    allowance key (rc_entries c) + 2 * stored_now key c op"
proof (cases op)
  case (Op_store p now)
  from assms show ?thesis
  proof (cases rule: cache_store_cases [of c now p])
    case (stored d k)
    then show ?thesis
      using allowance_drop [of key k "filter (live now) (rc_entries c)"]
        allowance_filter [of key "live now" "rc_entries c"]
      by (simp add: Op_store allowance_append) (simp add: allowance_def stored_entry_def packet_identity_key_def packet_key_def)
  qed (use allowance_filter [of key "live now" "rc_entries c"] in \<open>simp_all add: Op_store\<close>)
next
  case (Op_resolve w me de now)
  note filter_le = allowance_filter [of key "live now" "rc_entries c"]
  from assms show ?thesis
  proof (cases rule: cache_resolve_cases [of c now w me de])
    case (resolved r d)
    show ?thesis
    proof (cases "nl_packet r")
      case None
      with resolved(4) have "rc_entries d = filter (live now) (rc_entries c)"
        by (auto simp: resolve_spec_def Let_def split: if_splits)
      with None filter_le resolved(2) show ?thesis by (simp add: Op_resolve)
    next
      case (Some p)
      obtain e where e: "p = ce_packet e"
        "filter (\<lambda>e. wire_of e = w) (filter (live now) (rc_entries c)) = [e]"
        "ce_retransmissions e < kMaximumRetransmissions"
        "rc_entries d = map (bump w) (filter (live now) (rc_entries c))"
        by (rule resolve_spec_packet [OF resolved(4) Some])
      from allowance_bump [OF e(2,3), of key] filter_le Some resolved(2) e(1,4) show ?thesis
        by (auto simp: Op_resolve packet_identity_key_def packet_key_def split: if_splits)
    qed
  qed (simp add: Op_resolve)
qed (auto simp: cache_reset_epoch_def cache_clear_def allowance_def)

lemma allowance_run:
  "cache_ok c \<Longrightarrow> total_of (resent_now key) c ops \<le> allowance key (rc_entries c) + 2 * total_of (stored_now key) c ops"
proof (induction ops arbitrary: c)
  case (Cons op ops)
  from Cons.IH [OF cache_step_ok [OF Cons.prems, of op]] allowance_step [OF Cons.prems, of key op]
  show ?case by simp
qed simp

section \<open>What a client may rely on\<close>

text \<open>The contract between the cache and the recovery controller: a lookup keeps the invariant
  and the epochs, throws only when time runs backwards, hands out a packet only for its own epoch
  pair and wire sequence, and never one for another epoch pair.\<close>

locale retransmission_source =
  fixes resolve :: "'c \<Rightarrow> u16 \<Rightarrow> u64 \<Rightarrow> u64 \<Rightarrow> u64 \<Rightarrow> (nack_lookup_result, 'c) outcome"
    and ok :: "'c \<Rightarrow> bool"
    and epochs :: "'c \<Rightarrow> u64 \<times> u64"
    and last_time :: "'c \<Rightarrow> u64 option"
  assumes resolve_ok: "ok c \<Longrightarrow> ok (snd (resolve c w me de now))"
    and resolve_epochs: "ok c \<Longrightarrow> epochs (snd (resolve c w me de now)) = epochs c"
    and resolve_total: "ok c \<Longrightarrow> \<not> time_regressed (last_time c) now \<Longrightarrow>
      \<exists>r. fst (resolve c w me de now) = Inr r"
    and resolve_time: "ok c \<Longrightarrow> fst (resolve c w me de now) = Inr r \<Longrightarrow>
      last_time (snd (resolve c w me de now)) = Some now"
    and resolve_packet: "ok c \<Longrightarrow> fst (resolve c w me de now) = Inr r \<Longrightarrow> nl_packet r = Some p \<Longrightarrow>
      nl_resolution r = Retransmit \<and> epochs c = (me, de) \<and> id_media_epoch (identity p) = me \<and>
      id_dependency_epoch (identity p) = de \<and> id_wire_sequence (identity p) = w"
    and resolve_stale: "ok c \<Longrightarrow> fst (resolve c w me de now) = Inr r \<Longrightarrow>
      (nl_resolution r = Stale_epoch \<longleftrightarrow> epochs c \<noteq> (me, de)) \<and>
      (nl_resolution r = Retransmit \<longrightarrow> nl_packet r \<noteq> None)"
begin

text \<open>Two lookups at the same time: the second one never throws.\<close>

lemma resolve_again:
  assumes "ok c" "resolve c w me de now = (Inr r, d)"
  shows "\<exists>r' d'. resolve d w' me' de' now = (Inr r', d') \<and> ok d' \<and> epochs d' = epochs c"
proof -
  have d: "ok d" "last_time d = Some now" "epochs d = epochs c"
    using resolve_ok [OF assms(1), of w me de now] resolve_time [OF assms(1), of w me de now r]
      resolve_epochs [OF assms(1), of w me de now] assms(2) by simp_all
  then obtain r' where "fst (resolve d w' me' de' now) = Inr r'"
    using resolve_total [OF d(1), of now w' me' de'] by auto
  with d resolve_ok [OF d(1), of w' me' de' now] resolve_epochs [OF d(1), of w' me' de' now] show ?thesis
    by (metis prod.collapse)
qed

end

definition cache_epochs :: "retransmission_cache \<Rightarrow> u64 \<times> u64" where
  "cache_epochs c = (rc_media_epoch c, rc_dependency_epoch c)"

lemma resolve_spec_stale:
  "(r, es) = resolve_spec c w me de now \<Longrightarrow>
     (nl_resolution r = Stale_epoch \<longleftrightarrow> cache_epochs c \<noteq> (me, de)) \<and>
     (nl_resolution r = Retransmit \<longrightarrow> nl_packet r \<noteq> None)"
  by (auto simp: resolve_spec_def Let_def cache_epochs_def resolution_of_def split: if_splits list.splits)

interpretation cache_source:
  retransmission_source cache_resolve cache_ok cache_epochs rc_last_now
proof unfold_locales
  fix c w me de now
  assume ok: "cache_ok c"
  then show "cache_ok (snd (cache_resolve c w me de now))" by (rule cache_resolve_ok)
  from ok show "cache_epochs (snd (cache_resolve c w me de now)) = cache_epochs c"
    by (cases rule: cache_resolve_cases [of c now w me de]) (simp_all add: cache_epochs_def)
  from ok show "\<exists>r. fst (cache_resolve c w me de now) = Inr r" if "\<not> time_regressed (rc_last_now c) now"
    by (cases rule: cache_resolve_cases [of c now w me de]) (simp_all add: that)
  fix r
  assume r: "fst (cache_resolve c w me de now) = Inr r"
  with ok show "rc_last_now (snd (cache_resolve c w me de now)) = Some now"
    by (cases rule: cache_resolve_cases [of c now w me de]) simp_all
  from ok r have spec: "\<exists>es. (r, es) = resolve_spec c w me de now"
    by (cases rule: cache_resolve_cases [of c now w me de]) auto
  then show "(nl_resolution r = Stale_epoch \<longleftrightarrow> cache_epochs c \<noteq> (me, de)) \<and>
      (nl_resolution r = Retransmit \<longrightarrow> nl_packet r \<noteq> None)"
    using resolve_spec_stale by blast
  fix p
  assume "nl_packet r = Some p"
  with spec obtain e where e: "p = ce_packet e"
    "filter (\<lambda>e. wire_of e = w) (filter (live now) (rc_entries c)) = [e]"
    "me = rc_media_epoch c" "de = rc_dependency_epoch c" "nl_resolution r = Retransmit"
    using resolve_spec_packet [of r _ c w me de now p] by metis
  from e(2) have "e \<in> set (filter (\<lambda>e. wire_of e = w) (filter (live now) (rc_entries c)))" by simp
  then have "e \<in> set (rc_entries c)" "wire_of e = w" by simp_all
  with ok e show "nl_resolution r = Retransmit \<and> cache_epochs c = (me, de) \<and>
      id_media_epoch (identity p) = me \<and> id_dependency_epoch (identity p) = de \<and>
      id_wire_sequence (identity p) = w"
    by (auto simp: cache_ok_def entry_ok_def packet_storable_def cache_epochs_def wire_of_def)
qed

section \<open>Properties\<close>

text \<open>C8 (invariant). Whatever sequence of resets, stores, lookups and clears is applied to a new
  cache, with times in any order and including the calls that throw, the byte count is the exact
  sum of the packet sizes and at most 4 MiB, there are at most 2048 entries, no two with the same
  SSRC and extended sequence number, in order of storage, all well-formed packets of the current
  epochs, none handed out more than twice.\<close>

theorem retransmission_cache_invariant: "cache_ok (foldl cache_step new_cache ops)"
  by (rule cache.run_inv [OF new_cache_ok])

text \<open>Storing at a time that does not run backwards always returns: it answers
  whether the packet is well-formed for the current epochs and not a duplicate of a live one, and
  in that case appends it after evicting the expired entries and then the smallest number of
  oldest entries that makes room; otherwise only the expired entries leave.\<close>

lemma cache_store_behaviour:
  assumes "cache_ok c" "\<not> time_regressed (rc_last_now c) now"
  defines "alive \<equiv> filter (live now) (rc_entries c)"
  shows "\<exists>d. cache_store c p now = (Inr (store_admits c p now), d) \<and>
    (if store_admits c p now
     then \<exists>k. rc_entries d = drop k alive @ [stored_entry p now] \<and>
       room_after alive (length (pkt_bytes p)) k \<and>
       (\<forall>j < k. \<not> room_after alive (length (pkt_bytes p)) j)
     else rc_entries d = alive)"
  using assms(1)
proof (cases rule: cache_store_cases [of c now p])
  case regressed
  with assms(2) show ?thesis by simp
next
  case (refused d)
  then show ?thesis by (simp add: alive_def)
next
  case (stored d k)
  then show ?thesis unfolding alive_def by auto
qed

definition sample_cache :: retransmission_cache where
  "sample_cache = snd (cache_reset_epoch new_cache 1 1)"

definition sample_packet :: plaintext_rtp_packet where
  "sample_packet = make_packet \<lparr>rp_bytes = [0x65, 1, 2], rp_role = Role_idr\<rparr> True 96 7 5 9 sample_input"

lemma sample_cache_ok: "cache_ok sample_cache"
  unfolding sample_cache_def by (rule cache_reset_epoch_ok [OF new_cache_ok])

lemma sample_cache_fields:
  "rc_last_now sample_cache = None" "rc_entries sample_cache = []"
  "rc_media_epoch sample_cache = 1" "rc_dependency_epoch sample_cache = 1"
  by (simp_all add: sample_cache_def cache_reset_epoch_def cache_clear_def new_cache_def)

lemma sample_storable: "packet_storable sample_cache sample_packet"
proof -
  have "length (pkt_bytes sample_packet) = 15" by (simp add: sample_packet_def make_packet_bytes)
  moreover have "packet_payload sample_packet = [0x65, 1, 2]" by (simp add: sample_packet_def make_packet_payload)
  moreover have "rtp_header_bytes sample_packet = 12" "id_media_epoch (identity sample_packet) = 1"
    "id_dependency_epoch (identity sample_packet) = 1"
    by (simp_all add: sample_packet_def make_packet_def Let_def kRtpHeaderBytes_def sample_input_def)
  ultimately show ?thesis
    by (simp add: packet_storable_def sample_cache_fields kRtpHeaderBytes_def kMaximumRtpPayloadBytes_def
        kMaximumBytes_def)
qed

lemma cache_store_behaviour_witness:
  "\<exists>d. cache_store sample_cache sample_packet 10 = (Inr True, d) \<and>
     rc_entries d = [stored_entry sample_packet 10]"
proof -
  have "store_admits sample_cache sample_packet 10"
    by (simp add: store_admits_def sample_storable sample_cache_fields)
  with cache_store_behaviour [OF sample_cache_ok, of 10 sample_packet] show ?thesis
    by (auto simp: sample_cache_fields)
qed

text \<open>C25 (refinement). A lookup at a time that does not run backwards implements its specification:
  it looks only at entries stored less than 500 ms ago, answers stale for other epochs, missing,
  ambiguous or limit-reached as the entries with that wire sequence say, and otherwise hands out
  the unique entry and counts one more retransmission for it and for no other entry.\<close>

theorem cache_resolve_refines:
  assumes "cache_ok c" "\<not> time_regressed (rc_last_now c) now"
  shows "\<exists>r d. cache_resolve c w me de now = (Inr r, d) \<and>
    (r, rc_entries d) = resolve_spec c w me de now"
  using assms by (cases rule: cache_resolve_cases [of c now w me de]) auto

theorem cache_resolve_refines_witness:
  "\<exists>r d. cache_resolve sample_cache 5 1 1 10 = (Inr r, d) \<and> nl_resolution r = Missing"
proof -
  have "resolve_spec sample_cache 5 1 1 10 = (\<lparr>nl_resolution = Missing, nl_packet = None\<rparr>, [])"
    by (simp add: resolve_spec_def sample_cache_fields resolution_of_def)
  with cache_resolve_refines [OF sample_cache_ok, of 10 5 1 1] show ?thesis
    by (auto simp: sample_cache_fields)
qed

text \<open>Over any sequence of calls on a new cache, a packet (an SSRC and an extended
  sequence number) is handed out for retransmission at most twice for each time it was stored.\<close>

lemma retransmission_limit:
  "total_of (resent_now key) new_cache ops \<le> 2 * total_of (stored_now key) new_cache ops"
proof -
  have "allowance key (rc_entries new_cache) = 0" by (simp add: allowance_def new_cache_def)
  with allowance_run [OF new_cache_ok, of key ops] show ?thesis by simp
qed

end
