(* ===== verification/Rtp_Recovery.thy ===== *)
theory Rtp_Recovery
  imports Retransmission_Cache "HOL-Library.AList" "HOL-Library.Sublist"
begin

text \<open>
  \<open>expand_generic_nack\<close> and \<open>RtpRecoveryController\<close> (\<^verbatim>\<open>src/transport/rtp_transport.cpp\<close>): what a
  receiver's NACK and PLI feedback makes the sender do, the two rate limits, the coalescing of
  IDR requests and the termination of a session that floods. The controller holds a reference to
  the retransmission cache, which the pacer shares; its operations act on the pair of both states,
  and keep what they have done so far when the cache throws.
\<close>

section \<open>Model\<close>

record generic_nack_field =
  packet_id :: u16
  lost_packet_bitmask :: u16

text \<open>\<open>seen.insert(identifier).second\<close> guards every \<open>push_back\<close>, so the set \<open>seen\<close> is always the
  set of the identifiers collected so far.\<close>

definition push_unseen :: "u16 list \<Rightarrow> u16 \<Rightarrow> u16 list" where
  "push_unseen identifiers i = (if i \<in> set identifiers then identifiers else identifiers @ [i])"

fun expand_bitmask :: "generic_nack_field \<Rightarrow> nat list \<Rightarrow> u16 list \<Rightarrow> u16 list" where
  "expand_bitmask field [] identifiers = identifiers"
| "expand_bitmask field (b # bits) identifiers =
     (if lost_packet_bitmask field AND push_bit b 1 = 0 then expand_bitmask field bits identifiers
      else expand_bitmask field bits
             (push_unseen identifiers (packet_id field + word_of_nat (b + 1))))"

definition expand_field :: "generic_nack_field \<Rightarrow> u16 list \<Rightarrow> u16 list" where
  "expand_field field identifiers =
     expand_bitmask field [0..<16] (push_unseen identifiers (packet_id field))"

definition expand_generic_nack :: "generic_nack_field list \<Rightarrow> u16 list" where
  "expand_generic_nack nack_fields = fold expand_field nack_fields []"

datatype recovery_trigger =
    Startup
  | Resume
  | Dependency_epoch_transition
  | Receiver_admission
  | Recorder_armed
  | Picture_loss_indication
  | Nack_miss

record recovery_diagnostics =
  feedback_messages :: u64
  distinct_nack_identifiers :: u64
  ignored_feedback_messages :: u64
  ignored_nack_identifiers :: u64
  stale_feedback :: u64
  idr_requests :: u64
  coalesced_idr_requests :: u64
  feedback_flood_terminated :: bool

record recovery_decision =
  rd_retransmissions :: "plaintext_rtp_packet list"
  request_idr_with_parameter_sets :: bool
  feedback_rate_limited :: bool
  terminate_session :: bool

definition kMaximumDistinctNackIdentifiersPerSecond :: nat where
  "kMaximumDistinctNackIdentifiersPerSecond = 100"

definition kMaximumFeedbackMessagesPerSecond :: nat where
  "kMaximumFeedbackMessagesPerSecond = 10"

definition kFeedbackWindowMilliseconds :: u64 where
  "kFeedbackWindowMilliseconds = 1000"

definition kFeedbackFloodTerminationMilliseconds :: u64 where
  "kFeedbackFloodTerminationMilliseconds = 10000"

text \<open>\<open>nack_identifier_times_\<close> is an unordered map; it is kept as an association list whose order
  no operation reads.\<close>

record recovery_controller =
  rv_media_epoch :: u64
  rv_dependency_epoch :: u64
  rv_last_idr_request :: "u64 option"
  rv_last_now :: "u64 option"
  rv_overload_started :: "u64 option"
  rv_feedback_message_times :: "u64 list"
  rv_nack_identifier_times :: "(u16 \<times> u64) list"
  rv_diagnostics :: recovery_diagnostics
  rv_stopped :: bool

type_synonym recovery_world = "recovery_controller \<times> retransmission_cache"

definition new_diagnostics :: recovery_diagnostics where
  "new_diagnostics =
     \<lparr>feedback_messages = 0, distinct_nack_identifiers = 0, ignored_feedback_messages = 0,
      ignored_nack_identifiers = 0, stale_feedback = 0, idr_requests = 0, coalesced_idr_requests = 0,
      feedback_flood_terminated = False\<rparr>"

definition new_recovery :: recovery_controller where
  "new_recovery =
     \<lparr>rv_media_epoch = 0, rv_dependency_epoch = 0, rv_last_idr_request = None, rv_last_now = None,
      rv_overload_started = None, rv_feedback_message_times = [], rv_nack_identifier_times = [],
      rv_diagnostics = new_diagnostics, rv_stopped = False\<rparr>"

abbreviation count_diag ::
  "((u64 \<Rightarrow> u64) \<Rightarrow> recovery_diagnostics \<Rightarrow> recovery_diagnostics) \<Rightarrow> recovery_controller \<Rightarrow> recovery_controller" where
  "count_diag upd s \<equiv> rv_diagnostics_update (upd saturating_increment) s"

definition recovery_validate_time :: "recovery_world \<Rightarrow> u64 \<Rightarrow> (unit, recovery_world) outcome" where
  "recovery_validate_time w now =
     (case w of (s, c) \<Rightarrow>
        if time_regressed (rv_last_now s) now
          then (Inl (Invalid_argument ''recovery feedback time moved backward''), (s, c))
        else (Inr (), (s\<lparr>rv_last_now := Some now\<rparr>, c)))"

definition terminated :: "recovery_controller \<Rightarrow> bool" where
  "terminated s = (rv_stopped s \<or> feedback_flood_terminated (rv_diagnostics s))"

definition request_forced_idr ::
  "recovery_world \<Rightarrow> u64 \<Rightarrow> recovery_trigger \<Rightarrow> (bool, recovery_world) outcome" where
  "request_forced_idr w now trigger =
     and_then (recovery_validate_time w now) (\<lambda>_ (s, c).
       if terminated s \<or> rv_media_epoch s = 0 \<or> rv_dependency_epoch s = 0 then (Inr False, (s, c))
       else if (case rv_last_idr_request s of
                  None \<Rightarrow> False | Some t \<Rightarrow> now - t < kFeedbackWindowMilliseconds)
         then (Inr False, (count_diag coalesced_idr_requests_update s, c))
       else (Inr True, (count_diag idr_requests_update (s\<lparr>rv_last_idr_request := Some now\<rparr>), c)))"

definition begin_epoch ::
  "recovery_world \<Rightarrow> u64 \<Rightarrow> u64 \<Rightarrow> u64 \<Rightarrow> recovery_trigger \<Rightarrow> (bool, recovery_world) outcome" where
  "begin_epoch w media_epoch dependency_epoch now trigger =
     and_then (recovery_validate_time w now) (\<lambda>_ (s, c).
       if terminated s \<or> media_epoch = 0 \<or> dependency_epoch = 0 then (Inr False, (s, c))
       else
         let changed = (media_epoch \<noteq> rv_media_epoch s \<or> dependency_epoch \<noteq> rv_dependency_epoch s) in
         if \<not> changed then request_forced_idr (s, c) now trigger
         else
           let s = s\<lparr>rv_media_epoch := media_epoch, rv_dependency_epoch := dependency_epoch\<rparr> in
           case cache_reset_epoch c media_epoch dependency_epoch of
             (Inl e, c) \<Rightarrow> (Inl e, (s, c))
           | (Inr _, c) \<Rightarrow>
               (Inr True,
                (count_diag idr_requests_update
                   (s\<lparr>rv_feedback_message_times := [], rv_nack_identifier_times := [],
                      rv_overload_started := None, rv_last_idr_request := Some now\<rparr>), c)))"

definition update_flood_state :: "recovery_world \<Rightarrow> bool \<Rightarrow> u64 \<Rightarrow> recovery_world" where
  "update_flood_state w exceeded now =
     (case w of (s, c) \<Rightarrow>
        if exceeded then
          let started = (case rv_overload_started s of None \<Rightarrow> now | Some t \<Rightarrow> t);
              s = s\<lparr>rv_overload_started := Some started\<rparr>
          in if now - started \<ge> kFeedbackFloodTerminationMilliseconds
             then (s\<lparr>rv_diagnostics := (rv_diagnostics s)\<lparr>feedback_flood_terminated := True\<rparr>,
                     rv_stopped := True\<rparr>, cache_clear c)
             else (s, c)
        else if length (rv_feedback_message_times s) < kMaximumFeedbackMessagesPerSecond \<and>
                length (rv_nack_identifier_times s) < kMaximumDistinctNackIdentifiersPerSecond
          then (s\<lparr>rv_overload_started := None\<rparr>, c)
        else (s, c))"

text \<open>The loop at the start of \<open>admit_feedback_message\<close> drops the expired front.\<close>

definition expired_feedback :: "u64 \<Rightarrow> u64 \<Rightarrow> bool" where
  "expired_feedback now t = (now - t \<ge> kFeedbackWindowMilliseconds)"

definition admit_feedback_message :: "recovery_world \<Rightarrow> u64 \<Rightarrow> bool \<times> recovery_world" where
  "admit_feedback_message w now =
     (case w of (s, c) \<Rightarrow>
        let times = dropWhile (expired_feedback now) (rv_feedback_message_times s) @ [now];
            times = (if length times > kMaximumFeedbackMessagesPerSecond + 1 then tl times else times);
            s = count_diag feedback_messages_update (s\<lparr>rv_feedback_message_times := times\<rparr>)
        in if length times > kMaximumFeedbackMessagesPerSecond
           then (False, update_flood_state (count_diag ignored_feedback_messages_update s, c) True now)
           else (True, update_flood_state (s, c) False now))"

definition admit_nack_identifier :: "recovery_world \<Rightarrow> u16 \<Rightarrow> u64 \<Rightarrow> bool \<times> recovery_world" where
  "admit_nack_identifier w identifier now =
     (case w of (s, c) \<Rightarrow>
        let times = filter (\<lambda>(_, t). \<not> expired_feedback now t) (rv_nack_identifier_times s) in
        case map_of times identifier of
          Some _ \<Rightarrow> (True, (s\<lparr>rv_nack_identifier_times := AList.update identifier now times\<rparr>, c))
        | None \<Rightarrow>
            if length times \<ge> kMaximumDistinctNackIdentifiersPerSecond
              then (False, update_flood_state
                (count_diag ignored_nack_identifiers_update (s\<lparr>rv_nack_identifier_times := times\<rparr>), c)
                True now)
            else (True, (count_diag distinct_nack_identifiers_update
                           (s\<lparr>rv_nack_identifier_times := (identifier, now) # times\<rparr>), c)))"

definition new_decision :: recovery_decision where
  "new_decision =
     \<lparr>rd_retransmissions = [], request_idr_with_parameter_sets = False,
      feedback_rate_limited = False, terminate_session = False\<rparr>"

text \<open>\<open>diagnostics_.feedback_flood_terminated\<close> in the decision.\<close>

definition flood_verdict :: "recovery_world \<Rightarrow> recovery_decision \<Rightarrow> recovery_decision" where
  "flood_verdict w d = d\<lparr>terminate_session := feedback_flood_terminated (rv_diagnostics (fst w))\<rparr>"

definition request_feedback_idr ::
  "recovery_world \<Rightarrow> u64 \<Rightarrow> recovery_trigger \<Rightarrow> (bool, recovery_world) outcome" where
  "request_feedback_idr w now trigger = request_forced_idr w now trigger"

definition handle_pli ::
  "recovery_world \<Rightarrow> u64 \<Rightarrow> u64 \<Rightarrow> u64 \<Rightarrow> (recovery_decision, recovery_world) outcome" where
  "handle_pli w media_epoch dependency_epoch now =
     and_then (recovery_validate_time w now) (\<lambda>_ w.
       if terminated (fst w) then (Inr (flood_verdict w new_decision), w)
       else
         case admit_feedback_message w now of
           (False, w) \<Rightarrow> (Inr (flood_verdict w (new_decision\<lparr>feedback_rate_limited := True\<rparr>)), w)
         | (True, (s, c)) \<Rightarrow>
             if media_epoch \<noteq> rv_media_epoch s \<or> dependency_epoch \<noteq> rv_dependency_epoch s
               then (Inr new_decision, (count_diag stale_feedback_update s, c))
             else and_then (request_feedback_idr (s, c) now Picture_loss_indication) (\<lambda>granted w.
               (Inr (new_decision\<lparr>request_idr_with_parameter_sets := granted\<rparr>), w)))"

text \<open>The loop of \<open>handle_nack\<close>; the value is the decision so far and \<open>recovery_needed\<close>.\<close>

fun nack_loop ::
  "u64 \<Rightarrow> u64 \<Rightarrow> u64 \<Rightarrow> u16 list \<Rightarrow> recovery_decision \<times> bool \<Rightarrow> recovery_world \<Rightarrow>
     (recovery_decision \<times> bool, recovery_world) outcome" where
  "nack_loop me de now [] acc w = (Inr acc, w)"
| "nack_loop me de now (identifier # rest) (decision, recovery_needed) w =
     (case admit_nack_identifier w identifier now of
        (False, w) \<Rightarrow>
          nack_loop me de now rest (decision\<lparr>feedback_rate_limited := True\<rparr>, recovery_needed) w
      | (True, (s, c)) \<Rightarrow>
          (case cache_resolve c identifier me de now of
             (Inl e, c) \<Rightarrow> (Inl e, (s, c))
           | (Inr lookup, c) \<Rightarrow>
               nack_loop me de now rest
                 (case (nl_resolution lookup, nl_packet lookup) of
                    (Retransmit, Some p) \<Rightarrow>
                      (decision\<lparr>rd_retransmissions := rd_retransmissions decision @ [p]\<rparr>, recovery_needed)
                  | (Stale_epoch, _) \<Rightarrow> (decision, recovery_needed)
                  | _ \<Rightarrow> (decision, True))
                 (s, c)))"

definition handle_nack ::
  "recovery_world \<Rightarrow> u64 \<Rightarrow> u64 \<Rightarrow> generic_nack_field list \<Rightarrow> u64 \<Rightarrow>
     (recovery_decision, recovery_world) outcome" where
  "handle_nack w media_epoch dependency_epoch nack_fields now =
     and_then (recovery_validate_time w now) (\<lambda>_ w.
       if terminated (fst w) then (Inr (flood_verdict w new_decision), w)
       else
         case admit_feedback_message w now of
           (False, w) \<Rightarrow> (Inr (flood_verdict w (new_decision\<lparr>feedback_rate_limited := True\<rparr>)), w)
         | (True, (s, c)) \<Rightarrow>
             if media_epoch \<noteq> rv_media_epoch s \<or> dependency_epoch \<noteq> rv_dependency_epoch s
               then (Inr new_decision, (count_diag stale_feedback_update s, c))
             else
               and_then (nack_loop media_epoch dependency_epoch now (expand_generic_nack nack_fields)
                           (new_decision, False) (s, c)) (\<lambda>(decision, recovery_needed) w.
                 if recovery_needed then
                   and_then (request_feedback_idr w now Nack_miss) (\<lambda>granted w.
                     (Inr (flood_verdict w (decision\<lparr>request_idr_with_parameter_sets := granted\<rparr>)), w))
                 else (Inr (flood_verdict w decision), w)))"

definition recovery_stop :: "recovery_world \<Rightarrow> recovery_world" where
  "recovery_stop w =
     (case w of (s, c) \<Rightarrow>
        (s\<lparr>rv_stopped := True, rv_feedback_message_times := [], rv_nack_identifier_times := []\<rparr>,
         cache_clear c))"

fun recovery_trigger_name :: "recovery_trigger \<Rightarrow> string" where
  "recovery_trigger_name Startup = ''startup''"
| "recovery_trigger_name Resume = ''resume''"
| "recovery_trigger_name Dependency_epoch_transition = ''dependency_epoch_transition''"
| "recovery_trigger_name Receiver_admission = ''receiver_admission''"
| "recovery_trigger_name Recorder_armed = ''recorder_armed''"
| "recovery_trigger_name Picture_loss_indication = ''picture_loss_indication''"
| "recovery_trigger_name Nack_miss = ''nack_miss''"

section \<open>NACK expansion\<close>

definition requested :: "generic_nack_field \<Rightarrow> u16 set" where
  "requested field =
     insert (packet_id field)
       {packet_id field + word_of_nat (b + 1) | b. b < 16 \<and> bit (lost_packet_bitmask field) b}"

lemma push_unseen_set [simp]: "set (push_unseen ids i) = insert i (set ids)"
  by (auto simp: push_unseen_def)

lemma push_unseen_distinct [simp]: "distinct (push_unseen ids i) \<longleftrightarrow> distinct ids"
  by (auto simp: push_unseen_def)

lemma bitmask_test: "m AND 2 ^ b = 0 \<longleftrightarrow> \<not> bit m b" for m :: u16
  by (simp add: and_exp_eq_0_iff_not_bit)

lemma expand_bitmask_set:
  "set (expand_bitmask field bits ids) =
     set ids \<union> {packet_id field + word_of_nat (b + 1) | b. b \<in> set bits \<and> bit (lost_packet_bitmask field) b}"
  by (induction bits arbitrary: ids) (auto simp: bitmask_test)

lemma expand_bitmask_distinct: "distinct ids \<Longrightarrow> distinct (expand_bitmask field bits ids)"
  by (induction bits arbitrary: ids) auto

lemma expand_field_set: "set (expand_field field ids) = set ids \<union> requested field"
  by (auto simp: expand_field_def expand_bitmask_set requested_def)

lemma expand_field_distinct: "distinct ids \<Longrightarrow> distinct (expand_field field ids)"
  by (simp add: expand_field_def expand_bitmask_distinct)

lemma expand_fold:
  "distinct ids \<Longrightarrow> distinct (fold expand_field fs ids) \<and>
     set (fold expand_field fs ids) = set ids \<union> (\<Union>f \<in> set fs. requested f)"
  by (induction fs arbitrary: ids) (auto simp: expand_field_set expand_field_distinct)

text \<open>The order of the expansion: the identifiers the fields name, in order, each where it occurs first.\<close>

definition requested_ids :: "generic_nack_field \<Rightarrow> u16 list" where
  "requested_ids field =
     packet_id field # map (\<lambda>b. packet_id field + word_of_nat (b + 1)) (filter (bit (lost_packet_bitmask field)) [0..<16])"

definition first_occurrences :: "'a list \<Rightarrow> 'a list" where
  "first_occurrences xs = rev (remdups (rev xs))"

lemma requested_ids_set: "set (requested_ids field) = requested field"
  by (auto simp: requested_ids_def requested_def)

lemma first_occurrences_set [simp]: "set (first_occurrences xs) = set xs"
  by (simp add: first_occurrences_def)

lemma first_occurrences_distinct [simp]: "distinct (first_occurrences xs)"
  by (simp add: first_occurrences_def)

lemma first_occurrences_append:
  "first_occurrences (ys @ xs) = fold (\<lambda>i ids. push_unseen ids i) xs (first_occurrences ys)"
proof (induction xs arbitrary: ys)
  case (Cons x xs)
  have "first_occurrences (ys @ [x]) = push_unseen (first_occurrences ys) x"
    by (simp add: first_occurrences_def push_unseen_def)
  with Cons [of "ys @ [x]"] show ?case by simp
qed simp

lemma expand_bitmask_fold:
  "expand_bitmask field bits ids =
     fold (\<lambda>i ids. push_unseen ids i)
       (map (\<lambda>b. packet_id field + word_of_nat (b + 1)) (filter (bit (lost_packet_bitmask field)) bits)) ids"
  by (induction bits arbitrary: ids) (simp_all add: bitmask_test)

lemma expand_order: "expand_generic_nack nacks = first_occurrences (concat (map requested_ids nacks))"
proof -
  have "expand_field field ids = fold (\<lambda>i ids. push_unseen ids i) (requested_ids field) ids" for field ids
    by (simp add: expand_field_def expand_bitmask_fold requested_ids_def)
  then have "fold expand_field nacks (first_occurrences ids) = first_occurrences (ids @ concat (map requested_ids nacks))" for ids
    by (induction nacks arbitrary: ids) (simp_all add: first_occurrences_append [symmetric])
  from this [of "[]"] show ?thesis by (simp add: expand_generic_nack_def first_occurrences_def)
qed

section \<open>The feedback window\<close>

definition in_window :: "u64 \<Rightarrow> u64 \<Rightarrow> bool" where
  "in_window now t = (unat now - unat t < 1000)"

lemma expired_feedback_iff: "t \<le> now \<Longrightarrow> expired_feedback now t \<longleftrightarrow> \<not> in_window now t"
  by (simp add: expired_feedback_def in_window_def kFeedbackWindowMilliseconds_def word_le_nat_alt
      elapsed_unat not_less)

lemma in_window_later: "in_window now t \<Longrightarrow> t \<le> t' \<Longrightarrow> in_window now t'"
  by (simp add: in_window_def word_le_nat_alt)

lemma in_window_earlier: "in_window now t \<Longrightarrow> now' \<le> now \<Longrightarrow> in_window now' t"
  by (simp add: in_window_def word_le_nat_alt)

lemma drop_expired_feedback:
  assumes "sorted ts" "\<forall>t \<in> set ts. t \<le> now"
  shows "dropWhile (expired_feedback now) ts = filter (in_window now) ts"
  using assms
proof (induction ts)
  case (Cons t ts)
  show ?case
  proof (cases "in_window now t")
    case True
    with Cons.prems have "\<forall>u \<in> set (t # ts). in_window now u" by (auto intro: in_window_later)
    then have "filter (in_window now) (t # ts) = t # ts" by (rule filter_True)
    with True Cons.prems show ?thesis by (simp add: expired_feedback_iff)
  next
    case False
    with Cons show ?thesis by (simp add: expired_feedback_iff)
  qed
qed simp

text \<open>The deque against the full history of messages: it is a suffix of it, and what it has lost
  either has left the window or is made up for by eleven later messages.\<close>

definition window_rel :: "u64 list \<Rightarrow> u64 list \<Rightarrow> bool" where
  "window_rel history recent =
     (\<exists>older. history = older @ recent \<and>
        (length recent = 11 \<or> (\<forall>t \<in> set older. \<forall>l \<in> set history. l = last history \<longrightarrow> \<not> in_window l t)))"

definition next_times :: "u64 \<Rightarrow> u64 list \<Rightarrow> u64 list" where
  "next_times now recent =
     (let recent = dropWhile (expired_feedback now) recent @ [now]
      in if length recent > kMaximumFeedbackMessagesPerSecond + 1 then tl recent else recent)"

lemma next_times_length: "length recent \<le> 11 \<Longrightarrow> length (next_times now recent) \<le> 11"
  using length_dropWhile_le [of "expired_feedback now" recent]
  by (auto simp: next_times_def kMaximumFeedbackMessagesPerSecond_def Let_def)

lemma window_step:
  assumes "window_rel history recent" "sorted (history @ [now])" "length recent \<le> 11"
  shows "window_rel (history @ [now]) (next_times now recent)"
    and "length (next_times now recent) \<le> 10 \<longleftrightarrow> length (filter (in_window now) (history @ [now])) \<le> 10"
proof -
  obtain older where h: "history = older @ recent"
    and old: "length recent = 11 \<or> (\<forall>t \<in> set older. \<forall>l \<in> set history. l = last history \<longrightarrow> \<not> in_window l t)"
    using assms(1) unfolding window_rel_def by blast
  let ?kept = "filter (in_window now) recent"
  have recent: "sorted recent" "\<forall>t \<in> set recent. t \<le> now" "\<forall>t \<in> set older. \<forall>u \<in> set recent. t \<le> u"
    and le: "\<forall>t \<in> set history. t \<le> now"
    using assms(2) by (auto simp: h sorted_append)
  have drop: "dropWhile (expired_feedback now) recent = ?kept"
    by (rule drop_expired_feedback [OF recent(1,2)])
  obtain lost where lost: "recent = lost @ ?kept" "\<forall>t \<in> set lost. \<not> in_window now t"
    using takeWhile_dropWhile_id [of "expired_feedback now" recent] drop recent(2)
    by (metis expired_feedback_iff set_takeWhileD)
  have now: "in_window now now" by (simp add: in_window_def)
  have gone: "\<forall>t \<in> set older. \<not> in_window now t" if "\<not> (length recent = 11 \<and> lost = [])"
  proof (cases "length recent = 11")
    case True
    with that obtain x where "x \<in> set lost" by (cases lost) auto
    then have "x \<in> set recent" "\<not> in_window now x" using lost by (metis Un_iff set_append, blast)
    with recent(3) show ?thesis by (blast intro: in_window_later)
  next
    case False
    show ?thesis
    proof (cases "history = []")
      case False
      then have "last history \<in> set history" by simp
      with old le \<open>length recent \<noteq> 11\<close> show ?thesis by (blast intro: in_window_earlier)
    qed (simp add: h)
  qed
  have count: "length (filter (in_window now) (history @ [now])) =
      length (filter (in_window now) older) + length ?kept + 1" by (simp add: h now)
  have len: "length recent = length lost + length ?kept" using arg_cong [OF lost(1), of length] by simp
  show "length (next_times now recent) \<le> 10 \<longleftrightarrow> length (filter (in_window now) (history @ [now])) \<le> 10"
  proof (cases "length recent = 11 \<and> lost = []")
    case True
    with len show ?thesis unfolding count
      by (simp add: next_times_def Let_def drop kMaximumFeedbackMessagesPerSecond_def)
  next
    case False
    from gone [OF False] have "filter (in_window now) older = []" by (simp add: filter_empty_conv)
    then show ?thesis unfolding count
      by (auto simp: next_times_def Let_def drop kMaximumFeedbackMessagesPerSecond_def)
  qed
  show "window_rel (history @ [now]) (next_times now recent)"
  proof (cases "length ?kept + 1 > 11")
    case True
    then have ne: "?kept \<noteq> []" by auto
    with True have nxt: "next_times now recent = tl ?kept @ [now]"
      by (simp add: next_times_def Let_def drop kMaximumFeedbackMessagesPerSecond_def)
    have "length ?kept = 11" using True len assms(3) by linarith
    then have "length (tl ?kept @ [now]) = 11" by simp
    moreover have "history @ [now] = (older @ lost @ [hd ?kept]) @ (tl ?kept @ [now])"
      using h lost(1) ne by (metis append.assoc append_Cons append_Nil list.collapse)
    ultimately show ?thesis unfolding nxt window_rel_def by blast
  next
    case False
    then have nxt: "next_times now recent = ?kept @ [now]"
      by (auto simp: next_times_def Let_def drop kMaximumFeedbackMessagesPerSecond_def)
    have eq: "history @ [now] = (older @ lost) @ (?kept @ [now])" using h lost(1) by (metis append.assoc)
    have "length recent = 11 \<and> lost = [] \<Longrightarrow> length (?kept @ [now]) = 12" using len by auto
    with False have "\<forall>t \<in> set (older @ lost). \<not> in_window now t" using gone lost(2) by auto
    with eq show ?thesis unfolding nxt window_rel_def by (intro exI [of _ "older @ lost"]) auto
  qed
qed

lemma update_flood_fields [simp]:
  "rv_feedback_message_times (fst (update_flood_state w b now)) = rv_feedback_message_times (fst w)"
  "rv_nack_identifier_times (fst (update_flood_state w b now)) = rv_nack_identifier_times (fst w)"
  "rv_last_now (fst (update_flood_state w b now)) = rv_last_now (fst w)"
  "rv_last_idr_request (fst (update_flood_state w b now)) = rv_last_idr_request (fst w)"
  "rv_media_epoch (fst (update_flood_state w b now)) = rv_media_epoch (fst w)"
  "rv_dependency_epoch (fst (update_flood_state w b now)) = rv_dependency_epoch (fst w)"
  by (auto simp: update_flood_state_def Let_def split: prod.splits)

lemma admit_feedback_eq:
  "admit_feedback_message w now =
     (let recent = next_times now (rv_feedback_message_times (fst w));
          s = count_diag feedback_messages_update ((fst w)\<lparr>rv_feedback_message_times := recent\<rparr>)
      in if length recent \<le> 10 then (True, update_flood_state (s, snd w) False now)
         else (False, update_flood_state (count_diag ignored_feedback_messages_update s, snd w) True now))"
  by (cases w) (simp add: admit_feedback_message_def next_times_def Let_def
      kMaximumFeedbackMessagesPerSecond_def not_le)

fun feedback_answers :: "recovery_world \<Rightarrow> u64 list \<Rightarrow> bool list" where
  "feedback_answers w [] = []"
| "feedback_answers w (now # rest) =
     (case admit_feedback_message w now of (b, w') \<Rightarrow> b # feedback_answers w' rest)"

lemma feedback_answers_exact:
  assumes "window_rel history (rv_feedback_message_times (fst w))"
    and "length (rv_feedback_message_times (fst w)) \<le> 11" "sorted (history @ ts)" "i < length ts"
  shows "feedback_answers w ts ! i \<longleftrightarrow>
    length (filter (in_window (ts ! i)) (history @ take (Suc i) ts)) \<le> 10"
  using assms
proof (induction ts arbitrary: w history i)
  case (Cons now ts)
  let ?recent = "next_times now (rv_feedback_message_times (fst w))"
  have srt: "sorted (history @ [now])" "sorted ((history @ [now]) @ ts)"
    using Cons.prems(3) by (auto simp: sorted_append)
  note step = window_step [OF Cons.prems(1) srt(1) Cons.prems(2)]
  obtain b w' where adm: "admit_feedback_message w now = (b, w')"
    by (cases "admit_feedback_message w now") auto
  then have b: "b \<longleftrightarrow> length ?recent \<le> 10" and w': "rv_feedback_message_times (fst w') = ?recent"
    by (auto simp: admit_feedback_eq Let_def split: if_splits)
  show ?case
  proof (cases i)
    case 0
    then show ?thesis using step(2) b by (simp add: adm)
  next
    case (Suc j)
    have "feedback_answers w' ts ! j \<longleftrightarrow>
        length (filter (in_window (ts ! j)) ((history @ [now]) @ take (Suc j) ts)) \<le> 10"
      by (rule Cons.IH) (use step(1) w' next_times_length [OF Cons.prems(2)] srt Cons.prems(4) Suc in auto)
    then show ?thesis by (simp add: Suc adm)
  qed
qed simp

section \<open>Invariant\<close>

definition seen_by :: "u64 option \<Rightarrow> u64 \<Rightarrow> bool" where
  "seen_by latest t = (case latest of None \<Rightarrow> False | Some l \<Rightarrow> t \<le> l)"

definition recovery_ok :: "recovery_world \<Rightarrow> bool" where
  "recovery_ok w =
     (case w of (s, c) \<Rightarrow>
        cache_ok c \<and> length (rv_feedback_message_times s) \<le> 11 \<and>
        length (rv_nack_identifier_times s) \<le> 100 \<and> distinct (map fst (rv_nack_identifier_times s)) \<and>
        (\<forall>t \<in> set (rv_feedback_message_times s). seen_by (rv_last_now s) t) \<and>
        (\<forall>t \<in> snd ` set (rv_nack_identifier_times s). seen_by (rv_last_now s) t) \<and>
        (\<forall>t. rv_last_idr_request s = Some t \<longrightarrow> seen_by (rv_last_now s) t) \<and>
        (\<forall>t. rv_overload_started s = Some t \<longrightarrow> seen_by (rv_last_now s) t) \<and>
        (feedback_flood_terminated (rv_diagnostics s) \<longrightarrow> rv_stopped s))"

text \<open>The invariant in the middle of an operation at a time.\<close>

definition ok_at :: "u64 \<Rightarrow> recovery_world \<Rightarrow> bool" where
  "ok_at now w = (recovery_ok w \<and> rv_last_now (fst w) = Some now)"

lemma seen_by_simps [simp]: "seen_by (Some l) t \<longleftrightarrow> t \<le> l" "\<not> seen_by None t"
  by (simp_all add: seen_by_def)

lemma seen_by_later: "\<not> time_regressed latest now \<Longrightarrow> seen_by latest t \<Longrightarrow> t \<le> now"
  by (cases latest) auto

lemma recovery_validate_cases:
  assumes "recovery_ok w"
  obtains (regressed) "time_regressed (rv_last_now (fst w)) now"
      "recovery_validate_time w now = (Inl (Invalid_argument ''recovery feedback time moved backward''), w)"
  | (fresh) "\<not> time_regressed (rv_last_now (fst w)) now" "ok_at now ((fst w)\<lparr>rv_last_now := Some now\<rparr>, snd w)"
      "recovery_validate_time w now = (Inr (), ((fst w)\<lparr>rv_last_now := Some now\<rparr>, snd w))"
proof (cases "time_regressed (rv_last_now (fst w)) now")
  case True
  then show thesis by (intro regressed) (auto simp: recovery_validate_time_def split: prod.splits)
next
  case False
  then have "ok_at now ((fst w)\<lparr>rv_last_now := Some now\<rparr>, snd w)"
    using assms by (cases w) (auto simp: ok_at_def recovery_ok_def intro: seen_by_later)
  with False show thesis by (intro fresh) (auto simp: recovery_validate_time_def split: prod.splits)
qed

lemma update_flood_ok:
  assumes "ok_at now w"
  shows "ok_at now (update_flood_state w b now)"
  using assms
  by (cases w) (auto simp: ok_at_def recovery_ok_def update_flood_state_def Let_def cache_clear_ok
      split: option.splits)

lemma update_flood_calm [simp]:
  "snd (update_flood_state w False now) = snd w"
  "rv_stopped (fst (update_flood_state w False now)) = rv_stopped (fst w)"
  "rv_diagnostics (fst (update_flood_state w False now)) = rv_diagnostics (fst w)"
  by (cases w; simp add: update_flood_state_def)+

lemma update_flood_stopped: "rv_stopped (fst w) \<Longrightarrow> rv_stopped (fst (update_flood_state w b now))"
  by (cases w) (simp add: update_flood_state_def Let_def)

lemma next_times_seen: "t \<in> set (next_times now recent) \<Longrightarrow> t = now \<or> t \<in> set recent"
proof -
  let ?all = "dropWhile (expired_feedback now) recent @ [now]"
  assume "t \<in> set (next_times now recent)"
  moreover have "set (tl ?all) \<subseteq> set ?all" by (cases ?all) auto
  ultimately have "t \<in> set ?all" by (auto simp: next_times_def Let_def split: if_splits)
  then show ?thesis by (auto dest: set_dropWhileD)
qed

lemma admit_feedback_ok:
  assumes "ok_at now w"
  shows "ok_at now (snd (admit_feedback_message w now))"
proof -
  let ?recent = "next_times now (rv_feedback_message_times (fst w))"
  let ?s = "(fst w)\<lparr>rv_feedback_message_times := ?recent\<rparr>"
  have "length ?recent \<le> 11" using assms by (cases w) (simp add: ok_at_def recovery_ok_def next_times_length)
  moreover have "t \<le> now" if "t \<in> set ?recent" for t
    using next_times_seen [OF that] assms by (cases w) (auto simp: ok_at_def recovery_ok_def)
  ultimately have s: "ok_at now (rv_diagnostics_update f ?s, snd w)"
    if "\<And>d. feedback_flood_terminated (f d) = feedback_flood_terminated d" for f
    using assms that by (cases w) (auto simp: ok_at_def recovery_ok_def)
  show ?thesis
    by (simp add: admit_feedback_eq Let_def update_flood_ok s comp_def)
qed

text \<open>One identifier: the entries that remain, and the three outcomes.\<close>

definition recent_nacks :: "u64 \<Rightarrow> recovery_controller \<Rightarrow> (u16 \<times> u64) list" where
  "recent_nacks now s = filter (\<lambda>(_, t). \<not> expired_feedback now t) (rv_nack_identifier_times s)"

lemma recent_nacks_facts:
  assumes "ok_at now (s, c)"
  shows "length (recent_nacks now s) \<le> 100" "distinct (map fst (recent_nacks now s))"
    "\<forall>t \<in> snd ` set (recent_nacks now s). t \<le> now"
proof -
  show "length (recent_nacks now s) \<le> 100"
    unfolding recent_nacks_def by (rule le_trans [OF length_filter_le])
      (use assms in \<open>simp add: ok_at_def recovery_ok_def\<close>)
qed (use assms in \<open>auto simp: ok_at_def recovery_ok_def recent_nacks_def distinct_map_filter\<close>)

lemma rv_diagnostics_same: "rv_diagnostics_update (\<lambda>d. d) s = s"
  by simp

lemma ok_at_nacks:
  assumes "ok_at now (s, c)" "length ns \<le> 100" "distinct (map fst ns)" "\<forall>t \<in> snd ` set ns. t \<le> now"
    and "\<And>d. feedback_flood_terminated (f d) = feedback_flood_terminated d"
  shows "ok_at now (rv_diagnostics_update f (s\<lparr>rv_nack_identifier_times := ns\<rparr>), c)"
  using assms by (auto simp: ok_at_def recovery_ok_def)

lemma alist_update_times:
  assumes "\<forall>t \<in> snd ` set ns. t \<le> now"
  shows "\<forall>t \<in> snd ` set (AList.update i now ns). t \<le> (now :: u64)"
  using assms by (induction ns) auto

lemma alist_update_present: "map_of ns i \<noteq> None \<Longrightarrow> map fst (AList.update i v ns) = map fst ns"
  by (induction ns) auto

lemma admit_nack_cases:
  assumes "ok_at now (s, c)"
  obtains (admitted) s' where "admit_nack_identifier (s, c) i now = (True, (s', c))" "ok_at now (s', c)"
      "rv_stopped s' = rv_stopped s" "rv_last_idr_request s' = rv_last_idr_request s"
      "rv_media_epoch s' = rv_media_epoch s" "rv_dependency_epoch s' = rv_dependency_epoch s"
  | (limited) s' c' where "admit_nack_identifier (s, c) i now = (False, (s', c'))" "ok_at now (s', c')"
      "rv_stopped s \<Longrightarrow> rv_stopped s'" "rv_last_idr_request s' = rv_last_idr_request s"
      "rv_media_epoch s' = rv_media_epoch s" "rv_dependency_epoch s' = rv_dependency_epoch s"
      "c' = c \<or> c' = cache_clear c"
proof -
  let ?ns = "recent_nacks now s"
  note facts = recent_nacks_facts [OF assms]
  consider (old) t where "map_of ?ns i = Some t" | (full) "map_of ?ns i = None" "length ?ns \<ge> 100"
    | (new) "map_of ?ns i = None" "length ?ns < 100" by (cases "map_of ?ns i"; cases "length ?ns \<ge> 100") auto
  then show thesis
  proof cases
    case old
    let ?s = "s\<lparr>rv_nack_identifier_times := AList.update i now ?ns\<rparr>"
    have keys: "map fst (AList.update i now ?ns) = map fst ?ns" using old by (simp add: alist_update_present)
    then have "length (AList.update i now ?ns) = length ?ns" by (metis length_map)
    with keys have "ok_at now (rv_diagnostics_update (\<lambda>d. d) ?s, c)"
      using facts alist_update_times [OF facts(3)] by (intro ok_at_nacks [OF assms]) auto
    then have "ok_at now (?s, c)" unfolding rv_diagnostics_same .
    then show thesis
      by (intro admitted [of ?s]) (use old in \<open>simp_all add: admit_nack_identifier_def recent_nacks_def Let_def\<close>)
  next
    case full
    let ?s = "count_diag ignored_nack_identifiers_update (s\<lparr>rv_nack_identifier_times := ?ns\<rparr>)"
    let ?w = "update_flood_state (?s, c) True now"
    have adm: "admit_nack_identifier (s, c) i now = (False, ?w)"
      using full by (simp add: admit_nack_identifier_def recent_nacks_def Let_def
          kMaximumDistinctNackIdentifiersPerSecond_def)
    have "ok_at now (?s, c)" using facts by (intro ok_at_nacks [OF assms]) auto
    then have ok: "ok_at now ?w" by (rule update_flood_ok)
    have cache: "snd ?w = c \<or> snd ?w = cache_clear c" by (simp add: update_flood_state_def Let_def)
    show thesis
      by (rule limited [of "fst ?w" "snd ?w"])
        (use adm ok cache in \<open>simp_all add: update_flood_stopped\<close>)
  next
    case new
    let ?s = "count_diag distinct_nack_identifiers_update (s\<lparr>rv_nack_identifier_times := (i, now) # ?ns\<rparr>)"
    have "ok_at now (?s, c)"
      using facts new by (intro ok_at_nacks [OF assms]) (auto simp: map_of_eq_None_iff)
    then show thesis
      by (intro admitted [of ?s]) (use new in \<open>simp_all add: admit_nack_identifier_def recent_nacks_def
        Let_def kMaximumDistinctNackIdentifiersPerSecond_def\<close>)
  qed
qed

text \<open>A forced IDR request, in the middle of an operation and from outside.\<close>

definition idr_allowed :: "recovery_controller \<Rightarrow> u64 \<Rightarrow> bool" where
  "idr_allowed s now =
     (\<not> terminated s \<and> rv_media_epoch s \<noteq> 0 \<and> rv_dependency_epoch s \<noteq> 0 \<and>
      (\<forall>t. rv_last_idr_request s = Some t \<longrightarrow> unat t + 1000 \<le> unat now))"

lemma coalesce_iff: "t \<le> now \<Longrightarrow> now - t < kFeedbackWindowMilliseconds \<longleftrightarrow> \<not> unat t + 1000 \<le> unat now"
  by (simp add: word_less_nat_alt word_le_nat_alt elapsed_unat kFeedbackWindowMilliseconds_def) linarith

lemma request_forced_idr_at:
  assumes "ok_at now (s, c)"
  shows "\<exists>s'. request_forced_idr (s, c) now trigger = (Inr (idr_allowed s now), (s', c)) \<and> ok_at now (s', c) \<and>
    rv_last_idr_request s' = (if idr_allowed s now then Some now else rv_last_idr_request s) \<and>
    rv_stopped s' = rv_stopped s \<and>
    feedback_flood_terminated (rv_diagnostics s') = feedback_flood_terminated (rv_diagnostics s)"
proof -
  have last: "rv_last_now s = Some now" using assms by (simp add: ok_at_def)
  have same: "s\<lparr>rv_last_now := Some now\<rparr> = s" using last by simp
  have time: "recovery_validate_time (s, c) now = (Inr (), (s, c))"
    by (simp add: recovery_validate_time_def last same)
  have test: "(case rv_last_idr_request s of None \<Rightarrow> False | Some t \<Rightarrow> now - t < kFeedbackWindowMilliseconds) \<longleftrightarrow>
      \<not> (\<forall>t. rv_last_idr_request s = Some t \<longrightarrow> unat t + 1000 \<le> unat now)"
    using assms by (auto simp: ok_at_def recovery_ok_def coalesce_iff split: option.splits)
  show ?thesis
    unfolding request_forced_idr_def time and_then_simps prod.case test
    using assms by (auto simp: idr_allowed_def ok_at_def recovery_ok_def)
qed

section \<open>The NACK loop\<close>

definition wire_seq :: "plaintext_rtp_packet \<Rightarrow> u16" where
  "wire_seq p = id_wire_sequence (identity p)"

definition of_epochs :: "u64 \<Rightarrow> u64 \<Rightarrow> plaintext_rtp_packet \<Rightarrow> bool" where
  "of_epochs me de p = (id_media_epoch (identity p) = me \<and> id_dependency_epoch (identity p) = de)"

text \<open>What the loop has done with the identifiers it has seen: \<open>ret\<close> are the packets it added.\<close>

definition nack_frame ::
  "u64 \<Rightarrow> recovery_decision \<times> bool \<Rightarrow> recovery_world \<Rightarrow> recovery_decision \<times> bool \<Rightarrow> recovery_world \<Rightarrow> bool" where
  "nack_frame now acc w acc' w' =
     (ok_at now w' \<and> \<not> time_regressed (rc_last_now (snd w')) now \<and>
      request_idr_with_parameter_sets (fst acc') = request_idr_with_parameter_sets (fst acc) \<and>
      rv_last_idr_request (fst w') = rv_last_idr_request (fst w) \<and>
      rv_media_epoch (fst w') = rv_media_epoch (fst w) \<and>
      rv_dependency_epoch (fst w') = rv_dependency_epoch (fst w) \<and>
      (rv_stopped (fst w) \<longrightarrow> rv_stopped (fst w')) \<and>
      (feedback_rate_limited (fst acc) \<longrightarrow> feedback_rate_limited (fst acc')) \<and> (snd acc \<longrightarrow> snd acc'))"

definition nack_packets ::
  "u64 \<Rightarrow> u64 \<Rightarrow> u16 list \<Rightarrow> recovery_decision \<times> bool \<Rightarrow> recovery_decision \<times> bool \<Rightarrow>
     plaintext_rtp_packet list \<Rightarrow> bool" where
  "nack_packets me de ids acc acc' ret =
     (rd_retransmissions (fst acc') = rd_retransmissions (fst acc) @ ret \<and>
      subseq (map wire_seq ret) ids \<and> (\<forall>p \<in> set ret. of_epochs me de p))"

definition nack_complete ::
  "u64 \<Rightarrow> u64 \<Rightarrow> u16 list \<Rightarrow> recovery_world \<Rightarrow> recovery_decision \<times> bool \<Rightarrow> recovery_world \<Rightarrow>
     plaintext_rtp_packet list \<Rightarrow> bool" where
  "nack_complete me de ids w acc' w' ret =
     (cache_epochs (snd w) = (me, de) \<longrightarrow> \<not> feedback_rate_limited (fst acc') \<longrightarrow>
        rv_stopped (fst w') = rv_stopped (fst w) \<and> cache_epochs (snd w') = (me, de) \<and>
        (snd acc' \<or> map wire_seq ret = ids))"

lemmas nack_progress_defs = nack_frame_def nack_packets_def nack_complete_def

lemma nack_frame_trans:
  "nack_frame now acc w acc' w' \<Longrightarrow> nack_frame now acc' w' acc'' w'' \<Longrightarrow> nack_frame now acc w acc'' w''"
  by (simp add: nack_frame_def)

lemma nack_packets_trans:
  assumes "nack_packets me de [i] acc acc' ret" "nack_packets me de ids acc' acc'' ret'"
  shows "nack_packets me de (i # ids) acc acc'' (ret @ ret')"
proof -
  have "subseq (map wire_seq ret @ map wire_seq ret') ([i] @ ids)"
    using assms by (intro list_emb_append_mono) (simp_all add: nack_packets_def)
  with assms show ?thesis by (auto simp: nack_packets_def)
qed

lemma nack_complete_trans:
  assumes "nack_complete me de [i] w acc' w' ret" "nack_complete me de ids w' acc'' w'' ret'"
    and "nack_frame now acc' w' acc'' w''"
  shows "nack_complete me de (i # ids) w acc'' w'' (ret @ ret')"
  unfolding nack_complete_def
proof (intro impI)
  assume e: "cache_epochs (snd w) = (me, de)" and l: "\<not> feedback_rate_limited (fst acc'')"
  have mono: "\<not> feedback_rate_limited (fst acc')" "snd acc' \<longrightarrow> snd acc''"
    using assms(3) l by (auto simp: nack_frame_def)
  have 1: "rv_stopped (fst w') = rv_stopped (fst w)" "cache_epochs (snd w') = (me, de)"
    "snd acc' \<or> map wire_seq ret = [i]" using assms(1) e mono(1) by (auto simp: nack_complete_def)
  have 2: "rv_stopped (fst w'') = rv_stopped (fst w')" "cache_epochs (snd w'') = (me, de)"
    "snd acc'' \<or> map wire_seq ret' = ids" using assms(2) 1(2) l by (auto simp: nack_complete_def)
  from 1 2 mono(2) show "rv_stopped (fst w'') = rv_stopped (fst w) \<and> cache_epochs (snd w'') = (me, de) \<and>
      (snd acc'' \<or> map wire_seq (ret @ ret') = i # ids)" by auto
qed

lemma cache_clear_time [simp]: "rc_last_now (cache_clear c) = None"
  by (simp add: cache_clear_def)

lemma ok_at_cache: "ok_at now (s, c) \<Longrightarrow> cache_ok c"
  by (simp add: ok_at_def recovery_ok_def)

lemma ok_at_replace_cache: "ok_at now (s, c) \<Longrightarrow> cache_ok c' \<Longrightarrow> ok_at now (s, c')"
  by (auto simp: ok_at_def recovery_ok_def)

lemma nack_step:
  assumes "ok_at now (s, c)" "\<not> time_regressed (rc_last_now c) now"
  obtains acc' w' ret where "nack_frame now (d, need) (s, c) acc' w'"
    "nack_packets me de [i] (d, need) acc' ret" "nack_complete me de [i] (s, c) acc' w' ret"
    "\<forall>rest. nack_loop me de now (i # rest) (d, need) (s, c) = nack_loop me de now rest acc' w'"
  using assms(1)
proof (cases rule: admit_nack_cases [of now s c i])
  case (limited s' c')
  have "\<not> time_regressed (rc_last_now c') now" using limited(7) assms(2) by auto
  with limited have "nack_frame now (d, need) (s, c) (d\<lparr>feedback_rate_limited := True\<rparr>, need) (s', c')"
    by (simp add: nack_frame_def)
  then show thesis by (rule that [of _ _ "[]"]) (simp_all add: limited(1) nack_packets_def nack_complete_def)
next
  case (admitted s')
  have ok: "cache_ok c" using assms(1) by (rule ok_at_cache)
  obtain r where r: "fst (cache_resolve c i me de now) = Inr r"
    using cache_source.resolve_total [OF ok assms(2)] by blast
  define c' where "c' = snd (cache_resolve c i me de now)"
  have look: "cache_resolve c i me de now = (Inr r, c')" using r by (simp add: c'_def prod_eq_iff)
  have c': "cache_ok c'" "cache_epochs c' = cache_epochs c" "rc_last_now c' = Some now"
    unfolding c'_def using cache_source.resolve_ok [OF ok] cache_source.resolve_epochs [OF ok]
      cache_source.resolve_time [OF ok r] by simp_all
  note stale = cache_source.resolve_stale [OF ok r] and packet = cache_source.resolve_packet [OF ok r]
  have ok': "ok_at now (s', c')" using admitted(2) c'(1) by (rule ok_at_replace_cache)
  show thesis
  proof (cases "nl_packet r")
    case (Some p)
    have "nack_frame now (d, need) (s, c) (d\<lparr>rd_retransmissions := rd_retransmissions d @ [p]\<rparr>, need) (s', c')"
      using admitted ok' c' by (simp add: nack_frame_def)
    then show thesis
      by (rule that [of _ _ "[p]"]) (use packet [OF Some] Some admitted c' in
        \<open>simp_all add: look nack_packets_def nack_complete_def of_epochs_def wire_seq_def\<close>)
  next
    case None
    let ?need = "need \<or> nl_resolution r \<noteq> Stale_epoch"
    have frame: "nack_frame now (d, need) (s, c) (d, ?need) (s', c')"
      using admitted ok' c' by (simp add: nack_frame_def)
    have packets: "nack_packets me de [i] (d, need) (d, ?need) []" by (simp add: nack_packets_def)
    have "nack_complete me de [i] (s, c) (d, ?need) (s', c') []"
      using stale admitted c' by (simp add: nack_complete_def)
    with frame packets show thesis
      by (rule that) (use stale None in \<open>auto simp: admitted(1) look split: nack_resolution.splits\<close>)
  qed
qed

lemma nack_loop_progress:
  assumes "ok_at now w" "\<not> time_regressed (rc_last_now (snd w)) now"
  shows "\<exists>acc' w' ret. nack_loop me de now ids acc w = (Inr acc', w') \<and> nack_frame now acc w acc' w' \<and>
    nack_packets me de ids acc acc' ret \<and> nack_complete me de ids w acc' w' ret"
  using assms
proof (induction ids arbitrary: acc w)
  case Nil
  then show ?case by (auto simp: nack_progress_defs)
next
  case (Cons i ids)
  obtain d need s c where split: "acc = (d, need)" "w = (s, c)" by (cases acc; cases w) auto
  from Cons.prems have "ok_at now (s, c)" "\<not> time_regressed (rc_last_now c) now" by (simp_all add: split)
  then obtain acc' w' ret where step: "nack_frame now acc w acc' w'" "nack_packets me de [i] acc acc' ret"
    "nack_complete me de [i] w acc' w' ret"
    "\<forall>rest. nack_loop me de now (i # rest) acc w = nack_loop me de now rest acc' w'"
    unfolding split by (rule nack_step [of now s c d need me de i])
  then have "ok_at now w'" "\<not> time_regressed (rc_last_now (snd w')) now" by (simp_all add: nack_frame_def)
  from Cons.IH [OF this, of acc'] obtain acc'' w'' ret' where
    "nack_loop me de now ids acc' w' = (Inr acc'', w'')" and rest: "nack_frame now acc' w' acc'' w''"
    "nack_packets me de ids acc' acc'' ret'" "nack_complete me de ids w' acc'' w'' ret'"
    by blast
  with step nack_frame_trans [OF step(1) rest(1)] nack_packets_trans [OF step(2) rest(2)]
    nack_complete_trans [OF step(3) rest(3,1)] show ?case by metis
qed

section \<open>Any sequence of calls\<close>

text \<open>\<open>R_cache\<close> is a call of another holder of the cache (the sender and the pacer).\<close>

datatype recovery_op =
    R_begin_epoch u64 u64 u64 recovery_trigger
  | R_request_idr u64 recovery_trigger
  | R_pli u64 u64 u64
  | R_nack u64 u64 "generic_nack_field list" u64
  | R_stop
  | R_cache cache_op

fun recovery_step :: "recovery_world \<Rightarrow> recovery_op \<Rightarrow> recovery_world" where
  "recovery_step w (R_begin_epoch me de now trigger) = snd (begin_epoch w me de now trigger)"
| "recovery_step w (R_request_idr now trigger) = snd (request_forced_idr w now trigger)"
| "recovery_step w (R_pli me de now) = snd (handle_pli w me de now)"
| "recovery_step w (R_nack me de nacks now) = snd (handle_nack w me de nacks now)"
| "recovery_step w R_stop = recovery_stop w"
| "recovery_step w (R_cache op) = (fst w, cache_step (snd w) op)"

text \<open>The time at which a call asked the encoder for an IDR picture.\<close>

fun idr_grant :: "recovery_world \<Rightarrow> recovery_op \<Rightarrow> u64 option" where
  "idr_grant w (R_begin_epoch me de now trigger) =
     (case begin_epoch w me de now trigger of (Inr True, _) \<Rightarrow> Some now | _ \<Rightarrow> None)"
| "idr_grant w (R_request_idr now trigger) =
     (case request_forced_idr w now trigger of (Inr True, _) \<Rightarrow> Some now | _ \<Rightarrow> None)"
| "idr_grant w (R_pli me de now) =
     (case handle_pli w me de now of
        (Inr d, _) \<Rightarrow> if request_idr_with_parameter_sets d then Some now else None | _ \<Rightarrow> None)"
| "idr_grant w (R_nack me de nacks now) =
     (case handle_nack w me de nacks now of
        (Inr d, _) \<Rightarrow> if request_idr_with_parameter_sets d then Some now else None | _ \<Rightarrow> None)"
| "idr_grant w _ = None"

text \<open>What one call may do to the controller, and to the times of the IDR requests.\<close>

definition spaced :: "u64 option \<Rightarrow> u64 \<Rightarrow> bool" where
  "spaced previous now = (\<forall>t. previous = Some t \<longrightarrow> unat t + 1000 \<le> unat now)"

definition moves :: "recovery_world \<Rightarrow> u64 option \<Rightarrow> recovery_world \<Rightarrow> bool" where
  "moves w g w' =
     (recovery_ok w' \<and> (rv_stopped (fst w) \<longrightarrow> rv_stopped (fst w') \<and> g = None) \<and>
      (case g of
         None \<Rightarrow> rv_last_idr_request (fst w') = rv_last_idr_request (fst w)
       | Some now \<Rightarrow> rv_last_idr_request (fst w') = Some now \<and> spaced (rv_last_idr_request (fst w)) now))"

lemma moves_quiet:
  "recovery_ok w' \<Longrightarrow> (rv_stopped (fst w) \<Longrightarrow> rv_stopped (fst w')) \<Longrightarrow>
     rv_last_idr_request (fst w') = rv_last_idr_request (fst w) \<Longrightarrow> moves w None w'"
  by (simp add: moves_def)

lemma moves_after_quiet:
  "moves u g w' \<Longrightarrow> (rv_stopped (fst w) \<Longrightarrow> rv_stopped (fst u)) \<Longrightarrow>
     rv_last_idr_request (fst u) = rv_last_idr_request (fst w) \<Longrightarrow> moves w g w'"
  by (cases g) (auto simp: moves_def)

lemma request_moves:
  assumes "ok_at now u" "rv_stopped (fst w) \<Longrightarrow> rv_stopped (fst u)"
    and "rv_last_idr_request (fst u) = rv_last_idr_request (fst w)"
  shows "\<exists>b w'. request_forced_idr u now trigger = (Inr b, w') \<and> b = idr_allowed (fst u) now \<and>
    moves w (if b then Some now else None) w' \<and> ok_at now w'"
proof -
  obtain s c where u: "u = (s, c)" by (cases u)
  obtain s' where r: "request_forced_idr (s, c) now trigger = (Inr (idr_allowed s now), (s', c))"
    "ok_at now (s', c)" "rv_last_idr_request s' = (if idr_allowed s now then Some now else rv_last_idr_request s)"
    "rv_stopped s' = rv_stopped s"
    using request_forced_idr_at [of now s c trigger] assms(1) by (auto simp: u)
  have "moves u (if idr_allowed s now then Some now else None) (s', c)"
    using r by (auto simp: moves_def u ok_at_def spaced_def idr_allowed_def terminated_def)
  then have "moves w (if idr_allowed s now then Some now else None) (s', c)"
    by (rule moves_after_quiet [OF _ assms(2,3)])
  with r(1,2) show ?thesis by (simp add: u)
qed

lemma nack_loop_quiet:
  assumes "ok_at now w" "nack_loop me de now ids acc w = (res, w')"
  shows "ok_at now w' \<and> rv_last_idr_request (fst w') = rv_last_idr_request (fst w) \<and>
    (rv_stopped (fst w) \<longrightarrow> rv_stopped (fst w'))"
  using assms
proof (induction ids arbitrary: acc w)
  case (Cons i ids)
  obtain d need s c where split: "acc = (d, need)" "w = (s, c)" by (cases acc; cases w) auto
  from Cons.prems(1) have "ok_at now (s, c)" by (simp add: split)
  then show ?case
  proof (cases rule: admit_nack_cases [of now s c i])
    case (limited s' c')
    with Cons.prems(2) Cons.IH [OF limited(2)] show ?thesis by (auto simp: split)
  next
    case (admitted s')
    obtain out c' where look: "cache_resolve c i me de now = (out, c')" by (cases "cache_resolve c i me de now")
    have "cache_ok c'" using cache_resolve_ok [OF ok_at_cache [OF admitted(2)], of i me de now] look by simp
    then have ok': "ok_at now (s', c')" by (rule ok_at_replace_cache [OF admitted(2)])
    show ?thesis
    proof (cases out)
      case (Inl e)
      with Cons.prems(2) ok' admitted look show ?thesis by (auto simp: split)
    next
      case (Inr r)
      with Cons.prems(2) admitted look obtain acc' where "nack_loop me de now ids acc' (s', c') = (res, w')"
        by (auto simp: split)
      from Cons.IH [OF ok' this] admitted show ?thesis by (simp add: split)
    qed
  qed
qed simp

lemma admit_feedback_fields:
  assumes "admit_feedback_message w now = (b, w')"
  shows "rv_last_idr_request (fst w') = rv_last_idr_request (fst w)"
    "rv_media_epoch (fst w') = rv_media_epoch (fst w)" "rv_dependency_epoch (fst w') = rv_dependency_epoch (fst w)"
    "rv_stopped (fst w) \<Longrightarrow> rv_stopped (fst w')" "b \<Longrightarrow> snd w' = snd w"
    "b \<Longrightarrow> rv_stopped (fst w') = rv_stopped (fst w)"
    "b \<Longrightarrow> feedback_flood_terminated (rv_diagnostics (fst w')) = feedback_flood_terminated (rv_diagnostics (fst w))"
  using assms
  by (auto simp: admit_feedback_eq Let_def update_flood_stopped split: if_splits)

text \<open>The common beginning of \<open>handle_pli\<close> and \<open>handle_nack\<close>; \<open>body\<close> is what follows for
  feedback of the current epochs.\<close>

definition feedback_frame ::
  "(recovery_world \<Rightarrow> (recovery_decision, recovery_world) outcome) \<Rightarrow> recovery_world \<Rightarrow> u64 \<Rightarrow> u64 \<Rightarrow> u64 \<Rightarrow>
     (recovery_decision, recovery_world) outcome" where
  "feedback_frame body w me de now =
     and_then (recovery_validate_time w now) (\<lambda>_ w.
       if terminated (fst w) then (Inr (flood_verdict w new_decision), w)
       else
         case admit_feedback_message w now of
           (False, w) \<Rightarrow> (Inr (flood_verdict w (new_decision\<lparr>feedback_rate_limited := True\<rparr>)), w)
         | (True, (s, c)) \<Rightarrow>
             if me \<noteq> rv_media_epoch s \<or> de \<noteq> rv_dependency_epoch s
               then (Inr new_decision, (count_diag stale_feedback_update s, c))
             else body (s, c))"

definition pli_body :: "u64 \<Rightarrow> recovery_world \<Rightarrow> (recovery_decision, recovery_world) outcome" where
  "pli_body now w = and_then (request_feedback_idr w now Picture_loss_indication) (\<lambda>granted w.
     (Inr (new_decision\<lparr>request_idr_with_parameter_sets := granted\<rparr>), w))"

definition nack_body ::
  "u64 \<Rightarrow> u64 \<Rightarrow> generic_nack_field list \<Rightarrow> u64 \<Rightarrow> recovery_world \<Rightarrow> (recovery_decision, recovery_world) outcome" where
  "nack_body me de nacks now w =
     and_then (nack_loop me de now (expand_generic_nack nacks) (new_decision, False) w)
       (\<lambda>(decision, recovery_needed) w.
         if recovery_needed then
           and_then (request_feedback_idr w now Nack_miss) (\<lambda>granted w.
             (Inr (flood_verdict w (decision\<lparr>request_idr_with_parameter_sets := granted\<rparr>)), w))
         else (Inr (flood_verdict w decision), w))"

lemma handle_pli_frame: "handle_pli w me de now = feedback_frame (pli_body now) w me de now"
  unfolding handle_pli_def feedback_frame_def pli_body_def ..

lemma handle_nack_frame: "handle_nack w me de nacks now = feedback_frame (nack_body me de nacks now) w me de now"
  unfolding handle_nack_def feedback_frame_def nack_body_def ..

definition decision_grant :: "u64 \<Rightarrow> exn + recovery_decision \<Rightarrow> u64 option" where
  "decision_grant now res =
     (case res of Inl _ \<Rightarrow> None | Inr d \<Rightarrow> if request_idr_with_parameter_sets d then Some now else None)"

lemma decision_grant_simps [simp]:
  "decision_grant now (Inl e) = None"
  "decision_grant now (Inr d) = (if request_idr_with_parameter_sets d then Some now else None)"
  by (simp_all add: decision_grant_def)

lemma flood_verdict_fields [simp]:
  "request_idr_with_parameter_sets (flood_verdict w d) = request_idr_with_parameter_sets d"
  "rd_retransmissions (flood_verdict w d) = rd_retransmissions d"
  "feedback_rate_limited (flood_verdict w d) = feedback_rate_limited d"
  by (simp_all add: flood_verdict_def)

lemma new_decision_fields [simp]:
  "rd_retransmissions new_decision = []" "\<not> request_idr_with_parameter_sets new_decision"
  "\<not> feedback_rate_limited new_decision"
  by (simp_all add: new_decision_def)

lemma feedback_frame_moves:
  assumes "recovery_ok w"
    and body: "\<And>u. ok_at now u \<Longrightarrow> moves u (decision_grant now (fst (body u))) (snd (body u))"
  shows "moves w (decision_grant now (fst (feedback_frame body w me de now))) (snd (feedback_frame body w me de now))"
  using assms(1)
proof (cases rule: recovery_validate_cases [of w now])
  case regressed
  with assms(1) show ?thesis by (simp add: feedback_frame_def moves_quiet)
next
  case fresh
  let ?w = "((fst w)\<lparr>rv_last_now := Some now\<rparr>, snd w)"
  have ok: "recovery_ok ?w" using fresh(2) by (simp add: ok_at_def)
  show ?thesis
  proof (cases "terminated (fst ?w)")
    case True
    with fresh ok show ?thesis by (simp add: feedback_frame_def moves_quiet)
  next
    case False
    obtain b s c where adm: "admit_feedback_message ?w now = (b, (s, c))"
      by (cases "admit_feedback_message ?w now") auto
    have ok': "ok_at now (s, c)" using admit_feedback_ok [OF fresh(2)] adm by simp
    have frame: "rv_last_idr_request s = rv_last_idr_request (fst w)" "rv_stopped (fst w) \<Longrightarrow> rv_stopped s"
      using admit_feedback_fields [OF adm] by simp_all
    have quiet: "moves w None (s, c)" "moves w None (count_diag stale_feedback_update s, c)"
      using ok' frame by (auto simp: ok_at_def moves_def recovery_ok_def)
    have "moves w (decision_grant now (fst (body (s, c)))) (snd (body (s, c)))"
      by (rule moves_after_quiet [OF body [OF ok']]) (use frame in simp_all)
    then show ?thesis
      using False quiet by (cases b) (simp_all add: feedback_frame_def fresh(3) adm)
  qed
qed

lemma pli_body_moves: "ok_at now u \<Longrightarrow> moves u (decision_grant now (fst (pli_body now u))) (snd (pli_body now u))"
  using request_moves [of now u u Picture_loss_indication]
  by (auto simp: pli_body_def request_feedback_idr_def)

lemma nack_loop_keeps_request:
  "nack_loop me de now ids acc w = (Inr acc', w') \<Longrightarrow>
     request_idr_with_parameter_sets (fst acc') = request_idr_with_parameter_sets (fst acc)"
  by (induction me de now ids acc w rule: nack_loop.induct)
    (auto split: prod.splits bool.splits sum.splits nack_resolution.splits option.splits)

lemma nack_body_moves:
  assumes "ok_at now u"
  shows "moves u (decision_grant now (fst (nack_body me de nacks now u))) (snd (nack_body me de nacks now u))"
proof -
  obtain res w where loop: "nack_loop me de now (expand_generic_nack nacks) (new_decision, False) u = (res, w)"
    by (cases "nack_loop me de now (expand_generic_nack nacks) (new_decision, False) u")
  note quiet = nack_loop_quiet [OF assms loop]
  then have still: "moves u None w" by (simp add: moves_quiet ok_at_def)
  show ?thesis
  proof (cases res)
    case (Inl e)
    with still show ?thesis by (simp add: nack_body_def loop)
  next
    case (Inr acc)
    have unset: "\<not> request_idr_with_parameter_sets (fst acc)"
      using nack_loop_keeps_request loop Inr by auto
    with Inr still request_moves [of now w u Nack_miss] quiet show ?thesis
      by (cases acc) (auto simp: nack_body_def loop request_feedback_idr_def)
  qed
qed

lemma request_forced_idr_moves:
  assumes "recovery_ok w"
  shows "moves w (idr_grant w (R_request_idr now trigger)) (recovery_step w (R_request_idr now trigger))"
  using assms
proof (cases rule: recovery_validate_cases [of w now])
  case regressed
  with assms show ?thesis by (simp add: request_forced_idr_def moves_quiet)
next
  case fresh
  let ?w = "((fst w)\<lparr>rv_last_now := Some now\<rparr>, snd w)"
  have again: "recovery_validate_time ?w now = (Inr (), ?w)" by (simp add: recovery_validate_time_def)
  have "request_forced_idr w now trigger = request_forced_idr ?w now trigger"
    by (simp only: request_forced_idr_def fresh(3) again and_then_simps)
  with request_moves [OF fresh(2), of w trigger] show ?thesis by (auto split: bool.splits)
qed

text \<open>A call that starts an epoch other than the current one asks for an IDR without waiting; everything
  else is spaced.\<close>

definition starts_epoch :: "recovery_world \<Rightarrow> recovery_op \<Rightarrow> bool" where
  "starts_epoch w op =
     (case op of
        R_begin_epoch me de _ _ \<Rightarrow> me \<noteq> rv_media_epoch (fst w) \<or> de \<noteq> rv_dependency_epoch (fst w)
      | _ \<Rightarrow> False)"

lemma begin_epoch_ok:
  assumes "recovery_ok w"
  shows "recovery_ok (snd (begin_epoch w me de now trigger)) \<and>
    (rv_stopped (fst w) \<longrightarrow> rv_stopped (fst (snd (begin_epoch w me de now trigger))))"
  using assms
proof (cases rule: recovery_validate_cases [of w now])
  case regressed
  with assms show ?thesis by (simp add: begin_epoch_def)
next
  case fresh
  let ?w = "((fst w)\<lparr>rv_last_now := Some now\<rparr>, snd w)"
  show ?thesis
  proof (cases "terminated (fst ?w) \<or> me = 0 \<or> de = 0 \<or>
      \<not> (me \<noteq> rv_media_epoch (fst ?w) \<or> de \<noteq> rv_dependency_epoch (fst ?w))")
    case True
    with fresh request_moves [OF fresh(2), of w trigger] show ?thesis
      by (auto simp: begin_epoch_def ok_at_def Let_def moves_def)
  next
    case False
    then have "cache_reset_epoch (snd w) me de = (Inr (), (cache_clear (snd w))\<lparr>rc_media_epoch := me, rc_dependency_epoch := de\<rparr>)"
      by (simp add: cache_reset_epoch_def)
    moreover have "cache_ok ((cache_clear (snd w))\<lparr>rc_media_epoch := me, rc_dependency_epoch := de\<rparr>)"
      by (simp add: cache_ok_def cache_clear_def)
    ultimately show ?thesis
      using False fresh by (auto simp: begin_epoch_def Let_def ok_at_def recovery_ok_def)
  qed
qed

text \<open>With unchanged epochs it is a forced request, so it is coalesced; with new ones it records its time.\<close>

lemma begin_epoch_again:
  assumes "recovery_ok w" "\<not> starts_epoch w (R_begin_epoch me de now trigger)"
  shows "moves w (idr_grant w (R_begin_epoch me de now trigger)) (recovery_step w (R_begin_epoch me de now trigger))"
  using assms(1)
proof (cases rule: recovery_validate_cases [of w now])
  case regressed
  with assms(1) show ?thesis by (simp add: begin_epoch_def moves_quiet)
next
  case fresh
  let ?w = "((fst w)\<lparr>rv_last_now := Some now\<rparr>, snd w)"
  have same: "me = rv_media_epoch (fst w)" "de = rv_dependency_epoch (fst w)"
    using assms(2) by (simp_all add: starts_epoch_def)
  show ?thesis
  proof (cases "terminated (fst ?w) \<or> me = 0 \<or> de = 0")
    case True
    with fresh(2,3) show ?thesis by (auto simp: begin_epoch_def moves_quiet ok_at_def)
  next
    case False
    with fresh(3) same have "begin_epoch w me de now trigger = request_forced_idr ?w now trigger"
      by (simp add: begin_epoch_def)
    with request_moves [OF fresh(2), of w trigger] show ?thesis by (auto split: bool.splits)
  qed
qed

lemma begin_epoch_anew:
  assumes "recovery_ok w" "starts_epoch w (R_begin_epoch me de now trigger)"
  defines "latest \<equiv> \<lambda>w :: recovery_world. rv_last_idr_request (fst w)"
  shows "case idr_grant w (R_begin_epoch me de now trigger) of
      None \<Rightarrow> latest (recovery_step w (R_begin_epoch me de now trigger)) = latest w
    | Some t \<Rightarrow> t = now \<and> latest (recovery_step w (R_begin_epoch me de now trigger)) = Some now \<and>
        (\<forall>u. latest w = Some u \<longrightarrow> u \<le> now)"
  using assms(1)
proof (cases rule: recovery_validate_cases [of w now])
  case regressed
  then show ?thesis by (simp add: begin_epoch_def latest_def)
next
  case fresh
  let ?w = "((fst w)\<lparr>rv_last_now := Some now\<rparr>, snd w)"
  have differ: "me \<noteq> rv_media_epoch (fst w) \<or> de \<noteq> rv_dependency_epoch (fst w)"
    using assms(2) by (simp add: starts_epoch_def)
  show ?thesis
  proof (cases "terminated (fst ?w) \<or> me = 0 \<or> de = 0")
    case True
    with fresh(3) show ?thesis by (auto simp: begin_epoch_def latest_def)
  next
    case False
    then have "cache_reset_epoch (snd w) me de = (Inr (), (cache_clear (snd w))\<lparr>rc_media_epoch := me, rc_dependency_epoch := de\<rparr>)"
      by (simp add: cache_reset_epoch_def)
    moreover have "\<forall>u. latest w = Some u \<longrightarrow> u \<le> now"
      using fresh(2) by (auto simp: ok_at_def recovery_ok_def latest_def)
    ultimately show ?thesis using False fresh(3) differ by (auto simp: begin_epoch_def Let_def latest_def)
  qed
qed

lemma recovery_stop_ok: "recovery_ok w \<Longrightarrow> recovery_ok (recovery_stop w)"
  by (cases w) (auto simp: recovery_ok_def recovery_stop_def cache_clear_ok)

lemma recovery_step_moves:
  assumes "recovery_ok w" "\<not> starts_epoch w op"
  shows "moves w (idr_grant w op) (recovery_step w op)"
proof (cases op)
  case (R_begin_epoch me de now trigger)
  with begin_epoch_again [OF assms(1)] assms(2) show ?thesis by simp
next
  case (R_pli me de now)
  have "idr_grant w op = decision_grant now (fst (handle_pli w me de now))"
    by (simp add: R_pli decision_grant_def split: prod.splits sum.splits)
  with feedback_frame_moves [OF assms(1) pli_body_moves] show ?thesis
    by (simp add: R_pli handle_pli_frame)
next
  case (R_nack me de nacks now)
  have "idr_grant w op = decision_grant now (fst (handle_nack w me de nacks now))"
    by (simp add: R_nack decision_grant_def split: prod.splits sum.splits)
  with feedback_frame_moves [OF assms(1) nack_body_moves] show ?thesis
    by (simp add: R_nack handle_nack_frame)
next
  case R_stop
  with recovery_stop_ok [OF assms(1)] show ?thesis
    by (cases w) (simp add: moves_def recovery_stop_def)
next
  case (R_cache op')
  have "recovery_ok (fst w, cache_step (snd w) op')"
    using assms(1) by (cases w) (auto simp: recovery_ok_def cache_step_ok)
  then show ?thesis by (simp add: R_cache moves_def)
qed (use assms request_forced_idr_moves in auto)

lemma recovery_step_ok: "recovery_ok w \<Longrightarrow> recovery_ok (recovery_step w op)"
  using recovery_step_moves [of w op] begin_epoch_ok [of w]
  by (cases "starts_epoch w op") (auto simp: starts_epoch_def moves_def split: recovery_op.splits)

lemma recovery_step_stopped:
  "recovery_ok w \<Longrightarrow> rv_stopped (fst w) \<Longrightarrow> rv_stopped (fst (recovery_step w op))"
  using recovery_step_moves [of w op] begin_epoch_ok [of w]
  by (cases "starts_epoch w op") (auto simp: starts_epoch_def moves_def split: recovery_op.splits)

interpretation recovery: latched_machine recovery_step recovery_ok "\<lambda>w. rv_stopped (fst w)"
  by unfold_locales (blast intro: recovery_step_ok recovery_step_stopped)+

lemma new_recovery_ok: "cache_ok c \<Longrightarrow> recovery_ok (new_recovery, c)"
  by (simp add: recovery_ok_def new_recovery_def new_diagnostics_def)

text \<open>The times of the requests over a run of calls, each with whether it is the start of a new epoch.\<close>

fun idr_grants :: "recovery_world \<Rightarrow> recovery_op list \<Rightarrow> (u64 \<times> bool) list" where
  "idr_grants w [] = []"
| "idr_grants w (op # ops) =
     (case idr_grant w op of None \<Rightarrow> [] | Some now \<Rightarrow> [(now, starts_epoch w op)]) @ idr_grants (recovery_step w op) ops"

definition a_second_apart :: "u64 \<Rightarrow> u64 \<Rightarrow> bool" where
  "a_second_apart t u = (unat t + 1000 \<le> unat u)"

definition coalesced :: "u64 \<times> bool \<Rightarrow> u64 \<times> bool \<Rightarrow> bool" where
  "coalesced g g' \<longleftrightarrow> fst g \<le> fst g' \<and> (snd g' \<or> a_second_apart (fst g) (fst g'))"

lemma recovery_step_grants:
  assumes "recovery_ok w"
  shows "case idr_grant w op of
      None \<Rightarrow> rv_last_idr_request (fst (recovery_step w op)) = rv_last_idr_request (fst w)
    | Some now \<Rightarrow> rv_last_idr_request (fst (recovery_step w op)) = Some now \<and>
        (\<forall>t b. rv_last_idr_request (fst w) = Some t \<longrightarrow> coalesced (t, b) (now, starts_epoch w op))"
proof (cases "starts_epoch w op")
  case True
  then obtain me de now trigger where "op = R_begin_epoch me de now trigger"
    by (auto simp: starts_epoch_def split: recovery_op.splits)
  with begin_epoch_anew [of w me de now trigger] assms True show ?thesis
    by (auto simp: coalesced_def split: option.splits)
next
  case False
  have "a_second_apart t u \<Longrightarrow> t \<le> u" for t u by (simp add: a_second_apart_def word_le_nat_alt)
  with recovery_step_moves [OF assms False] False show ?thesis
    by (auto simp: moves_def spaced_def coalesced_def a_second_apart_def split: option.splits)
qed

lemma idr_grants_spaced:
  assumes "recovery_ok w"
  shows "sorted_wrt coalesced (idr_grants w ops) \<and>
    (\<forall>t b. rv_last_idr_request (fst w) = Some t \<longrightarrow> (\<forall>g \<in> set (idr_grants w ops). coalesced (t, b) g))"
  using assms
proof (induction ops arbitrary: w)
  case (Cons op ops)
  let ?w = "recovery_step w op"
  note m = recovery_step_grants [OF Cons.prems, of op]
  have IH: "sorted_wrt coalesced (idr_grants ?w ops)"
    "\<And>t b g. rv_last_idr_request (fst ?w) = Some t \<Longrightarrow> g \<in> set (idr_grants ?w ops) \<Longrightarrow> coalesced (t, b) g"
    using Cons.IH [of ?w] recovery_step_ok [OF Cons.prems, of op] by auto
  show ?case
  proof (cases "idr_grant w op")
    case None
    with m IH show ?thesis by simp
  next
    case (Some now)
    with m have now: "rv_last_idr_request (fst ?w) = Some now"
      "\<And>t b. rv_last_idr_request (fst w) = Some t \<Longrightarrow> coalesced (t, b) (now, starts_epoch w op)" by simp_all
    have later: "coalesced (now, b) g" if "g \<in> set (idr_grants ?w ops)" for b g
      using IH(2) [OF now(1) that] .
    have chain: "coalesced (t, b) g" if "coalesced (t, b) (now, b')" "coalesced (now, b') g" for t b b' g
      using that by (auto simp: coalesced_def a_second_apart_def word_le_nat_alt)
    have "coalesced (t, b) g" if "rv_last_idr_request (fst w) = Some t" "g \<in> set (idr_grants ?w ops)" for t b g
      using chain [OF now(2) [OF that(1)] later [OF that(2)]] .
    with IH(1) now(2) later Some show ?thesis by simp
  qed
qed simp

section \<open>Answering a NACK\<close>

text \<open>Every identifier is dealt with, unless the session is over or rate limited: all the packets
  are sent again, or an IDR picture is asked for now, or one was less than a second ago.\<close>

definition nack_dealt_with :: "recovery_controller \<Rightarrow> u64 \<Rightarrow> u16 list \<Rightarrow> recovery_decision \<Rightarrow> bool" where
  "nack_dealt_with s now ids d =
     (feedback_rate_limited d \<or> map wire_seq (rd_retransmissions d) = ids \<or>
      request_idr_with_parameter_sets d \<or>
      (\<exists>t. rv_last_idr_request s = Some t \<and> \<not> a_second_apart t now))"

definition session_live :: "u64 \<Rightarrow> u64 \<Rightarrow> recovery_world \<Rightarrow> bool" where
  "session_live me de w =
     (\<not> rv_stopped (fst w) \<and> rv_media_epoch (fst w) = me \<and> rv_dependency_epoch (fst w) = de \<and>
      me \<noteq> 0 \<and> de \<noteq> 0 \<and> cache_epochs (snd w) = (me, de))"

lemma nack_body_answers:
  assumes "ok_at now u" "\<not> time_regressed (rc_last_now (snd u)) now"
  shows "\<exists>d w'. nack_body me de nacks now u = (Inr d, w') \<and> recovery_ok w' \<and>
    subseq (map wire_seq (rd_retransmissions d)) (expand_generic_nack nacks) \<and>
    (\<forall>p \<in> set (rd_retransmissions d). of_epochs me de p) \<and>
    (session_live me de u \<longrightarrow> nack_dealt_with (fst u) now (expand_generic_nack nacks) d)"
proof -
  let ?ids = "expand_generic_nack nacks"
  obtain d need w' ret where loop: "nack_loop me de now ?ids (new_decision, False) u = (Inr (d, need), w')"
    and frame: "nack_frame now (new_decision, False) u (d, need) w'"
    and packets: "nack_packets me de ?ids (new_decision, False) (d, need) ret"
    and complete: "nack_complete me de ?ids u (d, need) w' ret"
    using nack_loop_progress [OF assms, of me de ?ids "(new_decision, False)"] by auto
  have ret: "rd_retransmissions d = ret" using packets by (simp add: nack_packets_def)
  have ok: "ok_at now w'" using frame by (simp add: nack_frame_def)
  obtain b w'' where idr: "request_forced_idr w' now Nack_miss = (Inr b, w'')" "b = idr_allowed (fst w') now"
    "ok_at now w''" using request_moves [OF ok, of w' Nack_miss] by auto
  have live: "need \<longrightarrow> b \<or> (\<exists>t. rv_last_idr_request (fst u) = Some t \<and> \<not> a_second_apart t now)"
    if "session_live me de u" "\<not> feedback_rate_limited d"
  proof -
    have "\<not> rv_stopped (fst w')" using complete that by (auto simp: nack_complete_def session_live_def)
    moreover have "feedback_flood_terminated (rv_diagnostics (fst w')) \<longrightarrow> rv_stopped (fst w')"
      using ok by (cases w') (simp add: ok_at_def recovery_ok_def)
    moreover have "rv_media_epoch (fst w') \<noteq> 0" "rv_dependency_epoch (fst w') \<noteq> 0"
      "rv_last_idr_request (fst w') = rv_last_idr_request (fst u)"
      using frame that(1) by (simp_all add: nack_frame_def session_live_def)
    ultimately show ?thesis unfolding idr(2) idr_allowed_def terminated_def a_second_apart_def by auto
  qed
  have full: "need \<or> map wire_seq ret = ?ids" if "session_live me de u" "\<not> feedback_rate_limited d"
    using complete that by (simp add: nack_complete_def session_live_def)
  have sub: "subseq (map wire_seq ret) ?ids" "\<forall>p \<in> set ret. of_epochs me de p"
    using packets by (simp_all add: nack_packets_def)
  show ?thesis
  proof (cases need)
    case True
    then have "nack_body me de nacks now u =
        (Inr (flood_verdict w'' (d\<lparr>request_idr_with_parameter_sets := b\<rparr>)), w'')"
      by (simp add: nack_body_def loop request_feedback_idr_def idr(1))
    with True idr(3) sub live ret show ?thesis by (auto simp: ok_at_def nack_dealt_with_def)
  next
    case False
    then have "nack_body me de nacks now u = (Inr (flood_verdict w' d), w')"
      by (simp add: nack_body_def loop)
    with False ok sub full ret show ?thesis by (auto simp: ok_at_def nack_dealt_with_def)
  qed
qed

lemma handle_nack_answers:
  assumes "recovery_ok w" "\<not> time_regressed (rv_last_now (fst w)) now"
    "\<not> time_regressed (rc_last_now (snd w)) now"
  shows "\<exists>d w'. handle_nack w me de nacks now = (Inr d, w') \<and> recovery_ok w' \<and>
    subseq (map wire_seq (rd_retransmissions d)) (expand_generic_nack nacks) \<and>
    (\<forall>p \<in> set (rd_retransmissions d). of_epochs me de p) \<and>
    (session_live me de w \<longrightarrow> nack_dealt_with (fst w) now (expand_generic_nack nacks) d)"
  using assms(1)
proof (cases rule: recovery_validate_cases [of w now])
  case fresh
  let ?w = "((fst w)\<lparr>rv_last_now := Some now\<rparr>, snd w)"
  have ok: "recovery_ok ?w" using fresh(2) by (simp add: ok_at_def)
  show ?thesis
  proof (cases "terminated (fst ?w)")
    case True
    moreover have "\<not> session_live me de w"
      using True ok by (auto simp: terminated_def session_live_def recovery_ok_def)
    ultimately show ?thesis using ok by (simp add: handle_nack_frame feedback_frame_def fresh(3))
  next
    case False
    obtain b s c where adm: "admit_feedback_message ?w now = (b, (s, c))"
      by (cases "admit_feedback_message ?w now") auto
    have ok': "ok_at now (s, c)" using admit_feedback_ok [OF fresh(2)] adm by simp
    note fields = admit_feedback_fields [OF adm]
    show ?thesis
    proof (cases "b \<and> me = rv_media_epoch s \<and> de = rv_dependency_epoch s")
      case True
      then have body: "handle_nack w me de nacks now = nack_body me de nacks now (s, c)"
        using False by (simp add: handle_nack_frame feedback_frame_def fresh(3) adm)
      have "session_live me de w \<longrightarrow> session_live me de (s, c)"
        "nack_dealt_with s now = nack_dealt_with (fst w) now"
        using fields True by (auto simp: session_live_def nack_dealt_with_def fun_eq_iff)
      moreover have "\<not> time_regressed (rc_last_now c) now" using assms(3) fields(5) True by simp
      ultimately show ?thesis
        unfolding body using nack_body_answers [OF ok', of me de nacks] by auto
    next
      case other: False
      have "recovery_ok (s, c)" "recovery_ok (count_diag stale_feedback_update s, c)"
        using ok' by (auto simp: ok_at_def recovery_ok_def)
      moreover have "b \<Longrightarrow> \<not> session_live me de w"
        using other fields by (auto simp: session_live_def)
      ultimately show ?thesis
        using False other by (cases b)
          (auto simp: handle_nack_frame feedback_frame_def fresh(3) adm nack_dealt_with_def)
    qed
  qed
qed (use assms(2) in simp)

section \<open>Properties\<close>

text \<open>Expanding generic NACK fields yields each requested identifier once: the
  packet id and, for every set bit of the 16-bit mask, the id that far behind it, modulo 16 bits.\<close>

lemma expand_generic_nack_exact:
  "distinct (expand_generic_nack nacks) \<and>
   set (expand_generic_nack nacks) = (\<Union>f \<in> set nacks. requested f)"
  using expand_fold [of "[]" nacks] by (simp add: expand_generic_nack_def)

text \<open>The bounded deque decides exactly like a full history: with times that do
  not run backwards, a feedback message is admitted if and only if it is among at most ten messages,
  refused ones included, of the last 1000 ms.\<close>

lemma feedback_rate_limit_exact:
  assumes "rv_feedback_message_times (fst w) = []" "sorted ts" "i < length ts"
  shows "feedback_answers w ts ! i \<longleftrightarrow> length (filter (in_window (ts ! i)) (take (Suc i) ts)) \<le> 10"
proof -
  have "window_rel [] []" by (simp add: window_rel_def)
  with feedback_answers_exact [of "[]" w ts i] assms show ?thesis by simp
qed

lemma feedback_rate_limit_exact_witness:
  "feedback_answers (new_recovery, new_cache) [5, 7] ! 1"
proof -
  have "length (filter (in_window 7) [5, 7]) \<le> 10" by (simp add: in_window_def)
  with feedback_rate_limit_exact [of "(new_recovery, new_cache)" "[5, 7]" 1] show ?thesis
    by (simp add: new_recovery_def del: feedback_answers.simps)
qed

text \<open>Whatever the sequence of calls, on the controller and by other holders of the
  cache, at most eleven message times and one hundred distinct identifiers are kept, the shared
  cache keeps its invariant, and a session terminated for flooding is stopped.\<close>

lemma recovery_controller_invariant:
  "recovery_ok (foldl recovery_step (new_recovery, new_cache) ops)"
  by (rule recovery.run_inv [OF new_recovery_ok [OF new_cache_ok]])

text \<open>C27 (safety). Over any sequence of calls (beginnings of epochs, forced requests, PLI and NACK
  feedback, stops and cache traffic, calls that throw included) the requests for an IDR picture never
  run backwards, and each comes at least one second after every earlier one, whatever that one was
  for. The only exception is a request that itself starts an epoch other than the current one;
  beginning the current epoch again is no exception.\<close>

theorem idr_requests_coalesced:
  assumes "recovery_ok w"
  shows "sorted_wrt coalesced (idr_grants w ops)"
  using idr_grants_spaced [OF assms] by blast

text \<open>Epoch (1, 1) starts at 0 and is begun again at 500, which is coalesced; a PLI at 1500 asks; epoch (2, 1)
  starts at 1600 and asks at once; a PLI at 2000 is coalesced with that; beginning (2, 1) again at 2600 asks.\<close>

theorem idr_requests_coalesced_witness:
  "let ops = [R_begin_epoch 1 1 0 Startup, R_begin_epoch 1 1 500 Recorder_armed, R_pli 1 1 1500,
              R_begin_epoch 2 1 1600 Resume, R_pli 2 1 2000, R_begin_epoch 2 1 2600 Recorder_armed]
   in idr_grants (new_recovery, new_cache) ops = [(0, True), (1500, False), (1600, True), (2600, False)] \<and>
      sorted_wrt coalesced (idr_grants (new_recovery, new_cache) ops)"
proof -
  let ?ops = "[R_begin_epoch 1 1 0 Startup, R_begin_epoch 1 1 500 Recorder_armed, R_pli 1 1 1500,
              R_begin_epoch 2 1 1600 Resume, R_pli 2 1 2000, R_begin_epoch 2 1 2600 Recorder_armed]"
  have "idr_grants (new_recovery, new_cache) ?ops = [(0, True), (1500, False), (1600, True), (2600, False)]"
    by code_simp
  then show ?thesis
    using idr_requests_coalesced [OF new_recovery_ok [OF new_cache_ok], of ?ops] by (simp only: Let_def simp_thms)
qed

text \<open>A stopped controller stays stopped and silent: after any further calls, PLI and
  NACK feedback yields no retransmission and no IDR request.\<close>

lemma stopped_controller_silent:
  fixes ops :: "recovery_op list"
  assumes "recovery_ok w" "rv_stopped (fst w)"
  defines "w' \<equiv> foldl recovery_step w ops"
  assumes "fst (handle_nack w' me de nacks now) = Inr d \<or> fst (handle_pli w' me de now) = Inr d"
  shows "rd_retransmissions d = [] \<and> \<not> request_idr_with_parameter_sets d"
proof -
  have w': "recovery_ok w'" "rv_stopped (fst w')"
    unfolding w'_def using assms(1,2) by (auto intro: recovery.run_inv recovery.run_latched)
  have silent: "rd_retransmissions d' = [] \<and> \<not> request_idr_with_parameter_sets d'"
    if "fst (feedback_frame body w' me de now) = Inr d'" for body d'
    using w'(1)
  proof (cases rule: recovery_validate_cases [of w' now])
    case regressed
    with that show ?thesis by (simp add: feedback_frame_def)
  next
    case fresh
    with that w'(2) show ?thesis by (auto simp: feedback_frame_def terminated_def)
  qed
  from assms(4) silent show ?thesis unfolding handle_nack_frame handle_pli_frame by blast
qed

lemma stopped_controller_silent_witness:
  "\<exists>d. fst (handle_pli (recovery_stop (new_recovery, new_cache)) 1 1 5) = Inr d \<and> rd_retransmissions d = []"
proof -
  let ?w = "recovery_stop (new_recovery, new_cache)"
  have "recovery_ok ?w" by (rule recovery_stop_ok [OF new_recovery_ok [OF new_cache_ok]])
  moreover have "rv_stopped (fst ?w)" by (simp add: recovery_stop_def)
  moreover have "\<exists>d. fst (handle_pli ?w 1 1 5) = Inr d"
    by (simp add: handle_pli_def recovery_validate_time_def recovery_stop_def new_recovery_def terminated_def)
  ultimately show ?thesis using stopped_controller_silent [of ?w "[]" 1 1 _ 5] by auto
qed

text \<open>C26 (functional). Feedback at a time that does not run backwards for the controller or the
  cache is always answered, never by an exception. The identifiers requested are, in order and each
  where it occurs first, the packet id of every field and the ids one to sixteen behind it whose bit
  is set in its mask; the packets sent again are packets of exactly the requested epochs, for some of
  these identifiers, in their order and at most once each.\<close>

theorem handle_nack_sound:
  assumes "recovery_ok w" "\<not> time_regressed (rv_last_now (fst w)) now"
    "\<not> time_regressed (rc_last_now (snd w)) now"
  shows "\<exists>d w'. handle_nack w me de nacks now = (Inr d, w') \<and> recovery_ok w' \<and>
    expand_generic_nack nacks = first_occurrences (concat (map requested_ids nacks)) \<and>
    subseq (map wire_seq (rd_retransmissions d)) (first_occurrences (concat (map requested_ids nacks))) \<and>
    distinct (map wire_seq (rd_retransmissions d)) \<and>
    set (map wire_seq (rd_retransmissions d)) \<subseteq> (\<Union>f \<in> set nacks. requested f) \<and>
    (\<forall>p \<in> set (rd_retransmissions d). of_epochs me de p)"
proof -
  let ?ids = "first_occurrences (concat (map requested_ids nacks))"
  obtain d w' where d: "handle_nack w me de nacks now = (Inr d, w')" "recovery_ok w'"
      "subseq (map wire_seq (rd_retransmissions d)) ?ids" "\<forall>p \<in> set (rd_retransmissions d). of_epochs me de p"
    using handle_nack_answers [OF assms] unfolding expand_order by blast
  have "distinct (map wire_seq (rd_retransmissions d))"
    using d(3) by (auto simp: subseq_conv_nths distinct_nthsI)
  moreover have "set (map wire_seq (rd_retransmissions d)) \<subseteq> (\<Union>f \<in> set nacks. requested f)"
  proof -
    have "set (map wire_seq (rd_retransmissions d)) \<subseteq> set ?ids"
      using d(3) by (metis subseq_conv_nths set_nths_subset)
    then show ?thesis by (simp add: requested_ids_set)
  qed
  ultimately show ?thesis using d expand_order by blast
qed

theorem handle_nack_sound_witness:
  "\<exists>d w'. handle_nack (new_recovery, new_cache) 1 1
      [\<lparr>packet_id = 65535, lost_packet_bitmask = 5\<rparr>, \<lparr>packet_id = 0, lost_packet_bitmask = 1\<rparr>] 5 = (Inr d, w') \<and>
     subseq (map wire_seq (rd_retransmissions d)) [65535, 0, 2, 1]"
proof -
  have "rv_last_now new_recovery = None" "rc_last_now new_cache = None"
    by (simp_all add: new_recovery_def new_cache_def)
  moreover have "first_occurrences (concat (map requested_ids
      [\<lparr>packet_id = 65535, lost_packet_bitmask = 5\<rparr>, \<lparr>packet_id = 0, lost_packet_bitmask = 1\<rparr>])) = [65535, 0, 2, 1]"
    by code_simp
  ultimately show ?thesis
    using handle_nack_sound [OF new_recovery_ok [OF new_cache_ok], of 5 1 1
      "[\<lparr>packet_id = 65535, lost_packet_bitmask = 5\<rparr>, \<lparr>packet_id = 0, lost_packet_bitmask = 1\<rparr>]"] by auto
qed

text \<open>C9 (liveness). No reported loss is ignored: in a live session whose controller and cache are
  in the epochs of the feedback, a NACK that is not rate limited either has every requested packet
  sent again, or asks for an IDR picture, or finds one asked for less than a second ago.\<close>

theorem handle_nack_recovers:
  assumes "recovery_ok w" "\<not> time_regressed (rv_last_now (fst w)) now"
    "\<not> time_regressed (rc_last_now (snd w)) now" "session_live me de w"
  shows "\<exists>d w'. handle_nack w me de nacks now = (Inr d, w') \<and>
    (feedback_rate_limited d \<or> map wire_seq (rd_retransmissions d) = expand_generic_nack nacks \<or>
     request_idr_with_parameter_sets d \<or>
     (\<exists>t. rv_last_idr_request (fst w) = Some t \<and> \<not> a_second_apart t now))"
  using handle_nack_answers [OF assms(1-3)] assms(4) unfolding nack_dealt_with_def by blast

lemma sample_session:
  defines "w \<equiv> snd (begin_epoch (new_recovery, new_cache) 1 1 0 Startup)"
  shows "recovery_ok w" "rv_last_now (fst w) = Some 0" "rc_last_now (snd w) = None"
    "rv_last_idr_request (fst w) = Some 0" "session_live 1 1 w"
  unfolding w_def
proof -
  show "recovery_ok (snd (begin_epoch (new_recovery, new_cache) 1 1 0 Startup))"
    using begin_epoch_ok [OF new_recovery_ok [OF new_cache_ok]] by blast
qed (simp_all add: begin_epoch_def recovery_validate_time_def new_recovery_def new_cache_def
    new_diagnostics_def terminated_def cache_reset_epoch_def cache_clear_def session_live_def cache_epochs_def Let_def)

theorem handle_nack_recovers_witness:
  "\<exists>d w'. handle_nack (snd (begin_epoch (new_recovery, new_cache) 1 1 0 Startup)) 1 1
     [\<lparr>packet_id = 7, lost_packet_bitmask = 0\<rparr>] 1500 = (Inr d, w') \<and>
     (feedback_rate_limited d \<or> map wire_seq (rd_retransmissions d) = [7] \<or> request_idr_with_parameter_sets d)"
proof -
  have ids: "expand_generic_nack [\<lparr>packet_id = 7, lost_packet_bitmask = 0\<rparr>] = [7]"
    by (simp add: expand_generic_nack_def expand_field_def push_unseen_def upt_rec)
  from handle_nack_recovers [OF sample_session(1) _ _ sample_session(5), of 1500
      "[\<lparr>packet_id = 7, lost_packet_bitmask = 0\<rparr>]"]
  show ?thesis by (simp add: sample_session(2-4) ids a_second_apart_def)
qed

end
