(* ===== verification/Binary64.thy ===== *)
theory Binary64
  imports Complex_Main Prelude "HOL-Library.Log_Nat"
begin

text \<open>
  The C++ type \<open>double\<close>: IEEE 754 binary64 with rounding to nearest, ties to even, over rational
  numbers, with overflow to infinity, gradual underflow and NaN. The sign of a zero is not kept:
  the modelled code divides by no variable that can be zero and never prints a negative value, so
  nothing observes it; a negative zero handed in by a caller is identified with zero. \<open>std::min\<close>, \<open>std::max\<close> and the comparisons treat NaN as C++ does.
\<close>

section \<open>Rounding\<close>

definition round_half_even :: "rat \<Rightarrow> int" where
  "round_half_even x =
     (let f = \<lfloor>x\<rfloor>; d = x - of_int f
      in if d < 1 / 2 \<or> d = 1 / 2 \<and> even f then f else f + 1)"

text \<open>The exponent of the leading bit of a positive number.\<close>

definition binade :: "rat \<Rightarrow> int" where
  "binade x =
     (case quotient_of x of
        (p, q) \<Rightarrow>
          let k = int (floorlog 2 (nat p)) - int (floorlog 2 (nat q))
          in if 2 powi k \<le> x then k else k - 1)"

definition ulp_of :: "rat \<Rightarrow> rat" where
  "ulp_of x = 2 powi (max (binade \<bar>x\<bar> - 52) (- 1074))"

definition rounded :: "rat \<Rightarrow> rat" where
  "rounded x = (if x = 0 then 0 else of_int (round_half_even (x / ulp_of x)) * ulp_of x)"

datatype double = Fin rat | Infinite bool | NaN

definition round_double :: "rat \<Rightarrow> double" where
  "round_double x =
     (let r = rounded x in if \<bar>r\<bar> \<ge> 2 ^ 1024 then Infinite (r < 0) else Fin r)"

section \<open>Operations\<close>

definition d_isfinite :: "double \<Rightarrow> bool" where
  "d_isfinite x = (case x of Fin _ \<Rightarrow> True | _ \<Rightarrow> False)"

fun d_neg :: "double \<Rightarrow> double" where
  "d_neg (Fin a) = Fin (- a)"
| "d_neg (Infinite s) = Infinite (\<not> s)"
| "d_neg NaN = NaN"

fun d_add :: "double \<Rightarrow> double \<Rightarrow> double" where
  "d_add (Fin a) (Fin b) = round_double (a + b)"
| "d_add (Infinite s) (Infinite t) = (if s = t then Infinite s else NaN)"
| "d_add NaN y = NaN"
| "d_add x NaN = NaN"
| "d_add (Infinite s) y = Infinite s"
| "d_add x (Infinite t) = Infinite t"

definition d_sub :: "double \<Rightarrow> double \<Rightarrow> double" where
  "d_sub x y = d_add x (d_neg y)"

fun d_mul :: "double \<Rightarrow> double \<Rightarrow> double" where
  "d_mul (Fin a) (Fin b) = round_double (a * b)"
| "d_mul (Infinite s) (Infinite t) = Infinite (s \<noteq> t)"
| "d_mul NaN y = NaN"
| "d_mul x NaN = NaN"
| "d_mul (Infinite s) (Fin b) = (if b = 0 then NaN else Infinite (s \<noteq> (b < 0)))"
| "d_mul (Fin a) (Infinite t) = (if a = 0 then NaN else Infinite (t \<noteq> (a < 0)))"

fun d_div :: "double \<Rightarrow> double \<Rightarrow> double" where
  "d_div (Fin a) (Fin b) =
     (if b \<noteq> 0 then round_double (a / b) else if a = 0 then NaN else Infinite (a < 0))"
| "d_div (Infinite s) (Infinite t) = NaN"
| "d_div NaN y = NaN"
| "d_div x NaN = NaN"
| "d_div (Infinite s) (Fin b) = Infinite (s \<noteq> (b < 0))"
| "d_div (Fin a) (Infinite t) = Fin 0"

fun d_less :: "double \<Rightarrow> double \<Rightarrow> bool" where
  "d_less (Fin a) (Fin b) = (a < b)"
| "d_less (Infinite s) (Infinite t) = (s \<and> \<not> t)"
| "d_less (Infinite s) (Fin b) = s"
| "d_less (Fin a) (Infinite t) = (\<not> t)"
| "d_less NaN y = False"
| "d_less x NaN = False"

definition d_equal :: "double \<Rightarrow> double \<Rightarrow> bool" where
  "d_equal x y = (x = y \<and> x \<noteq> NaN)"

definition d_le :: "double \<Rightarrow> double \<Rightarrow> bool" where
  "d_le x y = (d_less x y \<or> d_equal x y)"

definition d_min :: "double \<Rightarrow> double \<Rightarrow> double" where
  "d_min x y = (if d_less y x then y else x)"

definition d_max :: "double \<Rightarrow> double \<Rightarrow> double" where
  "d_max x y = (if d_less x y then y else x)"

definition d_of_nat :: "nat \<Rightarrow> double" where
  "d_of_nat n = round_double (of_nat n)"

definition d_of_u64 :: "u64 \<Rightarrow> double" where
  "d_of_u64 x = d_of_nat (unat x)"

section \<open>Accuracy\<close>

lemma round_half_even_error: "\<bar>of_int (round_half_even x) - x\<bar> \<le> 1 / 2"
proof -
  have "of_int \<lfloor>x\<rfloor> \<le> x" "x < of_int \<lfloor>x\<rfloor> + 1" by linarith+
  then show ?thesis by (auto simp: round_half_even_def Let_def abs_le_iff)
qed

lemma round_half_even_int [simp]: "round_half_even (of_int n) = n"
  by (simp add: round_half_even_def)

lemma round_half_even_nonneg: "0 \<le> x \<Longrightarrow> 0 \<le> round_half_even x"
  by (simp add: round_half_even_def Let_def)

lemma of_nat_lt_power: "n < 2 ^ k \<Longrightarrow> (of_nat n :: rat) < 2 ^ k"
  by (metis of_nat_less_iff of_nat_numeral of_nat_power)

lemma of_nat_ge_power: "2 ^ k \<le> n \<Longrightarrow> 2 ^ k \<le> (of_nat n :: rat)"
  by (metis of_nat_le_iff of_nat_numeral of_nat_power)

lemma floorlog_2_bounds:
  assumes "0 < n"
  shows "2 powi (int (floorlog 2 n) - 1) \<le> (of_nat n :: rat)" "(of_nat n :: rat) < 2 powi int (floorlog 2 n)"
proof -
  define b where "b = floorlog 2 n"
  have "b \<noteq> 0" using assms by (simp add: b_def floorlog_def)
  then have b1: "int b - 1 = int (b - 1)" by simp
  have "2 ^ (b - 1) \<le> n \<and> n < 2 ^ b" unfolding b_def by (rule floorlog_bounds [OF assms]) simp
  then have "(2 :: rat) ^ (b - 1) \<le> of_nat n" "(of_nat n :: rat) < 2 ^ b"
    using of_nat_lt_power [of n b] of_nat_ge_power [of "b - 1" n] by blast+
  then show "2 powi (int (floorlog 2 n) - 1) \<le> (of_nat n :: rat)"
    "(of_nat n :: rat) < 2 powi int (floorlog 2 n)"
    unfolding b_def [symmetric] b1 power_int_of_nat .
qed

lemma binade_bounds:
  assumes "0 < x"
  shows "2 powi binade x \<le> x" "x < 2 powi (binade x + 1)"
proof -
  obtain p q where pq: "quotient_of x = (p, q)" by (cases "quotient_of x")
  then have q: "0 < q" and x: "x = of_int p / of_int q"
    using quotient_of_denom_pos quotient_of_div by auto
  with assms have p: "0 < p" by (simp add: zero_less_divide_iff)
  let ?a = "int (floorlog 2 (nat p))" and ?b = "int (floorlog 2 (nat q))"
  have P: "2 powi (?a - 1) \<le> (of_int p :: rat)" "(of_int p :: rat) < 2 powi ?a"
    and Q: "2 powi (?b - 1) \<le> (of_int q :: rat)" "(of_int q :: rat) < 2 powi ?b"
    using floorlog_2_bounds [of "nat p"] floorlog_2_bounds [of "nat q"] p q by simp_all
  have pos: "(0 :: rat) < 2 powi i" for i by simp
  have up: "x < 2 powi (?a - ?b + 1)"
  proof -
    have "x < 2 powi ?a / 2 powi (?b - 1)"
      unfolding x using P(2) Q(1) p q pos by (intro frac_less) auto
    also have "(2 :: rat) powi ?a / 2 powi (?b - 1) = 2 powi (?a - (?b - 1))"
      by (simp add: power_int_diff)
    finally show ?thesis by (simp add: algebra_simps)
  qed
  have low: "2 powi (?a - ?b - 1) < x"
  proof -
    have "(2 :: rat) powi (?a - ?b - 1) = 2 powi (?a - 1) / 2 powi ?b"
      using power_int_diff [of "2 :: rat" "?a - 1" ?b] by (simp add: algebra_simps)
    also have "\<dots> < x" unfolding x using P(1) Q(2) p q pos by (intro frac_less2) auto
    finally show ?thesis .
  qed
  have "binade x = (if 2 powi (?a - ?b) \<le> x then ?a - ?b else ?a - ?b - 1)"
    by (simp add: binade_def pq Let_def)
  then show "2 powi binade x \<le> x" "x < 2 powi (binade x + 1)"
    using up low by (auto simp: algebra_simps)
qed

lemma ulp_pos: "0 < ulp_of x"
  by (simp add: ulp_of_def)

lemma ulp_bound:
  assumes "x \<noteq> 0"
  shows "ulp_of x \<le> max (\<bar>x\<bar> * 2 powi (- 52)) (2 powi (- 1074))"
proof -
  have "(2 :: rat) powi (binade \<bar>x\<bar> - 52) = 2 powi binade \<bar>x\<bar> * 2 powi (- 52)"
    using power_int_add [of "2 :: rat" "binade \<bar>x\<bar>" "- 52"] by simp
  also have "\<dots> \<le> \<bar>x\<bar> * 2 powi (- 52)"
    using binade_bounds(1) [of "\<bar>x\<bar>"] assms by (intro mult_right_mono) auto
  finally show ?thesis by (auto simp: ulp_of_def max_def)
qed

text \<open>The error of a rounding is at most half a unit in the last place.\<close>

lemma rounded_error: "\<bar>rounded x - x\<bar> \<le> max (\<bar>x\<bar> * 2 powi (- 52)) (2 powi (- 1074)) / 2"
proof (cases "x = 0")
  case False
  let ?u = "ulp_of x"
  have "rounded x - x = (of_int (round_half_even (x / ?u)) - x / ?u) * ?u"
    using False ulp_pos [of x] by (simp add: rounded_def field_simps)
  then have "\<bar>rounded x - x\<bar> = \<bar>of_int (round_half_even (x / ?u)) - x / ?u\<bar> * ?u"
    using ulp_pos [of x] by (simp add: abs_mult)
  also have "\<dots> \<le> 1 / 2 * ?u"
    using round_half_even_error ulp_pos [of x] by (intro mult_right_mono) auto
  finally show ?thesis using ulp_bound [OF False] by simp
qed (simp add: rounded_def)

lemma rounded_nonneg: "0 \<le> x \<Longrightarrow> 0 \<le> rounded x"
  using ulp_pos [of x] by (simp add: rounded_def round_half_even_nonneg)

lemma rounded_0 [simp]: "rounded 0 = 0"
  by (simp add: rounded_def)

lemma powi_less_imp: "(2 :: rat) powi i < 2 powi j \<Longrightarrow> i < j"
  by (rule ccontr) (simp add: not_less power_int_increasing leD)

text \<open>Integers of at most 53 bits are exact.\<close>

lemma rounded_nat:
  assumes "n < 2 ^ 53"
  shows "rounded (of_nat n) = of_nat n"
proof (cases "n = 0")
  case False
  then have pos: "(0 :: rat) < of_nat n" by simp
  have "(2 :: rat) powi binade (of_nat n) \<le> of_nat n" by (rule binade_bounds(1) [OF pos])
  also have "\<dots> < 2 ^ 53" by (rule of_nat_lt_power [OF assms])
  finally have "(2 :: rat) powi binade (of_nat n) < 2 powi 53" by (simp only: power_int_numeral)
  then have "binade (of_nat n) < 53" by (rule powi_less_imp)
  define e where "e = max (binade (of_nat n :: rat) - 52) (- 1074)"
  then have e: "e \<le> 0" using \<open>binade (of_nat n) < 53\<close> by simp
  have "of_nat n / ulp_of (of_nat n) = (of_nat n * 2 powi (- e) :: rat)"
    by (simp add: ulp_of_def e_def [symmetric] power_int_minus field_simps)
  also have "(2 :: rat) powi (- e) = 2 ^ nat (- e)"
    using e by (simp add: power_int_def)
  also have "of_nat n * 2 ^ nat (- e) = (of_int (int n * 2 ^ nat (- e)) :: rat)" by simp
  finally have "round_half_even (of_nat n / ulp_of (of_nat n)) = int n * 2 ^ nat (- e)"
    by (simp only: round_half_even_int)
  moreover have "ulp_of (of_nat n) * 2 ^ nat (- e) = 1"
    using e by (simp add: ulp_of_def e_def [symmetric] power_int_def field_simps)
  ultimately show ?thesis using False by (simp add: rounded_def mult.assoc) (simp add: mult.commute)
qed simp

lemma d_of_nat_exact: "n < 2 ^ 53 \<Longrightarrow> d_of_nat n = Fin (of_nat n)"
proof -
  assume n: "n < 2 ^ 53"
  then have "(of_nat n :: rat) < 2 ^ 53" by (rule of_nat_lt_power)
  also have "\<dots> < 2 ^ 1024" by (rule power_strict_increasing) simp_all
  finally show ?thesis using rounded_nat [OF n] by (simp add: d_of_nat_def round_double_def)
qed

section \<open>Rounding is monotone and idempotent\<close>

lemma round_half_even_mono: "x \<le> y \<Longrightarrow> round_half_even x \<le> round_half_even y"
proof -
  assume le: "x \<le> y"
  then have f: "\<lfloor>x\<rfloor> \<le> \<lfloor>y\<rfloor>" by (rule floor_mono)
  show ?thesis
  proof (cases "\<lfloor>x\<rfloor> = \<lfloor>y\<rfloor>")
    case True
    then show ?thesis using le by (auto simp: round_half_even_def Let_def)
  next
    case False
    with f have "\<lfloor>x\<rfloor> + 1 \<le> \<lfloor>y\<rfloor>" by linarith
    moreover have "round_half_even x \<le> \<lfloor>x\<rfloor> + 1" "\<lfloor>y\<rfloor> \<le> round_half_even y"
      by (simp_all add: round_half_even_def Let_def)
    ultimately show ?thesis by linarith
  qed
qed

definition exponent_of :: "rat \<Rightarrow> int" where
  "exponent_of x = max (binade \<bar>x\<bar> - 52) (- 1074)"

lemma ulp_exponent: "ulp_of x = 2 powi exponent_of x"
  by (simp add: ulp_of_def exponent_of_def)

lemma powi_div: "(2 :: rat) powi i / 2 powi j = 2 powi (i - j)"
  by (simp add: power_int_diff)

lemma powi_int: "j \<le> i \<Longrightarrow> (2 :: rat) powi i = of_int (2 ^ nat (i - j)) * 2 powi j"
proof -
  assume "j \<le> i"
  then have "i = int (nat (i - j)) + j" by simp
  then have "(2 :: rat) powi i = 2 powi int (nat (i - j)) * 2 powi j"
    using power_int_add [of "2 :: rat" "int (nat (i - j))" j] by simp
  then show ?thesis by (simp only: power_int_of_nat of_int_power of_int_numeral)
qed

text \<open>A multiple of a unit that is at least as large stays where it is.\<close>

lemma rounded_multiple:
  assumes "exponent_of v \<le> e" "v = of_int k * 2 powi e"
  shows "rounded v = v"
proof (cases "v = 0")
  case False
  have "v = of_int (k * 2 ^ nat (e - exponent_of v)) * ulp_of v"
    unfolding ulp_exponent using powi_int [OF assms(1)] assms(2) by (simp only: of_int_mult mult.assoc)
  then have "v / ulp_of v = of_int (k * 2 ^ nat (e - exponent_of v))"
    using ulp_pos [of v] by (simp add: field_simps)
  then have "round_half_even (v / ulp_of v) = k * 2 ^ nat (e - exponent_of v)"
    by (simp only: round_half_even_int)
  with False \<open>v = of_int (k * 2 ^ nat (e - exponent_of v)) * ulp_of v\<close> show ?thesis
    unfolding rounded_def by presburger
qed (simp add: rounded_def)

lemma binade_less:
  assumes "0 < x" "x < 2 powi i"
  shows "binade x < i"
proof -
  have "(2 :: rat) powi binade x < 2 powi i" using binade_bounds(1) [OF assms(1)] assms(2) by linarith
  then show ?thesis by (rule powi_less_imp)
qed

lemma rounded_pos_eq: "0 < x \<Longrightarrow> rounded x = of_int (round_half_even (x / ulp_of x)) * ulp_of x"
  by (simp add: rounded_def)

lemma rounded_power: "- 1074 \<le> i \<Longrightarrow> rounded (2 powi i) = 2 powi i"
proof (rule rounded_multiple [of _ i 1])
  assume i: "- 1074 \<le> i"
  have "binade (2 powi i) < i + 1" by (rule binade_less) (simp_all add: power_int_strict_increasing)
  with i show "exponent_of (2 powi i) \<le> i" by (simp add: exponent_of_def)
qed simp

lemma rounded_mono_pos:
  assumes "0 < x" "x \<le> y"
  shows "rounded x \<le> rounded y"
proof -
  have y: "0 < y" using assms by linarith
  have same: "rounded x \<le> rounded y" if "exponent_of x = exponent_of y" "0 < x" "x \<le> y" for x y
  proof -
    have "x / ulp_of x \<le> y / ulp_of y"
      using that ulp_pos [of x] by (simp add: ulp_exponent divide_right_mono)
    then have "round_half_even (x / ulp_of x) \<le> round_half_even (y / ulp_of y)" by (rule round_half_even_mono)
    then show ?thesis
      using that ulp_pos [of x] by (simp add: rounded_pos_eq ulp_exponent mult_right_mono)
  qed
  have bxy: "binade x \<le> binade y"
    using binade_less [OF assms(1), of "binade y + 1"] binade_bounds(2) [OF y] assms(2) by linarith
  then have le: "exponent_of x \<le> exponent_of y" using assms y by (simp add: exponent_of_def)
  show ?thesis
  proof (cases "exponent_of x = exponent_of y")
    case False
    with le have by': "exponent_of y = binade y - 52" "binade x < binade y" "- 1074 \<le> binade y - 52"
      using assms y by (auto simp: exponent_of_def max_def split: if_splits)
    let ?z = "2 powi binade y :: rat"
    have z: "x \<le> ?z" "?z \<le> y"
      using binade_bounds(2) [OF assms(1)] power_int_increasing [of "binade x + 1" "binade y" "2 :: rat"] by'(2)
        binade_bounds(1) [OF y] by (auto intro: less_imp_le less_le_trans)
    have bz: "binade ?z = binade y"
    proof (rule antisym)
      show "binade ?z \<le> binade y"
        using binade_less [of ?z "binade y + 1"] by (simp add: power_int_strict_increasing)
      have "?z < 2 powi (binade ?z + 1)" by (rule binade_bounds(2)) simp
      then show "binade y \<le> binade ?z" using powi_less_imp by fastforce
    qed
    have up: "?z \<le> rounded y"
      using same [of ?z y] z y bz rounded_power [of "binade y"] by'(3) by (simp add: exponent_of_def)
    have "?z / ulp_of x = of_int (2 ^ nat (binade y - exponent_of x))"
    proof -
      have "exponent_of x \<le> binade y" using le by'(1) by linarith
      from powi_int [OF this] show ?thesis unfolding ulp_exponent by simp
    qed
    moreover have "x / ulp_of x \<le> ?z / ulp_of x" using z(1) ulp_pos [of x] by (simp add: divide_right_mono)
    ultimately have "round_half_even (x / ulp_of x) \<le> 2 ^ nat (binade y - exponent_of x)"
      using round_half_even_mono [of "x / ulp_of x" "of_int (2 ^ nat (binade y - exponent_of x))"]
      by (simp only: round_half_even_int)
    then have "(of_int (round_half_even (x / ulp_of x)) :: rat) \<le> of_int (2 ^ nat (binade y - exponent_of x))"
      by (simp only: of_int_le_iff)
    then have "rounded x \<le> of_int (2 ^ nat (binade y - exponent_of x)) * ulp_of x"
      unfolding rounded_pos_eq [OF assms(1)] using ulp_pos [of x] by (intro mult_right_mono) auto
    also have "\<dots> = ?z"
      using \<open>?z / ulp_of x = of_int (2 ^ nat (binade y - exponent_of x))\<close> ulp_pos [of x] by (simp add: field_simps)
    finally show ?thesis using up by linarith
  qed (use same assms in blast)
qed

lemma rounded_mono: "0 \<le> x \<Longrightarrow> x \<le> y \<Longrightarrow> rounded x \<le> rounded y"
  using rounded_mono_pos [of x y] rounded_nonneg [of y] by (cases "x = 0") auto

lemma rounded_idem:
  assumes "0 \<le> x"
  shows "rounded (rounded x) = rounded x"
proof (cases "rounded x = 0")
  case False
  then have x: "0 < x" using assms by (cases "x = 0") auto
  define k where "k = round_half_even (x / ulp_of x)"
  define e where "e = exponent_of x"
  define v where "v = rounded x"
  have v: "v = of_int k * 2 powi e" unfolding v_def k_def e_def rounded_pos_eq [OF x] ulp_exponent ..
  have vpos: "0 < v" unfolding v_def using rounded_nonneg [OF assms] False by linarith
  have "x < 2 powi (e + 53)"
  proof -
    have "binade x + 1 \<le> e + 53" using x by (simp add: e_def exponent_of_def)
    then have "(2 :: rat) powi (binade x + 1) \<le> 2 powi (e + 53)" by (rule power_int_increasing) simp
    with binade_bounds(2) [OF x] show ?thesis by linarith
  qed
  moreover have "- 1074 \<le> e + 53" by (simp add: e_def exponent_of_def)
  ultimately have top: "v \<le> 2 powi (e + 53)"
    using rounded_mono_pos [OF x, of "2 powi (e + 53)"] rounded_power [of "e + 53"] by (simp add: v_def)
  show ?thesis
  proof (cases "v = 2 powi (e + 53)")
    case True
    with \<open>- 1074 \<le> e + 53\<close> show ?thesis using rounded_power by (simp add: v_def)
  next
    case less: False
    with top have "binade v < e + 53" by (intro binade_less vpos) linarith
    then have "exponent_of v \<le> e" using vpos by (simp add: exponent_of_def e_def)
    from rounded_multiple [OF this v] show ?thesis by (simp add: v_def)
  qed
qed simp

section \<open>Nonnegative values\<close>

definition d_nonneg :: "double \<Rightarrow> bool" where
  "d_nonneg x = (case x of Fin a \<Rightarrow> 0 \<le> a | Infinite s \<Rightarrow> \<not> s | NaN \<Rightarrow> False)"

lemma d_nonneg_simps [simp]:
  "d_nonneg (Fin a) \<longleftrightarrow> 0 \<le> a" "d_nonneg (Infinite s) \<longleftrightarrow> \<not> s" "\<not> d_nonneg NaN"
  by (simp_all add: d_nonneg_def)

lemma round_double_nonneg: "0 \<le> x \<Longrightarrow> d_nonneg (round_double x)"
  using rounded_nonneg [of x] by (auto simp: round_double_def Let_def)

lemma rounded_le: "0 \<le> x \<Longrightarrow> rounded x \<le> 2 * x + 1"
proof -
  assume x: "0 \<le> x"
  have "(2 :: rat) powi (- 52) \<le> 2 powi 0" "(2 :: rat) powi (- 1074) \<le> 2 powi 0"
    by (rule power_int_increasing; simp)+
  then have small: "(2 :: rat) powi (- 52) \<le> 1" "(2 :: rat) powi (- 1074) \<le> 1" by simp_all
  have "\<bar>x\<bar> * 2 powi (- 52) \<le> x * 1" using x small(1) by (intro mult_mono) auto
  with small(2) have "max (\<bar>x\<bar> * 2 powi (- 52)) (2 powi (- 1074)) \<le> x + 1" using x by linarith
  with rounded_error [of x] x show ?thesis by linarith
qed

lemma round_double_finite:
  assumes "0 \<le> x" "x \<le> 2 ^ 1000"
  shows "\<exists>r. round_double x = Fin r \<and> 0 \<le> r"
proof -
  have "rounded x \<le> 2 * 2 ^ 1000 + 1" using rounded_le [OF assms(1)] assms(2) by linarith
  also have "\<dots> \<le> 2 * 2 ^ 1000 + 2 ^ 1000" by simp
  also have "\<dots> < (4 :: rat) * 2 ^ 1000" by simp
  also have "\<dots> = 2 ^ 1002" by (simp add: power_add [of 2 2 1000, symmetric] power2_eq_square flip: power_add)
  also have "\<dots> < 2 ^ 1024" by (rule power_strict_increasing) simp_all
  finally have "rounded x < 2 ^ 1024" .
  with rounded_nonneg [OF assms(1)] show ?thesis by (simp add: round_double_def Let_def)
qed

lemma d_of_nat_finite: "n < 2 ^ 64 \<Longrightarrow> \<exists>r. d_of_nat n = Fin r \<and> 0 \<le> r"
proof -
  assume "n < 2 ^ 64"
  then have "(of_nat n :: rat) < 2 ^ 64" by (rule of_nat_lt_power)
  also have "\<dots> \<le> 2 ^ 1000" by (rule power_increasing) simp_all
  finally show ?thesis unfolding d_of_nat_def by (intro round_double_finite) auto
qed

lemma d_add_nonneg: "d_nonneg x \<Longrightarrow> d_nonneg y \<Longrightarrow> d_nonneg (d_add x y)"
  by (cases x; cases y) (auto intro: round_double_nonneg)

lemma d_less_total: "d_nonneg x \<Longrightarrow> d_nonneg y \<Longrightarrow> \<not> d_less x y \<Longrightarrow> d_le y x"
  by (cases x; cases y) (auto simp: d_le_def d_equal_def)

lemma d_min_nonneg: "d_nonneg x \<Longrightarrow> d_nonneg y \<Longrightarrow> d_nonneg (d_min x y)"
  by (simp add: d_min_def)

lemma d_min_le: "d_nonneg x \<Longrightarrow> d_nonneg y \<Longrightarrow> d_le (d_min x y) x \<and> d_le (d_min x y) y"
  by (cases x; cases y) (auto simp: d_min_def d_le_def d_equal_def)

lemma d_le_refl: "d_nonneg x \<Longrightarrow> d_le x x"
  by (cases x) (auto simp: d_le_def d_equal_def)

text \<open>Paying an affordable integer price leaves a nonnegative rest that is not larger.\<close>

lemma d_sub_nonneg:
  assumes "d_nonneg x" "\<not> d_less x (Fin p)" "0 \<le> p"
  shows "d_nonneg (d_sub x (Fin p))"
  using assms by (cases x) (auto simp: d_sub_def intro: round_double_nonneg)

text \<open>Values a computation with nonnegative numbers can produce: representable or infinite.\<close>

definition d_clean :: "double \<Rightarrow> bool" where
  "d_clean x = (d_nonneg x \<and> (\<forall>a. x = Fin a \<longrightarrow> rounded a = a \<and> a < 2 ^ 1024))"

lemma d_clean_nonneg: "d_clean x \<Longrightarrow> d_nonneg x"
  by (simp add: d_clean_def)

lemma d_clean_0 [simp]: "d_clean (Fin 0)"
  by (simp add: d_clean_def)

lemma round_double_clean: "0 \<le> x \<Longrightarrow> d_clean (round_double x)"
  using round_double_nonneg [of x] rounded_idem [of x]
  by (auto simp: d_clean_def round_double_def Let_def split: if_splits)

lemma d_add_clean: "d_nonneg x \<Longrightarrow> d_nonneg y \<Longrightarrow> d_clean (d_add x y)"
  by (cases x; cases y) (auto intro: round_double_clean simp: d_clean_def [of "Infinite _"])

lemma d_mul_nonneg: "0 \<le> a \<Longrightarrow> 0 \<le> b \<Longrightarrow> d_nonneg (d_mul (Fin a) (Fin b))"
  by (simp add: round_double_nonneg)

lemma d_div_clean: "d_nonneg x \<Longrightarrow> 0 < b \<Longrightarrow> d_clean (d_div x (Fin b))"
  by (cases x) (auto intro: round_double_clean simp: d_clean_def [of "Infinite _"])

lemma d_min_clean: "d_clean x \<Longrightarrow> d_clean y \<Longrightarrow> d_clean (d_min x y)"
  by (simp add: d_min_def)

lemma d_le_trans: "d_le x y \<Longrightarrow> d_le y z \<Longrightarrow> d_le x z"
  by (cases x; cases y; cases z) (auto simp: d_le_def d_equal_def)

text \<open>Paying a price that is affordable: the rest is clean and not larger than before.\<close>

lemma d_pay:
  assumes "d_clean x" "\<not> d_less x (Fin p)" "0 \<le> p"
  shows "d_clean (d_sub x (Fin p))" "d_le (d_sub x (Fin p)) x"
proof -
  show "d_clean (d_sub x (Fin p))"
    using assms by (cases x) (auto simp: d_sub_def d_clean_def [of "Infinite _"] intro: round_double_clean)
  show "d_le (d_sub x (Fin p)) x"
  proof (cases x)
    case (Fin a)
    with assms have a: "rounded a = a" "p \<le> a" "a < 2 ^ 1024" by (auto simp: d_clean_def)
    then have le: "rounded (a - p) \<le> a" using rounded_mono [of "a - p" a] assms(3) by simp
    moreover have "0 \<le> rounded (a - p)" using a(2) by (simp add: rounded_nonneg)
    ultimately have "\<not> \<bar>rounded (a - p)\<bar> \<ge> 2 ^ 1024" using a(3) by simp
    then have "d_sub x (Fin p) = Fin (rounded (a - p))" by (simp add: Fin d_sub_def round_double_def)
    with le show ?thesis by (auto simp: Fin d_le_def d_equal_def)
  next
    case (Infinite b)
    then show ?thesis by (simp add: d_sub_def d_le_def d_equal_def)
  qed (use assms in \<open>simp add: d_clean_def\<close>)
qed

end
