(* ===== verification/Media_Pacer.thy ===== *)
theory Media_Pacer
  imports Retransmission_Cache Binary64 "HOL-Library.Sublist"
begin

text \<open>
  \<open>MediaPacerQueue\<close> (\<^verbatim>\<open>src/transport/media_pacer.cpp\<close>): the token bucket between the packetizer and
  the socket. Access units are admitted whole, in one dependency epoch at a time; overload and age
  purge the whole queue, abandon its epoch and require a recovery access unit of a later one. The
  queue holds a reference to the retransmission cache, so its operations act on the pair of both.
\<close>

section \<open>Model\<close>

record media_pacer_config =
  cfg_maximum_bytes :: nat
  cfg_maximum_age_milliseconds :: u64

record media_pacer_admission =
  ad_accepted :: bool
  ad_recovery_required :: bool
  ad_unusable_candidate :: bool
  ad_reason :: string

record media_pacer_dequeue =
  dq_packet :: "plaintext_rtp_packet option"
  dq_recovery_required :: bool
  dq_reason :: string

record media_pacer_snapshot =
  ps_admission_open :: bool
  ps_awaiting_recovery :: bool
  ps_stopped :: bool
  ps_packets :: nat
  ps_bytes :: nat
  ps_maximum_bytes :: nat
  ps_maximum_age_milliseconds :: u64
  ps_active_media_epoch :: u64
  ps_active_dependency_epoch :: u64
  ps_abandoned_dependency_epoch :: u64
  ps_accepted_access_units :: u64
  ps_accepted_packets :: u64
  ps_dequeued_packets :: u64
  ps_purged_packets :: u64
  ps_purged_bytes :: u64
  ps_capacity_purges :: u64
  ps_age_purges :: u64
  ps_recovery_requests :: u64
  ps_rejected_access_units :: u64
  ps_target_bits_per_second :: double
  ps_available_tokens_bytes :: double
  ps_burst_capacity_bytes :: double
  ps_oldest_packet_age_milliseconds :: double

record pacer_entry =
  pe_packet :: plaintext_rtp_packet
  pe_admitted_milliseconds :: u64

record media_pacer_queue =
  mp_config :: media_pacer_config
  mp_queue :: "pacer_entry list"
  mp_snapshot :: media_pacer_snapshot
  mp_last_now :: "u64 option"
  mp_token_timestamp :: "u64 option"
  mp_target_bits_per_second :: double
  mp_tokens_bytes :: double
  mp_burst_capacity_bytes :: double

type_synonym pacer_world = "media_pacer_queue \<times> retransmission_cache"

abbreviation on_snapshot ::
  "(media_pacer_snapshot \<Rightarrow> media_pacer_snapshot) \<Rightarrow> media_pacer_queue \<Rightarrow> media_pacer_queue" where
  "on_snapshot f s \<equiv> mp_snapshot_update f s"

definition new_pacer_snapshot :: media_pacer_snapshot where
  "new_pacer_snapshot =
     \<lparr>ps_admission_open = True, ps_awaiting_recovery = True, ps_stopped = False, ps_packets = 0,
      ps_bytes = 0, ps_maximum_bytes = 0, ps_maximum_age_milliseconds = 0, ps_active_media_epoch = 0,
      ps_active_dependency_epoch = 0, ps_abandoned_dependency_epoch = 0, ps_accepted_access_units = 0,
      ps_accepted_packets = 0, ps_dequeued_packets = 0, ps_purged_packets = 0, ps_purged_bytes = 0,
      ps_capacity_purges = 0, ps_age_purges = 0, ps_recovery_requests = 0, ps_rejected_access_units = 0,
      ps_target_bits_per_second = Fin 0, ps_available_tokens_bytes = Fin 0,
      ps_burst_capacity_bytes = Fin 0, ps_oldest_packet_age_milliseconds = Fin 0\<rparr>"

definition make_pacer :: "media_pacer_config \<Rightarrow> exn + media_pacer_queue" where
  "make_pacer config =
     (if cfg_maximum_bytes config = 0 \<or> cfg_maximum_bytes config > 4 * 1024 * 1024 \<or>
         cfg_maximum_age_milliseconds config = 0 \<or> cfg_maximum_age_milliseconds config > 100
        then Inl (Invalid_argument ''media pacer bounds exceed the frozen controller limits'')
      else Inr \<lparr>mp_config = config, mp_queue = [],
                mp_snapshot = new_pacer_snapshot
                  \<lparr>ps_maximum_bytes := cfg_maximum_bytes config,
                   ps_maximum_age_milliseconds := cfg_maximum_age_milliseconds config\<rparr>,
                mp_last_now = None, mp_token_timestamp = None, mp_target_bits_per_second = Fin 0,
                mp_tokens_bytes = Fin 0, mp_burst_capacity_bytes = Fin 0\<rparr>)"

definition pacer_validate_time :: "pacer_world \<Rightarrow> u64 \<Rightarrow> (unit, pacer_world) outcome" where
  "pacer_validate_time w now =
     (case w of (s, c) \<Rightarrow>
        if time_regressed (mp_last_now s) now
          then (Inl (Invalid_argument ''media pacer time moved backward''), (s, c))
        else (Inr (), (s\<lparr>mp_last_now := Some now\<rparr>, c)))"

definition refill :: "media_pacer_queue \<Rightarrow> u64 \<Rightarrow> media_pacer_queue" where
  "refill s now =
     (case mp_token_timestamp s of
        None \<Rightarrow> s\<lparr>mp_token_timestamp := Some now, mp_tokens_bytes := mp_burst_capacity_bytes s\<rparr>
      | Some stamp \<Rightarrow>
          let elapsed = now - stamp;
              refill_bytes = d_div (d_mul (mp_target_bits_per_second s) (d_of_u64 elapsed)) (Fin 8000)
          in s\<lparr>mp_tokens_bytes := d_min (mp_burst_capacity_bytes s) (d_add (mp_tokens_bytes s) refill_bytes),
               mp_token_timestamp := Some now\<rparr>)"

definition set_target_bits_per_second ::
  "pacer_world \<Rightarrow> double \<Rightarrow> u64 \<Rightarrow> (unit, pacer_world) outcome" where
  "set_target_bits_per_second w target now =
     and_then (pacer_validate_time w now) (\<lambda>_ (s, c).
       if \<not> d_isfinite target \<or> d_less target (Fin 0)
         then (Inl (Invalid_argument ''media pacer target must be finite and nonnegative''), (s, c))
       else
         let first_configuration = (mp_token_timestamp s = None);
             s = refill s now;
             burst = d_div target (Fin 80);
             tokens = (if first_configuration then burst else d_min (mp_tokens_bytes s) burst)
         in (Inr (),
             (on_snapshot (\<lambda>p. p\<lparr>ps_target_bits_per_second := target, ps_burst_capacity_bytes := burst,
                                  ps_available_tokens_bytes := tokens\<rparr>)
                (s\<lparr>mp_target_bits_per_second := target, mp_burst_capacity_bytes := burst,
                   mp_tokens_bytes := tokens\<rparr>), c)))"

fun batch_matches :: "rtp_packet_identity \<Rightarrow> nat \<Rightarrow> nat \<Rightarrow> plaintext_rtp_packet list \<Rightarrow> bool" where
  "batch_matches first size_of_batch index [] = True"
| "batch_matches first size_of_batch index (packet # rest) =
     (if length (pkt_bytes packet) < rtp_header_bytes packet \<or> packet_payload packet = [] \<or>
         id_media_epoch (identity packet) \<noteq> id_media_epoch first \<or>
         id_dependency_epoch (identity packet) \<noteq> id_dependency_epoch first \<or>
         id_access_unit_id (identity packet) \<noteq> id_access_unit_id first \<or>
         id_frame_id (identity packet) \<noteq> id_frame_id first \<or>
         id_extended_sequence (identity packet) \<noteq> id_extended_sequence first + word_of_nat index \<or>
         id_marker (identity packet) \<noteq> (index + 1 = size_of_batch)
       then False else batch_matches first size_of_batch (index + 1) rest)"

definition validate_batch_identity :: "plaintext_rtp_packet list \<Rightarrow> bool" where
  "validate_batch_identity packets =
     (case packets of
        [] \<Rightarrow> False
      | packet # _ \<Rightarrow>
          let first = identity packet in
          if id_media_epoch first = 0 \<or> id_dependency_epoch first = 0 \<or> id_access_unit_id first = 0
            then False
          else batch_matches first (length packets) 0 packets)"

fun recovery_scan :: "bool \<Rightarrow> bool \<Rightarrow> bool \<Rightarrow> plaintext_rtp_packet list \<Rightarrow> bool" where
  "recovery_scan saw_sps saw_pps saw_idr [] = saw_idr"
| "recovery_scan saw_sps saw_pps saw_idr (packet # rest) =
     (case id_role (identity packet) of
        Role_sps \<Rightarrow> recovery_scan True saw_pps saw_idr rest
      | Role_pps \<Rightarrow> recovery_scan saw_sps saw_sps saw_idr rest
      | Role_idr \<Rightarrow> recovery_scan saw_sps saw_pps (saw_sps \<and> saw_pps) rest
      | _ \<Rightarrow> recovery_scan saw_sps saw_pps saw_idr rest)"

definition is_recovery_access_unit :: "plaintext_rtp_packet list \<Rightarrow> bool" where
  "is_recovery_access_unit packets = recovery_scan False False False packets"

definition pacer_reject ::
  "media_pacer_queue \<Rightarrow> string \<Rightarrow> bool \<Rightarrow> bool \<Rightarrow> media_pacer_admission \<times> media_pacer_queue" where
  "pacer_reject s reason recovery_required unusable_candidate =
     (\<lparr>ad_accepted = False, ad_recovery_required = recovery_required,
       ad_unusable_candidate = unusable_candidate, ad_reason = reason\<rparr>,
      on_snapshot (\<lambda>p. p\<lparr>ps_rejected_access_units := saturating_add (ps_rejected_access_units p) 1\<rparr>) s)"

definition purge :: "pacer_world \<Rightarrow> bool \<Rightarrow> bool \<Rightarrow> bool \<Rightarrow> pacer_world" where
  "purge w capacity age recovery_required =
     (case w of (s, c) \<Rightarrow>
        let p = mp_snapshot s;
            p = p\<lparr>ps_purged_packets := saturating_add (ps_purged_packets p) (length (mp_queue s)),
                  ps_purged_bytes := saturating_add (ps_purged_bytes p) (ps_bytes p)\<rparr>;
            p = (if capacity then p\<lparr>ps_capacity_purges := saturating_add (ps_capacity_purges p) 1\<rparr> else p);
            p = (if age then p\<lparr>ps_age_purges := saturating_add (ps_age_purges p) 1\<rparr> else p);
            p = (if recovery_required \<and> \<not> ps_awaiting_recovery p
                 then p\<lparr>ps_recovery_requests := saturating_add (ps_recovery_requests p) 1\<rparr> else p);
            p = (if ps_active_dependency_epoch p \<noteq> 0
                 then p\<lparr>ps_abandoned_dependency_epoch := ps_active_dependency_epoch p\<rparr> else p)
        in (s\<lparr>mp_queue := [],
              mp_snapshot := p\<lparr>ps_packets := 0, ps_bytes := 0, ps_awaiting_recovery := recovery_required,
                               ps_admission_open := \<not> ps_stopped p\<rparr>\<rparr>,
            cache_clear c))"

definition expire_if_needed :: "pacer_world \<Rightarrow> u64 \<Rightarrow> bool \<times> pacer_world" where
  "expire_if_needed w now =
     (case mp_queue (fst w) of
        [] \<Rightarrow> (False, w)
      | front # _ \<Rightarrow>
          if now - pe_admitted_milliseconds front < cfg_maximum_age_milliseconds (mp_config (fst w))
            then (False, w)
          else (True, purge w False True True))"

text \<open>The loop that adds up a batch; \<open>None\<close> is the early return.\<close>

fun batch_bytes_loop :: "nat \<Rightarrow> nat \<Rightarrow> plaintext_rtp_packet list \<Rightarrow> nat option" where
  "batch_bytes_loop maximum_bytes batch_bytes [] = Some batch_bytes"
| "batch_bytes_loop maximum_bytes batch_bytes (packet # rest) =
     (if batch_bytes > maximum_bytes \<or>
         length (pkt_bytes packet) > size_sub maximum_bytes batch_bytes then None
      else batch_bytes_loop maximum_bytes (size_add batch_bytes (length (pkt_bytes packet))) rest)"

text \<open>The second half of \<open>admit_access_unit\<close>, from the capacity check on.\<close>

definition admit_batch ::
  "pacer_world \<Rightarrow> plaintext_rtp_packet list \<Rightarrow> rtp_packet_identity \<Rightarrow> bool \<Rightarrow> u64 \<Rightarrow>
     (media_pacer_admission, pacer_world) outcome" where
  "admit_batch w packets first recovery now =
     (case w of (s, c) \<Rightarrow>
        let maximum = cfg_maximum_bytes (mp_config s);
            too_large = (case pacer_reject s ''PACER_RECOVERY_ACCESS_UNIT_TOO_LARGE'' True recovery of
                           (a, s) \<Rightarrow> (Inr a, (s, c)))
        in case batch_bytes_loop maximum 0 packets of
             None \<Rightarrow> too_large
           | Some batch_bytes \<Rightarrow>
               if batch_bytes > maximum then too_large
               else if batch_bytes > size_sub maximum (ps_bytes (mp_snapshot s)) then
                 (case purge (s, c) True False True of
                    (s, c) \<Rightarrow>
                      (case pacer_reject s ''PACER_CAPACITY_PURGED_DEPENDENCY_EPOCH'' True False of
                         (a, s) \<Rightarrow> (Inr a, (s, c))))
               else
                 and_then
                   (if ps_awaiting_recovery (mp_snapshot s) then
                      let s = on_snapshot (\<lambda>p. p\<lparr>ps_active_media_epoch := id_media_epoch first,
                                 ps_active_dependency_epoch := id_dependency_epoch first,
                                 ps_awaiting_recovery := False, ps_abandoned_dependency_epoch := 0\<rparr>) s
                      in (case cache_reset_epoch c (id_media_epoch first) (id_dependency_epoch first) of
                            (r, c) \<Rightarrow> (r, (s, c)))
                    else (Inr (), (s, c))) (\<lambda>_ (s, c).
                   let s = s\<lparr>mp_queue := mp_queue s @
                               map (\<lambda>p. \<lparr>pe_packet = p, pe_admitted_milliseconds = now\<rparr>) packets\<rparr>;
                       s = on_snapshot (\<lambda>p. p\<lparr>ps_packets := length (mp_queue s),
                               ps_bytes := size_add (ps_bytes p) batch_bytes,
                               ps_accepted_access_units := saturating_add (ps_accepted_access_units p) 1,
                               ps_accepted_packets := saturating_add (ps_accepted_packets p) (length packets)\<rparr>) s
                   in (Inr \<lparr>ad_accepted = True, ad_recovery_required = False, ad_unusable_candidate = False,
                            ad_reason = ''PACER_ACCESS_UNIT_ACCEPTED''\<rparr>, (s, c))))"

definition admit_access_unit ::
  "pacer_world \<Rightarrow> plaintext_rtp_packet list \<Rightarrow> u64 \<Rightarrow> (media_pacer_admission, pacer_world) outcome" where
  "admit_access_unit w packets now =
     and_then (pacer_validate_time w now) (\<lambda>_ w.
       let (_, (s, c)) = expire_if_needed w now;
           p = mp_snapshot s;
           rejecting = (\<lambda>s c reason recovery_required.
             case pacer_reject s reason recovery_required False of (a, s) \<Rightarrow> (Inr a, (s, c)))
       in if ps_stopped p \<or> \<not> ps_admission_open p then rejecting s c ''PACER_STOPPED'' False
          else if \<not> validate_batch_identity packets
            then rejecting s c ''PACER_ACCESS_UNIT_INVALID'' (ps_awaiting_recovery p)
          else
            let first = identity (hd packets);
                recovery = is_recovery_access_unit packets
            in if ps_awaiting_recovery p \<and> \<not> recovery
                 then rejecting s c ''PACER_AWAITING_RECOVERY_IDR'' True
               else if ps_abandoned_dependency_epoch p \<noteq> 0 \<and>
                       id_dependency_epoch first \<le> ps_abandoned_dependency_epoch p
                 then rejecting s c ''PACER_ABANDONED_DEPENDENCY_EPOCH'' True
               else if \<not> ps_awaiting_recovery p \<and>
                       (id_media_epoch first \<noteq> ps_active_media_epoch p \<or>
                        id_dependency_epoch first \<noteq> ps_active_dependency_epoch p)
                 then
                   (case purge (s, c) False False True of
                      (s, c) \<Rightarrow>
                        if \<not> recovery \<or>
                           id_dependency_epoch first \<le> ps_abandoned_dependency_epoch (mp_snapshot s)
                          then rejecting s c ''PACER_NEW_EPOCH_REQUIRES_RECOVERY_IDR'' True
                        else admit_batch (s, c) packets first recovery now)
               else admit_batch (s, c) packets first recovery now)"

definition admit_retransmission ::
  "pacer_world \<Rightarrow> plaintext_rtp_packet \<Rightarrow> u64 \<Rightarrow> (media_pacer_admission, pacer_world) outcome" where
  "admit_retransmission w packet now =
     and_then (pacer_validate_time w now) (\<lambda>_ w.
       let (_, (s, c)) = expire_if_needed w now;
           p = mp_snapshot s
       in if ps_stopped p \<or> ps_awaiting_recovery p \<or>
             id_media_epoch (identity packet) \<noteq> ps_active_media_epoch p \<or>
             id_dependency_epoch (identity packet) \<noteq> ps_active_dependency_epoch p
          then (case pacer_reject s ''PACER_RETRANSMISSION_EPOCH_REJECTED'' (ps_awaiting_recovery p) False of
                  (a, s) \<Rightarrow> (Inr a, (s, c)))
          else if length (pkt_bytes packet) > size_sub (cfg_maximum_bytes (mp_config s)) (ps_bytes p) then
            (case purge (s, c) True False True of
               (s, c) \<Rightarrow>
                 (case pacer_reject s ''PACER_RETRANSMISSION_CAPACITY_PURGED_DEPENDENCY_EPOCH'' True False of
                    (a, s) \<Rightarrow> (Inr a, (s, c))))
          else
            let s = s\<lparr>mp_queue := mp_queue s @ [\<lparr>pe_packet = packet, pe_admitted_milliseconds = now\<rparr>]\<rparr>;
                s = on_snapshot (\<lambda>p. p\<lparr>ps_packets := length (mp_queue s),
                        ps_bytes := size_add (ps_bytes p) (length (pkt_bytes packet)),
                        ps_accepted_packets := saturating_add (ps_accepted_packets p) 1\<rparr>) s
            in (Inr \<lparr>ad_accepted = True, ad_recovery_required = False, ad_unusable_candidate = False,
                     ad_reason = ''PACER_RETRANSMISSION_ACCEPTED''\<rparr>, (s, c)))"

definition pacer_dequeue :: "pacer_world \<Rightarrow> u64 \<Rightarrow> (media_pacer_dequeue, pacer_world) outcome" where
  "pacer_dequeue w now =
     and_then (pacer_validate_time w now) (\<lambda>_ (s, c).
       let s = refill s now;
           s = on_snapshot (\<lambda>p. p\<lparr>ps_available_tokens_bytes := mp_tokens_bytes s\<rparr>) s
       in case expire_if_needed (s, c) now of
            (True, w) \<Rightarrow>
              (Inr \<lparr>dq_packet = None, dq_recovery_required = True,
                    dq_reason = ''PACER_AGE_PURGED_DEPENDENCY_EPOCH''\<rparr>, w)
          | (False, (s, c)) \<Rightarrow>
              (case mp_queue s of
                 [] \<Rightarrow>
                   (Inr \<lparr>dq_packet = None, dq_recovery_required = ps_awaiting_recovery (mp_snapshot s),
                         dq_reason = (if ps_awaiting_recovery (mp_snapshot s)
                                      then ''PACER_AWAITING_RECOVERY_IDR'' else ''PACER_EMPTY'')\<rparr>, (s, c))
               | front # rest \<Rightarrow>
                   let packet = pe_packet front;
                       packet_bytes = d_of_nat (length (pkt_bytes packet))
                   in if d_less (mp_tokens_bytes s) packet_bytes
                      then (Inr \<lparr>dq_packet = None, dq_recovery_required = False,
                                 dq_reason = ''PACER_TOKENS_UNAVAILABLE''\<rparr>, (s, c))
                      else
                        let tokens = d_sub (mp_tokens_bytes s) packet_bytes;
                            s = s\<lparr>mp_tokens_bytes := tokens, mp_queue := rest\<rparr>;
                            s = on_snapshot (\<lambda>p. p\<lparr>ps_packets := length rest,
                                    ps_bytes := size_sub (ps_bytes p) (length (pkt_bytes packet)),
                                    ps_available_tokens_bytes := tokens,
                                    ps_dequeued_packets := saturating_add (ps_dequeued_packets p) 1\<rparr>) s
                        in (Inr \<lparr>dq_packet = Some packet, dq_recovery_required = False,
                                 dq_reason = ''PACER_PACKET_DEQUEUED''\<rparr>, (s, c))))"

definition require_recovery :: "pacer_world \<Rightarrow> bool \<times> pacer_world" where
  "require_recovery w =
     (let p = mp_snapshot (fst w) in
      if ps_stopped p then (False, w)
      else if ps_awaiting_recovery p \<and> mp_queue (fst w) = [] then (True, w)
      else (True, purge w False False True))"

definition pacer_stop :: "pacer_world \<Rightarrow> pacer_world" where
  "pacer_stop w =
     (if ps_stopped (mp_snapshot (fst w)) then w
      else case purge w False False False of
             (s, c) \<Rightarrow>
               (on_snapshot (\<lambda>p. p\<lparr>ps_stopped := True, ps_admission_open := False,
                                   ps_awaiting_recovery := False\<rparr>) s, c))"

definition pacer_snapshot :: "media_pacer_queue \<Rightarrow> u64 option \<Rightarrow> media_pacer_snapshot" where
  "pacer_snapshot s now_milliseconds =
     (let result = (mp_snapshot s)\<lparr>ps_target_bits_per_second := mp_target_bits_per_second s,
                                   ps_available_tokens_bytes := mp_tokens_bytes s,
                                   ps_burst_capacity_bytes := mp_burst_capacity_bytes s\<rparr>
      in case (now_milliseconds, mp_queue s) of
           (Some now, front # _) \<Rightarrow>
             if now \<ge> pe_admitted_milliseconds front
             then result\<lparr>ps_oldest_packet_age_milliseconds :=
                           d_of_u64 (now - pe_admitted_milliseconds front)\<rparr>
             else result
         | _ \<Rightarrow> result)"

section \<open>Invariant\<close>

definition queue_bytes :: "pacer_entry list \<Rightarrow> nat" where
  "queue_bytes q = sum_list (map (\<lambda>e. length (pkt_bytes (pe_packet e))) q)"

definition config_ok :: "media_pacer_config \<Rightarrow> bool" where
  "config_ok g =
     (0 < cfg_maximum_bytes g \<and> cfg_maximum_bytes g \<le> 4 * 1024 * 1024 \<and>
      0 < cfg_maximum_age_milliseconds g \<and> cfg_maximum_age_milliseconds g \<le> 100)"

definition tokens_ok :: "media_pacer_queue \<Rightarrow> bool" where
  "tokens_ok s =
     ((\<exists>t. mp_target_bits_per_second s = Fin t \<and> 0 \<le> t) \<and>
      d_clean (mp_burst_capacity_bytes s) \<and> d_clean (mp_tokens_bytes s) \<and>
      d_le (mp_tokens_bytes s) (mp_burst_capacity_bytes s))"

definition entry_current :: "media_pacer_queue \<Rightarrow> pacer_entry \<Rightarrow> bool" where
  "entry_current s e =
     (id_media_epoch (identity (pe_packet e)) = ps_active_media_epoch (mp_snapshot s) \<and>
      id_dependency_epoch (identity (pe_packet e)) = ps_active_dependency_epoch (mp_snapshot s) \<and>
      (case mp_last_now s of None \<Rightarrow> False | Some t \<Rightarrow> pe_admitted_milliseconds e \<le> t))"

definition queue_ok :: "media_pacer_queue \<Rightarrow> bool" where
  "queue_ok s =
     (config_ok (mp_config s) \<and> ps_packets (mp_snapshot s) = length (mp_queue s) \<and>
      ps_bytes (mp_snapshot s) = queue_bytes (mp_queue s) \<and>
      ps_bytes (mp_snapshot s) \<le> cfg_maximum_bytes (mp_config s) \<and>
      sorted (map pe_admitted_milliseconds (mp_queue s)) \<and> (\<forall>e \<in> set (mp_queue s). entry_current s e))"

definition mode_ok :: "media_pacer_queue \<Rightarrow> bool" where
  "mode_ok s =
     (let p = mp_snapshot s in
      (mp_queue s \<noteq> [] \<longrightarrow> \<not> ps_awaiting_recovery p \<and> \<not> ps_stopped p) \<and>
      (ps_awaiting_recovery p \<longrightarrow> \<not> ps_stopped p \<and>
         ps_abandoned_dependency_epoch p = ps_active_dependency_epoch p) \<and>
      (\<not> ps_awaiting_recovery p \<and> \<not> ps_stopped p \<longrightarrow>
         ps_active_media_epoch p \<noteq> 0 \<and> ps_active_dependency_epoch p \<noteq> 0 \<and>
         ps_abandoned_dependency_epoch p = 0) \<and>
      (ps_admission_open p \<longleftrightarrow> \<not> ps_stopped p))"

definition pacer_ok :: "pacer_world \<Rightarrow> bool" where
  "pacer_ok w = (queue_ok (fst w) \<and> mode_ok (fst w) \<and> tokens_ok (fst w) \<and> cache_ok (snd w))"

lemma queue_bytes_simps [simp]:
  "queue_bytes [] = 0"
  "queue_bytes (e # q) = length (pkt_bytes (pe_packet e)) + queue_bytes q"
  "queue_bytes (q @ r) = queue_bytes q + queue_bytes r"
  by (simp_all add: queue_bytes_def)

lemma max_bytes_lt: "config_ok g \<Longrightarrow> cfg_maximum_bytes g < 2 ^ 64"
  by (simp add: config_ok_def)

lemma make_pacer_ok: "make_pacer g = Inr s \<Longrightarrow> cache_ok c \<Longrightarrow> pacer_ok (s, c)"
  by (auto simp: make_pacer_def pacer_ok_def queue_ok_def mode_ok_def tokens_ok_def config_ok_def
      new_pacer_snapshot_def Let_def d_le_refl not_less word_greater_zero_iff split: if_splits)

section \<open>The token bucket\<close>

lemma refill_fields [simp]:
  "mp_config (refill s now) = mp_config s" "mp_queue (refill s now) = mp_queue s"
  "mp_snapshot (refill s now) = mp_snapshot s" "mp_last_now (refill s now) = mp_last_now s"
  "mp_target_bits_per_second (refill s now) = mp_target_bits_per_second s"
  "mp_burst_capacity_bytes (refill s now) = mp_burst_capacity_bytes s"
  "mp_token_timestamp (refill s now) = Some now"
  by (simp_all add: refill_def Let_def split: option.splits)

lemma refill_tokens_ok: "tokens_ok s \<Longrightarrow> tokens_ok (refill s now)"
proof -
  assume ok: "tokens_ok s"
  then obtain t where t: "mp_target_bits_per_second s = Fin t" "0 \<le> t" by (auto simp: tokens_ok_def)
  show ?thesis
  proof (cases "mp_token_timestamp s")
    case None
    with ok show ?thesis by (auto simp: tokens_ok_def refill_def d_le_refl d_clean_nonneg)
  next
    case (Some stamp)
    let ?r = "d_div (d_mul (mp_target_bits_per_second s) (d_of_u64 (now - stamp))) (Fin 8000)"
    obtain e where "d_of_u64 (now - stamp) = Fin e" "0 \<le> e"
      using d_of_nat_finite [OF unat_lt_u64] by (auto simp: d_of_u64_def)
    then have "d_nonneg (d_mul (mp_target_bits_per_second s) (d_of_u64 (now - stamp)))"
      using t by (simp add: round_double_nonneg)
    then have "d_clean ?r" by (rule d_div_clean) simp
    with ok have sum: "d_clean (d_add (mp_tokens_bytes s) ?r)"
      by (intro d_add_clean) (auto simp: tokens_ok_def d_clean_nonneg)
    have "mp_tokens_bytes (refill s now) = d_min (mp_burst_capacity_bytes s) (d_add (mp_tokens_bytes s) ?r)"
      by (simp add: refill_def Some Let_def)
    with ok sum t d_min_le [of "mp_burst_capacity_bytes s" "d_add (mp_tokens_bytes s) ?r"] show ?thesis
      by (simp add: tokens_ok_def d_min_clean d_clean_nonneg)
  qed
qed

lemma set_target_tokens:
  assumes "tokens_ok s" "0 \<le> t"
  shows "tokens_ok (s\<lparr>mp_target_bits_per_second := Fin t, mp_burst_capacity_bytes := d_div (Fin t) (Fin 80),
      mp_tokens_bytes := (if b then d_div (Fin t) (Fin 80) else d_min (mp_tokens_bytes s) (d_div (Fin t) (Fin 80)))\<rparr>)"
proof -
  have burst: "d_clean (d_div (Fin t) (Fin 80))" using assms(2) by (intro d_div_clean) simp_all
  with assms d_min_le [of "mp_tokens_bytes s" "d_div (Fin t) (Fin 80)"] show ?thesis
    by (auto simp: tokens_ok_def d_min_clean d_clean_nonneg d_le_refl simp del: d_div.simps)
qed

section \<open>Steps that keep the invariant\<close>

text \<open>Changes of the counters and of the published tokens only.\<close>

definition same_state :: "media_pacer_queue \<Rightarrow> media_pacer_queue \<Rightarrow> bool" where
  "same_state s s' =
     (mp_config s' = mp_config s \<and> mp_queue s' = mp_queue s \<and> mp_last_now s' = mp_last_now s \<and>
      (let p = mp_snapshot s; p' = mp_snapshot s' in
       ps_packets p' = ps_packets p \<and> ps_bytes p' = ps_bytes p \<and>
       ps_active_media_epoch p' = ps_active_media_epoch p \<and>
       ps_active_dependency_epoch p' = ps_active_dependency_epoch p \<and>
       ps_abandoned_dependency_epoch p' = ps_abandoned_dependency_epoch p \<and>
       ps_awaiting_recovery p' = ps_awaiting_recovery p \<and> ps_stopped p' = ps_stopped p \<and>
       ps_admission_open p' = ps_admission_open p))"

lemma same_state_queue_ok: "same_state s s' \<Longrightarrow> queue_ok s \<Longrightarrow> queue_ok s'"
  by (simp add: same_state_def queue_ok_def entry_current_def Let_def)

lemma same_state_mode_ok: "same_state s s' \<Longrightarrow> mode_ok s \<Longrightarrow> mode_ok s'"
  by (simp add: same_state_def mode_ok_def Let_def)

lemma same_state_ok:
  "same_state s s' \<Longrightarrow> pacer_ok (s, c) \<Longrightarrow> tokens_ok s' \<Longrightarrow> cache_ok c' \<Longrightarrow> pacer_ok (s', c')"
  by (simp add: pacer_ok_def same_state_queue_ok same_state_mode_ok)

lemma reject_same:
  "same_state s (snd (pacer_reject s reason r u))"
  "tokens_ok (snd (pacer_reject s reason r u)) = tokens_ok s"
  "\<not> ad_accepted (fst (pacer_reject s reason r u))"
  by (simp_all add: same_state_def pacer_reject_def tokens_ok_def)

lemma reject_ok: "pacer_ok (s, c) \<Longrightarrow> pacer_ok (snd (pacer_reject s reason r u), c)"
  using reject_same(1) [of s reason r u] by (rule same_state_ok) (auto simp: reject_same(2) pacer_ok_def)

lemma purge_fields:
  "mp_queue (fst (purge w a b r)) = []" "mp_config (fst (purge w a b r)) = mp_config (fst w)"
  "mp_last_now (fst (purge w a b r)) = mp_last_now (fst w)"
  "ps_stopped (mp_snapshot (fst (purge w a b r))) = ps_stopped (mp_snapshot (fst w))"
  "ps_awaiting_recovery (mp_snapshot (fst (purge w a b r))) = r"
  "ps_active_media_epoch (mp_snapshot (fst (purge w a b r))) = ps_active_media_epoch (mp_snapshot (fst w))"
  "ps_active_dependency_epoch (mp_snapshot (fst (purge w a b r))) = ps_active_dependency_epoch (mp_snapshot (fst w))"
  "ps_abandoned_dependency_epoch (mp_snapshot (fst (purge w a b r))) =
     (if ps_active_dependency_epoch (mp_snapshot (fst w)) \<noteq> 0
      then ps_active_dependency_epoch (mp_snapshot (fst w))
      else ps_abandoned_dependency_epoch (mp_snapshot (fst w)))"
  "ps_packets (mp_snapshot (fst (purge w a b r))) = 0" "ps_bytes (mp_snapshot (fst (purge w a b r))) = 0"
  "ps_admission_open (mp_snapshot (fst (purge w a b r))) = (\<not> ps_stopped (mp_snapshot (fst w)))"
  "tokens_ok (fst (purge w a b r)) = tokens_ok (fst w)"
  "snd (purge w a b r) = cache_clear (snd w)"
  by (cases w, simp add: purge_def Let_def tokens_ok_def)+

lemma purge_ok:
  assumes "pacer_ok w" "\<not> ps_stopped (mp_snapshot (fst w))"
  shows "pacer_ok (purge w a b True)"
proof -
  have "ps_active_dependency_epoch (mp_snapshot (fst w)) = 0 \<Longrightarrow>
      ps_abandoned_dependency_epoch (mp_snapshot (fst w)) = 0"
    using assms by (auto simp: pacer_ok_def mode_ok_def Let_def)
  with assms show ?thesis
    by (simp add: pacer_ok_def queue_ok_def mode_ok_def Let_def purge_fields cache_clear_ok)
qed

text \<open>What one step does: it keeps the invariant, neither reorders nor invents packets (\<open>out\<close> has
  left, \<open>inn\<close> has come), never lowers the active dependency epoch, and stays stopped.\<close>

definition packets_of :: "pacer_world \<Rightarrow> plaintext_rtp_packet list" where
  "packets_of w = map pe_packet (mp_queue (fst w))"

definition active_epoch :: "pacer_world \<Rightarrow> u64" where
  "active_epoch w = ps_active_dependency_epoch (mp_snapshot (fst w))"

definition is_stopped :: "pacer_world \<Rightarrow> bool" where
  "is_stopped w = ps_stopped (mp_snapshot (fst w))"

definition pacer_moves ::
  "pacer_world \<Rightarrow> plaintext_rtp_packet list \<Rightarrow> plaintext_rtp_packet list \<Rightarrow> pacer_world \<Rightarrow> bool" where
  "pacer_moves w out inn w' =
     (pacer_ok w' \<and> subseq (out @ packets_of w') (packets_of w @ inn) \<and>
      active_epoch w \<le> active_epoch w' \<and> (is_stopped w \<longrightarrow> is_stopped w'))"

lemma pacer_moves_trans:
  assumes "pacer_moves w o1 i1 u" "pacer_moves u o2 i2 w'"
  shows "pacer_moves w (o1 @ o2) (i1 @ i2) w'"
proof -
  have "subseq (o1 @ (o2 @ packets_of w')) (o1 @ (packets_of u @ i2))"
    using assms(2) by (intro list_emb_append_mono [OF subseq_order.order_refl]) (simp add: pacer_moves_def)
  moreover have "subseq ((o1 @ packets_of u) @ i2) ((packets_of w @ i1) @ i2)"
    using assms(1) by (intro list_emb_append_mono [OF _ subseq_order.order_refl]) (simp add: pacer_moves_def)
  ultimately have "subseq ((o1 @ o2) @ packets_of w') (packets_of w @ i1 @ i2)"
    unfolding append_assoc by (rule subseq_order.trans)
  with assms show ?thesis by (auto simp: pacer_moves_def)
qed

lemma pacer_moves_quiet:
  assumes "pacer_moves w [] [] u" "pacer_moves u out inn w'"
  shows "pacer_moves w out inn w'"
  using pacer_moves_trans [OF assms] by simp

lemma same_state_moves:
  "same_state s s' \<Longrightarrow> pacer_ok (s', c') \<Longrightarrow> pacer_moves (s, c) [] [] (s', c')"
  by (simp add: pacer_moves_def packets_of_def active_epoch_def is_stopped_def same_state_def Let_def)

lemma purge_moves:
  "pacer_ok w \<Longrightarrow> \<not> is_stopped w \<Longrightarrow> pacer_moves w [] [] (purge w a b True)"
  by (simp add: pacer_moves_def purge_ok packets_of_def active_epoch_def is_stopped_def purge_fields)

lemma reject_moves: "pacer_ok (s, c) \<Longrightarrow> pacer_moves (s, c) [] [] (snd (pacer_reject s reason r u), c)"
  by (rule same_state_moves [OF reject_same(1) reject_ok])

definition pacer_at :: "u64 \<Rightarrow> pacer_world \<Rightarrow> bool" where
  "pacer_at now w = (pacer_ok w \<and> mp_last_now (fst w) = Some now)"

lemma queue_ok_time:
  assumes "queue_ok s" "\<not> time_regressed (mp_last_now s) now"
  shows "queue_ok (s\<lparr>mp_last_now := Some now\<rparr>)"
proof -
  have "entry_current (s\<lparr>mp_last_now := Some now\<rparr>) e" if "e \<in> set (mp_queue s)" for e
    using assms that by (auto simp: queue_ok_def entry_current_def split: option.splits dest!: bspec)
  with assms(1) show ?thesis by (simp add: queue_ok_def)
qed

lemma pacer_validate_cases:
  assumes "pacer_ok w"
  obtains (regressed) "time_regressed (mp_last_now (fst w)) now"
      "pacer_validate_time w now = (Inl (Invalid_argument ''media pacer time moved backward''), w)"
  | (fresh) u where "\<not> time_regressed (mp_last_now (fst w)) now" "pacer_validate_time w now = (Inr (), u)"
      "pacer_at now u" "pacer_moves w [] [] u" "mp_queue (fst u) = mp_queue (fst w)"
      "mp_snapshot (fst u) = mp_snapshot (fst w)" "mp_config (fst u) = mp_config (fst w)"
      "snd u = snd w" "tokens_ok (fst u)" "u = ((fst w)\<lparr>mp_last_now := Some now\<rparr>, snd w)"
proof (cases "time_regressed (mp_last_now (fst w)) now")
  case True
  then show thesis by (intro regressed) (auto simp: pacer_validate_time_def split: prod.splits)
next
  case False
  let ?u = "((fst w)\<lparr>mp_last_now := Some now\<rparr>, snd w)"
  have ok: "pacer_ok ?u"
    using assms False by (simp add: pacer_ok_def queue_ok_time mode_ok_def tokens_ok_def)
  have "pacer_moves w [] [] ?u"
    using ok by (simp add: pacer_moves_def packets_of_def active_epoch_def is_stopped_def)
  with ok False show thesis
    by (intro fresh [of ?u]) (auto simp: pacer_at_def pacer_ok_def pacer_validate_time_def split: prod.splits)
qed

text \<open>The expiry check leaves a queue whose front is young enough, or none.\<close>

definition front_young :: "u64 \<Rightarrow> media_pacer_queue \<Rightarrow> bool" where
  "front_young now s =
     (\<forall>e \<in> set (mp_queue s). unat now - unat (pe_admitted_milliseconds e) <
        unat (cfg_maximum_age_milliseconds (mp_config s)))"

lemma expire_cases:
  assumes "pacer_at now w"
  obtains (kept) "expire_if_needed w now = (False, w)" "front_young now (fst w)"
  | (purged) "expire_if_needed w now = (True, purge w False True True)"
      "pacer_at now (purge w False True True)" "pacer_moves w [] [] (purge w False True True)"
      "\<not> is_stopped w"
proof (cases "mp_queue (fst w)")
  case Nil
  then show thesis by (intro kept) (simp_all add: expire_if_needed_def front_young_def)
next
  case (Cons front rest)
  have ok: "pacer_ok w" "mp_last_now (fst w) = Some now" using assms by (simp_all add: pacer_at_def)
  then have running: "\<not> is_stopped w"
    using Cons by (simp add: pacer_ok_def mode_ok_def Let_def is_stopped_def)
  have current: "\<forall>e \<in> set (mp_queue (fst w)). pe_admitted_milliseconds e \<le> now"
    and order: "\<forall>e \<in> set (mp_queue (fst w)). pe_admitted_milliseconds front \<le> pe_admitted_milliseconds e"
    using ok Cons by (auto simp: pacer_ok_def queue_ok_def entry_current_def)
  show thesis
  proof (cases "now - pe_admitted_milliseconds front < cfg_maximum_age_milliseconds (mp_config (fst w))")
    case True
    then have "unat now - unat (pe_admitted_milliseconds front) < unat (cfg_maximum_age_milliseconds (mp_config (fst w)))"
      using current Cons by (simp add: word_less_nat_alt elapsed_unat)
    then have "front_young now (fst w)"
      using order by (fastforce simp: front_young_def word_le_nat_alt)
    with True Cons show thesis by (intro kept) (simp_all add: expire_if_needed_def)
  next
    case False
    with Cons ok running show thesis
      by (intro purged) (simp_all add: expire_if_needed_def pacer_at_def purge_fields
          purge_moves purge_ok is_stopped_def)
  qed
qed

lemma expire_moves:
  assumes "pacer_at now w"
  obtains b u where "expire_if_needed w now = (b, u)" "pacer_at now u" "pacer_moves w [] [] u"
    "mp_queue (fst u) = mp_queue (fst w) \<or> mp_queue (fst u) = []" "front_young now (fst u)"
  using assms
proof (cases rule: expire_cases [of now w])
  case kept
  have "pacer_moves w [] [] w" using assms by (simp add: pacer_at_def pacer_moves_def)
  with kept assms show thesis by (intro that [of False w]) simp_all
next
  case purged
  then show thesis by (intro that [of True "purge w False True True"]) (simp_all add: purge_fields front_young_def)
qed

section \<open>Admission\<close>

lemma batch_bytes_loop_eq:
  assumes "maximum < 2 ^ 64" "acc \<le> maximum"
  shows "batch_bytes_loop maximum acc packets =
    (let total = acc + sum_list (map (\<lambda>p. length (pkt_bytes p)) packets) in
     if total \<le> maximum then Some total else None)"
  using assms(2)
proof (induction packets arbitrary: acc)
  case (Cons p ps)
  have sub: "size_sub maximum acc = maximum - acc" using Cons.prems assms(1) by (simp add: size_sub_exact)
  show ?case
  proof (cases "length (pkt_bytes p) \<le> maximum - acc")
    case True
    then have "size_add acc (length (pkt_bytes p)) = acc + length (pkt_bytes p)"
      using Cons.prems assms(1) by (simp add: size_add_exact)
    with True Cons.prems Cons.IH [of "acc + length (pkt_bytes p)"] sub show ?thesis
      by (simp add: Let_def add.assoc)
  next
    case False
    with Cons.prems sub show ?thesis by (simp add: Let_def)
  qed
qed simp

definition entries_at :: "u64 \<Rightarrow> plaintext_rtp_packet list \<Rightarrow> pacer_entry list" where
  "entries_at now packets = map (\<lambda>p. \<lparr>pe_packet = p, pe_admitted_milliseconds = now\<rparr>) packets"

lemma entries_at_facts [simp]:
  "map pe_packet (entries_at now packets) = packets" "length (entries_at now packets) = length packets"
  "map pe_admitted_milliseconds (entries_at now packets) = replicate (length packets) now"
  "queue_bytes (entries_at now packets) = sum_list (map (\<lambda>p. length (pkt_bytes p)) packets)"
  by (simp_all add: entries_at_def queue_bytes_def comp_def map_replicate_const)

definition epochs_of_packet :: "plaintext_rtp_packet \<Rightarrow> u64 \<times> u64" where
  "epochs_of_packet p = (id_media_epoch (identity p), id_dependency_epoch (identity p))"

lemma batch_matches_epochs:
  "batch_matches first n i packets \<Longrightarrow> p \<in> set packets \<Longrightarrow>
     epochs_of_packet p = (id_media_epoch first, id_dependency_epoch first)"
  by (induction packets arbitrary: i) (auto simp: epochs_of_packet_def split: if_splits)

declare batch_matches.simps [simp del]

lemma validate_batch_facts:
  assumes "validate_batch_identity packets"
  shows "packets \<noteq> []" "id_media_epoch (identity (hd packets)) \<noteq> 0"
    "id_dependency_epoch (identity (hd packets)) \<noteq> 0"
    "\<forall>p \<in> set packets. epochs_of_packet p = epochs_of_packet (hd packets)"
proof -
  obtain q qs where packets: "packets = q # qs"
    using assms by (cases packets) (simp_all add: validate_batch_identity_def)
  with assms have m: "batch_matches (identity q) (length packets) 0 packets"
    "id_media_epoch (identity q) \<noteq> 0" "id_dependency_epoch (identity q) \<noteq> 0"
    by (auto simp: validate_batch_identity_def Let_def split: if_splits)
  show "packets \<noteq> []" "id_media_epoch (identity (hd packets)) \<noteq> 0"
    "id_dependency_epoch (identity (hd packets)) \<noteq> 0" using m packets by simp_all
  show "\<forall>p \<in> set packets. epochs_of_packet p = epochs_of_packet (hd packets)"
  proof
    fix p
    assume "p \<in> set packets"
    from batch_matches_epochs [OF m(1) this] show "epochs_of_packet p = epochs_of_packet (hd packets)"
      by (simp add: packets epochs_of_packet_def [of q])
  qed
qed

text \<open>What \<open>admit_batch\<close> is called with, and its three outcomes.\<close>

definition batch_due :: "media_pacer_queue \<Rightarrow> plaintext_rtp_packet list \<Rightarrow> bool" where
  "batch_due s packets =
     (let p = mp_snapshot s; first = identity (hd packets) in
      validate_batch_identity packets \<and> \<not> ps_stopped p \<and>
      (if ps_awaiting_recovery p then id_dependency_epoch first > ps_abandoned_dependency_epoch p
       else id_media_epoch first = ps_active_media_epoch p \<and>
            id_dependency_epoch first = ps_active_dependency_epoch p))"

text \<open>The state after an accepted batch.\<close>

definition appended ::
  "media_pacer_queue \<Rightarrow> plaintext_rtp_packet list \<Rightarrow> u64 \<Rightarrow> media_pacer_queue \<Rightarrow> bool" where
  "appended s packets now s' =
     (mp_config s' = mp_config s \<and> mp_queue s' = mp_queue s @ entries_at now packets \<and>
      mp_last_now s' = mp_last_now s \<and>
      mp_target_bits_per_second s' = mp_target_bits_per_second s \<and>
      mp_tokens_bytes s' = mp_tokens_bytes s \<and> mp_burst_capacity_bytes s' = mp_burst_capacity_bytes s \<and>
      (let p = mp_snapshot s; p' = mp_snapshot s' in
       ps_packets p' = length (mp_queue s') \<and>
       ps_bytes p' = ps_bytes p + sum_list (map (\<lambda>q. length (pkt_bytes q)) packets) \<and>
       ps_bytes p' \<le> cfg_maximum_bytes (mp_config s) \<and>
       ps_active_media_epoch p' = id_media_epoch (identity (hd packets)) \<and>
       ps_active_dependency_epoch p' = id_dependency_epoch (identity (hd packets)) \<and>
       \<not> ps_awaiting_recovery p' \<and> \<not> ps_stopped p' \<and> ps_abandoned_dependency_epoch p' = 0 \<and>
       (ps_admission_open p' \<longleftrightarrow> ps_admission_open p)))"

lemma appended_ok:
  assumes "appended s packets now s'" "pacer_at now (s, c)" "cache_ok c'"
    and "\<forall>p \<in> set packets. epochs_of_packet p = epochs_of_packet (hd packets)"
    and "epochs_of_packet (hd packets) \<noteq> (0, id_dependency_epoch (identity (hd packets)))"
    and "id_dependency_epoch (identity (hd packets)) \<noteq> 0"
    and "\<not> ps_awaiting_recovery (mp_snapshot s) \<longrightarrow> epochs_of_packet (hd packets) =
      (ps_active_media_epoch (mp_snapshot s), ps_active_dependency_epoch (mp_snapshot s))"
    and "\<not> ps_stopped (mp_snapshot s)"
  shows "pacer_ok (s', c')"
proof -
  have ok: "queue_ok s" "mode_ok s" "tokens_ok s" and last: "mp_last_now s = Some now"
    using assms(2) by (simp_all add: pacer_at_def pacer_ok_def)
  have old: "entry_current s' e \<and> pe_admitted_milliseconds e \<le> now" if e: "e \<in> set (mp_queue s)" for e
  proof -
    have "mp_queue s \<noteq> []" using e by auto
    with ok(2) assms(7) have "epochs_of_packet (hd packets) =
        (ps_active_media_epoch (mp_snapshot s), ps_active_dependency_epoch (mp_snapshot s))"
      by (simp add: mode_ok_def Let_def)
    with e ok(1) last assms(1) show ?thesis
      by (auto simp: queue_ok_def entry_current_def appended_def Let_def epochs_of_packet_def)
  qed
  have new: "entry_current s' e" if "e \<in> set (entries_at now packets)" for e
  proof -
    obtain p where e: "e = \<lparr>pe_packet = p, pe_admitted_milliseconds = now\<rparr>" "p \<in> set packets"
      using \<open>e \<in> set (entries_at now packets)\<close> by (auto simp: entries_at_def)
    then have "epochs_of_packet p = epochs_of_packet (hd packets)" using assms(4) by blast
    then show ?thesis
      using assms(1) last by (simp add: e entry_current_def appended_def Let_def epochs_of_packet_def)
  qed
  have "sorted (map pe_admitted_milliseconds (mp_queue s'))"
    using ok(1) old assms(1) by (auto simp: appended_def queue_ok_def sorted_append)
  then have "queue_ok s'"
    using ok(1) old new assms(1) by (auto simp: queue_ok_def appended_def Let_def)
  moreover have "mode_ok s'"
    using ok(2) assms by (auto simp: mode_ok_def appended_def Let_def epochs_of_packet_def)
  moreover have "tokens_ok s'" using ok(3) assms(1) by (simp add: tokens_ok_def appended_def)
  ultimately show ?thesis using assms(3) by (simp add: pacer_ok_def)
qed

lemma admit_batch_cases:
  assumes "pacer_at now (s, c)" "batch_due s packets"
  obtains (too_large) a s' where "admit_batch (s, c) packets (identity (hd packets)) r now = (Inr a, (s', c))"
      "\<not> ad_accepted a" "same_state s s'" "pacer_ok (s', c)"
  | (purged) a w' where "admit_batch (s, c) packets (identity (hd packets)) r now = (Inr a, w')"
      "\<not> ad_accepted a" "pacer_moves (s, c) [] [] w'" "mp_queue (fst w') = []"
  | (accepted) a s' c' where "admit_batch (s, c) packets (identity (hd packets)) r now = (Inr a, (s', c'))"
      "ad_accepted a" "appended s packets now s'" "pacer_ok (s', c')"
proof -
  let ?max = "cfg_maximum_bytes (mp_config s)"
  let ?first = "identity (hd packets)"
  define total where "total = sum_list (map (\<lambda>p. length (pkt_bytes p)) packets)"
  have ok: "pacer_ok (s, c)" "queue_ok s" "mode_ok s" using assms(1) by (simp_all add: pacer_at_def pacer_ok_def)
  then have max: "?max < 2 ^ 64" "ps_bytes (mp_snapshot s) \<le> ?max"
    by (auto simp: queue_ok_def dest: max_bytes_lt)
  have loop: "batch_bytes_loop ?max 0 packets = (if total \<le> ?max then Some total else None)"
    using batch_bytes_loop_eq [OF max(1), of 0 packets] by (simp add: total_def Let_def)
  have due: "validate_batch_identity packets" "\<not> ps_stopped (mp_snapshot s)"
    using assms(2) by (simp_all add: batch_due_def Let_def)
  note batch = validate_batch_facts [OF due(1)]
  show thesis
  proof (cases "total \<le> ?max")
    case False
    then show thesis
      using reject_ok [OF ok(1), of "''PACER_RECOVERY_ACCESS_UNIT_TOO_LARGE''" True r]
        reject_same [of s "''PACER_RECOVERY_ACCESS_UNIT_TOO_LARGE''" True r]
      by (intro too_large [of "fst (pacer_reject s ''PACER_RECOVERY_ACCESS_UNIT_TOO_LARGE'' True r)"
            "snd (pacer_reject s ''PACER_RECOVERY_ACCESS_UNIT_TOO_LARGE'' True r)"])
        (simp_all add: admit_batch_def loop Let_def split: prod.splits)
  next
    case fits: True
    have room: "size_sub ?max (ps_bytes (mp_snapshot s)) = ?max - ps_bytes (mp_snapshot s)"
      using max by (simp add: size_sub_exact)
    show thesis
    proof (cases "total > ?max - ps_bytes (mp_snapshot s)")
      case True
      let ?w = "purge (s, c) True False True"
      let ?r = "pacer_reject (fst ?w) ''PACER_CAPACITY_PURGED_DEPENDENCY_EPOCH'' True False"
      have m: "pacer_moves (s, c) [] [] ?w"
        using ok(1) due(2) by (intro purge_moves) (simp_all add: is_stopped_def)
      then have "pacer_ok (fst ?w, snd ?w)" by (simp add: pacer_moves_def)
      then have "pacer_moves (fst ?w, snd ?w) [] [] (snd ?r, snd ?w)" by (rule reject_moves)
      with m have "pacer_moves (s, c) [] [] (snd ?r, snd ?w)" by (auto intro: pacer_moves_quiet)
      then show thesis
        by (intro purged [of "fst ?r" "(snd ?r, snd ?w)"])
          (use fits True room purge_fields(1) [of "(s, c)" True False True] reject_same(1,3) [of "fst ?w"] in
            \<open>simp_all add: admit_batch_def loop Let_def same_state_def split: prod.splits\<close>)
    next
      case False
      then have sum: "size_add (ps_bytes (mp_snapshot s)) total = ps_bytes (mp_snapshot s) + total"
        "ps_bytes (mp_snapshot s) + total \<le> ?max" using max fits by (auto simp: size_add_exact)
      have reset: "cache_reset_epoch c (id_media_epoch ?first) (id_dependency_epoch ?first) =
          (Inr (), (cache_clear c)\<lparr>rc_media_epoch := id_media_epoch ?first,
             rc_dependency_epoch := id_dependency_epoch ?first\<rparr>)"
        using batch(2,3) by (simp add: cache_reset_epoch_def)
      have cok: "cache_ok c" "cache_ok ((cache_clear c)\<lparr>rc_media_epoch := id_media_epoch ?first,
             rc_dependency_epoch := id_dependency_epoch ?first\<rparr>)"
        using ok(1) by (simp_all add: pacer_ok_def cache_ok_def cache_clear_def)
      have "\<exists>a s' c'. admit_batch (s, c) packets ?first r now = (Inr a, (s', c')) \<and> ad_accepted a \<and>
          cache_ok c' \<and> appended s packets now s'"
        using fits False room cok sum ok(3) due(2) assms(2)
        by (cases "ps_awaiting_recovery (mp_snapshot s)")
          (simp_all add: admit_batch_def loop Let_def reset appended_def entries_at_def total_def [symmetric]
            batch_due_def mode_ok_def)
      then obtain a s' c' where acc: "admit_batch (s, c) packets ?first r now = (Inr a, (s', c'))"
        "ad_accepted a" "cache_ok c'" "appended s packets now s'" by blast
      have "pacer_ok (s', c')"
        by (rule appended_ok [OF acc(4) assms(1) acc(3) batch(4)])
          (use batch(2,3) assms(2) due(2) in \<open>auto simp: epochs_of_packet_def batch_due_def Let_def\<close>)
      with acc show thesis by (intro accepted)
    qed
  qed
qed

lemma appended_moves:
  assumes "appended s packets now s'" "pacer_ok (s', c')" "pacer_ok (s, c)" "batch_due s packets"
  shows "pacer_moves (s, c) [] packets (s', c')"
proof -
  have "ps_active_dependency_epoch (mp_snapshot s) \<le> id_dependency_epoch (identity (hd packets))"
    using assms(3,4) by (auto simp: batch_due_def pacer_ok_def mode_ok_def Let_def split: if_splits)
  with assms(1,2,4) show ?thesis
    by (simp add: pacer_moves_def packets_of_def active_epoch_def is_stopped_def appended_def
        batch_due_def Let_def)
qed

text \<open>The epochs stayed the same and no recovery was awaited.\<close>

definition kept_epoch :: "pacer_world \<Rightarrow> pacer_world \<Rightarrow> bool" where
  "kept_epoch w w' =
     (\<not> ps_awaiting_recovery (mp_snapshot (fst w)) \<and> active_epoch w' = active_epoch w \<and>
      ps_active_media_epoch (mp_snapshot (fst w')) = ps_active_media_epoch (mp_snapshot (fst w)))"

definition admitted_result ::
  "pacer_world \<Rightarrow> plaintext_rtp_packet list \<Rightarrow> u64 \<Rightarrow> media_pacer_admission \<Rightarrow> pacer_world \<Rightarrow> bool" where
  "admitted_result w packets now a w' =
     (if ad_accepted a
      then validate_batch_identity packets \<and> pacer_moves w [] packets w' \<and>
        (\<exists>kept. (kept = mp_queue (fst w) \<or> kept = []) \<and> mp_queue (fst w') = kept @ entries_at now packets) \<and>
        (ps_active_media_epoch (mp_snapshot (fst w')), active_epoch w') = epochs_of_packet (hd packets) \<and>
        (kept_epoch w w' \<or> is_recovery_access_unit packets)
      else pacer_moves w [] [] w' \<and> (mp_queue (fst w') = mp_queue (fst w) \<or> mp_queue (fst w') = []))"

lemma admitted_result_refused:
  "\<not> ad_accepted a \<Longrightarrow> pacer_moves w [] [] w' \<Longrightarrow>
     mp_queue (fst w') = mp_queue (fst w) \<or> mp_queue (fst w') = [] \<Longrightarrow> admitted_result w packets now a w'"
  by (simp add: admitted_result_def)

lemma admitted_result_after:
  assumes "pacer_moves w [] [] u" "mp_queue (fst u) = mp_queue (fst w) \<or> mp_queue (fst u) = []"
    and "kept_epoch u u \<Longrightarrow> kept_epoch w u" "admitted_result u packets now a w'"
  shows "admitted_result w packets now a w'"
proof -
  have kept: "kept_epoch w w'" if "kept_epoch u w'"
  proof -
    from that have "kept_epoch u u" by (simp add: kept_epoch_def)
    with assms(3) that show ?thesis by (simp add: kept_epoch_def)
  qed
  show ?thesis
  proof (cases "ad_accepted a")
    case True
    with assms(4) obtain q where q: "q = mp_queue (fst u) \<or> q = []" "mp_queue (fst w') = q @ entries_at now packets"
      by (auto simp: admitted_result_def)
    then have "q = mp_queue (fst w) \<or> q = []" using assms(2) by auto
    with True q assms(4) kept pacer_moves_quiet [OF assms(1)] show ?thesis
      by (auto simp: admitted_result_def)
  next
    case False
    with assms(2,4) pacer_moves_quiet [OF assms(1)] show ?thesis by (auto simp: admitted_result_def)
  qed
qed

lemma admit_batch_result:
  assumes "pacer_at now (s, c)" "batch_due s packets"
    and "ps_awaiting_recovery (mp_snapshot s) \<Longrightarrow> is_recovery_access_unit packets"
  shows "\<exists>a w'. admit_batch (s, c) packets (identity (hd packets)) r now = (Inr a, w') \<and>
    admitted_result (s, c) packets now a w'"
  using assms(1,2)
proof (cases rule: admit_batch_cases [of now s c packets r])
  case (too_large a s')
  then have "pacer_moves (s, c) [] [] (s', c)" by (intro same_state_moves)
  with too_large show ?thesis
    by (auto intro!: admitted_result_refused simp: same_state_def)
next
  case (purged a w')
  then show ?thesis by (auto intro!: admitted_result_refused)
next
  case (accepted a s' c')
  have "pacer_ok (s, c)" using assms(1) by (simp add: pacer_at_def)
  then have m: "pacer_moves (s, c) [] packets (s', c')"
    using accepted assms(2) by (intro appended_moves)
  have "kept_epoch (s, c) (s', c')" if "\<not> is_recovery_access_unit packets"
    using that assms(2,3) accepted(3)
    by (auto simp: kept_epoch_def batch_due_def appended_def active_epoch_def Let_def split: if_splits)
  moreover have "validate_batch_identity packets" using assms(2) by (simp add: batch_due_def Let_def)
  moreover have "mp_queue s' = mp_queue s @ entries_at now packets"
    "(ps_active_media_epoch (mp_snapshot s'), active_epoch (s', c')) = epochs_of_packet (hd packets)"
    using accepted(3) by (simp_all add: appended_def active_epoch_def epochs_of_packet_def Let_def)
  ultimately have "admitted_result (s, c) packets now a (s', c')"
    using accepted(2) m by (auto simp: admitted_result_def)
  with accepted(1) show ?thesis by blast
qed

lemma admit_reject_result:
  assumes "pacer_ok (s, c)"
  shows "\<exists>a w'. (case pacer_reject s reason rr u of (a, s) \<Rightarrow> (Inr a, (s, c))) = (Inr a, w') \<and>
    admitted_result (s, c) packets now a w'"
proof -
  have "admitted_result (s, c) packets now (fst (pacer_reject s reason rr u)) (snd (pacer_reject s reason rr u), c)"
    using reject_same [of s reason rr u] reject_moves [OF assms]
    by (intro admitted_result_refused) (simp_all add: same_state_def)
  then show ?thesis by (cases "pacer_reject s reason rr u") auto
qed

text \<open>\<open>admit_access_unit\<close> after the time and expiry checks.\<close>

definition rejected ::
  "media_pacer_queue \<Rightarrow> retransmission_cache \<Rightarrow> string \<Rightarrow> bool \<Rightarrow> (media_pacer_admission, pacer_world) outcome" where
  "rejected s c reason rr = (case pacer_reject s reason rr False of (a, s) \<Rightarrow> (Inr a, (s, c)))"

definition admit_checked ::
  "media_pacer_queue \<Rightarrow> retransmission_cache \<Rightarrow> plaintext_rtp_packet list \<Rightarrow> u64 \<Rightarrow>
     (media_pacer_admission, pacer_world) outcome" where
  "admit_checked s c packets now =
     (let p = mp_snapshot s in
      if ps_stopped p \<or> \<not> ps_admission_open p then rejected s c ''PACER_STOPPED'' False
      else if \<not> validate_batch_identity packets
        then rejected s c ''PACER_ACCESS_UNIT_INVALID'' (ps_awaiting_recovery p)
      else
        let first = identity (hd packets);
            recovery = is_recovery_access_unit packets
        in if ps_awaiting_recovery p \<and> \<not> recovery then rejected s c ''PACER_AWAITING_RECOVERY_IDR'' True
           else if ps_abandoned_dependency_epoch p \<noteq> 0 \<and>
                   id_dependency_epoch first \<le> ps_abandoned_dependency_epoch p
             then rejected s c ''PACER_ABANDONED_DEPENDENCY_EPOCH'' True
           else if \<not> ps_awaiting_recovery p \<and>
                   (id_media_epoch first \<noteq> ps_active_media_epoch p \<or>
                    id_dependency_epoch first \<noteq> ps_active_dependency_epoch p)
             then
               (case purge (s, c) False False True of
                  (s, c) \<Rightarrow>
                    if \<not> recovery \<or>
                       id_dependency_epoch first \<le> ps_abandoned_dependency_epoch (mp_snapshot s)
                      then rejected s c ''PACER_NEW_EPOCH_REQUIRES_RECOVERY_IDR'' True
                    else admit_batch (s, c) packets first recovery now)
           else admit_batch (s, c) packets first recovery now)"

lemma admit_access_unit_eq:
  "pacer_validate_time w now = (Inr (), u) \<Longrightarrow> expire_if_needed u now = (b, (s, c)) \<Longrightarrow>
     admit_access_unit w packets now = admit_checked s c packets now"
  by (simp only: admit_access_unit_def admit_checked_def rejected_def and_then_simps Let_def prod.case)

lemma rejected_result:
  "pacer_ok (s, c) \<Longrightarrow> \<exists>a w'. rejected s c reason rr = (Inr a, w') \<and> admitted_result (s, c) packets now a w'"
  unfolding rejected_def by (rule admit_reject_result)

definition admissible :: "media_pacer_queue \<Rightarrow> plaintext_rtp_packet list \<Rightarrow> bool" where
  "admissible s packets =
     (let p = mp_snapshot s in
      \<not> ps_stopped p \<and> ps_admission_open p \<and> validate_batch_identity packets \<and>
      (ps_awaiting_recovery p \<longrightarrow> is_recovery_access_unit packets) \<and>
      (ps_abandoned_dependency_epoch p \<noteq> 0 \<longrightarrow>
         ps_abandoned_dependency_epoch p < id_dependency_epoch (identity (hd packets))))"

lemma admit_checked_refused:
  "\<not> admissible s packets \<Longrightarrow> \<exists>reason rr. admit_checked s c packets now = rejected s c reason rr"
  by (auto simp: admissible_def admit_checked_def Let_def not_less)

definition epoch_changes :: "media_pacer_queue \<Rightarrow> plaintext_rtp_packet list \<Rightarrow> bool" where
  "epoch_changes s packets =
     (\<not> ps_awaiting_recovery (mp_snapshot s) \<and>
      (id_media_epoch (identity (hd packets)) \<noteq> ps_active_media_epoch (mp_snapshot s) \<or>
       id_dependency_epoch (identity (hd packets)) \<noteq> ps_active_dependency_epoch (mp_snapshot s)))"

lemma admit_checked_same:
  "admissible s packets \<Longrightarrow> \<not> epoch_changes s packets \<Longrightarrow>
     admit_checked s c packets now =
     admit_batch (s, c) packets (identity (hd packets)) (is_recovery_access_unit packets) now"
  by (auto simp: admissible_def epoch_changes_def admit_checked_def Let_def)

lemma admit_checked_change:
  "admissible s packets \<Longrightarrow> epoch_changes s packets \<Longrightarrow> purge (s, c) False False True = (s2, c2) \<Longrightarrow>
     admit_checked s c packets now =
       (if \<not> is_recovery_access_unit packets \<or>
           id_dependency_epoch (identity (hd packets)) \<le> ps_abandoned_dependency_epoch (mp_snapshot s2)
        then rejected s2 c2 ''PACER_NEW_EPOCH_REQUIRES_RECOVERY_IDR'' True
        else admit_batch (s2, c2) packets (identity (hd packets)) (is_recovery_access_unit packets) now)"
  by (auto simp: admissible_def epoch_changes_def admit_checked_def Let_def dest: leD)

lemma admit_change_result:
  assumes "pacer_at now (s, c)" "admissible s packets" "epoch_changes s packets"
  shows "\<exists>a w'. admit_checked s c packets now = (Inr a, w') \<and> admitted_result (s, c) packets now a w'"
proof -
  let ?first = "identity (hd packets)"
  obtain s2 c2 where pg: "purge (s, c) False False True = (s2, c2)" by (cases "purge (s, c) False False True")
  have ok: "pacer_ok (s, c)" using assms(1) by (simp add: pacer_at_def)
  have run: "\<not> is_stopped (s, c)" using assms(2) by (simp add: is_stopped_def admissible_def Let_def)
  have m2: "pacer_moves (s, c) [] [] (s2, c2)" using purge_moves [OF ok run, of False False] by (simp add: pg)
  note f = purge_fields [of "(s, c)" False False True, unfolded pg fst_conv snd_conv]
  have at2: "pacer_at now (s2, c2)" using m2 f(3) assms(1) by (simp add: pacer_at_def pacer_moves_def)
  have "\<exists>a w'. admit_checked s c packets now = (Inr a, w') \<and> admitted_result (s2, c2) packets now a w'"
  proof (cases "\<not> is_recovery_access_unit packets \<or>
      id_dependency_epoch ?first \<le> ps_abandoned_dependency_epoch (mp_snapshot s2)")
    case True
    then show ?thesis
      unfolding admit_checked_change [OF assms(2,3) pg] if_P [OF True]
      using at2 by (intro rejected_result) (simp add: pacer_at_def)
  next
    case False
    have "batch_due s2 packets"
      using False assms(2) run f(4,5) by (simp add: batch_due_def admissible_def is_stopped_def Let_def not_le)
    then show ?thesis
      unfolding admit_checked_change [OF assms(2,3) pg] if_not_P [OF False]
      using False by (intro admit_batch_result [OF at2]) auto
  qed
  then show ?thesis
    using admitted_result_after [OF m2, of packets now] f(1,5) by (auto simp: kept_epoch_def)
qed

lemma admit_same_result:
  assumes "pacer_at now (s, c)" "admissible s packets" "\<not> epoch_changes s packets"
  shows "\<exists>a w'. admit_checked s c packets now = (Inr a, w') \<and> admitted_result (s, c) packets now a w'"
proof -
  have "mode_ok s" "id_dependency_epoch (identity (hd packets)) \<noteq> 0"
    using assms(1,2) validate_batch_facts(3) [of packets]
    by (simp_all add: pacer_at_def pacer_ok_def admissible_def Let_def)
  then have "batch_due s packets"
    using assms(2,3)
    by (auto simp: batch_due_def admissible_def epoch_changes_def mode_ok_def Let_def word_greater_zero_iff)
  then show ?thesis
    unfolding admit_checked_same [OF assms(2,3)]
    using assms(2) by (intro admit_batch_result [OF assms(1)]) (simp_all add: admissible_def Let_def)
qed

lemma admit_checked_result:
  assumes "pacer_at now (s, c)"
  shows "\<exists>a w'. admit_checked s c packets now = (Inr a, w') \<and> admitted_result (s, c) packets now a w'"
proof (cases "admissible s packets")
  case True
  with assms show ?thesis
    by (cases "epoch_changes s packets") (blast intro: admit_change_result admit_same_result)+
next
  case False
  have "pacer_ok (s, c)" using assms by (simp add: pacer_at_def)
  with rejected_result admit_checked_refused [OF False, of c now] show ?thesis by metis
qed

lemma expire_kept_epoch:
  assumes "pacer_at now u" "expire_if_needed u now = (b, v)" "kept_epoch v v"
  shows "v = u"
  using assms(1)
proof (cases rule: expire_cases [of now u])
  case purged
  then have "v = purge u False True True" using assms(2) by simp
  with purge_fields(5) [of u False True True] assms(3) show ?thesis by (simp add: kept_epoch_def)
qed (use assms(2) in simp)

lemma admit_access_unit_cases:
  assumes "pacer_ok w"
  obtains (regressed) "time_regressed (mp_last_now (fst w)) now"
      "admit_access_unit w packets now = (Inl (Invalid_argument ''media pacer time moved backward''), w)"
  | (answered) a w' where "\<not> time_regressed (mp_last_now (fst w)) now"
      "admit_access_unit w packets now = (Inr a, w')" "admitted_result w packets now a w'"
  using assms
proof (cases rule: pacer_validate_cases [of w now, case_names old new])
  case old
  then show thesis by (intro regressed) (simp_all add: admit_access_unit_def)
next
  case (new u)
  obtain b v where ex: "expire_if_needed u now = (b, v)" and at: "pacer_at now v"
    and mu: "pacer_moves u [] [] v" and q: "mp_queue (fst v) = mp_queue (fst u) \<or> mp_queue (fst v) = []"
    by (rule expire_moves [OF new(3)])
  obtain s c where v: "v = (s, c)" by (cases v)
  have mw: "pacer_moves w [] [] (s, c)" using new(4) mu unfolding v by (rule pacer_moves_quiet)
  have ke: "kept_epoch w (s, c)" if "kept_epoch (s, c) (s, c)"
    using expire_kept_epoch [OF new(3) ex] that new(6) by (auto simp: v kept_epoch_def active_epoch_def)
  obtain a w' where r: "admit_checked s c packets now = (Inr a, w')" "admitted_result (s, c) packets now a w'"
    using admit_checked_result at unfolding v by blast
  have "admitted_result w packets now a w'"
    by (rule admitted_result_after [OF mw _ ke r(2)]) (use q new(5) in \<open>simp_all add: v\<close>)
  moreover have "admit_access_unit w packets now = (Inr a, w')"
    using admit_access_unit_eq [OF new(2) ex [unfolded v]] r(1) by simp
  ultimately show thesis using new(1) by (intro answered)
qed

section \<open>The other operations\<close>

definition retransmission_due :: "media_pacer_queue \<Rightarrow> plaintext_rtp_packet \<Rightarrow> bool" where
  "retransmission_due s packet =
     (let p = mp_snapshot s in
      \<not> (ps_stopped p \<or> ps_awaiting_recovery p \<or>
         id_media_epoch (identity packet) \<noteq> ps_active_media_epoch p \<or>
         id_dependency_epoch (identity packet) \<noteq> ps_active_dependency_epoch p))"

definition with_retransmission :: "media_pacer_queue \<Rightarrow> plaintext_rtp_packet \<Rightarrow> u64 \<Rightarrow> media_pacer_queue" where
  "with_retransmission s packet now =
     (let s = s\<lparr>mp_queue := mp_queue s @ [\<lparr>pe_packet = packet, pe_admitted_milliseconds = now\<rparr>]\<rparr>
      in on_snapshot (\<lambda>p. p\<lparr>ps_packets := length (mp_queue s),
           ps_bytes := size_add (ps_bytes p) (length (pkt_bytes packet)),
           ps_accepted_packets := saturating_add (ps_accepted_packets p) 1\<rparr>) s)"

definition retransmit_checked ::
  "media_pacer_queue \<Rightarrow> retransmission_cache \<Rightarrow> plaintext_rtp_packet \<Rightarrow> u64 \<Rightarrow>
     (media_pacer_admission, pacer_world) outcome" where
  "retransmit_checked s c packet now =
     (if \<not> retransmission_due s packet
        then rejected s c ''PACER_RETRANSMISSION_EPOCH_REJECTED'' (ps_awaiting_recovery (mp_snapshot s))
      else if length (pkt_bytes packet) > size_sub (cfg_maximum_bytes (mp_config s)) (ps_bytes (mp_snapshot s))
        then (case purge (s, c) True False True of
                (s, c) \<Rightarrow> rejected s c ''PACER_RETRANSMISSION_CAPACITY_PURGED_DEPENDENCY_EPOCH'' True)
      else (Inr \<lparr>ad_accepted = True, ad_recovery_required = False, ad_unusable_candidate = False,
                 ad_reason = ''PACER_RETRANSMISSION_ACCEPTED''\<rparr>, (with_retransmission s packet now, c)))"

lemma admit_retransmission_eq:
  "pacer_validate_time w now = (Inr (), u) \<Longrightarrow> expire_if_needed u now = (b, (s, c)) \<Longrightarrow>
     admit_retransmission w packet now = retransmit_checked s c packet now"
  by (simp only: admit_retransmission_def retransmit_checked_def rejected_def and_then_simps Let_def prod.case
      retransmission_due_def with_retransmission_def not_not)

definition retransmission_result ::
  "pacer_world \<Rightarrow> plaintext_rtp_packet \<Rightarrow> media_pacer_admission \<Rightarrow> pacer_world \<Rightarrow> bool" where
  "retransmission_result w packet a w' = pacer_moves w [] (if ad_accepted a then [packet] else []) w'"

lemma rejected_moves:
  assumes "pacer_ok (s, c)"
  shows "\<exists>a w'. rejected s c reason rr = (Inr a, w') \<and> retransmission_result (s, c) packet a w'"
proof -
  let ?r = "pacer_reject s reason rr False"
  have "rejected s c reason rr = (Inr (fst ?r), (snd ?r, c))" by (simp add: rejected_def split: prod.splits)
  with reject_same(3) [of s reason rr False] reject_moves [OF assms, of reason rr False] show ?thesis
    by (simp add: retransmission_result_def)
qed

lemma with_retransmission_appended:
  assumes "pacer_ok (s, c)" "retransmission_due s packet"
    and "length (pkt_bytes packet) \<le> cfg_maximum_bytes (mp_config s) - ps_bytes (mp_snapshot s)"
  shows "appended s [packet] now (with_retransmission s packet now)"
proof -
  have ok: "queue_ok s" "mode_ok s" using assms(1) by (simp_all add: pacer_ok_def)
  then have max: "cfg_maximum_bytes (mp_config s) < 2 ^ 64" "ps_bytes (mp_snapshot s) \<le> cfg_maximum_bytes (mp_config s)"
    by (auto simp: queue_ok_def dest: max_bytes_lt)
  then have "size_add (ps_bytes (mp_snapshot s)) (length (pkt_bytes packet)) =
      ps_bytes (mp_snapshot s) + length (pkt_bytes packet)" using assms(3) by (simp add: size_add_exact)
  with ok(2) assms(2,3) max show ?thesis
    by (simp add: appended_def with_retransmission_def retransmission_due_def mode_ok_def Let_def entries_at_def)
qed

lemma retransmit_checked_result:
  assumes "pacer_at now (s, c)"
  shows "\<exists>a w'. retransmit_checked s c packet now = (Inr a, w') \<and> retransmission_result (s, c) packet a w'"
proof -
  let ?room = "cfg_maximum_bytes (mp_config s) - ps_bytes (mp_snapshot s)"
  have ok: "pacer_ok (s, c)" "queue_ok s" using assms by (simp_all add: pacer_at_def pacer_ok_def)
  then have "cfg_maximum_bytes (mp_config s) < 2 ^ 64" "ps_bytes (mp_snapshot s) \<le> cfg_maximum_bytes (mp_config s)"
    by (auto simp: queue_ok_def dest: max_bytes_lt)
  then have room: "size_sub (cfg_maximum_bytes (mp_config s)) (ps_bytes (mp_snapshot s)) = ?room"
    by (simp add: size_sub_exact)
  show ?thesis
  proof (cases "retransmission_due s packet")
    case due: True
    then have run: "\<not> is_stopped (s, c)" by (simp add: retransmission_due_def is_stopped_def Let_def)
    show ?thesis
    proof (cases "length (pkt_bytes packet) > ?room")
      case True
      obtain s2 c2 where pg: "purge (s, c) True False True = (s2, c2)" by (cases "purge (s, c) True False True")
      have m: "pacer_moves (s, c) [] [] (s2, c2)" using purge_moves [OF ok(1) run, of True False] by (simp add: pg)
      then have "pacer_ok (s2, c2)" by (simp add: pacer_moves_def)
      from rejected_moves [OF this, of "''PACER_RETRANSMISSION_CAPACITY_PURGED_DEPENDENCY_EPOCH''" True packet]
      obtain a w' where "rejected s2 c2 ''PACER_RETRANSMISSION_CAPACITY_PURGED_DEPENDENCY_EPOCH'' True = (Inr a, w')"
        "retransmission_result (s2, c2) packet a w'" by blast
      with due True room m show ?thesis
        by (auto simp: retransmit_checked_def pg retransmission_result_def intro: pacer_moves_quiet)
    next
      case False
      then have app: "appended s [packet] now (with_retransmission s packet now)"
        using ok(1) due by (intro with_retransmission_appended) simp_all
      have "pacer_ok (with_retransmission s packet now, c)"
        by (rule appended_ok [OF app assms])
          (use due ok in \<open>auto simp: pacer_ok_def mode_ok_def retransmission_due_def Let_def epochs_of_packet_def\<close>)
      then have "pacer_moves (s, c) [] [packet] (with_retransmission s packet now, c)"
        using app due
        by (simp add: pacer_moves_def packets_of_def active_epoch_def is_stopped_def appended_def
            retransmission_due_def Let_def)
      with due False room show ?thesis by (simp add: retransmit_checked_def retransmission_result_def)
    qed
  next
    case False
    with rejected_moves [OF ok(1)] show ?thesis by (simp add: retransmit_checked_def)
  qed
qed

lemma admit_retransmission_cases:
  assumes "pacer_ok w"
  obtains (regressed) "time_regressed (mp_last_now (fst w)) now"
      "admit_retransmission w packet now = (Inl (Invalid_argument ''media pacer time moved backward''), w)"
  | (answered) a w' where "\<not> time_regressed (mp_last_now (fst w)) now"
      "admit_retransmission w packet now = (Inr a, w')" "retransmission_result w packet a w'"
  using assms
proof (cases rule: pacer_validate_cases [of w now, case_names old new])
  case old
  then show thesis by (intro regressed) (simp_all add: admit_retransmission_def)
next
  case (new u)
  obtain b v where ex: "expire_if_needed u now = (b, v)" and at: "pacer_at now v"
    and mu: "pacer_moves u [] [] v" by (rule expire_moves [OF new(3)])
  obtain s c where v: "v = (s, c)" by (cases v)
  have mw: "pacer_moves w [] [] (s, c)" using new(4) mu unfolding v by (rule pacer_moves_quiet)
  obtain a w' where r: "retransmit_checked s c packet now = (Inr a, w')" "retransmission_result (s, c) packet a w'"
    using retransmit_checked_result at unfolding v by blast
  have "retransmission_result w packet a w'"
    using r(2) pacer_moves_quiet [OF mw] by (simp add: retransmission_result_def)
  moreover have "admit_retransmission w packet now = (Inr a, w')"
    using admit_retransmission_eq [OF new(2) ex [unfolded v]] r(1) by simp
  ultimately show thesis using new(1) by (intro answered)
qed

lemma pacer_stop_moves:
  assumes "pacer_ok w"
  shows "pacer_moves w [] [] (pacer_stop w)" "is_stopped (pacer_stop w)"
proof -
  show "is_stopped (pacer_stop w)" by (auto simp: pacer_stop_def is_stopped_def split: prod.splits)
  show "pacer_moves w [] [] (pacer_stop w)"
  proof (cases "ps_stopped (mp_snapshot (fst w))")
    case True
    with assms show ?thesis by (simp add: pacer_stop_def pacer_moves_def)
  next
    case False
    obtain s c where pg: "purge w False False False = (s, c)" by (cases "purge w False False False")
    note f = purge_fields [of w False False False, unfolded pg fst_conv snd_conv]
    let ?s = "on_snapshot (\<lambda>p. p\<lparr>ps_stopped := True, ps_admission_open := False, ps_awaiting_recovery := False\<rparr>) s"
    have "pacer_ok (?s, c)"
      using assms f by (auto simp: pacer_ok_def queue_ok_def mode_ok_def tokens_ok_def Let_def cache_clear_ok)
    with False f show ?thesis
      by (simp add: pacer_stop_def pg pacer_moves_def packets_of_def active_epoch_def is_stopped_def)
  qed
qed

lemma require_recovery_moves: "pacer_ok w \<Longrightarrow> pacer_moves w [] [] (snd (require_recovery w))"
  using purge_moves [of w False False] by (simp add: require_recovery_def Let_def pacer_moves_def is_stopped_def)

definition with_target :: "media_pacer_queue \<Rightarrow> double \<Rightarrow> bool \<Rightarrow> media_pacer_queue" where
  "with_target s target first_configuration =
     (let burst = d_div target (Fin 80);
          tokens = (if first_configuration then burst else d_min (mp_tokens_bytes s) burst)
      in on_snapshot (\<lambda>p. p\<lparr>ps_target_bits_per_second := target, ps_burst_capacity_bytes := burst,
                            ps_available_tokens_bytes := tokens\<rparr>)
           (s\<lparr>mp_target_bits_per_second := target, mp_burst_capacity_bytes := burst, mp_tokens_bytes := tokens\<rparr>))"

lemma set_target_eq:
  "pacer_validate_time w now = (Inr (), (s, c)) \<Longrightarrow>
     set_target_bits_per_second w target now =
       (if \<not> d_isfinite target \<or> d_less target (Fin 0)
        then (Inl (Invalid_argument ''media pacer target must be finite and nonnegative''), (s, c))
        else (Inr (), (with_target (refill s now) target (mp_token_timestamp s = None), c)))"
  by (simp only: set_target_bits_per_second_def with_target_def and_then_simps Let_def prod.case)

lemma with_target_same: "same_state s (with_target s target b)"
  by (simp add: same_state_def with_target_def Let_def)

lemma with_target_tokens:
  assumes "tokens_ok s" "0 \<le> t"
  shows "tokens_ok (with_target s (Fin t) b)"
proof -
  have "tokens_ok (with_target s (Fin t) b) = tokens_ok (s\<lparr>mp_target_bits_per_second := Fin t,
      mp_burst_capacity_bytes := d_div (Fin t) (Fin 80),
      mp_tokens_bytes := (if b then d_div (Fin t) (Fin 80) else d_min (mp_tokens_bytes s) (d_div (Fin t) (Fin 80)))\<rparr>)"
    by (simp add: tokens_ok_def with_target_def Let_def del: d_div.simps)
  with set_target_tokens [OF assms] show ?thesis by blast
qed

lemma refill_same: "same_state s (refill s now)"
  by (simp add: same_state_def)

lemma refill_ok: "pacer_ok (s, c) \<Longrightarrow> pacer_ok (refill s now, c)"
  by (simp add: pacer_ok_def refill_tokens_ok same_state_queue_ok [OF refill_same]
      same_state_mode_ok [OF refill_same])

lemma set_target_moves:
  assumes "pacer_ok w"
  shows "pacer_moves w [] [] (snd (set_target_bits_per_second w target now))"
  using assms
proof (cases rule: pacer_validate_cases [of w now])
  case regressed
  with assms show ?thesis by (simp add: set_target_bits_per_second_def pacer_moves_def)
next
  case (fresh u)
  obtain s c where u: "u = (s, c)" by (cases u)
  have ok: "pacer_ok (s, c)" using fresh(3) by (simp add: u pacer_at_def)
  note eq = set_target_eq [OF fresh(2) [unfolded u], of target]
  show ?thesis
  proof (cases "\<not> d_isfinite target \<or> d_less target (Fin 0)")
    case True
    with fresh(4) show ?thesis by (simp add: eq u)
  next
    case False
    then obtain t where t: "target = Fin t" "0 \<le> t" by (cases target) (auto simp: d_isfinite_def)
    let ?s = "with_target (refill s now) target (mp_token_timestamp s = None)"
    have r: "pacer_ok (refill s now, c)" using ok by (rule refill_ok)
    have "pacer_ok (?s, c)"
      by (rule same_state_ok [OF with_target_same r])
        (use r t with_target_tokens in \<open>auto simp: pacer_ok_def\<close>)
    moreover have "same_state s ?s"
      using with_target_same [of "refill s now"] refill_same [of s now] by (simp add: same_state_def Let_def)
    ultimately have "pacer_moves (s, c) [] [] (?s, c)" by (intro same_state_moves)
    with fresh(4) have "pacer_moves w [] [] (?s, c)" unfolding u by (rule pacer_moves_quiet)
    with False show ?thesis by (simp add: eq)
  qed
qed

section \<open>Dequeueing\<close>

definition published :: "media_pacer_queue \<Rightarrow> media_pacer_queue" where
  "published s = on_snapshot (\<lambda>p. p\<lparr>ps_available_tokens_bytes := mp_tokens_bytes s\<rparr>) s"

definition without_front :: "media_pacer_queue \<Rightarrow> plaintext_rtp_packet \<Rightarrow> pacer_entry list \<Rightarrow> media_pacer_queue" where
  "without_front s packet rest =
     (let tokens = d_sub (mp_tokens_bytes s) (d_of_nat (length (pkt_bytes packet)))
      in on_snapshot (\<lambda>p. p\<lparr>ps_packets := length rest,
           ps_bytes := size_sub (ps_bytes p) (length (pkt_bytes packet)),
           ps_available_tokens_bytes := tokens,
           ps_dequeued_packets := saturating_add (ps_dequeued_packets p) 1\<rparr>)
         (s\<lparr>mp_tokens_bytes := tokens, mp_queue := rest\<rparr>))"

definition dequeue_checked :: "media_pacer_queue \<Rightarrow> retransmission_cache \<Rightarrow> (media_pacer_dequeue, pacer_world) outcome" where
  "dequeue_checked s c =
     (case mp_queue s of
        [] \<Rightarrow>
          (Inr \<lparr>dq_packet = None, dq_recovery_required = ps_awaiting_recovery (mp_snapshot s),
                dq_reason = (if ps_awaiting_recovery (mp_snapshot s)
                             then ''PACER_AWAITING_RECOVERY_IDR'' else ''PACER_EMPTY'')\<rparr>, (s, c))
      | front # rest \<Rightarrow>
          if d_less (mp_tokens_bytes s) (d_of_nat (length (pkt_bytes (pe_packet front))))
          then (Inr \<lparr>dq_packet = None, dq_recovery_required = False,
                     dq_reason = ''PACER_TOKENS_UNAVAILABLE''\<rparr>, (s, c))
          else (Inr \<lparr>dq_packet = Some (pe_packet front), dq_recovery_required = False,
                     dq_reason = ''PACER_PACKET_DEQUEUED''\<rparr>,
                (without_front s (pe_packet front) rest, c)))"

lemma pacer_dequeue_eq:
  "pacer_validate_time w now = (Inr (), (s, c)) \<Longrightarrow>
     pacer_dequeue w now =
       (case expire_if_needed (published (refill s now), c) now of
          (True, w) \<Rightarrow>
            (Inr \<lparr>dq_packet = None, dq_recovery_required = True,
                  dq_reason = ''PACER_AGE_PURGED_DEPENDENCY_EPOCH''\<rparr>, w)
        | (False, (s, c)) \<Rightarrow> dequeue_checked s c)"
  by (simp only: pacer_dequeue_def dequeue_checked_def published_def without_front_def and_then_simps
      Let_def prod.case)

lemma published_ok: "pacer_ok (s, c) \<Longrightarrow> pacer_ok (published s, c)" and published_same: "same_state s (published s)"
proof -
  show same: "same_state s (published s)" by (simp add: same_state_def published_def)
  then show "pacer_ok (s, c) \<Longrightarrow> pacer_ok (published s, c)"
    by (simp add: pacer_ok_def same_state_queue_ok [OF same] same_state_mode_ok [OF same])
      (simp add: tokens_ok_def published_def)
qed

text \<open>A packet may leave: it is young, and the tokens pay for it.\<close>

definition paid :: "double \<Rightarrow> plaintext_rtp_packet \<Rightarrow> double \<Rightarrow> bool" where
  "paid tokens packet tokens' =
     (\<not> d_less tokens (Fin (of_nat (length (pkt_bytes packet)))) \<and>
      tokens' = d_sub tokens (Fin (of_nat (length (pkt_bytes packet)))))"

lemma queued_size_exact:
  assumes "queue_ok s" "e \<in> set (mp_queue s)"
  shows "d_of_nat (length (pkt_bytes (pe_packet e))) = Fin (of_nat (length (pkt_bytes (pe_packet e))))"
proof (rule d_of_nat_exact)
  have "length (pkt_bytes (pe_packet e)) \<le> queue_bytes (mp_queue s)"
    unfolding queue_bytes_def using assms(2) by (intro member_le_sum_list) auto
  also have "\<dots> \<le> 4 * 1024 * 1024" using assms(1) by (auto simp: queue_ok_def config_ok_def)
  finally show "length (pkt_bytes (pe_packet e)) < 2 ^ 53" by simp
qed

lemma without_front_moves:
  assumes "pacer_ok (s, c)" "mp_queue s = e # rest"
    and "\<not> d_less (mp_tokens_bytes s) (d_of_nat (length (pkt_bytes (pe_packet e))))"
  defines "s' \<equiv> without_front s (pe_packet e) rest"
  shows "pacer_moves (s, c) [pe_packet e] [] (s', c)" "mp_queue s' = rest"
    "paid (mp_tokens_bytes s) (pe_packet e) (mp_tokens_bytes s')"
proof -
  have ok: "queue_ok s" "mode_ok s" "tokens_ok s" "cache_ok c" using assms(1) by (simp_all add: pacer_ok_def)
  have size: "d_of_nat (length (pkt_bytes (pe_packet e))) = Fin (of_nat (length (pkt_bytes (pe_packet e))))"
    using queued_size_exact [OF ok(1), of e] assms(2) by simp
  show "mp_queue s' = rest" by (simp add: s'_def without_front_def Let_def)
  show paid: "paid (mp_tokens_bytes s) (pe_packet e) (mp_tokens_bytes s')"
    using assms(3) by (simp add: s'_def without_front_def Let_def paid_def size)
  have "config_ok (mp_config s)" "ps_bytes (mp_snapshot s) \<le> cfg_maximum_bytes (mp_config s)"
    "ps_bytes (mp_snapshot s) = length (pkt_bytes (pe_packet e)) + queue_bytes rest"
    using ok(1) assms(2) by (simp_all add: queue_ok_def)
  then have "size_sub (ps_bytes (mp_snapshot s)) (length (pkt_bytes (pe_packet e))) = queue_bytes rest"
    using max_bytes_lt [of "mp_config s"] by (simp add: size_sub_exact)
  then have "queue_ok s'"
    using ok(1) assms(2)
    by (auto simp: queue_ok_def s'_def without_front_def Let_def entry_current_def)
  moreover have "mode_ok s'"
    using ok(2) assms(2) by (auto simp: mode_ok_def s'_def without_front_def Let_def)
  moreover have "tokens_ok s'"
  proof -
    have "d_clean (mp_tokens_bytes s') \<and> d_le (mp_tokens_bytes s') (mp_tokens_bytes s)"
      using d_pay [of "mp_tokens_bytes s" "of_nat (length (pkt_bytes (pe_packet e)))"] paid ok(3)
      by (simp add: paid_def tokens_ok_def)
    then show ?thesis
      using ok(3) by (auto simp: tokens_ok_def s'_def without_front_def Let_def intro: d_le_trans)
  qed
  ultimately show "pacer_moves (s, c) [pe_packet e] [] (s', c)"
    using ok(4) assms(2)
    by (simp add: pacer_moves_def pacer_ok_def packets_of_def active_epoch_def is_stopped_def)
      (simp add: s'_def without_front_def Let_def)
qed

lemma pacer_dequeue_cases:
  assumes "pacer_ok w"
  obtains (regressed) "time_regressed (mp_last_now (fst w)) now"
      "pacer_dequeue w now = (Inl (Invalid_argument ''media pacer time moved backward''), w)"
  | (waits) d w' where "\<not> time_regressed (mp_last_now (fst w)) now" "pacer_dequeue w now = (Inr d, w')"
      "dq_packet d = None" "pacer_moves w [] [] w'"
  | (sent) d w' e where "\<not> time_regressed (mp_last_now (fst w)) now" "pacer_dequeue w now = (Inr d, w')"
      "dq_packet d = Some (pe_packet e)" "mp_queue (fst w) = e # mp_queue (fst w')"
      "pacer_moves w [pe_packet e] [] w'" "front_young now (fst w)"
      "paid (mp_tokens_bytes (refill (fst w) now)) (pe_packet e) (mp_tokens_bytes (fst w'))"
  using assms
proof (cases rule: pacer_validate_cases [of w now, case_names old new])
  case old
  then show thesis by (intro regressed) (simp_all add: pacer_dequeue_def)
next
  case (new u)
  obtain s c where u: "u = (s, c)" by (cases u)
  let ?s = "published (refill s now)"
  have ok: "pacer_ok (s, c)" "mp_last_now s = Some now" using new(3) by (simp_all add: u pacer_at_def)
  have okr: "pacer_ok (?s, c)" using ok by (intro published_ok refill_ok)
  have same: "same_state s ?s"
    using refill_same [of s now] published_same [of "refill s now"] by (simp add: same_state_def Let_def)
  have m: "pacer_moves w [] [] (?s, c)"
    using new(4) same_state_moves [OF same okr, of c] unfolding u by (rule pacer_moves_quiet)
  have at: "pacer_at now (?s, c)" using okr same ok(2) by (simp add: pacer_at_def same_state_def)
  have q: "mp_queue ?s = mp_queue (fst w)" "mp_config ?s = mp_config (fst w)"
    using same new(5,7) by (simp_all add: same_state_def u)
  have tok: "mp_tokens_bytes ?s = mp_tokens_bytes (refill (fst w) now)"
    using new(10) by (simp add: published_def u refill_def Let_def split: option.splits)
  note eq = pacer_dequeue_eq [OF new(2) [unfolded u]]
  from at show thesis
  proof (cases rule: expire_cases [of now "(?s, c)"])
    case purged
    then have "pacer_moves w [] [] (purge (?s, c) False True True)" using m by (blast intro: pacer_moves_quiet)
    moreover have "\<exists>d. pacer_dequeue w now = (Inr d, purge (?s, c) False True True) \<and> dq_packet d = None"
      using purged(1) eq by simp
    ultimately show thesis using new(1) by (auto intro: waits)
  next
    case kept
    have young: "front_young now (fst w)" using kept(2) q by (simp add: front_young_def)
    have eq': "pacer_dequeue w now = dequeue_checked ?s c" using eq kept(1) by simp
    show thesis
    proof (cases "mp_queue ?s")
      case Nil
      then have "\<exists>d. pacer_dequeue w now = (Inr d, (?s, c)) \<and> dq_packet d = None"
        using eq' by (simp add: dequeue_checked_def)
      with new(1) m show thesis by (auto intro: waits)
    next
      case (Cons e rest)
      show thesis
      proof (cases "d_less (mp_tokens_bytes ?s) (d_of_nat (length (pkt_bytes (pe_packet e))))")
        case True
        then have "\<exists>d. pacer_dequeue w now = (Inr d, (?s, c)) \<and> dq_packet d = None"
          using Cons eq' by (simp add: dequeue_checked_def)
        with new(1) m show thesis by (auto intro: waits)
      next
        case False
        let ?s' = "without_front ?s (pe_packet e) rest"
        note f = without_front_moves [OF okr Cons False]
        have "pacer_moves w [pe_packet e] [] (?s', c)" using m f(1) by (rule pacer_moves_quiet)
        moreover have "\<exists>d. pacer_dequeue w now = (Inr d, (?s', c)) \<and> dq_packet d = Some (pe_packet e)"
          using eq' Cons False by (simp add: dequeue_checked_def)
        ultimately show thesis
          using new(1) young q(1) Cons f(2,3) tok by (auto intro: sent)
      qed
    qed
  qed
qed

section \<open>Any sequence of calls\<close>

datatype pacer_op =
    P_target double u64
  | P_admit "plaintext_rtp_packet list" u64
  | P_retransmit plaintext_rtp_packet u64
  | P_dequeue u64
  | P_require_recovery
  | P_stop
  | P_cache cache_op

fun pacer_step :: "pacer_world \<Rightarrow> pacer_op \<Rightarrow> pacer_world" where
  "pacer_step w (P_target target now) = snd (set_target_bits_per_second w target now)"
| "pacer_step w (P_admit packets now) = snd (admit_access_unit w packets now)"
| "pacer_step w (P_retransmit packet now) = snd (admit_retransmission w packet now)"
| "pacer_step w (P_dequeue now) = snd (pacer_dequeue w now)"
| "pacer_step w P_require_recovery = snd (require_recovery w)"
| "pacer_step w P_stop = pacer_stop w"
| "pacer_step w (P_cache op) = (fst w, cache_step (snd w) op)"

text \<open>The packets a call takes in and hands out.\<close>

fun taken_in :: "pacer_world \<Rightarrow> pacer_op \<Rightarrow> plaintext_rtp_packet list" where
  "taken_in w (P_admit packets now) =
     (case fst (admit_access_unit w packets now) of
        Inl _ \<Rightarrow> [] | Inr a \<Rightarrow> if ad_accepted a then packets else [])"
| "taken_in w (P_retransmit packet now) =
     (case fst (admit_retransmission w packet now) of
        Inl _ \<Rightarrow> [] | Inr a \<Rightarrow> if ad_accepted a then [packet] else [])"
| "taken_in w _ = []"

fun handed_out :: "pacer_world \<Rightarrow> pacer_op \<Rightarrow> plaintext_rtp_packet list" where
  "handed_out w (P_dequeue now) =
     (case fst (pacer_dequeue w now) of
        Inl _ \<Rightarrow> [] | Inr d \<Rightarrow> (case dq_packet d of None \<Rightarrow> [] | Some p \<Rightarrow> [p]))"
| "handed_out w _ = []"

fun all_of :: "(pacer_world \<Rightarrow> pacer_op \<Rightarrow> plaintext_rtp_packet list) \<Rightarrow> pacer_world \<Rightarrow> pacer_op list \<Rightarrow>
    plaintext_rtp_packet list" where
  "all_of f w [] = []"
| "all_of f w (op # ops) = f w op @ all_of f (pacer_step w op) ops"

lemma pacer_step_moves:
  assumes "pacer_ok w"
  shows "pacer_moves w (handed_out w op) (taken_in w op) (pacer_step w op)"
proof (cases op)
  case (P_target target now)
  with set_target_moves [OF assms] show ?thesis by simp
next
  case (P_admit packets now)
  from assms show ?thesis
    by (cases rule: admit_access_unit_cases [of w now packets])
      (use assms in \<open>auto simp: P_admit admitted_result_def pacer_moves_def [of w "[]" "[]" w] split: if_splits\<close>)
next
  case (P_retransmit packet now)
  from assms show ?thesis
    by (cases rule: admit_retransmission_cases [of w now packet])
      (use assms in \<open>auto simp: P_retransmit retransmission_result_def pacer_moves_def [of w "[]" "[]" w]\<close>)
next
  case (P_dequeue now)
  from assms show ?thesis
    by (cases rule: pacer_dequeue_cases [of w now])
      (use assms in \<open>auto simp: P_dequeue pacer_moves_def [of w "[]" "[]" w]\<close>)
next
  case P_require_recovery
  with require_recovery_moves [OF assms] show ?thesis by simp
next
  case P_stop
  with pacer_stop_moves [OF assms] show ?thesis by simp
next
  case (P_cache op')
  have "pacer_ok (fst w, cache_step (snd w) op')" using assms by (simp add: pacer_ok_def cache_step_ok)
  then show ?thesis
    by (simp add: P_cache pacer_moves_def packets_of_def active_epoch_def is_stopped_def)
qed

interpretation pacer: ranked_machine pacer_step pacer_ok active_epoch
  by unfold_locales (use pacer_step_moves in \<open>auto simp: pacer_moves_def\<close>)

interpretation pacer_latch: latched_machine pacer_step pacer_ok is_stopped
  by unfold_locales (use pacer_step_moves in \<open>auto simp: pacer_moves_def\<close>)

lemma pacer_run_moves:
  "pacer_ok w \<Longrightarrow> pacer_moves w (all_of handed_out w ops) (all_of taken_in w ops) (foldl pacer_step w ops)"
proof (induction ops arbitrary: w)
  case Nil
  then show ?case by (simp add: pacer_moves_def)
next
  case (Cons op ops)
  have m: "pacer_moves w (handed_out w op) (taken_in w op) (pacer_step w op)"
    using Cons.prems by (rule pacer_step_moves)
  then have "pacer_ok (pacer_step w op)" by (simp add: pacer_moves_def)
  from pacer_moves_trans [OF m Cons.IH [OF this]] show ?case by simp
qed

section \<open>Properties\<close>

text \<open>C10 (invariant). Whatever is called in whatever order on a new pacer, by it and by the other
  holders of the cache: the byte and packet counts are exact and within the configured bound, the
  queue holds packets of the active epochs only and in admission order, it is empty while recovery
  is awaited or after a stop, the tokens are never negative, never NaN and never above the burst
  capacity, and the cache keeps its own invariant.\<close>

theorem media_pacer_invariant:
  assumes "make_pacer g = Inr s"
  shows "pacer_ok (foldl pacer_step (s, new_cache) ops)"
  by (rule pacer.run_inv [OF make_pacer_ok [OF assms new_cache_ok]])

definition sample_pacer :: media_pacer_queue where
  "sample_pacer =
     \<lparr>mp_config = \<lparr>cfg_maximum_bytes = 4194304, cfg_maximum_age_milliseconds = 100\<rparr>, mp_queue = [],
      mp_snapshot = new_pacer_snapshot\<lparr>ps_maximum_bytes := 4194304, ps_maximum_age_milliseconds := 100\<rparr>,
      mp_last_now = None, mp_token_timestamp = None, mp_target_bits_per_second = Fin 0,
      mp_tokens_bytes = Fin 0, mp_burst_capacity_bytes = Fin 0\<rparr>"

lemma make_sample_pacer:
  "make_pacer \<lparr>cfg_maximum_bytes = 4194304, cfg_maximum_age_milliseconds = 100\<rparr> = Inr sample_pacer"
  by (simp add: make_pacer_def sample_pacer_def)

lemma sample_pacer_ok: "pacer_ok (sample_pacer, new_cache)"
  by (rule make_pacer_ok [OF make_sample_pacer new_cache_ok])

theorem media_pacer_invariant_witness:
  "pacer_ok (foldl pacer_step (sample_pacer, new_cache) [P_target (Fin 8000) 1, P_dequeue 5, P_stop])"
  by (rule media_pacer_invariant [OF make_sample_pacer])

text \<open>C28 (safety). The pacer neither reorders, duplicates nor invents packets: over any sequence of
  calls the packets handed out are, in order, a subsequence of the packets taken in; and the active
  dependency epoch never goes back.\<close>

theorem media_pacer_fifo:
  assumes "make_pacer g = Inr s"
  shows "subseq (all_of handed_out (s, new_cache) ops) (all_of taken_in (s, new_cache) ops) \<and>
    active_epoch (foldl pacer_step (s, new_cache) ops) \<le>
      active_epoch (foldl pacer_step (s, new_cache) (ops @ later))"
proof -
  let ?w = "(s, new_cache)"
  have ok: "pacer_ok ?w" by (rule make_pacer_ok [OF assms new_cache_ok])
  have "packets_of ?w = []" using assms by (auto simp: make_pacer_def packets_of_def split: if_splits)
  with pacer_run_moves [OF ok, of ops]
  have "subseq (all_of handed_out ?w ops @ packets_of (foldl pacer_step ?w ops)) (all_of taken_in ?w ops)"
    by (simp add: pacer_moves_def)
  then have "subseq (all_of handed_out ?w ops) (all_of taken_in ?w ops)"
    by (rule subseq_order.trans [rotated]) (simp add: prefix_imp_subseq)
  moreover have "active_epoch (foldl pacer_step ?w ops) \<le> active_epoch (foldl pacer_step ?w (ops @ later))"
    using pacer.run_rank [OF pacer.run_inv [OF ok]] by simp
  ultimately show ?thesis by blast
qed

theorem media_pacer_fifo_witness:
  "subseq (all_of handed_out (sample_pacer, new_cache) [P_admit [sample_packet] 1, P_dequeue 2])
     (all_of taken_in (sample_pacer, new_cache) [P_admit [sample_packet] 1, P_dequeue 2])"
  using media_pacer_fifo [OF make_sample_pacer, of "[P_admit [sample_packet] 1, P_dequeue 2]" "[]"] by blast

text \<open>Admission at a time that does not run backwards never throws and is atomic:
  an accepted access unit is a well-formed batch of one epoch pair that becomes the active one, all
  its packets are appended in order, and it carries SPS, PPS and IDR unless the epochs stay the
  same and no recovery was awaited; a refused one leaves no packet of it in the queue, which is
  then unchanged or purged as a whole.\<close>

lemma admit_access_unit_atomic:
  assumes "pacer_ok w" "\<not> time_regressed (mp_last_now (fst w)) now"
  shows "\<exists>a w'. admit_access_unit w packets now = (Inr a, w') \<and> pacer_ok w' \<and>
    (if ad_accepted a
     then validate_batch_identity packets \<and>
       (\<exists>kept. (kept = mp_queue (fst w) \<or> kept = []) \<and> mp_queue (fst w') = kept @ entries_at now packets) \<and>
       (ps_active_media_epoch (mp_snapshot (fst w')), active_epoch w') = epochs_of_packet (hd packets) \<and>
       (kept_epoch w w' \<or> is_recovery_access_unit packets)
     else mp_queue (fst w') = mp_queue (fst w) \<or> mp_queue (fst w') = [])"
  using assms(1)
proof (cases rule: admit_access_unit_cases [of w now packets])
  case regressed
  with assms(2) show ?thesis by simp
next
  case (answered a w')
  then have "pacer_ok w'" by (auto simp: admitted_result_def pacer_moves_def split: if_splits)
  with answered show ?thesis by (auto simp: admitted_result_def split: if_splits)
qed

lemma admit_access_unit_atomic_witness:
  "\<exists>a w'. admit_access_unit (sample_pacer, new_cache) [sample_packet] 1 = (Inr a, w') \<and>
     (ad_accepted a \<or> mp_queue (fst w') = [])"
proof -
  have "mp_last_now sample_pacer = None" "mp_queue sample_pacer = []" by (simp_all add: sample_pacer_def)
  with admit_access_unit_atomic [OF sample_pacer_ok, of 1 "[sample_packet]"] show ?thesis
    by (auto split: if_splits)
qed

text \<open>A packet that leaves the pacer is the front of the queue, was admitted less than
  the configured maximum age (at most 100 ms) ago, belongs to the active epochs, and its size was
  available in tokens and is deducted from them.\<close>

lemma pacer_dequeue_paid_and_fresh:
  assumes "pacer_ok w" "pacer_dequeue w now = (Inr d, w')" "dq_packet d = Some p"
  shows "\<exists>e. mp_queue (fst w) = e # mp_queue (fst w') \<and> pe_packet e = p \<and>
    unat now - unat (pe_admitted_milliseconds e) < unat (cfg_maximum_age_milliseconds (mp_config (fst w))) \<and>
    epochs_of_packet p = (ps_active_media_epoch (mp_snapshot (fst w)), active_epoch w) \<and>
    paid (mp_tokens_bytes (refill (fst w) now)) p (mp_tokens_bytes (fst w'))"
  using assms(1)
proof (cases rule: pacer_dequeue_cases [of w now])
  case (sent d' u e)
  then have eq: "u = w'" "pe_packet e = p" using assms(2,3) by auto
  have mem: "e \<in> set (mp_queue (fst w))" using sent(4) by simp
  have "entry_current (fst w) e" using assms(1) mem by (simp add: pacer_ok_def queue_ok_def)
  then have "epochs_of_packet p = (ps_active_media_epoch (mp_snapshot (fst w)), active_epoch w)"
    by (simp add: entry_current_def epochs_of_packet_def active_epoch_def eq(2))
  with sent mem eq show ?thesis by (auto simp: front_young_def)
qed (use assms in auto)

definition loaded_pacer :: media_pacer_queue where
  "loaded_pacer = sample_pacer
     \<lparr>mp_queue := entries_at 0 [sample_packet],
      mp_snapshot := (mp_snapshot sample_pacer)\<lparr>ps_packets := 1, ps_bytes := 15, ps_awaiting_recovery := False,
        ps_active_media_epoch := 1, ps_active_dependency_epoch := 1\<rparr>,
      mp_last_now := Some 0, mp_burst_capacity_bytes := Fin 100\<rparr>"

lemma sample_packet_facts:
  "length (pkt_bytes sample_packet) = 15" "epochs_of_packet sample_packet = (1, 1)"
  by (simp add: sample_packet_def make_packet_bytes)
    (simp add: sample_packet_def make_packet_def Let_def sample_input_def epochs_of_packet_def)

lemma clean_100: "d_clean (Fin 100)"
proof -
  have "(100 :: rat) < 2 ^ 1024" by (rule less_le_trans [of _ "2 ^ 7"]) (simp, rule power_increasing, simp_all)
  with rounded_nat [of 100] show ?thesis by (simp add: d_clean_def)
qed

lemma loaded_pacer_ok: "pacer_ok (loaded_pacer, new_cache)"
proof -
  have "queue_ok loaded_pacer"
    using sample_packet_facts
    by (simp add: queue_ok_def loaded_pacer_def sample_pacer_def config_ok_def entries_at_def entry_current_def
        epochs_of_packet_def)
  moreover have "mode_ok loaded_pacer"
    by (simp add: mode_ok_def loaded_pacer_def sample_pacer_def new_pacer_snapshot_def)
  moreover have "tokens_ok loaded_pacer"
    using clean_100 by (simp add: tokens_ok_def loaded_pacer_def sample_pacer_def d_le_def)
  ultimately show ?thesis by (simp add: pacer_ok_def new_cache_ok)
qed

lemma loaded_dequeue:
  "\<exists>d w'. pacer_dequeue (loaded_pacer, new_cache) 1 = (Inr d, w') \<and> dq_packet d = Some sample_packet"
proof -
  have "d_of_nat 15 = Fin 15" using d_of_nat_exact [of 15] by simp
  then show ?thesis
    by (simp add: pacer_dequeue_def pacer_validate_time_def loaded_pacer_def sample_pacer_def refill_def
        expire_if_needed_def entries_at_def sample_packet_facts Let_def)
qed

lemma pacer_dequeue_paid_and_fresh_witness:
  "\<exists>d w'. pacer_dequeue (loaded_pacer, new_cache) 1 = (Inr d, w') \<and>
     paid (mp_tokens_bytes (refill loaded_pacer 1)) sample_packet (mp_tokens_bytes (fst w'))"
  using loaded_dequeue pacer_dequeue_paid_and_fresh [OF loaded_pacer_ok] by fastforce

end
