(* ===== verification/Media_Egress.thy ===== *)
theory Media_Egress
  imports Prelude
begin

text \<open>
  The last gate before the socket (\<^verbatim>\<open>src/transport/media_egress.cpp\<close>): validation of the final
  datagram's metadata, the byte accounting, and \<open>MediaEgressGate\<close>, which admits media of the
  current epoch only and, once closed for any reason but a pause, never opens again. The native
  send is a parameter: its result, or the exception it throws. The test barriers of the source are
  hooks without effect and are left out. The second part models the gate's shared and exclusive
  locks as a step relation over threads.
\<close>

section \<open>Model\<close>

datatype datagram_class = Media | Control

datatype datagram_path = Direct_udp | Turn_udp

datatype datagram_ip_family = Ipv4 | Ipv6

datatype datagram_provenance =
  Untrusted | Libdatachannel_media | Libdatachannel_control | Libjuice_generated_control

datatype datagram_protocol =
    Unknown_control
  | Srtp
  | Srtcp
  | Dtls
  | Stun
  | Turn_channel_data
  | Turn_send_indication
  | Turn_control

datatype media_boundary_reason = Stop | Pause | Screen_lock | Capture_revoked | Permission_lost

record final_datagram_metadata =
  classification :: datagram_class
  md_path :: datagram_path
  ip_family :: datagram_ip_family
  provenance :: datagram_provenance
  protocol :: datagram_protocol
  md_media_epoch :: u64
  ipv4_options :: bool
  ipv6_extension_headers :: bool
  fragmented :: bool
  udp_transport :: bool

record datagram_egress_snapshot =
  eg_datagrams :: u64
  eg_udp_payload_bytes :: u64
  eg_ip_total_bytes :: u64
  eg_media_ip_total_bytes :: u64
  eg_control_ip_total_bytes :: u64
  eg_direct_ip_total_bytes :: u64
  eg_turn_ip_total_bytes :: u64
  eg_rejected_datagrams :: u64
  eg_failed_datagrams :: u64
  eg_short_datagrams :: u64
  eg_overflowed :: bool

datatype final_send_disposition = Sent | Rejected | Failed | Short_send | Accounting_overflow

record final_send_result =
  fs_disposition :: final_send_disposition
  fs_reason :: string
  fs_native_result :: int
  fs_ip_total_bytes :: u64

definition fs_sent :: "final_send_result \<Rightarrow> bool" where
  "fs_sent r = (fs_disposition r = Sent)"

record media_boundary =
  mb_reason :: media_boundary_reason
  mb_closed_epoch :: u64
  mb_next_epoch :: u64

definition kMaximumUdpPayloadBytes :: nat where
  "kMaximumUdpPayloadBytes = 65507"

definition checked_add :: "u64 \<Rightarrow> u64 \<Rightarrow> u64 option" where
  "checked_add left right = (if right > - 1 - left then None else Some (left + right))"

definition ip_total_bytes :: "datagram_ip_family \<Rightarrow> nat \<Rightarrow> u64" where
  "ip_total_bytes family payload_bytes =
     (let header_bytes = (if family = Ipv4 then 28 else 48) in word_of_nat payload_bytes + header_bytes)"

definition validate_metadata :: "final_datagram_metadata \<Rightarrow> nat \<Rightarrow> string" where
  "validate_metadata m payload_bytes =
     (let zero_control_interrupt =
            (payload_bytes = 0 \<and> classification m = Control \<and> md_path m = Direct_udp \<and>
             provenance m = Libjuice_generated_control \<and> protocol m = Unknown_control)
      in if (payload_bytes = 0 \<and> \<not> zero_control_interrupt) \<or> payload_bytes > kMaximumUdpPayloadBytes
        then ''datagram_udp_payload_size_invalid''
      else if \<not> udp_transport m then ''datagram_non_udp_transport_unverified''
      else if ipv4_options m \<or> ipv6_extension_headers m \<or> fragmented m
        then ''datagram_ip_header_or_fragmentation_unverified''
      else if (ip_family m = Ipv4 \<and> ipv6_extension_headers m) \<or> (ip_family m = Ipv6 \<and> ipv4_options m)
        then ''datagram_ip_family_metadata_mismatch''
      else if provenance m = Untrusted then ''datagram_provenance_untrusted''
      else if provenance m = Libjuice_generated_control \<and> classification m \<noteq> Control
        then ''datagram_generated_control_misclassified''
      else if provenance m = Libdatachannel_media \<and> classification m \<noteq> Media
        then ''datagram_media_provenance_misclassified''
      else if provenance m = Libdatachannel_control \<and> classification m \<noteq> Control
        then ''datagram_control_provenance_misclassified''
      else if classification m = Media \<and>
              \<not> (protocol m = Srtp \<or>
                 (md_path m = Turn_udp \<and>
                  (protocol m = Turn_channel_data \<or> protocol m = Turn_send_indication)))
        then ''datagram_media_protocol_invalid''
      else if classification m \<noteq> Media \<and> protocol m = Srtp then ''datagram_srtp_must_be_media''
      else if md_path m = Direct_udp \<and>
              (protocol m = Turn_channel_data \<or> protocol m = Turn_send_indication \<or>
               protocol m = Turn_control)
        then ''datagram_turn_protocol_on_direct_path''
      else [])"

text \<open>The chain of \<open>add\<close> calls on the candidate snapshot; \<open>None\<close> is the first that overflows.\<close>

definition count_success ::
  "datagram_egress_snapshot \<Rightarrow> final_datagram_metadata \<Rightarrow> nat \<Rightarrow> u64 \<Rightarrow> datagram_egress_snapshot option" where
  "count_success s m udp_payload_bytes ip_bytes =
     (case checked_add (eg_datagrams s) 1 of None \<Rightarrow> None | Some datagrams \<Rightarrow>
      (case checked_add (eg_udp_payload_bytes s) (word_of_nat udp_payload_bytes) of None \<Rightarrow> None | Some payload \<Rightarrow>
       (case checked_add (eg_ip_total_bytes s) ip_bytes of None \<Rightarrow> None | Some ip \<Rightarrow>
        let s = s\<lparr>eg_datagrams := datagrams, eg_udp_payload_bytes := payload, eg_ip_total_bytes := ip\<rparr> in
        (case (if classification m = Media
               then map_option (\<lambda>v. s\<lparr>eg_media_ip_total_bytes := v\<rparr>) (checked_add (eg_media_ip_total_bytes s) ip_bytes)
               else map_option (\<lambda>v. s\<lparr>eg_control_ip_total_bytes := v\<rparr>)
                      (checked_add (eg_control_ip_total_bytes s) ip_bytes)) of
           None \<Rightarrow> None
         | Some s \<Rightarrow>
             (if md_path m = Direct_udp
              then map_option (\<lambda>v. s\<lparr>eg_direct_ip_total_bytes := v\<rparr>)
                     (checked_add (eg_direct_ip_total_bytes s) ip_bytes)
              else map_option (\<lambda>v. s\<lparr>eg_turn_ip_total_bytes := v\<rparr>)
                     (checked_add (eg_turn_ip_total_bytes s) ip_bytes))))))"

definition record_success ::
  "datagram_egress_snapshot \<Rightarrow> final_datagram_metadata \<Rightarrow> nat \<Rightarrow> u64 \<Rightarrow> bool \<times> datagram_egress_snapshot" where
  "record_success s m udp_payload_bytes ip_bytes =
     (case count_success s m udp_payload_bytes ip_bytes of
        None \<Rightarrow> (False, s\<lparr>eg_overflowed := True\<rparr>)
      | Some candidate \<Rightarrow> (True, candidate))"

definition record_rejected :: "datagram_egress_snapshot \<Rightarrow> datagram_egress_snapshot" where
  "record_rejected s =
     (if eg_rejected_datagrams s = - 1 then s\<lparr>eg_overflowed := True\<rparr>
      else s\<lparr>eg_rejected_datagrams := eg_rejected_datagrams s + 1\<rparr>)"

definition record_failed :: "datagram_egress_snapshot \<Rightarrow> bool \<Rightarrow> datagram_egress_snapshot" where
  "record_failed s short_send =
     (if short_send then
        (if eg_short_datagrams s = - 1 then s\<lparr>eg_overflowed := True\<rparr>
         else s\<lparr>eg_short_datagrams := eg_short_datagrams s + 1\<rparr>)
      else
        (if eg_failed_datagrams s = - 1 then s\<lparr>eg_overflowed := True\<rparr>
         else s\<lparr>eg_failed_datagrams := eg_failed_datagrams s + 1\<rparr>))"

record media_egress_gate =
  media_open :: bool
  terminally_closed :: bool
  eg_active_epoch :: u64
  eg_last_closed_epoch :: u64
  eg_counter :: datagram_egress_snapshot

definition new_egress_snapshot :: datagram_egress_snapshot where
  "new_egress_snapshot =
     \<lparr>eg_datagrams = 0, eg_udp_payload_bytes = 0, eg_ip_total_bytes = 0, eg_media_ip_total_bytes = 0,
      eg_control_ip_total_bytes = 0, eg_direct_ip_total_bytes = 0, eg_turn_ip_total_bytes = 0,
      eg_rejected_datagrams = 0, eg_failed_datagrams = 0, eg_short_datagrams = 0, eg_overflowed = False\<rparr>"

definition make_gate :: "u64 \<Rightarrow> exn + media_egress_gate" where
  "make_gate initial_media_epoch =
     (if initial_media_epoch = 0 then Inl (Invalid_argument ''media epoch zero is reserved'')
      else Inr \<lparr>media_open = True, terminally_closed = False, eg_active_epoch = initial_media_epoch,
                eg_last_closed_epoch = 0, eg_counter = new_egress_snapshot\<rparr>)"

text \<open>The outcome of the native send: the exception it throws or the value it returns.\<close>

type_synonym native_outcome = "exn + int"

definition send_after_validation ::
  "media_egress_gate \<Rightarrow> u8 list \<Rightarrow> final_datagram_metadata \<Rightarrow> native_outcome \<Rightarrow>
     final_send_result \<times> media_egress_gate" where
  "send_after_validation g datagram m native_send =
     (case native_send of
        Inl _ \<Rightarrow>
          (\<lparr>fs_disposition = Failed, fs_reason = ''datagram_native_send_threw'', fs_native_result = - 1,
            fs_ip_total_bytes = 0\<rparr>, g\<lparr>eg_counter := record_failed (eg_counter g) False\<rparr>)
      | Inr native_result \<Rightarrow>
          if native_result < 0 then
            (\<lparr>fs_disposition = Failed, fs_reason = ''datagram_native_send_failed'',
              fs_native_result = native_result, fs_ip_total_bytes = 0\<rparr>,
             g\<lparr>eg_counter := record_failed (eg_counter g) False\<rparr>)
          else if nat native_result \<noteq> length datagram then
            (\<lparr>fs_disposition = Short_send, fs_reason = ''datagram_native_send_short'',
              fs_native_result = native_result, fs_ip_total_bytes = 0\<rparr>,
             g\<lparr>eg_counter := record_failed (eg_counter g) True\<rparr>)
          else
            let total_bytes = ip_total_bytes (ip_family m) (length datagram) in
            (case record_success (eg_counter g) m (length datagram) total_bytes of
               (False, c) \<Rightarrow>
                 (\<lparr>fs_disposition = Accounting_overflow, fs_reason = ''datagram_accounting_overflow'',
                   fs_native_result = native_result, fs_ip_total_bytes = 0\<rparr>, g\<lparr>eg_counter := c\<rparr>)
             | (True, c) \<Rightarrow>
                 (\<lparr>fs_disposition = Sent, fs_reason = ''datagram_sent_and_counted'',
                   fs_native_result = native_result, fs_ip_total_bytes = total_bytes\<rparr>,
                  g\<lparr>eg_counter := c\<rparr>)))"

text \<open>\<open>None\<close> is an empty \<open>NativeSend\<close>.\<close>

definition send_final ::
  "media_egress_gate \<Rightarrow> u8 list \<Rightarrow> final_datagram_metadata \<Rightarrow> native_outcome option \<Rightarrow>
     final_send_result \<times> media_egress_gate" where
  "send_final g datagram m native_send =
     (let invalid_reason = validate_metadata m (length datagram) in
      case native_send of
        None \<Rightarrow>
          (\<lparr>fs_disposition = Rejected,
            fs_reason = (if invalid_reason = [] then ''datagram_native_send_missing'' else invalid_reason),
            fs_native_result = - 1, fs_ip_total_bytes = 0\<rparr>,
           g\<lparr>eg_counter := record_rejected (eg_counter g)\<rparr>)
      | Some outcome \<Rightarrow>
          if invalid_reason \<noteq> [] then
            (\<lparr>fs_disposition = Rejected, fs_reason = invalid_reason, fs_native_result = - 1,
              fs_ip_total_bytes = 0\<rparr>, g\<lparr>eg_counter := record_rejected (eg_counter g)\<rparr>)
          else if classification m = Control then send_after_validation g datagram m outcome
          else if \<not> media_open g \<or> md_media_epoch m \<noteq> eg_active_epoch g then
            (\<lparr>fs_disposition = Rejected, fs_reason = ''media_epoch_not_admitted'', fs_native_result = - 1,
              fs_ip_total_bytes = 0\<rparr>, g\<lparr>eg_counter := record_rejected (eg_counter g)\<rparr>)
          else send_after_validation g datagram m outcome)"

definition close_media :: "media_egress_gate \<Rightarrow> media_boundary_reason \<Rightarrow> media_boundary \<times> media_egress_gate" where
  "close_media g reason =
     (let g = (if media_open g
               then g\<lparr>eg_last_closed_epoch := eg_active_epoch g, media_open := False,
                      eg_active_epoch := (if eg_active_epoch g \<noteq> - 1 then eg_active_epoch g + 1
                                          else eg_active_epoch g)\<rparr>
               else g);
          g = g\<lparr>terminally_closed := terminally_closed g \<or> reason \<noteq> Pause\<rparr>
      in (\<lparr>mb_reason = reason, mb_closed_epoch = eg_last_closed_epoch g,
           mb_next_epoch = eg_active_epoch g\<rparr>, g))"

definition resume_media :: "media_egress_gate \<Rightarrow> u64 \<times> media_egress_gate" where
  "resume_media g =
     (if terminally_closed g \<or> eg_active_epoch g = - 1 then (0, g)
      else (eg_active_epoch g, g\<lparr>media_open := True\<rparr>))"

fun final_send_disposition_name :: "final_send_disposition \<Rightarrow> string" where
  "final_send_disposition_name Sent = ''sent''"
| "final_send_disposition_name Rejected = ''rejected''"
| "final_send_disposition_name Failed = ''failed''"
| "final_send_disposition_name Short_send = ''short_send''"
| "final_send_disposition_name Accounting_overflow = ''accounting_overflow''"

fun media_boundary_reason_name :: "media_boundary_reason \<Rightarrow> string" where
  "media_boundary_reason_name Stop = ''stop''"
| "media_boundary_reason_name Pause = ''pause''"
| "media_boundary_reason_name Screen_lock = ''screen_lock''"
| "media_boundary_reason_name Capture_revoked = ''capture_revoked''"
| "media_boundary_reason_name Permission_lost = ''permission_lost''"

section \<open>Accounting\<close>

lemma checked_add_Some:
  "checked_add a b = Some c \<longleftrightarrow> unat a + unat b < 2 ^ 64 \<and> c = a + b"
  by (auto simp: checked_add_def gt_max_minus_u64 split: if_splits)

lemma checked_add_unat: "checked_add a b = Some c \<Longrightarrow> unat c = unat a + unat b"
  by (auto simp: checked_add_Some unat_word_ariths)

definition counter_ok :: "datagram_egress_snapshot \<Rightarrow> bool" where
  "counter_ok s =
     (unat (eg_media_ip_total_bytes s) + unat (eg_control_ip_total_bytes s) = unat (eg_ip_total_bytes s) \<and>
      unat (eg_direct_ip_total_bytes s) + unat (eg_turn_ip_total_bytes s) = unat (eg_ip_total_bytes s) \<and>
      unat (eg_udp_payload_bytes s) + 28 * unat (eg_datagrams s) \<le> unat (eg_ip_total_bytes s) \<and>
      unat (eg_ip_total_bytes s) \<le> unat (eg_udp_payload_bytes s) + 48 * unat (eg_datagrams s))"

text \<open>The fields of a snapshot that \<open>count_success\<close> may change, before and after.\<close>

lemma count_success_cases:
  assumes "count_success s m n ip_bytes = Some s'" "n < 2 ^ 64"
  shows "unat (eg_datagrams s') = unat (eg_datagrams s) + 1"
    "unat (eg_udp_payload_bytes s') = unat (eg_udp_payload_bytes s) + n"
    "unat (eg_ip_total_bytes s') = unat (eg_ip_total_bytes s) + unat ip_bytes"
    "unat (eg_media_ip_total_bytes s') =
       unat (eg_media_ip_total_bytes s) + (if classification m = Media then unat ip_bytes else 0)"
    "unat (eg_control_ip_total_bytes s') =
       unat (eg_control_ip_total_bytes s) + (if classification m = Media then 0 else unat ip_bytes)"
    "unat (eg_direct_ip_total_bytes s') =
       unat (eg_direct_ip_total_bytes s) + (if md_path m = Direct_udp then unat ip_bytes else 0)"
    "unat (eg_turn_ip_total_bytes s') =
       unat (eg_turn_ip_total_bytes s) + (if md_path m = Direct_udp then 0 else unat ip_bytes)"
  using assms
  by (auto simp: count_success_def Let_def unat_of_nat dest!: checked_add_unat
      split: option.splits if_splits)

lemma ip_total_bytes_unat:
  "n \<le> kMaximumUdpPayloadBytes \<Longrightarrow>
     unat (ip_total_bytes f n) = n + (if f = Ipv4 then 28 else 48)"
  by (simp add: ip_total_bytes_def kMaximumUdpPayloadBytes_def unat_word_ariths unat_of_nat)

lemma record_success_ok:
  assumes "counter_ok s" "n \<le> kMaximumUdpPayloadBytes"
  shows "counter_ok (snd (record_success s m n (ip_total_bytes f n)))"
proof (cases "count_success s m n (ip_total_bytes f n)")
  case None
  with assms show ?thesis by (simp add: record_success_def counter_ok_def)
next
  case (Some s')
  have "n < 2 ^ 64" using assms(2) by (simp add: kMaximumUdpPayloadBytes_def)
  note c = count_success_cases [OF Some this]
  show ?thesis
    using assms(1) by (simp add: record_success_def Some counter_ok_def c ip_total_bytes_unat [OF assms(2)])
qed

lemma record_rejected_ok: "counter_ok s \<Longrightarrow> counter_ok (record_rejected s)"
  by (simp add: record_rejected_def counter_ok_def)

lemma record_failed_ok: "counter_ok s \<Longrightarrow> counter_ok (record_failed s b)"
  by (simp add: record_failed_def counter_ok_def)

section \<open>The gate\<close>

definition gate_ok :: "media_egress_gate \<Rightarrow> bool" where
  "gate_ok g =
     (counter_ok (eg_counter g) \<and> (terminally_closed g \<longrightarrow> \<not> media_open g) \<and>
      (eg_last_closed_epoch g < eg_active_epoch g \<or> \<not> media_open g \<and> eg_active_epoch g = - 1))"

text \<open>Sending changes the counter only.\<close>

definition counter_only :: "media_egress_gate \<Rightarrow> media_egress_gate \<Rightarrow> bool" where
  "counter_only g g' = (\<exists>c. g' = g\<lparr>eg_counter := c\<rparr>)"

lemma counter_only_simps:
  "counter_only g g' \<Longrightarrow> media_open g' = media_open g"
  "counter_only g g' \<Longrightarrow> terminally_closed g' = terminally_closed g"
  "counter_only g g' \<Longrightarrow> eg_active_epoch g' = eg_active_epoch g"
  "counter_only g g' \<Longrightarrow> eg_last_closed_epoch g' = eg_last_closed_epoch g"
  by (auto simp: counter_only_def)

lemma counter_only_gate_ok: "counter_only g g' \<Longrightarrow> gate_ok g \<Longrightarrow> counter_ok (eg_counter g') \<Longrightarrow> gate_ok g'"
  by (simp add: gate_ok_def counter_only_simps)

lemma counter_onlyI [simp]: "counter_only g (g\<lparr>eg_counter := c\<rparr>)"
  by (auto simp: counter_only_def)

lemma send_after_validation_facts:
  shows "counter_only g (snd (send_after_validation g d m out))"
    and "fs_disposition (fst (send_after_validation g d m out)) \<noteq> Rejected"
    and "counter_ok (eg_counter g) \<Longrightarrow> length d \<le> kMaximumUdpPayloadBytes \<Longrightarrow>
      counter_ok (eg_counter (snd (send_after_validation g d m out)))"
proof -
  show "counter_only g (snd (send_after_validation g d m out))"
    "fs_disposition (fst (send_after_validation g d m out)) \<noteq> Rejected"
    by (auto simp: send_after_validation_def Let_def split: sum.splits prod.splits bool.splits)
  assume "counter_ok (eg_counter g)" "length d \<le> kMaximumUdpPayloadBytes"
  then show "counter_ok (eg_counter (snd (send_after_validation g d m out)))"
    using record_success_ok [of "eg_counter g" "length d" m "ip_family m"]
    by (auto simp: send_after_validation_def Let_def record_failed_ok split: sum.splits prod.splits bool.splits)
qed

lemma validate_size: "validate_metadata m n = [] \<Longrightarrow> n \<le> kMaximumUdpPayloadBytes"
  by (auto simp: validate_metadata_def Let_def split: if_splits)

text \<open>The family check comes after a check that refuses any option or extension header, so its
  own reason is never given.\<close>

lemma ip_family_mismatch_unreachable: "validate_metadata m n \<noteq> ''datagram_ip_family_metadata_mismatch''"
  by (simp add: validate_metadata_def Let_def)

text \<open>When the native send is reached.\<close>

definition admitted :: "media_egress_gate \<Rightarrow> u8 list \<Rightarrow> final_datagram_metadata \<Rightarrow> bool" where
  "admitted g d m =
     (validate_metadata m (length d) = [] \<and>
      (classification m = Media \<longrightarrow> media_open g \<and> md_media_epoch m = eg_active_epoch g))"

lemma send_final_cases:
  obtains (rejected) "ns = None \<or> \<not> admitted g d m" "fs_disposition (fst (send_final g d m ns)) = Rejected"
      "snd (send_final g d m ns) = g\<lparr>eg_counter := record_rejected (eg_counter g)\<rparr>"
  | (tried) out where "ns = Some out" "admitted g d m"
      "send_final g d m ns = send_after_validation g d m out"
proof (cases ns)
  case None
  then show thesis by (intro rejected) (simp_all add: send_final_def Let_def)
next
  case (Some out)
  show thesis
  proof (cases "admitted g d m")
    case True
    then have "send_final g d m ns = send_after_validation g d m out"
      by (cases "classification m") (auto simp: Some send_final_def admitted_def)
    with Some True show thesis by (intro tried)
  next
    case False
    then show thesis
      by (intro rejected; cases "classification m") (auto simp: Some send_final_def admitted_def Let_def)
  qed
qed

lemma send_final_step:
  assumes "gate_ok g"
  shows "gate_ok (snd (send_final g d m ns))" "counter_only g (snd (send_final g d m ns))"
proof -
  have c: "counter_ok (eg_counter g)" using assms by (simp add: gate_ok_def)
  show co: "counter_only g (snd (send_final g d m ns))"
    by (cases rule: send_final_cases [of ns g d m]) (simp_all add: send_after_validation_facts)
  have "counter_ok (eg_counter (snd (send_final g d m ns)))"
    by (cases rule: send_final_cases [of ns g d m])
      (use c in \<open>auto simp: record_rejected_ok admitted_def dest: validate_size
        intro: send_after_validation_facts(3)\<close>)
  with co assms show "gate_ok (snd (send_final g d m ns))" by (rule counter_only_gate_ok)
qed

lemma close_media_step:
  assumes "gate_ok g"
  shows "gate_ok (snd (close_media g reason))"
    "eg_last_closed_epoch g \<le> eg_last_closed_epoch (snd (close_media g reason))"
    "\<not> media_open (snd (close_media g reason))"
    "mb_closed_epoch (fst (close_media g reason)) = eg_last_closed_epoch (snd (close_media g reason))"
    "terminally_closed (snd (close_media g reason)) \<longleftrightarrow> terminally_closed g \<or> reason \<noteq> Pause"
proof -
  have "eg_active_epoch g < eg_active_epoch g + 1" if "eg_active_epoch g \<noteq> - 1"
    using that by (rule less_inc_u64)
  with assms show "gate_ok (snd (close_media g reason))"
    by (auto simp: gate_ok_def close_media_def Let_def)
  show "eg_last_closed_epoch g \<le> eg_last_closed_epoch (snd (close_media g reason))"
    using assms by (auto simp: gate_ok_def close_media_def Let_def)
qed (simp_all add: close_media_def Let_def)

lemma resume_media_step:
  assumes "gate_ok g"
  shows "gate_ok (snd (resume_media g))"
    "eg_last_closed_epoch (snd (resume_media g)) = eg_last_closed_epoch g"
    "terminally_closed (snd (resume_media g)) = terminally_closed g"
  using assms by (auto simp: gate_ok_def resume_media_def)

section \<open>Sequences of calls\<close>

datatype egress_op =
    E_send "u8 list" final_datagram_metadata "native_outcome option"
  | E_close media_boundary_reason
  | E_resume

fun egress_step :: "media_egress_gate \<Rightarrow> egress_op \<Rightarrow> media_egress_gate" where
  "egress_step g (E_send d m ns) = snd (send_final g d m ns)"
| "egress_step g (E_close reason) = snd (close_media g reason)"
| "egress_step g E_resume = snd (resume_media g)"

lemma egress_step_ok: "gate_ok g \<Longrightarrow> gate_ok (egress_step g op)"
  by (cases op) (simp_all add: send_final_step close_media_step resume_media_step)

lemma egress_step_closed: "gate_ok g \<Longrightarrow> eg_last_closed_epoch g \<le> eg_last_closed_epoch (egress_step g op)"
  by (cases op) (simp_all add: counter_only_simps [OF send_final_step(2)] close_media_step resume_media_step)

lemma egress_step_terminal: "gate_ok g \<Longrightarrow> terminally_closed g \<Longrightarrow> terminally_closed (egress_step g op)"
  by (cases op) (simp_all add: counter_only_simps [OF send_final_step(2)] close_media_step resume_media_step)

interpretation egress: ranked_machine egress_step gate_ok eg_last_closed_epoch
  by unfold_locales (rule egress_step_ok egress_step_closed; assumption)+

interpretation egress_latch: latched_machine egress_step gate_ok terminally_closed
  by unfold_locales (rule egress_step_terminal)

lemma make_gate_ok: "make_gate e = Inr g \<Longrightarrow> gate_ok g"
  by (auto simp: make_gate_def gate_ok_def counter_ok_def new_egress_snapshot_def word_greater_zero_iff
      split: if_splits)

section \<open>Threads\<close>

text \<open>
  Senders run concurrently: a media sender takes the shared lock, checks the gate, and keeps the
  lock until its native send has returned; \<open>close_media\<close> and \<open>resume_media\<close> need the exclusive lock,
  so they wait until no sender holds a permit. Control datagrams take no lock. A state is the gate
  and the epochs of the permits being held; a label is the visible event of a step.
\<close>

datatype egress_event = Silent | Native_media u64 | Boundary u64

inductive egress_thread_step ::
  "media_egress_gate \<times> u64 list \<Rightarrow> egress_event \<Rightarrow> media_egress_gate \<times> u64 list \<Rightarrow> bool" where
  permit: "media_open g \<Longrightarrow> egress_thread_step (g, ps) Silent (g, eg_active_epoch g # ps)"
| native: "e \<in> set ps \<Longrightarrow> md_media_epoch m = e \<Longrightarrow> classification m = Media \<Longrightarrow>
    validate_metadata m (length d) = [] \<Longrightarrow>
    egress_thread_step (g, ps) (Native_media e) (snd (send_after_validation g d m out), remove1 e ps)"
| control: "classification m = Control \<Longrightarrow> validate_metadata m (length d) = [] \<Longrightarrow>
    egress_thread_step (g, ps) Silent (snd (send_after_validation g d m out), ps)"
| refuse: "egress_thread_step (g, ps) Silent (g\<lparr>eg_counter := record_rejected (eg_counter g)\<rparr>, ps)"
| close: "egress_thread_step (g, []) (Boundary (mb_closed_epoch (fst (close_media g reason))))
    (snd (close_media g reason), [])"
| resume: "egress_thread_step (g, []) Silent (snd (resume_media g), [])"

inductive egress_run ::
  "media_egress_gate \<times> u64 list \<Rightarrow> egress_event list \<Rightarrow> media_egress_gate \<times> u64 list \<Rightarrow> bool" where
  stop: "egress_run st [] st"
| step: "egress_thread_step st ev st' \<Longrightarrow> egress_run st' evs st'' \<Longrightarrow> egress_run st (ev # evs) st''"

inductive_cases egress_run_ConsE: "egress_run st (ev # evs) st'"
inductive_cases egress_thread_stepE: "egress_thread_step st ev st'"

definition threads_ok :: "media_egress_gate \<times> u64 list \<Rightarrow> bool" where
  "threads_ok st =
     (gate_ok (fst st) \<and> (\<forall>e \<in> set (snd st). media_open (fst st) \<and> e = eg_active_epoch (fst st)))"

lemma send_after_validation_gate_ok:
  "gate_ok g \<Longrightarrow> validate_metadata m (length d) = [] \<Longrightarrow> gate_ok (snd (send_after_validation g d m out))"
  by (rule counter_only_gate_ok [OF send_after_validation_facts(1)])
    (auto simp: gate_ok_def dest: validate_size intro: send_after_validation_facts(3))

lemma send_after_validation_gate [simp]:
  "media_open (snd (send_after_validation g d m out)) = media_open g"
  "eg_active_epoch (snd (send_after_validation g d m out)) = eg_active_epoch g"
  "eg_last_closed_epoch (snd (send_after_validation g d m out)) = eg_last_closed_epoch g"
  using send_after_validation_facts(1) [of g d m out] by (simp_all add: counter_only_simps)

lemma rejected_gate_ok: "gate_ok g \<Longrightarrow> gate_ok (g\<lparr>eg_counter := record_rejected (eg_counter g)\<rparr>)"
  by (simp add: gate_ok_def record_rejected_ok)

lemma threads_step:
  assumes "egress_thread_step st ev st'" "threads_ok st"
  shows "threads_ok st'" "eg_last_closed_epoch (fst st) \<le> eg_last_closed_epoch (fst st')"
    "\<And>e. ev = Native_media e \<Longrightarrow> eg_last_closed_epoch (fst st) < e"
    "\<And>c. ev = Boundary c \<Longrightarrow> eg_last_closed_epoch (fst st') = c"
proof -
  show "threads_ok st'"
    using assms
    by (cases rule: egress_thread_step.cases)
      (auto simp: threads_ok_def send_after_validation_gate_ok close_media_step resume_media_step
        rejected_gate_ok, (metis notin_set_remove1)+)
  show "eg_last_closed_epoch (fst st) \<le> eg_last_closed_epoch (fst st')"
    using assms by (cases rule: egress_thread_step.cases)
      (auto simp: threads_ok_def close_media_step resume_media_step)
  show "eg_last_closed_epoch (fst st) < e" if "ev = Native_media e" for e
    using assms that by (cases rule: egress_thread_step.cases) (auto simp: threads_ok_def gate_ok_def)
  show "eg_last_closed_epoch (fst st') = c" if "ev = Boundary c" for c
    using assms that by (cases rule: egress_thread_step.cases) (auto simp: close_media_def Let_def)
qed

lemma run_sends_after_closed:
  "egress_run st evs st' \<Longrightarrow> threads_ok st \<Longrightarrow> Native_media e \<in> set evs \<Longrightarrow> eg_last_closed_epoch (fst st) < e"
proof (induction rule: egress_run.induct)
  case (step st ev st' evs st'')
  note f = threads_step [OF step.hyps(1) step.prems(1)]
  show ?case
  proof (cases "ev = Native_media e")
    case True
    then show ?thesis by (rule f(3))
  next
    case False
    then have "eg_last_closed_epoch (fst st') < e" using step.prems(2) f(1) by (intro step.IH) auto
    with f(2) show ?thesis by (rule le_less_trans)
  qed
qed simp

text \<open>After a boundary, media of the closed and of earlier epochs no longer leaves.\<close>

fun boundaries_respected :: "egress_event list \<Rightarrow> bool" where
  "boundaries_respected [] = True"
| "boundaries_respected (ev # evs) =
     ((case ev of Boundary c \<Rightarrow> list_all (\<lambda>x. case x of Native_media e \<Rightarrow> c < e | _ \<Rightarrow> True) evs | _ \<Rightarrow> True) \<and>
      boundaries_respected evs)"

lemma run_boundaries: "egress_run st evs st' \<Longrightarrow> threads_ok st \<Longrightarrow> boundaries_respected evs"
proof (induction rule: egress_run.induct)
  case (step st ev st' evs st'')
  note f = threads_step [OF step.hyps(1) step.prems(1)]
  have rest: "\<And>e. Native_media e \<in> set evs \<Longrightarrow> eg_last_closed_epoch (fst st') < e"
    using run_sends_after_closed [OF step.hyps(2) f(1)] .
  have "list_all (\<lambda>x. case x of Native_media e \<Rightarrow> c < e | _ \<Rightarrow> True) evs" if "ev = Boundary c" for c
    using rest f(4) [OF that] by (auto simp: list_all_iff split: egress_event.splits)
  with step.IH f(1) show ?case by (simp split: egress_event.splits)
qed simp

section \<open>Properties\<close>

text \<open>Over any sequence of sends, closings and resumptions of a new gate the
  accounting is exact: media and control bytes, and direct and relayed bytes, add up to the total;
  the total exceeds the UDP payload by 28 to 48 bytes per datagram; a terminally closed gate is not
  open; and no counter ever wraps.\<close>

lemma media_egress_accounting:
  assumes "make_gate e = Inr g"
  shows "gate_ok (foldl egress_step g ops)"
  by (rule egress.run_inv [OF make_gate_ok [OF assms]])

definition sample_gate :: media_egress_gate where
  "sample_gate = \<lparr>media_open = True, terminally_closed = False, eg_active_epoch = 1,
     eg_last_closed_epoch = 0, eg_counter = new_egress_snapshot\<rparr>"

definition sample_metadata :: final_datagram_metadata where
  "sample_metadata = \<lparr>classification = Media, md_path = Direct_udp, ip_family = Ipv4,
     provenance = Libdatachannel_media, protocol = Srtp, md_media_epoch = 1, ipv4_options = False,
     ipv6_extension_headers = False, fragmented = False, udp_transport = True\<rparr>"

lemma make_sample_gate: "make_gate 1 = Inr sample_gate"
  by (simp add: make_gate_def sample_gate_def)

lemma sample_valid: "validate_metadata sample_metadata (length [7 :: u8]) = []"
  by (simp add: validate_metadata_def sample_metadata_def kMaximumUdpPayloadBytes_def)

lemma media_egress_accounting_witness:
  "gate_ok (foldl egress_step sample_gate
     [E_send [7] sample_metadata (Some (Inr 1)), E_close Pause, E_resume, E_close Stop])"
  by (rule media_egress_accounting [OF make_sample_gate])

text \<open>A closed epoch stays closed: after close_media, whatever else is called, a media
  datagram reaches the native send only if the closing was a pause and the datagram's epoch is
  later than the closed one.\<close>

lemma closed_epoch_never_sends:
  assumes "gate_ok g" "classification m = Media"
    and "fs_disposition (fst (send_final (foldl egress_step (snd (close_media g reason)) ops) d m ns)) \<noteq> Rejected"
  shows "reason = Pause \<and> mb_closed_epoch (fst (close_media g reason)) < md_media_epoch m"
proof -
  let ?g1 = "snd (close_media g reason)"
  let ?g2 = "foldl egress_step ?g1 ops"
  have ok1: "gate_ok ?g1" using assms(1) by (rule close_media_step)
  have ok2: "gate_ok ?g2" using ok1 by (rule egress.run_inv)
  have "admitted ?g2 d m"
    using assms(3) by (cases rule: send_final_cases [of ns ?g2 d m]) auto
  then have open2: "media_open ?g2" "md_media_epoch m = eg_active_epoch ?g2"
    using assms(2) by (simp_all add: admitted_def)
  have "\<not> terminally_closed ?g1"
    using egress_latch.run_latched [OF ok1, of ops] open2(1) ok2 by (auto simp: gate_ok_def)
  then have "reason = Pause" using close_media_step(5) [OF assms(1)] by blast
  moreover have "eg_last_closed_epoch ?g1 \<le> eg_last_closed_epoch ?g2" by (rule egress.run_rank [OF ok1])
  moreover have "eg_last_closed_epoch ?g2 < eg_active_epoch ?g2" using ok2 open2(1) by (auto simp: gate_ok_def)
  ultimately show ?thesis
    using close_media_step(4) [OF assms(1), of reason] open2(2) by simp
qed

lemma closed_epoch_never_sends_witness:
  "mb_closed_epoch (fst (close_media sample_gate Pause)) < md_media_epoch (sample_metadata\<lparr>md_media_epoch := 2\<rparr>)"
proof -
  let ?m = "sample_metadata\<lparr>md_media_epoch := 2\<rparr>"
  let ?g = "foldl egress_step (snd (close_media sample_gate Pause)) [E_resume]"
  have "admitted ?g [7] ?m"
    using sample_valid
    by (simp add: admitted_def validate_metadata_def sample_metadata_def close_media_def resume_media_def
        sample_gate_def Let_def kMaximumUdpPayloadBytes_def)
  then have "fs_disposition (fst (send_final ?g [7] ?m (Some (Inr 1)))) \<noteq> Rejected"
    by (cases rule: send_final_cases [of "Some (Inr 1)" ?g "[7]" ?m])
      (simp_all add: send_after_validation_facts(2))
  with closed_epoch_never_sends [of sample_gate ?m Pause "[E_resume]" "[7]" "Some (Inr 1)"]
    make_gate_ok [OF make_sample_gate] show ?thesis
    by (simp add: sample_metadata_def)
qed

text \<open>C2 (safety). The same under concurrency: in every run of threads that send under the shared
  lock and close and resume under the exclusive lock, no media datagram of a closed epoch, or of an
  earlier one, reaches the native send after the boundary.\<close>

theorem concurrent_boundary_respected:
  assumes "make_gate e = Inr g" "egress_run (g, []) evs st"
  shows "boundaries_respected evs"
  using run_boundaries [OF assms(2)] make_gate_ok [OF assms(1)] by (simp add: threads_ok_def)

lemma sample_run:
  "\<exists>st. egress_run (sample_gate, []) [Silent, Native_media 1, Boundary 1] st"
proof -
  let ?g = "snd (send_after_validation sample_gate [7] sample_metadata (Inr 1))"
  have p: "egress_thread_step (sample_gate, []) Silent (sample_gate, [1])"
    using egress_thread_step.permit [of sample_gate "[]"] by (simp add: sample_gate_def)
  have n: "egress_thread_step (sample_gate, [1]) (Native_media 1) (?g, [])"
    using egress_thread_step.native [of 1 "[1]" sample_metadata "[7]" sample_gate "Inr 1"] sample_valid
    by (simp add: sample_metadata_def)
  have "mb_closed_epoch (fst (close_media ?g Stop)) = 1"
    by (simp add: close_media_def Let_def) (simp add: sample_gate_def)
  then have c: "egress_thread_step (?g, []) (Boundary 1) (snd (close_media ?g Stop), [])"
    using egress_thread_step.close [of ?g Stop] by simp
  show ?thesis
    by (rule exI, rule egress_run.step [OF p], rule egress_run.step [OF n], rule egress_run.step [OF c],
        rule egress_run.stop)
qed

theorem concurrent_boundary_respected_witness:
  "\<exists>st. egress_run (sample_gate, []) [Silent, Native_media 1, Boundary 1] st \<and>
     boundaries_respected [Silent, Native_media 1, Boundary 1]"
  using sample_run concurrent_boundary_respected [OF make_sample_gate] by blast

text \<open>A datagram counts as sent exactly when its metadata is valid, it is control
  or media of the open epoch, the native send returns its full size, and no counter would
  overflow; it escapes rejection exactly when there is a native send and it is admitted.\<close>

lemma send_final_exact:
  "(fs_sent (fst (send_final g d m ns)) \<longleftrightarrow>
      admitted g d m \<and> ns = Some (Inr (int (length d))) \<and>
      count_success (eg_counter g) m (length d) (ip_total_bytes (ip_family m) (length d)) \<noteq> None) \<and>
   (fs_disposition (fst (send_final g d m ns)) \<noteq> Rejected \<longleftrightarrow> ns \<noteq> None \<and> admitted g d m)"
proof (cases rule: send_final_cases [of ns g d m])
  case rejected
  then show ?thesis by (auto simp: fs_sent_def)
next
  case (tried out)
  show ?thesis
    unfolding tried(3) using tried(1,2) send_after_validation_facts(2) [of g d m out]
    by (auto simp: fs_sent_def send_after_validation_def record_success_def Let_def
        split: sum.splits option.splits if_splits)
qed

end
