(* ===== verification/Encoded_Fanout.thy ===== *)
theory Encoded_Fanout
  imports Prelude "HOL-Library.Product_Lexorder"
begin

text \<open>
  \<open>EncodedTransportQueue\<close> and \<open>EncodedAccessUnitFanout\<close> (\<^verbatim>\<open>src/transport/encoded_fanout.cpp\<close>):
  the bounded queue of encoded access units in front of the transport, and the fanout that hands
  every access unit to that queue and to the recorder. The queue drops everything it holds
  whenever it has to drop anything, and then takes nothing until a recovery IDR arrives.

  The recorder callback is code of the caller: \<open>publish\<close> takes its answer as a function, which
  may also throw. The fanout holds a pointer to a queue that its owner uses as well; the model
  keeps the queue inside the fanout's state and gives the owner's calls as further operations.
\<close>

section \<open>Model\<close>

text \<open>The enumeration has a fixed underlying type, so that a value outside its enumerators can
  be stored; the queue refuses it.\<close>

datatype recording_picture_type = Idr | Predicted | Other_picture u8

record recorded_access_unit =
  au_bytes :: "u8 list option"
  au_media_epoch :: u64
  au_dependency_epoch :: u64
  au_geometry_epoch :: u64
  au_encoder_configuration_epoch :: u64
  au_configuration_sha256 :: string
  au_source_frame_id :: u64
  au_extended_rtp_timestamp :: u64
  au_picture_type :: recording_picture_type
  au_keyframe :: bool
  au_parameter_sets_present :: bool
  au_presentation_timestamp_ns :: u64

record recorder_enqueue_result =
  re_accepted :: bool
  re_failed :: bool
  re_reason :: string

record encoded_transport_queue_config =
  tc_maximum_access_units :: nat
  tc_maximum_bytes :: nat
  tc_maximum_age_ns :: u64

record encoded_transport_queue_diagnostics =
  td_admission_open :: bool
  td_awaiting_recovery :: bool
  td_unusable :: bool
  td_access_units :: nat
  td_bytes :: nat
  td_maximum_access_units :: nat
  td_maximum_bytes :: nat
  td_maximum_age_ns :: u64
  td_active_media_epoch :: u64
  td_active_dependency_epoch :: u64
  td_accepted_access_units :: u64
  td_dequeued_access_units :: u64
  td_rejected_access_units :: u64
  td_purged_access_units :: u64
  td_purged_bytes :: u64
  td_capacity_purges :: u64
  td_age_purges :: u64
  td_explicit_recovery_purges :: u64
  td_recovery_requests :: u64

definition new_transport_diagnostics :: encoded_transport_queue_diagnostics where
  "new_transport_diagnostics =
     \<lparr>td_admission_open = True, td_awaiting_recovery = True, td_unusable = False, td_access_units = 0,
      td_bytes = 0, td_maximum_access_units = 0, td_maximum_bytes = 0, td_maximum_age_ns = 0,
      td_active_media_epoch = 0, td_active_dependency_epoch = 0, td_accepted_access_units = 0,
      td_dequeued_access_units = 0, td_rejected_access_units = 0, td_purged_access_units = 0,
      td_purged_bytes = 0, td_capacity_purges = 0, td_age_purges = 0,
      td_explicit_recovery_purges = 0, td_recovery_requests = 0\<rparr>"

record encoded_transport_admission =
  ta_accepted :: bool
  ta_recovery_required :: bool
  ta_unusable :: bool
  ta_reason :: string

record encoded_transport_dequeue =
  tdq_access_unit :: "recorded_access_unit option"
  tdq_recovery_required :: bool
  tdq_reason :: string

record transport_entry =
  te_access_unit :: recorded_access_unit
  te_enqueued_ns :: u64

record encoded_transport_queue =
  tq_config :: encoded_transport_queue_config
  tq_queue :: "transport_entry list"
  tq_diagnostics :: encoded_transport_queue_diagnostics
  tq_last_now_ns :: "u64 option"
  tq_epoch_floor_media :: "u64 option"
  tq_epoch_floor_dependency :: "u64 option"

definition valid_hex64 :: "string \<Rightarrow> bool" where
  "valid_hex64 s =
     (length s = 64 \<and> list_all (\<lambda>c. c \<in> set ''0123456789abcdef'') s)"

definition make_transport_queue :: "encoded_transport_queue_config \<Rightarrow> exn + encoded_transport_queue" where
  "make_transport_queue config =
     (if tc_maximum_access_units config < 1 \<or> tc_maximum_access_units config > 64 \<or>
         tc_maximum_bytes config < 1 \<or> tc_maximum_bytes config > 64 * 1024 * 1024 \<or>
         tc_maximum_age_ns config < 1 \<or> tc_maximum_age_ns config > 2000000000
        then Inl (Invalid_argument ''encoded transport queue bounds invalid'')
      else Inr \<lparr>tq_config = config, tq_queue = [],
                tq_diagnostics = new_transport_diagnostics
                  \<lparr>td_maximum_access_units := tc_maximum_access_units config,
                   td_maximum_bytes := tc_maximum_bytes config,
                   td_maximum_age_ns := tc_maximum_age_ns config\<rparr>,
                tq_last_now_ns = None, tq_epoch_floor_media = None, tq_epoch_floor_dependency = None\<rparr>)"

definition validate_access_unit :: "recorded_access_unit \<Rightarrow> bool" where
  "validate_access_unit au =
     (au_bytes au \<noteq> None \<and> au_bytes au \<noteq> Some [] \<and> au_media_epoch au \<noteq> 0 \<and>
      au_dependency_epoch au \<noteq> 0 \<and> au_geometry_epoch au \<noteq> 0 \<and>
      au_encoder_configuration_epoch au \<noteq> 0 \<and> au_source_frame_id au \<noteq> 0 \<and>
      au_extended_rtp_timestamp au \<noteq> 0 \<and> au_presentation_timestamp_ns au \<noteq> 0 \<and>
      valid_hex64 (au_configuration_sha256 au) \<and>
      au_parameter_sets_present au = au_keyframe au \<and>
      (au_picture_type au = Idr \<or> au_picture_type au = Predicted) \<and>
      (au_picture_type au = Idr) = au_keyframe au)"

definition is_recovery :: "recorded_access_unit \<Rightarrow> bool" where
  "is_recovery au = (au_keyframe au \<and> au_parameter_sets_present au \<and> au_picture_type au = Idr)"

text \<open>\<open>access_unit.bytes->size()\<close>; the code only evaluates it after \<open>validate_access_unit\<close>.\<close>

definition au_size :: "recorded_access_unit \<Rightarrow> nat" where
  "au_size au = (case au_bytes au of None \<Rightarrow> 0 | Some bytes \<Rightarrow> length bytes)"

definition transport_purge :: "bool \<Rightarrow> encoded_transport_queue \<Rightarrow> encoded_transport_queue" where
  "transport_purge recovery_requested q =
     (let d = tq_diagnostics q in
      q\<lparr>tq_queue := [],
        tq_diagnostics := d
          \<lparr>td_purged_access_units := saturating_add (td_purged_access_units d) (length (tq_queue q)),
           td_purged_bytes := saturating_add (td_purged_bytes d) (td_bytes d),
           td_access_units := 0, td_bytes := 0, td_active_media_epoch := 0,
           td_active_dependency_epoch := 0, td_awaiting_recovery := True,
           td_recovery_requests :=
             (if recovery_requested then saturating_increment (td_recovery_requests d)
              else td_recovery_requests d)\<rparr>\<rparr>)"

definition with_diagnostics ::
  "(encoded_transport_queue_diagnostics \<Rightarrow> encoded_transport_queue_diagnostics) \<Rightarrow>
   encoded_transport_queue \<Rightarrow> encoded_transport_queue" where
  "with_diagnostics f q = q\<lparr>tq_diagnostics := f (tq_diagnostics q)\<rparr>"

definition transport_validate_time :: "encoded_transport_queue \<Rightarrow> u64 \<Rightarrow> bool \<times> encoded_transport_queue"
where
  "transport_validate_time q now_ns =
     (if time_regressed (tq_last_now_ns q) now_ns
        then (False, transport_purge False
                (with_diagnostics (\<lambda>d. d\<lparr>td_admission_open := False, td_unusable := True,
                                         td_awaiting_recovery := True\<rparr>) q))
      else (True, q\<lparr>tq_last_now_ns := Some now_ns\<rparr>))"

definition transport_expire_if_needed ::
  "encoded_transport_queue \<Rightarrow> u64 \<Rightarrow> bool \<times> encoded_transport_queue" where
  "transport_expire_if_needed q now_ns =
     (case tq_queue q of
        [] \<Rightarrow> (False, q)
      | front # _ \<Rightarrow>
          if now_ns - te_enqueued_ns front < tc_maximum_age_ns (tq_config q) then (False, q)
          else (True, transport_purge True
                  (with_diagnostics (\<lambda>d. d\<lparr>td_age_purges := saturating_increment (td_age_purges d)\<rparr>) q)))"

definition transport_reject ::
  "string \<Rightarrow> bool \<Rightarrow> bool \<Rightarrow> encoded_transport_queue \<Rightarrow>
   encoded_transport_admission \<times> encoded_transport_queue" where
  "transport_reject reason recovery_required unusable q =
     (\<lparr>ta_accepted = False, ta_recovery_required = recovery_required, ta_unusable = unusable,
       ta_reason = reason\<rparr>,
      with_diagnostics (\<lambda>d. d\<lparr>td_rejected_access_units := saturating_increment (td_rejected_access_units d)\<rparr>) q)"

text \<open>The comparisons of an access unit's epochs with the floors.\<close>

definition stale_epoch :: "encoded_transport_queue \<Rightarrow> recorded_access_unit \<Rightarrow> bool" where
  "stale_epoch q au =
     (case tq_epoch_floor_media q of
        None \<Rightarrow> False
      | Some m \<Rightarrow> au_media_epoch au < m \<or>
          (au_media_epoch au = m \<and>
           (case tq_epoch_floor_dependency q of None \<Rightarrow> False | Some p \<Rightarrow> au_dependency_epoch au < p)))"

definition epoch_changed :: "encoded_transport_queue \<Rightarrow> recorded_access_unit \<Rightarrow> bool" where
  "epoch_changed q au =
     (case tq_epoch_floor_media q of
        None \<Rightarrow> False
      | Some m \<Rightarrow> au_media_epoch au > m \<or>
          (au_media_epoch au = m \<and>
           (case tq_epoch_floor_dependency q of None \<Rightarrow> False | Some p \<Rightarrow> au_dependency_epoch au > p)))"

definition capacity_purge ::
  "encoded_transport_queue \<Rightarrow> encoded_transport_admission \<times> encoded_transport_queue" where
  "capacity_purge q =
     transport_reject ''TRANSPORT_QUEUE_CAPACITY_PURGED'' True False
       (transport_purge True
         (with_diagnostics (\<lambda>d. d\<lparr>td_capacity_purges := saturating_increment (td_capacity_purges d)\<rparr>) q))"

definition accept_access_unit ::
  "encoded_transport_queue \<Rightarrow> recorded_access_unit \<Rightarrow> u64 \<Rightarrow>
   encoded_transport_admission \<times> encoded_transport_queue" where
  "accept_access_unit q au now_ns =
     (let q =
        (if td_awaiting_recovery (tq_diagnostics q)
         then (with_diagnostics (\<lambda>d. d\<lparr>td_awaiting_recovery := False,
                                       td_active_media_epoch := au_media_epoch au,
                                       td_active_dependency_epoch := au_dependency_epoch au\<rparr>) q)
                \<lparr>tq_epoch_floor_media := Some (au_media_epoch au),
                 tq_epoch_floor_dependency := Some (au_dependency_epoch au)\<rparr>
         else q);
          q = q\<lparr>tq_queue := tq_queue q @ [\<lparr>te_access_unit = au, te_enqueued_ns = now_ns\<rparr>]\<rparr>
      in (\<lparr>ta_accepted = True, ta_recovery_required = False, ta_unusable = False,
           ta_reason = ''TRANSPORT_ACCESS_UNIT_ACCEPTED''\<rparr>,
          with_diagnostics
            (\<lambda>d. d\<lparr>td_access_units := length (tq_queue q), td_bytes := size_add (td_bytes d) (au_size au),
                   td_accepted_access_units := saturating_increment (td_accepted_access_units d)\<rparr>) q))"

text \<open>\<open>enqueue\<close> from the capacity checks on.\<close>

definition enqueue_sized ::
  "encoded_transport_queue \<Rightarrow> recorded_access_unit \<Rightarrow> u64 \<Rightarrow>
   encoded_transport_admission \<times> encoded_transport_queue" where
  "enqueue_sized q au now_ns =
     (if au_size au > tc_maximum_bytes (tq_config q) then
        (if is_recovery au then
           transport_reject ''TRANSPORT_RECOVERY_ACCESS_UNIT_TOO_LARGE'' True True
             (transport_purge False
               (with_diagnostics (\<lambda>d. d\<lparr>td_admission_open := False, td_unusable := True\<rparr>) q))
         else capacity_purge q)
      else if length (tq_queue q) \<ge> tc_maximum_access_units (tq_config q) \<or>
              au_size au > size_sub (tc_maximum_bytes (tq_config q)) (td_bytes (tq_diagnostics q))
        then capacity_purge q
      else accept_access_unit q au now_ns)"

definition enter_epoch :: "encoded_transport_queue \<Rightarrow> recorded_access_unit \<Rightarrow> encoded_transport_queue" where
  "enter_epoch q au =
     (if epoch_changed q au
      then (transport_purge (\<not> is_recovery au) q)
             \<lparr>tq_epoch_floor_media := Some (au_media_epoch au),
              tq_epoch_floor_dependency := Some (au_dependency_epoch au)\<rparr>
      else q)"

definition transport_enqueue ::
  "encoded_transport_queue \<Rightarrow> recorded_access_unit \<Rightarrow> u64 \<Rightarrow>
   encoded_transport_admission \<times> encoded_transport_queue" where
  "transport_enqueue q au now_ns =
     (if \<not> td_admission_open (tq_diagnostics q) then
        transport_reject
          (if td_unusable (tq_diagnostics q) then ''TRANSPORT_QUEUE_UNUSABLE'' else ''TRANSPORT_QUEUE_STOPPED'')
          (td_awaiting_recovery (tq_diagnostics q)) (td_unusable (tq_diagnostics q)) q
      else case transport_validate_time q now_ns of
        (False, q) \<Rightarrow> transport_reject ''TRANSPORT_TIME_REGRESSED'' True True q
      | (True, q) \<Rightarrow>
        (case transport_expire_if_needed q now_ns of (expired, q) \<Rightarrow>
          if \<not> validate_access_unit au then
            transport_reject ''TRANSPORT_ACCESS_UNIT_INVALID''
              (td_awaiting_recovery (tq_diagnostics q)) (td_unusable (tq_diagnostics q)) q
          else if stale_epoch q au then
            transport_reject ''TRANSPORT_STALE_EPOCH'' (td_awaiting_recovery (tq_diagnostics q)) False q
          else
            let q = enter_epoch q au in
            if td_awaiting_recovery (tq_diagnostics q) \<and> \<not> is_recovery au then
              transport_reject
                (if expired then ''TRANSPORT_QUEUE_AGE_PURGED'' else ''TRANSPORT_AWAITING_RECOVERY_IDR'')
                True False q
            else enqueue_sized q au now_ns))"

definition transport_dequeue ::
  "encoded_transport_queue \<Rightarrow> u64 \<Rightarrow> encoded_transport_dequeue \<times> encoded_transport_queue" where
  "transport_dequeue q now_ns =
     (if \<not> td_admission_open (tq_diagnostics q) then
        (\<lparr>tdq_access_unit = None, tdq_recovery_required = td_awaiting_recovery (tq_diagnostics q),
          tdq_reason = (if td_unusable (tq_diagnostics q) then ''TRANSPORT_QUEUE_UNUSABLE''
                        else ''TRANSPORT_QUEUE_STOPPED'')\<rparr>, q)
      else case transport_validate_time q now_ns of
        (False, q) \<Rightarrow>
          (\<lparr>tdq_access_unit = None, tdq_recovery_required = True,
            tdq_reason = ''TRANSPORT_TIME_REGRESSED''\<rparr>, q)
      | (True, q) \<Rightarrow>
        (case transport_expire_if_needed q now_ns of
          (True, q) \<Rightarrow>
            (\<lparr>tdq_access_unit = None, tdq_recovery_required = True,
              tdq_reason = ''TRANSPORT_QUEUE_AGE_PURGED''\<rparr>, q)
        | (False, q) \<Rightarrow>
            (case tq_queue q of
               [] \<Rightarrow>
                 (\<lparr>tdq_access_unit = None, tdq_recovery_required = td_awaiting_recovery (tq_diagnostics q),
                   tdq_reason = ''TRANSPORT_QUEUE_EMPTY''\<rparr>, q)
             | front # rest \<Rightarrow>
                 (\<lparr>tdq_access_unit = Some (te_access_unit front), tdq_recovery_required = False,
                   tdq_reason = ''TRANSPORT_ACCESS_UNIT_DEQUEUED''\<rparr>,
                  with_diagnostics
                    (\<lambda>d. d\<lparr>td_access_units := length rest,
                           td_bytes := size_sub (td_bytes d) (au_size (te_access_unit front)),
                           td_dequeued_access_units := saturating_increment (td_dequeued_access_units d)\<rparr>)
                    (q\<lparr>tq_queue := rest\<rparr>)))))"

definition transport_require_recovery :: "encoded_transport_queue \<Rightarrow> bool \<times> encoded_transport_queue" where
  "transport_require_recovery q =
     (if \<not> td_admission_open (tq_diagnostics q) then (False, q)
      else if td_awaiting_recovery (tq_diagnostics q) \<and> tq_queue q = [] then (True, q)
      else (True, transport_purge True
              (with_diagnostics
                (\<lambda>d. d\<lparr>td_explicit_recovery_purges := saturating_increment (td_explicit_recovery_purges d)\<rparr>) q)))"

definition transport_stop :: "encoded_transport_queue \<Rightarrow> encoded_transport_queue" where
  "transport_stop q =
     (if \<not> td_admission_open (tq_diagnostics q) then q
      else transport_purge False (with_diagnostics (\<lambda>d. d\<lparr>td_admission_open := False\<rparr>) q))"

text \<open>The fanout.\<close>

record encoded_fanout_result =
  fr_accepted_any :: bool
  fr_transport_accepted :: bool
  fr_recorder_accepted :: bool
  fr_transport_recovery_required :: bool
  fr_transport_unusable :: bool
  fr_recorder_failed :: bool
  fr_transport_reason :: string
  fr_recorder_reason :: string

definition new_fanout_result :: encoded_fanout_result where
  "new_fanout_result =
     \<lparr>fr_accepted_any = False, fr_transport_accepted = False, fr_recorder_accepted = False,
      fr_transport_recovery_required = False, fr_transport_unusable = False, fr_recorder_failed = False,
      fr_transport_reason = '''', fr_recorder_reason = ''''\<rparr>"

record encoded_fanout_diagnostics =
  fd_transport_active :: bool
  fd_recorder_active :: bool
  fd_published_access_units :: u64
  fd_transport_accepted_access_units :: u64
  fd_transport_rejected_access_units :: u64
  fd_recorder_accepted_access_units :: u64
  fd_recorder_rejected_access_units :: u64
  fd_recorder_failures :: u64

record encoded_access_unit_fanout =
  fo_transport :: "encoded_transport_queue option"
  fo_recorder :: bool
  fo_diagnostics :: encoded_fanout_diagnostics

definition make_fanout ::
  "encoded_transport_queue option \<Rightarrow> bool \<Rightarrow> exn + encoded_access_unit_fanout" where
  "make_fanout transport recorder =
     (if transport = None \<and> \<not> recorder
        then Inl (Invalid_argument ''encoded fanout requires at least one branch'')
      else Inr \<lparr>fo_transport = transport, fo_recorder = recorder,
                fo_diagnostics =
                  \<lparr>fd_transport_active = (transport \<noteq> None), fd_recorder_active = recorder,
                   fd_published_access_units = 0, fd_transport_accepted_access_units = 0,
                   fd_transport_rejected_access_units = 0, fd_recorder_accepted_access_units = 0,
                   fd_recorder_rejected_access_units = 0, fd_recorder_failures = 0\<rparr>\<rparr>)"

definition publish_transport ::
  "recorded_access_unit \<Rightarrow> u64 \<Rightarrow> encoded_fanout_result \<times> encoded_access_unit_fanout \<Rightarrow>
   encoded_fanout_result \<times> encoded_access_unit_fanout" where
  "publish_transport au now_ns = (\<lambda>(r, f).
     (case (fd_transport_active (fo_diagnostics f), fo_transport f) of
        (True, Some q) \<Rightarrow>
          (case transport_enqueue q au now_ns of (admission, q) \<Rightarrow>
             let d = fo_diagnostics f;
                 d = (if ta_accepted admission
                      then d\<lparr>fd_transport_accepted_access_units :=
                               saturating_increment (fd_transport_accepted_access_units d)\<rparr>
                      else d\<lparr>fd_transport_rejected_access_units :=
                               saturating_increment (fd_transport_rejected_access_units d)\<rparr>);
                 d = (if ta_unusable admission then d\<lparr>fd_transport_active := False\<rparr> else d)
             in (r\<lparr>fr_transport_accepted := ta_accepted admission,
                   fr_transport_recovery_required := ta_recovery_required admission,
                   fr_transport_unusable := ta_unusable admission,
                   fr_transport_reason := ta_reason admission\<rparr>,
                 f\<lparr>fo_transport := Some q, fo_diagnostics := d\<rparr>))
      | _ \<Rightarrow> (r, f)))"

definition publish_recorder ::
  "(recorded_access_unit \<Rightarrow> exn + recorder_enqueue_result) \<Rightarrow> recorded_access_unit \<Rightarrow>
   encoded_fanout_result \<times> encoded_access_unit_fanout \<Rightarrow>
   encoded_fanout_result \<times> encoded_access_unit_fanout" where
  "publish_recorder recorder au = (\<lambda>(r, f).
     (if fd_recorder_active (fo_diagnostics f) \<and> fo_recorder f then
        let d = fo_diagnostics f in
        (case recorder au of
           Inr admission \<Rightarrow>
             let d = (if re_accepted admission
                      then d\<lparr>fd_recorder_accepted_access_units :=
                               saturating_increment (fd_recorder_accepted_access_units d)\<rparr>
                      else d\<lparr>fd_recorder_rejected_access_units :=
                               saturating_increment (fd_recorder_rejected_access_units d)\<rparr>);
                 d = (if re_failed admission
                      then d\<lparr>fd_recorder_active := False,
                             fd_recorder_failures := saturating_increment (fd_recorder_failures d)\<rparr>
                      else d)
             in (r\<lparr>fr_recorder_accepted := re_accepted admission, fr_recorder_failed := re_failed admission,
                   fr_recorder_reason := re_reason admission\<rparr>,
                 f\<lparr>fo_diagnostics := d\<rparr>)
         | Inl _ \<Rightarrow>
             (r\<lparr>fr_recorder_failed := True, fr_recorder_reason := ''RECORDER_BRANCH_EXCEPTION''\<rparr>,
              f\<lparr>fo_diagnostics := d
                  \<lparr>fd_recorder_rejected_access_units :=
                     saturating_increment (fd_recorder_rejected_access_units d),
                   fd_recorder_active := False,
                   fd_recorder_failures := saturating_increment (fd_recorder_failures d)\<rparr>\<rparr>))
      else (r, f)))"

definition publish ::
  "encoded_access_unit_fanout \<Rightarrow> (recorded_access_unit \<Rightarrow> exn + recorder_enqueue_result) \<Rightarrow>
   recorded_access_unit \<Rightarrow> u64 \<Rightarrow> encoded_fanout_result \<times> encoded_access_unit_fanout" where
  "publish f recorder au now_ns =
     (let d = fo_diagnostics f;
          f = f\<lparr>fo_diagnostics := d\<lparr>fd_published_access_units :=
                                     saturating_increment (fd_published_access_units d)\<rparr>\<rparr>
      in case publish_recorder recorder au (publish_transport au now_ns (new_fanout_result, f)) of
        (r, f) \<Rightarrow> (r\<lparr>fr_accepted_any := (fr_transport_accepted r \<or> fr_recorder_accepted r)\<rparr>, f))"

definition disable_transport :: "encoded_access_unit_fanout \<Rightarrow> encoded_access_unit_fanout" where
  "disable_transport f =
     f\<lparr>fo_transport := (if fd_transport_active (fo_diagnostics f)
                        then map_option transport_stop (fo_transport f) else fo_transport f),
       fo_diagnostics := (fo_diagnostics f)\<lparr>fd_transport_active := False\<rparr>\<rparr>"

definition disable_recorder :: "encoded_access_unit_fanout \<Rightarrow> encoded_access_unit_fanout" where
  "disable_recorder f =
     f\<lparr>fo_recorder := False, fo_diagnostics := (fo_diagnostics f)\<lparr>fd_recorder_active := False\<rparr>\<rparr>"

section \<open>Invariant of the queue\<close>

definition held_bytes :: "transport_entry list \<Rightarrow> nat" where
  "held_bytes es = sum_list (map (\<lambda>e. au_size (te_access_unit e)) es)"

lemma held_bytes_simps [simp]:
  "held_bytes [] = 0" "held_bytes (e # es) = au_size (te_access_unit e) + held_bytes es"
  "held_bytes (es @ fs) = held_bytes es + held_bytes fs"
  by (simp_all add: held_bytes_def)

definition au_epoch :: "recorded_access_unit \<Rightarrow> u64 \<times> u64" where
  "au_epoch au = (au_media_epoch au, au_dependency_epoch au)"

definition active_epoch :: "encoded_transport_queue \<Rightarrow> u64 \<times> u64" where
  "active_epoch q =
     (td_active_media_epoch (tq_diagnostics q), td_active_dependency_epoch (tq_diagnostics q))"

definition epoch_floor :: "encoded_transport_queue \<Rightarrow> u64 \<times> u64" where
  "epoch_floor q =
     ((case tq_epoch_floor_media q of None \<Rightarrow> 0 | Some m \<Rightarrow> m),
      (case tq_epoch_floor_dependency q of None \<Rightarrow> 0 | Some p \<Rightarrow> p))"

abbreviation awaiting :: "encoded_transport_queue \<Rightarrow> bool" where
  "awaiting q \<equiv> td_awaiting_recovery (tq_diagnostics q)"

abbreviation admitting :: "encoded_transport_queue \<Rightarrow> bool" where
  "admitting q \<equiv> td_admission_open (tq_diagnostics q)"

text \<open>What holds of a queue apart from its contents, and what holds of the contents.\<close>

definition frame_ok :: "encoded_transport_queue \<Rightarrow> bool" where
  "frame_ok q =
     (1 \<le> tc_maximum_access_units (tq_config q) \<and> tc_maximum_access_units (tq_config q) \<le> 64 \<and>
      1 \<le> tc_maximum_bytes (tq_config q) \<and> tc_maximum_bytes (tq_config q) \<le> 64 * 1024 * 1024 \<and>
      (tq_epoch_floor_media q = None) = (tq_epoch_floor_dependency q = None) \<and>
      (td_unusable (tq_diagnostics q) \<longrightarrow> \<not> admitting q))"

definition held_ok :: "encoded_transport_queue \<Rightarrow> transport_entry \<Rightarrow> bool" where
  "held_ok q e =
     (validate_access_unit (te_access_unit e) \<and> au_epoch (te_access_unit e) = active_epoch q \<and>
      (case tq_last_now_ns q of None \<Rightarrow> False | Some t \<Rightarrow> te_enqueued_ns e \<le> t))"

definition contents_ok :: "encoded_transport_queue \<Rightarrow> bool" where
  "contents_ok q =
     (td_access_units (tq_diagnostics q) = length (tq_queue q) \<and>
      td_bytes (tq_diagnostics q) = held_bytes (tq_queue q) \<and>
      length (tq_queue q) \<le> tc_maximum_access_units (tq_config q) \<and>
      held_bytes (tq_queue q) \<le> tc_maximum_bytes (tq_config q) \<and>
      sorted (map te_enqueued_ns (tq_queue q)) \<and> list_all (held_ok q) (tq_queue q) \<and>
      (if awaiting q then tq_queue q = [] \<and> active_epoch q = (0, 0)
       else admitting q \<and> tq_epoch_floor_media q \<noteq> None \<and> active_epoch q = epoch_floor q))"

definition transport_ok :: "encoded_transport_queue \<Rightarrow> bool" where
  "transport_ok q = (frame_ok q \<and> contents_ok q)"

text \<open>Changing only counters of the diagnostics changes nothing of the above.\<close>

definition unmoved :: "encoded_transport_queue \<Rightarrow> encoded_transport_queue \<Rightarrow> bool" where
  "unmoved q q' =
     (tq_config q' = tq_config q \<and> tq_queue q' = tq_queue q \<and>
      tq_epoch_floor_media q' = tq_epoch_floor_media q \<and>
      tq_epoch_floor_dependency q' = tq_epoch_floor_dependency q \<and> awaiting q' = awaiting q \<and>
      active_epoch q' = active_epoch q \<and> admitting q' = admitting q \<and>
      td_unusable (tq_diagnostics q') = td_unusable (tq_diagnostics q) \<and>
      td_access_units (tq_diagnostics q') = td_access_units (tq_diagnostics q) \<and>
      td_bytes (tq_diagnostics q') = td_bytes (tq_diagnostics q) \<and>
      (tq_last_now_ns q' = tq_last_now_ns q \<or>
       (\<exists>now. tq_last_now_ns q' = Some now \<and> \<not> time_regressed (tq_last_now_ns q) now)))"

lemma unmoved_held: "unmoved q q' \<Longrightarrow> held_ok q e \<Longrightarrow> held_ok q' e"
  by (fastforce simp: unmoved_def held_ok_def time_regressed_def split: option.splits)

lemma unmoved_ok: "unmoved q q' \<Longrightarrow> transport_ok q \<Longrightarrow> transport_ok q'"
proof -
  assume same: "unmoved q q'" and ok: "transport_ok q"
  have "list_all (held_ok q') (tq_queue q')"
    using same ok unmoved_held [OF same]
    by (auto simp: unmoved_def transport_ok_def contents_ok_def list_all_iff)
  moreover have "epoch_floor q' = epoch_floor q" using same by (simp add: unmoved_def epoch_floor_def)
  ultimately show ?thesis
    using same ok by (auto simp: unmoved_def transport_ok_def frame_ok_def contents_ok_def split: if_splits)
qed

lemma purge_facts [simp]:
  "tq_config (transport_purge b q) = tq_config q" "tq_queue (transport_purge b q) = []"
  "tq_epoch_floor_media (transport_purge b q) = tq_epoch_floor_media q"
  "tq_epoch_floor_dependency (transport_purge b q) = tq_epoch_floor_dependency q"
  "tq_last_now_ns (transport_purge b q) = tq_last_now_ns q"
  "epoch_floor (transport_purge b q) = epoch_floor q"
  "awaiting (transport_purge b q)" "admitting (transport_purge b q) = admitting q"
  "active_epoch (transport_purge b q) = (0, 0)"
  "td_unusable (tq_diagnostics (transport_purge b q)) = td_unusable (tq_diagnostics q)"
  by (simp_all add: transport_purge_def Let_def epoch_floor_def active_epoch_def)

lemma transport_purge_ok: "frame_ok q \<Longrightarrow> transport_ok (transport_purge b q)"
proof -
  assume "frame_ok q"
  then have "frame_ok (transport_purge b q)" by (simp add: frame_ok_def)
  moreover have "contents_ok (transport_purge b q)"
    by (simp add: contents_ok_def) (simp add: transport_purge_def Let_def)
  ultimately show ?thesis by (simp add: transport_ok_def)
qed

lemma with_diagnostics_facts [simp]:
  "tq_config (with_diagnostics g q) = tq_config q" "tq_queue (with_diagnostics g q) = tq_queue q"
  "tq_epoch_floor_media (with_diagnostics g q) = tq_epoch_floor_media q"
  "tq_epoch_floor_dependency (with_diagnostics g q) = tq_epoch_floor_dependency q"
  "tq_last_now_ns (with_diagnostics g q) = tq_last_now_ns q"
  "epoch_floor (with_diagnostics g q) = epoch_floor q"
  "tq_diagnostics (with_diagnostics g q) = g (tq_diagnostics q)"
  by (simp_all add: with_diagnostics_def epoch_floor_def)

text \<open>Every part of an operation that neither takes nor hands out an access unit either leaves
  the queue as it is or empties it and waits for recovery; the floor never goes down.\<close>

definition settles :: "encoded_transport_queue \<Rightarrow> encoded_transport_queue \<Rightarrow> bool" where
  "settles q q' =
     (transport_ok q' \<and> epoch_floor q \<le> epoch_floor q' \<and> tq_config q' = tq_config q \<and>
      (admitting q' \<longrightarrow> admitting q) \<and>
      (tq_queue q' = tq_queue q \<and> awaiting q' = awaiting q \<and> active_epoch q' = active_epoch q \<or>
       awaiting q' \<and> tq_queue q' = []))"

lemma settles_trans: "settles a b \<Longrightarrow> settles b c \<Longrightarrow> settles a c"
  by (auto simp: settles_def intro: order_trans)

lemma settles_refl: "transport_ok q \<Longrightarrow> settles q q"
  by (simp add: settles_def)

lemma unmoved_settles: "unmoved q q' \<Longrightarrow> transport_ok q \<Longrightarrow> settles q q'"
  using unmoved_ok [of q q'] by (auto simp: settles_def unmoved_def epoch_floor_def)

lemma purge_settles:
  "frame_ok q' \<Longrightarrow> tq_config q' = tq_config q \<Longrightarrow> epoch_floor q' = epoch_floor q \<Longrightarrow>
   (admitting q' \<longrightarrow> admitting q) \<Longrightarrow> settles q (transport_purge b q')"
  by (simp add: settles_def transport_purge_ok)

lemma reject_settles:
  assumes "transport_ok q"
  shows "settles q (snd (transport_reject reason b u q))"
    and "ta_accepted (fst (transport_reject reason b u q)) = False"
  using unmoved_settles [OF _ assms]
  by (simp_all add: transport_reject_def unmoved_def active_epoch_def)

lemma validate_time_cases:
  assumes "transport_ok q"
  obtains (regressed) q' where "transport_validate_time q now = (False, q')" "settles q q'" "\<not> admitting q'"
      "time_regressed (tq_last_now_ns q) now"
  | (fine) "transport_validate_time q now = (True, q\<lparr>tq_last_now_ns := Some now\<rparr>)"
      "unmoved q (q\<lparr>tq_last_now_ns := Some now\<rparr>)" "\<not> time_regressed (tq_last_now_ns q) now"
proof (cases "time_regressed (tq_last_now_ns q) now")
  case True
  have "settles q (snd (transport_validate_time q now))"
    using assms True by (simp add: transport_validate_time_def)
      (rule purge_settles, auto simp: transport_ok_def frame_ok_def epoch_floor_def)
  with True regressed show thesis by (simp add: transport_validate_time_def)
next
  case False
  with fine show thesis
    by (simp add: transport_validate_time_def unmoved_def active_epoch_def)
qed

lemma expire_settles: "transport_ok q \<Longrightarrow> settles q (snd (transport_expire_if_needed q now))"
  by (auto simp: transport_expire_if_needed_def intro!: settles_refl purge_settles
      simp: transport_ok_def frame_ok_def split: list.splits)

lemma expire_fst:
  "fst (transport_expire_if_needed q now) \<longleftrightarrow>
   tq_queue q \<noteq> [] \<and> \<not> now - te_enqueued_ns (hd (tq_queue q)) < tc_maximum_age_ns (tq_config q)"
  "\<not> fst (transport_expire_if_needed q now) \<Longrightarrow> snd (transport_expire_if_needed q now) = q"
  by (auto simp: transport_expire_if_needed_def split: list.splits)

lemma expire_facts [simp]:
  "tq_last_now_ns (snd (transport_expire_if_needed q now)) = tq_last_now_ns q"
  "admitting (snd (transport_expire_if_needed q now)) = admitting q"
  "tq_config (snd (transport_expire_if_needed q now)) = tq_config q"
  "tq_epoch_floor_media (snd (transport_expire_if_needed q now)) = tq_epoch_floor_media q"
  "tq_epoch_floor_dependency (snd (transport_expire_if_needed q now)) = tq_epoch_floor_dependency q"
  by (auto simp: transport_expire_if_needed_def split: list.splits)

lemma epoch_order:
  assumes "frame_ok q"
  shows "stale_epoch q au \<longleftrightarrow> tq_epoch_floor_media q \<noteq> None \<and> au_epoch au < epoch_floor q"
    and "epoch_changed q au \<longleftrightarrow> tq_epoch_floor_media q \<noteq> None \<and> epoch_floor q < au_epoch au"
  using assms by (auto simp: stale_epoch_def epoch_changed_def epoch_floor_def au_epoch_def frame_ok_def
      split: option.splits)

lemma floor_none: "frame_ok q \<Longrightarrow> tq_epoch_floor_media q = None \<Longrightarrow> epoch_floor q = (0, 0)"
  by (simp add: frame_ok_def epoch_floor_def)

lemma zero_epoch_le: "(0, 0) \<le> (p :: u64 \<times> u64)"
  by (cases p) (auto simp: word_greater_zero_iff)

text \<open>After \<open>enter_epoch\<close> an access unit that is not stale is of the floor's epochs, or there is
  no floor yet and the queue waits for its first IDR.\<close>

lemma enter_epoch_facts:
  assumes ok: "transport_ok q" and fresh: "\<not> stale_epoch q au"
  shows "settles q (enter_epoch q au)"
    and "tq_epoch_floor_media (enter_epoch q au) \<noteq> None \<Longrightarrow> epoch_floor (enter_epoch q au) = au_epoch au"
    and "epoch_floor (enter_epoch q au) \<le> au_epoch au"
    and "tq_last_now_ns (enter_epoch q au) = tq_last_now_ns q"
    and "admitting (enter_epoch q au) = admitting q"
proof -
  have frame: "frame_ok q" using ok by (simp add: transport_ok_def)
  show floor: "tq_epoch_floor_media (enter_epoch q au) \<noteq> None \<Longrightarrow> epoch_floor (enter_epoch q au) = au_epoch au"
    using fresh epoch_order [OF frame, of au]
    by (auto simp: enter_epoch_def au_epoch_def epoch_floor_def split: if_splits)
  show "epoch_floor (enter_epoch q au) \<le> au_epoch au"
  proof (cases "tq_epoch_floor_media (enter_epoch q au) = None")
    case True
    then have "enter_epoch q au = q" by (auto simp: enter_epoch_def)
    with True frame show ?thesis by (simp add: floor_none zero_epoch_le)
  qed (simp add: floor)
  show "settles q (enter_epoch q au)"
  proof (cases "epoch_changed q au")
    case True
    then have "epoch_floor q \<le> au_epoch au" using epoch_order(2) [OF frame, of au] by auto
    moreover have "transport_ok (enter_epoch q au)"
      using transport_purge_ok [OF frame, of "\<not> is_recovery au"] True
      by (auto simp: enter_epoch_def transport_ok_def frame_ok_def contents_ok_def held_ok_def active_epoch_def)
    ultimately show ?thesis
      using True by (auto simp: settles_def enter_epoch_def epoch_floor_def au_epoch_def)
  qed (simp add: enter_epoch_def settles_refl ok)
  show "tq_last_now_ns (enter_epoch q au) = tq_last_now_ns q"
    and "admitting (enter_epoch q au) = admitting q"
    by (simp_all add: enter_epoch_def)
qed

section \<open>What the operations do\<close>

lemma accept_facts:
  fixes q :: encoded_transport_queue
  assumes ok: "transport_ok q" and valid: "validate_access_unit au" and "admitting q"
    and epoch: "tq_epoch_floor_media q \<noteq> None \<Longrightarrow> epoch_floor q = au_epoch au"
    and now: "tq_last_now_ns q = Some now"
    and room: "length (tq_queue q) < tc_maximum_access_units (tq_config q)"
      "au_size au \<le> tc_maximum_bytes (tq_config q) - td_bytes (tq_diagnostics q)"
  defines "q' \<equiv> snd (accept_access_unit q au now)"
  shows "transport_ok q'"
    and "tq_queue q' = tq_queue q @ [\<lparr>te_access_unit = au, te_enqueued_ns = now\<rparr>]"
    and "\<not> awaiting q'" "active_epoch q' = au_epoch au" "epoch_floor q' = au_epoch au" "admitting q'"
    and "tq_config q' = tq_config q" "ta_accepted (fst (accept_access_unit q au now))"
proof -
  show queue: "tq_queue q' = tq_queue q @ [\<lparr>te_access_unit = au, te_enqueued_ns = now\<rparr>]"
    and open': "\<not> awaiting q'" and adm: "admitting q'" and cfg: "tq_config q' = tq_config q"
    and "ta_accepted (fst (accept_access_unit q au now))"
    using assms(3) by (simp_all add: q'_def accept_access_unit_def Let_def)
  show act: "active_epoch q' = au_epoch au"
    using ok epoch by (auto simp: q'_def accept_access_unit_def Let_def active_epoch_def au_epoch_def
        transport_ok_def contents_ok_def)
  show flo: "epoch_floor q' = au_epoch au"
    using ok epoch by (auto simp: q'_def accept_access_unit_def Let_def epoch_floor_def au_epoch_def
        transport_ok_def contents_ok_def)
  have counts: "td_access_units (tq_diagnostics q') = length (tq_queue q')"
    "td_bytes (tq_diagnostics q') = size_add (td_bytes (tq_diagnostics q)) (au_size au)"
    "td_unusable (tq_diagnostics q') = td_unusable (tq_diagnostics q)"
    "tq_last_now_ns q' = Some now"
    using now by (simp_all add: q'_def accept_access_unit_def Let_def)
  have floors: "(tq_epoch_floor_media q' = None) = (tq_epoch_floor_dependency q' = None)"
    "tq_epoch_floor_media q' \<noteq> None"
    using ok by (auto simp: q'_def accept_access_unit_def Let_def transport_ok_def contents_ok_def frame_ok_def)
  have held: "held_ok q' e" if "e \<in> set (tq_queue q)" for e
  proof -
    have "held_ok q e" "\<not> awaiting q" using that ok
      by (auto simp: transport_ok_def contents_ok_def list_all_iff split: if_splits)
    moreover from this(2) have "active_epoch q = au_epoch au"
      using ok epoch by (auto simp: transport_ok_def contents_ok_def)
    ultimately show ?thesis using act counts(4) now by (simp add: held_ok_def)
  qed
  moreover have "held_ok q' \<lparr>te_access_unit = au, te_enqueued_ns = now\<rparr>"
    using valid act counts(4) by (simp add: held_ok_def)
  moreover have "te_enqueued_ns e \<le> now" if "e \<in> set (tq_queue q)" for e
    using held [OF that] counts(4) by (simp add: held_ok_def)
  moreover have "td_bytes (tq_diagnostics q') = held_bytes (tq_queue q')"
    "held_bytes (tq_queue q') \<le> tc_maximum_bytes (tq_config q)"
    using ok room counts(2) queue
    by (auto simp: transport_ok_def contents_ok_def frame_ok_def size_simps)
  ultimately show "transport_ok q'"
    using ok room counts floors queue open' adm cfg act flo assms(3)
    by (auto simp: transport_ok_def frame_ok_def contents_ok_def sorted_append list_all_iff)
qed

lemma capacity_purge_settles:
  "transport_ok q \<Longrightarrow> settles q (snd (capacity_purge q))"
  "\<not> ta_accepted (fst (capacity_purge q))"
proof -
  assume "transport_ok q"
  then have "settles q (transport_purge True (with_diagnostics
     (\<lambda>d. d\<lparr>td_capacity_purges := saturating_increment (td_capacity_purges d)\<rparr>) q))" (is "settles q ?q")
    by (intro purge_settles) (auto simp: transport_ok_def frame_ok_def)
  moreover from this have "transport_ok ?q" by (simp add: settles_def)
  ultimately show "settles q (snd (capacity_purge q))"
    unfolding capacity_purge_def using reject_settles(1) settles_trans by blast
qed (simp add: capacity_purge_def transport_reject_def)

text \<open>The conditions under which the last part of \<open>enqueue\<close> accepts.\<close>

definition fits :: "encoded_transport_queue \<Rightarrow> recorded_access_unit \<Rightarrow> bool" where
  "fits q au =
     (length (tq_queue q) < tc_maximum_access_units (tq_config q) \<and>
      td_bytes (tq_diagnostics q) + au_size au \<le> tc_maximum_bytes (tq_config q))"

lemma enqueue_sized_cases:
  assumes "transport_ok q"
  shows "fits q au \<Longrightarrow> enqueue_sized q au now = accept_access_unit q au now"
    and "\<not> fits q au \<Longrightarrow> settles q (snd (enqueue_sized q au now))"
    and "\<not> fits q au \<Longrightarrow> \<not> ta_accepted (fst (enqueue_sized q au now))"
proof -
  have bytes: "td_bytes (tq_diagnostics q) \<le> tc_maximum_bytes (tq_config q)"
    "tc_maximum_bytes (tq_config q) \<le> 64 * 1024 * 1024"
    using assms by (simp_all add: transport_ok_def contents_ok_def frame_ok_def)
  then have sub: "size_sub (tc_maximum_bytes (tq_config q)) (td_bytes (tq_diagnostics q)) =
      tc_maximum_bytes (tq_config q) - td_bytes (tq_diagnostics q)"
    by (intro size_sub_exact) simp_all
  show "fits q au \<Longrightarrow> enqueue_sized q au now = accept_access_unit q au now"
    by (auto simp: enqueue_sized_def fits_def sub)
  have too_large: "settles q (snd (transport_reject r True True (transport_purge False
      (with_diagnostics (\<lambda>d. d\<lparr>td_admission_open := False, td_unusable := True\<rparr>) q))))" for r
  proof -
    have "settles q (transport_purge False
        (with_diagnostics (\<lambda>d. d\<lparr>td_admission_open := False, td_unusable := True\<rparr>) q))" (is "settles q ?q")
      using assms by (intro purge_settles) (auto simp: transport_ok_def frame_ok_def)
    moreover from this have "transport_ok ?q" by (simp add: settles_def)
    ultimately show ?thesis using reject_settles(1) settles_trans by blast
  qed
  assume "\<not> fits q au"
  then have "length (tq_queue q) \<ge> tc_maximum_access_units (tq_config q) \<or>
      au_size au > tc_maximum_bytes (tq_config q) - td_bytes (tq_diagnostics q)"
    using bytes by (auto simp: fits_def)
  then show "settles q (snd (enqueue_sized q au now))" "\<not> ta_accepted (fst (enqueue_sized q au now))"
    using assms too_large capacity_purge_settles
    by (auto simp: enqueue_sized_def sub transport_reject_def)
qed

text \<open>The two things \<open>enqueue\<close> can do.\<close>

definition took ::
  "encoded_transport_queue \<Rightarrow> recorded_access_unit \<Rightarrow> u64 \<Rightarrow> encoded_transport_queue \<Rightarrow> bool" where
  "took q1 au now q' =
     (transport_ok q' \<and> \<not> awaiting q' \<and> admitting q1 \<and>
      tq_queue q' = tq_queue q1 @ [\<lparr>te_access_unit = au, te_enqueued_ns = now\<rparr>] \<and>
      active_epoch q' = au_epoch au \<and> epoch_floor q' = au_epoch au \<and> epoch_floor q1 \<le> au_epoch au \<and>
      tq_config q' = tq_config q1 \<and> validate_access_unit au \<and>
      (if awaiting q1 then is_recovery au else active_epoch q1 = au_epoch au))"

lemma enqueue_validated_cases:
  assumes ok: "transport_ok q" "admitting q" "tq_last_now_ns q = Some now" and valid: "validate_access_unit au"
    and fresh: "\<not> stale_epoch q au"
  defines "q1 \<equiv> enter_epoch q au"
  assumes "\<not> (awaiting q1 \<and> \<not> is_recovery au)"
  obtains (rejected) "settles q (snd (enqueue_sized q1 au now))" "\<not> ta_accepted (fst (enqueue_sized q1 au now))"
  | (accepted) "settles q q1" "fits q1 au" "ta_accepted (fst (enqueue_sized q1 au now))"
      "took q1 au now (snd (enqueue_sized q1 au now))"
proof -
  note enter = enter_epoch_facts [OF ok(1) fresh, folded q1_def]
  have ok1: "transport_ok q1" using enter(1) by (simp add: settles_def)
  show thesis
  proof (cases "fits q1 au")
    case True
    have "admitting q1" "tq_last_now_ns q1 = Some now" using enter ok by simp_all
    note accept = accept_facts [OF ok1 valid this(1) enter(2) this(2)]
    have "length (tq_queue q1) < tc_maximum_access_units (tq_config q1)"
      "au_size au \<le> tc_maximum_bytes (tq_config q1) - td_bytes (tq_diagnostics q1)"
      using True by (auto simp: fits_def)
    note accept = accept [OF _ this]
    have "took q1 au now (snd (accept_access_unit q1 au now))"
      using accept enter(3,2) valid assms(7) ok1 \<open>admitting q1\<close>
      by (auto simp: took_def transport_ok_def contents_ok_def)
    with accepted enter(1) True accept(8) enqueue_sized_cases(1) [OF ok1 True] show thesis by simp
  next
    case False
    with rejected enqueue_sized_cases(2,3) [OF ok1 False, of now] settles_trans [OF enter(1)]
    show thesis by blast
  qed
qed

lemma enqueue_cases:
  assumes ok: "transport_ok q"
  obtains (rejected) "settles q (snd (transport_enqueue q au now))"
      "\<not> ta_accepted (fst (transport_enqueue q au now))"
  | (accepted) q1 where "settles q q1" "took q1 au now (snd (transport_enqueue q au now))"
      "ta_accepted (fst (transport_enqueue q au now))"
proof (cases "admitting q")
  case False
  with rejected reject_settles [OF ok] show thesis by (simp add: transport_enqueue_def)
next
  case True
  from ok show thesis
  proof (cases rule: validate_time_cases [of q now])
    case (regressed q')
    then have "transport_ok q'" by (simp add: settles_def)
    then have "settles q (snd (transport_reject r b u q'))" "\<not> ta_accepted (fst (transport_reject r b u q'))" for r b u
      using reject_settles [of q'] settles_trans [OF regressed(2)] by blast+
    with rejected regressed(1) True show thesis by (simp add: transport_enqueue_def)
  next
    case fine
    define q0 where "q0 = q\<lparr>tq_last_now_ns := Some now\<rparr>"
    have s0: "settles q q0" using unmoved_settles fine(2) ok by (simp add: q0_def)
    obtain expired q2 where ex: "transport_expire_if_needed q0 now = (expired, q2)" by fastforce
    have s2: "settles q q2"
      using expire_settles [of q0 now] s0 settles_trans [OF s0] by (simp add: ex settles_def)
    have ok2: "transport_ok q2" "admitting q2" "tq_last_now_ns q2 = Some now"
      using s2 expire_facts(1,2) [of q0 now, unfolded ex snd_conv] True by (simp_all add: settles_def q0_def)
    have rej: "settles q (snd (transport_reject r b u q2))" "\<not> ta_accepted (fst (transport_reject r b u q2))"
      for r b u using reject_settles [OF ok2(1)] settles_trans [OF s2] by blast+
    have rej': "settles q (snd (transport_reject r b u (enter_epoch q2 au)))"
      "\<not> ta_accepted (fst (transport_reject r b u (enter_epoch q2 au)))" if "\<not> stale_epoch q2 au" for r b u
    proof -
      have s: "settles q (enter_epoch q2 au)" using enter_epoch_facts(1) [OF ok2(1) that] settles_trans [OF s2] by blast
      then have "transport_ok (enter_epoch q2 au)" by (simp add: settles_def)
      then show "settles q (snd (transport_reject r b u (enter_epoch q2 au)))"
        "\<not> ta_accepted (fst (transport_reject r b u (enter_epoch q2 au)))"
        using reject_settles settles_trans [OF s] by blast+
    qed
    note eq = transport_enqueue_def [of q au now, unfolded fine(1) q0_def [symmetric]]
    consider "\<not> validate_access_unit au \<or> stale_epoch q2 au"
      | "validate_access_unit au" "\<not> stale_epoch q2 au" "awaiting (enter_epoch q2 au) \<and> \<not> is_recovery au"
      | "validate_access_unit au" "\<not> stale_epoch q2 au" "\<not> (awaiting (enter_epoch q2 au) \<and> \<not> is_recovery au)"
      by blast
    then show thesis
    proof cases
      case 1
      then have "\<exists>r b u. transport_enqueue q au now = transport_reject r b u q2"
        using True ex by (auto simp: eq)
      with rejected rej show thesis by metis
    next
      case 2
      with rejected rej' True ex show thesis by (simp add: eq Let_def)
    next
      case 3
      have run: "transport_enqueue q au now = enqueue_sized (enter_epoch q2 au) au now"
        using 3 True ex by (auto simp: eq Let_def)
      show thesis
        by (rule enqueue_validated_cases [OF ok2 3])
          (use that run settles_trans [OF s2] in auto)
    qed
  qed
qed

lemma dequeue_cases:
  assumes ok: "transport_ok q"
  obtains (none) "settles q (snd (transport_dequeue q now))"
      "tdq_access_unit (fst (transport_dequeue q now)) = None"
  | (front) e rest where "tq_queue q = e # rest" "tq_queue (snd (transport_dequeue q now)) = rest"
      "tdq_access_unit (fst (transport_dequeue q now)) = Some (te_access_unit e)"
      "transport_ok (snd (transport_dequeue q now))" "\<not> awaiting (snd (transport_dequeue q now))"
      "active_epoch (snd (transport_dequeue q now)) = active_epoch q"
      "epoch_floor (snd (transport_dequeue q now)) = epoch_floor q"
      "tq_config (snd (transport_dequeue q now)) = tq_config q" "admitting q"
      "unat now - unat (te_enqueued_ns e) < unat (tc_maximum_age_ns (tq_config q))" "te_enqueued_ns e \<le> now"
proof (cases "admitting q")
  case False
  with none settles_refl [OF ok] show thesis by (simp add: transport_dequeue_def)
next
  case True
  from ok show thesis
  proof (cases rule: validate_time_cases [of q now])
    case (regressed q')
    with none True show thesis by (simp add: transport_dequeue_def)
  next
    case fine
    define q0 where "q0 = q\<lparr>tq_last_now_ns := Some now\<rparr>"
    have s0: "settles q q0" and ok0: "transport_ok q0"
      using unmoved_settles unmoved_ok fine(2) ok by (simp_all add: q0_def)
    note eq = transport_dequeue_def [of q now, unfolded fine(1) q0_def [symmetric]]
    obtain expired q2 where ex: "transport_expire_if_needed q0 now = (expired, q2)" by fastforce
    show thesis
    proof (cases expired)
      case True
      with none ex eq \<open>admitting q\<close> settles_trans [OF s0] expire_settles [OF ok0, of now] show thesis by simp
    next
      case False
      then have q2: "q2 = q0" using expire_fst(2) [of q0 now] ex by simp
      show thesis
      proof (cases "tq_queue q0")
        case Nil
        with none ex eq True False q2 s0 show thesis by simp
      next
        case (Cons e rest)
        have bytes: "td_bytes (tq_diagnostics q0) = au_size (te_access_unit e) + held_bytes rest"
          "au_size (te_access_unit e) + held_bytes rest \<le> tc_maximum_bytes (tq_config q0)"
          "tc_maximum_bytes (tq_config q0) \<le> 64 * 1024 * 1024" "\<not> awaiting q0"
          "te_enqueued_ns e \<le> now"
          using ok0 Cons by (auto simp: transport_ok_def contents_ok_def frame_ok_def held_ok_def q0_def split: if_splits)
        have sub: "size_sub (td_bytes (tq_diagnostics q0)) (au_size (te_access_unit e)) = held_bytes rest"
          using bytes by (simp add: size_sub_exact)
        define q' where "q' = with_diagnostics (\<lambda>d. d\<lparr>td_access_units := length rest,
           td_bytes := size_sub (td_bytes d) (au_size (te_access_unit e)),
           td_dequeued_access_units := saturating_increment (td_dequeued_access_units d)\<rparr>)
           (q0\<lparr>tq_queue := rest\<rparr>)"
        have ok': "transport_ok q'"
          using ok0 Cons sub bytes
          by (auto simp: q'_def transport_ok_def contents_ok_def frame_ok_def held_ok_def active_epoch_def
              epoch_floor_def list_all_iff split: if_splits)
        have run: "transport_dequeue q now =
          (\<lparr>tdq_access_unit = Some (te_access_unit e), tdq_recovery_required = False,
            tdq_reason = ''TRANSPORT_ACCESS_UNIT_DEQUEUED''\<rparr>, q')"
          using True False ex Cons q2 by (simp add: eq q'_def)
        have "now - te_enqueued_ns e < tc_maximum_age_ns (tq_config q0)"
          using False ex expire_fst(1) [of q0 now] Cons by simp
        then have "unat now - unat (te_enqueued_ns e) < unat (tc_maximum_age_ns (tq_config q))"
          using elapsed_unat [OF bytes(5)] by (simp add: word_less_nat_alt q0_def)
        with front [of e rest] run ok' Cons bytes True show thesis
          by (simp add: q'_def q0_def active_epoch_def epoch_floor_def)
      qed
    qed
  qed
qed

lemma require_recovery_settles: "transport_ok q \<Longrightarrow> settles q (snd (transport_require_recovery q))"
  by (auto simp: transport_require_recovery_def transport_ok_def frame_ok_def
      intro!: settles_refl purge_settles)

lemma stop_settles: "transport_ok q \<Longrightarrow> settles q (transport_stop q)"
  by (auto simp: transport_stop_def transport_ok_def frame_ok_def intro!: settles_refl purge_settles)

section \<open>The access units taken in and handed out\<close>

text \<open>The queue as a machine, with two histories beside it: the access units it accepted and the
  ones it handed to the transport.\<close>

datatype transport_op =
    T_enqueue recorded_access_unit u64
  | T_dequeue u64
  | T_require_recovery
  | T_stop

type_synonym transport_log =
  "encoded_transport_queue \<times> recorded_access_unit list \<times> recorded_access_unit list"

fun transport_step :: "transport_log \<Rightarrow> transport_op \<Rightarrow> transport_log" where
  "transport_step (q, accepted, sent) (T_enqueue au now) =
     (snd (transport_enqueue q au now),
      accepted @ (if ta_accepted (fst (transport_enqueue q au now)) then [au] else []), sent)"
| "transport_step (q, accepted, sent) (T_dequeue now) =
     (snd (transport_dequeue q now), accepted,
      sent @ (case tdq_access_unit (fst (transport_dequeue q now)) of None \<Rightarrow> [] | Some au \<Rightarrow> [au]))"
| "transport_step (q, accepted, sent) T_require_recovery =
     (snd (transport_require_recovery q), accepted, sent)"
| "transport_step (q, accepted, sent) T_stop = (transport_stop q, accepted, sent)"

text \<open>A group: a recovery IDR and the access units accepted after it until the next loss, of which
  the first \<open>n\<close> have been handed out.\<close>

definition group_ok :: "recorded_access_unit list \<times> nat \<Rightarrow> bool" where
  "group_ok g =
     (case g of (units, n) \<Rightarrow>
        units \<noteq> [] \<and> n \<le> length units \<and> is_recovery (hd units) \<and>
        list_all (\<lambda>au. validate_access_unit au \<and> au_epoch au = au_epoch (hd units)) units)"

definition group_epoch :: "recorded_access_unit list \<times> nat \<Rightarrow> u64 \<times> u64" where
  "group_epoch g = au_epoch (hd (fst g))"

definition groups_accepted :: "(recorded_access_unit list \<times> nat) list \<Rightarrow> recorded_access_unit list" where
  "groups_accepted gs = concat (map fst gs)"

definition groups_sent :: "(recorded_access_unit list \<times> nat) list \<Rightarrow> recorded_access_unit list" where
  "groups_sent gs = concat (map (\<lambda>(units, n). take n units) gs)"

lemma groups_simps [simp]:
  "groups_accepted [] = []" "groups_sent [] = []"
  "groups_accepted (gs @ hs) = groups_accepted gs @ groups_accepted hs"
  "groups_sent (gs @ hs) = groups_sent gs @ groups_sent hs"
  "groups_accepted [(units, n)] = units" "groups_sent [(units, n)] = take n units"
  by (simp_all add: groups_accepted_def groups_sent_def)

text \<open>The invariant of the log, for the groups that explain it.\<close>

definition explains ::
  "(recorded_access_unit list \<times> nat) list \<Rightarrow> transport_log \<Rightarrow> bool" where
  "explains gs = (\<lambda>(q, accepted, sent).
     transport_ok q \<and> accepted = groups_accepted gs \<and> sent = groups_sent gs \<and> list_all group_ok gs \<and>
     sorted (map group_epoch gs) \<and> list_all (\<lambda>g. group_epoch g \<le> epoch_floor q) gs \<and>
     (\<not> awaiting q \<longrightarrow>
        (\<exists>front units n. gs = front @ [(units, n)] \<and> map te_access_unit (tq_queue q) = drop n units \<and>
                         au_epoch (hd units) = active_epoch q)))"

definition log_ok :: "transport_log \<Rightarrow> bool" where
  "log_ok l = (\<exists>gs. explains gs l)"

lemma explains_settles:
  assumes "explains gs (q, accepted, sent)" "settles q q'"
  shows "explains gs (q', accepted, sent)"
proof -
  have "group_epoch g \<le> epoch_floor q'" if "g \<in> set gs" for g
    using assms that by (auto simp: explains_def settles_def list_all_iff intro: order_trans)
  moreover have "\<not> awaiting q' \<Longrightarrow> \<not> awaiting q \<and> tq_queue q' = tq_queue q \<and> active_epoch q' = active_epoch q"
    using assms(2) by (auto simp: settles_def)
  ultimately show ?thesis
    using assms by (auto simp: explains_def settles_def list_all_iff)
qed

lemma explains_took:
  assumes ex: "explains gs (q1, accepted, sent)" and took: "took q1 au now q'"
  shows "log_ok (q', accepted @ [au], sent)"
proof (cases "awaiting q1")
  case True
  then have "tq_queue q1 = []" using ex by (auto simp: explains_def transport_ok_def contents_ok_def)
  moreover have "group_epoch g \<le> au_epoch au" if "g \<in> set gs" for g
    using ex took that by (auto simp: explains_def took_def list_all_iff intro: order_trans)
  ultimately have "explains (gs @ [([au], 0)]) (q', accepted @ [au], sent)"
    using ex took True
    by (auto simp: explains_def took_def group_ok_def sorted_append list_all_iff group_epoch_def)
  then show ?thesis by (auto simp: log_ok_def)
next
  case False
  then obtain front units n where gs: "gs = front @ [(units, n)]"
    "map te_access_unit (tq_queue q1) = drop n units" "au_epoch (hd units) = active_epoch q1"
    using ex by (auto simp: explains_def)
  then have group: "units \<noteq> []" "n \<le> length units" "is_recovery (hd units)"
    using ex by (auto simp: explains_def group_ok_def)
  have "explains (front @ [(units @ [au], n)]) (q', accepted @ [au], sent)"
    using ex took False gs group
    by (auto simp: explains_def took_def group_ok_def sorted_append list_all_iff group_epoch_def)
  then show ?thesis by (auto simp: log_ok_def)
qed

lemma explains_front:
  assumes ex: "explains gs (q, accepted, sent)" and q: "tq_queue q = e # rest"
    and q': "tq_queue q' = rest" "transport_ok q'" "\<not> awaiting q'" "active_epoch q' = active_epoch q"
      "epoch_floor q' = epoch_floor q"
  shows "log_ok (q', accepted, sent @ [te_access_unit e])"
proof -
  have "\<not> awaiting q" using ex q by (auto simp: explains_def transport_ok_def contents_ok_def)
  then obtain front units n where gs: "gs = front @ [(units, n)]"
    "te_access_unit e # map te_access_unit rest = drop n units" "au_epoch (hd units) = active_epoch q"
    using ex q by (auto simp: explains_def)
  then have n: "n < length units" by (metis drop_eq_Nil list.distinct(1) not_le)
  then have "drop n units = units ! n # drop (Suc n) units" by (simp add: Cons_nth_drop_Suc)
  with gs n have next_unit: "units ! n = te_access_unit e" "drop (Suc n) units = map te_access_unit rest"
    "take (Suc n) units = take n units @ [te_access_unit e]" by (simp_all add: take_Suc_conv_app_nth)
  have "explains (front @ [(units, Suc n)]) (q', accepted, sent @ [te_access_unit e])"
    using ex q' gs n next_unit by (auto simp: explains_def group_ok_def group_epoch_def)
  then show ?thesis by (auto simp: log_ok_def)
qed

lemma transport_step_ok: "log_ok l \<Longrightarrow> log_ok (transport_step l op)"
proof -
  assume "log_ok l"
  then obtain gs q accepted sent where l: "l = (q, accepted, sent)" "explains gs (q, accepted, sent)"
    by (cases l) (auto simp: log_ok_def)
  then have ok: "transport_ok q" by (simp add: explains_def)
  have settle: "settles q q' \<Longrightarrow> log_ok (q', accepted, sent)" for q'
    using explains_settles [OF l(2)] by (auto simp: log_ok_def)
  show ?thesis
  proof (cases op)
    case (T_enqueue au now)
    from ok show ?thesis
    proof (cases rule: enqueue_cases [of q au now])
      case rejected
      with settle show ?thesis by (simp add: l(1) T_enqueue)
    next
      case (accepted q1)
      from explains_took [OF explains_settles [OF l(2) accepted(1)] accepted(2)] accepted(3)
      show ?thesis by (simp add: l(1) T_enqueue)
    qed
  next
    case (T_dequeue now)
    from ok show ?thesis
    proof (cases rule: dequeue_cases [of q now])
      case none
      with settle show ?thesis by (simp add: l(1) T_dequeue)
    next
      case (front e rest)
      from explains_front [OF l(2) front(1,2,4-7)] front(3) show ?thesis by (simp add: l(1) T_dequeue)
    qed
  qed (use settle ok require_recovery_settles stop_settles in \<open>simp_all add: l(1)\<close>)
qed

interpretation transport_log: safe_machine transport_step log_ok
  by unfold_locales (rule transport_step_ok)

lemma make_transport_queue_ok:
  assumes "make_transport_queue config = Inr q"
  shows "transport_ok q" "log_ok (q, [], [])"
proof -
  show "transport_ok q"
    using assms by (auto simp: make_transport_queue_def new_transport_diagnostics_def transport_ok_def frame_ok_def
        contents_ok_def active_epoch_def split: if_splits)
  moreover have "awaiting q"
    using assms by (auto simp: make_transport_queue_def new_transport_diagnostics_def split: if_splits)
  ultimately have "explains [] (q, [], [])" by (simp add: explains_def)
  then show "log_ok (q, [], [])" by (auto simp: log_ok_def)
qed

text \<open>Neither the floor nor a closed queue ever goes back.\<close>

lemma transport_step_floor:
  assumes "log_ok l"
  shows "epoch_floor (fst l) \<le> epoch_floor (fst (transport_step l op))"
    and "admitting (fst (transport_step l op)) \<Longrightarrow> admitting (fst l)"
proof -
  obtain q accepted sent where l: "l = (q, accepted, sent)" by (cases l) auto
  with assms have ok: "transport_ok q" by (auto simp: log_ok_def explains_def)
  have "epoch_floor q \<le> epoch_floor (fst (transport_step l op)) \<and>
        (admitting (fst (transport_step l op)) \<longrightarrow> admitting q)"
  proof (cases op)
    case (T_enqueue au now)
    from ok show ?thesis
    proof (cases rule: enqueue_cases [of q au now])
      case (accepted q1)
      then have "epoch_floor q \<le> au_epoch au" by (auto simp: settles_def took_def intro: order_trans)
      with accepted show ?thesis by (auto simp: l T_enqueue settles_def took_def)
    qed (simp add: l T_enqueue settles_def)
  next
    case (T_dequeue now)
    from ok show ?thesis
      by (cases rule: dequeue_cases [of q now]) (simp_all add: l T_dequeue settles_def)
  next
    case T_require_recovery
    then show ?thesis using require_recovery_settles [OF ok] by (simp add: l settles_def)
  next
    case T_stop
    then show ?thesis using stop_settles [OF ok] by (simp add: l settles_def)
  qed
  then show "epoch_floor (fst l) \<le> epoch_floor (fst (transport_step l op))"
    "admitting (fst (transport_step l op)) \<Longrightarrow> admitting (fst l)" by (simp_all add: l)
qed

interpretation transport_floor: ranked_machine transport_step log_ok "\<lambda>l. epoch_floor (fst l)"
  by unfold_locales (rule transport_step_floor(1))

interpretation transport_latch: latched_machine transport_step log_ok "\<lambda>l. \<not> admitting (fst l)"
  by unfold_locales (use transport_step_floor(2) in blast)

section \<open>When an access unit is accepted\<close>

lemma size_positive: "validate_access_unit au \<Longrightarrow> 0 < au_size au"
  by (auto simp: validate_access_unit_def au_size_def split: option.splits)

lemma epoch_positive: "validate_access_unit au \<Longrightarrow> (0, 0) < au_epoch au"
  by (simp add: validate_access_unit_def au_epoch_def word_greater_zero_iff)

text \<open>The contents of the queue are lost before the access unit is considered: they are too old,
  or the access unit opens a new epoch.\<close>

definition contents_lost :: "encoded_transport_queue \<Rightarrow> recorded_access_unit \<Rightarrow> u64 \<Rightarrow> bool" where
  "contents_lost q au now =
     (epoch_floor q < au_epoch au \<or>
      (\<exists>e rest. tq_queue q = e # rest \<and>
         unat now - unat (te_enqueued_ns e) \<ge> unat (tc_maximum_age_ns (tq_config q))))"

definition acceptable :: "encoded_transport_queue \<Rightarrow> recorded_access_unit \<Rightarrow> u64 \<Rightarrow> bool" where
  "acceptable q au now =
     (admitting q \<and> \<not> time_regressed (tq_last_now_ns q) now \<and> validate_access_unit au \<and>
      epoch_floor q \<le> au_epoch au \<and>
      (if contents_lost q au now \<or> awaiting q
       then is_recovery au \<and> au_size au \<le> tc_maximum_bytes (tq_config q)
       else fits q au))"

lemma expired_exact:
  assumes "transport_ok q" "\<not> time_regressed (tq_last_now_ns q) now"
  shows "fst (transport_expire_if_needed q now) \<longleftrightarrow>
    (\<exists>e rest. tq_queue q = e # rest \<and>
       unat now - unat (te_enqueued_ns e) \<ge> unat (tc_maximum_age_ns (tq_config q)))"
proof (cases "tq_queue q")
  case (Cons e rest)
  then have "te_enqueued_ns e \<le> now"
    using assms by (auto simp: transport_ok_def contents_ok_def held_ok_def time_regressed_def split: option.splits)
  from elapsed_unat [OF this] Cons show ?thesis by (simp add: expire_fst(1) word_less_nat_alt not_less)
qed (simp add: expire_fst(1))

lemma fits_empty:
  assumes "transport_ok q" "tq_queue q = []"
  shows "fits q au \<longleftrightarrow> au_size au \<le> tc_maximum_bytes (tq_config q)"
  using assms by (simp add: fits_def transport_ok_def contents_ok_def frame_ok_def)

lemma expire_diagnostics:
  "fst (transport_expire_if_needed q now) \<Longrightarrow>
   awaiting (snd (transport_expire_if_needed q now)) \<and> tq_queue (snd (transport_expire_if_needed q now)) = []"
  by (auto simp: transport_expire_if_needed_def split: list.splits if_splits)

lemma entered_epoch:
  assumes ok: "transport_ok q" and valid: "validate_access_unit au" and fresh: "\<not> stale_epoch q au"
  defines "q1 \<equiv> enter_epoch q au" and "lost \<equiv> epoch_floor q < au_epoch au \<or> awaiting q"
  shows "awaiting q1 \<longleftrightarrow> lost" "fits q1 au \<longleftrightarrow> (if lost then au_size au \<le> tc_maximum_bytes (tq_config q) else fits q au)"
proof -
  have frame: "frame_ok q" using ok by (simp add: transport_ok_def)
  have none: "tq_epoch_floor_media q = None \<Longrightarrow> awaiting q"
    using ok by (auto simp: transport_ok_def contents_ok_def split: if_splits)
  have ok1: "transport_ok q1" using enter_epoch_facts(1) [OF ok fresh] by (simp add: q1_def settles_def)
  show aw: "awaiting q1 \<longleftrightarrow> lost"
    using none epoch_order(2) [OF frame, of au] by (auto simp: q1_def enter_epoch_def lost_def)
  have empty: "awaiting q1 \<Longrightarrow> tq_queue q1 = []" using ok1 by (auto simp: transport_ok_def contents_ok_def)
  have cfg: "tq_config q1 = tq_config q" by (simp add: q1_def enter_epoch_def)
  have "\<not> lost \<Longrightarrow> q1 = q"
    using none epoch_order(2) [OF frame, of au] by (auto simp: q1_def enter_epoch_def lost_def)
  then show "fits q1 au \<longleftrightarrow> (if lost then au_size au \<le> tc_maximum_bytes (tq_config q) else fits q au)"
    using fits_empty [OF ok1, of au] empty aw cfg by auto
qed

lemma enqueue_validated_exact:
  assumes ok: "transport_ok q" "admitting q" "tq_last_now_ns q = Some now" and valid: "validate_access_unit au"
    and fresh: "\<not> stale_epoch q au"
  defines "q1 \<equiv> enter_epoch q au"
  assumes "\<not> (awaiting q1 \<and> \<not> is_recovery au)"
  shows "ta_accepted (fst (enqueue_sized q1 au now)) \<longleftrightarrow> fits q1 au"
proof -
  have ok1: "transport_ok q1" using enter_epoch_facts(1) [OF ok(1) fresh] by (simp add: q1_def settles_def)
  show ?thesis
    using enqueue_sized_cases(1,3) [OF ok1, of au now]
    by (cases "fits q1 au") (simp_all add: accept_access_unit_def Let_def)
qed

lemma enqueue_fresh_exact:
  assumes ok: "transport_ok q" "admitting q" "tq_last_now_ns q = Some now"
    and valid: "validate_access_unit au" and fresh: "\<not> stale_epoch q au"
  shows "ta_accepted (fst
     (if awaiting (enter_epoch q au) \<and> \<not> is_recovery au then transport_reject r True False (enter_epoch q au)
      else enqueue_sized (enter_epoch q au) au now)) \<longleftrightarrow>
    (if epoch_floor q < au_epoch au \<or> awaiting q
     then is_recovery au \<and> au_size au \<le> tc_maximum_bytes (tq_config q) else fits q au)"
  using entered_epoch [OF ok(1) valid fresh] enqueue_validated_exact [OF ok valid fresh]
  by (auto simp: transport_reject_def)

text \<open>The queue after the clock and the age of its front have been looked at.\<close>

lemma expired_queue:
  assumes ok: "transport_ok q" and clock: "\<not> time_regressed (tq_last_now_ns q) now"
    and run: "transport_expire_if_needed (q\<lparr>tq_last_now_ns := Some now\<rparr>) now = (expired, q2)"
  shows "transport_ok q2" "admitting q2 = admitting q" "tq_last_now_ns q2 = Some now" "epoch_floor q2 = epoch_floor q"
    "tq_config q2 = tq_config q" "tq_epoch_floor_media q2 = tq_epoch_floor_media q"
    "expired \<longleftrightarrow> (\<exists>e rest. tq_queue q = e # rest \<and>
       unat now - unat (te_enqueued_ns e) \<ge> unat (tc_maximum_age_ns (tq_config q)))"
    "awaiting q2 \<longleftrightarrow> expired \<or> awaiting q" "\<not> expired \<Longrightarrow> fits q2 au = fits q au"
proof -
  define q0 where "q0 = q\<lparr>tq_last_now_ns := Some now\<rparr>"
  have ex: "transport_expire_if_needed q0 now = (expired, q2)" using run by (simp add: q0_def)
  have "unmoved q q0" using clock by (simp add: q0_def unmoved_def active_epoch_def)
  then have ok0: "transport_ok q0" using ok by (rule unmoved_ok)
  show "transport_ok q2" using expire_settles [OF ok0, of now] by (simp add: ex settles_def)
  show "admitting q2 = admitting q" "tq_last_now_ns q2 = Some now" "epoch_floor q2 = epoch_floor q"
    "tq_config q2 = tq_config q" "tq_epoch_floor_media q2 = tq_epoch_floor_media q"
    using expire_facts [of q0 now, unfolded ex snd_conv] by (simp_all add: epoch_floor_def q0_def)
  show "expired \<longleftrightarrow> (\<exists>e rest. tq_queue q = e # rest \<and>
      unat now - unat (te_enqueued_ns e) \<ge> unat (tc_maximum_age_ns (tq_config q)))"
    using expired_exact [OF ok0, of now, unfolded ex fst_conv] by (simp add: q0_def)
  show "awaiting q2 \<longleftrightarrow> expired \<or> awaiting q"
    using expire_diagnostics [of q0 now, unfolded ex fst_conv snd_conv]
      expire_fst(2) [of q0 now, unfolded ex fst_conv snd_conv] by (cases expired) (auto simp: q0_def)
  show "\<not> expired \<Longrightarrow> fits q2 au = fits q au"
    using expire_fst(2) [of q0 now, unfolded ex fst_conv snd_conv] by (simp add: fits_def q0_def)
qed

text \<open>The call enqueue accepts an access unit exactly when the queue is open, the clock
  has not gone back, the access unit is well formed and not of an earlier epoch, and, if the
  contents were lost or the queue was waiting, it is a recovery IDR that fits into an empty
  queue, and otherwise fits beside what is queued.\<close>

lemma transport_enqueue_accepts_iff:
  assumes ok: "transport_ok q"
  shows "ta_accepted (fst (transport_enqueue q au now)) \<longleftrightarrow> acceptable q au now"
proof (cases "admitting q \<and> \<not> time_regressed (tq_last_now_ns q) now")
  case False
  then show ?thesis
    by (auto simp: acceptable_def transport_enqueue_def transport_reject_def transport_validate_time_def)
next
  case True
  define q0 where "q0 = q\<lparr>tq_last_now_ns := Some now\<rparr>"
  obtain expired q2 where ex: "transport_expire_if_needed q0 now = (expired, q2)" by fastforce
  note after = expired_queue [OF ok _ ex [unfolded q0_def]]
  have ok2: "transport_ok q2" "admitting q2" "tq_last_now_ns q2 = Some now" using True after by blast+
  have lost: "epoch_floor q2 < au_epoch au \<or> awaiting q2 \<longleftrightarrow> contents_lost q au now \<or> awaiting q"
    using after(4,7,8) True by (auto simp: contents_lost_def)
  have stale: "stale_epoch q2 au \<longleftrightarrow> \<not> epoch_floor q \<le> au_epoch au"
    using epoch_order(1) [of q2 au] ok2(1) after(4,6) True floor_none [of q2] zero_epoch_le [of "au_epoch au"]
    by (auto simp: transport_ok_def)
  have "transport_validate_time q now = (True, q0)" using True by (simp add: transport_validate_time_def q0_def)
  note eq = transport_enqueue_def [of q au now, unfolded this]
  show ?thesis
  proof (cases "validate_access_unit au \<and> \<not> stale_epoch q2 au")
    case False
    with stale True ex show ?thesis by (auto simp: eq acceptable_def transport_reject_def)
  next
    case good: True
    have "ta_accepted (fst (transport_enqueue q au now)) \<longleftrightarrow>
      (if epoch_floor q2 < au_epoch au \<or> awaiting q2
       then is_recovery au \<and> au_size au \<le> tc_maximum_bytes (tq_config q2) else fits q2 au)"
      using good True ex enqueue_fresh_exact [OF ok2, of au] by (simp add: eq Let_def)
    then show ?thesis
      using good stale True lost after(5,7,9) by (auto simp: acceptable_def contents_lost_def)
  qed
qed

section \<open>Witnesses and properties of the queue\<close>

definition sample_unit :: "u64 \<Rightarrow> bool \<Rightarrow> recorded_access_unit" where
  "sample_unit dependency idr =
     \<lparr>au_bytes = Some [0, 0, 1], au_media_epoch = 1, au_dependency_epoch = dependency, au_geometry_epoch = 1,
      au_encoder_configuration_epoch = 1, au_configuration_sha256 = replicate 64 (CHR ''a''),
      au_source_frame_id = 1, au_extended_rtp_timestamp = 1,
      au_picture_type = (if idr then Idr else Predicted), au_keyframe = idr,
      au_parameter_sets_present = idr, au_presentation_timestamp_ns = 1\<rparr>"

definition sample_config :: encoded_transport_queue_config where
  "sample_config =
     \<lparr>tc_maximum_access_units = 3, tc_maximum_bytes = 8 * 1024 * 1024, tc_maximum_age_ns = 100000000\<rparr>"

definition sample_queue :: encoded_transport_queue where
  "sample_queue =
     \<lparr>tq_config = sample_config, tq_queue = [],
      tq_diagnostics = new_transport_diagnostics
        \<lparr>td_maximum_access_units := 3, td_maximum_bytes := 8 * 1024 * 1024, td_maximum_age_ns := 100000000\<rparr>,
      tq_last_now_ns = None, tq_epoch_floor_media = None, tq_epoch_floor_dependency = None\<rparr>"

lemma make_sample_queue: "make_transport_queue sample_config = Inr sample_queue"
  by (simp add: make_transport_queue_def sample_config_def sample_queue_def)

lemma sample_unit_valid: "d \<noteq> 0 \<Longrightarrow> validate_access_unit (sample_unit d idr)"
  by (simp add: validate_access_unit_def sample_unit_def valid_hex64_def list_all_iff)

lemma sample_idr_acceptable: "acceptable sample_queue (sample_unit 1 True) 5"
  using sample_unit_valid [of 1 True]
  by (auto simp: acceptable_def sample_queue_def sample_config_def new_transport_diagnostics_def
      epoch_floor_def au_epoch_def sample_unit_def is_recovery_def au_size_def)

lemma transport_enqueue_accepts_iff_witness:
  "transport_ok sample_queue \<and> ta_accepted (fst (transport_enqueue sample_queue (sample_unit 1 True) 5))"
  using transport_enqueue_accepts_iff [OF make_transport_queue_ok(1) [OF make_sample_queue], of "sample_unit 1 True" 5]
    make_transport_queue_ok(1) [OF make_sample_queue] sample_idr_acceptable by blast

text \<open>C6 (safety). Whatever is called in whatever order, what the transport is given can be
  decoded: the accepted access units fall into groups of one epoch that start with a recovery
  IDR, in nondecreasing order of epochs, and what is handed out is a prefix of each group. No
  access unit is handed out after a loss before the next IDR.\<close>

theorem transport_stream_decodable:
  assumes "make_transport_queue config = Inr q"
    and "foldl transport_step (q, [], []) ops = (q', accepted, sent)"
  shows "\<exists>groups. accepted = concat (map fst groups) \<and>
           sent = concat (map (\<lambda>(units, n). take n units) groups) \<and>
           list_all group_ok groups \<and> sorted (map group_epoch groups)"
proof -
  have "log_ok (q', accepted, sent)"
    using transport_log.run_inv [OF make_transport_queue_ok(2) [OF assms(1)], of ops] assms(2) by simp
  then show ?thesis by (auto simp: log_ok_def explains_def groups_accepted_def groups_sent_def)
qed

theorem transport_stream_decodable_witness:
  "\<exists>q' accepted sent. foldl transport_step (sample_queue, [], [])
       [T_enqueue (sample_unit 1 True) 5, T_dequeue 6, T_require_recovery] = (q', accepted, sent) \<and>
     (\<exists>groups. accepted = concat (map fst groups) \<and>
        sent = concat (map (\<lambda>(units, n). take n units) groups) \<and>
        list_all group_ok groups \<and> sorted (map group_epoch groups))"
proof -
  obtain q' accepted sent where run: "foldl transport_step (sample_queue, [], [])
       [T_enqueue (sample_unit 1 True) 5, T_dequeue 6, T_require_recovery] = (q', accepted, sent)"
    by (metis prod.collapse)
  from transport_stream_decodable [OF make_sample_queue run] run show ?thesis by blast
qed

text \<open>Over any sequence of calls the queue stays within its configured count,
  bytes and (at the moment of handing out) age, its diagnostics count exactly what it holds,
  everything held is valid and of the active epochs, a queue that waits for recovery is empty,
  and a queue once closed stays closed and empty.\<close>

lemma transport_queue_invariant:
  assumes "make_transport_queue config = Inr q"
  shows "transport_ok (fst (foldl transport_step (q, [], []) ops)) \<and>
     (\<not> admitting (fst (foldl transport_step (q, [], []) ops)) \<longrightarrow>
        \<not> admitting (fst (foldl transport_step (q, [], []) (ops @ later))) \<and>
        tq_queue (fst (foldl transport_step (q, [], []) (ops @ later))) = [])"
proof -
  let ?l = "foldl transport_step (q, [], []) ops" and ?m = "foldl transport_step (q, [], []) (ops @ later)"
  have ok: "log_ok ?l" "log_ok ?m"
    using transport_log.run_inv [OF make_transport_queue_ok(2) [OF assms]] by blast+
  then have "transport_ok (fst ?l)" "transport_ok (fst ?m)" by (auto simp: log_ok_def explains_def)
  moreover have "\<not> admitting (fst ?m)" if "\<not> admitting (fst ?l)"
    using transport_latch.run_latched [OF ok(1) that, of later] by simp
  ultimately show ?thesis by (auto simp: transport_ok_def contents_ok_def split: if_splits)
qed

lemma transport_queue_invariant_witness:
  "transport_ok (fst (foldl transport_step (sample_queue, [], [])
     [T_enqueue (sample_unit 1 True) 5, T_enqueue (sample_unit 1 False) 6, T_dequeue 7]))"
  using transport_queue_invariant [OF make_sample_queue] by blast

section \<open>The fanout keeps its branches apart\<close>

text \<open>The operations of the fanout and of the owner of its queue. What the recorder answers is part
  of the operation.\<close>

datatype fanout_op =
    F_publish "recorded_access_unit \<Rightarrow> exn + recorder_enqueue_result" recorded_access_unit u64
  | F_disable_transport
  | F_disable_recorder
  | F_dequeue u64
  | F_require_recovery
  | F_stop_queue

fun fanout_step :: "encoded_access_unit_fanout \<Rightarrow> fanout_op \<Rightarrow> encoded_access_unit_fanout" where
  "fanout_step f (F_publish recorder au now) = snd (publish f recorder au now)"
| "fanout_step f F_disable_transport = disable_transport f"
| "fanout_step f F_disable_recorder = disable_recorder f"
| "fanout_step f (F_dequeue now) = f\<lparr>fo_transport := map_option (\<lambda>q. snd (transport_dequeue q now)) (fo_transport f)\<rparr>"
| "fanout_step f F_require_recovery = f\<lparr>fo_transport := map_option (snd \<circ> transport_require_recovery) (fo_transport f)\<rparr>"
| "fanout_step f F_stop_queue = f\<lparr>fo_transport := map_option transport_stop (fo_transport f)\<rparr>"

text \<open>Each branch alone: the transport branch never sees what the recorder answered, the recorder
  branch never sees the queue.\<close>

record transport_branch =
  tb_queue :: "encoded_transport_queue option"
  tb_active :: bool
  tb_accepted :: u64
  tb_rejected :: u64

record recorder_branch =
  rb_present :: bool
  rb_active :: bool
  rb_accepted :: u64
  rb_rejected :: u64
  rb_failures :: u64

definition transport_branch_of :: "encoded_access_unit_fanout \<Rightarrow> transport_branch" where
  "transport_branch_of f =
     \<lparr>tb_queue = fo_transport f, tb_active = fd_transport_active (fo_diagnostics f),
      tb_accepted = fd_transport_accepted_access_units (fo_diagnostics f),
      tb_rejected = fd_transport_rejected_access_units (fo_diagnostics f)\<rparr>"

definition recorder_branch_of :: "encoded_access_unit_fanout \<Rightarrow> recorder_branch" where
  "recorder_branch_of f =
     \<lparr>rb_present = fo_recorder f, rb_active = fd_recorder_active (fo_diagnostics f),
      rb_accepted = fd_recorder_accepted_access_units (fo_diagnostics f),
      rb_rejected = fd_recorder_rejected_access_units (fo_diagnostics f),
      rb_failures = fd_recorder_failures (fo_diagnostics f)\<rparr>"

definition transport_alone :: "transport_branch \<Rightarrow> recorded_access_unit \<Rightarrow> u64 \<Rightarrow> transport_branch" where
  "transport_alone b au now =
     (case tb_queue b of
        Some q \<Rightarrow>
          if tb_active b then
            let admission = fst (transport_enqueue q au now) in
            b\<lparr>tb_queue := Some (snd (transport_enqueue q au now)),
              tb_active := \<not> ta_unusable admission,
              tb_accepted := (if ta_accepted admission then saturating_increment (tb_accepted b) else tb_accepted b),
              tb_rejected := (if ta_accepted admission then tb_rejected b else saturating_increment (tb_rejected b))\<rparr>
          else b
      | None \<Rightarrow> b)"

definition recorder_alone :: "recorder_branch \<Rightarrow> exn + recorder_enqueue_result \<Rightarrow> recorder_branch" where
  "recorder_alone b answer =
     (if rb_active b \<and> rb_present b then
        let accepted = (case answer of Inl _ \<Rightarrow> False | Inr r \<Rightarrow> re_accepted r);
            failed = (case answer of Inl _ \<Rightarrow> True | Inr r \<Rightarrow> re_failed r)
        in b\<lparr>rb_active := \<not> failed,
             rb_accepted := (if accepted then saturating_increment (rb_accepted b) else rb_accepted b),
             rb_rejected := (if accepted then rb_rejected b else saturating_increment (rb_rejected b)),
             rb_failures := (if failed then saturating_increment (rb_failures b) else rb_failures b)\<rparr>
      else b)"

fun transport_branch_step :: "transport_branch \<Rightarrow> fanout_op \<Rightarrow> transport_branch" where
  "transport_branch_step b (F_publish _ au now) = transport_alone b au now"
| "transport_branch_step b F_disable_transport =
     b\<lparr>tb_queue := (if tb_active b then map_option transport_stop (tb_queue b) else tb_queue b), tb_active := False\<rparr>"
| "transport_branch_step b F_disable_recorder = b"
| "transport_branch_step b (F_dequeue now) = b\<lparr>tb_queue := map_option (\<lambda>q. snd (transport_dequeue q now)) (tb_queue b)\<rparr>"
| "transport_branch_step b F_require_recovery = b\<lparr>tb_queue := map_option (snd \<circ> transport_require_recovery) (tb_queue b)\<rparr>"
| "transport_branch_step b F_stop_queue = b\<lparr>tb_queue := map_option transport_stop (tb_queue b)\<rparr>"

fun recorder_branch_step :: "recorder_branch \<Rightarrow> fanout_op \<Rightarrow> recorder_branch" where
  "recorder_branch_step b (F_publish recorder au _) = recorder_alone b (recorder au)"
| "recorder_branch_step b F_disable_recorder = b\<lparr>rb_present := False, rb_active := False\<rparr>"
| "recorder_branch_step b _ = b"

lemma publish_transport_branches:
  "transport_branch_of (snd (publish_transport au now (r, f))) = transport_alone (transport_branch_of f) au now"
  "recorder_branch_of (snd (publish_transport au now (r, f))) = recorder_branch_of f"
proof -
  show "transport_branch_of (snd (publish_transport au now (r, f))) = transport_alone (transport_branch_of f) au now"
    by (cases "fo_transport f"; cases "fd_transport_active (fo_diagnostics f)")
      (simp_all add: publish_transport_def transport_alone_def transport_branch_of_def Let_def case_prod_beta)
  show "recorder_branch_of (snd (publish_transport au now (r, f))) = recorder_branch_of f"
    by (cases "fo_transport f"; cases "fd_transport_active (fo_diagnostics f)")
      (simp_all add: publish_transport_def recorder_branch_of_def Let_def case_prod_beta)
qed

lemma publish_recorder_branches:
  "transport_branch_of (snd (publish_recorder recorder au (r, f))) = transport_branch_of f"
  "recorder_branch_of (snd (publish_recorder recorder au (r, f))) = recorder_alone (recorder_branch_of f) (recorder au)"
  by (cases "recorder au"; simp add: publish_recorder_def transport_branch_of_def recorder_branch_of_def
      recorder_alone_def Let_def)+

lemma publish_branches:
  "transport_branch_of (snd (publish f recorder au now)) = transport_alone (transport_branch_of f) au now"
  "recorder_branch_of (snd (publish f recorder au now)) = recorder_alone (recorder_branch_of f) (recorder au)"
proof -
  define g where "g = f\<lparr>fo_diagnostics := (fo_diagnostics f)\<lparr>fd_published_access_units :=
     saturating_increment (fd_published_access_units (fo_diagnostics f))\<rparr>\<rparr>"
  have g: "transport_branch_of g = transport_branch_of f" "recorder_branch_of g = recorder_branch_of f"
    by (simp_all add: g_def transport_branch_of_def recorder_branch_of_def)
  obtain r1 f1 where t: "publish_transport au now (new_fanout_result, g) = (r1, f1)" by fastforce
  have "snd (publish f recorder au now) = snd (publish_recorder recorder au (r1, f1))"
    by (simp add: publish_def Let_def g_def [symmetric] t case_prod_beta)
  then show "transport_branch_of (snd (publish f recorder au now)) = transport_alone (transport_branch_of f) au now"
    "recorder_branch_of (snd (publish f recorder au now)) = recorder_alone (recorder_branch_of f) (recorder au)"
    using publish_recorder_branches [of recorder au r1 f1] publish_transport_branches [of au now new_fanout_result g] t g
    by simp_all
qed

lemma fanout_step_branches:
  "transport_branch_of (fanout_step f op) = transport_branch_step (transport_branch_of f) op"
  "recorder_branch_of (fanout_step f op) = recorder_branch_step (recorder_branch_of f) op"
  by (cases op; simp add: publish_branches; simp add: transport_branch_of_def recorder_branch_of_def
      disable_transport_def disable_recorder_def)+

text \<open>A recorder branch that is off (failed or disabled) stays off.\<close>

interpretation recorder_latch: latched_machine recorder_branch_step "\<lambda>_. True" "\<lambda>b. \<not> rb_active b"
proof unfold_locales
  fix b :: recorder_branch and op :: fanout_op
  assume "\<not> rb_active b"
  then show "\<not> rb_active (recorder_branch_step b op)" by (cases op) (simp_all add: recorder_alone_def)
qed simp

interpretation transport_branch_latch: latched_machine transport_branch_step "\<lambda>_. True" "\<lambda>b. \<not> tb_active b"
proof unfold_locales
  fix b :: transport_branch and op :: fanout_op
  assume "\<not> tb_active b"
  then show "\<not> tb_active (transport_branch_step b op)"
    by (cases op) (simp_all add: transport_alone_def split: option.splits)
qed simp

text \<open>C29 (refinement). The branches of the fanout never interfere: over any sequence of calls
  the transport branch runs as if there were no recorder (whatever the recorder answers or
  throws), the recorder branch as if there were no queue, and a branch that has failed or was
  disabled stays off.\<close>

theorem fanout_branches_isolated:
  "transport_branch_of (foldl fanout_step f ops) = foldl transport_branch_step (transport_branch_of f) ops \<and>
   recorder_branch_of (foldl fanout_step f ops) = foldl recorder_branch_step (recorder_branch_of f) ops \<and>
   (fd_recorder_active (fo_diagnostics (foldl fanout_step f ops)) \<le> fd_recorder_active (fo_diagnostics f)) \<and>
   (fd_transport_active (fo_diagnostics (foldl fanout_step f ops)) \<le> fd_transport_active (fo_diagnostics f))"
proof -
  have branches: "transport_branch_of (foldl fanout_step f ops) = foldl transport_branch_step (transport_branch_of f) ops"
    "recorder_branch_of (foldl fanout_step f ops) = foldl recorder_branch_step (recorder_branch_of f) ops"
    by (induction ops arbitrary: f) (simp_all add: fanout_step_branches)
  have active: "fd_recorder_active (fo_diagnostics g) = rb_active (recorder_branch_of g)"
    "fd_transport_active (fo_diagnostics g) = tb_active (transport_branch_of g)" for g
    by (simp_all add: recorder_branch_of_def transport_branch_of_def)
  show ?thesis
    using branches recorder_latch.run_latched [of "recorder_branch_of f" ops]
      transport_branch_latch.run_latched [of "transport_branch_of f" ops]
    by (auto simp: active)
qed

end
