(* ===== verification/Gpu_Contracts.thy ===== *)
theory Gpu_Contracts
  imports Prelude "HOL-Library.Sublist"
begin

text \<open>
  \<^verbatim>\<open>src/gpu/gpu_contracts.cpp\<close>: the contract a submission to the hardware encoder has to meet,
  the life cycles of device sources and encoder surfaces, \<open>NvencSubmissionCoordinator\<close> (which
  submission slots are in flight, in which order their bitstreams may be locked, and how a fatal
  error is unwound) and the order of the shutdown phases.

  The driver call handed to \<open>submit\<close> is code of the caller: the model takes its answer, which
  may be a status, an exception, or the absence of a callback. Pointers are 64-bit words.
\<close>

section \<open>Descriptors and their validation\<close>

record cuda_context_identity =
  ctx_device_ordinal :: int
  ctx_context_handle :: u64
  ctx_generation :: u64

datatype memory_space =
    Memory_unknown | Host_pageable | Host_pinned | Cuda_device | Imported_dmabuf

record nv12_surface_descriptor =
  sf_frame_id :: u64
  sf_geometry_epoch :: u64
  sf_context :: cuda_context_identity
  sf_memory_space :: memory_space
  sf_device_pointer :: u64
  sf_coded_width :: nat
  sf_coded_height :: nat
  sf_pitch :: nat
  sf_allocation_bytes :: nat
  sf_contiguous :: bool
  sf_cuda_ready :: bool

text \<open>The span of emphasis levels is its address and its elements.\<close>

record emphasis_map_descriptor =
  em_frame_id :: u64
  em_geometry_epoch :: u64
  em_context :: cuda_context_identity
  em_memory_space :: memory_space
  em_host_pointer :: u64
  em_macroblock_width :: nat
  em_macroblock_height :: nat
  em_byte_size :: nat
  em_values_data :: u64
  em_values :: "8 word list"
  em_device_to_host_ready :: bool

datatype nvenc_frame_mode = Uniform | Fixed_emphasis | Automatic_emphasis

record nvenc_submission_request =
  rq_submission_slot_id :: nat
  rq_submission_sequence :: u64
  rq_output_bitstream :: u64
  rq_mode :: nvenc_frame_mode
  rq_force_idr :: bool
  rq_surface :: nv12_surface_descriptor
  rq_emphasis_map :: emphasis_map_descriptor

record contract_validation =
  cv_passed :: bool
  cv_reason :: string

definition contract :: "bool \<Rightarrow> string \<Rightarrow> contract_validation" where
  "contract passed reason = \<lparr>cv_passed = passed, cv_reason = reason\<rparr>"

lemma contract_simps [simp]:
  "cv_passed (contract b r) = b" "cv_reason (contract b r) = r"
  by (simp_all add: contract_def)

definition context_valid :: "cuda_context_identity \<Rightarrow> bool" where
  "context_valid c = (ctx_device_ordinal c \<ge> 0 \<and> ctx_context_handle c \<noteq> 0 \<and> ctx_generation c \<noteq> 0)"

definition checked_product :: "nat \<Rightarrow> nat \<Rightarrow> nat option" where
  "checked_product left right =
     (if left \<noteq> 0 \<and> right > (2 ^ 64 - 1) div left then None else Some (left * right mod 2 ^ 64))"

definition absent_emphasis_map :: "emphasis_map_descriptor \<Rightarrow> bool" where
  "absent_emphasis_map emphasis =
     (em_frame_id emphasis = 0 \<and> em_geometry_epoch emphasis = 0 \<and> \<not> context_valid (em_context emphasis) \<and>
      em_memory_space emphasis = Memory_unknown \<and> em_host_pointer emphasis = 0 \<and>
      em_macroblock_width emphasis = 0 \<and> em_macroblock_height emphasis = 0 \<and> em_byte_size emphasis = 0 \<and>
      em_values emphasis = [] \<and> \<not> em_device_to_host_ready emphasis)"

definition surface_fits :: "nv12_surface_descriptor \<Rightarrow> bool" where
  "surface_fits surface =
     (case checked_product (sf_pitch surface) (sf_coded_height surface) of
        None \<Rightarrow> False
      | Some luma_bytes \<Rightarrow>
          \<not> (luma_bytes > (2 ^ 64 - 1) - luma_bytes div 2 \<or>
             sf_allocation_bytes surface < size_add luma_bytes (luma_bytes div 2)))"

text \<open>The part of \<open>validate_nvenc_submission\<close> for a submission with an emphasis map.\<close>

definition validate_emphasis ::
  "nv12_surface_descriptor \<Rightarrow> emphasis_map_descriptor \<Rightarrow> contract_validation" where
  "validate_emphasis surface emphasis =
     (if \<not> context_valid (em_context emphasis) \<or> sf_context surface \<noteq> em_context emphasis
        then contract False ''nvenc_foreign_cuda_context''
      else if sf_frame_id surface \<noteq> em_frame_id emphasis
        then contract False ''nvenc_stale_emphasis_map_frame''
      else if sf_geometry_epoch surface \<noteq> em_geometry_epoch emphasis
        then contract False ''nvenc_stale_emphasis_map_geometry''
      else
        let expected_mb_width = size_add (sf_coded_width surface) 15 div 16;
            expected_mb_height = size_add (sf_coded_height surface) 15 div 16
        in case checked_product expected_mb_width expected_mb_height of
          None \<Rightarrow> contract False ''nvenc_emphasis_map_geometry_overflow''
        | Some expected_map_bytes \<Rightarrow>
            if em_macroblock_width emphasis \<noteq> expected_mb_width \<or> em_macroblock_height emphasis \<noteq> expected_mb_height \<or>
               em_byte_size emphasis \<noteq> expected_map_bytes \<or> length (em_values emphasis) \<noteq> expected_map_bytes
              then contract False ''nvenc_emphasis_map_size_mismatch''
            else if em_memory_space emphasis \<noteq> Host_pinned \<or> em_host_pointer emphasis = 0
              then contract False ''nvenc_emphasis_map_not_pinned_host_memory''
            else if em_values_data emphasis \<noteq> em_host_pointer emphasis
              then contract False ''nvenc_emphasis_map_pointer_mismatch''
            else if \<not> em_device_to_host_ready emphasis
              then contract False ''nvenc_emphasis_map_event_not_ready''
            else if list_ex (\<lambda>level. sint level < 0 \<or> sint level > 5) (em_values emphasis)
              then contract False ''nvenc_emphasis_level_out_of_range''
            else contract True ''nvenc_emphasis_submission_contract_valid'')"

definition validate_nvenc_submission :: "nvenc_submission_request \<Rightarrow> contract_validation" where
  "validate_nvenc_submission request =
     (let surface = rq_surface request; emphasis = rq_emphasis_map request in
      if rq_output_bitstream request = 0 then contract False ''nvenc_output_bitstream_missing''
      else if \<not> context_valid (sf_context surface) then contract False ''nvenc_foreign_cuda_context''
      else if sf_memory_space surface \<noteq> Cuda_device \<or> sf_device_pointer surface = 0 \<or> \<not> sf_contiguous surface
        then contract False ''nvenc_surface_not_contiguous_cuda_device_nv12''
      else if sf_coded_width surface = 0 \<or> sf_coded_height surface = 0 \<or> sf_coded_width surface > 16384 \<or>
              sf_coded_height surface > 16384 \<or> odd (sf_coded_width surface) \<or>
              odd (sf_coded_height surface) \<or> sf_pitch surface < sf_coded_width surface
        then contract False ''nvenc_surface_geometry_or_pitch_invalid''
      else if \<not> surface_fits surface then contract False ''nvenc_surface_allocation_too_small''
      else if \<not> sf_cuda_ready surface then contract False ''nvenc_surface_cuda_event_not_ready''
      else if rq_mode request = Uniform then
        (if absent_emphasis_map emphasis then contract True ''nvenc_uniform_submission_contract_valid''
         else contract False ''nvenc_uniform_submission_has_emphasis_map'')
      else validate_emphasis surface emphasis)"

section \<open>Life cycles\<close>

datatype device_source_state = Source_free | Host_to_device_pending | Cuda_source_read_pending

datatype imported_source_state =
    Pipewire_owned | Imported_read_pending | Pipewire_requeue_pending | Imported_released

datatype encoder_surface_state =
    Surface_free | Cuda_writing | Map_copy_pending | Ready_to_submit | Submitted | Encoder_input_released

fun valid_device_source_transition :: "device_source_state \<Rightarrow> device_source_state \<Rightarrow> bool" where
  "valid_device_source_transition Source_free Host_to_device_pending = True"
| "valid_device_source_transition Host_to_device_pending Cuda_source_read_pending = True"
| "valid_device_source_transition Cuda_source_read_pending Source_free = True"
| "valid_device_source_transition _ _ = False"

fun valid_imported_source_transition :: "imported_source_state \<Rightarrow> imported_source_state \<Rightarrow> bool" where
  "valid_imported_source_transition Pipewire_owned Imported_read_pending = True"
| "valid_imported_source_transition Imported_read_pending Pipewire_requeue_pending = True"
| "valid_imported_source_transition Pipewire_requeue_pending Imported_released = True"
| "valid_imported_source_transition _ _ = False"

fun valid_encoder_surface_transition :: "encoder_surface_state \<Rightarrow> encoder_surface_state \<Rightarrow> bool" where
  "valid_encoder_surface_transition Surface_free Cuda_writing = True"
| "valid_encoder_surface_transition Cuda_writing Map_copy_pending = True"
| "valid_encoder_surface_transition Map_copy_pending Ready_to_submit = True"
| "valid_encoder_surface_transition Ready_to_submit Submitted = True"
| "valid_encoder_surface_transition Submitted Encoder_input_released = True"
| "valid_encoder_surface_transition Encoder_input_released Surface_free = True"
| "valid_encoder_surface_transition _ _ = False"

section \<open>The submission coordinator\<close>

text \<open>A status outside the enumerators is possible for a scoped enumeration.\<close>

datatype nvenc_submit_status = Submit_success | Need_more_input | Encoder_busy | Submit_fatal | Submit_unknown int

datatype submission_state =
    Sub_free
  | Reserved
  | Submit_retry_pending
  | Submitted_pending_output
  | Bitstream_lockable
  | Bitstream_locked
  | Abort_pending

record submission_operation =
  so_passed :: bool
  so_driver_invoked :: bool
  so_reason :: string
  so_state :: submission_state

definition sub_op :: "bool \<Rightarrow> bool \<Rightarrow> string \<Rightarrow> submission_state \<Rightarrow> submission_operation" where
  "sub_op passed invoked reason st =
     \<lparr>so_passed = passed, so_driver_invoked = invoked, so_reason = reason, so_state = st\<rparr>"

lemma sub_op_simps [simp]:
  "so_passed (sub_op p i r st) = p" "so_driver_invoked (sub_op p i r st) = i"
  "so_reason (sub_op p i r st) = r" "so_state (sub_op p i r st) = st"
  by (simp_all add: sub_op_def)

record submission_fingerprint =
  fp_sequence :: u64
  fp_output_bitstream :: u64
  fp_mode :: nvenc_frame_mode
  fp_force_idr :: bool
  fp_frame_id :: u64
  fp_geometry_epoch :: u64
  fp_context :: cuda_context_identity
  fp_surface_pointer :: u64
  fp_surface_width :: nat
  fp_surface_height :: nat
  fp_surface_pitch :: nat
  fp_surface_allocation_bytes :: nat
  fp_map_pointer :: u64
  fp_map_values :: "8 word list"

definition fingerprint :: "nvenc_submission_request \<Rightarrow> submission_fingerprint" where
  "fingerprint request =
     \<lparr>fp_sequence = rq_submission_sequence request,
      fp_output_bitstream = rq_output_bitstream request,
      fp_mode = rq_mode request,
      fp_force_idr = rq_force_idr request,
      fp_frame_id = sf_frame_id (rq_surface request),
      fp_geometry_epoch = sf_geometry_epoch (rq_surface request),
      fp_context = sf_context (rq_surface request),
      fp_surface_pointer = sf_device_pointer (rq_surface request),
      fp_surface_width = sf_coded_width (rq_surface request),
      fp_surface_height = sf_coded_height (rq_surface request),
      fp_surface_pitch = sf_pitch (rq_surface request),
      fp_surface_allocation_bytes = sf_allocation_bytes (rq_surface request),
      fp_map_pointer = em_host_pointer (rq_emphasis_map request),
      fp_map_values = em_values (rq_emphasis_map request)\<rparr>"

record submission_slot =
  sl_state :: submission_state
  sl_fingerprint :: "submission_fingerprint option"
  sl_output_ready :: bool
  sl_busy_retries :: nat

definition new_slot :: submission_slot where
  "new_slot = \<lparr>sl_state = Sub_free, sl_fingerprint = None, sl_output_ready = False, sl_busy_retries = 0\<rparr>"

record nvenc_submission_coordinator =
  co_slots :: "submission_slot list"
  co_fifo :: "nat list"
  co_last_sequence :: "u64 option"
  co_driver_call_count :: u64
  co_maximum_busy_retries :: nat
  co_end_of_stream :: bool
  co_fatal :: bool

definition make_coordinator :: "nat \<Rightarrow> nat \<Rightarrow> exn + nvenc_submission_coordinator" where
  "make_coordinator capacity maximum_busy_retries =
     (if capacity = 0 \<or> capacity > 64 \<or> maximum_busy_retries = 0 \<or> maximum_busy_retries > 10000
        then Inl (Invalid_argument ''NVENC submission capacity or busy retry bound is invalid'')
      else Inr \<lparr>co_slots = replicate capacity new_slot, co_fifo = [], co_last_sequence = None,
                co_driver_call_count = 0, co_maximum_busy_retries = maximum_busy_retries,
                co_end_of_stream = False, co_fatal = False\<rparr>)"

definition slot_state :: "nvenc_submission_coordinator \<Rightarrow> nat \<Rightarrow> submission_state" where
  "slot_state c submission_slot_id =
     (if submission_slot_id < length (co_slots c) then sl_state (co_slots c ! submission_slot_id) else Sub_free)"

definition update_slot ::
  "nat \<Rightarrow> (submission_slot \<Rightarrow> submission_slot) \<Rightarrow> nvenc_submission_coordinator \<Rightarrow> nvenc_submission_coordinator"
where
  "update_slot i f c = c\<lparr>co_slots := (co_slots c)[i := f (co_slots c ! i)]\<rparr>"

definition make_fifo_head_lockable :: "nvenc_submission_coordinator \<Rightarrow> nvenc_submission_coordinator" where
  "make_fifo_head_lockable c =
     (case co_fifo c of
        [] \<Rightarrow> c
      | front # _ \<Rightarrow>
          let head = co_slots c ! front in
          if sl_state head = Submitted_pending_output \<and> (sl_output_ready head \<or> co_end_of_stream c)
          then update_slot front (\<lambda>s. s\<lparr>sl_state := Bitstream_lockable\<rparr>) c
          else c)"

definition locked_head :: "nvenc_submission_coordinator \<Rightarrow> nat option" where
  "locked_head c =
     (case co_fifo c of
        [] \<Rightarrow> None
      | front # _ \<Rightarrow> if sl_state (co_slots c ! front) = Bitstream_locked then Some front else None)"

definition enter_fatal_state :: "nvenc_submission_coordinator \<Rightarrow> nvenc_submission_coordinator" where
  "enter_fatal_state c =
     (let locked = locked_head c in
      c\<lparr>co_fatal := True,
        co_slots := map (\<lambda>(slot_id, slot).
            if sl_state slot \<noteq> Sub_free \<and> Some slot_id \<noteq> locked then slot\<lparr>sl_state := Abort_pending\<rparr> else slot)
          (enumerate 0 (co_slots c)),
        co_fifo := (case locked of None \<Rightarrow> [] | Some front \<Rightarrow> [front])\<rparr>)"

text \<open>The loop that marks every queued submission's output as ready.\<close>

definition mark_outputs_ready :: "nvenc_submission_coordinator \<Rightarrow> nvenc_submission_coordinator" where
  "mark_outputs_ready c = foldl (\<lambda>c slot_id. update_slot slot_id (\<lambda>s. s\<lparr>sl_output_ready := True\<rparr>) c) c (co_fifo c)"

definition output_in_use :: "nvenc_submission_coordinator \<Rightarrow> u64 \<Rightarrow> bool" where
  "output_in_use c output =
     list_ex (\<lambda>candidate. sl_state candidate \<noteq> Sub_free \<and>
        (case sl_fingerprint candidate of None \<Rightarrow> False | Some fp \<Rightarrow> fp_output_bitstream fp = output)) (co_slots c)"

text \<open>The reservation of the slot in \<open>submit\<close>, up to the driver call.\<close>

definition reserve_submission ::
  "nvenc_submission_coordinator \<Rightarrow> nvenc_submission_request \<Rightarrow>
   submission_operation + nvenc_submission_coordinator" where
  "reserve_submission c request =
     (let i = rq_submission_slot_id request; slot = co_slots c ! i in
      if sl_state slot = Sub_free then
        (if (case co_last_sequence c of None \<Rightarrow> False | Some s \<Rightarrow> rq_submission_sequence request \<le> s)
           then Inl (sub_op False False ''nvenc_submission_sequence_not_monotonic'' (sl_state slot))
         else if output_in_use c (rq_output_bitstream request)
           then Inl (sub_op False False ''nvenc_output_bitstream_already_owned'' (sl_state slot))
         else Inr ((update_slot i (\<lambda>s. s\<lparr>sl_state := Reserved, sl_fingerprint := Some (fingerprint request)\<rparr>) c)
                     \<lparr>co_last_sequence := Some (rq_submission_sequence request)\<rparr>))
      else if sl_state slot = Submit_retry_pending then
        (if sl_fingerprint slot \<noteq> Some (fingerprint request)
           then Inl (sub_op False False ''nvenc_busy_retry_mutated'' (sl_state slot))
         else Inr (update_slot i (\<lambda>s. s\<lparr>sl_state := Reserved\<rparr>) c))
      else Inl (sub_op False False ''nvenc_submission_slot_not_reservable'' (sl_state slot)))"

definition accept_submission :: "nat \<Rightarrow> bool \<Rightarrow> nvenc_submission_coordinator \<Rightarrow> nvenc_submission_coordinator" where
  "accept_submission i ready c =
     (let c = update_slot i (\<lambda>s. s\<lparr>sl_state := Submitted_pending_output, sl_output_ready := ready\<rparr>) c
      in make_fifo_head_lockable (c\<lparr>co_fifo := co_fifo c @ [i]\<rparr>))"

text \<open>The answer of the driver callback: none is set, it throws, or it returns a status.\<close>

type_synonym driver_answer = "(exn + nvenc_submit_status) option"

definition call_driver ::
  "nvenc_submission_coordinator \<Rightarrow> nat \<Rightarrow> driver_answer \<Rightarrow>
   submission_operation \<times> nvenc_submission_coordinator" where
  "call_driver c i driver_submit =
     (let fatal = (\<lambda>invoked reason c. let c = enter_fatal_state c in
                     (sub_op False invoked reason (sl_state (co_slots c ! i)), c))
      in case driver_submit of
        None \<Rightarrow> fatal False ''nvenc_driver_callback_missing'' c
      | Some answer \<Rightarrow>
          let c = c\<lparr>co_driver_call_count := co_driver_call_count c + 1\<rparr>
          in (case answer of
              Inl _ \<Rightarrow> fatal True ''nvenc_driver_callback_threw'' c
            | Inr Encoder_busy \<Rightarrow>
                let c = update_slot i (\<lambda>s. s\<lparr>sl_busy_retries := size_add (sl_busy_retries s) 1\<rparr>) c
                in if sl_busy_retries (co_slots c ! i) > co_maximum_busy_retries c
                   then fatal True ''nvenc_busy_retry_limit_exceeded'' c
                   else (sub_op True True ''nvenc_submission_retry_pending'' Submit_retry_pending,
                         update_slot i (\<lambda>s. s\<lparr>sl_state := Submit_retry_pending\<rparr>) c)
            | Inr Submit_fatal \<Rightarrow> fatal True ''nvenc_submission_fatal'' c
            | Inr Need_more_input \<Rightarrow>
                let c = accept_submission i False c
                in (sub_op True True ''nvenc_submission_needs_more_input'' (sl_state (co_slots c ! i)), c)
            | Inr Submit_success \<Rightarrow>
                let c = accept_submission i True (mark_outputs_ready c)
                in (sub_op True True ''nvenc_submission_accepted'' (sl_state (co_slots c ! i)), c)
            | Inr (Submit_unknown _) \<Rightarrow> fatal True ''nvenc_submission_status_unknown'' c))"

definition submit ::
  "nvenc_submission_coordinator \<Rightarrow> nvenc_submission_request \<Rightarrow> driver_answer \<Rightarrow>
   submission_operation \<times> nvenc_submission_coordinator" where
  "submit c request driver_submit =
     (if co_fatal c then (sub_op False False ''nvenc_coordinator_fatal'' Abort_pending, c)
      else if co_end_of_stream c then (sub_op False False ''nvenc_submission_after_eos'' Sub_free, c)
      else if rq_submission_slot_id request \<ge> length (co_slots c)
        then (sub_op False False ''nvenc_submission_slot_out_of_range'' Sub_free, c)
      else let validation = validate_nvenc_submission request in
      if \<not> cv_passed validation
        then (sub_op False False (cv_reason validation) (slot_state c (rq_submission_slot_id request)), c)
      else case reserve_submission c request of
          Inl refused \<Rightarrow> (refused, c)
        | Inr c \<Rightarrow> call_driver c (rq_submission_slot_id request) driver_submit)"

definition begin_end_of_stream ::
  "nvenc_submission_coordinator \<Rightarrow> submission_operation \<times> nvenc_submission_coordinator" where
  "begin_end_of_stream c =
     (if co_fatal c then (sub_op False False ''nvenc_eos_after_fatal'' Abort_pending, c)
      else if co_end_of_stream c then (sub_op False False ''nvenc_eos_already_started'' Sub_free, c)
      else
        let c = make_fifo_head_lockable (mark_outputs_ready (c\<lparr>co_end_of_stream := True\<rparr>))
        in (sub_op True False ''nvenc_eos_draining''
              (case co_fifo c of [] \<Rightarrow> Sub_free | front # _ \<Rightarrow> sl_state (co_slots c ! front)), c))"

definition coordinator_fail ::
  "nvenc_submission_coordinator \<Rightarrow> submission_operation \<times> nvenc_submission_coordinator" where
  "coordinator_fail c =
     (if co_fatal c then (sub_op True False ''nvenc_coordinator_already_fatal'' Abort_pending, c)
      else (sub_op True False ''nvenc_coordinator_entered_fatal'' Abort_pending, enter_fatal_state c))"

definition begin_bitstream_lock ::
  "nvenc_submission_coordinator \<Rightarrow> nat option \<times> nvenc_submission_coordinator" where
  "begin_bitstream_lock c =
     (case co_fifo c of
        [] \<Rightarrow> (None, c)
      | front # _ \<Rightarrow>
          if sl_state (co_slots c ! front) \<noteq> Bitstream_lockable then (None, c)
          else (Some front, update_slot front (\<lambda>s. s\<lparr>sl_state := Bitstream_locked\<rparr>) c))"

definition complete_bitstream ::
  "nvenc_submission_coordinator \<Rightarrow> nat \<Rightarrow> submission_operation \<times> nvenc_submission_coordinator" where
  "complete_bitstream c submission_slot_id =
     (if co_fifo c = [] \<or> hd (co_fifo c) \<noteq> submission_slot_id \<or>
         sl_state (co_slots c ! submission_slot_id) \<noteq> Bitstream_locked
        then (sub_op False False ''nvenc_bitstream_completion_not_fifo_head'' (slot_state c submission_slot_id), c)
      else
        let c = (update_slot submission_slot_id (\<lambda>_. new_slot) c)\<lparr>co_fifo := tl (co_fifo c)\<rparr>;
            c = (if \<not> co_fatal c then make_fifo_head_lockable c else c)
        in (sub_op True False ''nvenc_bitstream_slot_released'' Sub_free, c))"

definition confirm_abort ::
  "nvenc_submission_coordinator \<Rightarrow> nat \<Rightarrow> submission_operation \<times> nvenc_submission_coordinator" where
  "confirm_abort c submission_slot_id =
     (if submission_slot_id \<ge> length (co_slots c) \<or> sl_state (co_slots c ! submission_slot_id) \<noteq> Abort_pending
        then (sub_op False False ''nvenc_abort_confirmation_invalid'' (slot_state c submission_slot_id), c)
      else (sub_op True False ''nvenc_abort_slot_released'' Sub_free, update_slot submission_slot_id (\<lambda>_. new_slot) c))"

definition active_slots :: "nvenc_submission_coordinator \<Rightarrow> nat" where
  "active_slots c = length (filter (\<lambda>slot. sl_state slot \<noteq> Sub_free) (co_slots c))"

section \<open>Shutdown order and names\<close>

datatype cuda_shutdown_phase =
    Phase_active
  | Admission_closed
  | Producers_joined
  | Events_resolved
  | Nvenc_drained
  | Resources_unregistered
  | Streams_destroyed
  | Context_workers_joined
  | Primary_context_released

fun phase_number :: "cuda_shutdown_phase \<Rightarrow> nat" where
  "phase_number Phase_active = 0"
| "phase_number Admission_closed = 1"
| "phase_number Producers_joined = 2"
| "phase_number Events_resolved = 3"
| "phase_number Nvenc_drained = 4"
| "phase_number Resources_unregistered = 5"
| "phase_number Streams_destroyed = 6"
| "phase_number Context_workers_joined = 7"
| "phase_number Primary_context_released = 8"

definition shutdown_advance ::
  "cuda_shutdown_phase \<Rightarrow> cuda_shutdown_phase \<Rightarrow> contract_validation \<times> cuda_shutdown_phase" where
  "shutdown_advance phase next_phase =
     (if phase_number next_phase \<noteq> phase_number phase + 1
        then (contract False ''cuda_shutdown_phase_out_of_order'', phase)
      else (contract True ''cuda_shutdown_phase_advanced'', next_phase))"

definition shutdown_complete :: "cuda_shutdown_phase \<Rightarrow> bool" where
  "shutdown_complete phase = (phase = Primary_context_released)"

fun memory_space_name :: "memory_space \<Rightarrow> string" where
  "memory_space_name Memory_unknown = ''unknown''"
| "memory_space_name Host_pageable = ''host_pageable''"
| "memory_space_name Host_pinned = ''host_pinned''"
| "memory_space_name Cuda_device = ''cuda_device''"
| "memory_space_name Imported_dmabuf = ''imported_dmabuf''"

fun nvenc_frame_mode_name :: "nvenc_frame_mode \<Rightarrow> string" where
  "nvenc_frame_mode_name Uniform = ''uniform''"
| "nvenc_frame_mode_name Fixed_emphasis = ''fixed_emphasis''"
| "nvenc_frame_mode_name Automatic_emphasis = ''automatic_emphasis''"

fun submission_state_name :: "submission_state \<Rightarrow> string" where
  "submission_state_name Sub_free = ''free''"
| "submission_state_name Reserved = ''reserved''"
| "submission_state_name Submit_retry_pending = ''submit_retry_pending''"
| "submission_state_name Submitted_pending_output = ''submitted_pending_output''"
| "submission_state_name Bitstream_lockable = ''bitstream_lockable''"
| "submission_state_name Bitstream_locked = ''bitstream_locked''"
| "submission_state_name Abort_pending = ''abort_pending''"

fun cuda_shutdown_phase_name :: "cuda_shutdown_phase \<Rightarrow> string" where
  "cuda_shutdown_phase_name Phase_active = ''active''"
| "cuda_shutdown_phase_name Admission_closed = ''admission_closed''"
| "cuda_shutdown_phase_name Producers_joined = ''producers_joined''"
| "cuda_shutdown_phase_name Events_resolved = ''events_resolved''"
| "cuda_shutdown_phase_name Nvenc_drained = ''nvenc_drained''"
| "cuda_shutdown_phase_name Resources_unregistered = ''resources_unregistered''"
| "cuda_shutdown_phase_name Streams_destroyed = ''streams_destroyed''"
| "cuda_shutdown_phase_name Context_workers_joined = ''context_workers_joined''"
| "cuda_shutdown_phase_name Primary_context_released = ''primary_context_released''"

section \<open>What a valid submission guarantees\<close>

lemma checked_product_exact:
  "checked_product a b = Some p \<longleftrightarrow> a * b < 2 ^ 64 \<and> p = a * b"
proof (cases "a = 0")
  case False
  have "b > (2 ^ 64 - 1) div a \<longleftrightarrow> \<not> a * b < 2 ^ 64"
  proof -
    have "b \<le> (2 ^ 64 - 1) div a \<longleftrightarrow> b * a \<le> 2 ^ 64 - 1"
      using False by (simp add: less_eq_div_iff_mult_less_eq del: power_Suc)
    moreover have "b * a \<le> 2 ^ 64 - 1 \<longleftrightarrow> a * b < 2 ^ 64" by (auto simp: mult.commute)
    ultimately show ?thesis by (simp add: not_le [symmetric])
  qed
  with False show ?thesis by (auto simp: checked_product_def)
qed (auto simp: checked_product_def)

lemma surface_fits_exact:
  "surface_fits surface \<longleftrightarrow>
   (let luma = sf_pitch surface * sf_coded_height surface in
    luma + luma div 2 < 2 ^ 64 \<and> luma + luma div 2 \<le> sf_allocation_bytes surface)"
proof (cases "checked_product (sf_pitch surface) (sf_coded_height surface)")
  case None
  have "checked_product (sf_pitch surface) (sf_coded_height surface) \<noteq> Some (sf_pitch surface * sf_coded_height surface)"
    using None by simp
  then have "\<not> sf_pitch surface * sf_coded_height surface < 2 ^ 64" by (simp add: checked_product_exact)
  with None show ?thesis by (simp add: surface_fits_def Let_def)
next
  case (Some luma)
  then have luma: "luma = sf_pitch surface * sf_coded_height surface" "luma < 2 ^ 64"
    by (simp_all add: checked_product_exact)
  have "\<not> luma > (2 ^ 64 - 1) - luma div 2 \<longleftrightarrow> luma + luma div 2 < 2 ^ 64"
    using luma(2) by linarith
  then show ?thesis
    using Some luma(1) by (auto simp: surface_fits_def Let_def size_add_exact)
qed

definition macroblocks :: "nv12_surface_descriptor \<Rightarrow> nat" where
  "macroblocks surface = ((sf_coded_width surface + 15) div 16) * ((sf_coded_height surface + 15) div 16)"

definition emphasis_matches :: "nv12_surface_descriptor \<Rightarrow> emphasis_map_descriptor \<Rightarrow> bool" where
  "emphasis_matches surface emphasis =
     (em_frame_id emphasis = sf_frame_id surface \<and> em_geometry_epoch emphasis = sf_geometry_epoch surface \<and>
      em_context emphasis = sf_context surface \<and> em_device_to_host_ready emphasis \<and>
      em_memory_space emphasis = Host_pinned \<and> em_values_data emphasis = em_host_pointer emphasis \<and>
      em_host_pointer emphasis \<noteq> 0 \<and> length (em_values emphasis) = macroblocks surface \<and>
      em_byte_size emphasis = macroblocks surface \<and>
      list_all (\<lambda>level. 0 \<le> sint level \<and> sint level \<le> 5) (em_values emphasis))"

lemma validate_emphasis_sound:
  assumes "cv_passed (validate_emphasis surface emphasis)"
    and "sf_coded_width surface \<le> 16384" "sf_coded_height surface \<le> 16384"
  shows "emphasis_matches surface emphasis"
proof -
  have size: "size_add (sf_coded_width surface) 15 = sf_coded_width surface + 15"
    "size_add (sf_coded_height surface) 15 = sf_coded_height surface + 15"
    using assms(2,3) by (simp_all add: size_add_exact)
  obtain n where n: "checked_product ((sf_coded_width surface + 15) div 16) ((sf_coded_height surface + 15) div 16) = Some n"
    using assms(1) by (auto simp: validate_emphasis_def size Let_def split: if_splits option.splits)
  then have "n = macroblocks surface" by (simp add: checked_product_exact macroblocks_def)
  with n assms(1) show ?thesis
    by (auto simp: validate_emphasis_def size Let_def emphasis_matches_def list_ex_iff list_all_iff not_less
        split: if_splits)
qed

text \<open>C31 (bounds). A submission that passes validation stays inside its memory: both planes of
  the NV12 surface, computed without wrap-around, lie within the allocation, and unless the mode
  is uniform the emphasis map is of the same frame, geometry and context, has one level per
  macroblock, and every level is between 0 and 5.\<close>

theorem validated_submission_in_bounds:
  assumes "cv_passed (validate_nvenc_submission request)"
  shows "sf_pitch (rq_surface request) * sf_coded_height (rq_surface request) +
           sf_pitch (rq_surface request) * (sf_coded_height (rq_surface request) div 2)
           \<le> sf_allocation_bytes (rq_surface request) \<and>
         sf_coded_width (rq_surface request) \<le> sf_pitch (rq_surface request) \<and>
         sf_cuda_ready (rq_surface request) \<and>
         (if rq_mode request = Uniform then absent_emphasis_map (rq_emphasis_map request)
          else emphasis_matches (rq_surface request) (rq_emphasis_map request))"
proof -
  let ?s = "rq_surface request"
  have geometry: "sf_coded_width ?s \<le> 16384" "sf_coded_height ?s \<le> 16384" "even (sf_coded_height ?s)"
    "sf_coded_width ?s \<le> sf_pitch ?s" "surface_fits ?s" "sf_cuda_ready ?s"
    using assms by (auto simp: validate_nvenc_submission_def Let_def split: if_splits)
  have mode: "if rq_mode request = Uniform then absent_emphasis_map (rq_emphasis_map request)
      else cv_passed (validate_emphasis ?s (rq_emphasis_map request))"
    using assms by (auto simp: validate_nvenc_submission_def Let_def split: if_splits)
  have "sf_pitch ?s * sf_coded_height ?s div 2 = sf_pitch ?s * (sf_coded_height ?s div 2)"
    using geometry(3) by (simp add: div_mult_swap)
  with geometry mode validate_emphasis_sound [of ?s "rq_emphasis_map request"] show ?thesis
    by (auto simp: surface_fits_exact Let_def)
qed

definition sample_context :: cuda_context_identity where
  "sample_context = \<lparr>ctx_device_ordinal = 0, ctx_context_handle = 16, ctx_generation = 1\<rparr>"

definition sample_request :: "nat \<Rightarrow> u64 \<Rightarrow> nvenc_submission_request" where
  "sample_request slot_id sequence =
     \<lparr>rq_submission_slot_id = slot_id, rq_submission_sequence = sequence, rq_output_bitstream = sequence,
      rq_mode = Automatic_emphasis, rq_force_idr = False,
      rq_surface = \<lparr>sf_frame_id = 1, sf_geometry_epoch = 1, sf_context = sample_context,
        sf_memory_space = Cuda_device, sf_device_pointer = 4096, sf_coded_width = 32, sf_coded_height = 16,
        sf_pitch = 64, sf_allocation_bytes = 1536, sf_contiguous = True, sf_cuda_ready = True\<rparr>,
      rq_emphasis_map = \<lparr>em_frame_id = 1, em_geometry_epoch = 1, em_context = sample_context,
        em_memory_space = Host_pinned, em_host_pointer = 64, em_macroblock_width = 2,
        em_macroblock_height = 1, em_byte_size = 2, em_values_data = 64, em_values = [0, 5],
        em_device_to_host_ready = True\<rparr>\<rparr>"

lemma sample_request_valid: "sequence \<noteq> 0 \<Longrightarrow> cv_passed (validate_nvenc_submission (sample_request slot_id sequence))"
  by (simp add: validate_nvenc_submission_def validate_emphasis_def sample_request_def sample_context_def
      context_valid_def surface_fits_def checked_product_def size_add_def Let_def)

theorem validated_submission_in_bounds_witness:
  "emphasis_matches (rq_surface (sample_request 0 1)) (rq_emphasis_map (sample_request 0 1))"
  using validated_submission_in_bounds [OF sample_request_valid, of 1 0] by (simp add: sample_request_def)

section \<open>Invariant of the coordinator\<close>

lemma update_slot_facts [simp]:
  "length (co_slots (update_slot i f c)) = length (co_slots c)"
  "co_fifo (update_slot i f c) = co_fifo c"
  "co_last_sequence (update_slot i f c) = co_last_sequence c"
  "co_maximum_busy_retries (update_slot i f c) = co_maximum_busy_retries c"
  "co_end_of_stream (update_slot i f c) = co_end_of_stream c"
  "co_fatal (update_slot i f c) = co_fatal c"
  "co_driver_call_count (update_slot i f c) = co_driver_call_count c"
  by (simp_all add: update_slot_def)

lemma update_slot_nth:
  "j < length (co_slots c) \<Longrightarrow>
   co_slots (update_slot i f c) ! j = (if j = i then f (co_slots c ! j) else co_slots c ! j)"
  by (simp add: update_slot_def nth_list_update)

abbreviation st :: "nvenc_submission_coordinator \<Rightarrow> nat \<Rightarrow> submission_state" where
  "st c i \<equiv> sl_state (co_slots c ! i)"

definition queued :: "submission_state \<Rightarrow> bool" where
  "queued s = (s = Submitted_pending_output \<or> s = Bitstream_lockable \<or> s = Bitstream_locked)"

lemma queued_simps [simp]:
  "queued Submitted_pending_output" "queued Bitstream_lockable" "queued Bitstream_locked"
  "\<not> queued Sub_free" "\<not> queued Reserved" "\<not> queued Submit_retry_pending" "\<not> queued Abort_pending"
  by (simp_all add: queued_def)

text \<open>A slot on its own: a free slot is a fresh one, an occupied one knows what it was asked to
  submit; \<open>r\<close> is the slot that is reserved while the driver is being called.\<close>

definition slot_ok :: "nat option \<Rightarrow> nvenc_submission_coordinator \<Rightarrow> nat \<Rightarrow> bool" where
  "slot_ok r c i =
     (let s = co_slots c ! i in
      (sl_state s = Sub_free \<longrightarrow> s = new_slot) \<and>
      (sl_state s \<noteq> Sub_free \<longrightarrow>
        (\<exists>fp l. sl_fingerprint s = Some fp \<and> co_last_sequence c = Some l \<and> fp_sequence fp \<le> l)) \<and>
      (sl_state s = Reserved \<longrightarrow> r = Some i) \<and>
      (sl_state s = Abort_pending \<longrightarrow> co_fatal c) \<and>
      (co_fatal c \<longrightarrow> sl_state s = Sub_free \<or> sl_state s = Abort_pending \<or> sl_state s = Bitstream_locked) \<and>
      (sl_state s \<noteq> Abort_pending \<longrightarrow> sl_busy_retries s \<le> co_maximum_busy_retries c))"

definition slots_ok :: "nat option \<Rightarrow> nvenc_submission_coordinator \<Rightarrow> bool" where
  "slots_ok r c = (\<forall>i < length (co_slots c). slot_ok r c i)"

text \<open>The queue lists exactly the submissions in flight, and only its head may be lockable or locked.\<close>

definition order_ok :: "nvenc_submission_coordinator \<Rightarrow> bool" where
  "order_ok c =
     (distinct (co_fifo c) \<and> (\<forall>i \<in> set (co_fifo c). i < length (co_slots c)) \<and>
      (\<forall>i < length (co_slots c). queued (st c i) \<longleftrightarrow> i \<in> set (co_fifo c)) \<and>
      (\<forall>i \<in> set (tl (co_fifo c)). st c i = Submitted_pending_output))"

text \<open>No head whose output is ready is left unlockable.\<close>

definition head_ok :: "nvenc_submission_coordinator \<Rightarrow> bool" where
  "head_ok c =
     (case co_fifo c of [] \<Rightarrow> True
      | front # _ \<Rightarrow> st c front = Submitted_pending_output \<longrightarrow>
          \<not> sl_output_ready (co_slots c ! front) \<and> \<not> co_end_of_stream c)"

definition output_of :: "nvenc_submission_coordinator \<Rightarrow> nat \<Rightarrow> u64 option" where
  "output_of c i = (if st c i = Sub_free then None else map_option fp_output_bitstream (sl_fingerprint (co_slots c ! i)))"

definition outputs_ok :: "nvenc_submission_coordinator \<Rightarrow> bool" where
  "outputs_ok c =
     (\<forall>i < length (co_slots c). \<forall>j < length (co_slots c). i \<noteq> j \<longrightarrow> output_of c i \<noteq> None \<longrightarrow>
        output_of c i \<noteq> output_of c j)"

definition limits_ok :: "nvenc_submission_coordinator \<Rightarrow> bool" where
  "limits_ok c =
     (0 < length (co_slots c) \<and> length (co_slots c) \<le> 64 \<and> 0 < co_maximum_busy_retries c \<and>
      co_maximum_busy_retries c \<le> 10000)"

definition base_ok :: "nat option \<Rightarrow> nvenc_submission_coordinator \<Rightarrow> bool" where
  "base_ok r c = (limits_ok c \<and> slots_ok r c \<and> order_ok c \<and> outputs_ok c)"

definition coordinator_ok :: "nvenc_submission_coordinator \<Rightarrow> bool" where
  "coordinator_ok c = (base_ok None c \<and> head_ok c)"

lemma in_tl: "x \<in> set (tl xs) \<Longrightarrow> x \<in> set xs"
  by (cases xs) auto

text \<open>An update of a slot that keeps its owner and its place in the queue.\<close>

lemma base_update:
  assumes base: "base_ok r c" and i: "i < length (co_slots c)"
    and slot: "slot_ok r (update_slot i f c) i"
    and place: "queued (sl_state (f (co_slots c ! i))) = queued (st c i)"
      "i \<in> set (tl (co_fifo c)) \<Longrightarrow> sl_state (f (co_slots c ! i)) = Submitted_pending_output"
    and out: "output_of (update_slot i f c) i = output_of c i"
  shows "base_ok r (update_slot i f c)"
proof -
  let ?c = "update_slot i f c"
  have nth: "co_slots ?c ! j = (if j = i then f (co_slots c ! j) else co_slots c ! j)"
    if "j < length (co_slots c)" for j using update_slot_nth [OF that] .
  have "slot_ok r ?c j" if "j < length (co_slots c)" for j
    using base slot that nth [OF that] by (cases "j = i") (auto simp: base_ok_def slots_ok_def slot_ok_def)
  then have "slots_ok r ?c" by (simp add: slots_ok_def)
  moreover have "order_ok ?c"
    using base place i by (auto simp: base_ok_def order_ok_def nth in_tl split: if_splits)
  moreover have "output_of ?c j = output_of c j" if "j < length (co_slots c)" for j
    using that out nth [OF that] by (cases "j = i") (simp_all add: output_of_def)
  then have "outputs_ok ?c" using base by (simp add: base_ok_def outputs_ok_def)
  ultimately show ?thesis using base by (simp add: base_ok_def limits_ok_def)
qed

lemma lockable_ok:
  assumes "base_ok r c"
  shows "base_ok r (make_fifo_head_lockable c)" and "head_ok (make_fifo_head_lockable c)"
proof -
  show "base_ok r (make_fifo_head_lockable c)"
  proof (cases "co_fifo c")
    case (Cons front rest)
    have front: "front < length (co_slots c)" "front \<notin> set rest"
      using assms Cons by (auto simp: base_ok_def order_ok_def)
    show ?thesis
    proof (cases "st c front = Submitted_pending_output \<and> (sl_output_ready (co_slots c ! front) \<or> co_end_of_stream c)")
      case True
      have "slot_ok r c front" using assms front by (simp add: base_ok_def slots_ok_def)
      with assms front Cons True have "base_ok r (update_slot front (\<lambda>s. s\<lparr>sl_state := Bitstream_lockable\<rparr>) c)"
        by (intro base_update) (auto simp: slot_ok_def update_slot_nth output_of_def Let_def)
      with Cons True show ?thesis by (simp add: make_fifo_head_lockable_def Let_def)
    qed (use assms Cons in \<open>auto simp: make_fifo_head_lockable_def Let_def\<close>)
  qed (use assms in \<open>simp add: make_fifo_head_lockable_def\<close>)
  show "head_ok (make_fifo_head_lockable c)"
    using assms by (auto simp: head_ok_def make_fifo_head_lockable_def Let_def base_ok_def order_ok_def
        update_slot_nth split: list.splits)
qed

lemma lockable_facts [simp]:
  "co_fifo (make_fifo_head_lockable c) = co_fifo c" "co_fatal (make_fifo_head_lockable c) = co_fatal c"
  "length (co_slots (make_fifo_head_lockable c)) = length (co_slots c)"
  "co_end_of_stream (make_fifo_head_lockable c) = co_end_of_stream c"
  by (auto simp: make_fifo_head_lockable_def Let_def split: list.splits)

text \<open>Marking the queued outputs as ready keeps everything but the head condition.\<close>

lemma mark_ready_base:
  assumes "base_ok r c" "set is \<subseteq> set (co_fifo c)"
  shows "base_ok r (foldl (\<lambda>c i. update_slot i (\<lambda>s. s\<lparr>sl_output_ready := True\<rparr>) c) c is) \<and>
    co_fifo (foldl (\<lambda>c i. update_slot i (\<lambda>s. s\<lparr>sl_output_ready := True\<rparr>) c) c is) = co_fifo c \<and>
    co_fatal (foldl (\<lambda>c i. update_slot i (\<lambda>s. s\<lparr>sl_output_ready := True\<rparr>) c) c is) = co_fatal c \<and>
    length (co_slots (foldl (\<lambda>c i. update_slot i (\<lambda>s. s\<lparr>sl_output_ready := True\<rparr>) c) c is)) = length (co_slots c) \<and>
    (\<forall>j < length (co_slots c).
       st (foldl (\<lambda>c i. update_slot i (\<lambda>s. s\<lparr>sl_output_ready := True\<rparr>) c) c is) j = st c j)"
  using assms
proof (induction "is" arbitrary: c)
  case (Cons i rest)
  let ?c = "update_slot i (\<lambda>s. s\<lparr>sl_output_ready := True\<rparr>) c"
  have i: "i < length (co_slots c)" "queued (st c i)" "slot_ok r c i"
    using Cons.prems by (auto simp: base_ok_def order_ok_def slots_ok_def)
  have "base_ok r ?c"
    using Cons.prems(1) i
    by (intro base_update) (auto simp: slot_ok_def update_slot_nth output_of_def Let_def base_ok_def order_ok_def)
  from Cons.IH [OF this] Cons.prems(2) show ?case by (auto simp: update_slot_nth)
qed simp

lemma mark_outputs_ready_ok:
  assumes "base_ok r c"
  shows "base_ok r (mark_outputs_ready c)" "co_fifo (mark_outputs_ready c) = co_fifo c"
    "co_fatal (mark_outputs_ready c) = co_fatal c"
    "length (co_slots (mark_outputs_ready c)) = length (co_slots c)"
    "j < length (co_slots c) \<Longrightarrow> st (mark_outputs_ready c) j = st c j"
  using mark_ready_base [OF assms, of "co_fifo c"] by (simp_all add: mark_outputs_ready_def)

lemma locked_head_some: "locked_head c = Some i \<longleftrightarrow> (\<exists>rest. co_fifo c = i # rest) \<and> st c i = Bitstream_locked"
  by (auto simp: locked_head_def split: list.splits if_splits)

lemma fatal_facts:
  "co_fatal (enter_fatal_state c)" "length (co_slots (enter_fatal_state c)) = length (co_slots c)"
  "co_fifo (enter_fatal_state c) = (case locked_head c of None \<Rightarrow> [] | Some i \<Rightarrow> [i])"
  "co_last_sequence (enter_fatal_state c) = co_last_sequence c"
  "co_maximum_busy_retries (enter_fatal_state c) = co_maximum_busy_retries c"
  by (simp_all add: enter_fatal_state_def Let_def)

lemma fatal_nth:
  "j < length (co_slots c) \<Longrightarrow>
   co_slots (enter_fatal_state c) ! j =
     (if st c j \<noteq> Sub_free \<and> Some j \<noteq> locked_head c then (co_slots c ! j)\<lparr>sl_state := Abort_pending\<rparr>
      else co_slots c ! j)"
  by (simp add: enter_fatal_state_def Let_def nth_enumerate_eq)

text \<open>Entering the fatal state from within an operation, with a slot possibly reserved or its busy
  count over the limit.\<close>

lemma fatal_ok:
  assumes limits: "limits_ok c" and order: "order_ok c" and outputs: "outputs_ok c"
    and slots: "\<And>i. i < length (co_slots c) \<Longrightarrow>
      (st c i = Sub_free \<longrightarrow> co_slots c ! i = new_slot) \<and>
      (st c i \<noteq> Sub_free \<longrightarrow>
        (\<exists>fp l. sl_fingerprint (co_slots c ! i) = Some fp \<and> co_last_sequence c = Some l \<and> fp_sequence fp \<le> l)) \<and>
      (st c i = Bitstream_locked \<longrightarrow> sl_busy_retries (co_slots c ! i) \<le> co_maximum_busy_retries c)"
  shows "coordinator_ok (enter_fatal_state c)"
proof -
  let ?c = "enter_fatal_state c"
  have locked: "st c j = Bitstream_locked \<longleftrightarrow> locked_head c = Some j" if "j < length (co_slots c)" for j
  proof
    assume "st c j = Bitstream_locked"
    moreover from this have "j \<in> set (co_fifo c)" using order that by (auto simp: order_ok_def)
    ultimately show "locked_head c = Some j"
      using order by (cases "co_fifo c") (auto simp: order_ok_def locked_head_some)
  qed (simp add: locked_head_some)
  have "slot_ok None ?c j" if "j < length (co_slots c)" for j
    using slots [OF that] fatal_nth [OF that] locked [OF that] fatal_facts
    by (cases "st c j = Sub_free"; cases "locked_head c = Some j")
      (auto simp: slot_ok_def Let_def new_slot_def)
  then have "slots_ok None ?c" by (simp add: slots_ok_def fatal_facts)
  moreover have state: "st ?c j = (if locked_head c = Some j then Bitstream_locked
      else if st c j = Sub_free then Sub_free else Abort_pending)" if "j < length (co_slots c)" for j
    using fatal_nth [OF that] locked [OF that] by (cases "locked_head c = Some j") auto
  have "order_ok ?c"
  proof (cases "locked_head c")
    case (Some i)
    then have "i < length (co_slots c)" using order by (auto simp: locked_head_some order_ok_def)
    with Some state show ?thesis by (simp add: order_ok_def fatal_facts)
  qed (use state in \<open>simp add: order_ok_def fatal_facts\<close>)
  moreover have "output_of ?c j = output_of c j" if "j < length (co_slots c)" for j
    using fatal_nth [OF that] by (simp add: output_of_def)
  then have "outputs_ok ?c" using outputs by (simp add: outputs_ok_def fatal_facts)
  moreover have "head_ok ?c"
  proof (cases "locked_head c")
    case (Some i)
    then have "i < length (co_slots c)" using order by (auto simp: locked_head_some order_ok_def)
    with Some state show ?thesis by (simp add: head_ok_def fatal_facts)
  qed (simp add: head_ok_def fatal_facts)
  ultimately show ?thesis using \<open>order_ok ?c\<close> limits by (simp add: coordinator_ok_def base_ok_def limits_ok_def fatal_facts)
qed

lemma base_fatal_ok: "base_ok r c \<Longrightarrow> coordinator_ok (enter_fatal_state c)"
  by (rule fatal_ok) (auto simp: base_ok_def slots_ok_def slot_ok_def Let_def)

lemma base_count:
  "base_ok r (c\<lparr>co_driver_call_count := n\<rparr>) = base_ok r c"
  "base_ok r (c\<lparr>co_end_of_stream := b\<rparr>) = base_ok r c"
  "head_ok (c\<lparr>co_driver_call_count := n\<rparr>) = head_ok c"
  by (simp_all add: head_ok_def split: list.splits)
    (simp_all add: base_ok_def limits_ok_def slots_ok_def slot_ok_def order_ok_def outputs_ok_def output_of_def)

text \<open>A reserved slot that the driver accepted joins the queue at its end.\<close>

lemma accept_ok:
  assumes base: "base_ok (Some i) c" and i: "i < length (co_slots c)" "st c i = Reserved"
  shows "coordinator_ok (accept_submission i ready c)"
    and "co_fifo (accept_submission i ready c) = co_fifo c @ [i]"
    and "co_fatal (accept_submission i ready c) = co_fatal c" "\<not> co_fatal c"
proof -
  define c1 where "c1 = (update_slot i (\<lambda>s. s\<lparr>sl_state := Submitted_pending_output, sl_output_ready := ready\<rparr>) c)
    \<lparr>co_fifo := co_fifo c @ [i]\<rparr>"
  have accept: "accept_submission i ready c = make_fifo_head_lockable c1"
    by (simp add: accept_submission_def Let_def c1_def)
  have nth: "co_slots c1 ! j = (if j = i then (co_slots c ! i)\<lparr>sl_state := Submitted_pending_output, sl_output_ready := ready\<rparr>
      else co_slots c ! j)" if "j < length (co_slots c)" for j
    using update_slot_nth [OF that] by (simp add: c1_def)
  have len: "length (co_slots c1) = length (co_slots c)" "co_fifo c1 = co_fifo c @ [i]" "co_fatal c1 = co_fatal c"
    "co_last_sequence c1 = co_last_sequence c" "co_maximum_busy_retries c1 = co_maximum_busy_retries c"
    by (simp_all add: c1_def)
  have ok: "slot_ok (Some i) c j" if "j < length (co_slots c)" for j
    using base that by (simp add: base_ok_def slots_ok_def)
  show not_fatal: "\<not> co_fatal c" using ok [OF i(1)] i(2) by (simp add: slot_ok_def Let_def)
  have "i \<notin> set (co_fifo c)" using base i by (auto simp: base_ok_def order_ok_def)
  have "slot_ok None c1 j" if "j < length (co_slots c)" for j
    using ok [OF that] nth [OF that] i(2) not_fatal by (cases "j = i") (auto simp: slot_ok_def Let_def len)
  then have "slots_ok None c1" by (simp add: slots_ok_def len)
  moreover have "st c1 j = Submitted_pending_output" if "j \<in> set (tl (co_fifo c @ [i]))" for j
  proof (cases "j = i")
    case True
    then show ?thesis using i nth by simp
  next
    case False
    then have "j \<in> set (tl (co_fifo c))" using that by (cases "co_fifo c") auto
    moreover from this have "j < length (co_slots c)" using base by (auto simp: base_ok_def order_ok_def dest: in_tl)
    ultimately show ?thesis using base nth False by (auto simp: base_ok_def order_ok_def)
  qed
  moreover have "queued (st c1 j) \<longleftrightarrow> j \<in> set (co_fifo c @ [i])" if "j < length (co_slots c)" for j
    using base nth [OF that] that by (cases "j = i") (simp_all add: base_ok_def order_ok_def)
  moreover have "distinct (co_fifo c @ [i])" "\<forall>j \<in> set (co_fifo c @ [i]). j < length (co_slots c)"
    using base \<open>i \<notin> _\<close> i(1) by (auto simp: base_ok_def order_ok_def)
  ultimately have "order_ok c1" "slots_ok None c1" by (simp_all add: order_ok_def len)
  moreover have "output_of c1 j = output_of c j" if "j < length (co_slots c)" for j
    using nth [OF that] i by (simp add: output_of_def)
  then have "outputs_ok c1" using base by (simp add: base_ok_def outputs_ok_def len)
  ultimately have "base_ok None c1" using base by (simp add: base_ok_def limits_ok_def len)
  then show "coordinator_ok (accept_submission i ready c)"
    using lockable_ok [of None c1] by (simp add: accept coordinator_ok_def)
  show "co_fifo (accept_submission i ready c) = co_fifo c @ [i]"
    and "co_fatal (accept_submission i ready c) = co_fatal c"
    by (simp_all add: accept len)
qed

lemma output_in_use_exact:
  "base_ok None c \<Longrightarrow> output_in_use c out \<longleftrightarrow> (\<exists>i < length (co_slots c). output_of c i = Some out)"
  by (force simp: output_in_use_def list_ex_iff in_set_conv_nth output_of_def base_ok_def slots_ok_def slot_ok_def
      split: option.splits)

lemma reserve_ok:
  assumes ok: "coordinator_ok c" and i: "rq_submission_slot_id request < length (co_slots c)"
    and run: "reserve_submission c request = Inr c1" and run_not_fatal: "\<not> co_fatal c"
  shows "base_ok (Some (rq_submission_slot_id request)) c1" "st c1 (rq_submission_slot_id request) = Reserved"
    "length (co_slots c1) = length (co_slots c)" "co_fifo c1 = co_fifo c" "co_fatal c1 = co_fatal c"
    "\<And>j. j \<in> set (co_fifo c) \<Longrightarrow> st c1 j = st c j"
    "co_maximum_busy_retries c1 = co_maximum_busy_retries c"
proof -
  let ?i = "rq_submission_slot_id request"
  have base: "base_ok None c" using ok by (simp add: coordinator_ok_def)
  have state: "st c ?i = Sub_free \<or> st c ?i = Submit_retry_pending"
    using run by (auto simp: reserve_submission_def Let_def split: if_splits)
  have nth: "co_slots c1 ! j = (if j = ?i then (co_slots c ! ?i)\<lparr>sl_state := Reserved, sl_fingerprint := Some (fingerprint request)\<rparr>
      else co_slots c ! j)" if "j < length (co_slots c)" for j
    using run update_slot_nth [OF that] by (auto simp: reserve_submission_def Let_def split: if_splits)
  have seq: "\<exists>l. co_last_sequence c1 = Some l \<and> rq_submission_sequence request \<le> l \<and>
      (\<forall>k. co_last_sequence c = Some k \<longrightarrow> k \<le> l)"
    using run base i by (fastforce simp: reserve_submission_def Let_def base_ok_def slots_ok_def slot_ok_def
        fingerprint_def split: if_splits option.splits)
  show len: "length (co_slots c1) = length (co_slots c)" and fifo: "co_fifo c1 = co_fifo c"
    and fatal: "co_fatal c1 = co_fatal c" and busy: "co_maximum_busy_retries c1 = co_maximum_busy_retries c"
    using run by (auto simp: reserve_submission_def Let_def split: if_splits)
  show "st c1 ?i = Reserved" using nth [OF i] by simp
  have ok_slot: "slot_ok None c j" if "j < length (co_slots c)" for j
    using base that by (simp add: base_ok_def slots_ok_def)
  have not_fatal: "st c ?i = Submit_retry_pending \<Longrightarrow> \<not> co_fatal c"
    using ok_slot [OF i] by (auto simp: slot_ok_def Let_def)
  have out: "\<forall>j < length (co_slots c). j \<noteq> ?i \<longrightarrow> output_of c j \<noteq> Some (rq_output_bitstream request)"
  proof (cases "st c ?i = Sub_free")
    case True
    then show ?thesis
      using run output_in_use_exact [OF base] by (auto simp: reserve_submission_def Let_def split: if_splits)
  next
    case False
    then have "output_of c ?i = Some (rq_output_bitstream request)"
      using run state by (auto simp: reserve_submission_def Let_def output_of_def fingerprint_def split: if_splits)
    then show ?thesis using base i unfolding base_ok_def outputs_ok_def by (metis option.distinct(1))
  qed
  show elsewhere: "st c1 j = st c j" if "j \<in> set (co_fifo c)" for j
  proof -
    have "j < length (co_slots c)" "queued (st c j)" using base that by (auto simp: base_ok_def order_ok_def)
    with nth state show ?thesis by auto
  qed
  have "slot_ok (Some ?i) c1 j" if "j < length (co_slots c)" for j
  proof (cases "j = ?i")
    case True
    have "sl_busy_retries (co_slots c ! ?i) \<le> co_maximum_busy_retries c"
      using ok_slot [OF i] state by (auto simp: slot_ok_def Let_def)
    moreover have "\<not> co_fatal c" using state not_fatal run_not_fatal by blast
    ultimately show ?thesis
      using True nth [OF i] seq busy fatal by (auto simp: slot_ok_def Let_def fingerprint_def)
  next
    case False
    obtain l where l: "co_last_sequence c1 = Some l" "\<And>k. co_last_sequence c = Some k \<Longrightarrow> k \<le> l"
      using seq by blast
    have "slot_ok (Some ?i) c1 j = (slot_ok None c j \<or> slot_ok (Some ?i) c1 j)"
      using ok_slot [OF that] nth [OF that] False fatal busy l
      by (auto simp: slot_ok_def Let_def intro: order_trans)
    with ok_slot [OF that] show ?thesis by blast
  qed
  then have "slots_ok (Some ?i) c1" by (simp add: slots_ok_def len)
  moreover have "order_ok c1"
  proof -
    have "?i \<notin> set (co_fifo c)" using base i state by (auto simp: base_ok_def order_ok_def)
    moreover have "queued (st c1 j) = queued (st c j)" if "j < length (co_slots c)" for j
      using nth [OF that] state by auto
    ultimately show ?thesis
      using base elsewhere by (auto simp: base_ok_def order_ok_def len fifo in_tl)
  qed
  moreover have "output_of c1 j = (if j = ?i then Some (rq_output_bitstream request) else output_of c j)"
    if "j < length (co_slots c)" for j
    using nth [OF that] by (cases "j = ?i") (auto simp: output_of_def fingerprint_def)
  then have "outputs_ok c1"
    using base out by (auto simp: base_ok_def outputs_ok_def len)
  ultimately show "base_ok (Some ?i) c1" using base by (simp add: base_ok_def limits_ok_def len busy)
qed

section \<open>Operations of the coordinator\<close>

lemma lockable_locked_head: "base_ok r c \<Longrightarrow> locked_head (make_fifo_head_lockable c) = locked_head c"
  by (auto simp: locked_head_def make_fifo_head_lockable_def Let_def base_ok_def order_ok_def update_slot_nth
      split: list.splits)

lemma mark_ready_locked_head: "base_ok r c \<Longrightarrow> locked_head (mark_outputs_ready c) = locked_head c"
  using mark_outputs_ready_ok(2,5) [of r c]
  by (auto simp: locked_head_def base_ok_def order_ok_def split: list.splits)

lemma accept_locked_head:
  assumes base: "base_ok (Some i) c" and i: "i < length (co_slots c)" "st c i = Reserved"
  shows "locked_head (accept_submission i ready c) = locked_head c"
proof -
  define c1 where "c1 = (update_slot i (\<lambda>s. s\<lparr>sl_state := Submitted_pending_output, sl_output_ready := ready\<rparr>) c)
    \<lparr>co_fifo := co_fifo c @ [i]\<rparr>"
  have nth: "co_slots c1 ! j = (if j = i then (co_slots c ! i)\<lparr>sl_state := Submitted_pending_output, sl_output_ready := ready\<rparr>
      else co_slots c ! j)" if "j < length (co_slots c)" for j
    using update_slot_nth [OF that] by (simp add: c1_def)
  have bounds: "\<forall>j \<in> set (co_fifo c). j < length (co_slots c)" "i \<notin> set (co_fifo c)"
    using base i by (auto simp: base_ok_def order_ok_def)
  have fifo1: "co_fifo c1 = co_fifo c @ [i]" "length (co_slots c1) = length (co_slots c)" by (simp_all add: c1_def)
  have head1: "locked_head c1 = locked_head c"
    using nth bounds i fifo1 by (cases "co_fifo c") (auto simp: locked_head_def)
  have "locked_head (make_fifo_head_lockable c1) = locked_head c1"
    using bounds i fifo1 by (cases "co_fifo c")
      (auto simp: locked_head_def make_fifo_head_lockable_def Let_def update_slot_nth)
  with head1 show ?thesis by (simp add: accept_submission_def Let_def c1_def)
qed

lemma fatal_locked_head:
  "order_ok c \<Longrightarrow> locked_head (enter_fatal_state c) = locked_head c"
  by (cases "locked_head c") (auto simp: locked_head_def fatal_facts fatal_nth order_ok_def split: list.splits if_splits)

text \<open>What an operation does to the queue and its locked head: it leaves both alone, adds a
  submission at the end, or enters the fatal state, which keeps only the locked head.\<close>

datatype effect = Unchanged | Appended nat | Broken

fun queue_effect :: "effect \<Rightarrow> nvenc_submission_coordinator \<Rightarrow> nvenc_submission_coordinator \<Rightarrow> bool" where
  "queue_effect Unchanged c c' =
     (coordinator_ok c' \<and> co_fifo c' = co_fifo c \<and> co_fatal c' = co_fatal c \<and> locked_head c' = locked_head c)"
| "queue_effect (Appended i) c c' =
     (coordinator_ok c' \<and> co_fifo c' = co_fifo c @ [i] \<and> \<not> co_fatal c \<and> \<not> co_fatal c' \<and> locked_head c' = locked_head c)"
| "queue_effect Broken c c' =
     (coordinator_ok c' \<and> co_fifo c' = (case locked_head c of None \<Rightarrow> [] | Some i \<Rightarrow> [i]) \<and> co_fatal c' \<and>
      locked_head c' = locked_head c)"

lemma broken: "base_ok r c \<Longrightarrow> queue_effect Broken c (enter_fatal_state c)"
  using base_fatal_ok [of r c] fatal_locked_head [of c] by (simp add: fatal_facts base_ok_def)

lemma busy_broken:
  assumes "base_ok (Some i) c" "i < length (co_slots c)" "st c i = Reserved"
  shows "queue_effect Broken c (enter_fatal_state (update_slot i (\<lambda>s. s\<lparr>sl_busy_retries := n\<rparr>) c))"
proof -
  let ?c = "update_slot i (\<lambda>s. s\<lparr>sl_busy_retries := n\<rparr>) c"
  have nth: "co_slots ?c ! j = (if j = i then (co_slots c ! j)\<lparr>sl_busy_retries := n\<rparr> else co_slots c ! j)"
    if "j < length (co_slots c)" for j using update_slot_nth [OF that] .
  have bounds: "\<forall>j \<in> set (co_fifo c). j < length (co_slots c)" using assms(1) by (simp add: base_ok_def order_ok_def)
  have st: "st ?c j = st c j" "output_of ?c j = output_of c j" if "j < length (co_slots c)" for j
    using nth [OF that] by (simp_all add: output_of_def)
  have order: "order_ok ?c"
    using assms(1) st bounds by (auto simp: base_ok_def order_ok_def in_tl)
  have ok: "slot_ok (Some i) c j" if "j < length (co_slots c)" for j
    using assms(1) that by (simp add: base_ok_def slots_ok_def)
  have slots: "(st ?c j = Sub_free \<longrightarrow> co_slots ?c ! j = new_slot) \<and>
      (st ?c j \<noteq> Sub_free \<longrightarrow> (\<exists>fp l. sl_fingerprint (co_slots ?c ! j) = Some fp \<and>
         co_last_sequence ?c = Some l \<and> fp_sequence fp \<le> l)) \<and>
      (st ?c j = Bitstream_locked \<longrightarrow> sl_busy_retries (co_slots ?c ! j) \<le> co_maximum_busy_retries ?c)"
    if "j < length (co_slots ?c)" for j
    using ok [of j] that nth [of j] assms(3) by (cases "j = i") (simp_all add: slot_ok_def Let_def)
  have "limits_ok ?c" "outputs_ok ?c"
    using assms(1) st by (simp_all add: base_ok_def limits_ok_def outputs_ok_def)
  then have "coordinator_ok (enter_fatal_state ?c)" using fatal_ok [OF _ order _ slots] by blast
  moreover have "locked_head ?c = locked_head c"
    using st bounds by (auto simp: locked_head_def split: list.splits)
  ultimately show ?thesis using fatal_locked_head [OF order] by (simp add: fatal_facts)
qed

lemma retry_unchanged:
  assumes base: "base_ok (Some i) c" and i: "i < length (co_slots c)" "st c i = Reserved"
    and n: "n \<le> co_maximum_busy_retries c" and head: "head_ok c"
  shows "queue_effect Unchanged c
    (update_slot i (\<lambda>s. s\<lparr>sl_state := Submit_retry_pending\<rparr>) (update_slot i (\<lambda>s. s\<lparr>sl_busy_retries := n\<rparr>) c))"
    (is "queue_effect Unchanged c ?c")
proof -
  have nth: "co_slots ?c ! j = (if j = i then (co_slots c ! j)\<lparr>sl_state := Submit_retry_pending, sl_busy_retries := n\<rparr>
      else co_slots c ! j)" if "j < length (co_slots c)" for j
    using that by (simp add: update_slot_nth)
  have ok: "slot_ok (Some i) c j" if "j < length (co_slots c)" for j
    using base that by (simp add: base_ok_def slots_ok_def)
  have bounds: "\<forall>j \<in> set (co_fifo c). j < length (co_slots c)" "i \<notin> set (co_fifo c)"
    using base i by (auto simp: base_ok_def order_ok_def)
  have same: "co_slots ?c ! j = co_slots c ! j" if "j \<in> set (co_fifo c)" for j
    using nth bounds that by auto
  have "slot_ok None ?c j" if "j < length (co_slots c)" for j
    using ok [OF that] nth [OF that] n i(2) by (cases "j = i") (auto simp: slot_ok_def Let_def)
  then have "slots_ok None ?c" by (simp add: slots_ok_def)
  moreover have "queued (st ?c j) = queued (st c j)" if "j < length (co_slots c)" for j
    using nth [OF that] i(2) by auto
  then have "order_ok ?c"
    using base same by (auto simp: base_ok_def order_ok_def in_tl)
  moreover have "output_of ?c j = output_of c j" if "j < length (co_slots c)" for j
    using nth [OF that] i(2) by (simp add: output_of_def)
  then have "outputs_ok ?c" using base by (simp add: base_ok_def outputs_ok_def)
  moreover have "head_ok ?c" using head same by (cases "co_fifo c") (auto simp: head_ok_def)
  moreover have "locked_head ?c = locked_head c"
    using same by (cases "co_fifo c") (auto simp: locked_head_def)
  ultimately show ?thesis using base by (simp add: coordinator_ok_def base_ok_def limits_ok_def)
qed

definition joined :: "submission_operation \<Rightarrow> bool" where
  "joined r = (so_passed r \<and> so_reason r \<noteq> ''nvenc_submission_retry_pending'')"

lemma call_driver_effect:
  assumes base: "base_ok (Some i) c" and i: "i < length (co_slots c)" "st c i = Reserved" and head: "head_ok c"
  obtains (refused) "queue_effect Broken c (snd (call_driver c i answer))" "\<not> so_passed (fst (call_driver c i answer))"
  | (retry) "queue_effect Unchanged c (snd (call_driver c i answer))" "so_passed (fst (call_driver c i answer))"
      "\<not> joined (fst (call_driver c i answer))"
  | (accepted) "queue_effect (Appended i) c (snd (call_driver c i answer))" "joined (fst (call_driver c i answer))"
proof -
  define c1 where "c1 = c\<lparr>co_driver_call_count := co_driver_call_count c + 1\<rparr>"
  have same: "base_ok (Some i) c1" "i < length (co_slots c1)" "st c1 i = Reserved" "head_ok c1"
    using assms by (simp_all add: c1_def base_count)
  have "locked_head c1 = locked_head c" by (simp add: c1_def locked_head_def split: list.splits)
  then have to_c: "queue_effect e c1 c' = queue_effect e c c'" for e c'
    by (cases e) (simp_all add: c1_def)
  have busy: "sl_busy_retries (co_slots c1 ! i) \<le> co_maximum_busy_retries c1" "co_maximum_busy_retries c1 \<le> 10000"
  proof -
    have "slot_ok (Some i) c1 i" "limits_ok c1" using same(1,2) by (simp_all add: base_ok_def slots_ok_def)
    then show "sl_busy_retries (co_slots c1 ! i) \<le> co_maximum_busy_retries c1" "co_maximum_busy_retries c1 \<le> 10000"
      using same(3) by (simp_all add: slot_ok_def Let_def limits_ok_def)
  qed
  then have size: "size_add (sl_busy_retries (co_slots c1 ! i)) 1 = sl_busy_retries (co_slots c1 ! i) + 1"
    by (simp add: size_add_exact)
  have accept: "queue_effect (Appended i) c (accept_submission i ready c1)" for ready
    unfolding to_c [symmetric]
    using accept_ok(1-3) [OF same(1-3), of ready] accept_ok(4) [OF same(1-3)] accept_locked_head [OF same(1-3), of ready] by simp
  have marked: "base_ok (Some i) (mark_outputs_ready c1)" "i < length (co_slots (mark_outputs_ready c1))"
    "st (mark_outputs_ready c1) i = Reserved"
    using mark_outputs_ready_ok [OF same(1)] same by simp_all
  have accept': "queue_effect (Appended i) c (accept_submission i True (mark_outputs_ready c1))"
    unfolding to_c [symmetric]
    using accept_ok(1-3) [OF marked, of True] accept_ok(4) [OF marked] accept_locked_head [OF marked, of True]
      mark_outputs_ready_ok(2,3) [OF same(1)] mark_ready_locked_head [OF same(1)] by simp
  have broken': "queue_effect Broken c (enter_fatal_state c1)" "queue_effect Broken c (enter_fatal_state c)"
    using broken [OF same(1)] broken [OF base] unfolding to_c by blast+
  let ?b = "update_slot i (\<lambda>s. s\<lparr>sl_busy_retries := size_add (sl_busy_retries s) 1\<rparr>) c1"
  have b_eq: "?b = update_slot i (\<lambda>s. s\<lparr>sl_busy_retries := sl_busy_retries (co_slots c1 ! i) + 1\<rparr>) c1"
    by (simp only: update_slot_def size)
  have b_nth: "sl_busy_retries (co_slots ?b ! i) = sl_busy_retries (co_slots c1 ! i) + 1"
    using same(2) size by (simp add: update_slot_nth)
  note run = call_driver_def [of c i, unfolded Let_def, folded c1_def]
  show thesis
  proof (cases answer)
    case None
    with refused broken' show thesis by (simp add: run del: queue_effect.simps)
  next
    case (Some a)
    show thesis
    proof (cases a)
      case (Inl e)
      with refused broken' Some show thesis by (simp add: run del: queue_effect.simps)
    next
      case (Inr status)
      show thesis
      proof (cases status)
        case Encoder_busy
        show thesis
        proof (cases "sl_busy_retries (co_slots c1 ! i) + 1 > co_maximum_busy_retries c1")
          case True
          have "queue_effect Broken c (enter_fatal_state ?b)"
            unfolding b_eq to_c [symmetric] by (rule busy_broken [OF same(1-3)])
          with refused Some Inr Encoder_busy True b_nth show thesis by (simp add: run del: queue_effect.simps)
        next
          case False
          then have "queue_effect Unchanged c (update_slot i (\<lambda>s. s\<lparr>sl_state := Submit_retry_pending\<rparr>) ?b)"
            unfolding b_eq to_c [symmetric] by (intro retry_unchanged [OF same(1-3) _ same(4)]) simp
          with retry Some Inr Encoder_busy False b_nth show thesis
            by (simp add: run joined_def del: queue_effect.simps)
        qed
      qed (use refused accepted broken' accept accept' Some Inr in
          \<open>simp_all add: run joined_def del: queue_effect.simps\<close>)
    qed
  qed
qed

lemma submit_effect:
  assumes ok: "coordinator_ok c"
  obtains (refused) "queue_effect Unchanged c (snd (submit c request answer))" "\<not> joined (fst (submit c request answer))"
  | (fatal) "queue_effect Broken c (snd (submit c request answer))" "\<not> joined (fst (submit c request answer))"
  | (accepted) "queue_effect (Appended (rq_submission_slot_id request)) c (snd (submit c request answer))"
      "joined (fst (submit c request answer))"
proof -
  let ?i = "rq_submission_slot_id request"
  have unchanged: "queue_effect Unchanged c c" using ok by simp
  show thesis
  proof (cases "\<not> co_fatal c \<and> \<not> co_end_of_stream c \<and> ?i < length (co_slots c) \<and> cv_passed (validate_nvenc_submission request)")
    case False
    then have "snd (submit c request answer) = c" "\<not> joined (fst (submit c request answer))"
      by (auto simp: submit_def joined_def Let_def)
    with refused unchanged show thesis by simp
  next
    case True
    show thesis
    proof (cases "reserve_submission c request")
      case (Inl r)
      then have "\<not> so_passed r" by (auto simp: reserve_submission_def Let_def split: if_splits)
      with refused unchanged True Inl show thesis by (simp add: submit_def joined_def Let_def)
    next
      case (Inr c1)
      note reserved = reserve_ok [OF ok _ Inr]
      have at: "base_ok (Some ?i) c1" "?i < length (co_slots c1)" "st c1 ?i = Reserved" "co_fifo c1 = co_fifo c"
        "co_fatal c1 = co_fatal c" using True reserved by simp_all
      have "head_ok c1"
      proof (cases "co_fifo c")
        case (Cons front rest)
        have "co_end_of_stream c1 = co_end_of_stream c"
          using Inr by (auto simp: reserve_submission_def Let_def split: if_splits)
        moreover have "front \<noteq> ?i" "front < length (co_slots c)"
          using ok Cons at(1,3,4) by (auto simp: coordinator_ok_def base_ok_def order_ok_def)
        moreover from this have "co_slots c1 ! front = co_slots c ! front"
          using Inr by (auto simp: reserve_submission_def Let_def update_slot_nth split: if_splits)
        ultimately show ?thesis using ok Cons at(4) by (simp add: coordinator_ok_def head_ok_def)
      qed (simp add: head_ok_def at)
      have locked: "locked_head c1 = locked_head c"
        using reserved(6) True by (auto simp: locked_head_def at(4) split: list.splits)
      have run: "submit c request answer = call_driver c1 ?i answer"
        using True Inr by (simp add: submit_def Let_def)
      have to_c: "queue_effect e c1 c' = queue_effect e c c'" for e c'
        by (cases e) (simp_all add: at locked)
      show thesis
        by (rule call_driver_effect [OF at(1-3) \<open>head_ok c1\<close>, of answer])
          (use that run to_c in \<open>auto simp: joined_def\<close>)
    qed
  qed
qed

lemma eos_effect: "coordinator_ok c \<Longrightarrow> queue_effect Unchanged c (snd (begin_end_of_stream c))"
proof -
  assume ok: "coordinator_ok c"
  let ?c = "c\<lparr>co_end_of_stream := True\<rparr>"
  have base: "base_ok None ?c"
    using ok by (simp add: coordinator_ok_def base_count)
  note marked = mark_outputs_ready_ok [OF base]
  have "locked_head ?c = locked_head c" by (simp add: locked_head_def split: list.splits)
  with marked ok lockable_ok [OF marked(1)] lockable_locked_head [OF marked(1)] mark_ready_locked_head [OF base]
  show ?thesis by (auto simp: begin_end_of_stream_def Let_def coordinator_ok_def)
qed

lemma fail_effect:
  "coordinator_ok c \<Longrightarrow> queue_effect Unchanged c (snd (coordinator_fail c)) \<or> queue_effect Broken c (snd (coordinator_fail c))"
  using broken [of None c] by (auto simp: coordinator_fail_def coordinator_ok_def)

lemma lock_effect:
  assumes ok: "coordinator_ok c"
  obtains (waits) "begin_bitstream_lock c = (None, c)"
      "\<And>front rest. co_fifo c = front # rest \<Longrightarrow> st c front \<noteq> Bitstream_lockable"
  | (locks) front rest c' where "begin_bitstream_lock c = (Some front, c')" "co_fifo c = front # rest"
      "locked_head c = None" "co_fifo c' = co_fifo c" "locked_head c' = Some front" "coordinator_ok c'"
      "co_fatal c' = co_fatal c" "co_end_of_stream c' = co_end_of_stream c"
proof (cases "co_fifo c")
  case Nil
  then show thesis by (intro waits) (simp_all add: begin_bitstream_lock_def)
next
  case (Cons front rest)
  have front: "front < length (co_slots c)" "front \<notin> set rest" "slot_ok None c front" and base: "base_ok None c"
    using ok Cons by (auto simp: coordinator_ok_def base_ok_def order_ok_def slots_ok_def)
  show thesis
  proof (cases "st c front = Bitstream_lockable")
    case True
    let ?c = "update_slot front (\<lambda>s. s\<lparr>sl_state := Bitstream_locked\<rparr>) c"
    have "base_ok None ?c"
      using base front Cons True
      by (intro base_update) (auto simp: slot_ok_def update_slot_nth output_of_def Let_def)
    moreover have "head_ok ?c" using front Cons by (simp add: head_ok_def update_slot_nth)
    ultimately show thesis
      using front Cons True by (intro locks [of front ?c rest])
        (simp_all add: begin_bitstream_lock_def locked_head_def update_slot_nth coordinator_ok_def)
  qed (use waits Cons in \<open>simp add: begin_bitstream_lock_def\<close>)
qed

text \<open>Clearing a slot that is in no queue (any more).\<close>

lemma cleared_ok:
  assumes base: "base_ok None c" and i: "i < length (co_slots c)"
    and fifo: "fifo = filter (\<lambda>j. j \<noteq> i) (co_fifo c)" "set (tl fifo) \<subseteq> set (tl (co_fifo c))"
  shows "base_ok None ((update_slot i (\<lambda>_. new_slot) c)\<lparr>co_fifo := fifo\<rparr>)" (is "base_ok None ?c")
proof -
  have nth: "co_slots ?c ! j = (if j = i then new_slot else co_slots c ! j)" if "j < length (co_slots c)" for j
    using update_slot_nth [OF that] by simp
  have ok: "slot_ok None c j" if "j < length (co_slots c)" for j
    using base that by (simp add: base_ok_def slots_ok_def)
  have "slot_ok None ?c j" if "j < length (co_slots c)" for j
    using ok [OF that] nth [OF that] by (cases "j = i") (simp_all add: slot_ok_def new_slot_def Let_def)
  then have "slots_ok None ?c" by (simp add: slots_ok_def)
  moreover have "queued (st ?c j) \<longleftrightarrow> j \<in> set fifo" if "j < length (co_slots c)" for j
    using nth [OF that] base that fifo(1) by (cases "j = i") (auto simp: base_ok_def order_ok_def new_slot_def)
  moreover have "distinct fifo" "\<forall>j \<in> set fifo. j < length (co_slots c)"
    using base fifo(1) by (auto simp: base_ok_def order_ok_def)
  moreover have "st ?c j = Submitted_pending_output" if "j \<in> set (tl fifo)" for j
  proof -
    have "j \<noteq> i" using that fifo(1) by (auto dest: in_tl)
    moreover have "j \<in> set (tl (co_fifo c))" using that fifo(2) by blast
    moreover from this have "j < length (co_slots c)" using base by (auto simp: base_ok_def order_ok_def dest: in_tl)
    ultimately show ?thesis using nth [of j] base by (simp add: base_ok_def order_ok_def)
  qed
  ultimately have "order_ok ?c" "slots_ok None ?c" by (simp_all add: order_ok_def)
  moreover have "output_of ?c j = (if j = i then None else output_of c j)" if "j < length (co_slots c)" for j
    using nth [OF that] by (simp add: output_of_def new_slot_def)
  then have "outputs_ok ?c" using base by (auto simp: base_ok_def outputs_ok_def)
  ultimately show ?thesis using base by (simp add: base_ok_def limits_ok_def)
qed

lemma complete_effect:
  assumes ok: "coordinator_ok c"
  obtains (refused) "snd (complete_bitstream c i) = c" "\<not> so_passed (fst (complete_bitstream c i))"
      "locked_head c \<noteq> Some i"
  | (released) rest where "co_fifo c = i # rest" "locked_head c = Some i" "so_passed (fst (complete_bitstream c i))"
      "co_fifo (snd (complete_bitstream c i)) = rest" "locked_head (snd (complete_bitstream c i)) = None"
      "coordinator_ok (snd (complete_bitstream c i))" "co_fatal (snd (complete_bitstream c i)) = co_fatal c"
      "co_end_of_stream (snd (complete_bitstream c i)) = co_end_of_stream c"
proof (cases "locked_head c = Some i")
  case False
  then show thesis
    by (intro refused) (auto simp: complete_bitstream_def locked_head_def split: list.splits if_splits)
next
  case True
  then obtain rest where fifo: "co_fifo c = i # rest" "st c i = Bitstream_locked" by (auto simp: locked_head_some)
  have base: "base_ok None c" and i: "i < length (co_slots c)" "i \<notin> set rest"
    using ok fifo by (auto simp: coordinator_ok_def base_ok_def order_ok_def)
  let ?c = "(update_slot i (\<lambda>_. new_slot) c)\<lparr>co_fifo := rest\<rparr>"
  have "rest = filter (\<lambda>j. j \<noteq> i) (co_fifo c)" using fifo i
    by simp (rule filter_True [symmetric], auto)
  then have c1: "base_ok None ?c" by (rule cleared_ok [OF base i(1)]) (use fifo in \<open>auto dest: in_tl\<close>)
  have pending: "st ?c j = Submitted_pending_output" if "j \<in> set rest" for j
  proof -
    have "j \<noteq> i" "j < length (co_slots c)" "st c j = Submitted_pending_output"
      using that i fifo base by (auto simp: base_ok_def order_ok_def)
    then show ?thesis by (simp add: update_slot_nth)
  qed
  have none: "locked_head ?c = None" using pending by (cases rest) (simp_all add: locked_head_def)
  define c2 where "c2 = (if \<not> co_fatal c then make_fifo_head_lockable ?c else ?c)"
  have run: "complete_bitstream c i = (sub_op True False ''nvenc_bitstream_slot_released'' Sub_free, c2)"
    using fifo by (simp add: complete_bitstream_def Let_def c2_def)
  have fatal_rest: "rest = []" if "co_fatal c"
  proof (rule ccontr)
    assume "rest \<noteq> []"
    then obtain j where "j \<in> set rest" by (cases rest) auto
    moreover from this have "j < length (co_slots c)" "st c j = Submitted_pending_output"
      using fifo base by (auto simp: base_ok_def order_ok_def)
    moreover from this have "slot_ok None c j" using base by (simp add: base_ok_def slots_ok_def)
    ultimately show False using that by (simp add: slot_ok_def Let_def)
  qed
  have "coordinator_ok c2"
    using c1 lockable_ok [OF c1] fatal_rest by (auto simp: c2_def coordinator_ok_def head_ok_def)
  moreover have "locked_head c2 = None" using none lockable_locked_head [OF c1] by (simp add: c2_def)
  ultimately show thesis
    using fifo True run by (intro released [of rest]) (simp_all add: c2_def)
qed

lemma abort_effect:
  assumes ok: "coordinator_ok c"
  shows "queue_effect Unchanged c (snd (confirm_abort c i))"
proof (cases "i < length (co_slots c) \<and> st c i = Abort_pending")
  case True
  have base: "base_ok None c" using ok by (simp add: coordinator_ok_def)
  have i: "i \<notin> set (co_fifo c)" using base True by (auto simp: base_ok_def order_ok_def)
  then have fifo: "co_fifo c = filter (\<lambda>j. j \<noteq> i) (co_fifo c)" by (metis (mono_tags) filter_id_conv)
  let ?c = "update_slot i (\<lambda>_. new_slot) c"
  have "?c\<lparr>co_fifo := co_fifo c\<rparr> = ?c" by simp
  then have "base_ok None ?c" using cleared_ok [OF base _ fifo] True by (metis order_refl)
  moreover have same: "co_slots ?c ! j = co_slots c ! j" if "j \<in> set (co_fifo c)" for j
  proof -
    have "j \<noteq> i" "j < length (co_slots c)" using that i base by (auto simp: base_ok_def order_ok_def)
    then show ?thesis by (simp add: update_slot_nth)
  qed
  moreover have "head_ok ?c" "locked_head ?c = locked_head c"
    using ok same by (cases "co_fifo c"; simp add: coordinator_ok_def head_ok_def locked_head_def)+
  ultimately show ?thesis using True by (simp add: confirm_abort_def coordinator_ok_def)
qed (use ok in \<open>auto simp: confirm_abort_def\<close>)

section \<open>Runs of the coordinator\<close>

datatype coordinator_op =
    C_submit nvenc_submission_request driver_answer
  | C_end_of_stream
  | C_fail
  | C_lock
  | C_complete nat
  | C_abort nat

text \<open>The coordinator with its history: the slots whose submissions the driver accepted, the slots
  handed out for locking and the slots completed, each in order.\<close>

record coordinator_log =
  cl_state :: nvenc_submission_coordinator
  cl_accepted :: "nat list"
  cl_locked :: "nat list"
  cl_completed :: "nat list"

fun coordinator_step :: "coordinator_log \<Rightarrow> coordinator_op \<Rightarrow> coordinator_log" where
  "coordinator_step l (C_submit request answer) =
     l\<lparr>cl_state := snd (submit (cl_state l) request answer),
       cl_accepted := cl_accepted l @
         (if joined (fst (submit (cl_state l) request answer)) then [rq_submission_slot_id request] else [])\<rparr>"
| "coordinator_step l C_end_of_stream = l\<lparr>cl_state := snd (begin_end_of_stream (cl_state l))\<rparr>"
| "coordinator_step l C_fail = l\<lparr>cl_state := snd (coordinator_fail (cl_state l))\<rparr>"
| "coordinator_step l C_lock =
     l\<lparr>cl_state := snd (begin_bitstream_lock (cl_state l)),
       cl_locked := cl_locked l @ (case fst (begin_bitstream_lock (cl_state l)) of None \<Rightarrow> [] | Some i \<Rightarrow> [i])\<rparr>"
| "coordinator_step l (C_complete i) =
     l\<lparr>cl_state := snd (complete_bitstream (cl_state l) i),
       cl_completed := cl_completed l @ (if so_passed (fst (complete_bitstream (cl_state l) i)) then [i] else [])\<rparr>"
| "coordinator_step l (C_abort i) = l\<lparr>cl_state := snd (confirm_abort (cl_state l) i)\<rparr>"

definition locked_list :: "nvenc_submission_coordinator \<Rightarrow> nat list" where
  "locked_list c = (case locked_head c of None \<Rightarrow> [] | Some i \<Rightarrow> [i])"

lemma locked_list_prefix: "prefix (locked_list c) (co_fifo c)"
  by (auto simp: locked_list_def locked_head_def split: list.splits)

lemma locked_list_accepted: "prefix (xs @ co_fifo c) ys \<Longrightarrow> prefix (xs @ locked_list c) ys"
  using locked_list_prefix [of c] prefix_order.trans [of "xs @ locked_list c" "xs @ co_fifo c" ys] by simp

definition fifo_log_ok :: "coordinator_log \<Rightarrow> bool" where
  "fifo_log_ok l =
     (coordinator_ok (cl_state l) \<and> prefix (cl_completed l @ co_fifo (cl_state l)) (cl_accepted l) \<and>
      (\<not> co_fatal (cl_state l) \<longrightarrow> cl_accepted l = cl_completed l @ co_fifo (cl_state l)) \<and>
      cl_locked l = cl_completed l @ locked_list (cl_state l))"

lemma log_unchanged:
  "fifo_log_ok l \<Longrightarrow> queue_effect Unchanged (cl_state l) c \<Longrightarrow> fifo_log_ok (l\<lparr>cl_state := c\<rparr>)"
  by (simp add: fifo_log_ok_def locked_list_def)

lemma log_broken:
  assumes "fifo_log_ok l" "queue_effect Broken (cl_state l) c"
  shows "fifo_log_ok (l\<lparr>cl_state := c\<rparr>)"
proof -
  have "co_fifo c = locked_list (cl_state l)" "locked_list c = locked_list (cl_state l)"
    using assms(2) by (simp_all add: locked_list_def)
  moreover have "prefix (cl_completed l @ locked_list (cl_state l)) (cl_accepted l)"
    using assms(1) by (simp add: fifo_log_ok_def locked_list_accepted)
  moreover have "coordinator_ok c" "co_fatal c" using assms(2) by simp_all
  ultimately show ?thesis using assms(1) by (simp add: fifo_log_ok_def)
qed

lemma coordinator_step_ok: "fifo_log_ok l \<Longrightarrow> fifo_log_ok (coordinator_step l op)"
proof -
  assume log: "fifo_log_ok l"
  let ?c = "cl_state l"
  have ok: "coordinator_ok ?c" using log by (simp add: fifo_log_ok_def)
  show ?thesis
  proof (cases op)
    case (C_submit request answer)
    from ok show ?thesis
    proof (cases rule: submit_effect [of ?c request answer])
      case accepted
      then show ?thesis
        using log C_submit by (simp add: fifo_log_ok_def locked_list_def)
    qed (use log_unchanged [OF log] log_broken [OF log] C_submit in \<open>simp_all del: queue_effect.simps\<close>)
  next
    case C_lock
    from ok show ?thesis
    proof (cases rule: lock_effect)
      case waits
      with log C_lock show ?thesis by simp
    next
      case (locks front rest c')
      with log C_lock show ?thesis by (simp add: fifo_log_ok_def locked_list_def)
    qed
  next
    case (C_complete i)
    from ok show ?thesis
    proof (cases rule: complete_effect [of ?c i])
      case refused
      with log C_complete show ?thesis by simp
    next
      case (released rest)
      with log C_complete show ?thesis by (simp add: fifo_log_ok_def locked_list_def)
    qed
  qed (use log_unchanged [OF log] log_broken [OF log] eos_effect [OF ok] fail_effect [OF ok] abort_effect [OF ok]
      in \<open>auto simp del: queue_effect.simps\<close>)
qed

interpretation coordinator: safe_machine coordinator_step fifo_log_ok
  by unfold_locales (rule coordinator_step_ok)

interpretation coordinator_fatal: latched_machine coordinator_step fifo_log_ok "\<lambda>l. co_fatal (cl_state l)"
proof unfold_locales
  fix l op
  assume log: "fifo_log_ok l" and fatal: "co_fatal (cl_state l)"
  then have ok: "coordinator_ok (cl_state l)" by (simp add: fifo_log_ok_def)
  show "co_fatal (cl_state (coordinator_step l op))"
  proof (cases op)
    case C_lock
    from ok show ?thesis using fatal C_lock by (cases rule: lock_effect) simp_all
  next
    case (C_complete i)
    from ok show ?thesis using fatal C_complete by (cases rule: complete_effect [of "cl_state l" i]) simp_all
  qed (use fatal abort_effect [OF ok] in \<open>simp_all add: submit_def begin_end_of_stream_def coordinator_fail_def\<close>)
qed

definition new_log :: "nvenc_submission_coordinator \<Rightarrow> coordinator_log" where
  "new_log c = \<lparr>cl_state = c, cl_accepted = [], cl_locked = [], cl_completed = []\<rparr>"

lemma make_coordinator_ok:
  assumes "make_coordinator capacity busy = Inr c"
  shows "fifo_log_ok (new_log c)"
  using assms by (auto simp: make_coordinator_def fifo_log_ok_def new_log_def coordinator_ok_def base_ok_def
      limits_ok_def slots_ok_def slot_ok_def order_ok_def outputs_ok_def output_of_def head_ok_def
      locked_list_def locked_head_def new_slot_def Let_def split: if_splits)

text \<open>C5 (refinement). The coordinator is a queue: over any sequence of submissions, completions,
  failures and aborts, whatever the driver answers, bitstreams are handed out for locking in
  exactly the order in which the driver accepted the submissions, one at a time, each after the
  previous one was completed; until a fatal error none is lost, and after it none is handed out
  out of order.\<close>

theorem bitstreams_in_submission_order:
  fixes ops :: "coordinator_op list"
  assumes "make_coordinator capacity busy = Inr c"
  defines "l \<equiv> foldl coordinator_step (new_log c) ops"
  shows "prefix (cl_completed l) (cl_locked l) \<and> prefix (cl_locked l) (cl_accepted l) \<and>
         length (cl_locked l) \<le> length (cl_completed l) + 1 \<and>
         (if co_fatal (cl_state l) then length (co_fifo (cl_state l)) \<le> 1
          else cl_accepted l = cl_completed l @ co_fifo (cl_state l))"
proof -
  have log: "fifo_log_ok l"
    unfolding l_def by (rule coordinator.run_inv [OF make_coordinator_ok [OF assms(1)]])
  have "prefix (cl_locked l) (cl_accepted l)"
    using log by (simp add: fifo_log_ok_def locked_list_accepted)
  moreover have "length (co_fifo (cl_state l)) \<le> 1" if "co_fatal (cl_state l)"
  proof (cases "co_fifo (cl_state l)")
    case (Cons front rest)
    have "rest = []"
    proof (rule ccontr)
      assume "rest \<noteq> []"
      then obtain j where "j \<in> set rest" by (cases rest) auto
      then have "j < length (co_slots (cl_state l))" "st (cl_state l) j = Submitted_pending_output"
        "slots_ok None (cl_state l)"
        using log Cons by (auto simp: fifo_log_ok_def coordinator_ok_def base_ok_def order_ok_def)
      with that show False by (auto simp: slots_ok_def slot_ok_def Let_def)
    qed
    with Cons show ?thesis by simp
  qed simp
  moreover have "length (cl_locked l) \<le> length (cl_completed l) + 1"
    using log by (simp add: fifo_log_ok_def locked_list_def split: option.splits)
  ultimately show ?thesis using log by (auto simp: fifo_log_ok_def)
qed

definition sample_coordinator :: nvenc_submission_coordinator where
  "sample_coordinator =
     \<lparr>co_slots = [new_slot, new_slot], co_fifo = [], co_last_sequence = None, co_driver_call_count = 0,
      co_maximum_busy_retries = 100, co_end_of_stream = False, co_fatal = False\<rparr>"

lemma make_sample_coordinator: "make_coordinator 2 100 = Inr sample_coordinator"
  by (simp add: make_coordinator_def sample_coordinator_def numeral_2_eq_2)

theorem bitstreams_in_submission_order_witness:
  "prefix (cl_locked (foldl coordinator_step (new_log sample_coordinator)
       [C_submit (sample_request 0 1) (Some (Inr Submit_success)), C_lock, C_fail]))
     (cl_accepted (foldl coordinator_step (new_log sample_coordinator)
       [C_submit (sample_request 0 1) (Some (Inr Submit_success)), C_lock, C_fail]))"
  using bitstreams_in_submission_order [OF make_sample_coordinator] by blast

text \<open>Over any run of a new coordinator: the queue lists exactly the submissions
  in flight and only its head can be lockable or locked, a head whose output is ready is always
  lockable, no slot is left reserved, no two occupied slots own the same output bitstream, busy
  retries stay within their bound, only a fatal coordinator has slots to abort, and once fatal it
  stays fatal.\<close>

lemma coordinator_invariant:
  assumes "make_coordinator capacity busy = Inr c"
  shows "coordinator_ok (cl_state (foldl coordinator_step (new_log c) ops)) \<and>
    (co_fatal (cl_state (foldl coordinator_step (new_log c) ops)) \<longrightarrow>
     co_fatal (cl_state (foldl coordinator_step (new_log c) (ops @ later))))"
proof -
  let ?l = "foldl coordinator_step (new_log c) ops"
  have log: "fifo_log_ok ?l" by (rule coordinator.run_inv [OF make_coordinator_ok [OF assms]])
  then show ?thesis
    using coordinator_fatal.run_latched [OF log, of later] by (simp add: fifo_log_ok_def)
qed

lemma coordinator_invariant_witness:
  "coordinator_ok (cl_state (foldl coordinator_step (new_log sample_coordinator)
     [C_submit (sample_request 0 1) (Some (Inr Encoder_busy)), C_end_of_stream]))"
  using coordinator_invariant [OF make_sample_coordinator] by blast

section \<open>Draining\<close>

text \<open>The consumer after the end of the stream: it completes the bitstream it holds, if any, then locks
  the head and completes it until nothing is lockable.\<close>

fun drain :: "nat \<Rightarrow> nvenc_submission_coordinator \<Rightarrow> nat list \<times> nvenc_submission_coordinator" where
  "drain 0 c = ([], c)"
| "drain (Suc rounds) c =
     (case begin_bitstream_lock c of
        (None, c) \<Rightarrow> ([], c)
      | (Some i, c) \<Rightarrow> (case drain rounds (snd (complete_bitstream c i)) of (done_slots, c) \<Rightarrow> (i # done_slots, c)))"

definition finish_held :: "nvenc_submission_coordinator \<Rightarrow> nat list \<times> nvenc_submission_coordinator" where
  "finish_held c = (case locked_head c of None \<Rightarrow> ([], c) | Some i \<Rightarrow> ([i], snd (complete_bitstream c i)))"

definition consume :: "nat \<Rightarrow> nvenc_submission_coordinator \<Rightarrow> nat list \<times> nvenc_submission_coordinator" where
  "consume rounds c =
     (case finish_held c of (held, c) \<Rightarrow> case drain rounds c of (done_slots, c) \<Rightarrow> (held @ done_slots, c))"

lemma drain_empties:
  "coordinator_ok c \<Longrightarrow> \<not> co_fatal c \<Longrightarrow> co_end_of_stream c \<Longrightarrow> locked_head c = None \<Longrightarrow> length (co_fifo c) \<le> rounds \<Longrightarrow>
   \<exists>c'. drain rounds c = (co_fifo c, c') \<and> coordinator_ok c' \<and> co_fifo c' = []"
proof (induction "co_fifo c" arbitrary: c rounds)
  case Nil
  then have "begin_bitstream_lock c = (None, c)" by (simp add: begin_bitstream_lock_def)
  with Nil show ?case by (cases rounds) simp_all
next
  case (Cons front rest)
  note fifo = Cons.hyps(2) [symmetric]
  obtain more where rounds: "rounds = Suc more" "length rest \<le> more" using Cons.prems(5) fifo by (cases rounds) auto
  have parts: "order_ok c" "head_ok c" using Cons.prems(1) by (simp_all add: coordinator_ok_def base_ok_def)
  have "queued (st c front)" using parts(1) by (simp add: order_ok_def fifo)
  moreover have "st c front \<noteq> Submitted_pending_output" using parts(2) Cons.prems(3) by (auto simp: head_ok_def fifo)
  moreover have "st c front \<noteq> Bitstream_locked" using Cons.prems(4) by (simp add: locked_head_def fifo split: if_splits)
  ultimately have lockable: "st c front = Bitstream_lockable" by (simp add: queued_def)
  from Cons.prems(1) show ?case
  proof (cases rule: lock_effect)
    case waits
    from waits(2) [OF fifo] lockable show ?thesis by blast
  next
    case (locks i behind c1)
    have i: "i = front" "behind = rest" using locks(2) fifo by simp_all
    from \<open>coordinator_ok c1\<close> show ?thesis
    proof (cases rule: complete_effect [of c1 i])
      case refused
      from refused(3) locks(5) show ?thesis by simp
    next
      case (released rest')
      let ?c2 = "snd (complete_bitstream c1 i)"
      have c2: "rest = co_fifo ?c2" "\<not> co_fatal ?c2" "co_end_of_stream ?c2"
        using released(1,4,7,8) locks(4,7,8) i(2) Cons.prems(2,3) fifo by simp_all
      from Cons.hyps(1) [OF c2(1) released(6) c2(2,3) released(5)] rounds(2) obtain c'
        where "drain more ?c2 = (rest, c')" "coordinator_ok c'" "co_fifo c' = []" by (auto simp: c2(1))
      then show ?thesis using locks(1) i by (simp add: fifo rounds(1))
    qed
  qed
qed

lemma consume_empties:
  assumes "coordinator_ok c" "\<not> co_fatal c" "co_end_of_stream c" "length (co_fifo c) \<le> rounds"
  shows "\<exists>c'. consume rounds c = (co_fifo c, c') \<and> coordinator_ok c' \<and> co_fifo c' = []"
proof (cases "locked_head c")
  case None
  with drain_empties [OF assms(1-3) None assms(4)] show ?thesis by (auto simp: consume_def finish_held_def)
next
  case (Some i)
  from assms(1) show ?thesis
  proof (cases rule: complete_effect [of c i])
    case refused
    with Some show ?thesis by simp
  next
    case (released rest)
    let ?c = "snd (complete_bitstream c i)"
    have "length (co_fifo ?c) \<le> rounds" using assms(4) released(1,4) by simp
    with drain_empties [of ?c rounds] released assms(2,3) Some show ?thesis
      by (auto simp: consume_def finish_held_def)
  qed
qed

lemma eos_stream: "\<not> co_fatal c \<Longrightarrow> co_end_of_stream (snd (begin_end_of_stream c))"
proof -
  have "co_end_of_stream (foldl (\<lambda>c i. update_slot i (\<lambda>s. s\<lparr>sl_output_ready := True\<rparr>) c) d is) = co_end_of_stream d"
    for d "is" by (induction "is" arbitrary: d) simp_all
  then show "\<not> co_fatal c \<Longrightarrow> co_end_of_stream (snd (begin_end_of_stream c))"
    by (simp add: begin_end_of_stream_def Let_def mark_outputs_ready_def)
qed

text \<open>C30 (liveness). The end of the stream drains. After any run of a coordinator that did not end in
  a fatal error, whether or not the end of the stream was begun in it and whether or not a bitstream
  is locked, the consumer that after begin_end_of_stream completes the bitstream it holds, if any,
  and then repeatedly locks and completes the head gets every submission in flight, in the order of
  the queue, in as many rounds as there are submissions in flight, and leaves nothing in flight.\<close>

theorem end_of_stream_drains:
  assumes "make_coordinator capacity busy = Inr c0"
    and "c = cl_state (foldl coordinator_step (new_log c0) ops)"
    and "\<not> co_fatal c" "length (co_fifo c) \<le> rounds"
  shows "\<exists>c'. consume rounds (snd (begin_end_of_stream c)) = (co_fifo c, c') \<and> co_fifo c' = [] \<and>
           list_all (\<lambda>s. \<not> queued (sl_state s)) (co_slots c')"
proof -
  have "fifo_log_ok (foldl coordinator_step (new_log c0) ops)"
    by (rule coordinator.run_inv [OF make_coordinator_ok [OF assms(1)]])
  then have ok: "coordinator_ok c" by (simp add: fifo_log_ok_def assms(2))
  let ?c = "snd (begin_end_of_stream c)"
  from eos_effect [OF ok] eos_stream [OF assms(3)] assms(3,4) consume_empties [of ?c rounds]
  obtain c' where c': "consume rounds ?c = (co_fifo c, c')" "coordinator_ok c'" "co_fifo c' = []" by auto
  then have "list_all (\<lambda>s. \<not> queued (sl_state s)) (co_slots c')"
    by (auto simp: coordinator_ok_def base_ok_def order_ok_def list_all_length)
  with c' show ?thesis by blast
qed

text \<open>Two submissions, the first one with its bitstream locked and the second still waiting for output.\<close>

definition sample_run :: "coordinator_op list" where
  "sample_run = [C_submit (sample_request 0 1) (Some (Inr Submit_success)), C_lock,
     C_submit (sample_request 1 7) (Some (Inr Need_more_input))]"

definition sample_busy :: nvenc_submission_coordinator where
  "sample_busy = cl_state (foldl coordinator_step (new_log sample_coordinator) sample_run)"

lemma sample_busy_facts: "co_fifo sample_busy = [0, 1]" "\<not> co_fatal sample_busy" "locked_head sample_busy = Some 0"
proof -
  let ?locked = "new_slot\<lparr>sl_state := Bitstream_locked, sl_output_ready := True, sl_fingerprint := Some (fingerprint (sample_request 0 1))\<rparr>"
  let ?b = "sample_coordinator\<lparr>co_slots := [new_slot\<lparr>sl_output_ready := True,
        sl_fingerprint := Some (fingerprint (sample_request 0 1)), sl_state := Bitstream_lockable\<rparr>, new_slot], co_fifo := [0],
        co_last_sequence := Some 1, co_driver_call_count := 1\<rparr>"
  have first: "snd (submit sample_coordinator (sample_request 0 1) (Some (Inr Submit_success))) = ?b"
    using sample_request_valid [of 1 0]
    by (simp add: submit_def Let_def reserve_submission_def call_driver_def sample_coordinator_def output_in_use_def
        update_slot_def new_slot_def) (simp add: sample_request_def accept_submission_def update_slot_def make_fifo_head_lockable_def mark_outputs_ready_def Let_def)
  let ?c = "sample_coordinator\<lparr>co_slots := [?locked, new_slot], co_fifo := [0], co_last_sequence := Some 1,
        co_driver_call_count := 1\<rparr>"
  have later: "\<not> (7 :: u64) \<le> 1" by (simp add: word_le_nat_alt)
  have second: "snd (submit ?c (sample_request 1 7) (Some (Inr Need_more_input))) =
      ?c\<lparr>co_slots := [?locked, new_slot\<lparr>sl_state := Submitted_pending_output,
          sl_fingerprint := Some (fingerprint (sample_request 1 7))\<rparr>], co_fifo := [0, 1],
        co_last_sequence := Some 7, co_driver_call_count := 2\<rparr>"
    using sample_request_valid [of 7 1] later
    by (simp add: submit_def Let_def reserve_submission_def call_driver_def sample_coordinator_def output_in_use_def
        update_slot_def new_slot_def fingerprint_def) (simp add: sample_request_def accept_submission_def update_slot_def make_fifo_head_lockable_def mark_outputs_ready_def Let_def)
  have lock: "snd (begin_bitstream_lock ?b) = ?c"
    by (simp add: begin_bitstream_lock_def update_slot_def)
  have eq: "sample_busy = snd (submit ?c (sample_request 1 7) (Some (Inr Need_more_input)))"
    unfolding sample_busy_def sample_run_def by (simp only: foldl.simps coordinator_step.simps) (simp add: new_log_def first lock del: One_nat_def)
  show "co_fifo sample_busy = [0, 1]" "\<not> co_fatal sample_busy" "locked_head sample_busy = Some 0"
    unfolding eq second by (simp_all add: locked_head_def sample_coordinator_def)
qed

theorem end_of_stream_drains_witness:
  "locked_head sample_busy = Some 0 \<and>
   (\<exists>c'. consume 2 (snd (begin_end_of_stream sample_busy)) = ([0, 1], c') \<and> co_fifo c' = [] \<and>
      list_all (\<lambda>s. \<not> queued (sl_state s)) (co_slots c'))"
  using end_of_stream_drains [OF make_sample_coordinator sample_busy_def sample_busy_facts(2), of 2] sample_busy_facts(1,3)
  by simp

end
