(* ===== verification/Preprocess_Pool.thy ===== *)
theory Preprocess_Pool
  imports Gpu_Contracts
begin

text \<open>
  \<open>PreprocessOwnershipRing\<close> (\<^verbatim>\<open>src/gpu/preprocess_pool.cpp\<close>): which frame owns which packed RGB
  source and which NV12 surface on the device, and in which stage of its life cycle each is. A
  slot remembers the allocation it was first used with; a reservation is refused when its memory
  would overlap any other registered memory. The states are those of \<open>Gpu_Contracts\<close>.
\<close>

section \<open>Model\<close>

text \<open>Addresses and sizes meet in one sum, so both are 64-bit words here.\<close>

record device_allocation_range =
  ar_begin :: u64
  ar_byte_size :: u64

record preprocess_slot_token =
  tk_source_slot :: nat
  tk_surface_slot :: nat
  tk_frame_id :: u64
  tk_geometry_epoch :: u64

record preprocess_pool_operation =
  po_passed :: bool
  po_reason :: string
  po_token :: preprocess_slot_token

definition no_token :: preprocess_slot_token where
  "no_token = \<lparr>tk_source_slot = 0, tk_surface_slot = 0, tk_frame_id = 0, tk_geometry_epoch = 0\<rparr>"

definition pool_op :: "bool \<Rightarrow> string \<Rightarrow> preprocess_slot_token \<Rightarrow> preprocess_pool_operation" where
  "pool_op passed reason token = \<lparr>po_passed = passed, po_reason = reason, po_token = token\<rparr>"

lemma pool_op_simps [simp]:
  "po_passed (pool_op b r t) = b" "po_reason (pool_op b r t) = r" "po_token (pool_op b r t) = t"
  by (simp_all add: pool_op_def)

record preprocess_pool_diagnostics =
  pd_source_capacity :: nat
  pd_surface_capacity :: nat
  pd_active_sources :: nat
  pd_active_surfaces :: nat
  pd_reservations :: u64
  pd_rejected :: u64
  pd_admission_open :: bool

record slot_owner =
  ow_frame_id :: u64
  ow_geometry_epoch :: u64

definition no_owner :: slot_owner where
  "no_owner = \<lparr>ow_frame_id = 0, ow_geometry_epoch = 0\<rparr>"

definition owner_matches :: "slot_owner \<Rightarrow> preprocess_slot_token \<Rightarrow> bool" where
  "owner_matches owner token =
     (ow_frame_id owner = tk_frame_id token \<and> ow_geometry_epoch owner = tk_geometry_epoch token)"

text \<open>\<open>SourceSlot\<close> and \<open>SurfaceSlot\<close> differ only in the type of their state.\<close>

record 'st pool_slot =
  ps_state :: 'st
  ps_allocation :: "device_allocation_range option"
  ps_owner :: slot_owner

type_synonym source_slot = "device_source_state pool_slot"
type_synonym surface_slot = "encoder_surface_state pool_slot"

record preprocess_ownership_ring =
  pr_sources :: "source_slot list"
  pr_surfaces :: "surface_slot list"
  pr_reservations :: u64
  pr_rejected :: u64
  pr_admission_open :: bool

definition range_valid :: "device_allocation_range \<Rightarrow> bool" where
  "range_valid r = (ar_begin r \<noteq> 0 \<and> ar_byte_size r \<noteq> 0 \<and> ar_byte_size r \<le> - 1 - ar_begin r)"

definition device_ranges_overlap :: "device_allocation_range \<Rightarrow> device_allocation_range \<Rightarrow> bool" where
  "device_ranges_overlap left right =
     (if \<not> range_valid left \<or> \<not> range_valid right then True
      else ar_begin left < ar_begin right + ar_byte_size right \<and>
           ar_begin right < ar_begin left + ar_byte_size left)"

fun compatible_free_slot ::
  "'st \<Rightarrow> device_allocation_range \<Rightarrow> nat \<Rightarrow> 'st pool_slot list \<Rightarrow> nat option" where
  "compatible_free_slot free_state allocation index [] = None"
| "compatible_free_slot free_state allocation index (slot # rest) =
     (if ps_state slot = free_state \<and> (ps_allocation slot = None \<or> ps_allocation slot = Some allocation)
      then Some index else compatible_free_slot free_state allocation (Suc index) rest)"

definition make_ring :: "nat \<Rightarrow> nat \<Rightarrow> exn + preprocess_ownership_ring" where
  "make_ring source_capacity surface_capacity =
     (if source_capacity = 0 \<or> source_capacity > 64 \<or> surface_capacity = 0 \<or> surface_capacity > 64
        then Inl (Invalid_argument ''preprocess pool capacity is invalid'')
      else Inr \<lparr>pr_sources = replicate source_capacity
                   \<lparr>ps_state = Source_free, ps_allocation = None, ps_owner = no_owner\<rparr>,
                pr_surfaces = replicate surface_capacity
                   \<lparr>ps_state = Surface_free, ps_allocation = None, ps_owner = no_owner\<rparr>,
                pr_reservations = 0, pr_rejected = 0, pr_admission_open = True\<rparr>)"

text \<open>The two loops over the registered allocations: any slot, and any slot but one.\<close>

definition overlaps_some :: "device_allocation_range \<Rightarrow> 'st pool_slot list \<Rightarrow> bool" where
  "overlaps_some memory slots =
     list_ex (\<lambda>slot. case ps_allocation slot of None \<Rightarrow> False | Some a \<Rightarrow> device_ranges_overlap a memory) slots"

definition overlaps_other :: "nat \<Rightarrow> device_allocation_range \<Rightarrow> 'st pool_slot list \<Rightarrow> bool" where
  "overlaps_other chosen memory slots =
     list_ex (\<lambda>(index, slot). case ps_allocation slot of None \<Rightarrow> False
        | Some a \<Rightarrow> index \<noteq> chosen \<and> device_ranges_overlap a memory) (enumerate 0 slots)"

definition ring_reject ::
  "string \<Rightarrow> preprocess_ownership_ring \<Rightarrow> preprocess_pool_operation \<times> preprocess_ownership_ring" where
  "ring_reject reason p = (pool_op False reason no_token, p\<lparr>pr_rejected := pr_rejected p + 1\<rparr>)"

definition reserve ::
  "preprocess_ownership_ring \<Rightarrow> u64 \<Rightarrow> u64 \<Rightarrow> device_allocation_range \<Rightarrow> device_allocation_range \<Rightarrow>
   preprocess_pool_operation \<times> preprocess_ownership_ring" where
  "reserve p frame_id geometry_epoch packed_rgb_source nv12_surface =
     (if \<not> pr_admission_open p then ring_reject ''preprocess_admission_closed'' p
      else if frame_id = 0 \<or> geometry_epoch = 0 then ring_reject ''preprocess_identity_invalid'' p
      else if \<not> range_valid packed_rgb_source \<or> \<not> range_valid nv12_surface
        then ring_reject ''preprocess_device_allocation_invalid'' p
      else if device_ranges_overlap packed_rgb_source nv12_surface
        then ring_reject ''preprocess_source_surface_alias'' p
      else if overlaps_some nv12_surface (pr_sources p) then ring_reject ''preprocess_source_surface_alias'' p
      else if overlaps_some packed_rgb_source (pr_surfaces p)
        then ring_reject ''preprocess_source_surface_alias'' p
      else case (compatible_free_slot Source_free packed_rgb_source 0 (pr_sources p),
                 compatible_free_slot Surface_free nv12_surface 0 (pr_surfaces p)) of
        (Some source_slot, Some surface_slot) \<Rightarrow>
          if overlaps_other source_slot packed_rgb_source (pr_sources p)
            then ring_reject ''preprocess_source_allocation_alias'' p
          else if overlaps_other surface_slot nv12_surface (pr_surfaces p)
            then ring_reject ''preprocess_surface_allocation_alias'' p
          else
            let owner = \<lparr>ow_frame_id = frame_id, ow_geometry_epoch = geometry_epoch\<rparr>
            in (pool_op True ''preprocess_slots_reserved''
                  \<lparr>tk_source_slot = source_slot, tk_surface_slot = surface_slot,
                   tk_frame_id = frame_id, tk_geometry_epoch = geometry_epoch\<rparr>,
                p\<lparr>pr_sources := (pr_sources p)[source_slot :=
                     \<lparr>ps_state = Host_to_device_pending, ps_allocation = Some packed_rgb_source, ps_owner = owner\<rparr>],
                  pr_surfaces := (pr_surfaces p)[surface_slot :=
                     \<lparr>ps_state = Cuda_writing, ps_allocation = Some nv12_surface, ps_owner = owner\<rparr>],
                  pr_reservations := pr_reservations p + 1\<rparr>)
      | _ \<Rightarrow> ring_reject ''preprocess_pool_exhausted_or_allocation_unregistered'' p)"

definition source_upload_complete ::
  "preprocess_ownership_ring \<Rightarrow> preprocess_slot_token \<Rightarrow> preprocess_pool_operation \<times> preprocess_ownership_ring"
where
  "source_upload_complete p token =
     (if tk_source_slot token \<ge> length (pr_sources p)
        then (pool_op False ''preprocess_source_slot_out_of_range'' token, p)
      else let slot = pr_sources p ! tk_source_slot token in
      if \<not> owner_matches (ps_owner slot) token \<or> ps_state slot \<noteq> Host_to_device_pending
        then (pool_op False ''preprocess_source_upload_transition_invalid'' token, p)
      else (pool_op True ''preprocess_source_read_pending'' token,
            p\<lparr>pr_sources := (pr_sources p)[tk_source_slot token := slot\<lparr>ps_state := Cuda_source_read_pending\<rparr>]\<rparr>))"

definition source_read_complete ::
  "preprocess_ownership_ring \<Rightarrow> preprocess_slot_token \<Rightarrow> preprocess_pool_operation \<times> preprocess_ownership_ring"
where
  "source_read_complete p token =
     (if tk_source_slot token \<ge> length (pr_sources p)
        then (pool_op False ''preprocess_source_slot_out_of_range'' token, p)
      else let slot = pr_sources p ! tk_source_slot token in
      if \<not> owner_matches (ps_owner slot) token \<or> ps_state slot \<noteq> Cuda_source_read_pending
        then (pool_op False ''preprocess_source_read_completion_invalid'' token, p)
      else (pool_op True ''preprocess_source_released'' token,
            p\<lparr>pr_sources := (pr_sources p)[tk_source_slot token :=
                 slot\<lparr>ps_state := Source_free, ps_owner := no_owner\<rparr>]\<rparr>))"

text \<open>The five surface operations have one shape: the owner and the stage are checked, then the
  stage moves on. The last one also clears the owner.\<close>

definition surface_stage ::
  "encoder_surface_state \<Rightarrow> string \<Rightarrow> encoder_surface_state \<Rightarrow> string \<Rightarrow>
   preprocess_ownership_ring \<Rightarrow> preprocess_slot_token \<Rightarrow> preprocess_pool_operation \<times> preprocess_ownership_ring"
where
  "surface_stage before refusal after reached p token =
     (if tk_surface_slot token \<ge> length (pr_surfaces p)
        then (pool_op False ''preprocess_surface_slot_out_of_range'' token, p)
      else let slot = pr_surfaces p ! tk_surface_slot token in
      if \<not> owner_matches (ps_owner slot) token \<or> ps_state slot \<noteq> before
        then (pool_op False refusal token, p)
      else (pool_op True reached token,
            p\<lparr>pr_surfaces := (pr_surfaces p)[tk_surface_slot token := slot\<lparr>ps_state := after\<rparr>]\<rparr>))"

definition map_copy_pending ::
  "preprocess_ownership_ring \<Rightarrow> preprocess_slot_token \<Rightarrow> preprocess_pool_operation \<times> preprocess_ownership_ring"
where
  "map_copy_pending =
     surface_stage Cuda_writing ''preprocess_map_copy_transition_invalid''
       Map_copy_pending ''preprocess_map_copy_pending''"

definition ready_to_submit ::
  "preprocess_ownership_ring \<Rightarrow> preprocess_slot_token \<Rightarrow> preprocess_pool_operation \<times> preprocess_ownership_ring"
where
  "ready_to_submit =
     surface_stage Map_copy_pending ''preprocess_ready_transition_invalid''
       Ready_to_submit ''preprocess_ready_to_submit''"

definition surface_submitted ::
  "preprocess_ownership_ring \<Rightarrow> preprocess_slot_token \<Rightarrow> preprocess_pool_operation \<times> preprocess_ownership_ring"
where
  "surface_submitted =
     surface_stage Ready_to_submit ''preprocess_submit_transition_invalid''
       Submitted ''preprocess_surface_submitted''"

definition encoder_input_released ::
  "preprocess_ownership_ring \<Rightarrow> preprocess_slot_token \<Rightarrow> preprocess_pool_operation \<times> preprocess_ownership_ring"
where
  "encoder_input_released =
     surface_stage Submitted ''preprocess_encoder_release_transition_invalid''
       Encoder_input_released ''preprocess_encoder_input_released''"

definition release_surface ::
  "preprocess_ownership_ring \<Rightarrow> preprocess_slot_token \<Rightarrow> preprocess_pool_operation \<times> preprocess_ownership_ring"
where
  "release_surface p token =
     (if tk_surface_slot token \<ge> length (pr_surfaces p)
        then (pool_op False ''preprocess_surface_slot_out_of_range'' token, p)
      else let slot = pr_surfaces p ! tk_surface_slot token in
      if \<not> owner_matches (ps_owner slot) token \<or> ps_state slot \<noteq> Encoder_input_released
        then (pool_op False ''preprocess_surface_release_transition_invalid'' token, p)
      else (pool_op True ''preprocess_surface_released'' token,
            p\<lparr>pr_surfaces := (pr_surfaces p)[tk_surface_slot token :=
                 slot\<lparr>ps_state := Surface_free, ps_owner := no_owner\<rparr>]\<rparr>))"

definition ring_abort ::
  "preprocess_ownership_ring \<Rightarrow> preprocess_slot_token \<Rightarrow> preprocess_pool_operation \<times> preprocess_ownership_ring"
where
  "ring_abort p token =
     (if tk_source_slot token \<ge> length (pr_sources p) \<or> tk_surface_slot token \<ge> length (pr_surfaces p)
        then (pool_op False ''preprocess_abort_slot_out_of_range'' token, p)
      else
        let source = pr_sources p ! tk_source_slot token;
            surface = pr_surfaces p ! tk_surface_slot token;
            source_owned = (ps_state source \<noteq> Source_free \<and> owner_matches (ps_owner source) token);
            surface_owned = (ps_state surface \<noteq> Surface_free \<and> owner_matches (ps_owner surface) token)
        in if \<not> source_owned \<and> \<not> surface_owned
             then (pool_op False ''preprocess_abort_owner_mismatch'' token, p)
           else (pool_op True ''preprocess_slots_aborted'' token,
                 p\<lparr>pr_sources := (if source_owned
                      then (pr_sources p)[tk_source_slot token := source\<lparr>ps_state := Source_free, ps_owner := no_owner\<rparr>]
                      else pr_sources p),
                   pr_surfaces := (if surface_owned
                      then (pr_surfaces p)[tk_surface_slot token := surface\<lparr>ps_state := Surface_free, ps_owner := no_owner\<rparr>]
                      else pr_surfaces p)\<rparr>))"

definition close_admission :: "preprocess_ownership_ring \<Rightarrow> preprocess_ownership_ring" where
  "close_admission p = p\<lparr>pr_admission_open := False\<rparr>"

definition source_state :: "preprocess_ownership_ring \<Rightarrow> nat \<Rightarrow> device_source_state" where
  "source_state p slot = (if slot < length (pr_sources p) then ps_state (pr_sources p ! slot) else Source_free)"

definition surface_state :: "preprocess_ownership_ring \<Rightarrow> nat \<Rightarrow> encoder_surface_state" where
  "surface_state p slot = (if slot < length (pr_surfaces p) then ps_state (pr_surfaces p ! slot) else Surface_free)"

definition ring_diagnostics :: "preprocess_ownership_ring \<Rightarrow> preprocess_pool_diagnostics" where
  "ring_diagnostics p =
     \<lparr>pd_source_capacity = length (pr_sources p), pd_surface_capacity = length (pr_surfaces p),
      pd_active_sources = length (filter (\<lambda>slot. ps_state slot \<noteq> Source_free) (pr_sources p)),
      pd_active_surfaces = length (filter (\<lambda>slot. ps_state slot \<noteq> Surface_free) (pr_surfaces p)),
      pd_reservations = pr_reservations p, pd_rejected = pr_rejected p,
      pd_admission_open = pr_admission_open p\<rparr>"

definition all_free :: "preprocess_ownership_ring \<Rightarrow> bool" where
  "all_free p =
     (pd_active_sources (ring_diagnostics p) = 0 \<and> pd_active_surfaces (ring_diagnostics p) = 0)"

section \<open>Memory\<close>

text \<open>The addresses an allocation occupies, as plain numbers.\<close>

definition footprint :: "device_allocation_range \<Rightarrow> nat set" where
  "footprint r = {unat (ar_begin r) ..< unat (ar_begin r) + unat (ar_byte_size r)}"

lemma range_end: "range_valid r \<Longrightarrow> unat (ar_begin r + ar_byte_size r) = unat (ar_begin r) + unat (ar_byte_size r)"
  by (rule unat_add_no_overflow) (simp add: range_valid_def not_less)

lemma overlap_exact:
  assumes "range_valid a" "range_valid b"
  shows "device_ranges_overlap a b \<longleftrightarrow> footprint a \<inter> footprint b \<noteq> {}"
proof -
  have pos: "0 < unat (ar_byte_size a)" "0 < unat (ar_byte_size b)"
    using assms by (simp_all add: range_valid_def unat_gt_0)
  have "device_ranges_overlap a b \<longleftrightarrow>
    unat (ar_begin a) < unat (ar_begin b) + unat (ar_byte_size b) \<and>
    unat (ar_begin b) < unat (ar_begin a) + unat (ar_byte_size a)"
    using assms range_end by (simp add: device_ranges_overlap_def word_less_nat_alt)
  also have "\<dots> \<longleftrightarrow> footprint a \<inter> footprint b \<noteq> {}"
    using pos by (auto simp: footprint_def)
  finally show ?thesis .
qed

lemma overlap_commute: "device_ranges_overlap a b = device_ranges_overlap b a"
  by (auto simp: device_ranges_overlap_def)

abbreviation allocs :: "'st pool_slot list \<Rightarrow> device_allocation_range option list" where
  "allocs slots \<equiv> map ps_allocation slots"

definition clear_of :: "device_allocation_range option \<Rightarrow> device_allocation_range option \<Rightarrow> bool" where
  "clear_of x y = (\<forall>a b. x = Some a \<longrightarrow> y = Some b \<longrightarrow> \<not> device_ranges_overlap a b)"

definition separate :: "device_allocation_range option list \<Rightarrow> bool" where
  "separate xs = (\<forall>i < length xs. \<forall>j < length xs. i \<noteq> j \<longrightarrow> clear_of (xs ! i) (xs ! j))"

definition apart :: "device_allocation_range option list \<Rightarrow> device_allocation_range option list \<Rightarrow> bool" where
  "apart xs ys = (\<forall>x \<in> set xs. \<forall>y \<in> set ys. clear_of x y)"

lemma clear_of_commute: "clear_of x y = clear_of y x"
  by (auto simp: clear_of_def overlap_commute)

lemma separate_update:
  assumes "separate xs" "\<And>j. j < length xs \<Longrightarrow> j \<noteq> i \<Longrightarrow> clear_of (xs ! j) x"
  shows "separate (xs[i := x])"
  unfolding separate_def
proof (intro allI impI)
  fix k l
  assume kl: "k < length (xs[i := x])" "l < length (xs[i := x])" "k \<noteq> l"
  then show "clear_of (xs[i := x] ! k) (xs[i := x] ! l)"
    using assms clear_of_commute [of x "xs ! l"] by (cases "k = i"; cases "l = i") (auto simp: separate_def)
qed

lemma apart_update:
  assumes "apart xs ys" "\<And>y. y \<in> set ys \<Longrightarrow> clear_of x y"
  shows "apart (xs[i := x]) ys"
  using assms set_update_subset_insert [of xs i x] by (auto simp: apart_def)

lemma apart_commute: "apart xs ys = apart ys xs"
  unfolding apart_def using clear_of_commute by blast

lemma overlaps_some_clear:
  "\<not> overlaps_some r slots \<Longrightarrow> x \<in> set (allocs slots) \<Longrightarrow> clear_of x (Some r)"
  by (auto simp: overlaps_some_def list_ex_iff clear_of_def split: option.splits)

lemma overlaps_other_clear:
  assumes "\<not> overlaps_other i r slots" "j < length slots" "j \<noteq> i"
  shows "clear_of (allocs slots ! j) (Some r)"
proof -
  have "(j, slots ! j) \<in> set (enumerate 0 slots)"
    using assms(2) by (auto simp: in_set_conv_nth nth_enumerate_eq intro!: exI [of _ j])
  with assms show ?thesis
    by (auto simp: overlaps_other_def list_ex_iff clear_of_def split: option.splits)
qed

lemma compatible_free_slot_some:
  "compatible_free_slot fr r k slots = Some i \<Longrightarrow>
   k \<le> i \<and> i - k < length slots \<and> ps_state (slots ! (i - k)) = fr \<and>
   (ps_allocation (slots ! (i - k)) = None \<or> ps_allocation (slots ! (i - k)) = Some r)"
proof (induction slots arbitrary: k)
  case (Cons s slots)
  show ?case
  proof (cases "ps_state s = fr \<and> (ps_allocation s = None \<or> ps_allocation s = Some r)")
    case False
    with Cons.prems have "compatible_free_slot fr r (Suc k) slots = Some i" by auto
    from Cons.IH [OF this] have "i - k = Suc (i - Suc k)" by auto
    with Cons.IH [OF \<open>compatible_free_slot fr r (Suc k) slots = Some i\<close>] show ?thesis by auto
  qed (use Cons.prems in auto)
qed simp

section \<open>Invariant\<close>

text \<open>One slot: what it has registered is valid memory, it is owned exactly while it is in use.\<close>

definition pool_slot_ok :: "'st \<Rightarrow> 'st pool_slot \<Rightarrow> bool" where
  "pool_slot_ok fr s =
     ((case ps_allocation s of None \<Rightarrow> ps_state s = fr | Some a \<Rightarrow> range_valid a) \<and>
      (if ps_state s = fr then ps_owner s = no_owner
       else ow_frame_id (ps_owner s) \<noteq> 0 \<and> ow_geometry_epoch (ps_owner s) \<noteq> 0))"

definition pool_ok :: "preprocess_ownership_ring \<Rightarrow> bool" where
  "pool_ok p =
     (list_all (pool_slot_ok Source_free) (pr_sources p) \<and> list_all (pool_slot_ok Surface_free) (pr_surfaces p) \<and>
      separate (allocs (pr_sources p)) \<and> separate (allocs (pr_surfaces p)) \<and>
      apart (allocs (pr_sources p)) (allocs (pr_surfaces p)))"

lemma list_all_update: "list_all P xs \<Longrightarrow> P x \<Longrightarrow> list_all P (xs[i := x])"
  using set_update_subset_insert [of xs i x] by (auto simp: list_all_iff)

lemma allocs_update_same: "ps_allocation s = ps_allocation (slots ! i) \<Longrightarrow> allocs (slots[i := s]) = allocs slots"
  by (metis (no_types, lifting) list_update_beyond list_update_id map_update not_le nth_map)

text \<open>Changing the stage of slots without touching what they have registered.\<close>

lemma pool_ok_stage:
  assumes "pool_ok p" "allocs sources = allocs (pr_sources p)" "allocs surfaces = allocs (pr_surfaces p)"
    and "list_all (pool_slot_ok Source_free) sources" "list_all (pool_slot_ok Surface_free) surfaces"
  shows "pool_ok (p\<lparr>pr_sources := sources, pr_surfaces := surfaces\<rparr>)"
  using assms by (simp add: pool_ok_def)

lemma ring_reject_ok: "pool_ok (snd (ring_reject r p)) = pool_ok p"
  by (simp add: ring_reject_def pool_ok_def)

lemma reserve_cases:
  obtains (rejected) r where "reserve p f g a b = ring_reject r p"
  | (reserved) i j where "pr_admission_open p" "f \<noteq> 0" "g \<noteq> 0" "range_valid a" "range_valid b" "\<not> device_ranges_overlap a b"
      "\<not> overlaps_some b (pr_sources p)" "\<not> overlaps_some a (pr_surfaces p)"
      "compatible_free_slot Source_free a 0 (pr_sources p) = Some i"
      "compatible_free_slot Surface_free b 0 (pr_surfaces p) = Some j"
      "\<not> overlaps_other i a (pr_sources p)" "\<not> overlaps_other j b (pr_surfaces p)"
      "reserve p f g a b =
        (pool_op True ''preprocess_slots_reserved''
           \<lparr>tk_source_slot = i, tk_surface_slot = j, tk_frame_id = f, tk_geometry_epoch = g\<rparr>,
         p\<lparr>pr_sources := (pr_sources p)[i := \<lparr>ps_state = Host_to_device_pending, ps_allocation = Some a,
              ps_owner = \<lparr>ow_frame_id = f, ow_geometry_epoch = g\<rparr>\<rparr>],
           pr_surfaces := (pr_surfaces p)[j := \<lparr>ps_state = Cuda_writing, ps_allocation = Some b,
              ps_owner = \<lparr>ow_frame_id = f, ow_geometry_epoch = g\<rparr>\<rparr>],
           pr_reservations := pr_reservations p + 1\<rparr>)"
proof -
  show thesis
  proof (cases "(\<exists>r. reserve p f g a b = ring_reject r p)")
    case False
    then have guards: "pr_admission_open p" "f \<noteq> 0" "g \<noteq> 0" "range_valid a" "range_valid b" "\<not> device_ranges_overlap a b"
      "\<not> overlaps_some b (pr_sources p)" "\<not> overlaps_some a (pr_surfaces p)"
      unfolding reserve_def by (auto split: if_splits)
    with False obtain i j where "compatible_free_slot Source_free a 0 (pr_sources p) = Some i"
      "compatible_free_slot Surface_free b 0 (pr_surfaces p) = Some j"
      by (auto simp: reserve_def split: option.splits)
    moreover from this guards False have "\<not> overlaps_other i a (pr_sources p)" "\<not> overlaps_other j b (pr_surfaces p)"
      by (auto simp: reserve_def split: if_splits)
    ultimately show thesis using guards by (intro reserved [of i j]) (simp_all add: reserve_def Let_def)
  qed (use rejected in blast)
qed

lemma pool_reserve_ok: "pool_ok p \<Longrightarrow> pool_ok (snd (reserve p f g a b))"
proof -
  assume ok: "pool_ok p"
  show ?thesis
  proof (cases rule: reserve_cases [of p f g a b])
    case (rejected r)
    with ok show ?thesis by (simp add: ring_reject_ok)
  next
    case (reserved i j)
    let ?s = "\<lparr>ps_state = Host_to_device_pending, ps_allocation = Some a, ps_owner = \<lparr>ow_frame_id = f, ow_geometry_epoch = g\<rparr>\<rparr>"
    let ?t = "\<lparr>ps_state = Cuda_writing, ps_allocation = Some b, ps_owner = \<lparr>ow_frame_id = f, ow_geometry_epoch = g\<rparr>\<rparr>"
    have lists: "allocs ((pr_sources p)[i := ?s]) = (allocs (pr_sources p))[i := Some a]"
      "allocs ((pr_surfaces p)[j := ?t]) = (allocs (pr_surfaces p))[j := Some b]"
      by (simp_all add: map_update)
    have "list_all (pool_slot_ok Source_free) ((pr_sources p)[i := ?s])"
      "list_all (pool_slot_ok Surface_free) ((pr_surfaces p)[j := ?t])"
      using ok reserved by (auto simp: pool_ok_def pool_slot_ok_def intro!: list_all_update)
    moreover have "separate ((allocs (pr_sources p))[i := Some a])" "separate ((allocs (pr_surfaces p))[j := Some b])"
      using ok overlaps_other_clear [OF reserved(11)] overlaps_other_clear [OF reserved(12)]
      by (auto simp: pool_ok_def intro!: separate_update)
    moreover have "apart ((allocs (pr_sources p))[i := Some a]) ((allocs (pr_surfaces p))[j := Some b])"
    proof -
      have "apart ((allocs (pr_sources p))[i := Some a]) (allocs (pr_surfaces p))"
        using ok overlaps_some_clear [OF reserved(8)] clear_of_commute
        by (intro apart_update) (auto simp: pool_ok_def)
      moreover have "clear_of (Some b) x" if "x \<in> set ((allocs (pr_sources p))[i := Some a])" for x
      proof -
        have "x = Some a \<or> x \<in> set (allocs (pr_sources p))"
          using that set_update_subset_insert [of "allocs (pr_sources p)" i "Some a"] by blast
        then show ?thesis
          using overlaps_some_clear [OF reserved(7)] reserved(6) clear_of_commute [of "Some b" x]
          by (auto simp: clear_of_def)
      qed
      ultimately show ?thesis using apart_commute apart_update by blast
    qed
    ultimately show ?thesis by (simp add: reserved pool_ok_def lists)
  qed
qed

section \<open>Stages\<close>

datatype token_op =
    Upload_complete | Read_complete | Map_copy | Ready | Surface_submit | Input_released | Release | Abort

fun token_apply ::
  "token_op \<Rightarrow> preprocess_ownership_ring \<Rightarrow> preprocess_slot_token \<Rightarrow>
   preprocess_pool_operation \<times> preprocess_ownership_ring" where
  "token_apply Upload_complete = source_upload_complete"
| "token_apply Read_complete = source_read_complete"
| "token_apply Map_copy = map_copy_pending"
| "token_apply Ready = ready_to_submit"
| "token_apply Surface_submit = surface_submitted"
| "token_apply Input_released = encoder_input_released"
| "token_apply Release = release_surface"
| "token_apply Abort = ring_abort"

text \<open>What an operation with a token may do to a slot: nothing, or, if the token names the slot and
  its owner, move it to another stage, with an owner exactly while it is in use. What the slot
  has registered stays.\<close>

definition moves_slot ::
  "'st \<Rightarrow> nat \<Rightarrow> preprocess_slot_token \<Rightarrow> ('st \<Rightarrow> 'st \<Rightarrow> bool) \<Rightarrow> 'st pool_slot list \<Rightarrow> 'st pool_slot list \<Rightarrow> bool"
where
  "moves_slot fr i token allowed slots slots' =
     (slots' = slots \<or>
      (i < length slots \<and> owner_matches (ps_owner (slots ! i)) token \<and> ps_state (slots ! i) \<noteq> fr \<and>
       (\<exists>st'. allowed (ps_state (slots ! i)) st' \<and>
          slots' = slots[i := (slots ! i)\<lparr>ps_state := st',
             ps_owner := (if st' = fr then no_owner else ps_owner (slots ! i))\<rparr>])))"

definition source_allowed :: "token_op \<Rightarrow> device_source_state \<Rightarrow> device_source_state \<Rightarrow> bool" where
  "source_allowed op from to = (valid_device_source_transition from to \<or> op = Abort \<and> to = Source_free)"

definition surface_allowed :: "token_op \<Rightarrow> encoder_surface_state \<Rightarrow> encoder_surface_state \<Rightarrow> bool" where
  "surface_allowed op from to = (valid_encoder_surface_transition from to \<or> op = Abort \<and> to = Surface_free)"

lemma moves_same [simp]: "moves_slot fr i t al slots slots"
  by (simp add: moves_slot_def)

lemma slot_update_same: "(s :: 'st pool_slot)\<lparr>ps_state := x, ps_owner := ps_owner s\<rparr> = s\<lparr>ps_state := x\<rparr>"
  by simp

lemma surface_stage_moves:
  assumes "valid_encoder_surface_transition before after" "before \<noteq> Surface_free" "after \<noteq> Surface_free"
  shows "moves_slot Surface_free (tk_surface_slot t) t (surface_allowed op) (pr_surfaces p)
      (pr_surfaces (snd (surface_stage before r after r' p t)))"
    and "pr_sources (snd (surface_stage before r after r' p t)) = pr_sources p"
    and "pr_admission_open (snd (surface_stage before r after r' p t)) = pr_admission_open p"
  using assms by (auto simp: surface_stage_def Let_def moves_slot_def surface_allowed_def intro!: exI [of _ after])

lemma token_moves:
  "moves_slot Source_free (tk_source_slot t) t (source_allowed op) (pr_sources p) (pr_sources (snd (token_apply op p t)))"
  "moves_slot Surface_free (tk_surface_slot t) t (surface_allowed op) (pr_surfaces p) (pr_surfaces (snd (token_apply op p t)))"
  "pr_admission_open (snd (token_apply op p t)) = pr_admission_open p"
proof -
  have sources: "moves_slot Source_free (tk_source_slot t) t (source_allowed op) (pr_sources p) (pr_sources (snd (token_apply op p t)))"
  proof (cases op)
    case Upload_complete
    then show ?thesis
      by (auto simp: source_upload_complete_def Let_def moves_slot_def source_allowed_def
          intro!: exI [of _ Cuda_source_read_pending])
  next
    case Read_complete
    then show ?thesis
      by (auto simp: source_read_complete_def Let_def moves_slot_def source_allowed_def intro!: exI [of _ Source_free])
  next
    case Release
    then show ?thesis by (simp add: release_surface_def Let_def)
  next
    case Abort
    then show ?thesis
      by (auto simp: ring_abort_def Let_def moves_slot_def source_allowed_def intro!: exI [of _ Source_free])
  qed (simp_all add: map_copy_pending_def ready_to_submit_def surface_submitted_def encoder_input_released_def
      surface_stage_moves)
  have surfaces: "moves_slot Surface_free (tk_surface_slot t) t (surface_allowed op) (pr_surfaces p) (pr_surfaces (snd (token_apply op p t)))"
  proof (cases op)
    case Release
    then show ?thesis
      by (auto simp: release_surface_def Let_def moves_slot_def surface_allowed_def intro!: exI [of _ Surface_free])
  next
    case Abort
    then show ?thesis
      by (auto simp: ring_abort_def Let_def moves_slot_def surface_allowed_def intro!: exI [of _ Surface_free])
  qed (simp_all add: source_upload_complete_def source_read_complete_def Let_def map_copy_pending_def
      ready_to_submit_def surface_submitted_def encoder_input_released_def surface_stage_moves)
  show "moves_slot Source_free (tk_source_slot t) t (source_allowed op) (pr_sources p) (pr_sources (snd (token_apply op p t)))"
    "moves_slot Surface_free (tk_surface_slot t) t (surface_allowed op) (pr_surfaces p) (pr_surfaces (snd (token_apply op p t)))"
    using sources surfaces by blast+
  show "pr_admission_open (snd (token_apply op p t)) = pr_admission_open p"
    by (cases op) (simp_all add: source_upload_complete_def source_read_complete_def release_surface_def ring_abort_def
        Let_def map_copy_pending_def ready_to_submit_def surface_submitted_def encoder_input_released_def surface_stage_def)
qed

lemma moves_keep:
  assumes "moves_slot fr i t al slots slots'" "list_all (pool_slot_ok fr) slots"
  shows "allocs slots' = allocs slots" "list_all (pool_slot_ok fr) slots'" "length slots' = length slots"
proof -
  consider "slots' = slots" | st' where "i < length slots" "ps_state (slots ! i) \<noteq> fr"
    "slots' = slots[i := (slots ! i)\<lparr>ps_state := st', ps_owner := (if st' = fr then no_owner else ps_owner (slots ! i))\<rparr>]"
    using assms(1) by (auto simp: moves_slot_def)
  then have "allocs slots' = allocs slots \<and> list_all (pool_slot_ok fr) slots' \<and> length slots' = length slots"
  proof cases
    case 2
    have "pool_slot_ok fr (slots ! i)" using assms(2) 2(1) by (auto simp: list_all_length)
    then have "pool_slot_ok fr ((slots ! i)\<lparr>ps_state := st', ps_owner := (if st' = fr then no_owner else ps_owner (slots ! i))\<rparr>)"
      using 2(2) by (auto simp: pool_slot_ok_def split: option.splits)
    then show ?thesis using assms(2) 2 by (simp add: list_all_update allocs_update_same)
  qed (use assms(2) in simp)
  then show "allocs slots' = allocs slots" "list_all (pool_slot_ok fr) slots'" "length slots' = length slots" by auto
qed

section \<open>Runs of the pool\<close>

datatype pool_call =
    P_reserve u64 u64 device_allocation_range device_allocation_range
  | P_token token_op preprocess_slot_token
  | P_close

fun pool_step :: "preprocess_ownership_ring \<Rightarrow> pool_call \<Rightarrow> preprocess_ownership_ring" where
  "pool_step p (P_reserve f g a b) = snd (reserve p f g a b)"
| "pool_step p (P_token op t) = snd (token_apply op p t)"
| "pool_step p P_close = close_admission p"

lemma pool_step_ok: "pool_ok p \<Longrightarrow> pool_ok (pool_step p call)"
proof (cases call)
  case (P_token op t)
  assume ok: "pool_ok p"
  let ?p = "snd (token_apply op p t)"
  have "allocs (pr_sources ?p) = allocs (pr_sources p)" "list_all (pool_slot_ok Source_free) (pr_sources ?p)"
    "allocs (pr_surfaces ?p) = allocs (pr_surfaces p)" "list_all (pool_slot_ok Surface_free) (pr_surfaces ?p)"
    using moves_keep [OF token_moves(1) [of t op p]] moves_keep [OF token_moves(2) [of t op p]] ok
    by (simp_all add: pool_ok_def)
  with ok P_token show ?thesis by (simp add: pool_ok_def)
next
  case P_close
  assume "pool_ok p"
  with P_close show ?thesis by (simp add: close_admission_def pool_ok_def)
qed (simp add: pool_reserve_ok)

lemma pool_step_closed: "\<not> pr_admission_open p \<Longrightarrow> \<not> pr_admission_open (pool_step p call)"
  by (cases call) (simp_all add: token_moves(3) close_admission_def reserve_def ring_reject_def)

interpretation pool: safe_machine pool_step pool_ok
  by unfold_locales (rule pool_step_ok)

interpretation pool_closed: latched_machine pool_step pool_ok "\<lambda>p. \<not> pr_admission_open p"
  by unfold_locales (rule pool_step_closed)

lemma make_ring_ok:
  assumes "make_ring m n = Inr p"
  shows "pool_ok p"
  using assms by (auto simp: make_ring_def pool_ok_def pool_slot_ok_def separate_def apart_def clear_of_def no_owner_def
      list_all_iff split: if_splits)

text \<open>All registered memory as a list of footprints.\<close>

definition registered :: "preprocess_ownership_ring \<Rightarrow> device_allocation_range option list" where
  "registered p = allocs (pr_sources p) @ allocs (pr_surfaces p)"

lemma separate_append:
  assumes parts: "separate xs" "separate ys" "apart xs ys"
  shows "separate (xs @ ys)"
  unfolding separate_def
proof (intro allI impI)
  fix i j
  assume ij: "i < length (xs @ ys)" "j < length (xs @ ys)" "i \<noteq> j"
  let ?i = "i - length xs" and ?j = "j - length xs"
  consider "i < length xs" "j < length xs" | "i < length xs" "?j < length ys" "\<not> j < length xs"
    | "?i < length ys" "\<not> i < length xs" "j < length xs"
    | "?i < length ys" "?j < length ys" "\<not> i < length xs" "\<not> j < length xs" "?i \<noteq> ?j"
    using ij by fastforce
  then show "clear_of ((xs @ ys) ! i) ((xs @ ys) ! j)"
    using parts ij clear_of_commute by cases (auto simp: separate_def apart_def nth_append)
qed

lemma registered_separate: "pool_ok p \<Longrightarrow> separate (registered p)"
  by (simp add: pool_ok_def registered_def separate_append)

lemma registered_valid: "pool_ok p \<Longrightarrow> Some a \<in> set (registered p) \<Longrightarrow> range_valid a"
  by (fastforce simp: pool_ok_def registered_def pool_slot_ok_def list_all_iff split: option.splits)

text \<open>C12 (safety). Device memory is never shared: over any sequence of reservations, stage changes
  and aborts, the memory registered for any two slots, sources and surfaces alike, is disjoint
  as sets of addresses and does not wrap around the address space; and once admission is closed,
  no reservation ever passes again.\<close>

theorem device_memory_disjoint:
  assumes "make_ring m n = Inr p"
    and "i < length (registered (foldl pool_step p calls))" "j < length (registered (foldl pool_step p calls))" "i \<noteq> j"
    and "registered (foldl pool_step p calls) ! i = Some a" "registered (foldl pool_step p calls) ! j = Some b"
  shows "footprint a \<inter> footprint b = {} \<and> footprint a \<subseteq> {1 ..< 2 ^ 64} \<and>
    (\<not> pr_admission_open (foldl pool_step p calls) \<longrightarrow>
       \<not> po_passed (fst (reserve (foldl pool_step (foldl pool_step p calls) later) f g x y)))"
proof -
  let ?p = "foldl pool_step p calls"
  have ok: "pool_ok ?p" by (rule pool.run_inv [OF make_ring_ok [OF assms(1)]])
  have valid: "range_valid a" "range_valid b"
    using registered_valid [OF ok] assms(2-6) by (metis nth_mem)+
  have "\<not> device_ranges_overlap a b"
    using registered_separate [OF ok] assms(2-6) by (auto simp: separate_def clear_of_def)
  then have "footprint a \<inter> footprint b = {}" using overlap_exact [OF valid] by simp
  moreover have "footprint a \<subseteq> {1 ..< 2 ^ 64}"
    using valid(1) range_end [OF valid(1)] unat_lt_u64 [of "ar_begin a + ar_byte_size a"]
    by (auto simp: footprint_def range_valid_def unat_gt_0 Suc_le_eq)
  moreover have "\<not> po_passed (fst (reserve (foldl pool_step ?p later) f g x y))" if "\<not> pr_admission_open ?p"
    using pool_closed.run_latched [OF ok that, of later] by (simp add: reserve_def ring_reject_def)
  ultimately show ?thesis by blast
qed

text \<open>A slot in use only moves along its life cycle and only for its owner: if a call
  changes the stage of a source or surface that is in use, the call carries a token with the
  slot's frame and geometry, and the change is a step of the published transition relation, or
  an abort to free.\<close>

lemma pool_life_cycle:
  assumes "source_state (pool_step p call) i \<noteq> source_state p i \<and> source_state p i \<noteq> Source_free \<or>
           surface_state (pool_step p call) i \<noteq> surface_state p i \<and> surface_state p i \<noteq> Surface_free"
  shows "\<exists>op t. call = P_token op t \<and>
    (source_state (pool_step p call) i \<noteq> source_state p i \<longrightarrow>
       i = tk_source_slot t \<and> owner_matches (ps_owner (pr_sources p ! i)) t \<and>
       source_allowed op (source_state p i) (source_state (pool_step p call) i)) \<and>
    (surface_state (pool_step p call) i \<noteq> surface_state p i \<longrightarrow>
       i = tk_surface_slot t \<and> owner_matches (ps_owner (pr_surfaces p ! i)) t \<and>
       surface_allowed op (surface_state p i) (surface_state (pool_step p call) i))"
proof (cases call)
  case (P_reserve f g a b)
  have "source_state (pool_step p call) i = source_state p i \<or> source_state p i = Source_free"
    "surface_state (pool_step p call) i = surface_state p i \<or> surface_state p i = Surface_free"
  proof -
    show "source_state (pool_step p call) i = source_state p i \<or> source_state p i = Source_free"
      by (cases rule: reserve_cases [of p f g a b])
        (auto simp: P_reserve ring_reject_def source_state_def nth_list_update dest!: compatible_free_slot_some)
    show "surface_state (pool_step p call) i = surface_state p i \<or> surface_state p i = Surface_free"
      by (cases rule: reserve_cases [of p f g a b])
        (auto simp: P_reserve ring_reject_def surface_state_def nth_list_update dest!: compatible_free_slot_some)
  qed
  with assms show ?thesis by blast
next
  case (P_token op t)
  have source: "i = tk_source_slot t \<and> owner_matches (ps_owner (pr_sources p ! i)) t \<and>
      source_allowed op (source_state p i) (source_state (pool_step p call) i)"
    if "source_state (pool_step p call) i \<noteq> source_state p i"
    using token_moves(1) [of t op p] that
    by (auto simp: P_token moves_slot_def source_state_def nth_list_update split: if_splits)
  have surface: "i = tk_surface_slot t \<and> owner_matches (ps_owner (pr_surfaces p ! i)) t \<and>
      surface_allowed op (surface_state p i) (surface_state (pool_step p call) i)"
    if "surface_state (pool_step p call) i \<noteq> surface_state p i"
    using token_moves(2) [of t op p] that
    by (auto simp: P_token moves_slot_def surface_state_def nth_list_update split: if_splits)
  from source surface P_token show ?thesis by blast
next
  case P_close
  then have "source_state (pool_step p call) i = source_state p i" "surface_state (pool_step p call) i = surface_state p i"
    by (simp_all add: close_admission_def source_state_def surface_state_def)
  with assms show ?thesis by simp
qed

section \<open>Witnesses\<close>

definition sample_range :: "u64 \<Rightarrow> device_allocation_range" where
  "sample_range n = \<lparr>ar_begin = n, ar_byte_size = 16\<rparr>"

definition sample_ring :: preprocess_ownership_ring where
  "sample_ring =
     \<lparr>pr_sources = [\<lparr>ps_state = Source_free, ps_allocation = None, ps_owner = no_owner\<rparr>],
      pr_surfaces = [\<lparr>ps_state = Surface_free, ps_allocation = None, ps_owner = no_owner\<rparr>],
      pr_reservations = 0, pr_rejected = 0, pr_admission_open = True\<rparr>"

lemma make_sample_ring: "make_ring 1 1 = Inr sample_ring"
  by (simp add: make_ring_def sample_ring_def)

lemma sample_reserved:
  "pool_step sample_ring (P_reserve 1 1 (sample_range 16) (sample_range 32)) =
     sample_ring\<lparr>pr_sources := [\<lparr>ps_state = Host_to_device_pending, ps_allocation = Some (sample_range 16),
                   ps_owner = \<lparr>ow_frame_id = 1, ow_geometry_epoch = 1\<rparr>\<rparr>],
                 pr_surfaces := [\<lparr>ps_state = Cuda_writing, ps_allocation = Some (sample_range 32),
                   ps_owner = \<lparr>ow_frame_id = 1, ow_geometry_epoch = 1\<rparr>\<rparr>], pr_reservations := 1\<rparr>"
  by (simp add: reserve_def sample_ring_def sample_range_def range_valid_def device_ranges_overlap_def
      overlaps_some_def overlaps_other_def Let_def enumerate_eq_zip)

theorem device_memory_disjoint_witness:
  "footprint (sample_range 16) \<inter> footprint (sample_range 32) = {}"
proof -
  let ?calls = "[P_reserve 1 1 (sample_range 16) (sample_range 32)]"
  have "registered (foldl pool_step sample_ring ?calls) = [Some (sample_range 16), Some (sample_range 32)]"
    by (simp only: foldl.simps sample_reserved) (simp add: registered_def)
  then show ?thesis
    using device_memory_disjoint [OF make_sample_ring, of 0 ?calls 1 "sample_range 16" "sample_range 32"] by simp
qed

lemma pool_life_cycle_witness:
  "\<exists>op t. P_token Upload_complete \<lparr>tk_source_slot = 0, tk_surface_slot = 0, tk_frame_id = 1, tk_geometry_epoch = 1\<rparr> =
     P_token op t \<and> source_allowed op Host_to_device_pending Cuda_source_read_pending"
proof -
  let ?p = "pool_step sample_ring (P_reserve 1 1 (sample_range 16) (sample_range 32))"
  let ?c = "P_token Upload_complete \<lparr>tk_source_slot = 0, tk_surface_slot = 0, tk_frame_id = 1, tk_geometry_epoch = 1\<rparr>"
  have states: "source_state ?p 0 = Host_to_device_pending" "source_state (pool_step ?p ?c) 0 = Cuda_source_read_pending"
    by (simp_all only: sample_reserved)
      (simp_all add: source_state_def source_upload_complete_def owner_matches_def sample_ring_def)
  have "source_state (pool_step ?p ?c) 0 \<noteq> source_state ?p 0 \<and> source_state ?p 0 \<noteq> Source_free"
    by (simp only: states) simp
  then have "\<exists>op t. ?c = P_token op t \<and>
    (source_state (pool_step ?p ?c) 0 \<noteq> source_state ?p 0 \<longrightarrow>
       0 = tk_source_slot t \<and> owner_matches (ps_owner (pr_sources ?p ! 0)) t \<and>
       source_allowed op (source_state ?p 0) (source_state (pool_step ?p ?c) 0))"
    using pool_life_cycle [of ?p ?c 0] by blast
  then show ?thesis by (simp only: states) auto
qed

end
