(* ===== verification/Controller_Trace.thy ===== *)
theory Controller_Trace
  imports Binary64
begin

text \<open>
  The data of \<open>ProtectedRegionController\<close> (\<^verbatim>\<open>include/glyphrelay/controller.hpp\<close>) and its trace
  (\<^verbatim>\<open>src/transport/controller.cpp\<close>, \<open>controller_trace_json\<close> and the \<open>append_\<close> functions): the
  record of every decision as one JSON line with keys in alphabetical order. An \<open>append_\<close> function
  of the sources is here a function that returns what it appends, or the exception it throws.
  \<open>std::to_chars\<close> is modelled exactly: decimal digits for integers, and for doubles the general
  format with 17 significant digits, correctly rounded.
\<close>

section \<open>Data\<close>

datatype controller_state = Stable | Rate_pressure | Congested | Recovery | Unusable

datatype controller_action =
    Action_none
  | Reduce_automatic_emphasis
  | Tighten_protected_threshold
  | Reduce_payload_and_vbv
  | Reduce_presentation_profile
  | Request_recovery_idr
  | Restore_presentation_profile
  | Restore_payload_and_vbv
  | Restore_protected_threshold
  | Restore_automatic_emphasis
  | Stop_unusable_link

record controller_config =
  base_payload_target_bps :: u64
  base_entry_threshold :: double
  base_exit_threshold :: double

record controller_counters =
  elementary_stream_bytes :: u64
  wire_egress_bytes :: u64
  retransmission_bytes :: u64
  delivered_frames :: u64

record controller_feedback =
  fb_arrival_sequence :: u64
  fb_sender_arrival_milliseconds :: u64
  fb_source_time_milliseconds :: "u64 option"
  fb_loss_fraction :: "double option"
  fb_round_trip_time_milliseconds :: "double option"
  fb_remb_bits_per_second :: "double option"
  fb_remb_payload_type_valid :: bool
  fb_remb_rtcp_source_valid :: bool
  fb_receiver_decoded_frames :: "u64 option"
  fb_receiver_dropped_frames :: "u64 option"

record controller_tick_input =
  in_arrival_sequence :: u64
  in_sender_arrival_milliseconds :: u64
  in_source_time_milliseconds :: "u64 option"
  in_dependency_epoch :: u64
  in_user_wire_cap_bps :: u64
  in_counters :: controller_counters
  in_oldest_media_age_milliseconds :: double
  in_pacer_queue_bytes :: u64
  in_pacer_queue_packets :: u64
  in_drop_fraction :: double
  in_protected_fraction :: double
  in_map_level_histogram :: "u64 list"
  in_encode_latency_milliseconds :: double
  in_pinned_region_violation :: bool

record controller_estimate =
  one_second :: "double option"
  five_second :: "double option"

definition no_estimate :: controller_estimate where
  "no_estimate = \<lparr>one_second = None, five_second = None\<rparr>"

record controller_estimator_snapshot =
  es_elementary_stream_bps :: controller_estimate
  es_wire_egress_bps :: controller_estimate
  es_retransmission_bps :: controller_estimate
  es_loss_fraction :: controller_estimate
  es_round_trip_time_milliseconds :: controller_estimate
  es_oldest_media_age_milliseconds :: controller_estimate
  es_delivered_frames_per_second :: controller_estimate

record controller_level_stack =
  automatic_emphasis_cap :: u8
  protected_threshold_delta :: double
  payload_and_vbv_step :: nat
  payload_target_bps :: u64
  presentation_profile :: string
  lv_width :: u32
  lv_height :: u32
  lv_frames_per_second :: u32

record controller_decision =
  dc_arrival_sequence :: u64
  dc_sender_arrival_milliseconds :: u64
  dc_source_time_milliseconds :: "u64 option"
  dc_dependency_epoch :: u64
  dc_controller_config :: controller_config
  dc_prior_state :: controller_state
  dc_resulting_state :: controller_state
  dc_action :: controller_action
  dc_estimators :: controller_estimator_snapshot
  dc_levels :: controller_level_stack
  dc_entry_threshold :: double
  dc_exit_threshold :: double
  dc_effective_wire_cap_bps :: double
  dc_control_reserve_bps :: double
  dc_payload_budget_bps :: double
  dc_request_idr_with_parameter_sets :: bool
  dc_starts_geometry_epoch :: bool
  dc_starts_dependency_epoch :: bool
  dc_pinned_region_violation_visible :: bool
  dc_feedback_loss_available :: bool
  dc_feedback_rtt_available :: bool
  dc_feedback_remb_available :: bool
  dc_counter_reset :: bool
  dc_consumed_feedback :: "controller_feedback list"
  dc_reason :: string
  dc_trace_json :: string

section \<open>Names\<close>

fun controller_state_name :: "controller_state \<Rightarrow> string" where
  "controller_state_name Stable = ''STABLE''"
| "controller_state_name Rate_pressure = ''RATE_PRESSURE''"
| "controller_state_name Congested = ''CONGESTED''"
| "controller_state_name Recovery = ''RECOVERY''"
| "controller_state_name Unusable = ''UNUSABLE''"

fun controller_action_name :: "controller_action \<Rightarrow> string" where
  "controller_action_name Action_none = ''NONE''"
| "controller_action_name Reduce_automatic_emphasis = ''REDUCE_AUTOMATIC_EMPHASIS''"
| "controller_action_name Tighten_protected_threshold = ''TIGHTEN_PROTECTED_THRESHOLD''"
| "controller_action_name Reduce_payload_and_vbv = ''REDUCE_PAYLOAD_AND_VBV''"
| "controller_action_name Reduce_presentation_profile = ''REDUCE_PRESENTATION_PROFILE''"
| "controller_action_name Request_recovery_idr = ''REQUEST_RECOVERY_IDR''"
| "controller_action_name Restore_presentation_profile = ''RESTORE_PRESENTATION_PROFILE''"
| "controller_action_name Restore_payload_and_vbv = ''RESTORE_PAYLOAD_AND_VBV''"
| "controller_action_name Restore_protected_threshold = ''RESTORE_PROTECTED_THRESHOLD''"
| "controller_action_name Restore_automatic_emphasis = ''RESTORE_AUTOMATIC_EMPHASIS''"
| "controller_action_name Stop_unusable_link = ''STOP_UNUSABLE_LINK''"

section \<open>Numbers as text\<close>

definition digit :: "nat \<Rightarrow> char" where
  "digit d = char_of (48 + d)"

fun decimal :: "nat \<Rightarrow> string" where
  "decimal n = (if n < 10 then [digit n] else decimal (n div 10) @ [digit (n mod 10)])"

declare decimal.simps [simp del]

definition decimal_exponent :: "rat \<Rightarrow> int" where
  "decimal_exponent a =
     (if a \<ge> 1 then int (length (decimal (nat \<lfloor>a\<rfloor>))) - 1
      else - int (length (decimal (nat (\<lceil>1 / a\<rceil> - 1)))))"

fun strip_zeros :: "string \<Rightarrow> string" where
  "strip_zeros s = rev (dropWhile (\<lambda>c. c = digit 0) (rev s))"

definition fraction_part :: "string \<Rightarrow> string" where
  "fraction_part digits = (let s = strip_zeros digits in if s = [] then [] else CHR ''.'' # s)"

text \<open>\<open>to_chars (value, general, 17)\<close>.\<close>

definition to_chars_general :: "rat \<Rightarrow> string" where
  "to_chars_general v =
     (if v = 0 then [digit 0]
      else
        let a = \<bar>v\<bar>;
            x0 = decimal_exponent a;
            m0 = round_half_even (a * 10 powi (16 - x0));
            (m, x) = (if m0 = 10 ^ 17 then (10 ^ 16, x0 + 1) else (m0, x0));
            digits = decimal (nat m);
            sign = (if v < 0 then [CHR ''-''] else [])
        in if - 4 \<le> x \<and> x < 17 then
             (if x \<ge> 0 then sign @ take (nat x + 1) digits @ fraction_part (drop (nat x + 1) digits)
              else sign @ [digit 0] @ fraction_part (replicate (nat (- x) - 1) (digit 0) @ digits))
           else
             sign @ take 1 digits @ fraction_part (drop 1 digits) @ [CHR ''e''] @
             (if x < 0 then [CHR ''-''] else [CHR ''+'']) @
             (let e = decimal (nat \<bar>x\<bar>) in if length e < 2 then digit 0 # e else e))"

definition append_unsigned :: "u64 \<Rightarrow> exn + string" where
  "append_unsigned v =
     (let s = decimal (unat v) in
      if length s > 32 then Inl (Runtime_error ''failed to serialize unsigned integer'') else Inr s)"

definition append_size :: "nat \<Rightarrow> exn + string" where
  "append_size v = append_unsigned (word_of_nat v)"

definition append_double :: "double \<Rightarrow> exn + string" where
  "append_double v =
     (case v of
        Fin a \<Rightarrow>
          let s = to_chars_general a in
          if length s > 64 then Inl (Runtime_error ''failed to serialize controller number'')
          else Inr (s @ (if list_ex (\<lambda>c. c \<in> set ''.eE'') s then [] else ''.0''))
      | _ \<Rightarrow> Inl (Runtime_error ''refusing to serialize non-finite controller value''))"

definition append_bool :: "bool \<Rightarrow> exn + string" where
  "append_bool b = Inr (if b then ''true'' else ''false'')"

definition append_optional_unsigned :: "u64 option \<Rightarrow> exn + string" where
  "append_optional_unsigned v = (case v of Some x \<Rightarrow> append_unsigned x | None \<Rightarrow> Inr ''null'')"

definition append_optional_double :: "double option \<Rightarrow> exn + string" where
  "append_optional_double v = (case v of Some x \<Rightarrow> append_double x | None \<Rightarrow> Inr ''null'')"

section \<open>JSON\<close>

text \<open>A sequence of appends: the first exception ends it.\<close>

fun appends :: "(exn + string) list \<Rightarrow> exn + string" where
  "appends [] = Inr []"
| "appends (Inl e # rest) = Inl e"
| "appends (Inr s # rest) = (case appends rest of Inl e \<Rightarrow> Inl e | Inr t \<Rightarrow> Inr (s @ t))"

definition quote_char :: char where "quote_char = char_of (34 :: nat)"
definition backslash_char :: char where "backslash_char = char_of (92 :: nat)"

definition escape_char :: "char \<Rightarrow> exn + string" where
  "escape_char c =
     (if c = quote_char then Inr [backslash_char, quote_char]
      else if c = backslash_char then Inr [backslash_char, backslash_char]
      else if c = char_of (10 :: nat) then Inr [backslash_char, CHR ''n'']
      else if c = char_of (13 :: nat) then Inr [backslash_char, CHR ''r'']
      else if c = char_of (9 :: nat) then Inr [backslash_char, CHR ''t'']
      else if (of_char c :: nat) < 32
        then Inl (Runtime_error ''controller trace string contains a control character'')
      else Inr [c])"

definition append_json_string :: "string \<Rightarrow> exn + string" where
  "append_json_string s = appends ([Inr [quote_char]] @ map escape_char s @ [Inr [quote_char]])"

text \<open>\<open>key first name\<close> is the literal text before a value: an opening brace or a comma, the quoted
  name and a colon.\<close>

definition key :: "string \<Rightarrow> string \<Rightarrow> exn + string" where
  "key before name = Inr (before @ [quote_char] @ name @ [quote_char] @ '':'')"

definition append_estimate :: "controller_estimate \<Rightarrow> exn + string" where
  "append_estimate e =
     appends [key ''{'' ''fiveSecond'', append_optional_double (five_second e),
              key '','' ''oneSecond'', append_optional_double (one_second e), Inr ''}'']"

definition append_feedback :: "controller_feedback \<Rightarrow> exn + string" where
  "append_feedback f =
     appends
       [key ''{'' ''arrivalSequence'', append_unsigned (fb_arrival_sequence f),
        key '','' ''lossFraction'', append_optional_double (fb_loss_fraction f),
        key '','' ''receiverDecodedFrames'', append_optional_unsigned (fb_receiver_decoded_frames f),
        key '','' ''receiverDroppedFrames'', append_optional_unsigned (fb_receiver_dropped_frames f),
        key '','' ''rembBitsPerSecond'', append_optional_double (fb_remb_bits_per_second f),
        key '','' ''rembPayloadTypeValid'', append_bool (fb_remb_payload_type_valid f),
        key '','' ''rembRtcpSourceValid'', append_bool (fb_remb_rtcp_source_valid f),
        key '','' ''roundTripTimeMilliseconds'', append_optional_double (fb_round_trip_time_milliseconds f),
        key '','' ''senderArrivalMilliseconds'', append_unsigned (fb_sender_arrival_milliseconds f),
        key '','' ''sourceTimeMilliseconds'', append_optional_unsigned (fb_source_time_milliseconds f),
        Inr ''}'']"

text \<open>The elements of an array with commas between them.\<close>

fun separated :: "(exn + string) list \<Rightarrow> (exn + string) list" where
  "separated [] = []"
| "separated [x] = [x]"
| "separated (x # y # rest) = x # Inr '','' # separated (y # rest)"

definition append_feedbacks :: "controller_feedback list \<Rightarrow> exn + string" where
  "append_feedbacks fs = appends (separated (map append_feedback fs))"

definition append_estimators :: "controller_estimator_snapshot \<Rightarrow> exn + string" where
  "append_estimators e =
     appends
       [key ''{'' ''deliveredFramesPerSecond'', append_estimate (es_delivered_frames_per_second e),
        key '','' ''elementaryStreamBps'', append_estimate (es_elementary_stream_bps e),
        key '','' ''lossFraction'', append_estimate (es_loss_fraction e),
        key '','' ''oldestMediaAgeMilliseconds'', append_estimate (es_oldest_media_age_milliseconds e),
        key '','' ''retransmissionBps'', append_estimate (es_retransmission_bps e),
        key '','' ''roundTripTimeMilliseconds'', append_estimate (es_round_trip_time_milliseconds e),
        key '','' ''wireEgressBps'', append_estimate (es_wire_egress_bps e),
        Inr ''}'']"

definition append_raw_input :: "controller_tick_input \<Rightarrow> controller_decision \<Rightarrow> exn + string" where
  "append_raw_input input decision =
     (let config = dc_controller_config decision; counters = in_counters input in
      appends
       [key ''{'' ''controllerConfig'',
        key ''{'' ''baseEntryThreshold'', append_double (base_entry_threshold config),
        key '','' ''baseExitThreshold'', append_double (base_exit_threshold config),
        key '','' ''basePayloadTargetBps'', append_unsigned (base_payload_target_bps config),
        key ''},'' ''counters'',
        key ''{'' ''deliveredFrames'', append_unsigned (delivered_frames counters),
        key '','' ''elementaryStreamBytes'', append_unsigned (elementary_stream_bytes counters),
        key '','' ''retransmissionBytes'', append_unsigned (retransmission_bytes counters),
        key '','' ''wireEgressBytes'', append_unsigned (wire_egress_bytes counters),
        key ''},'' ''dropFraction'', append_double (in_drop_fraction input),
        key '','' ''encodeLatencyMilliseconds'', append_double (in_encode_latency_milliseconds input),
        key '','' ''mapLevelHistogram'', Inr ''['',
        appends (separated (map append_unsigned (in_map_level_histogram input))),
        key ''],'' ''oldestMediaAgeMilliseconds'', append_double (in_oldest_media_age_milliseconds input),
        key '','' ''pacerQueueBytes'', append_unsigned (in_pacer_queue_bytes input),
        key '','' ''pacerQueuePackets'', append_unsigned (in_pacer_queue_packets input),
        key '','' ''pinnedRegionViolation'', append_bool (in_pinned_region_violation input),
        key '','' ''protectedFraction'', append_double (in_protected_fraction input),
        key '','' ''userWireCapBps'', append_unsigned (in_user_wire_cap_bps input),
        Inr ''}''])"

definition append_rounding :: "controller_decision \<Rightarrow> exn + string" where
  "append_rounding decision =
     appends
       [key ''{'' ''controlReserveBps'', append_double (dc_control_reserve_bps decision),
        key '','' ''counterReset'', append_bool (dc_counter_reset decision),
        key '','' ''effectiveWireCapBps'', append_double (dc_effective_wire_cap_bps decision),
        key '','' ''entryThreshold'', append_double (dc_entry_threshold decision),
        key '','' ''exitThreshold'', append_double (dc_exit_threshold decision),
        key '','' ''feedbackLossAvailable'', append_bool (dc_feedback_loss_available decision),
        key '','' ''feedbackRembAvailable'', append_bool (dc_feedback_remb_available decision),
        key '','' ''feedbackRttAvailable'', append_bool (dc_feedback_rtt_available decision),
        key '','' ''payloadBudgetBps'', append_double (dc_payload_budget_bps decision),
        key '','' ''pinnedRegionViolationVisible'', append_bool (dc_pinned_region_violation_visible decision),
        key '','' ''requestIdrWithParameterSets'', append_bool (dc_request_idr_with_parameter_sets decision),
        key '','' ''startsDependencyEpoch'', append_bool (dc_starts_dependency_epoch decision),
        key '','' ''startsGeometryEpoch'', append_bool (dc_starts_geometry_epoch decision),
        Inr ''}'']"

definition append_levels :: "controller_level_stack \<Rightarrow> exn + string" where
  "append_levels levels =
     appends
       [key ''{'' ''automaticEmphasisCap'', append_unsigned (ucast (automatic_emphasis_cap levels)),
        key '','' ''framesPerSecond'', append_unsigned (ucast (lv_frames_per_second levels)),
        key '','' ''height'', append_unsigned (ucast (lv_height levels)),
        key '','' ''payloadAndVbvStep'', append_size (payload_and_vbv_step levels),
        key '','' ''payloadTargetBps'', append_unsigned (payload_target_bps levels),
        key '','' ''presentationProfile'', append_json_string (presentation_profile levels),
        key '','' ''protectedThresholdDelta'', append_double (protected_threshold_delta levels),
        key '','' ''width'', append_unsigned (ucast (lv_width levels)),
        Inr ''}'']"

definition controller_trace_json :: "controller_tick_input \<Rightarrow> controller_decision \<Rightarrow> exn + string" where
  "controller_trace_json input decision =
     appends
       [key ''{'' ''action'', append_json_string (controller_action_name (dc_action decision)),
        key '','' ''arrivalSequence'', append_unsigned (dc_arrival_sequence decision),
        key '','' ''consumedFeedback'', Inr ''['', append_feedbacks (dc_consumed_feedback decision),
        key ''],'' ''dependencyEpoch'', append_unsigned (dc_dependency_epoch decision),
        key '','' ''estimatorInputs'', append_estimators (dc_estimators decision),
        key '','' ''priorState'', append_json_string (controller_state_name (dc_prior_state decision)),
        key '','' ''rawInput'', append_raw_input input decision,
        key '','' ''reason'', append_json_string (dc_reason decision),
        key '','' ''resultingState'', append_json_string (controller_state_name (dc_resulting_state decision)),
        key '','' ''roundingResults'', append_rounding decision,
        key '','' ''selectedLevelStack'', append_levels (dc_levels decision),
        key '','' ''senderArrivalMilliseconds'', append_unsigned (dc_sender_arrival_milliseconds decision),
        key '','' ''sourceTimeMilliseconds'', append_optional_unsigned (dc_source_time_milliseconds decision),
        Inr ''}'']"

end
