(* ===== verification/Controller.thy ===== *)
theory Controller
  imports Controller_Trace
begin

text \<open>
  \<open>ProtectedRegionController\<close> (\<^verbatim>\<open>src/transport/controller.cpp\<close>): the rate controller of a session.
  Receiver feedback and sender counters feed exponentially weighted averages; every tick derives
  pressure, hard violation and compliance from them, moves a five-state machine, and changes at
  most one quality level, degrading in a fixed order and restoring in the reverse order.

  Floating-point numbers are those of \<open>Binary64\<close>. The C library functions \<open>exp\<close> and \<open>pow\<close>, whose
  results are implementation defined, are the parameter \<open>lm\<close> of the definitions that use them. An
  exception leaves the object in the state it had reached.
\<close>

section \<open>Constants and helpers\<close>

record libm =
  lm_exp :: "double \<Rightarrow> double"
  lm_pow :: "double \<Rightarrow> double \<Rightarrow> double"

text \<open>A floating-point literal is the double nearest to it.\<close>

definition lit :: "rat \<Rightarrow> double" where
  "lit a = round_double a"

definition kAutomaticCaps :: "u8 list" where
  "kAutomaticCaps = [4, 3, 2, 1, 0]"

definition kThresholdDeltas :: "double list" where
  "kThresholdDeltas = [lit 0, lit (5 / 100), lit (10 / 100), lit (15 / 100)]"

definition kMinimumPayloadBps :: u64 where "kMinimumPayloadBps = 100000"
definition kFeedbackMaximumAgeMilliseconds :: u64 where "kFeedbackMaximumAgeMilliseconds = 2000"
definition kActionIntervalMilliseconds :: u64 where "kActionIntervalMilliseconds = 500"
definition kReversalIntervalMilliseconds :: u64 where "kReversalIntervalMilliseconds = 2000"
definition kRecoveryEntryMilliseconds :: u64 where "kRecoveryEntryMilliseconds = 1000"
definition kStableReturnMilliseconds :: u64 where "kStableReturnMilliseconds = 5000"
definition kUnusableViolationMilliseconds :: u64 where "kUnusableViolationMilliseconds = 3000"
definition kPacerHardBytes :: u64 where "kPacerHardBytes = 4 * 1024 * 1024"

record presentation_profile_entry =
  pp_name :: string
  pp_width :: u32
  pp_height :: u32
  pp_frames_per_second :: u32

definition kProfiles :: "presentation_profile_entry list" where
  "kProfiles =
     [\<lparr>pp_name = ''720p30'', pp_width = 1280, pp_height = 720, pp_frames_per_second = 30\<rparr>,
      \<lparr>pp_name = ''720p24'', pp_width = 1280, pp_height = 720, pp_frames_per_second = 24\<rparr>,
      \<lparr>pp_name = ''720p15'', pp_width = 1280, pp_height = 720, pp_frames_per_second = 15\<rparr>]"

text \<open>\<open>std::array::at\<close>.\<close>

definition array_at :: "'a list \<Rightarrow> nat \<Rightarrow> exn + 'a" where
  "array_at xs i = (if i < length xs then Inr (xs ! i) else Inl (Out_of_range ''array::at''))"

definition require_finite_nonnegative :: "double \<Rightarrow> string \<Rightarrow> exn option" where
  "require_finite_nonnegative v field =
     (if \<not> d_isfinite v \<or> d_less v (Fin 0)
      then Some (Invalid_argument (field @ '' must be finite and nonnegative'')) else None)"

definition require_fraction :: "double \<Rightarrow> string \<Rightarrow> exn option" where
  "require_fraction v field =
     (if \<not> d_isfinite v \<or> d_less v (Fin 0) \<or> d_less (Fin 1) v
      then Some (Invalid_argument (field @ '' must be a finite fraction'')) else None)"

text \<open>Checks in sequence: the first that fails throws.\<close>

fun first_failure :: "exn option list \<Rightarrow> exn option" where
  "first_failure [] = None"
| "first_failure (Some e # rest) = Some e"
| "first_failure (None # rest) = first_failure rest"

definition round_ties_to_even :: "double \<Rightarrow> exn + u64" where
  "round_ties_to_even v =
     (case require_finite_nonnegative v ''rounded value'' of
        Some e \<Rightarrow> Inl e
      | None \<Rightarrow>
          if d_le (d_of_u64 (- 1)) v then Inl (Overflow_error ''rounded value exceeds uint64'')
          else case v of
            Fin a \<Rightarrow>
              let floor_value = Fin (of_int \<lfloor>a\<rfloor>);
                  fraction = d_sub v floor_value;
                  integer = word_of_int \<lfloor>a\<rfloor> :: u64
              in Inr (if d_less (Fin (1 / 2)) fraction \<or> d_equal fraction (Fin (1 / 2)) \<and> odd (unat integer)
                      then integer + 1 else integer)
          | _ \<Rightarrow> Inr 0)"

definition update_ewma :: "libm \<Rightarrow> double \<Rightarrow> double \<Rightarrow> double \<Rightarrow> double \<Rightarrow> double" where
  "update_ewma lm previous sample dt_milliseconds tau_milliseconds =
     (let alpha = d_sub (Fin 1) (lm_exp lm (d_div (d_neg dt_milliseconds) tau_milliseconds))
      in d_add (d_mul alpha sample) (d_mul (d_sub (Fin 1) alpha) previous))"

definition fresh :: "u64 option \<Rightarrow> u64 \<Rightarrow> bool" where
  "fresh arrival now =
     (case arrival of None \<Rightarrow> False
      | Some t \<Rightarrow> now \<ge> t \<and> now - t \<le> kFeedbackMaximumAgeMilliseconds)"

section \<open>Estimators\<close>

record rate_estimator =
  re_previous_counter :: "u64 option"
  re_previous_milliseconds :: "u64 option"
  re_estimate :: controller_estimate

definition new_rate_estimator :: rate_estimator where
  "new_rate_estimator =
     \<lparr>re_previous_counter = None, re_previous_milliseconds = None, re_estimate = no_estimate\<rparr>"

text \<open>Both averages are set together, so the second is present whenever the first is.\<close>

definition update_estimate :: "libm \<Rightarrow> controller_estimate \<Rightarrow> double \<Rightarrow> u64 \<Rightarrow> controller_estimate" where
  "update_estimate lm e sample dt =
     e\<lparr>one_second := map_option (\<lambda>p. update_ewma lm p sample (d_of_u64 dt) (Fin 1000)) (one_second e),
       five_second := map_option (\<lambda>p. update_ewma lm p sample (d_of_u64 dt) (Fin 5000)) (five_second e)\<rparr>"

definition rate_update ::
  "libm \<Rightarrow> rate_estimator \<Rightarrow> u64 \<Rightarrow> u64 \<Rightarrow> double \<Rightarrow> (bool, rate_estimator) outcome" where
  "rate_update lm r counter now_milliseconds scale =
     (case (re_previous_counter r, re_previous_milliseconds r) of
        (Some previous_counter, Some previous_milliseconds) \<Rightarrow>
          if now_milliseconds \<le> previous_milliseconds
            then (Inl (Invalid_argument ''controller counter time must increase''), r)
          else
            let seen = r\<lparr>re_previous_counter := Some counter, re_previous_milliseconds := Some now_milliseconds\<rparr> in
            if counter < previous_counter then (Inr True, seen\<lparr>re_estimate := no_estimate\<rparr>)
            else
              let delta = counter - previous_counter;
                  dt = now_milliseconds - previous_milliseconds;
                  sample = d_div (d_mul (d_mul (d_of_u64 delta) scale) (Fin 1000)) (d_of_u64 dt)
              in (Inr False, seen\<lparr>re_estimate :=
                    (if one_second (re_estimate r) \<noteq> None then update_estimate lm (re_estimate r) sample dt
                     else \<lparr>one_second = Some sample, five_second = Some sample\<rparr>)\<rparr>)
      | _ \<Rightarrow> (Inr False, r\<lparr>re_previous_counter := Some counter, re_previous_milliseconds := Some now_milliseconds\<rparr>))"

record gauge_estimator =
  ga_previous_milliseconds :: "u64 option"
  ga_estimate :: controller_estimate

definition new_gauge_estimator :: gauge_estimator where
  "new_gauge_estimator = \<lparr>ga_previous_milliseconds = None, ga_estimate = no_estimate\<rparr>"

definition gauge_update :: "libm \<Rightarrow> gauge_estimator \<Rightarrow> double \<Rightarrow> u64 \<Rightarrow> (unit, gauge_estimator) outcome" where
  "gauge_update lm g sample now_milliseconds =
     (case require_finite_nonnegative sample ''controller gauge'' of
        Some e \<Rightarrow> (Inl e, g)
      | None \<Rightarrow>
        (case ga_previous_milliseconds g of
           None \<Rightarrow> (Inr (), \<lparr>ga_previous_milliseconds = Some now_milliseconds,
                              ga_estimate = \<lparr>one_second = Some sample, five_second = Some sample\<rparr>\<rparr>)
         | Some previous \<Rightarrow>
             if now_milliseconds < previous
               then (Inl (Invalid_argument ''controller gauge time regressed''), g)
             else (Inr (), \<lparr>ga_previous_milliseconds = Some now_milliseconds,
                            ga_estimate = update_estimate lm (ga_estimate g) sample (now_milliseconds - previous)\<rparr>)))"

record feedback_value =
  fv_value :: "double option"
  fv_arrival_milliseconds :: "u64 option"

definition no_feedback :: feedback_value where
  "no_feedback = \<lparr>fv_value = None, fv_arrival_milliseconds = None\<rparr>"

section \<open>State\<close>

record degradation_step =
  dg_action :: controller_action
  dg_applied_milliseconds :: u64

text \<open>The estimators and the latest feedback values.\<close>

record controller_measurements =
  ms_elementary :: rate_estimator
  ms_wire :: rate_estimator
  ms_retransmission :: rate_estimator
  ms_delivered :: rate_estimator
  ms_queue_age :: gauge_estimator
  ms_loss :: gauge_estimator
  ms_rtt :: gauge_estimator
  ms_latest_loss :: feedback_value
  ms_latest_rtt :: feedback_value
  ms_latest_remb :: feedback_value

record protected_region_controller =
  pc_config :: controller_config
  pc_state :: controller_state
  pc_pending_feedback :: "controller_feedback list"
  pc_last_feedback_sequence :: "u64 option"
  pc_last_feedback_arrival_milliseconds :: "u64 option"
  pc_last_tick_sequence :: "u64 option"
  pc_last_tick_milliseconds :: "u64 option"
  pc_automatic_emphasis_index :: nat
  pc_protected_threshold_index :: nat
  pc_payload_step :: nat
  pc_profile_index :: nat
  pc_pressure_ticks :: nat
  pc_recovery_compliant_since :: "u64 option"
  pc_recovery_entered :: "u64 option"
  pc_stable_compliant_since :: "u64 option"
  pc_unusable_violation_since :: "u64 option"
  pc_last_action :: "u64 option"
  pc_last_restoration :: "u64 option"
  pc_degradation_history :: "degradation_step list"
  pc_measurements :: controller_measurements

definition make_controller :: "controller_config \<Rightarrow> exn + protected_region_controller" where
  "make_controller config =
     (case first_failure
        [if base_payload_target_bps config < kMinimumPayloadBps
           then Some (Invalid_argument ''base payload target is below the frozen profile minimum'') else None,
         require_fraction (base_entry_threshold config) ''base entry threshold'',
         require_fraction (base_exit_threshold config) ''base exit threshold'',
         if d_le (base_entry_threshold config) (base_exit_threshold config) \<or>
            d_less (d_sub (base_entry_threshold config) (base_exit_threshold config)) (lit (10 / 100))
           then Some (Invalid_argument ''base thresholds must preserve at least 0.10 hysteresis'') else None] of
        Some e \<Rightarrow> Inl e
      | None \<Rightarrow> Inr
          \<lparr>pc_config = config, pc_state = Stable, pc_pending_feedback = [], pc_last_feedback_sequence = None,
           pc_last_feedback_arrival_milliseconds = None, pc_last_tick_sequence = None,
           pc_last_tick_milliseconds = None, pc_automatic_emphasis_index = 0, pc_protected_threshold_index = 0,
           pc_payload_step = 0, pc_profile_index = 0, pc_pressure_ticks = 0, pc_recovery_compliant_since = None,
           pc_recovery_entered = None, pc_stable_compliant_since = None, pc_unusable_violation_since = None,
           pc_last_action = None, pc_last_restoration = None, pc_degradation_history = [],
           pc_measurements =
             \<lparr>ms_elementary = new_rate_estimator, ms_wire = new_rate_estimator,
              ms_retransmission = new_rate_estimator, ms_delivered = new_rate_estimator,
              ms_queue_age = new_gauge_estimator, ms_loss = new_gauge_estimator, ms_rtt = new_gauge_estimator,
              ms_latest_loss = no_feedback, ms_latest_rtt = no_feedback, ms_latest_remb = no_feedback\<rparr>\<rparr>)"

section \<open>Feedback\<close>

definition check :: "bool \<Rightarrow> string \<Rightarrow> exn option" where
  "check fails reason = (if fails then Some (Invalid_argument reason) else None)"

definition optional_check :: "(double \<Rightarrow> exn option) \<Rightarrow> double option \<Rightarrow> exn option" where
  "optional_check f v = (case v of None \<Rightarrow> None | Some x \<Rightarrow> f x)"

definition at_most :: "u64 \<Rightarrow> u64 option \<Rightarrow> bool" where
  "at_most x bound = (case bound of None \<Rightarrow> False | Some y \<Rightarrow> x \<le> y)"

definition below :: "u64 \<Rightarrow> u64 option \<Rightarrow> bool" where
  "below x bound = (case bound of None \<Rightarrow> False | Some y \<Rightarrow> x < y)"

definition push_feedback ::
  "protected_region_controller \<Rightarrow> controller_feedback \<Rightarrow> (unit, protected_region_controller) outcome" where
  "push_feedback c f =
     (case first_failure
        [check (fb_arrival_sequence f = 0) ''feedback arrival sequence zero is reserved'',
         check (at_most (fb_arrival_sequence f) (pc_last_feedback_sequence c))
           ''feedback arrival sequence must strictly increase'',
         check (below (fb_sender_arrival_milliseconds f) (pc_last_feedback_arrival_milliseconds c))
           ''feedback arrival time must not regress'',
         check (at_most (fb_arrival_sequence f) (pc_last_tick_sequence c))
           ''feedback pushed after its arrival sequence was already ticked'',
         check (below (fb_sender_arrival_milliseconds f) (pc_last_tick_milliseconds c))
           ''feedback pushed after its sender arrival time was already ticked'',
         optional_check (\<lambda>x. require_fraction x ''feedback loss'') (fb_loss_fraction f),
         optional_check (\<lambda>x. require_finite_nonnegative x ''feedback RTT'') (fb_round_trip_time_milliseconds f),
         optional_check (\<lambda>x. require_finite_nonnegative x ''feedback REMB'') (fb_remb_bits_per_second f),
         optional_check (\<lambda>x. check (d_equal x (Fin 0)) ''feedback REMB must be positive'')
           (fb_remb_bits_per_second f)] of
        Some e \<Rightarrow> (Inl e, c)
      | None \<Rightarrow>
          (Inr (), c\<lparr>pc_last_feedback_sequence := Some (fb_arrival_sequence f),
                     pc_last_feedback_arrival_milliseconds := Some (fb_sender_arrival_milliseconds f),
                     pc_pending_feedback := pc_pending_feedback c @ [f]\<rparr>))"

text \<open>One feedback message: its loss, its round-trip time, its bandwidth estimate.\<close>

definition consume_loss ::
  "libm \<Rightarrow> controller_feedback \<Rightarrow> controller_measurements \<Rightarrow> (unit, controller_measurements) outcome" where
  "consume_loss lm f ms =
     (case fb_loss_fraction f of
        None \<Rightarrow> (Inr (), ms)
      | Some x \<Rightarrow>
          (case gauge_update lm (ms_loss ms) x (fb_sender_arrival_milliseconds f) of
             (Inl e, g) \<Rightarrow> (Inl e, ms\<lparr>ms_loss := g\<rparr>)
           | (Inr _, g) \<Rightarrow>
               (Inr (), ms\<lparr>ms_loss := g,
                  ms_latest_loss := \<lparr>fv_value = Some x,
                     fv_arrival_milliseconds = Some (fb_sender_arrival_milliseconds f)\<rparr>\<rparr>)))"

definition consume_rtt ::
  "libm \<Rightarrow> controller_feedback \<Rightarrow> controller_measurements \<Rightarrow> (unit, controller_measurements) outcome" where
  "consume_rtt lm f ms =
     (case fb_round_trip_time_milliseconds f of
        None \<Rightarrow> (Inr (), ms)
      | Some x \<Rightarrow>
          (case gauge_update lm (ms_rtt ms) x (fb_sender_arrival_milliseconds f) of
             (Inl e, g) \<Rightarrow> (Inl e, ms\<lparr>ms_rtt := g\<rparr>)
           | (Inr _, g) \<Rightarrow>
               (Inr (), ms\<lparr>ms_rtt := g,
                  ms_latest_rtt := \<lparr>fv_value = Some x,
                     fv_arrival_milliseconds = Some (fb_sender_arrival_milliseconds f)\<rparr>\<rparr>)))"

definition consume_remb :: "controller_feedback \<Rightarrow> controller_measurements \<Rightarrow> controller_measurements" where
  "consume_remb f ms =
     (if fb_remb_bits_per_second f \<noteq> None \<and> fb_remb_payload_type_valid f \<and> fb_remb_rtcp_source_valid f
      then ms\<lparr>ms_latest_remb := \<lparr>fv_value = fb_remb_bits_per_second f,
                fv_arrival_milliseconds = Some (fb_sender_arrival_milliseconds f)\<rparr>\<rparr>
      else ms)"

definition consume_one ::
  "libm \<Rightarrow> controller_feedback \<Rightarrow> controller_measurements \<Rightarrow> (unit, controller_measurements) outcome" where
  "consume_one lm f ms =
     and_then (consume_loss lm f ms) (\<lambda>_ ms.
     and_then (consume_rtt lm f ms) (\<lambda>_ ms. (Inr (), consume_remb f ms)))"

text \<open>The loop of \<open>consume_feedback\<close> over the pending messages: what is left, what was consumed.\<close>

fun consume_loop ::
  "libm \<Rightarrow> controller_tick_input \<Rightarrow> controller_feedback list \<Rightarrow> controller_feedback list \<Rightarrow>
   controller_measurements \<Rightarrow>
   (controller_feedback list, controller_feedback list \<times> controller_measurements) outcome" where
  "consume_loop lm input [] consumed ms = (Inr consumed, ([], ms))"
| "consume_loop lm input (f # pending) consumed ms =
     (if fb_arrival_sequence f \<ge> in_arrival_sequence input \<or>
         fb_sender_arrival_milliseconds f > in_sender_arrival_milliseconds input
        then (Inr consumed, (f # pending, ms))
      else (case consume_one lm f ms of
              (Inl e, ms) \<Rightarrow> (Inl e, (pending, ms))
            | (Inr _, ms) \<Rightarrow> consume_loop lm input pending (consumed @ [f]) ms))"

definition consume_feedback ::
  "libm \<Rightarrow> controller_tick_input \<Rightarrow> protected_region_controller \<Rightarrow>
   (controller_feedback list, protected_region_controller) outcome" where
  "consume_feedback lm input c =
     (case consume_loop lm input (pc_pending_feedback c) [] (pc_measurements c) of
        (r, (pending, ms)) \<Rightarrow> (r, c\<lparr>pc_pending_feedback := pending, pc_measurements := ms\<rparr>))"

section \<open>Levels\<close>

definition current_payload_target_bps :: "libm \<Rightarrow> protected_region_controller \<Rightarrow> exn + u64" where
  "current_payload_target_bps lm c =
     (let reduced = d_mul (d_of_u64 (base_payload_target_bps (pc_config c)))
                      (lm_pow lm (lit (90 / 100)) (d_of_nat (pc_payload_step c)))
      in map_sum id (max kMinimumPayloadBps) (round_ties_to_even reduced))"

definition payload_at_minimum :: "libm \<Rightarrow> protected_region_controller \<Rightarrow> exn + bool" where
  "payload_at_minimum lm c = map_sum id (\<lambda>t. t = kMinimumPayloadBps) (current_payload_target_bps lm c)"

text \<open>Short-circuit conjunction with an operand that may throw.\<close>

definition and_also :: "bool \<Rightarrow> exn + bool \<Rightarrow> exn + bool" where
  "and_also a b = (if a then b else Inr False)"

definition at_unusable_levels :: "libm \<Rightarrow> protected_region_controller \<Rightarrow> exn + bool" where
  "at_unusable_levels lm c =
     and_also (size_add (pc_automatic_emphasis_index c) 1 = length kAutomaticCaps)
       (map_sum id (\<lambda>minimum. minimum \<and> size_add (pc_profile_index c) 1 = length kProfiles)
          (payload_at_minimum lm c))"

definition current_levels :: "libm \<Rightarrow> protected_region_controller \<Rightarrow> exn + controller_level_stack" where
  "current_levels lm c =
     (case array_at kProfiles (pc_profile_index c) of
        Inl e \<Rightarrow> Inl e
      | Inr profile \<Rightarrow>
        (case array_at kAutomaticCaps (pc_automatic_emphasis_index c) of
           Inl e \<Rightarrow> Inl e
         | Inr cap \<Rightarrow>
           (case array_at kThresholdDeltas (pc_protected_threshold_index c) of
              Inl e \<Rightarrow> Inl e
            | Inr delta \<Rightarrow>
                map_sum id (\<lambda>target.
                  \<lparr>automatic_emphasis_cap = cap, protected_threshold_delta = delta,
                   payload_and_vbv_step = pc_payload_step c, payload_target_bps = target,
                   presentation_profile = pp_name profile, lv_width = pp_width profile,
                   lv_height = pp_height profile, lv_frames_per_second = pp_frames_per_second profile\<rparr>)
                  (current_payload_target_bps lm c))))"

definition action_interval_elapsed :: "protected_region_controller \<Rightarrow> u64 \<Rightarrow> bool" where
  "action_interval_elapsed c now =
     (case pc_last_action c of None \<Rightarrow> True | Some t \<Rightarrow> now - t \<ge> kActionIntervalMilliseconds)"

definition restoration_interval_elapsed :: "protected_region_controller \<Rightarrow> u64 \<Rightarrow> bool" where
  "restoration_interval_elapsed c now =
     (if pc_degradation_history c = [] then False
      else if now - dg_applied_milliseconds (last (pc_degradation_history c)) < kReversalIntervalMilliseconds
        then False
      else (case pc_last_restoration c of None \<Rightarrow> True
            | Some t \<Rightarrow> now - t \<ge> kReversalIntervalMilliseconds))"

text \<open>Recording a degradation step in the history.\<close>

definition degraded :: "controller_action \<Rightarrow> u64 \<Rightarrow> protected_region_controller \<Rightarrow> protected_region_controller" where
  "degraded action now c =
     c\<lparr>pc_degradation_history := pc_degradation_history c @ [\<lparr>dg_action = action, dg_applied_milliseconds = now\<rparr>],
       pc_last_action := Some now\<rparr>"

definition degrade ::
  "libm \<Rightarrow> protected_region_controller \<Rightarrow> u64 \<Rightarrow> (controller_action, protected_region_controller) outcome" where
  "degrade lm c now =
     (if size_add (pc_automatic_emphasis_index c) 1 < length kAutomaticCaps then
        (Inr Reduce_automatic_emphasis,
         degraded Reduce_automatic_emphasis now
           (c\<lparr>pc_automatic_emphasis_index := size_add (pc_automatic_emphasis_index c) 1\<rparr>))
      else if size_add (pc_protected_threshold_index c) 1 < length kThresholdDeltas then
        (Inr Tighten_protected_threshold,
         degraded Tighten_protected_threshold now
           (c\<lparr>pc_protected_threshold_index := size_add (pc_protected_threshold_index c) 1\<rparr>))
      else (case payload_at_minimum lm c of
        Inl e \<Rightarrow> (Inl e, c)
      | Inr minimum \<Rightarrow>
          if \<not> minimum then
            (Inr Reduce_payload_and_vbv,
             degraded Reduce_payload_and_vbv now (c\<lparr>pc_payload_step := size_add (pc_payload_step c) 1\<rparr>))
          else if size_add (pc_profile_index c) 1 < length kProfiles then
            (Inr Reduce_presentation_profile,
             degraded Reduce_presentation_profile now (c\<lparr>pc_profile_index := size_add (pc_profile_index c) 1\<rparr>))
          else (Inr Action_none, c)))"

definition restored :: "u64 \<Rightarrow> protected_region_controller \<Rightarrow> protected_region_controller" where
  "restored now c = c\<lparr>pc_last_action := Some now, pc_last_restoration := Some now\<rparr>"

definition restore ::
  "protected_region_controller \<Rightarrow> u64 \<Rightarrow> (controller_action, protected_region_controller) outcome" where
  "restore c now =
     (if \<not> restoration_interval_elapsed c now then (Inr Action_none, c)
      else
        let applied = dg_action (last (pc_degradation_history c));
            c = c\<lparr>pc_degradation_history := butlast (pc_degradation_history c)\<rparr>
        in case applied of
          Reduce_presentation_profile \<Rightarrow>
            (Inr Restore_presentation_profile,
             restored now (c\<lparr>pc_profile_index := size_sub (pc_profile_index c) 1\<rparr>))
        | Reduce_payload_and_vbv \<Rightarrow>
            (Inr Restore_payload_and_vbv, restored now (c\<lparr>pc_payload_step := size_sub (pc_payload_step c) 1\<rparr>))
        | Tighten_protected_threshold \<Rightarrow>
            (Inr Restore_protected_threshold,
             restored now (c\<lparr>pc_protected_threshold_index := size_sub (pc_protected_threshold_index c) 1\<rparr>))
        | Reduce_automatic_emphasis \<Rightarrow>
            (Inr Restore_automatic_emphasis,
             restored now (c\<lparr>pc_automatic_emphasis_index := size_sub (pc_automatic_emphasis_index c) 1\<rparr>))
        | _ \<Rightarrow> (Inl (Logic_error ''controller degradation history is invalid''), c))"

section \<open>The tick\<close>

definition tick_refusal :: "protected_region_controller \<Rightarrow> controller_tick_input \<Rightarrow> exn option" where
  "tick_refusal c input =
     first_failure
       [check (in_arrival_sequence input = 0 \<or> in_dependency_epoch input = 0 \<or> in_user_wire_cap_bps input = 0)
          ''controller tick identifiers and cap must be nonzero'',
        check (at_most (in_arrival_sequence input) (pc_last_tick_sequence c))
          ''controller tick arrival sequence must strictly increase'',
        check (at_most (in_sender_arrival_milliseconds input) (pc_last_tick_milliseconds c))
          ''controller tick time must strictly increase'',
        require_finite_nonnegative (in_oldest_media_age_milliseconds input) ''oldest media age'',
        require_fraction (in_drop_fraction input) ''drop fraction'',
        require_fraction (in_protected_fraction input) ''protected fraction'',
        require_finite_nonnegative (in_encode_latency_milliseconds input) ''encode latency'']"

text \<open>The estimator updates of a tick, in the order of the code.\<close>

definition update_measurements ::
  "libm \<Rightarrow> controller_tick_input \<Rightarrow> controller_measurements \<Rightarrow> (bool, controller_measurements) outcome" where
  "update_measurements lm input ms =
     (let now = in_sender_arrival_milliseconds input; counters = in_counters input in
      case rate_update lm (ms_elementary ms) (elementary_stream_bytes counters) now (Fin 8) of
        (Inl e, r) \<Rightarrow> (Inl e, ms\<lparr>ms_elementary := r\<rparr>)
      | (Inr reset1, r) \<Rightarrow>
        let ms = ms\<lparr>ms_elementary := r\<rparr> in
        (case rate_update lm (ms_wire ms) (wire_egress_bytes counters) now (Fin 8) of
           (Inl e, r) \<Rightarrow> (Inl e, ms\<lparr>ms_wire := r\<rparr>)
         | (Inr reset2, r) \<Rightarrow>
           let ms = ms\<lparr>ms_wire := r\<rparr> in
           (case rate_update lm (ms_retransmission ms) (retransmission_bytes counters) now (Fin 8) of
              (Inl e, r) \<Rightarrow> (Inl e, ms\<lparr>ms_retransmission := r\<rparr>)
            | (Inr reset3, r) \<Rightarrow>
              let ms = ms\<lparr>ms_retransmission := r\<rparr> in
              (case rate_update lm (ms_delivered ms) (delivered_frames counters) now (Fin 1) of
                 (Inl e, r) \<Rightarrow> (Inl e, ms\<lparr>ms_delivered := r\<rparr>)
               | (Inr reset4, r) \<Rightarrow>
                 let ms = ms\<lparr>ms_delivered := r\<rparr> in
                 (case gauge_update lm (ms_queue_age ms) (in_oldest_media_age_milliseconds input) now of
                    (Inl e, g) \<Rightarrow> (Inl e, ms\<lparr>ms_queue_age := g\<rparr>)
                  | (Inr _, g) \<Rightarrow>
                      (Inr (reset1 \<or> reset2 \<or> reset3 \<or> reset4), ms\<lparr>ms_queue_age := g\<rparr>))))))"

definition available :: "feedback_value \<Rightarrow> u64 \<Rightarrow> bool" where
  "available v now = (fv_value v \<noteq> None \<and> fresh (fv_arrival_milliseconds v) now)"

definition estimator_snapshot :: "controller_measurements \<Rightarrow> u64 \<Rightarrow> controller_estimator_snapshot" where
  "estimator_snapshot ms now =
     \<lparr>es_elementary_stream_bps = re_estimate (ms_elementary ms),
      es_wire_egress_bps = re_estimate (ms_wire ms),
      es_retransmission_bps = re_estimate (ms_retransmission ms),
      es_loss_fraction = (if available (ms_latest_loss ms) now then ga_estimate (ms_loss ms) else no_estimate),
      es_round_trip_time_milliseconds =
        (if available (ms_latest_rtt ms) now then ga_estimate (ms_rtt ms) else no_estimate),
      es_oldest_media_age_milliseconds = ga_estimate (ms_queue_age ms),
      es_delivered_frames_per_second = re_estimate (ms_delivered ms)\<rparr>"

definition effective_wire_cap :: "controller_measurements \<Rightarrow> controller_tick_input \<Rightarrow> double" where
  "effective_wire_cap ms input =
     (let cap = d_of_u64 (in_user_wire_cap_bps input) in
      case fv_value (ms_latest_remb ms) of
        Some remb \<Rightarrow>
          if available (ms_latest_remb ms) (in_sender_arrival_milliseconds input)
          then d_min cap (d_mul (lit (90 / 100)) remb) else cap
      | None \<Rightarrow> cap)"

definition control_reserve :: "double \<Rightarrow> double" where
  "control_reserve cap = d_max (d_mul (lit (10 / 100)) cap) (Fin 64000)"

definition payload_budget :: "double \<Rightarrow> double" where
  "payload_budget cap = d_max (d_sub cap (control_reserve cap)) (Fin 0)"

definition exceeds :: "double option \<Rightarrow> double \<Rightarrow> bool" where
  "exceeds v bound = (case v of None \<Rightarrow> False | Some x \<Rightarrow> d_less bound x)"

definition stays_below :: "double option \<Rightarrow> double \<Rightarrow> bool" where
  "stays_below v bound = (case v of None \<Rightarrow> False | Some x \<Rightarrow> d_less x bound)"

definition pressure_predicate ::
  "libm \<Rightarrow> protected_region_controller \<Rightarrow> controller_tick_input \<Rightarrow> controller_estimator_snapshot \<Rightarrow> double \<Rightarrow>
   exn + bool" where
  "pressure_predicate lm c input es cap =
     (if exceeds (one_second (es_wire_egress_bps es)) (d_mul (lit (95 / 100)) cap) \<or>
         d_less (Fin 50) (in_oldest_media_age_milliseconds input) \<or>
         exceeds (one_second (es_loss_fraction es)) (lit (3 / 100)) \<or>
         exceeds (one_second (es_round_trip_time_milliseconds es)) (Fin 250)
      then Inr True
      else map_sum id (\<lambda>target. d_less (payload_budget cap) (d_of_u64 target)) (current_payload_target_bps lm c))"

definition hard_violation :: "controller_tick_input \<Rightarrow> controller_estimator_snapshot \<Rightarrow> double \<Rightarrow> bool" where
  "hard_violation input es cap =
     (exceeds (one_second (es_wire_egress_bps es)) (d_mul (lit (110 / 100)) cap) \<or>
      d_le (Fin 100) (in_oldest_media_age_milliseconds input) \<or>
      in_pacer_queue_bytes input \<ge> kPacerHardBytes)"

definition recovery_compliant ::
  "protected_region_controller \<Rightarrow> controller_tick_input \<Rightarrow> controller_estimator_snapshot \<Rightarrow> double \<Rightarrow> exn + bool"
where
  "recovery_compliant c input es cap =
     map_sum id (\<lambda>profile.
       let frame_interval = d_div (Fin 1000) (d_of_nat (unat (pp_frames_per_second profile))) in
       stays_below (one_second (es_wire_egress_bps es)) (d_mul (lit (85 / 100)) cap) \<and>
       d_less (in_oldest_media_age_milliseconds input) frame_interval \<and>
       (one_second (es_loss_fraction es) = None \<or> stays_below (one_second (es_loss_fraction es)) (lit (1 / 100))))
       (array_at kProfiles (pc_profile_index c))"

definition count_ticks ::
  "protected_region_controller \<Rightarrow> u64 \<Rightarrow> bool \<Rightarrow> bool \<Rightarrow> protected_region_controller" where
  "count_ticks c now pressure compliant =
     (let c = c\<lparr>pc_pressure_ticks := (if pressure then size_add (pc_pressure_ticks c) 1 else 0)\<rparr> in
      if compliant
      then c\<lparr>pc_recovery_compliant_since :=
               (case pc_recovery_compliant_since c of None \<Rightarrow> Some now | Some t \<Rightarrow> Some t)\<rparr>
      else c\<lparr>pc_recovery_compliant_since := None, pc_stable_compliant_since := None\<rparr>)"

text \<open>What a tick has decided so far.\<close>

record verdict =
  vd_action :: controller_action
  vd_request_idr :: bool
  vd_reason :: string

definition no_verdict :: verdict where
  "no_verdict = \<lparr>vd_action = Action_none, vd_request_idr = False, vd_reason = []\<rparr>"

text \<open>\<open>since && now - *since >= interval\<close>.\<close>

definition lasted :: "u64 option \<Rightarrow> u64 \<Rightarrow> u64 \<Rightarrow> bool" where
  "lasted since now interval = (case since of None \<Rightarrow> False | Some t \<Rightarrow> now - t \<ge> interval)"

definition advance_state ::
  "protected_region_controller \<Rightarrow> u64 \<Rightarrow> bool \<Rightarrow> verdict \<times> protected_region_controller" where
  "advance_state c now hard =
     (if pc_state c = Unusable then (no_verdict, c)
      else if hard then
        (no_verdict\<lparr>vd_reason := ''hard_congestion_predicate''\<rparr>,
         c\<lparr>pc_state := Congested, pc_recovery_entered := None, pc_stable_compliant_since := None\<rparr>)
      else if (pc_state c = Stable \<or> pc_state c = Recovery) \<and> pc_pressure_ticks c \<ge> 3 then
        (no_verdict\<lparr>vd_reason := ''three_consecutive_pressure_ticks''\<rparr>,
         c\<lparr>pc_state := Rate_pressure, pc_recovery_entered := None, pc_stable_compliant_since := None\<rparr>)
      else if (pc_state c = Rate_pressure \<or> pc_state c = Congested) \<and>
              lasted (pc_recovery_compliant_since c) now kRecoveryEntryMilliseconds then
        (\<lparr>vd_action = Request_recovery_idr, vd_request_idr = True, vd_reason = ''continuous_recovery_entry''\<rparr>,
         c\<lparr>pc_state := Recovery, pc_recovery_entered := Some now,
           pc_stable_compliant_since := pc_recovery_compliant_since c, pc_last_restoration := Some now\<rparr>)
      else if pc_state c = Recovery \<and> lasted (pc_stable_compliant_since c) now kStableReturnMilliseconds then
        (no_verdict\<lparr>vd_reason := ''five_seconds_continuously_compliant''\<rparr>, c\<lparr>pc_state := Stable\<rparr>)
      else (no_verdict, c))"

definition judge_unusable ::
  "libm \<Rightarrow> protected_region_controller \<Rightarrow> u64 \<Rightarrow> bool \<Rightarrow> verdict \<Rightarrow> (verdict, protected_region_controller) outcome"
where
  "judge_unusable lm c now hard v =
     (case and_also (pc_state c \<noteq> Unusable) (at_unusable_levels lm c) of
        Inl e \<Rightarrow> (Inl e, c)
      | Inr levels \<Rightarrow>
          if levels \<and> hard then
            let since = (case pc_unusable_violation_since c of None \<Rightarrow> now | Some t \<Rightarrow> t);
                c = c\<lparr>pc_unusable_violation_since := Some since\<rparr>
            in if now - since \<ge> kUnusableViolationMilliseconds
               then (Inr (v\<lparr>vd_action := Stop_unusable_link,
                            vd_reason := ''minimum_stack_hard_violation_for_three_seconds''\<rparr>),
                     c\<lparr>pc_state := Unusable\<rparr>)
               else (Inr v, c)
          else (Inr v, c\<lparr>pc_unusable_violation_since := None\<rparr>))"

definition with_action :: "verdict \<Rightarrow> controller_action \<Rightarrow> string \<Rightarrow> verdict" where
  "with_action v action reason =
     (if action \<noteq> Action_none then v\<lparr>vd_action := action, vd_reason := reason\<rparr> else v)"

definition change_level ::
  "libm \<Rightarrow> protected_region_controller \<Rightarrow> u64 \<Rightarrow> bool \<Rightarrow> verdict \<Rightarrow> (verdict, protected_region_controller) outcome"
where
  "change_level lm c now compliant v =
     (if vd_action v = Action_none \<and> (pc_state c = Rate_pressure \<or> pc_state c = Congested) \<and>
         action_interval_elapsed c now
      then and_then (degrade lm c now) (\<lambda>action c. (Inr (with_action v action ''ordered_degradation_step''), c))
      else if vd_action v = Action_none \<and> compliant \<and> (pc_state c = Recovery \<or> pc_state c = Stable)
      then and_then (restore c now) (\<lambda>action c. (Inr (with_action v action ''reverse_order_restoration_step''), c))
      else (Inr v, c))"

text \<open>From the three predicates to the verdict of the tick.\<close>

definition decide ::
  "libm \<Rightarrow> protected_region_controller \<Rightarrow> u64 \<Rightarrow> bool \<Rightarrow> bool \<Rightarrow> bool \<Rightarrow>
   (verdict, protected_region_controller) outcome" where
  "decide lm c now pressure hard compliant =
     (case advance_state (count_ticks c now pressure compliant) now hard of (v, c) \<Rightarrow>
        and_then (judge_unusable lm c now hard v) (\<lambda>v c. change_level lm c now compliant v))"

text \<open>The decision record that a tick returns, all but its trace.\<close>

definition presentation_change :: "controller_action \<Rightarrow> bool" where
  "presentation_change action =
     (action = Reduce_presentation_profile \<or> action = Restore_presentation_profile)"

definition make_decision ::
  "protected_region_controller \<Rightarrow> controller_tick_input \<Rightarrow> controller_state \<Rightarrow> controller_feedback list \<Rightarrow>
   bool \<Rightarrow> controller_estimator_snapshot \<Rightarrow> double \<Rightarrow> verdict \<Rightarrow> controller_level_stack \<Rightarrow> controller_decision"
where
  "make_decision c input prior consumed counter_reset es cap v levels =
     (let now = in_sender_arrival_milliseconds input; ms = pc_measurements c;
          entry = d_min (d_add (base_entry_threshold (pc_config c)) (protected_threshold_delta levels)) (Fin 1)
      in \<lparr>dc_arrival_sequence = in_arrival_sequence input,
          dc_sender_arrival_milliseconds = now,
          dc_source_time_milliseconds = in_source_time_milliseconds input,
          dc_dependency_epoch = in_dependency_epoch input,
          dc_controller_config = pc_config c,
          dc_prior_state = prior,
          dc_resulting_state = pc_state c,
          dc_action = vd_action v,
          dc_estimators = es,
          dc_levels = levels,
          dc_entry_threshold = entry,
          dc_exit_threshold =
            d_min (d_add (base_exit_threshold (pc_config c)) (protected_threshold_delta levels))
              (d_sub entry (lit (10 / 100))),
          dc_effective_wire_cap_bps = cap,
          dc_control_reserve_bps = control_reserve cap,
          dc_payload_budget_bps = payload_budget cap,
          dc_request_idr_with_parameter_sets = (vd_request_idr v \<or> presentation_change (vd_action v)),
          dc_starts_geometry_epoch = presentation_change (vd_action v),
          dc_starts_dependency_epoch = presentation_change (vd_action v),
          dc_pinned_region_violation_visible = in_pinned_region_violation input,
          dc_feedback_loss_available = available (ms_latest_loss ms) now,
          dc_feedback_rtt_available = available (ms_latest_rtt ms) now,
          dc_feedback_remb_available = available (ms_latest_remb ms) now,
          dc_counter_reset = counter_reset,
          dc_consumed_feedback = consumed,
          dc_reason = (if vd_reason v = [] then ''no_state_or_level_change'' else vd_reason v),
          dc_trace_json = []\<rparr>)"

text \<open>A value computed from the state, thrown or used.\<close>

definition with_value :: "exn + 'a \<Rightarrow> 's \<Rightarrow> ('a \<Rightarrow> ('b, 's) outcome) \<Rightarrow> ('b, 's) outcome" where
  "with_value x s k = (case x of Inl e \<Rightarrow> (Inl e, s) | Inr a \<Rightarrow> k a)"

definition finish_tick ::
  "libm \<Rightarrow> protected_region_controller \<Rightarrow> controller_tick_input \<Rightarrow> controller_state \<Rightarrow> controller_feedback list \<Rightarrow>
   bool \<Rightarrow> controller_estimator_snapshot \<Rightarrow> double \<Rightarrow> verdict \<Rightarrow>
   (controller_decision, protected_region_controller) outcome" where
  "finish_tick lm c input prior consumed counter_reset es cap v =
     with_value (current_levels lm c) c (\<lambda>levels.
       let decision = make_decision c input prior consumed counter_reset es cap v levels in
       with_value (controller_trace_json input decision) c (\<lambda>json.
         (Inr (decision\<lparr>dc_trace_json := json\<rparr>), c)))"

definition tick_measured ::
  "libm \<Rightarrow> protected_region_controller \<Rightarrow> controller_tick_input \<Rightarrow> controller_feedback list \<Rightarrow> bool \<Rightarrow>
   (controller_decision, protected_region_controller) outcome" where
  "tick_measured lm c input consumed counter_reset =
     (let now = in_sender_arrival_milliseconds input; prior = pc_state c;
          es = estimator_snapshot (pc_measurements c) now;
          cap = effective_wire_cap (pc_measurements c) input;
          hard = hard_violation input es cap
      in with_value (pressure_predicate lm c input es cap) c (\<lambda>pressure.
         with_value (recovery_compliant c input es cap) c (\<lambda>compliant.
         and_then (decide lm c now pressure hard compliant) (\<lambda>v c.
           finish_tick lm c input prior consumed counter_reset es cap v))))"

definition tick ::
  "libm \<Rightarrow> protected_region_controller \<Rightarrow> controller_tick_input \<Rightarrow>
   (controller_decision, protected_region_controller) outcome" where
  "tick lm c input =
     (case tick_refusal c input of
        Some e \<Rightarrow> (Inl e, c)
      | None \<Rightarrow>
          let c = c\<lparr>pc_last_tick_sequence := Some (in_arrival_sequence input),
                    pc_last_tick_milliseconds := Some (in_sender_arrival_milliseconds input)\<rparr>
          in and_then (consume_feedback lm input c) (\<lambda>consumed c.
             (case update_measurements lm input (pc_measurements c) of
                (Inl e, ms) \<Rightarrow> (Inl e, c\<lparr>pc_measurements := ms\<rparr>)
              | (Inr counter_reset, ms) \<Rightarrow>
                  tick_measured lm (c\<lparr>pc_measurements := ms\<rparr>) input consumed counter_reset)))"

end
