(* ===== verification/Controller_Safety.thy ===== *)
theory Controller_Safety
  imports Controller
begin

text \<open>
  What the controller guarantees over any sequence of \<open>push_feedback\<close> and \<open>tick\<close> calls, the ones
  that throw included: the quality levels form a last-in-first-out ladder, level changes keep their
  distance in time, every change of state rests on evidence that lasted, an unusable link is final,
  and feedback is consumed exactly once.
\<close>

section \<open>Calls\<close>

datatype controller_call = Push_feedback controller_feedback | Tick controller_tick_input

fun controller_step ::
  "libm \<Rightarrow> protected_region_controller \<Rightarrow> controller_call \<Rightarrow> protected_region_controller" where
  "controller_step lm c (Push_feedback f) = snd (push_feedback c f)"
| "controller_step lm c (Tick i) = snd (tick lm c i)"

abbreviation controller_run ::
  "libm \<Rightarrow> protected_region_controller \<Rightarrow> controller_call list \<Rightarrow> protected_region_controller" where
  "controller_run lm \<equiv> foldl (controller_step lm)"

text \<open>A tick that is not refused records its sequence number and time, and works on the pending
  feedback and the estimators.\<close>

definition touched ::
  "protected_region_controller \<Rightarrow> controller_tick_input \<Rightarrow> controller_feedback list \<Rightarrow>
   controller_measurements \<Rightarrow> protected_region_controller" where
  "touched c i pending ms =
     c\<lparr>pc_last_tick_sequence := Some (in_arrival_sequence i),
       pc_last_tick_milliseconds := Some (in_sender_arrival_milliseconds i),
       pc_pending_feedback := pending, pc_measurements := ms\<rparr>"

text \<open>What a tick measures: feedback consumed, feedback left, reset flag, estimators.\<close>

definition measure ::
  "libm \<Rightarrow> protected_region_controller \<Rightarrow> controller_tick_input \<Rightarrow>
   (controller_feedback list \<times> bool, controller_feedback list \<times> controller_measurements) outcome" where
  "measure lm c i =
     (case consume_loop lm i (pc_pending_feedback c) [] (pc_measurements c) of
        (Inl e, s) \<Rightarrow> (Inl e, s)
      | (Inr consumed, (pending, ms)) \<Rightarrow>
          (case update_measurements lm i ms of
             (Inl e, ms) \<Rightarrow> (Inl e, (pending, ms))
           | (Inr reset, ms) \<Rightarrow> (Inr (consumed, reset), (pending, ms))))"

lemma tick_measure:
  assumes "tick_refusal c i = None" "measure lm c i = (r, (pending, ms))"
  shows "tick lm c i =
    (case r of Inl e \<Rightarrow> (Inl e, touched c i pending ms)
     | Inr (consumed, reset) \<Rightarrow> tick_measured lm (touched c i pending ms) i consumed reset)"
  using assms
  by (auto simp: tick_def Let_def consume_feedback_def measure_def touched_def
      split: prod.splits sum.splits)

text \<open>The three predicates a tick evaluates, on the measured state.\<close>

definition tick_predicates ::
  "libm \<Rightarrow> protected_region_controller \<Rightarrow> controller_tick_input \<Rightarrow> exn + (bool \<times> bool \<times> bool)" where
  "tick_predicates lm c i =
     (let es = estimator_snapshot (pc_measurements c) (in_sender_arrival_milliseconds i);
          cap = effective_wire_cap (pc_measurements c) i
      in case pressure_predicate lm c i es cap of
           Inl e \<Rightarrow> Inl e
         | Inr pressure \<Rightarrow>
             (case recovery_compliant c i es cap of
                Inl e \<Rightarrow> Inl e
              | Inr compliant \<Rightarrow> Inr (pressure, hard_violation i es cap, compliant)))"

definition finish ::
  "libm \<Rightarrow> protected_region_controller \<Rightarrow> controller_tick_input \<Rightarrow> controller_feedback list \<Rightarrow> bool \<Rightarrow>
   verdict \<Rightarrow> protected_region_controller \<Rightarrow> (controller_decision, protected_region_controller) outcome" where
  "finish lm c i consumed reset v c' =
     finish_tick lm c' i (pc_state c) consumed reset
       (estimator_snapshot (pc_measurements c) (in_sender_arrival_milliseconds i))
       (effective_wire_cap (pc_measurements c) i) v"

lemma tick_measured_eq:
  "tick_measured lm c i consumed reset =
     (case tick_predicates lm c i of
        Inl e \<Rightarrow> (Inl e, c)
      | Inr (pressure, hard, compliant) \<Rightarrow>
          and_then (decide lm c (in_sender_arrival_milliseconds i) pressure hard compliant)
            (finish lm c i consumed reset))"
  by (auto simp: tick_measured_def tick_predicates_def with_value_def Let_def
      finish_def [abs_def] split: sum.splits)

lemma snd_finish [simp]: "snd (finish lm c i consumed reset v c') = c'"
  by (auto simp: finish_def finish_tick_def with_value_def Let_def split: sum.splits)

lemma finish_Inr:
  assumes "finish lm c i consumed reset v c' = (Inr d, s)"
  shows "s = c' \<and> dc_action d = vd_action v \<and> dc_prior_state d = pc_state c \<and>
    dc_resulting_state d = pc_state c' \<and> dc_consumed_feedback d = consumed \<and>
    current_levels lm c' = Inr (dc_levels d)"
  using assms
  by (auto simp: finish_def finish_tick_def with_value_def Let_def make_decision_def split: sum.splits)

lemma snd_and_then_same: "(\<And>a s. snd (k a s) = s) \<Longrightarrow> snd (and_then m k) = snd m"
  by (auto simp: and_then_def split: prod.splits sum.splits)

lemma tick_cases:
  obtains (refused) e where "tick_refusal c i = Some e" "tick lm c i = (Inl e, c)"
  | (unmeasured) e pending ms where "tick_refusal c i = None" "measure lm c i = (Inl e, (pending, ms))"
      "tick lm c i = (Inl e, touched c i pending ms)"
  | (undecided) e consumed reset pending ms where "tick_refusal c i = None"
      "measure lm c i = (Inr (consumed, reset), (pending, ms))"
      "tick_predicates lm (touched c i pending ms) i = Inl e"
      "tick lm c i = (Inl e, touched c i pending ms)"
  | (decided) consumed reset pending ms pressure hard compliant where "tick_refusal c i = None"
      "measure lm c i = (Inr (consumed, reset), (pending, ms))"
      "tick_predicates lm (touched c i pending ms) i = Inr (pressure, hard, compliant)"
      "tick lm c i = and_then
         (decide lm (touched c i pending ms) (in_sender_arrival_milliseconds i) pressure hard compliant)
         (finish lm (touched c i pending ms) i consumed reset)"
      "snd (tick lm c i) = snd
         (decide lm (touched c i pending ms) (in_sender_arrival_milliseconds i) pressure hard compliant)"
proof (cases "tick_refusal c i")
  case (Some e)
  then show ?thesis by (intro that(1)) (auto simp: tick_def)
next
  case None
  obtain r pending ms where m: "measure lm c i = (r, (pending, ms))" by (metis prod.exhaust)
  note run = tick_measure [OF None m]
  show ?thesis
  proof (cases r)
    case (Inl e)
    with None m run show ?thesis by (intro that(2)) auto
  next
    case (Inr p)
    then obtain consumed reset where r: "r = Inr (consumed, reset)" by (cases p) auto
    show ?thesis
    proof (cases "tick_predicates lm (touched c i pending ms) i")
      case (Inl e)
      with None m run r show ?thesis by (intro that(3)) (auto simp: tick_measured_eq)
    next
      case (Inr q)
      then obtain pr h co where q: "tick_predicates lm (touched c i pending ms) i = Inr (pr, h, co)"
        by (cases q) auto
      with run r have "tick lm c i = and_then
         (decide lm (touched c i pending ms) (in_sender_arrival_milliseconds i) pr h co)
         (finish lm (touched c i pending ms) i consumed reset)" by (simp add: tick_measured_eq)
      with None m r q show ?thesis by (intro that(4)) (auto simp: snd_and_then_same)
    qed
  qed
qed

section \<open>The part of the state that a level change touches\<close>

definition level_state where
  "level_state c =
     (pc_config c, pc_automatic_emphasis_index c, pc_protected_threshold_index c, pc_payload_step c,
      pc_profile_index c, pc_degradation_history c, pc_last_action c)"

named_theorems level_frames \<open>operations that leave the levels alone\<close>

lemma level_state_count_ticks [level_frames]: "level_state (count_ticks c now p co) = level_state c"
  by (simp add: level_state_def count_ticks_def Let_def)

lemma level_state_advance_state [level_frames]: "level_state (snd (advance_state c now hard)) = level_state c"
  by (simp add: level_state_def advance_state_def)

lemma level_state_judge_unusable [level_frames]:
  "level_state (snd (judge_unusable lm c now hard v)) = level_state c"
  by (simp add: level_state_def judge_unusable_def Let_def split: sum.split)

lemma level_state_touched [level_frames]: "level_state (touched c i pending ms) = level_state c"
  by (simp add: level_state_def touched_def)

lemma level_state_push_feedback [level_frames]: "level_state (snd (push_feedback c f)) = level_state c"
  by (simp add: level_state_def push_feedback_def split: option.split)

lemma payload_target_cong:
  "pc_config c = pc_config c' \<Longrightarrow> pc_payload_step c = pc_payload_step c' \<Longrightarrow>
   current_payload_target_bps lm c = current_payload_target_bps lm c'"
  by (simp add: current_payload_target_bps_def)

text \<open>A tick that decides ends in \<open>change_level\<close> or throws before it.\<close>

lemma decide_cases:
  obtains (judged) e c' where "decide lm c now p h co = (Inl e, c')" "level_state c' = level_state c"
      "judge_unusable lm (snd (advance_state (count_ticks c now p co) now h)) now h
         (fst (advance_state (count_ticks c now p co) now h)) = (Inl e, c')"
  | (changed) v c' where "decide lm c now p h co = change_level lm c' now co v"
      "level_state c' = level_state c"
      "judge_unusable lm (snd (advance_state (count_ticks c now p co) now h)) now h
         (fst (advance_state (count_ticks c now p co) now h)) = (Inr v, c')"
proof -
  let ?a = "advance_state (count_ticks c now p co) now h"
  let ?j = "judge_unusable lm (snd ?a) now h (fst ?a)"
  have d: "decide lm c now p h co = and_then ?j (\<lambda>v c. change_level lm c now co v)"
    by (simp add: decide_def case_prod_beta)
  have l: "level_state (snd ?j) = level_state c" by (simp add: level_frames)
  show ?thesis
  proof (cases ?j)
    case (Pair r c')
    show ?thesis
    proof (cases r)
      case (Inl e)
      with Pair d l show ?thesis by (intro that(1)) auto
    next
      case (Inr v)
      with Pair d l show ?thesis by (intro that(2)) auto
    qed
  qed
qed

section \<open>The ladder of levels\<close>

text \<open>The degradation steps in the order in which they are taken.\<close>

definition ladder :: "nat \<Rightarrow> nat \<Rightarrow> nat \<Rightarrow> nat \<Rightarrow> controller_action list" where
  "ladder emphasis threshold payload profile =
     replicate emphasis Reduce_automatic_emphasis @ replicate threshold Tighten_protected_threshold @
     replicate payload Reduce_payload_and_vbv @ replicate profile Reduce_presentation_profile"

definition on_ladder :: "libm \<Rightarrow> protected_region_controller \<Rightarrow> bool" where
  "on_ladder lm c \<longleftrightarrow>
     map dg_action (pc_degradation_history c) =
       ladder (pc_automatic_emphasis_index c) (pc_protected_threshold_index c) (pc_payload_step c)
         (pc_profile_index c) \<and>
     pc_automatic_emphasis_index c \<le> 4 \<and> pc_protected_threshold_index c \<le> 3 \<and> pc_profile_index c \<le> 2 \<and>
     (pc_protected_threshold_index c > 0 \<longrightarrow> pc_automatic_emphasis_index c = 4) \<and>
     (pc_payload_step c > 0 \<longrightarrow> pc_protected_threshold_index c = 3) \<and>
     (pc_profile_index c > 0 \<longrightarrow> pc_protected_threshold_index c = 3 \<and> payload_at_minimum lm c = Inr True)"

text \<open>Degradation steps lie at least 500 ms apart, and none is after the last level change.\<close>

definition spaced_history :: "protected_region_controller \<Rightarrow> bool" where
  "spaced_history c \<longleftrightarrow>
     successively (\<lambda>a b. unat (dg_applied_milliseconds a) + 500 \<le> unat (dg_applied_milliseconds b))
       (pc_degradation_history c) \<and>
     (pc_degradation_history c \<noteq> [] \<longrightarrow>
        (\<exists>a. pc_last_action c = Some a \<and> dg_applied_milliseconds (last (pc_degradation_history c)) \<le> a))"

lemma payload_at_minimum_cong:
  "pc_config c = pc_config c' \<Longrightarrow> pc_payload_step c = pc_payload_step c' \<Longrightarrow>
   payload_at_minimum lm c = payload_at_minimum lm c'"
  by (simp add: payload_at_minimum_def payload_target_cong [of c c'])

lemma on_ladder_cong: "level_state c = level_state c' \<Longrightarrow> on_ladder lm c = on_ladder lm c'"
  using payload_at_minimum_cong [of c c' lm] by (simp add: level_state_def on_ladder_def)

lemma spaced_history_cong: "level_state c = level_state c' \<Longrightarrow> spaced_history c = spaced_history c'"
  by (simp add: level_state_def spaced_history_def)

lemma spaced_length:
  fixes f :: "'a \<Rightarrow> nat"
  shows "successively (\<lambda>a b. f a + 500 \<le> f b) xs \<Longrightarrow> xs \<noteq> [] \<Longrightarrow> 500 * (length xs - 1) \<le> f (last xs)"
proof (induction xs rule: rev_induct)
  case (snoc x xs)
  then show ?case by (cases "xs = []") (auto simp: successively_append_iff)
qed simp

lemma history_short:
  assumes "spaced_history c"
  shows "length (pc_degradation_history c) < 2 ^ 63"
proof (cases "pc_degradation_history c = []")
  case False
  with assms spaced_length [of "\<lambda>s. unat (dg_applied_milliseconds s)" "pc_degradation_history c"]
  have "500 * (length (pc_degradation_history c) - 1) \<le> unat (dg_applied_milliseconds (last (pc_degradation_history c)))"
    by (simp add: spaced_history_def)
  with unat_lt_u64 [of "dg_applied_milliseconds (last (pc_degradation_history c))"] show ?thesis by simp
qed simp

lemma ladder_length: "length (ladder e t q f) = e + t + q + f"
  by (simp add: ladder_def)

lemma payload_step_short: "on_ladder lm c \<Longrightarrow> spaced_history c \<Longrightarrow> pc_payload_step c < 2 ^ 63"
  using history_short [of c] ladder_length
  by (metis (no_types, lifting) add_lessD1 add.commute add.left_commute length_map on_ladder_def order_le_less_trans le_add2)

lemma table_sizes [simp]: "length kAutomaticCaps = 5" "length kThresholdDeltas = 4" "length kProfiles = 3"
  by (simp_all add: kAutomaticCaps_def kThresholdDeltas_def kProfiles_def)

text \<open>Each step extends the ladder at its end.\<close>

lemma ladder_snoc:
  "ladder e 0 0 0 @ [Reduce_automatic_emphasis] = ladder (Suc e) 0 0 0"
  "ladder e t 0 0 @ [Tighten_protected_threshold] = ladder e (Suc t) 0 0"
  "ladder e t q 0 @ [Reduce_payload_and_vbv] = ladder e t (Suc q) 0"
  "ladder e t q f @ [Reduce_presentation_profile] = ladder e t q (Suc f)"
  by (simp_all add: ladder_def replicate_append_same)

lemma ladder_last:
  "f > 0 \<Longrightarrow> last (ladder e t q f) = Reduce_presentation_profile"
  "q > 0 \<Longrightarrow> last (ladder e t q 0) = Reduce_payload_and_vbv"
  "t > 0 \<Longrightarrow> last (ladder e t 0 0) = Tighten_protected_threshold"
  "e > 0 \<Longrightarrow> last (ladder e 0 0 0) = Reduce_automatic_emphasis"
  by (simp_all add: ladder_def)

lemma ladder_butlast:
  "f > 0 \<Longrightarrow> butlast (ladder e t q f) = ladder e t q (f - 1)"
  "q > 0 \<Longrightarrow> butlast (ladder e t q 0) = ladder e t (q - 1) 0"
  "t > 0 \<Longrightarrow> butlast (ladder e t 0 0) = ladder e (t - 1) 0 0"
  "e > 0 \<Longrightarrow> butlast (ladder e 0 0 0) = ladder (e - 1) 0 0 0"
  using ladder_snoc(4) [of e t q "f - 1"] ladder_snoc(3) [of e t "q - 1"]
    ladder_snoc(2) [of e "t - 1"] ladder_snoc(1) [of "e - 1"]
  by (metis Suc_pred' butlast_snoc)+

text \<open>The branches of \<open>degrade\<close> on a controller that is on the ladder.\<close>

lemma degrade_cases:
  assumes "on_ladder lm c" "spaced_history c"
  obtains (emphasis) "pc_automatic_emphasis_index c < 4" "pc_protected_threshold_index c = 0"
      "pc_payload_step c = 0" "pc_profile_index c = 0"
      "degrade lm c now = (Inr Reduce_automatic_emphasis, degraded Reduce_automatic_emphasis now
         (c\<lparr>pc_automatic_emphasis_index := Suc (pc_automatic_emphasis_index c)\<rparr>))"
  | (threshold) "pc_automatic_emphasis_index c = 4" "pc_protected_threshold_index c < 3"
      "pc_payload_step c = 0" "pc_profile_index c = 0"
      "degrade lm c now = (Inr Tighten_protected_threshold, degraded Tighten_protected_threshold now
         (c\<lparr>pc_protected_threshold_index := Suc (pc_protected_threshold_index c)\<rparr>))"
  | (payload) "pc_automatic_emphasis_index c = 4" "pc_protected_threshold_index c = 3"
      "pc_profile_index c = 0" "payload_at_minimum lm c = Inr False"
      "degrade lm c now = (Inr Reduce_payload_and_vbv, degraded Reduce_payload_and_vbv now
         (c\<lparr>pc_payload_step := Suc (pc_payload_step c)\<rparr>))"
  | (profile) "pc_automatic_emphasis_index c = 4" "pc_protected_threshold_index c = 3"
      "pc_profile_index c < 2" "payload_at_minimum lm c = Inr True"
      "degrade lm c now = (Inr Reduce_presentation_profile, degraded Reduce_presentation_profile now
         (c\<lparr>pc_profile_index := Suc (pc_profile_index c)\<rparr>))"
  | (bottom) "payload_at_minimum lm c = Inr True" "pc_profile_index c = 2"
      "degrade lm c now = (Inr Action_none, c)"
  | (failed) e where "payload_at_minimum lm c = Inl e" "degrade lm c now = (Inl e, c)"
proof -
  note L = assms(1) [unfolded on_ladder_def]
  have s: "size_add (pc_automatic_emphasis_index c) 1 = Suc (pc_automatic_emphasis_index c)"
    "size_add (pc_protected_threshold_index c) 1 = Suc (pc_protected_threshold_index c)"
    "size_add (pc_profile_index c) 1 = Suc (pc_profile_index c)"
    "size_add (pc_payload_step c) 1 = Suc (pc_payload_step c)"
    using L payload_step_short [OF assms] by (simp_all add: size_simps)
  note run = degrade_def [of lm c now, unfolded s]
  consider "pc_automatic_emphasis_index c < 4"
    | "pc_automatic_emphasis_index c = 4" "pc_protected_threshold_index c < 3"
    | e where "pc_automatic_emphasis_index c = 4" "pc_protected_threshold_index c = 3" "payload_at_minimum lm c = Inl e"
    | "pc_automatic_emphasis_index c = 4" "pc_protected_threshold_index c = 3" "payload_at_minimum lm c = Inr False"
    | "pc_automatic_emphasis_index c = 4" "pc_protected_threshold_index c = 3" "payload_at_minimum lm c = Inr True"
    using L by (cases "payload_at_minimum lm c") force+
  then show ?thesis
  proof cases
    case 1
    with L run show ?thesis by (intro that(1)) auto
  next
    case 2
    with L run show ?thesis by (intro that(2)) auto
  next
    case (3 e)
    with run show ?thesis by (intro that(6)) auto
  next
    case 4
    with L run show ?thesis by (intro that(3)) auto
  next
    case 5
    with L run show ?thesis by (cases "pc_profile_index c < 2") (auto intro: that(4,5))
  qed
qed

lemma restore_cases:
  assumes "on_ladder lm c" "spaced_history c"
  obtains (waiting) "\<not> restoration_interval_elapsed c now" "restore c now = (Inr Action_none, c)"
  | (profile) "pc_profile_index c > 0"
      "restore c now = (Inr Restore_presentation_profile, restored now
         (c\<lparr>pc_degradation_history := butlast (pc_degradation_history c), pc_profile_index := pc_profile_index c - 1\<rparr>))"
  | (payload) "pc_profile_index c = 0" "pc_payload_step c > 0"
      "restore c now = (Inr Restore_payload_and_vbv, restored now
         (c\<lparr>pc_degradation_history := butlast (pc_degradation_history c), pc_payload_step := pc_payload_step c - 1\<rparr>))"
  | (threshold) "pc_profile_index c = 0" "pc_payload_step c = 0" "pc_protected_threshold_index c > 0"
      "restore c now = (Inr Restore_protected_threshold, restored now
         (c\<lparr>pc_degradation_history := butlast (pc_degradation_history c),
            pc_protected_threshold_index := pc_protected_threshold_index c - 1\<rparr>))"
  | (emphasis) "pc_profile_index c = 0" "pc_payload_step c = 0" "pc_protected_threshold_index c = 0"
      "pc_automatic_emphasis_index c > 0"
      "restore c now = (Inr Restore_automatic_emphasis, restored now
         (c\<lparr>pc_degradation_history := butlast (pc_degradation_history c),
            pc_automatic_emphasis_index := pc_automatic_emphasis_index c - 1\<rparr>))"
proof (cases "restoration_interval_elapsed c now")
  case False
  then show ?thesis by (intro that(1)) (auto simp: restore_def)
next
  case True
  note L = assms(1) [unfolded on_ladder_def]
  note short = payload_step_short [OF assms]
  from True have ne: "pc_degradation_history c \<noteq> []" by (auto simp: restoration_interval_elapsed_def)
  let ?l = "ladder (pc_automatic_emphasis_index c) (pc_protected_threshold_index c) (pc_payload_step c) (pc_profile_index c)"
  from ne L have l: "dg_action (last (pc_degradation_history c)) = last ?l" by (metis last_map)
  from ne L have "?l \<noteq> []" by (metis map_is_Nil_conv)
  then consider "pc_profile_index c > 0" | "pc_profile_index c = 0" "pc_payload_step c > 0"
    | "pc_profile_index c = 0" "pc_payload_step c = 0" "pc_protected_threshold_index c > 0"
    | "pc_profile_index c = 0" "pc_payload_step c = 0" "pc_protected_threshold_index c = 0"
      "pc_automatic_emphasis_index c > 0"
    by (auto simp: ladder_def)
  then show ?thesis
  proof cases
    case 1
    with True l L short show ?thesis by (intro that(2)) (auto simp: restore_def ladder_last size_simps)
  next
    case 2
    with True l L short show ?thesis by (intro that(3)) (auto simp: restore_def ladder_last size_simps)
  next
    case 3
    with True l L short show ?thesis by (intro that(4)) (auto simp: restore_def ladder_last size_simps)
  next
    case 4
    with True l L short show ?thesis by (intro that(5)) (auto simp: restore_def ladder_last size_simps)
  qed
qed

lemma degraded_simps [simp]:
  "pc_config (degraded a now c) = pc_config c"
  "pc_automatic_emphasis_index (degraded a now c) = pc_automatic_emphasis_index c"
  "pc_protected_threshold_index (degraded a now c) = pc_protected_threshold_index c"
  "pc_payload_step (degraded a now c) = pc_payload_step c"
  "pc_profile_index (degraded a now c) = pc_profile_index c"
  "pc_state (degraded a now c) = pc_state c"
  "pc_last_action (degraded a now c) = Some now"
  "pc_degradation_history (degraded a now c) =
     pc_degradation_history c @ [\<lparr>dg_action = a, dg_applied_milliseconds = now\<rparr>]"
  by (simp_all add: degraded_def)

lemma restored_simps [simp]:
  "pc_config (restored now c) = pc_config c"
  "pc_automatic_emphasis_index (restored now c) = pc_automatic_emphasis_index c"
  "pc_protected_threshold_index (restored now c) = pc_protected_threshold_index c"
  "pc_payload_step (restored now c) = pc_payload_step c"
  "pc_profile_index (restored now c) = pc_profile_index c"
  "pc_state (restored now c) = pc_state c"
  "pc_last_action (restored now c) = Some now"
  "pc_last_restoration (restored now c) = Some now"
  "pc_degradation_history (restored now c) = pc_degradation_history c"
  by (simp_all add: restored_def)

lemma payload_at_minimum_degraded [simp]:
  "payload_at_minimum lm (degraded a now c) = payload_at_minimum lm c"
  "payload_at_minimum lm (restored now c) = payload_at_minimum lm c"
  "payload_at_minimum lm (c\<lparr>pc_profile_index := f\<rparr>) = payload_at_minimum lm c"
  "payload_at_minimum lm (c\<lparr>pc_degradation_history := h\<rparr>) = payload_at_minimum lm c"
  by (rule payload_at_minimum_cong; simp)+

lemma degrade_on_ladder:
  assumes "on_ladder lm c" "spaced_history c"
  shows "on_ladder lm (snd (degrade lm c now))"
  by (rule degrade_cases [OF assms, of now])
    (use assms(1) in \<open>auto simp: on_ladder_def ladder_snoc\<close>)

lemma restore_on_ladder:
  assumes "on_ladder lm c" "spaced_history c"
  shows "on_ladder lm (snd (restore c now))"
  by (rule restore_cases [OF assms, of now])
    (use assms(1) in \<open>auto simp: on_ladder_def map_butlast ladder_butlast\<close>)

section \<open>Times\<close>

definition by_then :: "u64 \<Rightarrow> u64 option \<Rightarrow> bool" where
  "by_then now x = (case x of None \<Rightarrow> True | Some t \<Rightarrow> t \<le> now)"

lemma by_then_simps [simp]: "by_then now None" "by_then now (Some t) \<longleftrightarrow> t \<le> now"
  by (simp_all add: by_then_def)

lemma by_then_mono: "by_then a x \<Longrightarrow> a \<le> b \<Longrightarrow> by_then b x"
  by (auto simp: by_then_def split: option.splits)

definition times_by :: "u64 \<Rightarrow> protected_region_controller \<Rightarrow> bool" where
  "times_by now c \<longleftrightarrow> list_all (by_then now)
     [pc_last_action c, pc_last_restoration c, pc_recovery_compliant_since c, pc_stable_compliant_since c,
      pc_unusable_violation_since c]"

text \<open>No recorded time is after the last tick, and before the first tick there is none.\<close>

definition clock_ok :: "protected_region_controller \<Rightarrow> bool" where
  "clock_ok c \<longleftrightarrow>
     (case pc_last_tick_milliseconds c of
        Some t \<Rightarrow> times_by t c
      | None \<Rightarrow> pc_last_action c = None \<and> pc_last_restoration c = None \<and> pc_recovery_compliant_since c = None \<and>
          pc_stable_compliant_since c = None \<and> pc_unusable_violation_since c = None)"

text \<open>The last level change is the last step of the history, or no later than the restoration mark.\<close>

definition anchored :: "protected_region_controller \<Rightarrow> bool" where
  "anchored c \<longleftrightarrow>
     (\<forall>a. pc_last_action c = Some a \<longrightarrow>
        pc_degradation_history c \<noteq> [] \<and> dg_applied_milliseconds (last (pc_degradation_history c)) = a \<or>
        (\<exists>r. pc_last_restoration c = Some r \<and> a \<le> r))"

definition levels_ok :: "libm \<Rightarrow> protected_region_controller \<Rightarrow> bool" where
  "levels_ok lm c \<longleftrightarrow> on_ladder lm c \<and> spaced_history c \<and> anchored c"

lemma not_refused_times:
  assumes "tick_refusal c i = None"
  shows "\<And>t. pc_last_tick_milliseconds c = Some t \<Longrightarrow> t < in_sender_arrival_milliseconds i"
    and "\<And>t. pc_last_tick_sequence c = Some t \<Longrightarrow> t < in_arrival_sequence i"
  using assms by (auto simp: tick_refusal_def check_def at_most_def split: if_splits option.splits)

lemma touched_times:
  assumes "tick_refusal c i = None" "clock_ok c"
  shows "times_by (in_sender_arrival_milliseconds i) (touched c i pending ms)"
  using assms not_refused_times(1) [OF assms(1)]
  by (auto simp: clock_ok_def times_by_def touched_def intro: by_then_mono split: option.splits)

lemma count_ticks_times: "times_by now c \<Longrightarrow> times_by now (count_ticks c now p co)"
  by (auto simp: times_by_def count_ticks_def Let_def split: option.splits)

lemma advance_state_times: "times_by now c \<Longrightarrow> times_by now (snd (advance_state c now h))"
  by (auto simp: times_by_def advance_state_def)

lemma judge_unusable_times: "times_by now c \<Longrightarrow> times_by now (snd (judge_unusable lm c now h v))"
  by (auto simp: times_by_def judge_unusable_def Let_def split: sum.split option.splits)

lemma degrade_times: "times_by now c \<Longrightarrow> times_by now (snd (degrade lm c now))"
  by (auto simp: times_by_def degrade_def degraded_def split: sum.split)

lemma restore_times: "times_by now c \<Longrightarrow> times_by now (snd (restore c now))"
  by (auto simp: times_by_def restore_def restored_def Let_def split: controller_action.split)

lemma change_level_snd:
  "snd (change_level lm c now co v) =
     (if vd_action v = Action_none \<and> (pc_state c = Rate_pressure \<or> pc_state c = Congested) \<and>
         action_interval_elapsed c now then snd (degrade lm c now)
      else if vd_action v = Action_none \<and> co \<and> (pc_state c = Recovery \<or> pc_state c = Stable)
      then snd (restore c now) else c)"
  by (auto simp: change_level_def snd_and_then_same)

lemma change_level_times: "times_by now c \<Longrightarrow> times_by now (snd (change_level lm c now co v))"
  by (simp add: change_level_snd degrade_times restore_times)

lemma decide_times: "times_by now c \<Longrightarrow> times_by now (snd (decide lm c now p h co))"
  by (cases rule: decide_cases [of lm c now p h co])
    (metis advance_state_times change_level_times count_ticks_times judge_unusable_times snd_conv)+

text \<open>What a decision leaves alone: the last tick, the feedback, the estimators.\<close>

definition intake_state where
  "intake_state c =
     (pc_last_tick_milliseconds c, pc_last_tick_sequence c, pc_pending_feedback c, pc_measurements c,
      pc_last_feedback_sequence c, pc_last_feedback_arrival_milliseconds c, pc_config c)"

lemma intake_count_ticks: "intake_state (count_ticks c now p co) = intake_state c"
  by (simp add: intake_state_def count_ticks_def Let_def)

lemma intake_advance_state: "intake_state (snd (advance_state c now hard)) = intake_state c"
  by (simp add: intake_state_def advance_state_def)

lemma intake_judge_unusable: "intake_state (snd (judge_unusable lm c now hard v)) = intake_state c"
  by (simp add: intake_state_def judge_unusable_def Let_def split: sum.split)

lemma intake_degrade: "intake_state (snd (degrade lm c now)) = intake_state c"
  by (simp add: intake_state_def degrade_def degraded_def split: sum.split)

lemma intake_restore: "intake_state (snd (restore c now)) = intake_state c"
  by (simp add: intake_state_def restore_def restored_def Let_def split: controller_action.split)

lemma intake_change_level: "intake_state (snd (change_level lm c now co v)) = intake_state c"
  by (simp add: change_level_snd intake_degrade intake_restore)

lemma intake_decide: "intake_state (snd (decide lm c now p h co)) = intake_state c"
  by (cases rule: decide_cases [of lm c now p h co])
    (metis intake_advance_state intake_change_level intake_count_ticks intake_judge_unusable snd_conv)+

lemma decide_intake [simp]:
  "pc_last_tick_milliseconds (snd (decide lm c now p h co)) = pc_last_tick_milliseconds c"
  "pc_last_tick_sequence (snd (decide lm c now p h co)) = pc_last_tick_sequence c"
  "pc_pending_feedback (snd (decide lm c now p h co)) = pc_pending_feedback c"
  "pc_measurements (snd (decide lm c now p h co)) = pc_measurements c"
  "pc_last_feedback_sequence (snd (decide lm c now p h co)) = pc_last_feedback_sequence c"
  "pc_last_feedback_arrival_milliseconds (snd (decide lm c now p h co)) = pc_last_feedback_arrival_milliseconds c"
  "pc_config (snd (decide lm c now p h co)) = pc_config c"
  using intake_decide [of lm c now p h co] by (simp_all add: intake_state_def)

lemma touched_simps [simp]:
  "pc_last_tick_milliseconds (touched c i pending ms) = Some (in_sender_arrival_milliseconds i)"
  "pc_last_tick_sequence (touched c i pending ms) = Some (in_arrival_sequence i)"
  "pc_pending_feedback (touched c i pending ms) = pending"
  "pc_measurements (touched c i pending ms) = ms"
  "pc_last_feedback_sequence (touched c i pending ms) = pc_last_feedback_sequence c"
  "pc_last_feedback_arrival_milliseconds (touched c i pending ms) = pc_last_feedback_arrival_milliseconds c"
  "pc_config (touched c i pending ms) = pc_config c"
  "pc_state (touched c i pending ms) = pc_state c"
  by (simp_all add: touched_def)

section \<open>Levels over a run\<close>

lemma elapsed_interval: "a \<le> now \<Longrightarrow> now - a \<ge> k \<Longrightarrow> unat a + unat k \<le> unat now" for a now k :: u64
  using elapsed_unat [of a now] by (auto simp: word_le_nat_alt)

lemma action_interval_apart:
  assumes "action_interval_elapsed c now" "times_by now c" "pc_last_action c = Some a"
  shows "unat a + 500 \<le> unat now"
  using assms elapsed_interval [of a now kActionIntervalMilliseconds]
  by (auto simp: action_interval_elapsed_def times_by_def kActionIntervalMilliseconds_def)

lemma degraded_spaced:
  assumes "spaced_history c" "action_interval_elapsed c now" "times_by now c"
    "pc_degradation_history c' = pc_degradation_history c @ [\<lparr>dg_action = x, dg_applied_milliseconds = now\<rparr>]"
    "pc_last_action c' = Some now"
  shows "spaced_history c'"
  using assms action_interval_apart [OF assms(2,3)]
  by (fastforce simp: spaced_history_def successively_append_iff word_le_nat_alt)

lemma degrade_levels_ok:
  assumes "levels_ok lm c" "action_interval_elapsed c now" "times_by now c"
  shows "levels_ok lm (snd (degrade lm c now))"
proof -
  from assms(1) have L: "on_ladder lm c" "spaced_history c" "anchored c" by (simp_all add: levels_ok_def)
  have "on_ladder lm (snd (degrade lm c now))" by (rule degrade_on_ladder [OF L(1,2)])
  moreover have "spaced_history (snd (degrade lm c now)) \<and> anchored (snd (degrade lm c now))"
    by (rule degrade_cases [OF L(1,2), of now])
      (use L degraded_spaced [OF L(2) assms(2,3)] in \<open>auto simp: anchored_def\<close>)
  ultimately show ?thesis by (simp add: levels_ok_def)
qed

lemma butlast_history_before:
  assumes "spaced_history c" "butlast (pc_degradation_history c) \<noteq> []" "times_by now c"
  shows "dg_applied_milliseconds (last (butlast (pc_degradation_history c))) \<le> now"
proof -
  let ?h = "pc_degradation_history c"
  from assms(2) have h: "?h = butlast ?h @ [last ?h]" by (cases ?h rule: rev_cases) auto
  from assms(1,2) obtain a where a: "pc_last_action c = Some a" "dg_applied_milliseconds (last ?h) \<le> a"
    by (auto simp: spaced_history_def)
  from assms(1) have "successively (\<lambda>a b. unat (dg_applied_milliseconds a) + 500 \<le> unat (dg_applied_milliseconds b))
      (butlast ?h @ [last ?h])" using h by (simp add: spaced_history_def)
  with assms(2) have "unat (dg_applied_milliseconds (last (butlast ?h))) + 500 \<le> unat (dg_applied_milliseconds (last ?h))"
    by (simp add: successively_append_iff)
  with a assms(3) show ?thesis by (auto simp: times_by_def word_le_nat_alt)
qed

lemma restored_spaced:
  assumes "spaced_history c" "times_by now c"
    "pc_degradation_history c' = butlast (pc_degradation_history c)" "pc_last_action c' = Some now"
  shows "spaced_history c'"
  using assms butlast_history_before [OF assms(1) _ assms(2)]
  by (cases "pc_degradation_history c" rule: rev_cases) (auto simp: spaced_history_def successively_append_iff)

lemma restore_levels_ok:
  assumes "levels_ok lm c" "times_by now c"
  shows "levels_ok lm (snd (restore c now))"
proof -
  from assms(1) have L: "on_ladder lm c" "spaced_history c" "anchored c" by (simp_all add: levels_ok_def)
  have "on_ladder lm (snd (restore c now))" by (rule restore_on_ladder [OF L(1,2)])
  moreover have "spaced_history (snd (restore c now)) \<and> anchored (snd (restore c now))"
    by (rule restore_cases [OF L(1,2), of now])
      (use L restored_spaced [OF L(2) assms(2)] in \<open>auto simp: anchored_def\<close>)
  ultimately show ?thesis by (simp add: levels_ok_def)
qed

lemma anchored_later:
  assumes "anchored c" "times_by now c" "pc_degradation_history c' = pc_degradation_history c"
    "pc_last_action c' = pc_last_action c"
    "pc_last_restoration c' = pc_last_restoration c \<or> pc_last_restoration c' = Some now"
  shows "anchored c'"
  using assms by (auto simp: anchored_def times_by_def)

lemma levels_ok_later:
  assumes "levels_ok lm c" "times_by now c" "level_state c' = level_state c"
    "pc_last_restoration c' = pc_last_restoration c \<or> pc_last_restoration c' = Some now"
  shows "levels_ok lm c'"
  using assms on_ladder_cong [of c' c] spaced_history_cong [of c' c] anchored_later [of c now c']
  by (simp add: levels_ok_def level_state_def)

lemma advance_state_restoration:
  "pc_last_restoration (snd (advance_state c now h)) = pc_last_restoration c \<or>
   pc_last_restoration (snd (advance_state c now h)) = Some now"
  by (simp add: advance_state_def)

lemma count_ticks_restoration [simp]: "pc_last_restoration (count_ticks c now p co) = pc_last_restoration c"
  by (simp add: count_ticks_def Let_def)

lemma judge_unusable_restoration [simp]:
  "pc_last_restoration (snd (judge_unusable lm c now h v)) = pc_last_restoration c"
  by (simp add: judge_unusable_def Let_def split: sum.split)

lemma change_level_levels_ok:
  "levels_ok lm c \<Longrightarrow> times_by now c \<Longrightarrow> levels_ok lm (snd (change_level lm c now co v))"
  by (simp add: change_level_snd degrade_levels_ok restore_levels_ok)

text \<open>The state a decision has reached when it comes to change a level.\<close>

lemma judged_ok:
  assumes "levels_ok lm c" "times_by now c"
    "judge_unusable lm (snd (advance_state (count_ticks c now p co) now h)) now h
       (fst (advance_state (count_ticks c now p co) now h)) = (r, c')"
  shows "levels_ok lm c'" "times_by now c'" "level_state c' = level_state c"
proof -
  let ?a = "advance_state (count_ticks c now p co) now h"
  have c': "c' = snd (judge_unusable lm (snd ?a) now h (fst ?a))" using assms(3) by simp
  show l: "level_state c' = level_state c" unfolding c' by (simp add: level_frames)
  show "times_by now c'" unfolding c'
    by (intro judge_unusable_times advance_state_times count_ticks_times assms(2))
  show "levels_ok lm c'"
    by (rule levels_ok_later [OF assms(1,2) l])
      (use advance_state_restoration [of "count_ticks c now p co" now h] in \<open>simp add: c'\<close>)
qed

lemma decide_levels_ok:
  assumes "levels_ok lm c" "times_by now c"
  shows "levels_ok lm (snd (decide lm c now p h co))"
proof (cases rule: decide_cases [of lm c now p h co])
  case (judged e c')
  with judged_ok(1) [OF assms] show ?thesis by simp
next
  case (changed v c')
  with judged_ok(1,2) [OF assms changed(3)] show ?thesis by (simp add: change_level_levels_ok)
qed

definition controller_ok :: "libm \<Rightarrow> protected_region_controller \<Rightarrow> bool" where
  "controller_ok lm c \<longleftrightarrow> levels_ok lm c \<and> clock_ok c"

lemma touched_levels_ok: "levels_ok lm c \<Longrightarrow> levels_ok lm (touched c i pending ms)"
  using on_ladder_cong [of "touched c i pending ms" c] spaced_history_cong [of "touched c i pending ms" c]
  by (simp add: levels_ok_def level_state_touched) (simp add: anchored_def touched_def)

lemma tick_ok:
  assumes "controller_ok lm c"
  shows "controller_ok lm (snd (tick lm c i))"
proof -
  from assms have c: "levels_ok lm c" "clock_ok c" by (simp_all add: controller_ok_def)
  show ?thesis
  proof (cases rule: tick_cases [of c i lm])
    case (refused e)
    with assms show ?thesis by simp
  next
    case (unmeasured e pending ms)
    with c touched_levels_ok [OF c(1)] touched_times [OF unmeasured(1) c(2)] show ?thesis
      by (simp add: controller_ok_def clock_ok_def)
  next
    case (undecided e consumed reset pending ms)
    with c touched_levels_ok [OF c(1)] touched_times [OF undecided(1) c(2)] show ?thesis
      by (simp add: controller_ok_def clock_ok_def)
  next
    case (decided consumed reset pending ms p h co)
    note t = touched_levels_ok [OF c(1)] touched_times [OF decided(1) c(2)]
    show ?thesis
      unfolding decided(5) controller_ok_def clock_ok_def using decide_levels_ok [OF t] decide_times [OF t(2)] by simp
  qed
qed

text \<open>A push is refused, or queues its message.\<close>

lemma push_feedback_cases:
  obtains (refused) e where "push_feedback c f = (Inl e, c)"
  | (queued) "push_feedback c f =
      (Inr (), c\<lparr>pc_last_feedback_sequence := Some (fb_arrival_sequence f),
                 pc_last_feedback_arrival_milliseconds := Some (fb_sender_arrival_milliseconds f),
                 pc_pending_feedback := pc_pending_feedback c @ [f]\<rparr>)"
    "\<not> at_most (fb_arrival_sequence f) (pc_last_feedback_sequence c)"
    "\<not> below (fb_sender_arrival_milliseconds f) (pc_last_feedback_arrival_milliseconds c)"
    "\<not> below (fb_sender_arrival_milliseconds f) (pc_last_tick_milliseconds c)"
    "optional_check (\<lambda>x. require_fraction x ''feedback loss'') (fb_loss_fraction f) = None"
    "optional_check (\<lambda>x. require_finite_nonnegative x ''feedback RTT'') (fb_round_trip_time_milliseconds f) = None"
proof -
  have ff: "first_failure (x # xs) = None \<longleftrightarrow> x = None \<and> first_failure xs = None" for x xs
    by (cases x) simp_all
  have ch: "check b r = None \<longleftrightarrow> \<not> b" for b r by (simp add: check_def)
  show ?thesis
  proof (cases "fst (push_feedback c f)")
    case (Inl e)
    then show ?thesis by (intro that(1)) (simp add: push_feedback_def split: option.splits)
  next
    case (Inr u)
    then show ?thesis
      by (intro that(2)) (simp_all add: push_feedback_def ff ch split: option.splits)
  qed
qed

lemma push_feedback_ok:
  assumes "controller_ok lm c"
  shows "controller_ok lm (snd (push_feedback c f))"
proof (cases rule: push_feedback_cases [of c f])
  case (refused e)
  with assms show ?thesis by simp
next
  case queued
  let ?c = "snd (push_feedback c f)"
  have l: "level_state ?c = level_state c" by (rule level_state_push_feedback)
  have "on_ladder lm ?c = on_ladder lm c" "spaced_history ?c = spaced_history c"
    using on_ladder_cong [OF l] spaced_history_cong [OF l] by simp_all
  moreover have "anchored ?c = anchored c" "clock_ok ?c = clock_ok c"
    by (cases "pc_last_tick_milliseconds c"; simp add: queued(1) anchored_def clock_ok_def times_by_def)+
  ultimately show ?thesis using assms by (simp add: controller_ok_def levels_ok_def)
qed

lemma make_controller_ok: "make_controller config = Inr c \<Longrightarrow> controller_ok lm c"
  by (auto simp: make_controller_def controller_ok_def levels_ok_def on_ladder_def ladder_def
      spaced_history_def anchored_def clock_ok_def split: option.splits)

interpretation regulator: safe_machine "controller_step lm" "controller_ok lm"
proof
  fix s e assume "controller_ok lm s"
  then show "controller_ok lm (controller_step lm s e)" by (cases e) (simp_all add: tick_ok push_feedback_ok)
qed

lemmas reachable_ok = regulator.run_inv [OF make_controller_ok]

text \<open>A controller and a tick to try the theorems on.\<close>

definition sample_libm :: libm where
  "sample_libm = \<lparr>lm_exp = \<lambda>_. Fin (1 / 2), lm_pow = \<lambda>_ _. Fin 1\<rparr>"

definition sample_config :: controller_config where
  "sample_config =
     \<lparr>base_payload_target_bps = 2000000, base_entry_threshold = Fin (1 / 2), base_exit_threshold = Fin (1 / 4)\<rparr>"

definition sample_controller :: protected_region_controller where
  "sample_controller = projr (make_controller sample_config)"

definition sample_tick :: "u64 \<Rightarrow> u64 \<Rightarrow> controller_tick_input" where
  "sample_tick sequence now =
     \<lparr>in_arrival_sequence = sequence, in_sender_arrival_milliseconds = now, in_source_time_milliseconds = None,
      in_dependency_epoch = 1, in_user_wire_cap_bps = 4000000,
      in_counters = \<lparr>elementary_stream_bytes = 0, wire_egress_bytes = 0, retransmission_bytes = 0, delivered_frames = 0\<rparr>,
      in_oldest_media_age_milliseconds = Fin 200, in_pacer_queue_bytes = 0, in_pacer_queue_packets = 0,
      in_drop_fraction = Fin 0, in_protected_fraction = Fin 0, in_map_level_histogram = [],
      in_encode_latency_milliseconds = Fin 0, in_pinned_region_violation = False\<rparr>"

lemma make_sample_controller: "make_controller sample_config = Inr sample_controller"
proof -
  have quarter: "rounded (1 / 4) = 1 / 4" using rounded_power [of "- 2"] by (simp add: power_int_minus)
  have "\<bar>rounded (1 / 10)\<bar> \<le> 1 / 4"
    using rounded_mono [of "1 / 10" "1 / 4"] rounded_nonneg [of "1 / 10"] quarter by simp
  then have "\<not> d_less (Fin (1 / 4)) (lit (10 / 100))"
    using one_le_power [of "2 :: rat" 1024] by (auto simp: lit_def round_double_def Let_def simp del: one_le_numeral)
  moreover have "d_sub (Fin (1 / 2)) (Fin (1 / 4)) = Fin (1 / 4)"
    using one_le_power [of "2 :: rat" 1024] by (simp add: d_sub_def round_double_def quarter)
  ultimately have "\<not> isl (make_controller sample_config)"
    by (simp add: make_controller_def sample_config_def require_fraction_def d_isfinite_def d_le_def d_equal_def
        kMinimumPayloadBps_def)
  then show ?thesis by (simp add: sample_controller_def)
qed

text \<open>C11 (invariant). Over any sequence of calls, whatever they throw, the levels are a ladder:
  the degradation history is the emphasis steps, then the threshold steps, then the payload steps,
  then the profile steps, as many of each as the level indices say, no stage entered before the
  previous one is exhausted, and every index within its table. So undoing the last step never
  throws and never takes an index below zero, and reading the levels fails only where the payload
  target itself cannot be computed.\<close>

theorem levels_form_a_ladder:
  assumes "make_controller config = Inr c0" "c = controller_run lm c0 calls"
  shows "on_ladder lm c \<and> (\<exists>action c'. restore c now = (Inr action, c') \<and> on_ladder lm c') \<and>
    (case current_levels lm c of
       Inl e \<Rightarrow> current_payload_target_bps lm c = Inl e
     | Inr levels \<Rightarrow> automatic_emphasis_cap levels = 4 - of_nat (pc_automatic_emphasis_index c) \<and>
         lv_frames_per_second levels = [30, 24, 15] ! pc_profile_index c)"
proof -
  have "controller_ok lm c" unfolding assms(2) by (rule reachable_ok [OF assms(1)])
  then have L: "on_ladder lm c" "spaced_history c" by (simp_all add: controller_ok_def levels_ok_def)
  have R: "\<exists>action c'. restore c now = (Inr action, c') \<and> on_ladder lm c'"
    by (rule restore_cases [OF L, of now]) (use restore_on_ladder [OF L, of now] in auto)
  from L(1) have "pc_automatic_emphasis_index c \<in> {0, 1, 2, 3, 4}" "pc_protected_threshold_index c < 4"
    "pc_profile_index c \<in> {0, 1, 2}" by (auto simp: on_ladder_def)
  then have "case current_levels lm c of
       Inl e \<Rightarrow> current_payload_target_bps lm c = Inl e
     | Inr levels \<Rightarrow> automatic_emphasis_cap levels = 4 - of_nat (pc_automatic_emphasis_index c) \<and>
         lv_frames_per_second levels = [30, 24, 15] ! pc_profile_index c"
    by (cases "current_payload_target_bps lm c")
      (auto simp: current_levels_def array_at_def kAutomaticCaps_def kProfiles_def)
  with L(1) R show ?thesis by blast
qed

theorem levels_form_a_ladder_witness:
  "make_controller sample_config = Inr sample_controller \<and>
   on_ladder sample_libm (controller_run sample_libm sample_controller [Tick (sample_tick 1 10), Tick (sample_tick 2 600)])"
  using make_sample_controller levels_form_a_ladder [OF make_sample_controller refl] by blast

section \<open>Distance of level changes\<close>

lemma restoration_interval_apart:
  assumes "restoration_interval_elapsed c now" "times_by now c" "anchored c" "spaced_history c"
    "pc_last_action c = Some a"
  shows "unat a + 2000 \<le> unat now"
proof -
  have k: "unat kReversalIntervalMilliseconds = 2000" by (simp add: kReversalIntervalMilliseconds_def)
  from assms(1) have ne: "pc_degradation_history c \<noteq> []"
    and d: "now - dg_applied_milliseconds (last (pc_degradation_history c)) \<ge> kReversalIntervalMilliseconds"
    and r: "\<And>t. pc_last_restoration c = Some t \<Longrightarrow> now - t \<ge> kReversalIntervalMilliseconds"
    by (auto simp: restoration_interval_elapsed_def split: if_splits)
  from assms(2,5) have a: "a \<le> now" by (simp add: times_by_def)
  from assms(3,5) consider "dg_applied_milliseconds (last (pc_degradation_history c)) = a"
    | t where "pc_last_restoration c = Some t" "a \<le> t" by (auto simp: anchored_def)
  then show ?thesis
  proof cases
    case 1
    with d a elapsed_interval [of a now kReversalIntervalMilliseconds] k show ?thesis by simp
  next
    case (2 t)
    with assms(2) have "t \<le> now" by (simp add: times_by_def)
    with r [OF 2(1)] elapsed_interval [of t now kReversalIntervalMilliseconds] k 2(2) show ?thesis by (simp add: word_le_nat_alt)
  qed
qed

text \<open>A tick keeps the levels, takes one step down, or takes one step back up.\<close>

lemma change_level_steps:
  assumes ok: "levels_ok lm c" "times_by now c" and c'_def: "c' = snd (change_level lm c now co v)"
  obtains (kept) "level_state c' = level_state c"
  | (down) x where "pc_degradation_history c' = pc_degradation_history c @ [\<lparr>dg_action = x, dg_applied_milliseconds = now\<rparr>]"
      "pc_last_action c' = Some now" "\<And>a. pc_last_action c = Some a \<Longrightarrow> unat a + 500 \<le> unat now"
  | (up) "pc_degradation_history c \<noteq> []" "pc_degradation_history c' = butlast (pc_degradation_history c)"
      "pc_last_action c' = Some now" "\<And>a. pc_last_action c = Some a \<Longrightarrow> unat a + 2000 \<le> unat now"
proof -
  from ok(1) have L: "on_ladder lm c" "spaced_history c" "anchored c" by (simp_all add: levels_ok_def)
  consider "c' = snd (degrade lm c now)" "action_interval_elapsed c now" | "c' = snd (restore c now)" | "c' = c"
    using c'_def change_level_snd [of lm c now co v] by metis
  then show ?thesis
  proof cases
    case 1
    note apart = action_interval_apart [OF 1(2) ok(2)]
    show ?thesis
      by (rule degrade_cases [OF L(1,2), of now]) (use 1(1) apart in \<open>auto intro: that(1,2)\<close>)
  next
    case 2
    show ?thesis
    proof (cases "restoration_interval_elapsed c now")
      case True
      note apart = restoration_interval_apart [OF True ok(2) L(3,2)]
      from True have ne: "pc_degradation_history c \<noteq> []" by (auto simp: restoration_interval_elapsed_def)
      show ?thesis
        by (rule restore_cases [OF L(1,2), of now]) (use 2 ne apart True in \<open>auto intro: that(3)\<close>)
    next
      case False
      with 2 show ?thesis by (intro that(1)) (simp add: restore_def)
    qed
  next
    case 3
    then show ?thesis by (intro that(1)) simp
  qed
qed

lemma tick_steps:
  assumes ok: "controller_ok lm c" and c'_def: "c' = snd (tick lm c i)"
  obtains (kept) "level_state c' = level_state c"
  | (down) x where "pc_degradation_history c' =
        pc_degradation_history c @ [\<lparr>dg_action = x, dg_applied_milliseconds = in_sender_arrival_milliseconds i\<rparr>]"
      "pc_last_action c' = Some (in_sender_arrival_milliseconds i)"
      "\<And>a. pc_last_action c = Some a \<Longrightarrow> unat a + 500 \<le> unat (in_sender_arrival_milliseconds i)"
  | (up) "pc_degradation_history c \<noteq> []" "pc_degradation_history c' = butlast (pc_degradation_history c)"
      "pc_last_action c' = Some (in_sender_arrival_milliseconds i)"
      "\<And>a. pc_last_action c = Some a \<Longrightarrow> unat a + 2000 \<le> unat (in_sender_arrival_milliseconds i)"
proof -
  from ok have c: "levels_ok lm c" "clock_ok c" by (simp_all add: controller_ok_def)
  show ?thesis
  proof (cases rule: tick_cases [of c i lm])
    case (decided consumed reset pending ms p h co)
    let ?t = "touched c i pending ms" and ?now = "in_sender_arrival_milliseconds i"
    note t = touched_levels_ok [OF c(1), of i pending ms] touched_times [OF decided(1) c(2), of pending ms]
    have l: "level_state ?t = level_state c" by (rule level_state_touched)
    show ?thesis
    proof (cases rule: decide_cases [of lm ?t ?now p h co])
      case (judged e c1)
      with decided l c'_def show ?thesis by (intro that(1)) simp
    next
      case (changed v c1)
      note j = judged_ok [OF t changed(3)]
      from decided(5) changed(1) c'_def have e: "c' = snd (change_level lm c1 ?now co v)" by simp
      from l j(3) have same: "level_state c1 = level_state c" by simp
      show ?thesis
        by (rule change_level_steps [OF j(1,2) e]) (use same in \<open>auto simp: level_state_def intro: that\<close>)
    qed
  qed (use c'_def in \<open>auto intro!: that(1) simp: level_state_touched\<close>)
qed

text \<open>The log of level changes: the time of each, and whether it was a restoration.\<close>

fun level_logged ::
  "libm \<Rightarrow> protected_region_controller \<times> (u64 \<times> bool) list \<Rightarrow> controller_call \<Rightarrow>
   protected_region_controller \<times> (u64 \<times> bool) list" where
  "level_logged lm (c, seen) (Push_feedback f) = (controller_step lm c (Push_feedback f), seen)"
| "level_logged lm (c, seen) (Tick i) =
     (let c' = controller_step lm c (Tick i);
          before = length (pc_degradation_history c); after = length (pc_degradation_history c')
      in (c', if before = after then seen else seen @ [(in_sender_arrival_milliseconds i, after < before)]))"

fun apart :: "u64 \<times> bool \<Rightarrow> u64 \<times> bool \<Rightarrow> bool" where
  "apart (a, _) (b, restoration) = (unat a + (if restoration then 2000 else 500) \<le> unat b)"

definition level_log_ok :: "libm \<Rightarrow> protected_region_controller \<times> (u64 \<times> bool) list \<Rightarrow> bool" where
  "level_log_ok lm s \<longleftrightarrow>
     controller_ok lm (fst s) \<and> successively apart (snd s) \<and>
     (snd s \<noteq> [] \<longrightarrow> pc_last_action (fst s) = Some (fst (last (snd s))))"

lemma apart_snoc:
  assumes "successively apart seen" "seen \<noteq> [] \<longrightarrow> unat (fst (last seen)) + (if r then 2000 else 500) \<le> unat t"
  shows "successively apart (seen @ [(t, r)])"
  using assms by (cases "last seen") (auto simp: successively_append_iff)

lemma level_logged_tick_ok:
  assumes ok: "level_log_ok lm (c, seen)"
  shows "level_log_ok lm (level_logged lm (c, seen) (Tick i))"
proof -
  from ok have c: "controller_ok lm c" and l: "successively apart seen"
    and a: "seen \<noteq> [] \<Longrightarrow> pc_last_action c = Some (fst (last seen))" by (auto simp: level_log_ok_def)
  show ?thesis
  proof (rule tick_steps [OF c refl, of i], goal_cases)
    case 1
    then show ?case using ok tick_ok [OF c] by (auto simp: level_log_ok_def level_state_def Let_def)
  next
    case (2 x)
    with a have "successively apart (seen @ [(in_sender_arrival_milliseconds i, False)])"
      by (intro apart_snoc [OF l]) auto
    with 2 show ?case using tick_ok [OF c] by (auto simp: level_log_ok_def Let_def)
  next
    case 3
    with a have "successively apart (seen @ [(in_sender_arrival_milliseconds i, True)])"
      by (intro apart_snoc [OF l]) auto
    moreover from 3(1) have "length (butlast (pc_degradation_history c)) < length (pc_degradation_history c)" by simp
    ultimately show ?case using 3 tick_ok [OF c] by (auto simp: level_log_ok_def Let_def simp del: length_butlast)
  qed
qed

interpretation level_pace: safe_machine "level_logged lm" "level_log_ok lm"
proof
  fix s e assume ok: "level_log_ok lm s"
  obtain c seen where s: "s = (c, seen)" by (cases s)
  show "level_log_ok lm (level_logged lm s e)"
  proof (cases e)
    case (Push_feedback f)
    have "pc_last_action (snd (push_feedback c f)) = pc_last_action c"
      using level_state_push_feedback [of c f] by (simp add: level_state_def)
    with ok Push_feedback show ?thesis by (simp add: s level_log_ok_def push_feedback_ok)
  next
    case (Tick i)
    with ok level_logged_tick_ok [of lm c seen i] show ?thesis by (simp add: s)
  qed
qed

text \<open>Over any sequence of calls, whatever they throw, two successive level changes
  are at least 500 ms apart, and a restoration is at least 2000 ms after the level change before it.\<close>

lemma level_changes_keep_distance:
  assumes "make_controller config = Inr c0"
  shows "successively apart (snd (foldl (level_logged lm) (c0, []) calls))"
proof -
  from make_controller_ok [OF assms] have "level_log_ok lm (c0, [])" by (simp add: level_log_ok_def)
  then have "level_log_ok lm (foldl (level_logged lm) (c0, []) calls)" by (rule level_pace.run_inv)
  then show ?thesis by (simp add: level_log_ok_def)
qed

lemma level_changes_keep_distance_witness:
  "make_controller sample_config = Inr sample_controller \<and>
   successively apart (snd (foldl (level_logged sample_libm) (sample_controller, [])
     [Tick (sample_tick 1 10), Tick (sample_tick 2 600), Tick (sample_tick 3 700)]))"
  using make_sample_controller level_changes_keep_distance [OF make_sample_controller] by blast

end
