(* ===== verification/Controller_Evidence.thy ===== *)
theory Controller_Evidence
  imports Controller_Safety
begin

text \<open>
  The state machine of the controller over any sequence of calls: which evidence a change of
  state rests on, and that an unusable link is final.
\<close>

section \<open>Unusable is final\<close>

lemma decide_unusable:
  assumes "pc_state c = Unusable"
  shows "decide lm c now p h co = (Inr no_verdict, (count_ticks c now p co)\<lparr>pc_unusable_violation_since := None\<rparr>)"
proof -
  have s: "pc_state (count_ticks c now p co) = Unusable" using assms by (simp add: count_ticks_def Let_def)
  then show ?thesis
    by (simp add: decide_def advance_state_def judge_unusable_def and_also_def change_level_def)
qed

definition stopped_at where
  "stopped_at levels c \<longleftrightarrow> pc_state c = Unusable \<and> level_state c = levels"

lemma stopped_decide: "stopped_at levels c \<Longrightarrow> stopped_at levels (snd (decide lm c now p h co))"
  using decide_unusable [of c lm now p h co]
  by (simp add: stopped_at_def) (simp add: level_state_def count_ticks_def Let_def)

lemma stopped_touched: "stopped_at levels c \<Longrightarrow> stopped_at levels (touched c i pending ms)"
  by (simp add: stopped_at_def level_state_touched)

lemma stopped_tick:
  assumes "stopped_at levels c"
  shows "stopped_at levels (snd (tick lm c i))"
    and "tick lm c i = (Inr d, c') \<Longrightarrow> dc_action d = Action_none \<and> dc_resulting_state d = Unusable"
proof -
  show s: "stopped_at levels (snd (tick lm c i))"
    by (cases rule: tick_cases [of c i lm]) (use assms stopped_touched stopped_decide in auto)
  assume t: "tick lm c i = (Inr d, c')"
  show "dc_action d = Action_none \<and> dc_resulting_state d = Unusable"
  proof (cases rule: tick_cases [of c i lm])
    case (decided consumed reset pending ms p h co)
    have u: "pc_state (touched c i pending ms) = Unusable" using assms by (simp add: stopped_at_def)
    let ?c = "(count_ticks (touched c i pending ms) (in_sender_arrival_milliseconds i) p co)
      \<lparr>pc_unusable_violation_since := None\<rparr>"
    from decided(4) decide_unusable [OF u]
    have "finish lm (touched c i pending ms) i consumed reset no_verdict ?c = (Inr d, c')" using t by simp
    from finish_Inr [OF this] s t show ?thesis by (simp add: no_verdict_def stopped_at_def)
  qed (use t in auto)
qed

lemma stopped_push: "stopped_at levels c \<Longrightarrow> stopped_at levels (snd (push_feedback c f))"
  using level_state_push_feedback [of c f]
  by (cases rule: push_feedback_cases [of c f]) (auto simp: stopped_at_def)

interpretation unusable_link: latched_machine "controller_step lm" "\<lambda>_. True" "stopped_at levels"
proof
  fix s :: protected_region_controller and e assume "stopped_at levels s"
  then show "stopped_at levels (controller_step lm s e)"
    by (cases e) (simp_all add: stopped_tick(1) stopped_push)
qed simp

text \<open>Once the controller has declared the link unusable, it stays so whatever is
  called: the levels never move again, and every later tick that returns reports the unusable
  state and takes no action.\<close>

lemma unusable_is_final:
  assumes "pc_state c = Unusable" "c' = controller_run lm c calls"
  shows "pc_state c' = Unusable \<and> level_state c' = level_state c \<and>
    (case fst (tick lm c' i) of
       Inl _ \<Rightarrow> True
     | Inr d \<Rightarrow> dc_action d = Action_none \<and> dc_resulting_state d = Unusable)"
proof -
  have "stopped_at (level_state c) c" using assms(1) by (simp add: stopped_at_def)
  then have s: "stopped_at (level_state c) c'" unfolding assms(2) by (intro unusable_link.run_latched) simp_all
  then show ?thesis
    using stopped_tick(2) [OF s, of lm i] by (cases "tick lm c' i") (auto simp: stopped_at_def split: sum.split)
qed

lemma unusable_is_final_witness:
  "pc_state (sample_controller\<lparr>pc_state := Unusable\<rparr>) = Unusable \<and>
   pc_state (controller_run sample_libm (sample_controller\<lparr>pc_state := Unusable\<rparr>)
     [Tick (sample_tick 1 10), Tick (sample_tick 2 600)]) = Unusable"
  using unusable_is_final [of "sample_controller\<lparr>pc_state := Unusable\<rparr>" _ sample_libm
      "[Tick (sample_tick 1 10), Tick (sample_tick 2 600)]", OF _ refl] by simp

section \<open>Observations\<close>

text \<open>What a tick that reaches its decision has seen.\<close>

record observation =
  ob_time :: u64
  ob_pressure :: bool
  ob_hard :: bool
  ob_compliant :: bool
  ob_minimum :: bool
  ob_prior :: controller_state
  ob_resulting :: controller_state

definition observe ::
  "libm \<Rightarrow> protected_region_controller \<Rightarrow> controller_tick_input \<Rightarrow> observation list" where
  "observe lm c i =
     (if tick_refusal c i \<noteq> None then []
      else case measure lm c i of
        (Inl _, _) \<Rightarrow> []
      | (Inr _, (pending, ms)) \<Rightarrow>
          (case tick_predicates lm (touched c i pending ms) i of
             Inl _ \<Rightarrow> []
           | Inr (pressure, hard, compliant) \<Rightarrow>
               [\<lparr>ob_time = in_sender_arrival_milliseconds i, ob_pressure = pressure, ob_hard = hard,
                 ob_compliant = compliant, ob_minimum = (at_unusable_levels lm c = Inr True),
                 ob_prior = pc_state c, ob_resulting = pc_state (snd (tick lm c i))\<rparr>]))"

fun observed ::
  "libm \<Rightarrow> protected_region_controller \<times> observation list \<Rightarrow> controller_call \<Rightarrow>
   protected_region_controller \<times> observation list" where
  "observed lm (c, seen) (Push_feedback f) = (controller_step lm c (Push_feedback f), seen)"
| "observed lm (c, seen) (Tick i) = (controller_step lm c (Tick i), seen @ observe lm c i)"

text \<open>\<open>held_for P ms seen\<close>: the last observations, over at least \<open>ms\<close> milliseconds, all satisfy \<open>P\<close>.\<close>

definition held_for :: "(observation \<Rightarrow> bool) \<Rightarrow> nat \<Rightarrow> observation list \<Rightarrow> bool" where
  "held_for P ms seen \<longleftrightarrow>
     (\<exists>pre e post. seen = pre @ e # post \<and> list_all P (e # post) \<and>
        unat (ob_time e) + ms \<le> unat (ob_time (last seen)))"

definition collapsed :: "observation \<Rightarrow> bool" where
  "collapsed x \<longleftrightarrow> ob_hard x \<and> ob_minimum x"

text \<open>The last observation of a nonempty log changes the state only on evidence.\<close>

definition justified :: "observation list \<Rightarrow> bool" where
  "justified seen \<longleftrightarrow>
     (let x = last seen; prior = ob_prior x in
      ob_resulting x = prior \<or>
      (case ob_resulting x of
         Stable \<Rightarrow> prior = Recovery \<and> held_for ob_compliant 5000 seen
       | Rate_pressure \<Rightarrow> (prior = Stable \<or> prior = Recovery) \<and> length (takeWhile ob_pressure (rev seen)) \<ge> 3
       | Congested \<Rightarrow> prior \<noteq> Unusable \<and> ob_hard x
       | Recovery \<Rightarrow> (prior = Rate_pressure \<or> prior = Congested) \<and> held_for ob_compliant 1000 seen
       | Unusable \<Rightarrow> held_for collapsed 3000 seen))"

definition backed :: "(observation \<Rightarrow> bool) \<Rightarrow> observation list \<Rightarrow> u64 option \<Rightarrow> bool" where
  "backed P seen since \<longleftrightarrow>
     (\<forall>t. since = Some t \<longrightarrow> (\<exists>pre e post. seen = pre @ e # post \<and> ob_time e = t \<and> list_all P (e # post)))"

lemma backed_None [simp]: "backed P seen None"
  by (simp add: backed_def)

lemma backed_extend: "backed P seen since \<Longrightarrow> P x \<Longrightarrow> backed P (seen @ [x]) since"
  by (fastforce simp: backed_def)

lemma backed_start: "P x \<Longrightarrow> backed P (seen @ [x]) (Some (ob_time x))"
  unfolding backed_def by (intro allI impI exI [of _ seen] exI [of _ x] exI [of _ "[]"]) simp

lemma backed_held:
  assumes "backed P seen since" "lasted since now k" "by_then now since" "now = ob_time (last seen)"
  shows "held_for P (unat k) seen"
proof -
  from assms(2) obtain t where t: "since = Some t" "now - t \<ge> k" by (auto simp: lasted_def split: option.splits)
  with assms(3) elapsed_interval [of t now k] have "unat t + unat k \<le> unat now" by simp
  with assms(1,4) t(1) show ?thesis by (auto simp: backed_def held_for_def)
qed

section \<open>Evidence and the state machine\<close>

text \<open>The fields that carry the evidence; a level change leaves them alone.\<close>

definition evidence_state where
  "evidence_state c =
     (pc_state c, pc_pressure_ticks c, pc_recovery_compliant_since c, pc_stable_compliant_since c,
      pc_unusable_violation_since c)"

lemma evidence_degrade: "evidence_state (snd (degrade lm c now)) = evidence_state c"
  by (simp add: evidence_state_def degrade_def degraded_def split: sum.split)

lemma evidence_restore: "evidence_state (snd (restore c now)) = evidence_state c"
  by (simp add: evidence_state_def restore_def restored_def Let_def split: controller_action.split)

lemma evidence_change_level: "evidence_state (snd (change_level lm c now co v)) = evidence_state c"
  by (simp add: change_level_snd evidence_degrade evidence_restore)

lemma evidence_decide:
  "evidence_state (snd (decide lm c now p h co)) =
     evidence_state (snd (judge_unusable lm (snd (advance_state (count_ticks c now p co) now h)) now h
       (fst (advance_state (count_ticks c now p co) now h))))"
  by (cases rule: decide_cases [of lm c now p h co]) (auto simp: evidence_change_level)

lemma evidence_judge:
  fixes c :: protected_region_controller
  defines "j lm now h v \<equiv> snd (judge_unusable lm c now h v)"
  shows "pc_pressure_ticks (j lm now h v) = pc_pressure_ticks c"
    "pc_recovery_compliant_since (j lm now h v) = pc_recovery_compliant_since c"
    "pc_stable_compliant_since (j lm now h v) = pc_stable_compliant_since c"
  by (auto simp: j_def judge_unusable_def Let_def split: sum.split)

lemma judge_state:
  assumes "c' = snd (judge_unusable lm c now h v)"
  shows "pc_state c' = pc_state c \<or>
    pc_state c' = Unusable \<and> lasted (pc_unusable_violation_since c') now kUnusableViolationMilliseconds"
  using assms by (auto simp: judge_unusable_def Let_def lasted_def split: sum.splits)

lemma judge_unusable_since:
  assumes "c' = snd (judge_unusable lm c now h v)"
  shows "pc_unusable_violation_since c' = None \<or>
    (pc_unusable_violation_since c' = pc_unusable_violation_since c \<or>
     pc_unusable_violation_since c' = Some now) \<and> pc_state c \<noteq> Unusable \<and> h \<and> at_unusable_levels lm c = Inr True \<or>
    pc_unusable_violation_since c' = pc_unusable_violation_since c \<and> (\<exists>e. at_unusable_levels lm c = Inl e)"
  using assms
  by (auto simp: judge_unusable_def Let_def and_also_def split: sum.splits if_splits option.splits)

lemma advance_fields:
  fixes c :: protected_region_controller
  defines "a now h \<equiv> snd (advance_state c now h)"
  shows "pc_pressure_ticks (a now h) = pc_pressure_ticks c"
    "pc_recovery_compliant_since (a now h) = pc_recovery_compliant_since c"
    "pc_unusable_violation_since (a now h) = pc_unusable_violation_since c"
    "pc_stable_compliant_since (a now h) = None \<or>
     pc_stable_compliant_since (a now h) = pc_stable_compliant_since c \<or>
     pc_stable_compliant_since (a now h) = pc_recovery_compliant_since c"
  by (auto simp: a_def advance_state_def)

lemma advance_transition:
  assumes "c' = snd (advance_state c now h)"
  shows "pc_state c' = pc_state c \<or>
    pc_state c' = Congested \<and> h \<and> pc_state c \<noteq> Unusable \<or>
    pc_state c' = Rate_pressure \<and> (pc_state c = Stable \<or> pc_state c = Recovery) \<and> pc_pressure_ticks c \<ge> 3 \<or>
    pc_state c' = Recovery \<and> (pc_state c = Rate_pressure \<or> pc_state c = Congested) \<and>
      lasted (pc_recovery_compliant_since c) now kRecoveryEntryMilliseconds \<or>
    pc_state c' = Stable \<and> pc_state c = Recovery \<and>
      lasted (pc_stable_compliant_since c') now kStableReturnMilliseconds"
  using assms by (auto simp: advance_state_def)

lemma count_fields:
  fixes c :: protected_region_controller
  defines "k now p co \<equiv> count_ticks c now p co"
  shows "pc_state (k now p co) = pc_state c"
    "pc_pressure_ticks (k now p co) = (if p then size_add (pc_pressure_ticks c) 1 else 0)"
    "pc_recovery_compliant_since (k now p co) =
       (if co then Some (case pc_recovery_compliant_since c of None \<Rightarrow> now | Some t \<Rightarrow> t) else None)"
    "pc_stable_compliant_since (k now p co) = (if co then pc_stable_compliant_since c else None)"
    "pc_unusable_violation_since (k now p co) = pc_unusable_violation_since c"
  by (auto simp: k_def count_ticks_def Let_def split: option.split)

lemma at_unusable_levels_cong: "level_state c = level_state c' \<Longrightarrow> at_unusable_levels lm c = at_unusable_levels lm c'"
  using payload_at_minimum_cong [of c c' lm] by (simp add: at_unusable_levels_def level_state_def)

text \<open>The state and the evidence after a decision, from the state and the evidence before it.\<close>

lemma decide_evidence:
  assumes "d = snd (decide lm c now p h co)"
  shows "pc_pressure_ticks d = (if p then size_add (pc_pressure_ticks c) 1 else 0)"
    "pc_recovery_compliant_since d =
       (if co then Some (case pc_recovery_compliant_since c of None \<Rightarrow> now | Some t \<Rightarrow> t) else None)"
    "pc_stable_compliant_since d = None \<or>
     co \<and> (pc_stable_compliant_since d = pc_stable_compliant_since c \<or>
           pc_stable_compliant_since d = pc_recovery_compliant_since d)"
    "pc_unusable_violation_since d = None \<or>
     (pc_unusable_violation_since d = pc_unusable_violation_since c \<or> pc_unusable_violation_since d = Some now) \<and>
       h \<and> at_unusable_levels lm c = Inr True \<or>
     pc_unusable_violation_since d = pc_unusable_violation_since c \<and> (\<exists>e. at_unusable_levels lm c = Inl e)"
    "pc_state d = pc_state c \<or>
     pc_state d = Congested \<and> h \<and> pc_state c \<noteq> Unusable \<or>
     pc_state d = Rate_pressure \<and> (pc_state c = Stable \<or> pc_state c = Recovery) \<and> pc_pressure_ticks d \<ge> 3 \<or>
     pc_state d = Recovery \<and> (pc_state c = Rate_pressure \<or> pc_state c = Congested) \<and>
       lasted (pc_recovery_compliant_since d) now kRecoveryEntryMilliseconds \<or>
     pc_state d = Stable \<and> pc_state c = Recovery \<and>
       lasted (pc_stable_compliant_since d) now kStableReturnMilliseconds \<or>
     pc_state d = Unusable \<and> lasted (pc_unusable_violation_since d) now kUnusableViolationMilliseconds"
proof -
  define k where "k = count_ticks c now p co"
  define a where "a = snd (advance_state k now h)"
  define j where "j = snd (judge_unusable lm a now h (fst (advance_state k now h)))"
  have e: "evidence_state d = evidence_state j"
    unfolding assms j_def a_def k_def by (rule evidence_decide)
  then have d: "pc_state d = pc_state j" "pc_pressure_ticks d = pc_pressure_ticks a"
    "pc_recovery_compliant_since d = pc_recovery_compliant_since a"
    "pc_stable_compliant_since d = pc_stable_compliant_since a"
    "pc_unusable_violation_since d = pc_unusable_violation_since j"
    by (simp_all add: evidence_state_def j_def evidence_judge)
  note ka = advance_fields [of k now h, folded a_def] and ck = count_fields [of c now p co, folded k_def]
  have l: "at_unusable_levels lm a = at_unusable_levels lm c"
    by (rule at_unusable_levels_cong) (simp add: a_def k_def level_frames)
  show "pc_pressure_ticks d = (if p then size_add (pc_pressure_ticks c) 1 else 0)" using d ka ck by simp
  show "pc_recovery_compliant_since d =
       (if co then Some (case pc_recovery_compliant_since c of None \<Rightarrow> now | Some t \<Rightarrow> t) else None)"
    using d ka ck by simp
  show "pc_stable_compliant_since d = None \<or>
     co \<and> (pc_stable_compliant_since d = pc_stable_compliant_since c \<or>
           pc_stable_compliant_since d = pc_recovery_compliant_since d)" using d ka ck by auto
  show "pc_unusable_violation_since d = None \<or>
     (pc_unusable_violation_since d = pc_unusable_violation_since c \<or> pc_unusable_violation_since d = Some now) \<and>
       h \<and> at_unusable_levels lm c = Inr True \<or>
     pc_unusable_violation_since d = pc_unusable_violation_since c \<and> (\<exists>e. at_unusable_levels lm c = Inl e)"
    using judge_unusable_since [OF j_def] l d(5) ka(3) ck(5) by auto
  show "pc_state d = pc_state c \<or>
     pc_state d = Congested \<and> h \<and> pc_state c \<noteq> Unusable \<or>
     pc_state d = Rate_pressure \<and> (pc_state c = Stable \<or> pc_state c = Recovery) \<and> pc_pressure_ticks d \<ge> 3 \<or>
     pc_state d = Recovery \<and> (pc_state c = Rate_pressure \<or> pc_state c = Congested) \<and>
       lasted (pc_recovery_compliant_since d) now kRecoveryEntryMilliseconds \<or>
     pc_state d = Stable \<and> pc_state c = Recovery \<and>
       lasted (pc_stable_compliant_since d) now kStableReturnMilliseconds \<or>
     pc_state d = Unusable \<and> lasted (pc_unusable_violation_since d) now kUnusableViolationMilliseconds"
  proof (cases "pc_state j = pc_state a")
    case True
    show ?thesis using advance_transition [OF a_def] unfolding d True ka(1,2) ck(1) by blast
  next
    case False
    with judge_state [OF j_def] show ?thesis unfolding d by blast
  qed
qed

text \<open>At the minimum levels a hard violation leaves nothing to change.\<close>

lemma degrade_at_minimum:
  assumes "levels_ok lm c" "at_unusable_levels lm c = Inr True"
  shows "snd (degrade lm c now) = c"
proof -
  from assms(1) have L: "on_ladder lm c" "spaced_history c" by (simp_all add: levels_ok_def)
  from assms(2) have "size_add (pc_automatic_emphasis_index c) 1 = 5" "size_add (pc_profile_index c) 1 = 3"
    "payload_at_minimum lm c = Inr True"
    by (auto simp: at_unusable_levels_def and_also_def split: if_splits sum.splits)
      (cases "payload_at_minimum lm c"; simp)+
  with L(1) have "pc_profile_index c = 2" "pc_protected_threshold_index c = 3" "pc_automatic_emphasis_index c = 4"
    "payload_at_minimum lm c = Inr True" by (auto simp: on_ladder_def size_simps)
  then show ?thesis by (cases rule: degrade_cases [OF L, of now]) auto
qed

lemma hard_state:
  "pc_state (snd (judge_unusable lm (snd (advance_state c now True)) now True v)) \<in> {Congested, Unusable}"
  using judge_state [OF refl, of lm "snd (advance_state c now True)" now True v] by (auto simp: advance_state_def)

lemma decide_at_minimum:
  assumes ok: "levels_ok lm c" "times_by now c" and m: "at_unusable_levels lm c = Inr True" and h: h
  shows "at_unusable_levels lm (snd (decide lm c now p h co)) = Inr True"
proof (cases rule: decide_cases [of lm c now p h co])
  case (judged e c')
  with m at_unusable_levels_cong [of c' c lm] show ?thesis by simp
next
  case (changed v c')
  note j = judged_ok [OF ok changed(3)]
  have m': "at_unusable_levels lm c' = Inr True" using m at_unusable_levels_cong [OF changed(2), of lm] by simp
  have "c' = snd (judge_unusable lm (snd (advance_state (count_ticks c now p co) now h)) now h
      (fst (advance_state (count_ticks c now p co) now h)))" using changed(3) by simp
  with h hard_state [of lm "count_ticks c now p co" now] have "pc_state c' \<in> {Congested, Unusable}" by simp
  with changed(1) m' degrade_at_minimum [OF j(1) m'] show ?thesis by (auto simp: change_level_snd)
qed

lemma at_unusable_kept:
  assumes ok: "levels_ok lm c" "times_by now c"
    and inv: "pc_unusable_violation_since c \<noteq> None \<Longrightarrow> at_unusable_levels lm c = Inr True"
    and some: "pc_unusable_violation_since (snd (decide lm c now p h co)) \<noteq> None"
  shows "h \<and> at_unusable_levels lm c = Inr True \<and> at_unusable_levels lm (snd (decide lm c now p h co)) = Inr True"
  using decide_evidence(4) [OF refl, of lm c now p h co] some inv decide_at_minimum [OF ok] by auto

lemma hard_violation_congests:
  assumes "at_unusable_levels lm c = Inr False" "pc_state c \<noteq> Unusable"
  shows "pc_state (snd (decide lm c now p True co)) = Congested"
proof -
  let ?a = "advance_state (count_ticks c now p co) now True"
  have "pc_state (snd ?a) = Congested" using assms(2) by (simp add: advance_state_def count_fields(1))
  moreover have "at_unusable_levels lm (snd ?a) = Inr False"
    using assms(1) at_unusable_levels_cong [of "snd ?a" c lm] by (simp add: level_frames)
  ultimately have "pc_state (snd (judge_unusable lm (snd ?a) now True (fst ?a))) = Congested"
    by (simp add: judge_unusable_def and_also_def)
  with evidence_decide [of lm c now p True co] show ?thesis by (simp add: evidence_state_def)
qed

definition evidence_ok :: "libm \<Rightarrow> protected_region_controller \<times> observation list \<Rightarrow> bool" where
  "evidence_ok lm s \<longleftrightarrow>
     controller_ok lm (fst s) \<and>
     backed ob_compliant (snd s) (pc_recovery_compliant_since (fst s)) \<and>
     backed ob_compliant (snd s) (pc_stable_compliant_since (fst s)) \<and>
     backed collapsed (snd s) (pc_unusable_violation_since (fst s)) \<and>
     pc_pressure_ticks (fst s) \<le> length (takeWhile ob_pressure (rev (snd s))) \<and>
     (pc_unusable_violation_since (fst s) \<noteq> None \<longrightarrow> at_unusable_levels lm (fst s) = Inr True) \<and>
     (\<forall>k < length (snd s). justified (take (Suc k) (snd s)))"

text \<open>One decision: the evidence it leaves behind is backed by the observations with the new one.\<close>

lemma decided_backed:
  assumes c: "levels_ok lm c" "times_by now c"
    and b: "backed ob_compliant seen (pc_recovery_compliant_since c)"
      "backed ob_compliant seen (pc_stable_compliant_since c)"
      "backed collapsed seen (pc_unusable_violation_since c)"
      "pc_pressure_ticks c \<le> length (takeWhile ob_pressure (rev seen))"
      "pc_unusable_violation_since c \<noteq> None \<Longrightarrow> at_unusable_levels lm c = Inr True"
    and x: "ob_time x = now" "ob_pressure x = p" "ob_hard x = h" "ob_compliant x = co"
      "ob_minimum x = (at_unusable_levels lm c = Inr True)"
    and d: "d = snd (decide lm c now p h co)"
  shows "backed ob_compliant (seen @ [x]) (pc_recovery_compliant_since d)"
    "backed ob_compliant (seen @ [x]) (pc_stable_compliant_since d)"
    "backed collapsed (seen @ [x]) (pc_unusable_violation_since d)"
    "pc_pressure_ticks d \<le> length (takeWhile ob_pressure (rev (seen @ [x])))"
proof -
  note e = decide_evidence [OF d]
  show r: "backed ob_compliant (seen @ [x]) (pc_recovery_compliant_since d)"
    using e(2) b(1) x(1,4) backed_extend [of ob_compliant seen "pc_recovery_compliant_since c" x]
      backed_start [of ob_compliant x seen]
    by (cases "pc_recovery_compliant_since c") (simp_all split: if_splits)
  show "backed ob_compliant (seen @ [x]) (pc_stable_compliant_since d)"
    using e(3) r backed_extend [OF b(2)] x(4) by auto
  have "collapsed x" if "pc_unusable_violation_since d \<noteq> None"
    using at_unusable_kept [OF c b(5), where p = p and h = h and co = co] that x by (auto simp: d collapsed_def)
  then show "backed collapsed (seen @ [x]) (pc_unusable_violation_since d)"
    using e(4) backed_extend [OF b(3)] backed_start [of collapsed x seen] x(1)
    by (cases "pc_unusable_violation_since d") (auto simp del: not_None_eq)
  have "size_add (pc_pressure_ticks c) 1 \<le> Suc (pc_pressure_ticks c)" by (simp add: size_add_def)
  with e(1) b(4) x(2) show "pc_pressure_ticks d \<le> length (takeWhile ob_pressure (rev (seen @ [x])))" by simp
qed

lemma interval_values:
  "unat kRecoveryEntryMilliseconds = 1000" "unat kStableReturnMilliseconds = 5000"
  "unat kUnusableViolationMilliseconds = 3000"
  by (simp_all add: kRecoveryEntryMilliseconds_def kStableReturnMilliseconds_def kUnusableViolationMilliseconds_def)

lemma decided_justified:
  assumes d: "d = snd (decide lm c now p h co)" and t: "times_by now d"
    and x: "ob_time x = now" "ob_hard x = h" "ob_prior x = pc_state c" "ob_resulting x = pc_state d"
    and b: "backed ob_compliant (seen @ [x]) (pc_recovery_compliant_since d)"
      "backed ob_compliant (seen @ [x]) (pc_stable_compliant_since d)"
      "backed collapsed (seen @ [x]) (pc_unusable_violation_since d)"
      "pc_pressure_ticks d \<le> length (takeWhile ob_pressure (rev (seen @ [x])))"
  shows "justified (seen @ [x])"
proof -
  from t have t: "by_then now (pc_recovery_compliant_since d)" "by_then now (pc_stable_compliant_since d)"
    "by_then now (pc_unusable_violation_since d)" by (simp_all add: times_by_def)
  have l: "now = ob_time (last (seen @ [x]))" using x(1) by simp
  have "lasted (pc_recovery_compliant_since d) now kRecoveryEntryMilliseconds \<Longrightarrow> held_for ob_compliant 1000 (seen @ [x])"
    "lasted (pc_stable_compliant_since d) now kStableReturnMilliseconds \<Longrightarrow> held_for ob_compliant 5000 (seen @ [x])"
    "lasted (pc_unusable_violation_since d) now kUnusableViolationMilliseconds \<Longrightarrow> held_for collapsed 3000 (seen @ [x])"
    using backed_held [OF b(1) _ t(1) l] backed_held [OF b(2) _ t(2) l] backed_held [OF b(3) _ t(3) l]
    by (metis interval_values)+
  with decide_evidence(5) [OF d] x b(4) show ?thesis
    by (auto simp: justified_def Let_def simp del: rev_append takeWhile.simps)
qed

lemma touched_evidence [simp]:
  "pc_recovery_compliant_since (touched c i pending ms) = pc_recovery_compliant_since c"
  "pc_stable_compliant_since (touched c i pending ms) = pc_stable_compliant_since c"
  "pc_unusable_violation_since (touched c i pending ms) = pc_unusable_violation_since c"
  "pc_pressure_ticks (touched c i pending ms) = pc_pressure_ticks c"
  by (simp_all add: touched_def)

lemma at_unusable_levels_touched [simp]:
  "at_unusable_levels lm (touched c i pending ms) = at_unusable_levels lm c"
  by (rule at_unusable_levels_cong) (rule level_state_touched)

lemma justified_snoc:
  assumes "\<forall>k < length seen. justified (take (Suc k) seen)" "justified (seen @ [x])"
  shows "\<forall>k < length (seen @ [x]). justified (take (Suc k) (seen @ [x]))"
  using assms by (auto simp: less_Suc_eq)

lemma observed_tick_ok:
  assumes ok: "evidence_ok lm (c, seen)"
  shows "evidence_ok lm (observed lm (c, seen) (Tick i))"
proof (cases rule: tick_cases [of c i lm])
  case (refused e)
  with ok show ?thesis by (simp add: observe_def)
next
  case (unmeasured e pending ms)
  with ok tick_ok [of lm c i] show ?thesis by (simp add: evidence_ok_def observe_def)
next
  case (undecided e consumed reset pending ms)
  with ok tick_ok [of lm c i] show ?thesis by (simp add: evidence_ok_def observe_def)
next
  case (decided consumed reset pending ms p h co)
  let ?t = "touched c i pending ms" and ?now = "in_sender_arrival_milliseconds i"
  define d where "d = snd (decide lm ?t ?now p h co)"
  define x where "x = \<lparr>ob_time = ?now, ob_pressure = p, ob_hard = h, ob_compliant = co,
    ob_minimum = (at_unusable_levels lm c = Inr True), ob_prior = pc_state c, ob_resulting = pc_state d\<rparr>"
  from ok have c: "controller_ok lm c" "levels_ok lm c" "clock_ok c"
    and inv: "pc_unusable_violation_since ?t \<noteq> None \<Longrightarrow> at_unusable_levels lm ?t = Inr True"
    and b: "backed ob_compliant seen (pc_recovery_compliant_since ?t)"
      "backed ob_compliant seen (pc_stable_compliant_since ?t)"
      "backed collapsed seen (pc_unusable_violation_since ?t)"
      "pc_pressure_ticks ?t \<le> length (takeWhile ob_pressure (rev seen))"
    and J: "\<forall>k < length seen. justified (take (Suc k) seen)"
    by (auto simp: evidence_ok_def controller_ok_def)
  note t = touched_levels_ok [OF c(2), of i pending ms] touched_times [OF decided(1) c(3), of pending ms]
  have b': "backed ob_compliant (seen @ [x]) (pc_recovery_compliant_since d)"
    "backed ob_compliant (seen @ [x]) (pc_stable_compliant_since d)"
    "backed collapsed (seen @ [x]) (pc_unusable_violation_since d)"
    "pc_pressure_ticks d \<le> length (takeWhile ob_pressure (rev (seen @ [x])))"
    by (rule decided_backed [OF t b inv _ _ _ _ _ d_def]; simp add: x_def)+
  have "times_by ?now d" unfolding d_def by (rule decide_times [OF t(2)])
  then have j: "justified (seen @ [x])"
    by (rule decided_justified [OF d_def _ _ _ _ _ b']) (simp_all add: x_def)
  have u: "pc_unusable_violation_since d \<noteq> None \<longrightarrow> at_unusable_levels lm d = Inr True"
    using at_unusable_kept [OF t inv, of p h co] unfolding d_def by blast
  have run: "observed lm (c, seen) (Tick i) = (d, seen @ [x])"
    using decided by (simp add: observe_def d_def x_def)
  have "controller_ok lm d" using tick_ok [OF c(1), of i] decided(5) by (simp add: d_def)
  with b' u justified_snoc [OF J j] show ?thesis
    unfolding run evidence_ok_def fst_conv snd_conv by blast
qed

interpretation evidence: safe_machine "observed lm" "evidence_ok lm"
proof
  fix s e assume ok: "evidence_ok lm s"
  obtain c seen where s: "s = (c, seen)" by (cases s)
  show "evidence_ok lm (observed lm s e)"
  proof (cases e)
    case (Push_feedback f)
    have "evidence_state (snd (push_feedback c f)) = evidence_state c"
      by (cases rule: push_feedback_cases [of c f]) (auto simp: evidence_state_def)
    with ok Push_feedback push_feedback_ok [of lm c f]
      at_unusable_levels_cong [OF level_state_push_feedback, of lm c f] show ?thesis
      by (simp add: s evidence_ok_def evidence_state_def)
  next
    case (Tick i)
    with ok observed_tick_ok [of lm c seen i] show ?thesis by (simp add: s)
  qed
qed

lemma make_controller_evidence: "make_controller config = Inr c \<Longrightarrow> evidence_ok lm (c, [])"
  using make_controller_ok [of config c lm]
  by (auto simp: evidence_ok_def make_controller_def split: option.splits)


lemma initial_fields:
  assumes "make_controller config = Inr c"
  shows "pc_state c = Stable" "pc_pending_feedback c = []" "pc_last_tick_sequence c = None"
    "pc_last_tick_milliseconds c = None" "pc_automatic_emphasis_index c = 0" "pc_profile_index c = 0"
    "pc_last_action c = None"
    "pc_measurements c =
       \<lparr>ms_elementary = new_rate_estimator, ms_wire = new_rate_estimator,
        ms_retransmission = new_rate_estimator, ms_delivered = new_rate_estimator,
        ms_queue_age = new_gauge_estimator, ms_loss = new_gauge_estimator, ms_rtt = new_gauge_estimator,
        ms_latest_loss = no_feedback, ms_latest_rtt = no_feedback, ms_latest_remb = no_feedback\<rparr>"
  using assms by (auto simp: make_controller_def split: option.splits)

lemmas sample_fields = initial_fields [OF make_sample_controller]

lemma sample_accepted: "tick_refusal sample_controller (sample_tick 1 10) = None"
  by (simp add: tick_refusal_def check_def at_most_def sample_fields sample_tick_def
      require_finite_nonnegative_def require_fraction_def d_isfinite_def)

lemma sample_measured:
  "\<exists>ms. measure sample_libm sample_controller (sample_tick 1 10) = (Inr ([], False), ([], ms)) \<and>
     re_estimate (ms_wire ms) = no_estimate"
  by (simp add: measure_def sample_fields update_measurements_def Let_def rate_update_def gauge_update_def
      new_rate_estimator_def new_gauge_estimator_def sample_tick_def require_finite_nonnegative_def d_isfinite_def)

lemma sample_predicates:
  "re_estimate (ms_wire ms) = no_estimate \<Longrightarrow>
   tick_predicates lm (touched sample_controller (sample_tick 1 10) [] ms) (sample_tick 1 10) = Inr (True, True, False)"
  by (simp add: tick_predicates_def Let_def pressure_predicate_def hard_violation_def recovery_compliant_def
      array_at_def sample_tick_def estimator_snapshot_def no_estimate_def stays_below_def d_le_def
      kProfiles_def) (simp add: touched_def sample_fields)

lemma sample_observed:
  "observe sample_libm sample_controller (sample_tick 1 10) =
     [\<lparr>ob_time = 10, ob_pressure = True, ob_hard = True, ob_compliant = False, ob_minimum = False,
       ob_prior = Stable, ob_resulting = Congested\<rparr>]"
proof -
  let ?i = "sample_tick 1 10"
  obtain ms where m: "measure sample_libm sample_controller ?i = (Inr ([], False), ([], ms))"
    "re_estimate (ms_wire ms) = no_estimate" using sample_measured by blast
  let ?t = "touched sample_controller ?i [] ms"
  note p = sample_predicates [OF m(2), of sample_libm]
  have "at_unusable_levels sample_libm sample_controller = Inr False"
    by (simp add: at_unusable_levels_def and_also_def sample_fields size_add_def)
  moreover have "snd (tick sample_libm sample_controller ?i) = snd (decide sample_libm ?t 10 True True False)"
    by (cases rule: tick_cases [of sample_controller ?i sample_libm])
      (use sample_accepted m p in \<open>auto simp: sample_tick_def\<close>)
  moreover have "pc_state (snd (decide sample_libm ?t 10 True True False)) = Congested"
    by (rule hard_violation_congests) (simp_all add: calculation(1) sample_fields)
  ultimately show ?thesis
    by (simp add: observe_def sample_accepted m p sample_fields) (simp add: sample_tick_def)
qed


end
