(* ===== verification/Controller_Intake.thy ===== *)
theory Controller_Intake
  imports Controller_Evidence
begin

text \<open>
  The intake of the controller: feedback is validated when it is pushed and consumed exactly once,
  in order, by the first tick it is due for, the estimators never refuse their input, and the
  payload target stays between the profile minimum and the configured base. Together: a tick whose
  input is accepted can fail only while its trace is written.
\<close>

section \<open>Estimators\<close>

lemma rate_update_total:
  assumes "\<And>t. re_previous_milliseconds r = Some t \<Longrightarrow> t < now"
  shows "\<exists>b r'. rate_update lm r counter now scale = (Inr b, r') \<and> re_previous_milliseconds r' = Some now"
proof (cases "re_previous_counter r")
  case None
  then show ?thesis by (auto simp: rate_update_def)
next
  case (Some k)
  then show ?thesis
    using assms by (cases "re_previous_milliseconds r") (auto simp: rate_update_def Let_def not_le)
qed

lemma gauge_update_total:
  assumes "require_finite_nonnegative x ''controller gauge'' = None" "by_then now (ga_previous_milliseconds g)"
  shows "\<exists>g'. gauge_update lm g x now = (Inr (), g') \<and> ga_previous_milliseconds g' = Some now"
  using assms by (cases "ga_previous_milliseconds g") (auto simp: gauge_update_def not_less)

definition rate_estimators :: "controller_measurements \<Rightarrow> rate_estimator list" where
  "rate_estimators ms = [ms_elementary ms, ms_wire ms, ms_retransmission ms, ms_delivered ms]"

text \<open>The estimators that only ticks update have seen nothing after the last tick.\<close>

definition ticked_before :: "(u64 \<Rightarrow> bool) \<Rightarrow> controller_measurements \<Rightarrow> bool" where
  "ticked_before P ms \<longleftrightarrow>
     list_all (\<lambda>r. \<forall>t. re_previous_milliseconds r = Some t \<longrightarrow> P t) (rate_estimators ms) \<and>
     (\<forall>t. ga_previous_milliseconds (ms_queue_age ms) = Some t \<longrightarrow> P t)"

text \<open>The estimators that feedback updates.\<close>

definition gauges_by :: "u64 \<Rightarrow> controller_measurements \<Rightarrow> bool" where
  "gauges_by t ms \<longleftrightarrow>
     by_then t (ga_previous_milliseconds (ms_loss ms)) \<and> by_then t (ga_previous_milliseconds (ms_rtt ms))"

definition same_ticked :: "controller_measurements \<Rightarrow> controller_measurements \<Rightarrow> bool" where
  "same_ticked ms ms' \<longleftrightarrow> rate_estimators ms' = rate_estimators ms \<and> ms_queue_age ms' = ms_queue_age ms"

lemma update_measurements_total:
  assumes "ticked_before (\<lambda>t. t < in_sender_arrival_milliseconds i) ms"
    "require_finite_nonnegative (in_oldest_media_age_milliseconds i) ''controller gauge'' = None"
  shows "\<exists>reset ms'. update_measurements lm i ms = (Inr reset, ms') \<and>
    ticked_before (\<lambda>t. t \<le> in_sender_arrival_milliseconds i) ms' \<and>
    ms_loss ms' = ms_loss ms \<and> ms_rtt ms' = ms_rtt ms"
proof -
  let ?now = "in_sender_arrival_milliseconds i" and ?k = "in_counters i"
  from assms(1) have r: "\<And>t. re_previous_milliseconds (ms_elementary ms) = Some t \<Longrightarrow> t < ?now"
    "\<And>t. re_previous_milliseconds (ms_wire ms) = Some t \<Longrightarrow> t < ?now"
    "\<And>t. re_previous_milliseconds (ms_retransmission ms) = Some t \<Longrightarrow> t < ?now"
    "\<And>t. re_previous_milliseconds (ms_delivered ms) = Some t \<Longrightarrow> t < ?now"
    and g: "by_then ?now (ga_previous_milliseconds (ms_queue_age ms))"
    by (auto simp: ticked_before_def rate_estimators_def by_then_def split: option.split)
  obtain b1 r1 where 1: "rate_update lm (ms_elementary ms) (elementary_stream_bytes ?k) ?now (Fin 8) = (Inr b1, r1)"
    "re_previous_milliseconds r1 = Some ?now" using rate_update_total [OF r(1)] by blast
  obtain b2 r2 where 2: "rate_update lm (ms_wire ms) (wire_egress_bytes ?k) ?now (Fin 8) = (Inr b2, r2)"
    "re_previous_milliseconds r2 = Some ?now" using rate_update_total [OF r(2)] by blast
  obtain b3 r3 where 3: "rate_update lm (ms_retransmission ms) (retransmission_bytes ?k) ?now (Fin 8) = (Inr b3, r3)"
    "re_previous_milliseconds r3 = Some ?now" using rate_update_total [OF r(3)] by blast
  obtain b4 r4 where 4: "rate_update lm (ms_delivered ms) (delivered_frames ?k) ?now (Fin 1) = (Inr b4, r4)"
    "re_previous_milliseconds r4 = Some ?now" using rate_update_total [OF r(4)] by blast
  obtain g' where 5: "gauge_update lm (ms_queue_age ms) (in_oldest_media_age_milliseconds i) ?now = (Inr (), g')"
    "ga_previous_milliseconds g' = Some ?now" using gauge_update_total [OF assms(2) g] by blast
  show ?thesis
    using 1 2 3 4 5 by (simp add: update_measurements_def Let_def ticked_before_def rate_estimators_def)
qed

section \<open>Feedback\<close>

definition feedback_valid :: "controller_feedback \<Rightarrow> bool" where
  "feedback_valid f \<longleftrightarrow>
     optional_check (\<lambda>x. require_finite_nonnegative x ''controller gauge'') (fb_loss_fraction f) = None \<and>
     optional_check (\<lambda>x. require_finite_nonnegative x ''controller gauge'') (fb_round_trip_time_milliseconds f) = None"

lemma gauge_name: "require_finite_nonnegative x a = None \<longleftrightarrow> require_finite_nonnegative x b = None"
  by (simp add: require_finite_nonnegative_def)

lemma fraction_nonnegative: "require_fraction x a = None \<Longrightarrow> require_finite_nonnegative x b = None"
  by (auto simp: require_fraction_def require_finite_nonnegative_def split: if_splits)

lemma pushed_valid:
  assumes "optional_check (\<lambda>x. require_fraction x ''feedback loss'') (fb_loss_fraction f) = None"
    "optional_check (\<lambda>x. require_finite_nonnegative x ''feedback RTT'') (fb_round_trip_time_milliseconds f) = None"
  shows "feedback_valid f"
  using assms fraction_nonnegative gauge_name [of _ "''feedback RTT''" "''controller gauge''"]
  by (auto simp: feedback_valid_def optional_check_def split: option.splits)

lemma consume_one_total:
  assumes "feedback_valid f" "gauges_by (fb_sender_arrival_milliseconds f) ms"
  shows "\<exists>ms'. consume_one lm f ms = (Inr (), ms') \<and> gauges_by (fb_sender_arrival_milliseconds f) ms' \<and>
    same_ticked ms ms'"
proof -
  let ?t = "fb_sender_arrival_milliseconds f"
  have "\<exists>ms'. consume_loss lm f ms = (Inr (), ms') \<and> gauges_by ?t ms' \<and> same_ticked ms ms'"
  proof (cases "fb_loss_fraction f")
    case None
    with assms(2) show ?thesis by (simp add: consume_loss_def same_ticked_def)
  next
    case (Some x)
    with assms obtain g' where "gauge_update lm (ms_loss ms) x ?t = (Inr (), g')" "ga_previous_milliseconds g' = Some ?t"
      using gauge_update_total [of x ?t "ms_loss ms" lm] by (auto simp: feedback_valid_def optional_check_def gauges_by_def)
    with Some assms(2) show ?thesis
      by (simp add: consume_loss_def gauges_by_def same_ticked_def rate_estimators_def)
  qed
  then obtain ms1 where 1: "consume_loss lm f ms = (Inr (), ms1)" "gauges_by ?t ms1" "same_ticked ms ms1" by blast
  have "\<exists>ms'. consume_rtt lm f ms1 = (Inr (), ms') \<and> gauges_by ?t ms' \<and> same_ticked ms1 ms'"
  proof (cases "fb_round_trip_time_milliseconds f")
    case None
    with 1 show ?thesis by (simp add: consume_rtt_def same_ticked_def)
  next
    case (Some x)
    with assms(1) 1(2) obtain g' where "gauge_update lm (ms_rtt ms1) x ?t = (Inr (), g')" "ga_previous_milliseconds g' = Some ?t"
      using gauge_update_total [of x ?t "ms_rtt ms1" lm] by (auto simp: feedback_valid_def optional_check_def gauges_by_def)
    with Some 1(2) show ?thesis
      by (simp add: consume_rtt_def gauges_by_def same_ticked_def rate_estimators_def)
  qed
  then obtain ms2 where 2: "consume_rtt lm f ms1 = (Inr (), ms2)" "gauges_by ?t ms2" "same_ticked ms1 ms2" by blast
  have "gauges_by ?t (consume_remb f ms2)" "same_ticked ms2 (consume_remb f ms2)"
    using 2(2) by (simp_all add: consume_remb_def gauges_by_def same_ticked_def rate_estimators_def)
  with 1 2 show ?thesis by (simp add: consume_one_def same_ticked_def)
qed

text \<open>Messages a tick consumes.\<close>

definition due :: "controller_tick_input \<Rightarrow> controller_feedback \<Rightarrow> bool" where
  "due i f \<longleftrightarrow> fb_arrival_sequence f < in_arrival_sequence i \<and>
     fb_sender_arrival_milliseconds f \<le> in_sender_arrival_milliseconds i"

text \<open>Messages are queued in the order of their sequence numbers and arrival times.\<close>

definition arrived_before :: "controller_feedback \<Rightarrow> controller_feedback \<Rightarrow> bool" where
  "arrived_before f g \<longleftrightarrow> fb_arrival_sequence f < fb_arrival_sequence g \<and>
     fb_sender_arrival_milliseconds f \<le> fb_sender_arrival_milliseconds g"

lemma due_prefix:
  "sorted_wrt arrived_before pending \<Longrightarrow>
   takeWhile (due i) pending = filter (due i) pending \<and> dropWhile (due i) pending = filter (\<lambda>f. \<not> due i f) pending"
proof (induction pending)
  case (Cons f pending)
  show ?case
  proof (cases "due i f")
    case False
    with Cons.prems have "\<not> due i g" if "g \<in> set pending" for g
      using that by (auto simp: due_def arrived_before_def)
    with False show ?thesis by (simp add: filter_empty_conv filter_id_conv)
  qed (use Cons in simp)
qed simp

lemma gauges_by_mono: "gauges_by a ms \<Longrightarrow> a \<le> b \<Longrightarrow> gauges_by b ms"
  by (auto simp: gauges_by_def intro: by_then_mono)

lemma consume_loop_total:
  assumes "sorted_wrt arrived_before pending" "list_all feedback_valid pending"
    "\<forall>f\<in>set pending. gauges_by (fb_sender_arrival_milliseconds f) ms"
    "\<forall>f\<in>set pending. fb_sender_arrival_milliseconds f \<le> last_arrival" "gauges_by last_arrival ms"
  shows "\<exists>ms'. consume_loop lm i pending acc ms =
      (Inr (acc @ takeWhile (due i) pending), (dropWhile (due i) pending, ms')) \<and>
    same_ticked ms ms' \<and> gauges_by last_arrival ms' \<and>
    (\<forall>f\<in>set (dropWhile (due i) pending). gauges_by (fb_sender_arrival_milliseconds f) ms')"
  using assms
proof (induction pending arbitrary: acc ms)
  case Nil
  then show ?case by (simp add: same_ticked_def)
next
  case (Cons f pending)
  show ?case
  proof (cases "due i f")
    case True
    from Cons.prems obtain ms1 where 1: "consume_one lm f ms = (Inr (), ms1)"
      "gauges_by (fb_sender_arrival_milliseconds f) ms1" "same_ticked ms ms1"
      using consume_one_total [of f ms lm] by auto
    have "\<forall>g\<in>set pending. gauges_by (fb_sender_arrival_milliseconds g) ms1"
      using Cons.prems(1) gauges_by_mono [OF 1(2)] by (auto simp: arrived_before_def)
    moreover have "gauges_by last_arrival ms1" using Cons.prems(4) gauges_by_mono [OF 1(2)] by auto
    ultimately obtain ms2 where "consume_loop lm i pending (acc @ [f]) ms1 =
        (Inr ((acc @ [f]) @ takeWhile (due i) pending), (dropWhile (due i) pending, ms2))"
      "same_ticked ms1 ms2" "gauges_by last_arrival ms2"
      "\<forall>f\<in>set (dropWhile (due i) pending). gauges_by (fb_sender_arrival_milliseconds f) ms2"
      using Cons.IH [of ms1 "acc @ [f]"] Cons.prems by auto
    moreover from True have "\<not> (fb_arrival_sequence f \<ge> in_arrival_sequence i \<or>
        fb_sender_arrival_milliseconds f > in_sender_arrival_milliseconds i)" by (auto simp: due_def)
    ultimately show ?thesis using True 1 by (simp add: same_ticked_def)
  next
    case False
    then have "fb_arrival_sequence f \<ge> in_arrival_sequence i \<or>
        fb_sender_arrival_milliseconds f > in_sender_arrival_milliseconds i" by (auto simp: due_def)
    with False Cons.prems show ?thesis by (simp add: same_ticked_def)
  qed
qed

section \<open>The intake invariant\<close>

text \<open>\<open>reached x bound\<close>: the bound is there and is at least \<open>x\<close>.\<close>

definition reached :: "u64 \<Rightarrow> u64 option \<Rightarrow> bool" where
  "reached x bound \<longleftrightarrow> (\<exists>b. bound = Some b \<and> x \<le> b)"

definition intake_ok :: "protected_region_controller \<Rightarrow> bool" where
  "intake_ok c \<longleftrightarrow>
     sorted_wrt arrived_before (pc_pending_feedback c) \<and> list_all feedback_valid (pc_pending_feedback c) \<and>
     (\<forall>f\<in>set (pc_pending_feedback c).
        reached (fb_arrival_sequence f) (pc_last_feedback_sequence c) \<and>
        reached (fb_sender_arrival_milliseconds f) (pc_last_feedback_arrival_milliseconds c) \<and>
        gauges_by (fb_sender_arrival_milliseconds f) (pc_measurements c)) \<and>
     (case pc_last_feedback_arrival_milliseconds c of
        Some t \<Rightarrow> gauges_by t (pc_measurements c)
      | None \<Rightarrow> ga_previous_milliseconds (ms_loss (pc_measurements c)) = None \<and>
          ga_previous_milliseconds (ms_rtt (pc_measurements c)) = None) \<and>
     ticked_before (\<lambda>t. reached t (pc_last_tick_milliseconds c)) (pc_measurements c)"

lemma ticked_before_mono: "ticked_before P ms \<Longrightarrow> (\<And>t. P t \<Longrightarrow> Q t) \<Longrightarrow> ticked_before Q ms"
  by (auto simp: ticked_before_def list_all_iff)

lemma ticked_before_same: "same_ticked ms ms' \<Longrightarrow> ticked_before P ms' = ticked_before P ms"
  by (simp add: ticked_before_def same_ticked_def)

lemma accepted_age:
  "tick_refusal c i = None \<Longrightarrow>
   require_finite_nonnegative (in_oldest_media_age_milliseconds i) ''controller gauge'' = None"
  using gauge_name [of "in_oldest_media_age_milliseconds i" "''oldest media age''" "''controller gauge''"]
  by (auto simp: tick_refusal_def check_def split: if_splits)

text \<open>Measuring never fails on a controller with a sound intake, and consumes exactly what is due.\<close>

lemma measure_total:
  assumes ok: "intake_ok c" and acc: "tick_refusal c i = None"
  shows "\<exists>reset ms. measure lm c i =
      (Inr (filter (due i) (pc_pending_feedback c), reset), (filter (\<lambda>f. \<not> due i f) (pc_pending_feedback c), ms)) \<and>
    intake_ok (touched c i (filter (\<lambda>f. \<not> due i f) (pc_pending_feedback c)) ms)"
proof -
  let ?p = "pc_pending_feedback c" and ?now = "in_sender_arrival_milliseconds i"
  let ?rest = "filter (\<lambda>f. \<not> due i f) ?p"
  obtain b where b: "\<forall>f\<in>set ?p. fb_sender_arrival_milliseconds f \<le> b" "gauges_by b (pc_measurements c)"
    "\<And>t. pc_last_feedback_arrival_milliseconds c = Some t \<Longrightarrow> b = t"
    using ok
    by (cases "pc_last_feedback_arrival_milliseconds c") (auto simp: intake_ok_def reached_def gauges_by_def)
  from ok b consume_loop_total [of ?p "pc_measurements c" b lm i "[]"] due_prefix [of ?p i]
  obtain ms1 where 1: "consume_loop lm i ?p [] (pc_measurements c) = (Inr (filter (due i) ?p), (?rest, ms1))"
    "same_ticked (pc_measurements c) ms1" "gauges_by b ms1"
    "\<forall>f\<in>set ?rest. gauges_by (fb_sender_arrival_milliseconds f) ms1"
    by (auto simp: intake_ok_def)
  have "ticked_before (\<lambda>t. reached t (pc_last_tick_milliseconds c)) ms1"
    using ok ticked_before_same [OF 1(2)] by (simp add: intake_ok_def)
  then have "ticked_before (\<lambda>t. t < ?now) ms1"
    by (rule ticked_before_mono) (use not_refused_times(1) [OF acc] in \<open>auto simp: reached_def\<close>)
  from update_measurements_total [OF this accepted_age [OF acc], of lm]
  obtain reset ms2 where 2: "update_measurements lm i ms1 = (Inr reset, ms2)"
    "ticked_before (\<lambda>t. t \<le> ?now) ms2" "ms_loss ms2 = ms_loss ms1" "ms_rtt ms2 = ms_rtt ms1" by blast
  have g: "gauges_by t ms2 = gauges_by t ms1" for t using 2(3,4) by (simp add: gauges_by_def)
  have none: "ga_previous_milliseconds (ms_loss ms2) = None \<and> ga_previous_milliseconds (ms_rtt ms2) = None"
    if "pc_last_feedback_arrival_milliseconds c = None"
  proof -
    from ok that have "?p = []" by (auto simp: intake_ok_def reached_def neq_Nil_conv)
    with 1(1) have "ms1 = pc_measurements c" by simp
    with ok that 2(3,4) show ?thesis by (simp add: intake_ok_def)
  qed
  have "intake_ok (touched c i ?rest ms2)"
    unfolding intake_ok_def touched_simps
  proof (intro conjI)
    show "sorted_wrt arrived_before ?rest" "list_all feedback_valid ?rest"
      using ok by (auto simp: intake_ok_def list_all_iff intro: sorted_wrt_filter)
    show "\<forall>f\<in>set ?rest. reached (fb_arrival_sequence f) (pc_last_feedback_sequence c) \<and>
        reached (fb_sender_arrival_milliseconds f) (pc_last_feedback_arrival_milliseconds c) \<and>
        gauges_by (fb_sender_arrival_milliseconds f) ms2"
      using ok 1(4) by (auto simp: intake_ok_def g)
    show "case pc_last_feedback_arrival_milliseconds c of Some t \<Rightarrow> gauges_by t ms2
      | None \<Rightarrow> ga_previous_milliseconds (ms_loss ms2) = None \<and> ga_previous_milliseconds (ms_rtt ms2) = None"
      using none b(3) 1(3) g by (cases "pc_last_feedback_arrival_milliseconds c") auto
    show "ticked_before (\<lambda>t. reached t (Some ?now)) ms2"
      using 2(2) by (simp add: reached_def)
  qed
  with 1(1) 2(1) show ?thesis by (auto simp: measure_def)
qed

lemma intake_ok_frame: "intake_state c' = intake_state c \<Longrightarrow> intake_ok c' = intake_ok c"
  by (simp add: intake_state_def intake_ok_def split: option.split)

lemma tick_intake:
  assumes "intake_ok c"
  shows "intake_ok (snd (tick lm c i))"
proof (cases "tick_refusal c i")
  case (Some e)
  with assms show ?thesis by (simp add: tick_def)
next
  case None
  from measure_total [OF assms None, of lm] obtain reset ms
    where m: "measure lm c i = (Inr (filter (due i) (pc_pending_feedback c), reset),
        (filter (\<lambda>f. \<not> due i f) (pc_pending_feedback c), ms))"
      "intake_ok (touched c i (filter (\<lambda>f. \<not> due i f) (pc_pending_feedback c)) ms)" by blast
  show ?thesis
    by (cases rule: tick_cases [of c i lm]) (use None m intake_ok_frame [OF intake_decide] in auto)
qed

lemma push_intake:
  assumes ok: "intake_ok c"
  shows "intake_ok (snd (push_feedback c f))"
proof (cases rule: push_feedback_cases [of c f])
  case (refused e)
  with ok show ?thesis by simp
next
  case queued
  let ?t = "fb_sender_arrival_milliseconds f"
  have v: "feedback_valid f" by (rule pushed_valid [OF queued(5,6)])
  have s: "arrived_before g f" if "g \<in> set (pc_pending_feedback c)" for g
    using ok that queued(2,3)
    by (fastforce simp: intake_ok_def reached_def arrived_before_def at_most_def below_def not_le not_less)
  have later: "reached x (pc_last_feedback_arrival_milliseconds c) \<Longrightarrow> x \<le> ?t" for x
    using queued(3) by (auto simp: reached_def below_def not_less)
  have later': "reached x (pc_last_feedback_sequence c) \<Longrightarrow> x \<le> fb_arrival_sequence f" for x
    using queued(2) by (auto simp: reached_def at_most_def not_le)
  have g: "gauges_by ?t (pc_measurements c)"
    using ok queued(3) gauges_by_mono [of _ "pc_measurements c" ?t]
    by (cases "pc_last_feedback_arrival_milliseconds c") (auto simp: intake_ok_def below_def gauges_by_def not_less)
  show ?thesis
    using ok v s g later later' unfolding queued(1) intake_ok_def
    by (auto simp: sorted_wrt_append reached_def)
qed

lemma make_intake: "make_controller config = Inr c \<Longrightarrow> intake_ok c"
  using initial_fields [of config c]
  by (auto simp: intake_ok_def ticked_before_def rate_estimators_def new_rate_estimator_def new_gauge_estimator_def
      make_controller_def split: option.splits)

interpretation intake: safe_machine "controller_step lm" intake_ok
proof
  fix s e assume "intake_ok s"
  then show "intake_ok (controller_step lm s e)" by (cases e) (simp_all add: tick_intake push_intake)
qed

section \<open>The payload target\<close>

text \<open>What the C library promises of \<open>pow (0.90, n)\<close> for a whole number \<open>n\<close>.\<close>

definition pow_sound :: "libm \<Rightarrow> bool" where
  "pow_sound lm \<longleftrightarrow> (\<forall>n. \<exists>r. lm_pow lm (lit (90 / 100)) (d_of_nat n) = Fin r \<and> 0 \<le> r \<and> r \<le> 1)"

lemma rounded_of_nat: "n < 2 ^ 53 \<Longrightarrow> rounded (of_nat n) = of_nat n"
  using d_of_nat_exact [of n] by (simp add: d_of_nat_def round_double_def Let_def split: if_splits)

lemma below_max_u64:
  assumes "0 \<le> v" "v \<le> of_nat n" "n < 2 ^ 53"
  shows "\<not> d_le (d_of_u64 (- 1)) (Fin v)"
proof -
  have u: "unat (- 1 :: u64) = 2 ^ 64 - 1" by (rule unat_max_u64)
  obtain r where r: "d_of_nat (2 ^ 64 - 1) = Fin r" using d_of_nat_finite [of "2 ^ 64 - 1"] by auto
  then have "r = rounded (of_nat (2 ^ 64 - 1))" by (simp add: d_of_nat_def round_double_def Let_def split: if_splits)
  moreover have "rounded (2 powi 53) \<le> rounded (of_nat (2 ^ 64 - 1))" by (rule rounded_mono) simp_all
  moreover have "rounded (2 powi 53) = 2 ^ 53" using rounded_power [of 53] by simp
  ultimately have "2 ^ 53 \<le> r" by simp
  moreover have "v < 2 ^ 53" using assms(2) of_nat_lt_power [OF assms(3)] by (rule order_le_less_trans)
  ultimately show ?thesis unfolding d_of_u64_def u r by (simp add: d_le_def d_equal_def)
qed

text \<open>Rounding to an integer stays within the integer bounds of the argument.\<close>

lemma round_ties_to_even_bounds:
  assumes "0 \<le> v" "v \<le> of_nat n" "n < 2 ^ 53"
  shows "\<exists>t. round_ties_to_even (Fin v) = Inr t \<and> unat t \<le> n"
proof -
  have "\<lfloor>v\<rfloor> \<le> int n" using assms(2) by (metis floor_mono floor_of_nat)
  then have f: "nat \<lfloor>v\<rfloor> \<le> n" "nat \<lfloor>v\<rfloor> < 2 ^ 64" using assms(3) by auto
  have "word_of_int \<lfloor>v\<rfloor> = (word_of_nat (nat \<lfloor>v\<rfloor>) :: u64)"
    using assms(1) by (metis int_nat_eq of_int_of_nat_eq zero_le_floor)
  with f(2) have w: "unat (word_of_int \<lfloor>v\<rfloor> :: u64) = nat \<lfloor>v\<rfloor>" by (simp add: unat_of_nat)
  have big: "\<not> d_le (d_of_u64 (- 1)) (Fin v)" using assms by (rule below_max_u64)
  let ?up = "d_less (Fin (1 / 2)) (d_sub (Fin v) (Fin (of_int \<lfloor>v\<rfloor>))) \<or>
    d_equal (d_sub (Fin v) (Fin (of_int \<lfloor>v\<rfloor>))) (Fin (1 / 2)) \<and> odd (unat (word_of_int \<lfloor>v\<rfloor> :: u64))"
  have run: "round_ties_to_even (Fin v) =
      Inr (if ?up then word_of_int \<lfloor>v\<rfloor> + 1 else word_of_int \<lfloor>v\<rfloor>)"
    using big assms(1) by (simp add: round_ties_to_even_def require_finite_nonnegative_def d_isfinite_def Let_def)
  have "nat \<lfloor>v\<rfloor> < n" if ?up
  proof -
    have "v \<noteq> of_int \<lfloor>v\<rfloor>"
    proof
      assume "v = of_int \<lfloor>v\<rfloor>"
      then have "d_sub (Fin v) (Fin (of_int \<lfloor>v\<rfloor>)) = Fin 0" by (simp add: d_sub_def round_double_def)
      with that show False by (simp add: d_equal_def)
    qed
    then have "of_int \<lfloor>v\<rfloor> < v" using of_int_floor_le [of v] by linarith
    with assms(2) have "(of_int \<lfloor>v\<rfloor> :: rat) < of_int (int n)" by simp
    then show ?thesis using assms(1) by (simp only: of_int_less_iff) linarith
  qed
  moreover have "unat (word_of_int \<lfloor>v\<rfloor> + 1 :: u64) = nat \<lfloor>v\<rfloor> + 1" if "nat \<lfloor>v\<rfloor> < n"
    using that assms(3) w by (simp add: unat_word_ariths)
  ultimately show ?thesis using run f(1) w by auto
qed

text \<open>The payload target is computable and lies between the profile minimum and the base.\<close>

lemma payload_target_bounds:
  assumes "pow_sound lm" "unat (base_payload_target_bps (pc_config c)) < 2 ^ 53"
    "base_payload_target_bps (pc_config c) \<ge> kMinimumPayloadBps"
  shows "\<exists>t. current_payload_target_bps lm c = Inr t \<and> kMinimumPayloadBps \<le> t \<and>
    t \<le> base_payload_target_bps (pc_config c)"
proof -
  obtain n where n: "unat (base_payload_target_bps (pc_config c)) = n" by simp
  note small = assms(2) [unfolded n]
  from assms(1) obtain r where r: "lm_pow lm (lit (90 / 100)) (d_of_nat (pc_payload_step c)) = Fin r" "0 \<le> r" "r \<le> 1"
    by (auto simp: pow_sound_def)
  let ?x = "of_nat n * r"
  have x: "0 \<le> ?x" "?x \<le> of_nat n" using r(2,3) by (simp_all add: mult_left_le)
  then have v: "0 \<le> rounded ?x" "rounded ?x \<le> of_nat n"
    using rounded_nonneg rounded_mono [of ?x "of_nat n"] rounded_of_nat [OF small] by simp_all
  have "(of_nat n :: rat) < 2 ^ 53" using small by (rule of_nat_lt_power)
  also have "(2 :: rat) ^ 53 \<le> 2 ^ 1024" by (rule power_increasing) simp_all
  finally have "d_mul (d_of_u64 (base_payload_target_bps (pc_config c))) (Fin r) = Fin (rounded ?x)"
    using v d_of_nat_exact [OF small] by (simp add: d_of_u64_def n round_double_def Let_def)
  moreover obtain t where "round_ties_to_even (Fin (rounded ?x)) = Inr t" "unat t \<le> n"
    using round_ties_to_even_bounds [OF v small] by blast
  ultimately show ?thesis
    using r(1) assms(3) by (auto simp: current_payload_target_bps_def Let_def word_le_nat_alt max_def n)
qed

section \<open>An accepted tick\<close>

definition payload_computable :: "libm \<Rightarrow> controller_config \<Rightarrow> bool" where
  "payload_computable lm config \<longleftrightarrow>
     (\<forall>c :: protected_region_controller. pc_config c = config \<longrightarrow> isl (current_payload_target_bps lm c) = False)"

lemma payload_minimum_computable:
  "payload_computable lm (pc_config c) \<Longrightarrow> \<exists>b. payload_at_minimum lm c = Inr b" for c :: protected_region_controller
  by (cases "current_payload_target_bps lm c") (auto simp: payload_computable_def payload_at_minimum_def)

lemma at_unusable_computable:
  "payload_computable lm (pc_config c) \<Longrightarrow> \<exists>b. at_unusable_levels lm c = Inr b" for c :: protected_region_controller
  using payload_minimum_computable [of lm c] by (auto simp: at_unusable_levels_def and_also_def)

lemma judge_total:
  "payload_computable lm (pc_config c) \<Longrightarrow> \<exists>v' c'. judge_unusable lm c now h v = (Inr v', c')"
  using at_unusable_computable [of lm c] by (auto simp: judge_unusable_def and_also_def Let_def)

lemma change_level_total:
  assumes "levels_ok lm c" "payload_computable lm (pc_config c)"
  shows "\<exists>v' c'. change_level lm c now co v = (Inr v', c')"
proof -
  from assms(1) have L: "on_ladder lm c" "spaced_history c" by (simp_all add: levels_ok_def)
  have "\<exists>a c'. degrade lm c now = (Inr a, c')"
    by (rule degrade_cases [OF L, of now]) (use payload_minimum_computable [OF assms(2)] in auto)
  moreover have "\<exists>a c'. restore c now = (Inr a, c')" by (rule restore_cases [OF L, of now]) auto
  ultimately show ?thesis by (auto simp: change_level_def)
qed

lemma decide_total:
  assumes "levels_ok lm c" "times_by now c" "payload_computable lm (pc_config c)"
  shows "\<exists>v c'. decide lm c now p h co = (Inr v, c')"
proof -
  let ?a = "advance_state (count_ticks c now p co) now h"
  have config: "pc_config x = pc_config c" if "level_state x = level_state c" for x
    using that by (simp add: level_state_def)
  show ?thesis
  proof (cases rule: decide_cases [of lm c now p h co])
    case (judged e c')
    have "payload_computable lm (pc_config (snd ?a))" using assms(3) config [of "snd ?a"] by (simp add: level_frames)
    from judge_total [OF this, of now h "fst ?a"] judged(3) show ?thesis by auto
  next
    case (changed v c')
    with judged_ok(1) [OF assms(1,2) changed(3)] change_level_total [of lm c' now co v] assms(3) config [OF changed(2)]
    show ?thesis by simp
  qed
qed

lemma levels_computable:
  assumes "levels_ok lm c" "payload_computable lm (pc_config c)"
  shows "\<exists>levels. current_levels lm c = Inr levels \<and> current_payload_target_bps lm c = Inr (payload_target_bps levels)"
proof -
  obtain t where t: "current_payload_target_bps lm c = Inr t"
    using assms(2) by (cases "current_payload_target_bps lm c") (auto simp: payload_computable_def)
  from assms(1) have "pc_profile_index c < 3" "pc_automatic_emphasis_index c < 5" "pc_protected_threshold_index c < 4"
    by (auto simp: levels_ok_def on_ladder_def)
  with t show ?thesis by (simp add: current_levels_def array_at_def)
qed

lemma predicates_total:
  assumes "levels_ok lm c" "payload_computable lm (pc_config c)"
  shows "\<exists>p h co. tick_predicates lm c i = Inr (p, h, co)"
proof -
  from levels_computable [OF assms] obtain t where "current_payload_target_bps lm c = Inr t" by blast
  moreover from assms(1) have "pc_profile_index c < 3" by (auto simp: levels_ok_def on_ladder_def)
  ultimately show ?thesis
    by (auto simp: tick_predicates_def pressure_predicate_def recovery_compliant_def array_at_def Let_def)
qed

lemma tick_config: "pc_config (snd (tick lm c i)) = pc_config c"
  by (cases rule: tick_cases [of c i lm]) auto

interpretation configured: safe_machine "controller_step lm" "\<lambda>c. pc_config c = config"
proof
  fix s :: protected_region_controller and e assume "pc_config s = config"
  moreover have "pc_config (snd (push_feedback s f)) = pc_config s" for f
    by (cases rule: push_feedback_cases [of s f]) auto
  ultimately show "pc_config (controller_step lm s e) = config" by (cases e) (simp_all add: tick_config)
qed

lemma make_config: "make_controller config = Inr c \<Longrightarrow> pc_config c = config \<and> base_payload_target_bps config \<ge> kMinimumPayloadBps"
  by (auto simp: make_controller_def not_less split: option.splits if_splits)

lemma finish_outcome:
  assumes "current_levels lm c' = Inr levels"
  shows "case fst (finish lm c i consumed reset v c') of
      Inr d \<Rightarrow> dc_consumed_feedback d = consumed \<and> dc_levels d = levels
    | Inl e \<Rightarrow> \<exists>d. controller_trace_json i d = Inl e \<and> dc_consumed_feedback d = consumed"
proof -
  let ?d = "make_decision c' i (pc_state c) consumed reset
    (estimator_snapshot (pc_measurements c) (in_sender_arrival_milliseconds i))
    (effective_wire_cap (pc_measurements c) i) v levels"
  have d: "dc_consumed_feedback ?d = consumed" "dc_levels ?d = levels" by (simp_all add: make_decision_def Let_def)
  show ?thesis
  proof (cases "controller_trace_json i ?d")
    case (Inl e)
    with assms d(1) show ?thesis by (auto simp: finish_def finish_tick_def with_value_def Let_def)
  next
    case (Inr json)
    with assms d show ?thesis by (simp add: finish_def finish_tick_def with_value_def Let_def)
  qed
qed

text \<open>C32 (error). After any sequence of calls, a tick whose input is accepted consumes exactly the
  pending feedback that is due, in order, and leaves the rest. With a sound pow and a base target
  below 2^53 bit/s nothing else of it throws: it returns a decision, whose payload target lies
  between the profile minimum and the base, or fails in writing that decision as a trace.\<close>

theorem accepted_tick_outcome:
  assumes "make_controller config = Inr c0" "c = controller_run lm c0 calls" "tick_refusal c i = None"
    "pow_sound lm" "unat (base_payload_target_bps config) < 2 ^ 53"
  shows "pc_pending_feedback (snd (tick lm c i)) = filter (\<lambda>f. \<not> due i f) (pc_pending_feedback c) \<and>
    (case fst (tick lm c i) of
       Inr d \<Rightarrow> dc_consumed_feedback d = filter (due i) (pc_pending_feedback c) \<and>
         kMinimumPayloadBps \<le> payload_target_bps (dc_levels d) \<and>
         payload_target_bps (dc_levels d) \<le> base_payload_target_bps config
     | Inl e \<Rightarrow> \<exists>d. controller_trace_json i d = Inl e \<and>
         dc_consumed_feedback d = filter (due i) (pc_pending_feedback c))"
proof -
  let ?rest = "filter (\<lambda>f. \<not> due i f) (pc_pending_feedback c)" and ?now = "in_sender_arrival_milliseconds i"
  have c: "levels_ok lm c" "clock_ok c"
    using reachable_ok [OF assms(1), of lm calls] assms(2) by (simp_all add: controller_ok_def)
  have intake: "intake_ok c" unfolding assms(2) by (rule intake.run_inv [OF make_intake [OF assms(1)]])
  have config: "pc_config c = config" "base_payload_target_bps config \<ge> kMinimumPayloadBps"
    unfolding assms(2) using configured.run_inv [of c0 config lm calls] make_config [OF assms(1)] by auto
  have target: "\<exists>t. current_payload_target_bps lm x = Inr t \<and> kMinimumPayloadBps \<le> t \<and> t \<le> base_payload_target_bps config"
    if "pc_config x = config" for x
    using payload_target_bounds [OF assms(4), of x] that assms(5) config(2) by simp
  then have computable: "payload_computable lm config" by (fastforce simp: payload_computable_def)
  from measure_total [OF intake assms(3), of lm] obtain reset ms where
    m: "measure lm c i = (Inr (filter (due i) (pc_pending_feedback c), reset), (?rest, ms))" by blast
  let ?t = "touched c i ?rest ms"
  note t = touched_levels_ok [OF c(1), of i ?rest ms] touched_times [OF assms(3) c(2), of ?rest ms]
  have comp: "payload_computable lm (pc_config ?t)" using computable config(1) by simp
  from predicates_total [OF t(1) comp, of i] obtain p h co where q: "tick_predicates lm ?t i = Inr (p, h, co)" by blast
  from decide_total [OF t comp, of p h co] obtain v d where d: "decide lm ?t ?now p h co = (Inr v, d)" by blast
  have d_ok: "levels_ok lm d" "pc_config d = config"
    using decide_levels_ok [OF t, of p h co] decide_intake(7) [of lm ?t ?now p h co] d config(1) by simp_all
  from levels_computable [OF d_ok(1)] computable d_ok(2) obtain levels where
    l: "current_levels lm d = Inr levels" "current_payload_target_bps lm d = Inr (payload_target_bps levels)" by auto
  have run: "tick lm c i = finish lm ?t i (filter (due i) (pc_pending_feedback c)) reset v d"
    by (cases rule: tick_cases [of c i lm]) (use assms(3) m q d in auto)
  have "pc_pending_feedback d = ?rest" using decide_intake(3) [of lm ?t ?now p h co] d by simp
  moreover have "kMinimumPayloadBps \<le> payload_target_bps levels \<and> payload_target_bps levels \<le> base_payload_target_bps config"
    using target [OF d_ok(2)] l(2) by simp
  ultimately show ?thesis
    unfolding run using finish_outcome [OF l(1), where c = ?t and i = i and consumed = "filter (due i) (pc_pending_feedback c)" and
        reset = reset and v = v]
    by (auto split: sum.splits)
qed

lemma sample_pow: "pow_sound sample_libm"
  by (simp add: pow_sound_def sample_libm_def)

theorem accepted_tick_outcome_witness:
  "make_controller sample_config = Inr sample_controller \<and> tick_refusal sample_controller (sample_tick 1 10) = None \<and>
   pow_sound sample_libm \<and> unat (base_payload_target_bps sample_config) < 2 ^ 53 \<and>
   pc_pending_feedback (snd (tick sample_libm sample_controller (sample_tick 1 10))) = []"
  using make_sample_controller sample_accepted sample_pow
    accepted_tick_outcome [OF make_sample_controller, of sample_controller sample_libm "[]" "sample_tick 1 10"]
  by (simp add: sample_config_def sample_fields)

end
