(* ===== verification/Sha256.thy ===== *)
theory Sha256
  imports Prelude
begin

text \<open>
  The SHA-256 hasher of the sender (\<^verbatim>\<open>src/core/sha256.cpp\<close>): the compression function, the buffered
  \<open>update\<close>, \<open>finalize\<close> and the hexadecimal text. The reference is the algorithm of FIPS 180-4 on the
  whole message.
\<close>

section \<open>The hasher\<close>

definition kRoundConstants :: "u32 list" where
  "kRoundConstants = concat
     [[0x428A2F98, 0x71374491, 0xB5C0FBCF, 0xE9B5DBA5, 0x3956C25B, 0x59F111F1, 0x923F82A4],
      [0xAB1C5ED5, 0xD807AA98, 0x12835B01, 0x243185BE, 0x550C7DC3, 0x72BE5D74, 0x80DEB1FE],
      [0x9BDC06A7, 0xC19BF174, 0xE49B69C1, 0xEFBE4786, 0x0FC19DC6, 0x240CA1CC, 0x2DE92C6F],
      [0x4A7484AA, 0x5CB0A9DC, 0x76F988DA, 0x983E5152, 0xA831C66D, 0xB00327C8, 0xBF597FC7],
      [0xC6E00BF3, 0xD5A79147, 0x06CA6351, 0x14292967, 0x27B70A85, 0x2E1B2138, 0x4D2C6DFC],
      [0x53380D13, 0x650A7354, 0x766A0ABB, 0x81C2C92E, 0x92722C85, 0xA2BFE8A1, 0xA81A664B],
      [0xC24B8B70, 0xC76C51A3, 0xD192E819, 0xD6990624, 0xF40E3585, 0x106AA070, 0x19A4C116],
      [0x1E376C08, 0x2748774C, 0x34B0BCB5, 0x391C0CB3, 0x4ED8AA4A, 0x5B9CCA4F, 0x682E6FF3],
      [0x748F82EE, 0x78A5636F, 0x84C87814, 0x8CC70208, 0x90BEFFFA, 0xA4506CEB, 0xBEF9A3F7],
      [0xC67178F2]]"

definition rotate_right :: "u32 \<Rightarrow> nat \<Rightarrow> u32" where
  "rotate_right v count = drop_bit count v OR push_bit (32 - count) v"

record sha256 =
  sh_state :: "u32 list"
  sh_buffer :: "u8 list"
  sh_buffered :: nat
  sh_total_bytes :: u64
  sh_finalized :: bool

definition new_sha256 :: sha256 where
  "new_sha256 =
     \<lparr>sh_state = [0x6A09E667, 0xBB67AE85, 0x3C6EF372, 0xA54FF53A,
                  0x510E527F, 0x9B05688C, 0x1F83D9AB, 0x5BE0CD19],
      sh_buffer = replicate 64 0, sh_buffered = 0, sh_total_bytes = 0, sh_finalized = False\<rparr>"

text \<open>The loops of \<open>transform\<close>: the words of the block, the schedule, the rounds.\<close>

definition load_word :: "u8 list \<Rightarrow> nat \<Rightarrow> u32" where
  "load_word block index =
     (let offset = index * 4 in
      push_bit 24 (ucast (block ! offset)) OR push_bit 16 (ucast (block ! (offset + 1))) OR
      push_bit 8 (ucast (block ! (offset + 2))) OR ucast (block ! (offset + 3)))"

definition load_words :: "u8 list \<Rightarrow> u32 list" where
  "load_words block = foldl (\<lambda>words index. words[index := load_word block index]) (replicate 64 0) [0..<16]"

definition extend_word :: "u32 list \<Rightarrow> nat \<Rightarrow> u32 list" where
  "extend_word words index =
     (let s0 = rotate_right (words ! (index - 15)) 7 XOR rotate_right (words ! (index - 15)) 18 XOR
               drop_bit 3 (words ! (index - 15));
          s1 = rotate_right (words ! (index - 2)) 17 XOR rotate_right (words ! (index - 2)) 19 XOR
               drop_bit 10 (words ! (index - 2))
      in words[index := words ! (index - 16) + s0 + words ! (index - 7) + s1])"

definition extend_words :: "u32 list \<Rightarrow> u32 list" where
  "extend_words words = foldl extend_word words [16..<64]"

type_synonym working = "u32 \<times> u32 \<times> u32 \<times> u32 \<times> u32 \<times> u32 \<times> u32 \<times> u32"

definition transform_round :: "u32 list \<Rightarrow> working \<Rightarrow> nat \<Rightarrow> working" where
  "transform_round words v index =
     (case v of (a, b, c, d, e, f, g, h) \<Rightarrow>
        let sum1 = rotate_right e 6 XOR rotate_right e 11 XOR rotate_right e 25;
            choice = (e AND f) XOR (NOT e AND g);
            temporary1 = h + sum1 + choice + kRoundConstants ! index + words ! index;
            sum0 = rotate_right a 2 XOR rotate_right a 13 XOR rotate_right a 22;
            majority = (a AND b) XOR (a AND c) XOR (b AND c);
            temporary2 = sum0 + majority
        in (temporary1 + temporary2, a, b, c, d + temporary1, e, f, g))"

definition transform :: "u32 list \<Rightarrow> u8 list \<Rightarrow> u32 list" where
  "transform state block =
     (let words = extend_words (load_words block) in
      case foldl (transform_round words)
             (state ! 0, state ! 1, state ! 2, state ! 3, state ! 4, state ! 5, state ! 6, state ! 7) [0..<64] of
        (a, b, c, d, e, f, g, h) \<Rightarrow>
          [state ! 0 + a, state ! 1 + b, state ! 2 + c, state ! 3 + d,
           state ! 4 + e, state ! 5 + f, state ! 6 + g, state ! 7 + h])"

text \<open>The \<open>while\<close> loop of \<open>update\<close> over whole blocks, and the bytes it leaves.\<close>

function whole_blocks :: "u32 list \<Rightarrow> u8 list \<Rightarrow> nat \<Rightarrow> u32 list \<times> nat" where
  "whole_blocks state bytes offset =
     (if offset + 64 \<le> length bytes
      then whole_blocks (transform state (take 64 (drop offset bytes))) bytes (offset + 64)
      else (state, offset))"
  by pat_completeness auto
termination
  by (relation "measure (\<lambda>(_, bytes, offset). length bytes - offset)") auto

declare whole_blocks.simps [simp del]

definition fill_partial :: "sha256 \<Rightarrow> u8 list \<Rightarrow> sha256 \<times> nat" where
  "fill_partial s bytes =
     (if sh_buffered s \<noteq> 0 then
        let count = min (64 - sh_buffered s) (length bytes);
            s = s\<lparr>sh_buffer := copy_into (sh_buffer s) (sh_buffered s) (take count bytes),
                  sh_buffered := sh_buffered s + count\<rparr>
        in (if sh_buffered s = 64 then s\<lparr>sh_state := transform (sh_state s) (sh_buffer s), sh_buffered := 0\<rparr> else s,
            count)
      else (s, 0))"

definition sha_update :: "sha256 \<Rightarrow> u8 list \<Rightarrow> (unit, sha256) outcome" where
  "sha_update s bytes =
     (if sh_finalized s then (Inl (Logic_error ''cannot update a finalized SHA-256 state''), s)
      else
        let s = s\<lparr>sh_total_bytes := sh_total_bytes s + word_of_nat (length bytes)\<rparr>;
            (s, offset) = fill_partial s bytes;
            (state, offset) = whole_blocks (sh_state s) bytes offset;
            s = s\<lparr>sh_state := state\<rparr>
        in (Inr (),
            if offset < length bytes
            then s\<lparr>sh_buffered := length bytes - offset, sh_buffer := copy_into (sh_buffer s) 0 (drop offset bytes)\<rparr>
            else s))"

text \<open>\<open>fill (begin + from, begin + to, 0)\<close>.\<close>

definition zero_range :: "u8 list \<Rightarrow> nat \<Rightarrow> nat \<Rightarrow> u8 list" where
  "zero_range buffer first limit = take first buffer @ replicate (limit - first) 0 @ drop (max first limit) buffer"

definition store_length :: "u8 list \<Rightarrow> u64 \<Rightarrow> u8 list" where
  "store_length buffer bit_count =
     foldl (\<lambda>b index. b[63 - index := ucast (drop_bit (index * 8) bit_count)]) buffer [0..<8]"

definition close_block :: "sha256 \<Rightarrow> sha256" where
  "close_block s =
     (let s = s\<lparr>sh_buffer := (sh_buffer s)[sh_buffered s := 0x80], sh_buffered := sh_buffered s + 1\<rparr> in
      if sh_buffered s > 56
      then let buffer = zero_range (sh_buffer s) (sh_buffered s) 64
           in s\<lparr>sh_buffer := buffer, sh_state := transform (sh_state s) buffer, sh_buffered := 0\<rparr>
      else s)"

definition store_digest :: "u32 list \<Rightarrow> u8 list" where
  "store_digest state =
     concat (map (\<lambda>w. [ucast (drop_bit 24 w), ucast (drop_bit 16 w), ucast (drop_bit 8 w), ucast w]) state)"

definition sha_finalize :: "sha256 \<Rightarrow> (u8 list, sha256) outcome" where
  "sha_finalize s =
     (if sh_finalized s then (Inl (Logic_error ''cannot finalize SHA-256 more than once''), s)
      else
        let bit_count = sh_total_bytes s * 8;
            s = close_block (s\<lparr>sh_finalized := True\<rparr>);
            buffer = store_length (zero_range (sh_buffer s) (sh_buffered s) 56) bit_count;
            s = s\<lparr>sh_buffer := buffer, sh_state := transform (sh_state s) buffer\<rparr>
        in (Inr (store_digest (sh_state s)), s))"

definition sha_digest :: "u8 list \<Rightarrow> exn + u8 list" where
  "sha_digest bytes = fst (and_then (sha_update new_sha256 bytes) (\<lambda>_ s. sha_finalize s))"

definition hex_digits :: string where
  "hex_digits = ''0123456789abcdef''"

definition digest_hex :: "u8 list \<Rightarrow> string" where
  "digest_hex digest =
     concat (map (\<lambda>d. [hex_digits ! unat (drop_bit 4 d), hex_digits ! unat (d AND 0x0F)]) digest)"

definition sha256_hex :: "u8 list \<Rightarrow> exn + string" where
  "sha256_hex bytes = map_sum id digest_hex (sha_digest bytes)"

text \<open>\<open>sha256_file_hex\<close>: a file that cannot be opened is \<open>None\<close>; an open one delivers bytes and then
  ends, or fails.\<close>

fun hash_reads :: "sha256 \<Rightarrow> u8 list list \<Rightarrow> (unit, sha256) outcome" where
  "hash_reads s [] = (Inr (), s)"
| "hash_reads s (chunk # rest) =
     and_then (if chunk \<noteq> [] then sha_update s chunk else (Inr (), s)) (\<lambda>_ s. hash_reads s rest)"

function reads :: "u8 list \<Rightarrow> u8 list list" where
  "reads bytes = (if length bytes < 65536 then [bytes] else take 65536 bytes # reads (drop 65536 bytes))"
  by pat_completeness auto
termination
  by (relation "measure length") auto

declare reads.simps [simp del]

definition sha256_file_hex :: "string \<Rightarrow> (u8 list \<times> bool) option \<Rightarrow> exn + string" where
  "sha256_file_hex path file =
     (case file of
        None \<Rightarrow> Inl (Runtime_error (''cannot open file for SHA-256: '' @ path))
      | Some (bytes, ends) \<Rightarrow>
          fst (and_then (hash_reads new_sha256 (reads bytes)) (\<lambda>_ s.
            if \<not> ends then (Inl (Runtime_error (''failed while hashing file: '' @ path)), s)
            else (case sha_finalize s of (r, s) \<Rightarrow> (map_sum id digest_hex r, s)))))"

section \<open>The algorithm of FIPS 180-4\<close>

definition sigma_lower :: "nat \<Rightarrow> nat \<Rightarrow> nat \<Rightarrow> u32 \<Rightarrow> u32" where
  "sigma_lower i j k x = word_rotr i x XOR word_rotr j x XOR drop_bit k x"

definition sigma_upper :: "nat \<Rightarrow> nat \<Rightarrow> nat \<Rightarrow> u32 \<Rightarrow> u32" where
  "sigma_upper i j k x = word_rotr i x XOR word_rotr j x XOR word_rotr k x"

definition big_endian :: "u8 list \<Rightarrow> u32" where
  "big_endian = foldl (\<lambda>acc b. push_bit 8 acc OR ucast b) 0"

text \<open>The message schedule as the recurrence it is.\<close>

fun schedule :: "u8 list \<Rightarrow> nat \<Rightarrow> u32" where
  "schedule block t =
     (if t < 16 then big_endian (take 4 (drop (4 * t) block))
      else sigma_lower 17 19 10 (schedule block (t - 2)) + schedule block (t - 7) +
           sigma_lower 7 18 3 (schedule block (t - 15)) + schedule block (t - 16))"

declare schedule.simps [simp del]

definition compress_round :: "u8 list \<Rightarrow> working \<Rightarrow> nat \<Rightarrow> working" where
  "compress_round block v t =
     (case v of (a, b, c, d, e, f, g, h) \<Rightarrow>
        let t1 = h + sigma_upper 6 11 25 e + ((e AND f) XOR (NOT e AND g)) + kRoundConstants ! t + schedule block t;
            t2 = sigma_upper 2 13 22 a + ((a AND b) XOR (a AND c) XOR (b AND c))
        in (t1 + t2, a, b, c, d + t1, e, f, g))"

definition compress :: "u32 list \<Rightarrow> u8 list \<Rightarrow> u32 list" where
  "compress H block =
     (case foldl (compress_round block) (H ! 0, H ! 1, H ! 2, H ! 3, H ! 4, H ! 5, H ! 6, H ! 7) [0..<64] of
        (a, b, c, d, e, f, g, h) \<Rightarrow> map2 (+) (map (\<lambda>i. H ! i) [0..<8]) [a, b, c, d, e, f, g, h])"

text \<open>The message padded to whole blocks, with its length in bits at the end.\<close>

definition length_field :: "nat \<Rightarrow> u8 list" where
  "length_field n = map (\<lambda>i. word_of_nat (n div 256 ^ (7 - i))) [0..<8]"

definition padded :: "u8 list \<Rightarrow> u8 list" where
  "padded m = m @ [0x80] @ replicate ((119 - length m mod 64) mod 64) 0 @ length_field (8 * length m)"

function blocks :: "u8 list \<Rightarrow> u8 list list" where
  "blocks m = (if length m < 64 then [] else take 64 m # blocks (drop 64 m))"
  by pat_completeness auto
termination
  by (relation "measure length") auto

declare blocks.simps [simp del]

definition initial_hash :: "u32 list" where
  "initial_hash =
     [0x6A09E667, 0xBB67AE85, 0x3C6EF372, 0xA54FF53A, 0x510E527F, 0x9B05688C, 0x1F83D9AB, 0x5BE0CD19]"

definition sha256_reference :: "u8 list \<Rightarrow> u8 list" where
  "sha256_reference m =
     concat (map (\<lambda>w. map (\<lambda>i. word_of_nat (unat w div 256 ^ (3 - i))) [0..<4])
       (foldl compress initial_hash (blocks (padded m))))"

section \<open>The compression function\<close>

lemma rotate_right_rotr: "0 < n \<Longrightarrow> n < 32 \<Longrightarrow> rotate_right v n = word_rotr n v"
proof (rule bit_word_eqI)
  fix k assume n: "0 < n" "n < 32" and k: "k < LENGTH(32)"
  show "bit (rotate_right v n) k = bit (word_rotr n v) k"
  proof (cases "k + n < 32")
    case True
    then have "\<not> 32 - n \<le> k" by simp
    with True show ?thesis using n k
      by (simp add: rotate_right_def bit_or_iff bit_drop_bit_eq bit_push_bit_iff bit_word_rotr_iff add.commute)
  next
    case False
    then have m: "(n + k) mod 32 = k - (32 - n)" using n k by (simp add: mod_if) (simp add: add.commute)
    have "32 - n \<le> k" using False by simp
    moreover have "\<not> bit v (k + n)" using False bit_imp_le_length [of v "k + n"] by auto
    ultimately show ?thesis using False n k m
      by (simp add: rotate_right_def bit_or_iff bit_drop_bit_eq bit_push_bit_iff bit_word_rotr_iff add.commute)
  qed
qed

lemma load_word_big_endian:
  assumes "4 * i + 4 \<le> length block"
  shows "load_word block i = big_endian (take 4 (drop (4 * i) block))"
proof -
  have "take 4 (drop (4 * i) block) = [block ! (4 * i), block ! (4 * i + 1), block ! (4 * i + 2), block ! (4 * i + 3)]"
    using assms by (intro nth_equalityI) (auto simp: less_Suc_eq numeral_nat)
  then show ?thesis
    by (simp add: load_word_def big_endian_def Let_def push_bit_or mult.commute or.assoc)
qed

text \<open>An array filled by a loop from \<open>a\<close> to \<open>b\<close>.\<close>

lemma foldl_fill:
  assumes "length xs = n" "a \<le> b" "b \<le> n"
    and step: "\<And>ys i. length ys = n \<Longrightarrow> a \<le> i \<Longrightarrow> i < b \<Longrightarrow> (\<And>j. j < i \<Longrightarrow> ys ! j = w j) \<Longrightarrow> f ys i = ys[i := w i]"
    and start: "\<And>j. j < a \<Longrightarrow> xs ! j = w j"
  shows "length (foldl f xs [a..<b]) = n \<and> (\<forall>j < b. foldl f xs [a..<b] ! j = w j)"
  using assms(2,3) step
proof (induction b rule: dec_induct)
  case base
  then show ?case using assms(1) start by simp
next
  case (step b)
  let ?ys = "foldl f xs [a..<b]"
  have ys: "length ?ys = n" "\<And>j. j < b \<Longrightarrow> ?ys ! j = w j" using step.IH step.prems by auto
  have "f ?ys b = ?ys[b := w b]" using step.prems(2) [OF ys(1) step.hyps(1) _ ys(2)] by simp
  with ys step.hyps step.prems(1) show ?case by (auto simp: nth_list_update less_Suc_eq)
qed

lemma words_schedule:
  assumes "length block = 64"
  shows "j < 64 \<Longrightarrow> extend_words (load_words block) ! j = schedule block j"
proof -
  have 1: "length (load_words block) = 64 \<and> (\<forall>j < 16. load_words block ! j = schedule block j)"
    unfolding load_words_def
    by (rule foldl_fill) (use assms in \<open>auto simp: load_word_big_endian schedule.simps\<close>)
  have "length (extend_words (load_words block)) = 64 \<and> (\<forall>j < 64. extend_words (load_words block) ! j = schedule block j)"
    unfolding extend_words_def
  proof (rule foldl_fill)
    fix ys i assume "length ys = 64" "16 \<le> i" "i < 64" and w: "\<And>j. j < i \<Longrightarrow> ys ! j = schedule block j"
    then show "extend_word ys i = ys[i := schedule block i]"
      by (subst schedule.simps) (simp add: extend_word_def Let_def w rotate_right_rotr sigma_lower_def ac_simps)
  qed (use 1 in auto)
  then show "j < 64 \<Longrightarrow> extend_words (load_words block) ! j = schedule block j" by blast
qed

lemma transform_compress:
  assumes "length block = 64"
  shows "transform H block = compress H block"
proof -
  let ?v = "(H ! 0, H ! 1, H ! 2, H ! 3, H ! 4, H ! 5, H ! 6, H ! 7)"
  have rounds: "foldl (transform_round (extend_words (load_words block))) ?v [0..<64] = foldl (compress_round block) ?v [0..<64]"
    by (rule foldl_cong)
      (auto simp: transform_round_def compress_round_def sigma_upper_def rotate_right_rotr words_schedule [OF assms])
  have eight: "[0..<8] = [0, 1, 2, 3, 4, 5, 6, 7 :: nat]" by (simp add: upt_rec)
  obtain a b c d e f g h where r: "foldl (compress_round block) ?v [0..<64] = (a, b, c, d, e, f, g, h)"
    by (metis prod.exhaust)
  show ?thesis
    unfolding transform_def compress_def Let_def rounds r eight prod.case by simp
qed

section \<open>Streaming\<close>

lemma blocks_Nil [simp]: "length m < 64 \<Longrightarrow> blocks m = []"
  by (simp add: blocks.simps)

lemma blocks_Cons: "length b = 64 \<Longrightarrow> blocks (b @ m) = b # blocks m"
  by (subst blocks.simps) simp

lemma blocks_append: "64 dvd length a \<Longrightarrow> blocks (a @ b) = blocks a @ blocks b"
proof (induction a rule: blocks.induct)
  case (1 a)
  show ?case
  proof (cases "length a < 64")
    case True
    with 1(2) have "a = []" by (auto dest: dvd_imp_le)
    then show ?thesis by simp
  next
    case False
    with 1(2) have "64 dvd length (drop 64 a)" by (simp add: dvd_minus_self)
    with 1(1) False have "blocks (drop 64 a @ b) = blocks (drop 64 a) @ blocks b" by simp
    moreover have e: "a @ b = take 64 a @ (drop 64 a @ b)" by (simp flip: append_assoc)
    ultimately show ?thesis unfolding e
      using False blocks_Cons [of "take 64 a" "drop 64 a @ b"] blocks_Cons [of "take 64 a" "drop 64 a"] by simp
  qed
qed

lemma blocks_length: "b \<in> set (blocks m) \<Longrightarrow> length b = 64"
proof (induction m rule: blocks.induct)
  case (1 m)
  then show ?case by (subst (asm) (2) blocks.simps) (auto split: if_splits)
qed

text \<open>What a live hasher holds of the bytes it was given: whole blocks in its state, the rest in
  its buffer.\<close>

definition holds_blocks :: "u8 list \<Rightarrow> sha256 \<Rightarrow> bool" where
  "holds_blocks m s \<longleftrightarrow>
     \<not> sh_finalized s \<and> length (sh_buffer s) = 64 \<and> sh_buffered s < 64 \<and>
     (\<exists>full. m = full @ take (sh_buffered s) (sh_buffer s) \<and> 64 dvd length full \<and>
        sh_state s = foldl transform initial_hash (blocks full))"

definition hashing :: "u8 list \<Rightarrow> sha256 \<Rightarrow> bool" where
  "hashing m s \<longleftrightarrow> holds_blocks m s \<and> sh_total_bytes s = word_of_nat (length m)"

lemma hashingI:
  assumes "\<not> sh_finalized s" "length (sh_buffer s) = 64" "sh_buffered s < 64"
    "m = full @ take (sh_buffered s) (sh_buffer s)" "64 dvd length full"
    "sh_state s = foldl transform initial_hash (blocks full)" "sh_total_bytes s = word_of_nat (length m)"
  shows "hashing m s"
  using assms unfolding hashing_def holds_blocks_def by blast

lemma new_hashing: "hashing [] new_sha256"
  by (simp add: hashing_def holds_blocks_def new_sha256_def initial_hash_def)

lemma whole_blocks_eq:
  "offset \<le> length bytes \<Longrightarrow>
   \<exists>n. whole_blocks state bytes offset = (foldl transform state (blocks (drop offset bytes)), offset + 64 * n) \<and>
     offset + 64 * n \<le> length bytes \<and> length bytes < offset + 64 * n + 64"
proof (induction state bytes offset rule: whole_blocks.induct)
  case (1 state bytes offset)
  show ?case
  proof (cases "offset + 64 \<le> length bytes")
    case True
    from 1(1) [OF True] True obtain n where
      "whole_blocks (transform state (take 64 (drop offset bytes))) bytes (offset + 64) =
         (foldl transform (transform state (take 64 (drop offset bytes))) (blocks (drop (offset + 64) bytes)), offset + 64 + 64 * n)"
      "offset + 64 + 64 * n \<le> length bytes" "length bytes < offset + 64 + 64 * n + 64" by auto
    moreover have "blocks (drop offset bytes) = take 64 (drop offset bytes) # blocks (drop (offset + 64) bytes)"
      using True by (subst blocks.simps) (simp add: add.commute)
    ultimately show ?thesis
      using True by (subst whole_blocks.simps) (auto intro!: exI [of _ "Suc n"])
  next
    case False
    with 1(2) show ?thesis by (subst whole_blocks.simps) (auto intro!: exI [of _ 0])
  qed
qed

text \<open>Filling the partial block: either everything fits in, or a block is completed.\<close>

lemma fill_partial_holds:
  assumes "holds_blocks m s"
  shows "\<exists>s' k. fill_partial s bytes = (s', k) \<and> k \<le> length bytes \<and> holds_blocks (m @ take k bytes) s' \<and>
    sh_total_bytes s' = sh_total_bytes s \<and> (k = length bytes \<or> sh_buffered s' = 0)"
proof (cases "sh_buffered s = 0")
  case True
  with assms show ?thesis by (simp add: fill_partial_def)
next
  case False
  from assms obtain full where s: "\<not> sh_finalized s" "length (sh_buffer s) = 64" "sh_buffered s < 64"
    and m: "m = full @ take (sh_buffered s) (sh_buffer s)" "64 dvd length full"
      "sh_state s = foldl transform initial_hash (blocks full)"
    by (auto simp: holds_blocks_def)
  define k where "k = min (64 - sh_buffered s) (length bytes)"
  let ?b = "copy_into (sh_buffer s) (sh_buffered s) (take k bytes)"
  have k: "k \<le> length bytes" "sh_buffered s + k \<le> 64" using s(3) by (auto simp: k_def)
  have b: "take (sh_buffered s + k) ?b = take (sh_buffered s) (sh_buffer s) @ take k bytes" "length ?b = 64"
    using copy_into_take [of "sh_buffered s" "take k bytes" "sh_buffer s"]
      copy_into_length [of "sh_buffered s" "take k bytes" "sh_buffer s"] k s(2) by (simp_all add: min_absorb2)
  show ?thesis
  proof (cases "sh_buffered s + k = 64")
    case True
    with b have whole: "?b = take (sh_buffered s) (sh_buffer s) @ take k bytes" by simp
    have "blocks (full @ ?b) = blocks full @ [?b]"
      using blocks_append [OF m(2), of ?b] blocks_Cons [of ?b "[]"] b(2) by simp
    then have "holds_blocks (m @ take k bytes)
        (s\<lparr>sh_buffer := ?b, sh_state := transform (sh_state s) ?b, sh_buffered := 0\<rparr>)"
      unfolding holds_blocks_def using s(1) b(2) m whole
      by (auto intro!: exI [of _ "full @ ?b"])
    with True False k show ?thesis by (simp add: fill_partial_def Let_def k_def [symmetric])
  next
    case False2: False
    then have "k = length bytes" "sh_buffered s + k < 64" using k by (auto simp: k_def min_def split: if_splits)
    with b have "holds_blocks (m @ take k bytes) (s\<lparr>sh_buffer := ?b, sh_buffered := sh_buffered s + k\<rparr>)"
      unfolding holds_blocks_def using s(1) m by (auto intro!: exI [of _ full])
    with False False2 k \<open>k = length bytes\<close> show ?thesis by (simp add: fill_partial_def Let_def k_def [symmetric])
  qed
qed

lemma update_hashing:
  assumes "hashing m s"
  shows "\<exists>s'. sha_update s bytes = (Inr (), s') \<and> hashing (m @ bytes) s'"
proof -
  let ?s = "s\<lparr>sh_total_bytes := sh_total_bytes s + word_of_nat (length bytes)\<rparr>"
  from assms have "holds_blocks m ?s" by (simp add: hashing_def holds_blocks_def)
  from fill_partial_holds [OF this, of bytes] obtain s1 k where
    1: "fill_partial ?s bytes = (s1, k)" "k \<le> length bytes" "holds_blocks (m @ take k bytes) s1"
      "sh_total_bytes s1 = sh_total_bytes s + word_of_nat (length bytes)" "k = length bytes \<or> sh_buffered s1 = 0"
    by auto
  from 1(3) obtain full where s1: "\<not> sh_finalized s1" "length (sh_buffer s1) = 64" "sh_buffered s1 < 64"
    and f: "m @ take k bytes = full @ take (sh_buffered s1) (sh_buffer s1)" "64 dvd length full"
      "sh_state s1 = foldl transform initial_hash (blocks full)" by (auto simp: holds_blocks_def)
  from whole_blocks_eq [OF 1(2), of "sh_state s1"] obtain n where
    2: "whole_blocks (sh_state s1) bytes k = (foldl transform (sh_state s1) (blocks (drop k bytes)), k + 64 * n)"
      "k + 64 * n \<le> length bytes" "length bytes < k + 64 * n + 64" by blast
  have run: "sha_update s bytes = (Inr (),
      if k + 64 * n < length bytes
      then s1\<lparr>sh_state := foldl transform (sh_state s1) (blocks (drop k bytes)),
              sh_buffered := length bytes - (k + 64 * n), sh_buffer := copy_into (sh_buffer s1) 0 (drop (k + 64 * n) bytes)\<rparr>
      else s1\<lparr>sh_state := foldl transform (sh_state s1) (blocks (drop k bytes))\<rparr>)"
    using assms 1(1) 2(1) by (simp add: sha_update_def hashing_def holds_blocks_def)
  have total: "sh_total_bytes s1 = word_of_nat (length (m @ bytes))"
    using 1(4) assms by (simp add: hashing_def)
  show ?thesis
  proof (cases "k = length bytes")
    case True
    with 2 have "n = 0" by simp
    with True have run': "sha_update s bytes = (Inr (), s1\<lparr>sh_state := sh_state s1\<rparr>)" using run by simp
    have "hashing (m @ bytes) (s1\<lparr>sh_state := sh_state s1\<rparr>)"
      by (rule hashingI [of _ _ full]) (use True s1 f total in \<open>simp_all del: length_append\<close>)
    with run' show ?thesis by blast
  next
    case False
    with 1(5) have z: "sh_buffered s1 = 0" by simp
    define whole where "whole = take (64 * n) (drop k bytes)"
    define rest where "rest = drop (k + 64 * n) bytes"
    have d: "drop k bytes = whole @ rest"
      using append_take_drop_id [of "64 * n" "drop k bytes"] by (simp add: whole_def rest_def add.commute)
    have w: "64 dvd length whole" "length rest = length bytes - (k + 64 * n)" using 2(2) by (auto simp: whole_def rest_def)
    then have "blocks (drop k bytes) = blocks whole" unfolding d using 2(3) blocks_append [of whole rest] by simp
    then have "blocks (full @ whole) = blocks full @ blocks (drop k bytes)" using blocks_append [OF f(2), of whole] by simp
    then have st: "foldl transform (sh_state s1) (blocks (drop k bytes)) = foldl transform initial_hash (blocks (full @ whole))"
      using f(3) by simp
    have "m @ bytes = (m @ take k bytes) @ drop k bytes" by simp
    then have whole_eq: "m @ bytes = (full @ whole) @ rest" unfolding f(1) d z by (simp only: take0 append_Nil2 append_assoc)
    have dvd: "64 dvd length (full @ whole)" using f(2) w(1) by simp
    let ?b = "copy_into (sh_buffer s1) 0 rest"
    have b: "take (length bytes - (k + 64 * n)) ?b = rest" "length ?b = 64"
      using copy_into_take [of 0 rest "sh_buffer s1"] copy_into_length [of 0 rest "sh_buffer s1"] s1(2) 2(3) w(2) by simp_all
    let ?state = "foldl transform (sh_state s1) (blocks (drop k bytes))"
    show ?thesis
    proof (cases "k + 64 * n < length bytes")
      case True
      have "hashing (m @ bytes) (s1\<lparr>sh_state := ?state, sh_buffered := length bytes - (k + 64 * n), sh_buffer := ?b\<rparr>)"
        by (rule hashingI [of _ _ "full @ whole"])
          (use s1(1) b 2(3) st total whole_eq dvd in \<open>simp_all del: length_append append_assoc\<close>)
      with True run show ?thesis by (auto simp: rest_def)
    next
      case False2: False
      then have "rest = []" by (simp add: rest_def)
      then have "hashing (m @ bytes) (s1\<lparr>sh_state := ?state\<rparr>)"
        by (intro hashingI [of _ _ "full @ whole"])
          (use s1 z st total whole_eq dvd in \<open>simp_all del: length_append append_assoc\<close>)
      with False2 run show ?thesis by auto
    qed
  qed
qed

section \<open>Finalization\<close>

lemma unat_drop_bit: "unat (drop_bit k w) = unat w div 2 ^ k" for w :: "'a :: len word"
proof -
  have "unat w < 2 ^ LENGTH('a)" by (rule unsigned_less)
  then show ?thesis by (simp add: unsigned_drop_bit_eq take_bit_nat_eq_self flip: drop_bit_eq_div)
qed

lemma ucast_drop_bit: "(ucast (drop_bit (8 * k) w) :: u8) = word_of_nat (unat w div 256 ^ k)"
proof -
  have "(ucast (drop_bit (8 * k) w) :: u8) = word_of_nat (unat (drop_bit (8 * k) w))" by (simp add: unsigned_ucast_eq)
  also have "unat (drop_bit (8 * k) w) = unat w div 256 ^ k" by (simp add: unat_drop_bit power_mult)
  finally show ?thesis .
qed

lemma store_length_eq:
  assumes "length xs = 56" "length ys = 8" "n < 2 ^ 64"
  shows "store_length (xs @ ys) (word_of_nat n) = xs @ length_field n"
proof -
  let ?v = "\<lambda>k. ucast (drop_bit (8 * k) (word_of_nat n :: u64)) :: u8"
  have eight: "[0..<8] = [0, 1, 2, 3, 4, 5, 6, 7 :: nat]" by (simp add: upt_rec)
  from assms(2) obtain y0 y1 y2 y3 y4 y5 y6 y7 where ys: "ys = [y0, y1, y2, y3, y4, y5, y6, y7]"
    by (auto simp: numeral_eq_Suc length_Suc_conv)
  have "store_length (xs @ ys) (word_of_nat n) = xs @ [?v 7, ?v 6, ?v 5, ?v 4, ?v 3, ?v 2, ?v 1, ?v 0]"
    using assms(1) by (simp add: store_length_def eight ys list_update_append del: push_bit_of_0)
  also have "unat (word_of_nat n :: u64) = n" using assms(3) by (simp add: unat_of_nat)
  then have "[?v 7, ?v 6, ?v 5, ?v 4, ?v 3, ?v 2, ?v 1, ?v 0] = length_field n"
    unfolding ucast_drop_bit by (simp only: length_field_def eight list.map) simp
  finally show ?thesis .
qed

lemma store_digest_eq:
  "store_digest state = concat (map (\<lambda>w. map (\<lambda>i. word_of_nat (unat w div 256 ^ (3 - i))) [0..<4]) state)"
proof -
  have four: "[0..<4] = [0, 1, 2, 3 :: nat]" by (simp add: upt_rec)
  have "[ucast (drop_bit 24 w), ucast (drop_bit 16 w), ucast (drop_bit 8 w), ucast w] =
      map (\<lambda>i. word_of_nat (unat w div 256 ^ (3 - i)) :: u8) [0..<4]" for w :: u32
    using ucast_drop_bit [of 3 w] ucast_drop_bit [of 2 w] ucast_drop_bit [of 1 w] ucast_drop_bit [of 0 w]
    by (simp add: four)
  then show ?thesis by (simp add: store_digest_def)
qed

text \<open>The one or two blocks that padding adds.\<close>

lemma padded_tail:
  assumes "64 dvd length full" "length rest < 64"
  shows "padded (full @ rest) = full @ rest @ [0x80] @ replicate ((119 - length rest) mod 64) 0 @
    length_field (8 * length (full @ rest))"
proof -
  have "length (full @ rest) mod 64 = length rest" using assms by (auto elim!: dvdE)
  then show ?thesis by (simp add: padded_def)
qed

lemma length_field_length [simp]: "length (length_field n) = 8"
  by (simp add: length_field_def)

lemma final_blocks_one:
  assumes "length rest < 56"
  shows "blocks (rest @ [0x80] @ replicate ((119 - length rest) mod 64) 0 @ length_field n) =
    [rest @ [0x80] @ replicate (55 - length rest) 0 @ length_field n]"
proof -
  have "(119 - length rest) mod 64 = 55 - length rest" using assms by (simp add: mod_if)
  with assms show ?thesis
    using blocks_Cons [of "rest @ [0x80] @ replicate (55 - length rest) 0 @ length_field n" "[]"] by simp
qed

lemma final_blocks_two:
  assumes "56 \<le> length rest" "length rest < 64"
  shows "blocks (rest @ [0x80] @ replicate ((119 - length rest) mod 64) 0 @ length_field n) =
    [rest @ [0x80] @ replicate (63 - length rest) 0, replicate 56 0 @ length_field n]"
proof -
  have "(119 - length rest) mod 64 = (63 - length rest) + 56" using assms by (simp add: mod_if)
  then have "rest @ [0x80] @ replicate ((119 - length rest) mod 64) 0 @ length_field n =
      (rest @ [0x80] @ replicate (63 - length rest) 0) @ (replicate 56 0 @ length_field n)"
    by (simp only: replicate_add append_assoc)
  with assms show ?thesis
    using blocks_Cons [of "rest @ [0x80] @ replicate (63 - length rest) 0" "replicate 56 0 @ length_field n"]
      blocks_Cons [of "replicate 56 0 @ length_field n" "[]"] by simp
qed

lemma zero_range_eq:
  "first \<le> limit \<Longrightarrow> limit \<le> length b \<Longrightarrow> zero_range b first limit = take first b @ replicate (limit - first) 0 @ drop limit b"
  by (simp add: zero_range_def max_absorb2)

lemma marked_prefix: "k < length b \<Longrightarrow> take (Suc k) (b[k := x]) = take k b @ [x]"
  by (simp add: take_Suc_conv_app_nth)

lemma reference_transform:
  "sha256_reference m = store_digest (foldl transform initial_hash (blocks (padded m)))"
proof -
  have "foldl transform initial_hash (blocks (padded m)) = foldl compress initial_hash (blocks (padded m))"
    by (rule foldl_cong) (auto simp: blocks_length transform_compress)
  then show ?thesis by (simp add: sha256_reference_def store_digest_eq)
qed

lemma finalize_hashing:
  assumes h: "hashing m s" and small: "length m < 2 ^ 61"
  shows "\<exists>s'. sha_finalize s = (Inr (sha256_reference m), s') \<and> sh_finalized s'"
proof -
  from h obtain full where s: "\<not> sh_finalized s" "length (sh_buffer s) = 64" "sh_buffered s < 64"
    and m: "m = full @ take (sh_buffered s) (sh_buffer s)" "64 dvd length full"
      "sh_state s = foldl transform initial_hash (blocks full)" "sh_total_bytes s = word_of_nat (length m)"
    by (auto simp: hashing_def holds_blocks_def)
  define k where "k = sh_buffered s"
  define rest where "rest = take k (sh_buffer s)"
  have rest: "length rest = k" "k < 64" using s by (simp_all add: rest_def k_def)
  have bits: "sh_total_bytes s * 8 = word_of_nat (8 * length m)" by (simp add: m(4) mult.commute)
  have small8: "8 * length m < 2 ^ 64" using small by simp
  let ?b = "(sh_buffer s)[k := 0x80]"
  have b: "take (Suc k) ?b = rest @ [0x80]" "length ?b = 64"
    using marked_prefix [of k "sh_buffer s"] s rest(2) by (simp_all add: rest_def)
  have pad: "blocks (padded m) = blocks full @ blocks (rest @ [0x80] @ replicate ((119 - length rest) mod 64) 0 @ length_field (8 * length m))"
    using padded_tail [OF m(2), of rest] blocks_append [OF m(2)] rest m(1) by (simp add: rest_def k_def)
  have ref: "sha256_reference m = store_digest (foldl transform initial_hash (blocks (padded m)))"
    by (rule reference_transform)
  show ?thesis
  proof (cases "k < 56")
    case True
    let ?last = "rest @ [0x80] @ replicate (55 - k) 0 @ length_field (8 * length m)"
    have "zero_range ?b (Suc k) 56 = (rest @ [0x80] @ replicate (55 - k) 0) @ drop 56 ?b"
      using zero_range_eq [of "Suc k" 56 ?b] b True by simp
    then have "store_length (zero_range ?b (Suc k) 56) (sh_total_bytes s * 8) = ?last"
      using store_length_eq [of "rest @ [0x80] @ replicate (55 - k) 0" "drop 56 ?b" "8 * length m"] b rest True small8 bits
      by simp
    moreover have "foldl transform initial_hash (blocks (padded m)) = transform (sh_state s) ?last"
      using final_blocks_one [of rest "8 * length m"] True rest pad m(3) by simp
    ultimately show ?thesis
      using True s(1) ref by (simp add: sha_finalize_def close_block_def Let_def k_def [symmetric])
  next
    case False
    let ?first = "rest @ [0x80] @ replicate (63 - k) 0"
    let ?last = "replicate 56 0 @ length_field (8 * length m)"
    have z: "zero_range ?b (Suc k) 64 = ?first"
      using zero_range_eq [of "Suc k" 64 ?b] b rest by simp
    have f: "length ?first = 64" using rest by simp
    have "store_length (zero_range ?first 0 56) (sh_total_bytes s * 8) = ?last"
      using store_length_eq [of "replicate 56 0" "drop 56 ?first" "8 * length m"] zero_range_eq [of 0 56 ?first] f small8 bits
      by simp
    moreover have "foldl transform initial_hash (blocks (padded m)) = transform (transform (sh_state s) ?first) ?last"
      using final_blocks_two [of rest "8 * length m"] False rest pad m(3) by simp
    ultimately show ?thesis
      using False s(1) ref z by (simp add: sha_finalize_def close_block_def Let_def k_def [symmetric])
  qed
qed

section \<open>The hash of a stream\<close>

lemma hash_reads_hashing:
  "hashing m s \<Longrightarrow> \<exists>s'. hash_reads s chunks = (Inr (), s') \<and> hashing (m @ concat chunks) s'"
proof (induction chunks arbitrary: m s)
  case (Cons chunk chunks)
  show ?case
  proof (cases "chunk = []")
    case False
    from update_hashing [OF Cons.prems, of chunk] obtain s1 where
      1: "sha_update s chunk = (Inr (), s1)" "hashing (m @ chunk) s1" by blast
    with Cons.IH [OF 1(2)] False show ?thesis by auto
  qed (use Cons in auto)
qed simp

lemma concat_reads: "concat (reads bytes) = bytes"
proof (induction bytes rule: reads.induct)
  case (1 bytes)
  then show ?case by (subst reads.simps) simp
qed

text \<open>C14 (equivalence). However a message of less than 2^61 bytes is cut into pieces, empty ones
  included, feeding them one after the other and finalizing returns exactly the digest that FIPS
  180-4 defines for the whole message; hashing it in one call and hashing a file with that content
  give the same; and the finalized hasher refuses more bytes and a second digest.\<close>

theorem sha256_streaming_correct:
  assumes "length (concat chunks) < 2 ^ 61"
  shows "(\<exists>s. and_then (hash_reads new_sha256 chunks) (\<lambda>_ s. sha_finalize s) = (Inr (sha256_reference (concat chunks)), s) \<and>
      isl (fst (sha_update s extra)) \<and> isl (fst (sha_finalize s))) \<and>
    sha_digest (concat chunks) = Inr (sha256_reference (concat chunks)) \<and>
    sha256_file_hex path (Some (concat chunks, True)) = Inr (digest_hex (sha256_reference (concat chunks)))"
proof (intro conjI)
  have run: "\<exists>s s'. hash_reads new_sha256 cs = (Inr (), s) \<and>
      sha_finalize s = (Inr (sha256_reference (concat chunks)), s') \<and> sh_finalized s'"
    if "concat cs = concat chunks" for cs
    using hash_reads_hashing [OF new_hashing, of cs] finalize_hashing [of "concat chunks"] assms that by auto
  show "\<exists>s. and_then (hash_reads new_sha256 chunks) (\<lambda>_ s. sha_finalize s) = (Inr (sha256_reference (concat chunks)), s) \<and>
      isl (fst (sha_update s extra)) \<and> isl (fst (sha_finalize s))"
    using run [OF refl] by (auto simp: sha_update_def sha_finalize_def)
  show "sha_digest (concat chunks) = Inr (sha256_reference (concat chunks))"
    using update_hashing [OF new_hashing, of "concat chunks"] finalize_hashing [of "concat chunks"] assms
    by (fastforce simp: sha_digest_def)
  show "sha256_file_hex path (Some (concat chunks, True)) = Inr (digest_hex (sha256_reference (concat chunks)))"
    using run [of "reads (concat chunks)"] concat_reads [of "concat chunks"] by (auto simp: sha256_file_hex_def)
qed

theorem sha256_streaming_correct_witness:
  "length (concat [[97], [], [98, 99 :: u8]]) < 2 ^ 61 \<and>
   sha_digest [97, 98, 99] = Inr (sha256_reference [97, 98, 99]) \<and>
   sha256_hex [97, 98, 99] = Inr ''ba7816bf8f01cfea414140de5dae2223b00361a396177a9cb410ff61f20015ad''"
proof -
  have "sha256_hex [97, 98, 99] = Inr ''ba7816bf8f01cfea414140de5dae2223b00361a396177a9cb410ff61f20015ad''"
    by code_simp
  then show ?thesis using sha256_streaming_correct [of "[[97], [], [98, 99]]"] by simp
qed

end
