(* ===== verification/Control_Protocol.thy ===== *)
theory Control_Protocol
  imports Binary64
begin

text \<open>
  The control channel of a session (\<^verbatim>\<open>src/transport/control_protocol.cpp\<close>): the clock correlation
  estimator and the sender side of the control protocol, with its phases, sequence numbers, clock
  requests and rate limit.

  The JSON library is a parameter: its parser reports the events the duplicate-key check listens
  to and then a value or a refusal, its writer returns text. The values are its data model. The
  order in which \<open>std::sort\<close> leaves elements that compare equal is a parameter too.
\<close>

section \<open>JSON values\<close>

datatype json =
    J_null
  | J_bool bool
  | J_unsigned u64
  | J_integer "64 word"
  | J_float double
  | J_string string
  | J_array "json list"
  | J_object "(string \<times> json) list"

datatype parse_event = Object_start | Key string | Object_end | Other_event

record json_library =
  jl_parse :: "string \<Rightarrow> parse_event list \<times> json option"
  jl_dump :: "json \<Rightarrow> string"

text \<open>\<open>find\<close> and \<open>contains\<close>; \<open>get<double>\<close> of a number.\<close>

fun json_find :: "json \<Rightarrow> string \<Rightarrow> json option" where
  "json_find (J_object entries) k = map_of entries k"
| "json_find _ k = None"

fun json_number :: "json \<Rightarrow> double option" where
  "json_number (J_unsigned n) = Some (d_of_u64 n)"
| "json_number (J_integer n) = Some (round_double (of_int (sint n)))"
| "json_number (J_float x) = Some x"
| "json_number _ = None"

text \<open>\<open>value[key] = v\<close> on an object.\<close>

fun update_entry :: "string \<Rightarrow> json \<Rightarrow> (string \<times> json) list \<Rightarrow> (string \<times> json) list" where
  "update_entry k v [] = [(k, v)]"
| "update_entry k v ((k', v') # entries) =
     (if k = k' then (k, v) # entries else (k', v') # update_entry k v entries)"

fun json_set :: "string \<Rightarrow> json \<Rightarrow> json \<Rightarrow> json" where
  "json_set k v (J_object entries) = J_object (update_entry k v entries)"
| "json_set k v j = j"

section \<open>Checks\<close>

definition kControlProtocol :: string where "kControlProtocol = ''glyphrelay-control-v1''"
definition kMaximumControlBytes :: nat where "kMaximumControlBytes = 4 * 1024"
definition kMaximumReceiverControlMessagesPerSecond :: nat where "kMaximumReceiverControlMessagesPerSecond = 10"
definition kMaximumSafeInteger :: u64 where "kMaximumSafeInteger = 9007199254740991"
definition kMaximumRtpTimestamp :: u64 where "kMaximumRtpTimestamp = 0xFFFFFFFF"
definition kInitialClockRequestCount :: u64 where "kInitialClockRequestCount = 5"
definition kMaximumOutstandingClockRequests :: nat where "kMaximumOutstandingClockRequests = 8"
definition kMaximumClockCorrelationSamples :: nat where "kMaximumClockCorrelationSamples = 12"
definition kClockCorrelationVariationSamples :: nat where "kClockCorrelationVariationSamples = 3"
definition kClockRequestIntervalMs :: double where "kClockRequestIntervalMs = Fin 5000"
definition kReceiverRateWindowMs :: double where "kReceiverRateWindowMs = Fin 1000"
definition kClockDelayRoundingToleranceMs :: double where
  "kClockDelayRoundingToleranceMs = round_double (1 / 1000000)"

definition session_character :: "char \<Rightarrow> bool" where
  "session_character c \<longleftrightarrow>
     c \<in> set ''ABCDEFGHIJKLMNOPQRSTUVWXYZabcdefghijklmnopqrstuvwxyz0123456789_-''"

definition matches_session :: "string \<Rightarrow> bool" where
  "matches_session s \<longleftrightarrow> length s = 22 \<and> list_all session_character s"

definition matches_reason :: "string \<Rightarrow> bool" where
  "matches_reason s \<longleftrightarrow> s \<noteq> [] \<and> length s \<le> 64 \<and>
     list_all (\<lambda>c. c \<in> set ''ABCDEFGHIJKLMNOPQRSTUVWXYZ0123456789_'') s"

definition finite_nonnegative :: "double \<Rightarrow> bool" where
  "finite_nonnegative x \<longleftrightarrow> d_isfinite x \<and> \<not> d_less x (Fin 0)"

definition time_in_range :: "double \<Rightarrow> bool" where
  "time_in_range x \<longleftrightarrow> d_isfinite x \<and> d_le (Fin 0) x \<and> d_le x (d_of_u64 kMaximumSafeInteger)"

definition valid_time :: "json \<Rightarrow> bool" where
  "valid_time v = (case json_number v of None \<Rightarrow> False | Some x \<Rightarrow> time_in_range x)"

definition valid_optional_time :: "json \<Rightarrow> string \<Rightarrow> bool" where
  "valid_optional_time v k = (case json_find v k of None \<Rightarrow> False | Some x \<Rightarrow> x = J_null \<or> valid_time x)"

definition optional_time :: "json \<Rightarrow> string \<Rightarrow> double option" where
  "optional_time v k = (case json_find v k of None \<Rightarrow> None | Some x \<Rightarrow> json_number x)"

definition valid_safe_integer :: "json \<Rightarrow> bool \<Rightarrow> bool" where
  "valid_safe_integer v allow_zero =
     (case v of
        J_unsigned n \<Rightarrow> (allow_zero \<or> n > 0) \<and> n \<le> kMaximumSafeInteger
      | J_integer n \<Rightarrow> (if allow_zero then sint n \<ge> 0 else sint n > 0) \<and> n \<le> kMaximumSafeInteger
      | _ \<Rightarrow> False)"

definition safe_integer :: "json \<Rightarrow> u64" where
  "safe_integer v = (case v of J_unsigned n \<Rightarrow> n | J_integer n \<Rightarrow> n | _ \<Rightarrow> 0)"

definition has_safe_integer :: "json \<Rightarrow> string \<Rightarrow> bool \<Rightarrow> bool" where
  "has_safe_integer v k allow_zero =
     (case json_find v k of None \<Rightarrow> False | Some x \<Rightarrow> valid_safe_integer x allow_zero)"

definition integer_at :: "json \<Rightarrow> string \<Rightarrow> u64" where
  "integer_at v k = (case json_find v k of None \<Rightarrow> 0 | Some x \<Rightarrow> safe_integer x)"

definition has_time :: "json \<Rightarrow> string \<Rightarrow> bool" where
  "has_time v k = (case json_find v k of None \<Rightarrow> False | Some x \<Rightarrow> valid_time x)"

definition time_at :: "json \<Rightarrow> string \<Rightarrow> double" where
  "time_at v k = (case optional_time v k of None \<Rightarrow> NaN | Some x \<Rightarrow> x)"

definition exact_keys :: "json \<Rightarrow> string list \<Rightarrow> bool" where
  "exact_keys v expected =
     (case v of
        J_object entries \<Rightarrow> length entries = length expected \<and> list_all (\<lambda>k. map_of entries k \<noteq> None) expected
      | _ \<Rightarrow> False)"

definition valid_reason :: "json \<Rightarrow> string \<Rightarrow> bool" where
  "valid_reason v k = (case json_find v k of Some (J_string s) \<Rightarrow> matches_reason s | _ \<Rightarrow> False)"

text \<open>The parser callback: one set of keys per open object; a key seen twice, or outside an object,
  is a duplicate.\<close>

fun reject_duplicate_keys :: "parse_event list \<Rightarrow> string list list \<Rightarrow> bool \<Rightarrow> bool" where
  "reject_duplicate_keys [] object_keys duplicate_key = duplicate_key"
| "reject_duplicate_keys (Object_start # events) object_keys duplicate_key =
     reject_duplicate_keys events ([] # object_keys) duplicate_key"
| "reject_duplicate_keys (Key k # events) object_keys duplicate_key =
     (case object_keys of
        [] \<Rightarrow> reject_duplicate_keys events [] True
      | keys # outer \<Rightarrow>
          if k \<in> set keys then reject_duplicate_keys events object_keys True
          else reject_duplicate_keys events ((k # keys) # outer) duplicate_key)"
| "reject_duplicate_keys (Object_end # events) object_keys duplicate_key =
     reject_duplicate_keys events (case object_keys of [] \<Rightarrow> [] | _ # outer \<Rightarrow> outer) duplicate_key"
| "reject_duplicate_keys (Other_event # events) object_keys duplicate_key =
     reject_duplicate_keys events object_keys duplicate_key"

definition strict_parse :: "json_library \<Rightarrow> string \<Rightarrow> bool \<times> json option" where
  "strict_parse jl encoded =
     (case jl_parse jl encoded of (events, result) \<Rightarrow> (reject_duplicate_keys events [] False, result))"

definition serialize :: "json_library \<Rightarrow> json \<Rightarrow> exn + string" where
  "serialize jl v =
     (let encoded = jl_dump jl v in
      if encoded = [] \<or> length encoded > kMaximumControlBytes
      then Inl (Runtime_error ''CONTROL_MESSAGE_SIZE_INVALID'') else Inr encoded)"

section \<open>Clock correlation\<close>

datatype receiver_control_event_kind =
    Clock_response | Receiver_stats | Pause_acknowledged | Resume_acknowledged | End_acknowledged
  | Protocol_error_event | Terminal

record receiver_control_stats =
  compositor_frames :: u64
  decoded_frames :: u64
  dropped_frames :: u64
  latest_presented_rtp_timestamp :: "u32 option"
  latest_callback_time_ms :: "double option"
  latest_expected_display_time_ms :: "double option"
  latest_presentation_time_ms :: "double option"
  latest_capture_time_ms :: "double option"
  latest_receive_time_ms :: "double option"

definition no_stats :: receiver_control_stats where
  "no_stats =
     \<lparr>compositor_frames = 0, decoded_frames = 0, dropped_frames = 0, latest_presented_rtp_timestamp = None,
      latest_callback_time_ms = None, latest_expected_display_time_ms = None, latest_presentation_time_ms = None,
      latest_capture_time_ms = None, latest_receive_time_ms = None\<rparr>"

record receiver_control_event =
  ev_kind :: receiver_control_event_kind
  ev_request_sequence :: u64
  ev_sender_send_time_ms :: double
  ev_receiver_receive_time_ms :: double
  ev_receiver_send_time_ms :: double
  ev_sender_receive_time_ms :: double
  ev_stats :: receiver_control_stats
  ev_reason :: string

definition new_event :: "receiver_control_event_kind \<Rightarrow> receiver_control_event" where
  "new_event kind =
     \<lparr>ev_kind = kind, ev_request_sequence = 0, ev_sender_send_time_ms = Fin 0, ev_receiver_receive_time_ms = Fin 0,
      ev_receiver_send_time_ms = Fin 0, ev_sender_receive_time_ms = Fin 0, ev_stats = no_stats, ev_reason = []\<rparr>"

record clock_correlation_sample =
  cs_request_sequence :: u64
  cs_sender_send_time_ms :: double
  cs_receiver_receive_time_ms :: double
  cs_receiver_send_time_ms :: double
  cs_sender_receive_time_ms :: double
  cs_network_delay_ms :: double
  cs_offset_ms :: double

record clock_correlation_snapshot =
  cc_valid :: bool
  cc_offset_ms :: double
  cc_uncertainty_ms :: double
  cc_network_delay_ms :: double
  cc_reset_count :: u64
  cc_samples :: "clock_correlation_sample list"

definition new_correlation :: clock_correlation_snapshot where
  "new_correlation =
     \<lparr>cc_valid = False, cc_offset_ms = Fin 0, cc_uncertainty_ms = Fin 0, cc_network_delay_ms = Fin 0,
      cc_reset_count = 0, cc_samples = []\<rparr>"

definition correlation_reset :: "clock_correlation_snapshot \<Rightarrow> clock_correlation_snapshot" where
  "correlation_reset s =
     s\<lparr>cc_valid := False, cc_offset_ms := Fin 0, cc_uncertainty_ms := Fin 0, cc_network_delay_ms := Fin 0,
       cc_samples := [], cc_reset_count := cc_reset_count s + 1\<rparr>"

text \<open>The comparison handed to \<open>std::sort\<close>.\<close>

definition sample_before :: "clock_correlation_sample \<Rightarrow> clock_correlation_sample \<Rightarrow> bool" where
  "sample_before a b \<longleftrightarrow>
     d_less (cs_network_delay_ms a) (cs_network_delay_ms b) \<or>
     d_equal (cs_network_delay_ms a) (cs_network_delay_ms b) \<and> cs_request_sequence a < cs_request_sequence b"

definition correlation_refresh ::
  "(clock_correlation_sample list \<Rightarrow> clock_correlation_sample list) \<Rightarrow> clock_correlation_snapshot \<Rightarrow>
   clock_correlation_snapshot" where
  "correlation_refresh arrange s =
     (case arrange (cc_samples s) of
        [] \<Rightarrow> s\<lparr>cc_valid := False\<rparr>
      | best # others \<Rightarrow>
          let compared = map cs_offset_ms (take (kClockCorrelationVariationSamples - 1) others);
              minimum_offset = foldl d_min (cs_offset_ms best) compared;
              maximum_offset = foldl d_max (cs_offset_ms best) compared
          in s\<lparr>cc_valid := True, cc_offset_ms := cs_offset_ms best, cc_network_delay_ms := cs_network_delay_ms best,
               cc_uncertainty_ms :=
                 d_sub (d_add (d_div (cs_network_delay_ms best) (Fin 2)) maximum_offset) minimum_offset\<rparr>)"

fun d_abs :: "double \<Rightarrow> double" where
  "d_abs (Fin a) = Fin \<bar>a\<bar>"
| "d_abs (Infinite s) = Infinite False"
| "d_abs NaN = NaN"

definition clock_response_usable :: "receiver_control_event \<Rightarrow> bool" where
  "clock_response_usable e \<longleftrightarrow>
     ev_kind e = Clock_response \<and> ev_request_sequence e \<noteq> 0 \<and>
     finite_nonnegative (ev_sender_send_time_ms e) \<and> finite_nonnegative (ev_receiver_receive_time_ms e) \<and>
     d_isfinite (ev_receiver_send_time_ms e) \<and> \<not> d_less (ev_receiver_send_time_ms e) (ev_receiver_receive_time_ms e) \<and>
     d_isfinite (ev_sender_receive_time_ms e) \<and> \<not> d_less (ev_sender_receive_time_ms e) (ev_sender_send_time_ms e)"

definition measured_delay :: "receiver_control_event \<Rightarrow> double" where
  "measured_delay e =
     d_sub (d_sub (ev_sender_receive_time_ms e) (ev_sender_send_time_ms e))
       (d_sub (ev_receiver_send_time_ms e) (ev_receiver_receive_time_ms e))"

definition measured_offset :: "receiver_control_event \<Rightarrow> double" where
  "measured_offset e =
     d_div (d_add (d_sub (ev_receiver_receive_time_ms e) (ev_sender_send_time_ms e))
              (d_sub (ev_receiver_send_time_ms e) (ev_sender_receive_time_ms e))) (Fin 2)"

definition correlation_observe ::
  "(clock_correlation_sample list \<Rightarrow> clock_correlation_sample list) \<Rightarrow> clock_correlation_snapshot \<Rightarrow>
   receiver_control_event \<Rightarrow> bool \<times> clock_correlation_snapshot" where
  "correlation_observe arrange s e =
     (let delay = measured_delay e; offset = measured_offset e in
      if \<not> clock_response_usable e then (False, s)
      else if \<not> d_isfinite delay \<or> d_less delay (d_neg kClockDelayRoundingToleranceMs) then (False, s)
      else if \<not> d_isfinite offset then (False, s)
      else
        let s = (if cc_valid s \<and> d_less (cc_uncertainty_ms s) (d_abs (d_sub offset (cc_offset_ms s)))
                 then correlation_reset s else s);
            samples = (if length (cc_samples s) = kMaximumClockCorrelationSamples then tl (cc_samples s) else cc_samples s)
        in (True, correlation_refresh arrange (s\<lparr>cc_samples := samples @
             [\<lparr>cs_request_sequence = ev_request_sequence e, cs_sender_send_time_ms = ev_sender_send_time_ms e,
               cs_receiver_receive_time_ms = ev_receiver_receive_time_ms e,
               cs_receiver_send_time_ms = ev_receiver_send_time_ms e,
               cs_sender_receive_time_ms = ev_sender_receive_time_ms e,
               cs_network_delay_ms = d_max (Fin 0) delay, cs_offset_ms = offset\<rparr>]\<rparr>)))"

section \<open>The protocol object\<close>

datatype sender_control_phase =
    Idle | Connected | Pause_pending | Paused | Resume_pending | End_pending | Ended | Failed

record sender_control_output =
  so_valid :: bool
  so_close_channel :: bool
  so_outbound_messages :: "string list"
  so_events :: "receiver_control_event list"

definition empty_output :: sender_control_output where
  "empty_output = \<lparr>so_valid = True, so_close_channel = False, so_outbound_messages = [], so_events = []\<rparr>"

record sender_control =
  sc_session_id :: string
  sc_phase :: sender_control_phase
  sc_send_sequence :: u64
  sc_receive_sequence :: u64
  sc_media_epoch :: u64
  sc_dependency_epoch :: u64
  sc_received_control_messages :: u64
  sc_outstanding_clock_requests :: "(u64 \<times> double) list"
  sc_pending_transition_sequence :: "u64 option"
  sc_last_clock_request_ms :: "double option"
  sc_last_receive_time_ms :: "double option"
  sc_last_stats :: "receiver_control_stats option"
  sc_receiver_message_times :: "double list"
  sc_clock_requests_sent :: u64
  sc_reason :: string

type_synonym control_result = "(sender_control_output, sender_control) outcome"

definition make_control :: "string \<Rightarrow> exn + sender_control" where
  "make_control session_id =
     (if \<not> matches_session session_id then Inl (Invalid_argument ''control_session_id_invalid'')
      else Inr \<lparr>sc_session_id = session_id, sc_phase = Idle, sc_send_sequence = 0, sc_receive_sequence = 0,
                sc_media_epoch = 0, sc_dependency_epoch = 0, sc_received_control_messages = 0,
                sc_outstanding_clock_requests = [], sc_pending_transition_sequence = None,
                sc_last_clock_request_ms = None, sc_last_receive_time_ms = None, sc_last_stats = None,
                sc_receiver_message_times = [], sc_clock_requests_sent = 0, sc_reason = ''CONTROL_IDLE''\<rparr>)"

definition active_phase :: "sender_control_phase \<Rightarrow> bool" where
  "active_phase phase \<longleftrightarrow>
     phase = Connected \<or> phase = Pause_pending \<or> phase = Paused \<or> phase = Resume_pending \<or> phase = End_pending"

definition clear_pending :: "sender_control \<Rightarrow> sender_control" where
  "clear_pending c = c\<lparr>sc_outstanding_clock_requests := [], sc_pending_transition_sequence := None\<rparr>"

definition control_fail :: "sender_control \<Rightarrow> string \<Rightarrow> sender_control_output \<times> sender_control" where
  "control_fail c reason =
     (let output = empty_output\<lparr>so_valid := False\<rparr> in
      if sc_phase c = Failed \<or> sc_phase c = Ended then (output, c)
      else (output\<lparr>so_close_channel := True, so_events := [(new_event Terminal)\<lparr>ev_reason := reason\<rparr>]\<rparr>,
            clear_pending (c\<lparr>sc_phase := Failed, sc_reason := reason\<rparr>)))"

definition failed :: "sender_control \<Rightarrow> string \<Rightarrow> control_result" where
  "failed c reason = (case control_fail c reason of (output, c) \<Rightarrow> (Inr output, c))"

text \<open>The next sequence number on a new message with the common keys.\<close>

definition control_message :: "json_library \<Rightarrow> sender_control \<Rightarrow> string \<Rightarrow> sender_control_output \<times> sender_control" where
  "control_message jl c type =
     (if sc_send_sequence c \<ge> kMaximumSafeInteger then control_fail c ''CONTROL_SEND_SEQUENCE_EXHAUSTED''
      else
        let c = c\<lparr>sc_send_sequence := sc_send_sequence c + 1\<rparr>;
            v = J_object [(''protocolVersion'', J_string kControlProtocol), (''sequence'', J_unsigned (sc_send_sequence c)),
                          (''sessionId'', J_string (sc_session_id c)), (''type'', J_string type)]
        in case serialize jl v of
             Inl e \<Rightarrow> control_fail c ''CONTROL_MESSAGE_SIZE_INVALID''
           | Inr encoded \<Rightarrow> (empty_output\<lparr>so_outbound_messages := [encoded]\<rparr>, c))"

text \<open>\<open>Json::parse\<close> of the first outbound message, some keys set, serialized in its place.\<close>

definition extend_message ::
  "json_library \<Rightarrow> (string \<times> json) list \<Rightarrow> sender_control_output \<Rightarrow> exn + sender_control_output" where
  "extend_message jl entries output =
     (case snd (jl_parse jl (hd (so_outbound_messages output))) of
        None \<Rightarrow> Inl (Runtime_error ''parse_error'')
      | Some decoded \<Rightarrow>
          (case serialize jl (foldl (\<lambda>j (k, v). json_set k v j) decoded entries) of
             Inl e \<Rightarrow> Inl e
           | Inr encoded \<Rightarrow> Inr (output\<lparr>so_outbound_messages := encoded # tl (so_outbound_messages output)\<rparr>)))"

text \<open>A message with further keys, and what follows once it is written; the rest is skipped when the
  message could not be made.\<close>

definition send_message ::
  "json_library \<Rightarrow> sender_control \<Rightarrow> string \<Rightarrow> (string \<times> json) list \<Rightarrow>
   (sender_control_output \<Rightarrow> sender_control \<Rightarrow> control_result) \<Rightarrow> control_result" where
  "send_message jl c type entries continue =
     (case control_message jl c type of
        (output, c) \<Rightarrow>
          if \<not> so_valid output then (Inr output, c)
          else (case extend_message jl entries output of
                  Inl e \<Rightarrow> (Inl e, c)
                | Inr output \<Rightarrow> continue output c))"

section \<open>Operations of the owner\<close>

definition control_begin :: "json_library \<Rightarrow> sender_control \<Rightarrow> u64 \<Rightarrow> control_result" where
  "control_begin jl c media_epoch =
     (if sc_phase c \<noteq> Idle \<or> media_epoch = 0 \<or> media_epoch > kMaximumSafeInteger
      then failed c ''CONTROL_BEGIN_INVALID''
      else send_message jl
             (c\<lparr>sc_media_epoch := media_epoch, sc_phase := Connected, sc_reason := ''CONTROL_CONNECTED''\<rparr>)
             ''HELLO'' [(''mediaEpoch'', J_unsigned media_epoch)] (\<lambda>output c. (Inr output, c)))"

text \<open>\<open>map[key] = value\<close>.\<close>

fun store_request :: "u64 \<Rightarrow> double \<Rightarrow> (u64 \<times> double) list \<Rightarrow> (u64 \<times> double) list" where
  "store_request k v [] = [(k, v)]"
| "store_request k v ((k', v') # rest) =
     (if k = k' then (k, v) # rest else (k', v') # store_request k v rest)"

definition time_before :: "double \<Rightarrow> double option \<Rightarrow> bool" where
  "time_before x previous = (case previous of None \<Rightarrow> False | Some t \<Rightarrow> d_less x t)"

definition request_clock :: "json_library \<Rightarrow> sender_control \<Rightarrow> double \<Rightarrow> control_result" where
  "request_clock jl c sender_send_time_ms =
     (if sc_phase c \<noteq> Connected \<or> \<not> d_isfinite sender_send_time_ms \<or> d_less sender_send_time_ms (Fin 0) \<or>
         d_less (d_of_u64 kMaximumSafeInteger) sender_send_time_ms \<or>
         time_before sender_send_time_ms (sc_last_clock_request_ms c)
        then failed c ''CONTROL_CLOCK_REQUEST_INVALID''
      else if sc_clock_requests_sent c \<ge> kInitialClockRequestCount \<and>
              (case sc_last_clock_request_ms c of
                 None \<Rightarrow> False | Some t \<Rightarrow> d_less (d_sub sender_send_time_ms t) kClockRequestIntervalMs)
        then (Inr empty_output, c)
      else if length (sc_outstanding_clock_requests c) \<ge> kMaximumOutstandingClockRequests
        then failed c ''CONTROL_CLOCK_REQUESTS_EXHAUSTED''
      else send_message jl c ''CLOCK_REQUEST'' [(''senderSendTimeMs'', J_float sender_send_time_ms)]
        (\<lambda>output c. (Inr output,
           c\<lparr>sc_outstanding_clock_requests :=
               store_request (sc_send_sequence c) sender_send_time_ms (sc_outstanding_clock_requests c),
             sc_last_clock_request_ms := Some sender_send_time_ms,
             sc_clock_requests_sent := sc_clock_requests_sent c + 1\<rparr>)))"

definition control_pause :: "json_library \<Rightarrow> sender_control \<Rightarrow> u64 \<Rightarrow> control_result" where
  "control_pause jl c closed_media_epoch =
     (if sc_phase c \<noteq> Connected \<or> closed_media_epoch \<noteq> sc_media_epoch c then failed c ''CONTROL_PAUSE_INVALID''
      else send_message jl c ''SESSION_PAUSED'' [(''mediaEpoch'', J_unsigned closed_media_epoch)]
        (\<lambda>output c. (Inr output,
           c\<lparr>sc_pending_transition_sequence := Some (sc_send_sequence c), sc_phase := Pause_pending,
             sc_reason := ''CONTROL_PAUSE_PENDING''\<rparr>)))"

definition control_resume :: "json_library \<Rightarrow> sender_control \<Rightarrow> u64 \<Rightarrow> u64 \<Rightarrow> control_result" where
  "control_resume jl c media_epoch dependency_epoch =
     (if sc_phase c \<noteq> Paused \<or> media_epoch \<le> sc_media_epoch c \<or> media_epoch = 0 \<or> dependency_epoch = 0 \<or>
         media_epoch > kMaximumSafeInteger \<or> dependency_epoch > kMaximumSafeInteger
        then failed c ''CONTROL_RESUME_INVALID''
      else send_message jl c ''SESSION_RESUMED''
        [(''dependencyEpoch'', J_unsigned dependency_epoch), (''mediaEpoch'', J_unsigned media_epoch)]
        (\<lambda>output c. (Inr output,
           c\<lparr>sc_media_epoch := media_epoch, sc_dependency_epoch := dependency_epoch,
             sc_pending_transition_sequence := Some (sc_send_sequence c), sc_phase := Resume_pending,
             sc_reason := ''CONTROL_RESUME_PENDING''\<rparr>)))"

definition control_end :: "json_library \<Rightarrow> sender_control \<Rightarrow> u64 \<Rightarrow> string \<Rightarrow> control_result" where
  "control_end jl c media_epoch reason =
     (if \<not> active_phase (sc_phase c) \<or> media_epoch \<noteq> sc_media_epoch c \<or> \<not> matches_reason reason
        then failed c ''CONTROL_END_INVALID''
      else send_message jl c ''SESSION_ENDED'' [(''mediaEpoch'', J_unsigned media_epoch), (''reason'', J_string reason)]
        (\<lambda>output c. (Inr output,
           c\<lparr>sc_pending_transition_sequence := Some (sc_send_sequence c), sc_phase := End_pending,
             sc_reason := ''CONTROL_END_PENDING''\<rparr>)))"

definition protocol_error :: "json_library \<Rightarrow> sender_control \<Rightarrow> string \<Rightarrow> control_result" where
  "protocol_error jl c code =
     (if \<not> active_phase (sc_phase c) \<or> \<not> matches_reason code then failed c ''CONTROL_PROTOCOL_ERROR_INVALID''
      else send_message jl c ''PROTOCOL_ERROR'' [(''code'', J_string code)]
        (\<lambda>output c. (Inr (output\<lparr>so_close_channel := True,
                                 so_events := so_events output @ [(new_event Terminal)\<lparr>ev_reason := code\<rparr>]\<rparr>),
                    clear_pending (c\<lparr>sc_phase := Failed, sc_reason := code\<rparr>))))"

definition channel_closed :: "sender_control \<Rightarrow> control_result" where
  "channel_closed c =
     (if sc_phase c = Ended \<or> sc_phase c = Failed then (Inr empty_output, c)
      else failed c ''CONTROL_CHANNEL_CLOSED'')"

section \<open>Receiving\<close>

definition expired_times :: "double \<Rightarrow> double list \<Rightarrow> double list" where
  "expired_times now stamps = dropWhile (\<lambda>t. d_le kReceiverRateWindowMs (d_sub now t)) stamps"

definition admit_receiver_message :: "sender_control \<Rightarrow> double \<Rightarrow> bool \<times> sender_control" where
  "admit_receiver_message c received_at_ms =
     (if \<not> d_isfinite received_at_ms \<or> d_less received_at_ms (Fin 0) \<or>
         d_less (d_of_u64 kMaximumSafeInteger) received_at_ms \<or>
         time_before received_at_ms (sc_last_receive_time_ms c)
        then (False, c)
      else
        let recent = expired_times received_at_ms (sc_receiver_message_times c);
            c = c\<lparr>sc_last_receive_time_ms := Some received_at_ms, sc_receiver_message_times := recent\<rparr>
        in if length recent \<ge> kMaximumReceiverControlMessagesPerSecond then (False, c)
           else (True, c\<lparr>sc_receiver_message_times := recent @ [received_at_ms]\<rparr>))"

text \<open>The checks every message passes before its type is looked at.\<close>

definition has_string :: "json \<Rightarrow> string \<Rightarrow> string \<Rightarrow> bool" where
  "has_string v k s \<longleftrightarrow> json_find v k = Some (J_string s)"

definition envelope_valid :: "sender_control \<Rightarrow> json \<Rightarrow> bool" where
  "envelope_valid c v \<longleftrightarrow>
     (case v of J_object _ \<Rightarrow> True | _ \<Rightarrow> False) \<and> has_string v ''protocolVersion'' kControlProtocol \<and>
     has_string v ''sessionId'' (sc_session_id c) \<and> has_safe_integer v ''sequence'' False \<and>
     integer_at v ''sequence'' = sc_receive_sequence c + 1 \<and>
     (case json_find v ''type'' of Some (J_string _) \<Rightarrow> True | _ \<Rightarrow> False)"

definition string_at :: "json \<Rightarrow> string \<Rightarrow> string" where
  "string_at v k = (case json_find v k of Some (J_string s) \<Rightarrow> s | _ \<Rightarrow> [])"

definition message_type :: "json \<Rightarrow> string" where
  "message_type v = string_at v ''type''"

text \<open>Each branch gives the reason of its failure, or the output and the new state.\<close>

type_synonym branch = "string + (sender_control_output \<times> sender_control)"

definition receive_clock_response :: "sender_control \<Rightarrow> json \<Rightarrow> double \<Rightarrow> branch" where
  "receive_clock_response c v received_at_ms =
     (if \<not> exact_keys v [''protocolVersion'', ''receiverReceiveTimeMs'', ''receiverSendTimeMs'', ''requestSequence'',
                         ''senderSendTimeMs'', ''sequence'', ''sessionId'', ''type''] \<or>
         \<not> has_safe_integer v ''requestSequence'' False \<or> \<not> has_time v ''senderSendTimeMs'' \<or>
         \<not> has_time v ''receiverReceiveTimeMs'' \<or> \<not> has_time v ''receiverSendTimeMs''
        then Inl ''CONTROL_CLOCK_RESPONSE_INVALID''
      else
        let k = integer_at v ''requestSequence'' in
        case map_of (sc_outstanding_clock_requests c) k of
          None \<Rightarrow> Inl ''CONTROL_CLOCK_RESPONSE_MISMATCH''
        | Some sent \<Rightarrow>
            if \<not> d_equal sent (time_at v ''senderSendTimeMs'') \<or>
               d_less (time_at v ''receiverSendTimeMs'') (time_at v ''receiverReceiveTimeMs'')
              then Inl ''CONTROL_CLOCK_RESPONSE_MISMATCH''
            else Inr (empty_output\<lparr>so_events :=
                        [\<lparr>ev_kind = Clock_response, ev_request_sequence = k, ev_sender_send_time_ms = sent,
                          ev_receiver_receive_time_ms = time_at v ''receiverReceiveTimeMs'',
                          ev_receiver_send_time_ms = time_at v ''receiverSendTimeMs'',
                          ev_sender_receive_time_ms = received_at_ms, ev_stats = no_stats, ev_reason = []\<rparr>]\<rparr>,
                      c\<lparr>sc_outstanding_clock_requests :=
                          filter (\<lambda>(k', _). k' \<noteq> k) (sc_outstanding_clock_requests c)\<rparr>))"

definition stats_of :: "json \<Rightarrow> receiver_control_stats" where
  "stats_of v =
     \<lparr>compositor_frames = integer_at v ''compositorFrames'', decoded_frames = integer_at v ''decodedFrames'',
      dropped_frames = integer_at v ''droppedFrames'',
      latest_presented_rtp_timestamp =
        (case json_find v ''latestPresentedRtpTimestamp'' of
           None \<Rightarrow> None | Some J_null \<Rightarrow> None | Some x \<Rightarrow> Some (ucast (safe_integer x))),
      latest_callback_time_ms = optional_time v ''latestCallbackTimeMs'',
      latest_expected_display_time_ms = optional_time v ''latestExpectedDisplayTimeMs'',
      latest_presentation_time_ms = optional_time v ''latestPresentationTimeMs'',
      latest_capture_time_ms = optional_time v ''latestCaptureTimeMs'',
      latest_receive_time_ms = optional_time v ''latestReceiveTimeMs''\<rparr>"

definition valid_rtp_timestamp :: "json \<Rightarrow> bool" where
  "valid_rtp_timestamp v =
     (case json_find v ''latestPresentedRtpTimestamp'' of
        None \<Rightarrow> False
      | Some x \<Rightarrow> x = J_null \<or> valid_safe_integer x True \<and> safe_integer x \<le> kMaximumRtpTimestamp)"

definition stats_regressed :: "receiver_control_stats \<Rightarrow> receiver_control_stats \<Rightarrow> bool" where
  "stats_regressed previous stats \<longleftrightarrow>
     compositor_frames stats < compositor_frames previous \<or> decoded_frames stats < decoded_frames previous \<or>
     dropped_frames stats < dropped_frames previous \<or>
     (case (latest_callback_time_ms stats, latest_callback_time_ms previous) of
        (Some t, Some p) \<Rightarrow> d_less t p | _ \<Rightarrow> False)"

definition receive_stats :: "sender_control \<Rightarrow> json \<Rightarrow> branch" where
  "receive_stats c v =
     (if sc_phase c \<noteq> Connected \<or>
         \<not> exact_keys v [''compositorFrames'', ''decodedFrames'', ''droppedFrames'', ''latestCallbackTimeMs'',
             ''latestCaptureTimeMs'', ''latestExpectedDisplayTimeMs'', ''latestPresentationTimeMs'',
             ''latestPresentedRtpTimestamp'', ''latestReceiveTimeMs'', ''protocolVersion'', ''sequence'', ''sessionId'', ''type''] \<or>
         \<not> has_safe_integer v ''compositorFrames'' True \<or> \<not> has_safe_integer v ''decodedFrames'' True \<or>
         \<not> has_safe_integer v ''droppedFrames'' True \<or> \<not> valid_rtp_timestamp v \<or>
         \<not> valid_optional_time v ''latestCallbackTimeMs'' \<or> \<not> valid_optional_time v ''latestExpectedDisplayTimeMs'' \<or>
         \<not> valid_optional_time v ''latestPresentationTimeMs'' \<or> \<not> valid_optional_time v ''latestCaptureTimeMs'' \<or>
         \<not> valid_optional_time v ''latestReceiveTimeMs''
        then Inl ''CONTROL_RECEIVER_STATS_INVALID''
      else
        let stats = stats_of v in
        if (case sc_last_stats c of None \<Rightarrow> False | Some previous \<Rightarrow> stats_regressed previous stats)
          then Inl ''CONTROL_RECEIVER_STATS_REGRESSED''
        else Inr (empty_output\<lparr>so_events := [(new_event Receiver_stats)\<lparr>ev_stats := stats\<rparr>]\<rparr>,
                  c\<lparr>sc_last_stats := Some stats\<rparr>))"

definition receive_ack :: "sender_control \<Rightarrow> json \<Rightarrow> branch" where
  "receive_ack c v =
     (let type = message_type v;
          acknowledged = (\<lambda>pending kind close c.
            Inr (empty_output\<lparr>so_close_channel := close,
                   so_events := [(new_event kind)\<lparr>ev_request_sequence := pending\<rparr>]\<rparr>,
                 c\<lparr>sc_pending_transition_sequence := None\<rparr>))
      in
      if \<not> exact_keys v [''protocolVersion'', ''requestSequence'', ''sequence'', ''sessionId'', ''type''] \<or>
         \<not> has_safe_integer v ''requestSequence'' False
        then Inl ''CONTROL_ACK_INVALID''
      else case sc_pending_transition_sequence c of
        None \<Rightarrow> Inl ''CONTROL_ACK_INVALID''
      | Some pending \<Rightarrow>
          if integer_at v ''requestSequence'' \<noteq> pending then Inl ''CONTROL_ACK_INVALID''
          else if type = ''SESSION_PAUSED_ACK'' \<and> sc_phase c = Pause_pending then
            acknowledged pending Pause_acknowledged False (c\<lparr>sc_phase := Paused, sc_reason := ''CONTROL_PAUSED''\<rparr>)
          else if type = ''SESSION_RESUMED_ACK'' \<and> sc_phase c = Resume_pending then
            acknowledged pending Resume_acknowledged False
              (c\<lparr>sc_phase := Connected, sc_reason := ''CONTROL_CONNECTED''\<rparr>)
          else if type = ''SESSION_ENDED_ACK'' \<and> sc_phase c = End_pending then
            acknowledged pending End_acknowledged True
              (c\<lparr>sc_phase := Ended, sc_reason := ''CONTROL_ENDED'', sc_outstanding_clock_requests := []\<rparr>)
          else Inl ''CONTROL_ACK_STATE_INVALID'')"

definition receive_protocol_error :: "sender_control \<Rightarrow> json \<Rightarrow> branch" where
  "receive_protocol_error c v =
     (if \<not> exact_keys v [''code'', ''protocolVersion'', ''sequence'', ''sessionId'', ''type''] \<or> \<not> valid_reason v ''code''
        then Inl ''CONTROL_REMOTE_PROTOCOL_ERROR_INVALID''
      else
        let code = string_at v ''code'' in
        Inr (empty_output\<lparr>so_close_channel := True,
               so_events := [(new_event Protocol_error_event)\<lparr>ev_reason := code\<rparr>]\<rparr>,
             clear_pending (c\<lparr>sc_reason := code, sc_phase := Failed\<rparr>)))"

definition receive_typed :: "sender_control \<Rightarrow> json \<Rightarrow> double \<Rightarrow> branch" where
  "receive_typed c v received_at_ms =
     (let type = message_type v in
      if type = ''CLOCK_RESPONSE'' then receive_clock_response c v received_at_ms
      else if type = ''RECEIVER_STATS'' then receive_stats c v
      else if type = ''SESSION_PAUSED_ACK'' \<or> type = ''SESSION_RESUMED_ACK'' \<or> type = ''SESSION_ENDED_ACK''
        then receive_ack c v
      else if type = ''PROTOCOL_ERROR'' then receive_protocol_error c v
      else Inl ''CONTROL_TYPE_INVALID'')"

definition control_receive :: "json_library \<Rightarrow> sender_control \<Rightarrow> string \<Rightarrow> double \<Rightarrow> control_result" where
  "control_receive jl c encoded received_at_ms =
     (if \<not> active_phase (sc_phase c) \<or> encoded = [] \<or> length encoded > kMaximumControlBytes
        then failed c ''CONTROL_RECEIVE_INVALID''
      else case admit_receiver_message c received_at_ms of
        (False, c) \<Rightarrow> failed c ''CONTROL_RECEIVER_RATE_OR_CLOCK_INVALID''
      | (True, c) \<Rightarrow>
          (case strict_parse jl encoded of
             (duplicate_key, None) \<Rightarrow> failed c ''CONTROL_MESSAGE_INVALID''
           | (duplicate_key, Some v) \<Rightarrow>
               if duplicate_key \<or> \<not> envelope_valid c v then failed c ''CONTROL_MESSAGE_INVALID''
               else (case receive_typed c v received_at_ms of
                       Inl reason \<Rightarrow> failed c reason
                     | Inr (output, c) \<Rightarrow>
                         (Inr output,
                          c\<lparr>sc_receive_sequence := sc_receive_sequence c + 1,
                            sc_received_control_messages := sc_received_control_messages c + 1\<rparr>))))"

fun sender_control_phase_name :: "sender_control_phase \<Rightarrow> string" where
  "sender_control_phase_name Idle = ''IDLE''"
| "sender_control_phase_name Connected = ''CONNECTED''"
| "sender_control_phase_name Pause_pending = ''PAUSE_PENDING''"
| "sender_control_phase_name Paused = ''PAUSED''"
| "sender_control_phase_name Resume_pending = ''RESUME_PENDING''"
| "sender_control_phase_name End_pending = ''END_PENDING''"
| "sender_control_phase_name Ended = ''ENDED''"
| "sender_control_phase_name Failed = ''FAILED''"

record sender_control_diagnostics =
  sd_phase :: sender_control_phase
  sd_send_sequence :: u64
  sd_receive_sequence :: u64
  sd_media_epoch :: u64
  sd_dependency_epoch :: u64
  sd_outstanding_clock_requests :: nat
  sd_received_control_messages :: u64
  sd_reason :: string

definition control_diagnostics :: "sender_control \<Rightarrow> sender_control_diagnostics" where
  "control_diagnostics c =
     \<lparr>sd_phase = sc_phase c, sd_send_sequence = sc_send_sequence c, sd_receive_sequence = sc_receive_sequence c,
      sd_media_epoch = sc_media_epoch c, sd_dependency_epoch = sc_dependency_epoch c,
      sd_outstanding_clock_requests = length (sc_outstanding_clock_requests c),
      sd_received_control_messages = sc_received_control_messages c, sd_reason = sc_reason c\<rparr>"

end
