(* ===== verification/Control_Safety.thy ===== *)
theory Control_Safety
  imports Control_Protocol
begin

text \<open>
  What the sender side of the control protocol guarantees over any sequence of calls, whatever the
  receiver sends and however the JSON library answers: the channel closes once and stays silent,
  phases follow the handshake, clock answers match requests one to one, messages are rate limited
  and numbered.
\<close>

section \<open>Calls\<close>

datatype control_call =
    Begin u64
  | Request_clock double
  | Pause u64
  | Resume u64 u64
  | End_session u64 string
  | Raise_error string
  | Receive string double
  | Channel_closed

fun control_apply :: "json_library \<Rightarrow> sender_control \<Rightarrow> control_call \<Rightarrow> control_result" where
  "control_apply jl c (Begin media_epoch) = control_begin jl c media_epoch"
| "control_apply jl c (Request_clock t) = request_clock jl c t"
| "control_apply jl c (Pause media_epoch) = control_pause jl c media_epoch"
| "control_apply jl c (Resume media_epoch dependency_epoch) = control_resume jl c media_epoch dependency_epoch"
| "control_apply jl c (End_session media_epoch reason) = control_end jl c media_epoch reason"
| "control_apply jl c (Raise_error code) = protocol_error jl c code"
| "control_apply jl c (Receive encoded t) = control_receive jl c encoded t"
| "control_apply jl c Channel_closed = channel_closed c"

definition terminal :: "sender_control \<Rightarrow> bool" where
  "terminal c \<longleftrightarrow> sc_phase c = Ended \<or> sc_phase c = Failed"

section \<open>One call\<close>

text \<open>A failure closes the channel once and says why; later it only answers invalid.\<close>

lemma failed_cases:
  "terminal c \<Longrightarrow> failed c reason = (Inr (empty_output\<lparr>so_valid := False\<rparr>), c)"
  "\<not> terminal c \<Longrightarrow> failed c reason =
     (Inr \<lparr>so_valid = False, so_close_channel = True, so_outbound_messages = [],
           so_events = [(new_event Terminal)\<lparr>ev_reason := reason\<rparr>]\<rparr>,
      clear_pending (c\<lparr>sc_phase := Failed, sc_reason := reason\<rparr>))"
  by (auto simp: failed_def control_fail_def terminal_def empty_output_def Let_def)

text \<open>Sending: the sequence is exhausted or the text too long and the session fails, the extension
  of the message throws, or the continuation runs with one message under the next number.\<close>

lemma send_message_cases:
  assumes "\<not> terminal c"
  obtains (stopped) c1 reason where "send_message jl c type entries k = failed c1 reason"
      "c1 = c \<or> sc_send_sequence c < kMaximumSafeInteger \<and> c1 = c\<lparr>sc_send_sequence := sc_send_sequence c + 1\<rparr>"
  | (thrown) e where "send_message jl c type entries k = (Inl e, c\<lparr>sc_send_sequence := sc_send_sequence c + 1\<rparr>)"
      "sc_send_sequence c < kMaximumSafeInteger"
  | (sent) encoded draft where "sc_send_sequence c < kMaximumSafeInteger"
      "draft = jl_dump jl (J_object [(''protocolVersion'', J_string kControlProtocol),
         (''sequence'', J_unsigned (sc_send_sequence c + 1)), (''sessionId'', J_string (sc_session_id c)),
         (''type'', J_string type)])"
      "extend_message jl entries (empty_output\<lparr>so_outbound_messages := [draft]\<rparr>) =
         Inr (empty_output\<lparr>so_outbound_messages := [encoded]\<rparr>)"
      "send_message jl c type entries k =
         k (empty_output\<lparr>so_outbound_messages := [encoded]\<rparr>) (c\<lparr>sc_send_sequence := sc_send_sequence c + 1\<rparr>)"
proof (cases "sc_send_sequence c \<ge> kMaximumSafeInteger")
  case True
  with assms show ?thesis
    by (intro that(1) [of c "''CONTROL_SEND_SEQUENCE_EXHAUSTED''"])
      (auto simp: send_message_def control_message_def failed_def control_fail_def terminal_def empty_output_def Let_def)
next
  case False
  let ?c = "c\<lparr>sc_send_sequence := sc_send_sequence c + 1\<rparr>"
  let ?v = "J_object [(''protocolVersion'', J_string kControlProtocol),
         (''sequence'', J_unsigned (sc_send_sequence c + 1)), (''sessionId'', J_string (sc_session_id c)),
         (''type'', J_string type)]"
  show ?thesis
  proof (cases "serialize jl ?v")
    case (Inl e)
    with False assms show ?thesis
      by (intro that(1) [of ?c "''CONTROL_MESSAGE_SIZE_INVALID''"])
        (auto simp: send_message_def control_message_def failed_def control_fail_def terminal_def empty_output_def Let_def)
  next
    case (Inr draft)
    then have draft: "draft = jl_dump jl ?v" by (auto simp: serialize_def Let_def split: if_splits)
    have run: "control_message jl c type = (empty_output\<lparr>so_outbound_messages := [draft]\<rparr>, ?c)"
      using False Inr by (simp add: control_message_def Let_def)
    show ?thesis
    proof (cases "extend_message jl entries (empty_output\<lparr>so_outbound_messages := [draft]\<rparr>)")
      case (Inl e)
      with run False show ?thesis by (intro that(2) [of e]) (auto simp: send_message_def empty_output_def)
    next
      case (Inr out)
      then obtain encoded where "out = empty_output\<lparr>so_outbound_messages := [encoded]\<rparr>"
        by (auto simp: extend_message_def split: option.splits sum.splits)
      with Inr run False draft show ?thesis
        by (intro that(3) [of draft encoded]) (auto simp: send_message_def empty_output_def)
    qed
  qed
qed

section \<open>The channel closes once\<close>

text \<open>\<open>closing c r\<close>: a call on \<open>c\<close> with result \<open>r\<close> closes the channel exactly when it ends the session.\<close>

definition closing :: "control_result \<Rightarrow> bool" where
  "closing r = (case fst r of Inl _ \<Rightarrow> \<not> terminal (snd r) | Inr output \<Rightarrow> so_close_channel output = terminal (snd r))"

lemma failed_closing: "\<not> terminal c \<Longrightarrow> closing (failed c reason)"
  by (simp add: failed_cases closing_def) (simp add: terminal_def clear_pending_def)

lemma send_closing:
  assumes "\<not> terminal c"
    and "\<And>encoded. closing (k (empty_output\<lparr>so_outbound_messages := [encoded]\<rparr>)
           (c\<lparr>sc_send_sequence := sc_send_sequence c + 1\<rparr>))"
  shows "closing (send_message jl c type entries k)"
using assms(1) proof (cases rule: send_message_cases [of c jl type entries k])
  case (stopped c1 reason)
  moreover have "\<not> terminal c1" using stopped(2) assms(1) by (auto simp: terminal_def)
  ultimately show ?thesis by (simp add: failed_closing)
next
  case (thrown e)
  with assms(1) show ?thesis by (simp add: closing_def terminal_def)
next
  case (sent encoded draft)
  with assms(2) show ?thesis by simp
qed

lemmas closing_simps = closing_def terminal_def empty_output_def clear_pending_def

lemma owner_calls_closing:
  assumes "\<not> terminal c"
  shows "closing (control_begin jl c m)" "closing (request_clock jl c t)" "closing (control_pause jl c m)"
    "closing (control_resume jl c m d)" "closing (control_end jl c m r)" "closing (protocol_error jl c code)"
    "closing (channel_closed c)"
proof -
  have "\<not> terminal (c\<lparr>sc_media_epoch := m, sc_phase := Connected, sc_reason := r\<rparr>)" for r
    by (simp add: terminal_def)
  then show "closing (control_begin jl c m)"
    using assms by (auto simp: control_begin_def intro!: failed_closing send_closing) (auto simp: closing_simps)
  show "closing (request_clock jl c t)"
    using assms by (auto simp: request_clock_def intro!: failed_closing send_closing) (auto simp: closing_simps)
  show "closing (control_pause jl c m)"
    using assms by (auto simp: control_pause_def intro!: failed_closing send_closing) (auto simp: closing_simps)
  show "closing (control_resume jl c m d)"
    using assms by (auto simp: control_resume_def intro!: failed_closing send_closing) (auto simp: closing_simps)
  show "closing (control_end jl c m r)"
    using assms by (auto simp: control_end_def intro!: failed_closing send_closing) (auto simp: closing_simps)
  show "closing (protocol_error jl c code)"
    using assms by (auto simp: protocol_error_def intro!: failed_closing send_closing) (auto simp: closing_simps)
  show "closing (channel_closed c)"
    using assms failed_closing [OF assms] by (auto simp: channel_closed_def terminal_def)
qed

lemma receive_typed_closing:
  "\<not> terminal c \<Longrightarrow> receive_typed c v t = Inr (out, c') \<Longrightarrow> so_close_channel out = terminal c'"
  by (auto simp: receive_typed_def receive_clock_response_def receive_stats_def receive_ack_def
      receive_protocol_error_def Let_def closing_simps split: if_splits option.splits)

lemma admit_frame:
  assumes "admit_receiver_message c t = (b, c')"
  shows "sc_phase c' = sc_phase c" "sc_send_sequence c' = sc_send_sequence c"
    "sc_receive_sequence c' = sc_receive_sequence c" "sc_session_id c' = sc_session_id c"
    "sc_media_epoch c' = sc_media_epoch c" "sc_outstanding_clock_requests c' = sc_outstanding_clock_requests c"
    "sc_pending_transition_sequence c' = sc_pending_transition_sequence c"
    "sc_received_control_messages c' = sc_received_control_messages c"
  using assms by (auto simp: admit_receiver_message_def Let_def split: if_splits)

text \<open>Receiving: refused at the door, refused by a check, or accepted by the branch of its type.\<close>

lemma receive_cases:
  obtains (inactive) reason where "control_receive jl c encoded t = failed c reason"
      "\<not> active_phase (sc_phase c) \<or> encoded = [] \<or> length encoded > kMaximumControlBytes"
  | (refused) b c1 reason where "active_phase (sc_phase c)" "admit_receiver_message c t = (b, c1)"
      "control_receive jl c encoded t = failed c1 reason"
  | (accepted) c1 v out c2 where "active_phase (sc_phase c)" "admit_receiver_message c t = (True, c1)"
      "strict_parse jl encoded = (False, Some v)" "envelope_valid c1 v" "receive_typed c1 v t = Inr (out, c2)"
      "control_receive jl c encoded t = (Inr out,
         c2\<lparr>sc_receive_sequence := sc_receive_sequence c2 + 1,
            sc_received_control_messages := sc_received_control_messages c2 + 1\<rparr>)"
proof (cases "\<not> active_phase (sc_phase c) \<or> encoded = [] \<or> length encoded > kMaximumControlBytes")
  case True
  then show ?thesis by (intro that(1)) (auto simp: control_receive_def)
next
  case False
  obtain b c1 where a: "admit_receiver_message c t = (b, c1)" by fastforce
  obtain dup res where p: "strict_parse jl encoded = (dup, res)" by fastforce
  note run = control_receive_def [of jl c encoded t]
  consider "\<not> b" | "b" "res = None" | v where "b" "res = Some v" "dup \<or> \<not> envelope_valid c1 v"
    | v reason where "b" "res = Some v" "\<not> dup" "envelope_valid c1 v" "receive_typed c1 v t = Inl reason"
    | v out c2 where "b" "res = Some v" "\<not> dup" "envelope_valid c1 v" "receive_typed c1 v t = Inr (out, c2)"
  proof (cases res)
    case (Some v)
    then show ?thesis
      using that by (cases "receive_typed c1 v t") (auto, metis prod.exhaust)
  qed (use that in auto)
  then show ?thesis
  proof cases
    case 5
    with False a p run show ?thesis by (intro that(3)) auto
  qed (use False a p run in \<open>auto intro!: that(2)\<close>)
qed

lemma receive_closing:
  assumes "\<not> terminal c"
  shows "closing (control_receive jl c encoded t)"
proof (cases rule: receive_cases [of jl c encoded t])
  case (inactive reason)
  with assms show ?thesis by (simp add: failed_closing)
next
  case (refused b c1 reason)
  with assms admit_frame(1) [OF refused(2)] show ?thesis by (simp add: failed_closing terminal_def)
next
  case (accepted c1 v out c2)
  have "\<not> terminal c1" using assms admit_frame(1) [OF accepted(2)] by (simp add: terminal_def)
  from receive_typed_closing [OF this accepted(5)] accepted(6) show ?thesis by (simp add: closing_def terminal_def)
qed

lemma apply_closing: "\<not> terminal c \<Longrightarrow> closing (control_apply jl c call)"
  by (cases call) (simp_all add: owner_calls_closing receive_closing)

lemma apply_terminal:
  assumes "terminal c"
  shows "\<exists>valid. control_apply jl c call = (Inr (empty_output\<lparr>so_valid := valid\<rparr>), c)"
proof -
  from assms have p: "sc_phase c = Ended \<or> sc_phase c = Failed" by (simp add: terminal_def)
  have "\<exists>valid. empty_output = empty_output\<lparr>so_valid := valid\<rparr>" by (rule exI [of _ True]) (simp add: empty_output_def)
  then show ?thesis
    by (cases call; use p failed_cases(1) [OF assms] in
        \<open>auto simp: control_begin_def request_clock_def control_pause_def control_resume_def control_end_def
          protocol_error_def control_receive_def channel_closed_def active_phase_def\<close>)
qed

fun control_results :: "json_library \<Rightarrow> sender_control \<Rightarrow> control_call list \<Rightarrow> (exn + sender_control_output) list" where
  "control_results jl c [] = []"
| "control_results jl c (call # calls) =
     fst (control_apply jl c call) # control_results jl (snd (control_apply jl c call)) calls"

abbreviation control_run :: "json_library \<Rightarrow> sender_control \<Rightarrow> control_call list \<Rightarrow> sender_control" where
  "control_run jl \<equiv> foldl (\<lambda>c call. snd (control_apply jl c call))"

definition closes :: "exn + sender_control_output \<Rightarrow> bool" where
  "closes r = (case r of Inl _ \<Rightarrow> False | Inr out \<Rightarrow> so_close_channel out)"

definition silent :: "exn + sender_control_output \<Rightarrow> bool" where
  "silent r = (case r of Inl _ \<Rightarrow> False
     | Inr out \<Rightarrow> \<not> so_close_channel out \<and> so_outbound_messages out = [] \<and> so_events out = [])"

interpretation control_end: latched_machine "\<lambda>c call. snd (control_apply jl c call)" "\<lambda>_. True" "\<lambda>c. terminal c \<and> c = c0"
proof
  fix s call assume "terminal s \<and> s = c0"
  with apply_terminal [of s jl call] show "terminal (snd (control_apply jl s call)) \<and> snd (control_apply jl s call) = c0"
    by auto
qed simp

lemma terminal_results: "terminal c \<Longrightarrow> list_all silent (control_results jl c calls)"
proof (induction calls arbitrary: c)
  case (Cons call calls)
  with apply_terminal [of c jl call] show ?case by (auto simp: silent_def empty_output_def)
qed simp

lemma silent_not_closes: "silent r \<Longrightarrow> \<not> closes r"
  by (auto simp: silent_def closes_def split: sum.splits)

lemma closes_count:
  "\<not> terminal c \<Longrightarrow> length (filter closes (control_results jl c calls)) = (if terminal (control_run jl c calls) then 1 else 0)"
proof (induction calls arbitrary: c)
  case (Cons call calls)
  let ?r = "control_apply jl c call"
  have cl: "closing ?r" by (rule apply_closing [OF Cons.prems])
  show ?case
  proof (cases "terminal (snd ?r)")
    case True
    have "filter closes (control_results jl (snd ?r) calls) = []"
      using terminal_results [OF True, of jl calls] silent_not_closes by (auto simp: filter_empty_conv list_all_iff)
    moreover have "terminal (control_run jl (snd ?r) calls)"
      using control_end.run_latched [of "snd ?r" "snd ?r" jl calls] True by simp
    moreover have "closes (fst ?r)" using cl True by (auto simp: closing_def closes_def split: sum.splits)
    ultimately show ?thesis by simp
  next
    case False
    then have "\<not> closes (fst ?r)" using cl by (auto simp: closing_def closes_def split: sum.splits)
    with Cons.IH [OF False] show ?thesis by simp
  qed
qed simp

text \<open>C33 (safety). Over any sequence of calls and any input, the channel is told to close exactly
  once, by the call that ends or fails the session, and not before. From then on nothing changes:
  every later call returns normally, sends nothing, reports nothing and leaves the state alone.\<close>

theorem control_channel_closes_once:
  assumes "make_control session_id = Inr c0" "c = control_run jl c0 calls"
  shows "length (filter closes (control_results jl c0 calls)) = (if terminal c then 1 else 0) \<and>
    (terminal c \<longrightarrow> control_run jl c later = c \<and> list_all silent (control_results jl c later))"
proof -
  have "\<not> terminal c0" using assms(1) by (auto simp: make_control_def terminal_def split: if_splits)
  from closes_count [OF this] assms(2) show ?thesis
    using control_end.run_latched [of c c jl later] terminal_results [of c jl later] by simp
qed

definition sample_control :: sender_control where
  "sample_control = (case make_control ''ABCDEFGHIJKLMNOPQRSTUV'' of Inr c \<Rightarrow> c)"

definition sample_library :: json_library where
  "sample_library = \<lparr>jl_parse = (\<lambda>_. ([], Some (J_object []))), jl_dump = (\<lambda>_. ''{}'')\<rparr>"

lemma make_sample: "make_control ''ABCDEFGHIJKLMNOPQRSTUV'' = Inr sample_control"
  by (simp add: sample_control_def make_control_def matches_session_def session_character_def)

theorem control_channel_closes_once_witness:
  "let c = control_run sample_library sample_control [Begin 1, Begin 1, Pause 1] in
   terminal c \<and> length (filter closes (control_results sample_library sample_control [Begin 1, Begin 1, Pause 1])) = 1 \<and>
   control_run sample_library c [Request_clock (Fin 0)] = c"
proof -
  have t: "terminal (control_run sample_library sample_control [Begin 1, Begin 1, Pause 1])" by code_simp
  show ?thesis
    using control_channel_closes_once [OF make_sample refl, of sample_library "[Begin 1, Begin 1, Pause 1]" "[Request_clock (Fin 0)]"] t
    by (simp only: Let_def if_True simp_thms)
qed

end
