(* ===== verification/Control_Session.thy ===== *)
theory Control_Session
  imports Control_Safety "HOL-Library.Multiset"
begin

text \<open>
  The state of the control protocol over a session: its invariant, the handshake its phases follow,
  the bookkeeping of clock requests and the rate limit on what the receiver sends.
\<close>

section \<open>The invariant\<close>

definition awaiting :: "sender_control_phase \<Rightarrow> bool" where
  "awaiting phase \<longleftrightarrow> phase = Pause_pending \<or> phase = Resume_pending \<or> phase = End_pending"

definition numbered :: "sender_control \<Rightarrow> bool" where
  "numbered c \<longleftrightarrow>
     sc_send_sequence c \<le> kMaximumSafeInteger \<and> sc_receive_sequence c \<le> kMaximumSafeInteger \<and>
     sc_received_control_messages c = sc_receive_sequence c \<and>
     (sc_phase c = Idle \<longrightarrow> sc_send_sequence c = 0 \<and> sc_receive_sequence c = 0 \<and> sc_media_epoch c = 0) \<and>
     (active_phase (sc_phase c) \<longrightarrow> 0 < sc_media_epoch c) \<and> sc_media_epoch c \<le> kMaximumSafeInteger"

definition acknowledgeable :: "sender_control \<Rightarrow> bool" where
  "acknowledgeable c \<longleftrightarrow>
     (sc_pending_transition_sequence c = None \<longleftrightarrow> \<not> awaiting (sc_phase c)) \<and>
     (\<forall>n \<in> set_option (sc_pending_transition_sequence c). 0 < n \<and> n \<le> sc_send_sequence c)"

definition requests_ok :: "sender_control \<Rightarrow> bool" where
  "requests_ok c \<longleftrightarrow>
     distinct (map fst (sc_outstanding_clock_requests c)) \<and>
     list_all (\<lambda>(n, t). 0 < n \<and> n \<le> sc_send_sequence c \<and> time_in_range t) (sc_outstanding_clock_requests c) \<and>
     length (sc_outstanding_clock_requests c) \<le> kMaximumOutstandingClockRequests \<and>
     (terminal c \<longrightarrow> sc_outstanding_clock_requests c = [])"

definition control_ok :: "sender_control \<Rightarrow> bool" where
  "control_ok c \<longleftrightarrow> numbered c \<and> acknowledgeable c \<and> requests_ok c"

lemma make_control_ok: "make_control session_id = Inr c \<Longrightarrow> control_ok c"
  by (auto simp: make_control_def control_ok_def numbered_def acknowledgeable_def awaiting_def requests_ok_def
      kMaximumSafeInteger_def active_phase_def split: if_splits)

lemma failed_control_ok:
  assumes "control_ok c"
  shows "control_ok (snd (failed c reason))"
proof (cases "terminal c")
  case True
  with assms show ?thesis by (simp add: failed_cases(1))
next
  case False
  with assms show ?thesis
    by (simp add: failed_cases(2))
      (auto simp: control_ok_def numbered_def acknowledgeable_def awaiting_def requests_ok_def clear_pending_def active_phase_def)
qed

text \<open>The four ways a send can end.\<close>

abbreviation bumped :: "sender_control \<Rightarrow> sender_control" where
  "bumped c \<equiv> c\<lparr>sc_send_sequence := sc_send_sequence c + 1\<rparr>"

lemma send_rule:
  assumes "\<not> terminal c"
    and "\<And>reason. P (failed c reason)"
    and "\<And>reason. sc_send_sequence c < kMaximumSafeInteger \<Longrightarrow> P (failed (bumped c) reason)"
    and "\<And>e. sc_send_sequence c < kMaximumSafeInteger \<Longrightarrow> P (Inl e, bumped c)"
    and "\<And>encoded. sc_send_sequence c < kMaximumSafeInteger \<Longrightarrow>
          P (k (empty_output\<lparr>so_outbound_messages := [encoded]\<rparr>) (bumped c))"
  shows "P (send_message jl c type entries k)"
using assms(1) proof (cases rule: send_message_cases [of c jl type entries k])
  case (stopped c1 reason)
  with assms(2,3) show ?thesis by auto
next
  case (thrown e)
  with assms(4) show ?thesis by simp
next
  case (sent encoded draft)
  with assms(5) show ?thesis by simp
qed

lemma next_number: "n < kMaximumSafeInteger \<Longrightarrow> n < n + 1 \<and> n + 1 \<le> kMaximumSafeInteger"
  for n :: u64
proof -
  assume n: "n < kMaximumSafeInteger"
  then have "n \<noteq> - 1" by (auto simp: kMaximumSafeInteger_def)
  from less_inc_u64 [OF this] inc_le [OF n] show ?thesis by simp
qed

lemma bumped_control_ok:
  assumes "control_ok c" "sc_phase c \<noteq> Idle" "sc_send_sequence c < kMaximumSafeInteger"
  shows "control_ok (bumped c)"
proof -
  note up = next_number [OF assms(3)]
  then have step: "n \<le> sc_send_sequence c \<Longrightarrow> n \<le> sc_send_sequence c + 1" for n by (metis order.trans less_imp_le)
  have "numbered (bumped c)" using assms up by (auto simp: control_ok_def numbered_def)
  moreover have "acknowledgeable (bumped c)"
    using assms(1) step by (auto simp: control_ok_def acknowledgeable_def)
  moreover have "requests_ok (bumped c)"
    using assms(1) step by (auto simp: control_ok_def requests_ok_def list_all_iff terminal_def)
  ultimately show ?thesis by (simp add: control_ok_def)
qed

lemma send_ok:
  assumes "\<not> terminal c" "control_ok c" "sc_phase c \<noteq> Idle"
    and "\<And>out. \<lbrakk>control_ok (bumped c); sc_send_sequence c < kMaximumSafeInteger\<rbrakk> \<Longrightarrow> control_ok (snd (k out (bumped c)))"
  shows "control_ok (snd (send_message jl c type entries k))"
  by (rule send_rule) (use assms bumped_control_ok failed_control_ok in auto)

lemma pending_ok:
  assumes "control_ok (bumped c)" "sc_send_sequence c < kMaximumSafeInteger" "awaiting p"
    "active_phase (sc_phase c)"
  shows "control_ok ((bumped c)\<lparr>sc_pending_transition_sequence := Some (sc_send_sequence c + 1), sc_phase := p, sc_reason := r\<rparr>)"
proof -
  have "0 < sc_send_sequence c + 1" using next_number [OF assms(2)] by (metis word_not_simps(1) word_greater_zero_iff)
  with assms show ?thesis
    by (auto simp: control_ok_def numbered_def acknowledgeable_def requests_ok_def terminal_def awaiting_def active_phase_def)
qed

lemma store_request_new:
  "k \<notin> fst ` set reqs \<Longrightarrow> store_request k v reqs = reqs @ [(k, v)]"
  by (induction reqs) auto

lemma fresh_request:
  assumes "requests_ok c" "sc_send_sequence c < kMaximumSafeInteger"
  shows "store_request (sc_send_sequence c + 1) t (sc_outstanding_clock_requests c) =
         sc_outstanding_clock_requests c @ [(sc_send_sequence c + 1, t)]"
proof (rule store_request_new)
  have "n \<noteq> sc_send_sequence c + 1" if "n \<le> sc_send_sequence c" for n
    using that next_number [OF assms(2)] by auto
  with assms(1) show "sc_send_sequence c + 1 \<notin> fst ` set (sc_outstanding_clock_requests c)"
    by (fastforce simp: requests_ok_def list_all_iff)
qed

lemma range_of_guard:
  "\<not> (\<not> d_isfinite t \<or> d_less t (Fin 0) \<or> d_less (d_of_u64 kMaximumSafeInteger) t) \<longleftrightarrow> time_in_range t"
proof -
  obtain m where "d_of_u64 kMaximumSafeInteger = Fin m"
    using d_of_nat_finite [OF unat_lt_u64, of kMaximumSafeInteger] by (auto simp: d_of_u64_def)
  then show ?thesis
    by (cases t) (auto simp: time_in_range_def d_isfinite_def d_le_def d_equal_def)
qed

lemma request_stored_ok:
  assumes "control_ok (bumped c)" "control_ok c" "sc_send_sequence c < kMaximumSafeInteger"
    "time_in_range t" "length (sc_outstanding_clock_requests c) < kMaximumOutstandingClockRequests" "\<not> terminal c"
  shows "control_ok ((bumped c)\<lparr>sc_outstanding_clock_requests :=
           store_request (sc_send_sequence c + 1) t (sc_outstanding_clock_requests c),
         sc_last_clock_request_ms := u, sc_clock_requests_sent := n\<rparr>)"
proof -
  note up = next_number [OF assms(3)]
  then have pos: "0 < sc_send_sequence c + 1" by (metis word_not_simps(1) word_greater_zero_iff)
  have r: "requests_ok c" using assms(2) by (simp add: control_ok_def)
  have new: "sc_send_sequence c + 1 \<notin> fst ` set (sc_outstanding_clock_requests c)"
    using r up by (fastforce simp: requests_ok_def list_all_iff)
  show ?thesis
    using assms(1,4-6) pos new fresh_request [OF r assms(3), of t]
    by (auto simp: control_ok_def numbered_def acknowledgeable_def requests_ok_def terminal_def)
qed

lemma active_nonterminal: "active_phase (sc_phase c) \<Longrightarrow> \<not> terminal c \<and> sc_phase c \<noteq> Idle"
  by (auto simp: active_phase_def terminal_def)

lemma begin_ok: "control_ok c \<Longrightarrow> control_ok (snd (control_begin jl c m))"
  unfolding control_begin_def
  by (auto intro!: failed_control_ok send_ok
      simp: control_ok_def [of "_\<lparr>sc_media_epoch := _, sc_phase := _, sc_reason := _\<rparr>"])
    (auto simp: control_ok_def numbered_def acknowledgeable_def requests_ok_def terminal_def awaiting_def
      active_phase_def word_neq_0_conv not_less kMaximumSafeInteger_def)

lemma request_ok: "control_ok c \<Longrightarrow> control_ok (snd (request_clock jl c t))"
  unfolding request_clock_def using range_of_guard [of t]
  by (auto intro!: failed_control_ok send_ok request_stored_ok simp: terminal_def)

lemma transition_ok:
  assumes "control_ok c"
  shows "control_ok (snd (control_pause jl c m))" "control_ok (snd (control_end jl c m r))"
  using assms unfolding control_pause_def control_end_def
  by (auto intro!: failed_control_ok send_ok pending_ok simp: terminal_def awaiting_def active_phase_def)

lemma resume_ok: "control_ok c \<Longrightarrow> control_ok (snd (control_resume jl c m d))"
  unfolding control_resume_def
proof (auto intro!: failed_control_ok send_ok simp: terminal_def)
  assume a: "\<not> m \<le> sc_media_epoch c" "\<not> m > kMaximumSafeInteger" "sc_phase c = Paused"
    and up: "sc_send_sequence c < kMaximumSafeInteger" and ok: "control_ok (bumped c)"
  have "0 < m" using a(1) by (simp add: not_le order.strict_trans1 [of 0 "sc_media_epoch c"])
  then show "control_ok ((bumped c)\<lparr>sc_media_epoch := m, sc_dependency_epoch := d,
      sc_pending_transition_sequence := Some (sc_send_sequence c + 1), sc_phase := Resume_pending,
      sc_reason := ''CONTROL_RESUME_PENDING''\<rparr>)"
    using pending_ok [OF ok up, of Resume_pending "''CONTROL_RESUME_PENDING''"] a
    by (auto simp: awaiting_def active_phase_def control_ok_def numbered_def acknowledgeable_def requests_ok_def
        terminal_def not_less)
qed

lemma closed_ok:
  assumes "control_ok c"
  shows "control_ok (clear_pending (c\<lparr>sc_phase := Failed, sc_reason := r\<rparr>))"
    "control_ok (clear_pending (c\<lparr>sc_reason := r, sc_phase := Failed\<rparr>))"
  using assms by (auto simp: control_ok_def numbered_def acknowledgeable_def awaiting_def requests_ok_def
      clear_pending_def active_phase_def)

lemma error_ok: "control_ok c \<Longrightarrow> control_ok (snd (protocol_error jl c code))"
  unfolding protocol_error_def
  by (auto intro!: failed_control_ok send_ok closed_ok simp: active_nonterminal active_phase_def)

section \<open>Receiving keeps it\<close>

lemma admit_only_times:
  assumes "admit_receiver_message c t = (b, c')"
  shows "\<exists>u ts. c' = c\<lparr>sc_last_receive_time_ms := u, sc_receiver_message_times := ts\<rparr>"
proof (cases "c' = c")
  case True
  then have "c' = c\<lparr>sc_last_receive_time_ms := sc_last_receive_time_ms c, sc_receiver_message_times := sc_receiver_message_times c\<rparr>"
    by simp
  then show ?thesis by blast
next
  case False
  with assms show ?thesis by (auto simp: admit_receiver_message_def Let_def split: if_splits)
qed

lemma times_ok: "control_ok (c\<lparr>sc_last_receive_time_ms := u, sc_receiver_message_times := ts\<rparr>) = control_ok c"
  by (simp add: control_ok_def numbered_def acknowledgeable_def requests_ok_def terminal_def)

lemma admit_ok: "control_ok c \<Longrightarrow> admit_receiver_message c t = (b, c') \<Longrightarrow> control_ok c'"
  using admit_only_times [of c t b c'] times_ok by auto

text \<open>What an accepted message does to the state, by its type.\<close>

lemma receive_typed_cases:
  assumes "receive_typed c v t = Inr (out, c')"
  obtains (clock) n sent where "map_of (sc_outstanding_clock_requests c) n = Some sent"
      "c' = c\<lparr>sc_outstanding_clock_requests := filter (\<lambda>(k, _). k \<noteq> n) (sc_outstanding_clock_requests c)\<rparr>"
      "map (\<lambda>e. (ev_kind e, ev_request_sequence e, ev_sender_send_time_ms e)) (so_events out) = [(Clock_response, n, sent)]"
      "message_type v = ''CLOCK_RESPONSE''"
  | (stats) s where "c' = c\<lparr>sc_last_stats := Some s\<rparr>" "map ev_kind (so_events out) = [Receiver_stats]" "sc_phase c = Connected"
  | (ack) n p r reqs k where "sc_pending_transition_sequence c = Some n" "integer_at v ''requestSequence'' = n"
      "c' = c\<lparr>sc_phase := p, sc_reason := r, sc_outstanding_clock_requests := reqs, sc_pending_transition_sequence := None\<rparr>"
      "map (\<lambda>e. (ev_kind e, ev_request_sequence e)) (so_events out) = [(k, n)]"
      "(sc_phase c, k, p) \<in> {(Pause_pending, Pause_acknowledged, Paused), (Resume_pending, Resume_acknowledged, Connected)} \<and>
         reqs = sc_outstanding_clock_requests c \<or> (sc_phase c, k, p) = (End_pending, End_acknowledged, Ended) \<and> reqs = []"
  | (error) r where "c' = clear_pending (c\<lparr>sc_reason := r, sc_phase := Failed\<rparr>)"
      "map ev_kind (so_events out) = [Protocol_error_event]"
proof -
  consider "message_type v = ''CLOCK_RESPONSE''" "receive_clock_response c v t = Inr (out, c')"
    | "receive_stats c v = Inr (out, c')" | "receive_ack c v = Inr (out, c')" | "receive_protocol_error c v = Inr (out, c')"
    using assms by (auto simp: receive_typed_def Let_def split: if_splits)
  then show ?thesis
  proof cases
    case 1
    then show ?thesis
      by (auto simp: receive_clock_response_def Let_def split: if_splits option.splits intro!: that(1))
  next
    case 2
    then show ?thesis
      by (auto simp: receive_stats_def Let_def new_event_def split: if_splits option.splits intro!: that(2))
  next
    case 3
    then show ?thesis
      by (auto simp: receive_ack_def Let_def new_event_def split: if_splits option.splits intro!: that(3))
  next
    case 4
    then show ?thesis
      by (auto simp: receive_protocol_error_def Let_def new_event_def split: if_splits intro!: that(4))
  qed
qed

lemma answered_ok:
  assumes "control_ok c"
  shows "control_ok (c\<lparr>sc_outstanding_clock_requests := filter (\<lambda>(k, _). k \<noteq> n) (sc_outstanding_clock_requests c)\<rparr>)"
    (is "control_ok ?c")
proof -
  have "length (filter (\<lambda>(k, _). k \<noteq> n) (sc_outstanding_clock_requests c)) \<le> kMaximumOutstandingClockRequests"
    using assms by (intro order.trans [OF length_filter_le]) (simp add: control_ok_def requests_ok_def)
  then have "requests_ok ?c"
    using assms by (auto simp: control_ok_def requests_ok_def terminal_def list_all_iff intro!: distinct_map_filter)
  moreover have "numbered ?c" "acknowledgeable ?c"
    using assms by (simp_all add: control_ok_def numbered_def acknowledgeable_def)
  ultimately show ?thesis by (simp add: control_ok_def)
qed

lemma acknowledged_ok:
  assumes "control_ok c" "active_phase (sc_phase c)"
    and "p \<in> {Paused, Connected} \<and> reqs = sc_outstanding_clock_requests c \<or> p = Ended \<and> reqs = []"
  shows "control_ok (c\<lparr>sc_phase := p, sc_reason := r, sc_outstanding_clock_requests := reqs,
           sc_pending_transition_sequence := None\<rparr>)" (is "control_ok ?c")
proof -
  have "numbered ?c" using assms by (auto simp: control_ok_def numbered_def)
  moreover have "acknowledgeable ?c" using assms(3) by (auto simp: acknowledgeable_def awaiting_def)
  moreover have "requests_ok ?c" using assms(1,3) by (auto simp: control_ok_def requests_ok_def terminal_def)
  ultimately show ?thesis by (simp add: control_ok_def)
qed

lemma received_ok:
  assumes "control_ok c" "sc_phase c \<noteq> Idle" "sc_receive_sequence c < kMaximumSafeInteger"
  shows "control_ok (c\<lparr>sc_receive_sequence := sc_receive_sequence c + 1,
           sc_received_control_messages := sc_received_control_messages c + 1\<rparr>)"
  using assms next_number [OF assms(3)]
  by (auto simp: control_ok_def numbered_def acknowledgeable_def requests_ok_def terminal_def)

lemma receive_typed_ok:
  assumes "control_ok c" "active_phase (sc_phase c)" "receive_typed c v t = Inr (out, c')"
  shows "control_ok c'" "sc_phase c' \<noteq> Idle" "sc_receive_sequence c' = sc_receive_sequence c"
proof -
  have "control_ok c' \<and> sc_phase c' \<noteq> Idle \<and> sc_receive_sequence c' = sc_receive_sequence c"
  using assms(3) proof (cases rule: receive_typed_cases)
    case (clock n sent)
    with assms answered_ok show ?thesis by (auto simp: active_phase_def)
  next
    case (stats s)
    with assms show ?thesis
      by (auto simp: control_ok_def numbered_def acknowledgeable_def requests_ok_def terminal_def)
  next
    case (ack n p r reqs k)
    with assms acknowledged_ok [OF assms(1,2), of p reqs r] show ?thesis by auto
  next
    case (error r)
    with closed_ok(2) [OF assms(1)] show ?thesis by (simp add: clear_pending_def)
  qed
  then show "control_ok c'" "sc_phase c' \<noteq> Idle" "sc_receive_sequence c' = sc_receive_sequence c" by blast+
qed

lemma envelope_number:
  assumes "envelope_valid c v" "numbered c"
  shows "sc_receive_sequence c < kMaximumSafeInteger"
proof -
  have n: "0 < sc_receive_sequence c + 1 \<and> sc_receive_sequence c + 1 \<le> kMaximumSafeInteger"
    using assms(1) by (auto simp: envelope_valid_def has_safe_integer_def integer_at_def valid_safe_integer_def
        safe_integer_def word_greater_zero_iff split: option.splits json.splits)
  then have "sc_receive_sequence c \<noteq> - 1" by auto
  with less_inc_u64 [of "sc_receive_sequence c"] n show ?thesis by (meson order.strict_trans2)
qed

lemma receive_ok:
  assumes "control_ok c"
  shows "control_ok (snd (control_receive jl c encoded t))"
proof (cases rule: receive_cases [of jl c encoded t])
  case (inactive reason)
  with assms failed_control_ok show ?thesis by simp
next
  case (refused b c1 reason)
  with admit_ok [OF assms] failed_control_ok show ?thesis by simp
next
  case (accepted c1 v out c2)
  have c1: "control_ok c1" "active_phase (sc_phase c1)"
    using admit_ok [OF assms accepted(2)] admit_frame(1) [OF accepted(2)] accepted(1) by simp_all
  note r = receive_typed_ok [OF c1 accepted(5)]
  have "sc_receive_sequence c2 < kMaximumSafeInteger"
    using envelope_number [OF accepted(4)] c1(1) r(3) by (simp add: control_ok_def)
  from received_ok [OF r(1,2) this] accepted(6) show ?thesis by simp
qed

lemma apply_ok: "control_ok c \<Longrightarrow> control_ok (snd (control_apply jl c call))"
  by (cases call) (simp_all add: begin_ok request_ok transition_ok resume_ok error_ok receive_ok channel_closed_def failed_control_ok)

interpretation control_state: safe_machine "\<lambda>c call. snd (control_apply jl c call)" control_ok
  by unfold_locales (rule apply_ok)

text \<open>Whatever the owner calls and the receiver sends, the session state stays
  consistent: sequence numbers never pass the largest safe integer, the count of received messages is
  the last accepted sequence number, an acknowledgement is awaited exactly in the three pending
  phases and for a number already sent, at most eight clock requests with distinct sent numbers and
  valid times are outstanding, and none once the session is over.\<close>

lemma control_state_consistent:
  assumes "make_control session_id = Inr c0"
  shows "control_ok (control_run jl c0 calls)"
  using control_state.run_inv [OF make_control_ok [OF assms]] by blast

lemma control_state_consistent_witness:
  "control_ok (control_run sample_library sample_control [Begin 1, Request_clock (Fin 5), Pause 1])"
  by (rule control_state_consistent [OF make_sample])

section \<open>The handshake\<close>

text \<open>What a session promises: its phase, the media epoch, the number of the last message sent and the
  awaited number, with the message a step sends and the acknowledgements it reports. Each message
  carries the number after the last one; a number is burnt when its text cannot be made. A transition
  waits for exactly the number of the message that announced it and moves on only with an
  acknowledgement of that number, and a resumed session has a later epoch.\<close>

type_synonym handshake_state = "sender_control_phase \<times> u64 \<times> u64 \<times> u64 option"

inductive handshake ::
  "handshake_state \<Rightarrow> (string \<times> u64) option \<Rightarrow> (receiver_control_event_kind \<times> u64) list \<Rightarrow> handshake_state \<Rightarrow> bool" where
  stay: "handshake s None [] s"
| burn: "active_phase p \<Longrightarrow> n < kMaximumSafeInteger \<Longrightarrow> handshake (p, m, n, w) None [] (p, m, n + 1, w)"
| connect: "0 < m \<Longrightarrow> n < kMaximumSafeInteger \<Longrightarrow> msg = Some (''HELLO'', n + 1) \<or> msg = None \<Longrightarrow>
    handshake (Idle, e, n, None) msg [] (Connected, m, n + 1, None)"
| clock: "n < kMaximumSafeInteger \<Longrightarrow>
    handshake (Connected, m, n, None) (Some (''CLOCK_REQUEST'', n + 1)) [] (Connected, m, n + 1, None)"
| pause: "n < kMaximumSafeInteger \<Longrightarrow>
    handshake (Connected, m, n, None) (Some (''SESSION_PAUSED'', n + 1)) [] (Pause_pending, m, n + 1, Some (n + 1))"
| paused: "handshake (Pause_pending, m, n, Some k) None [(Pause_acknowledged, k)] (Paused, m, n, None)"
| resume: "m < m' \<Longrightarrow> n < kMaximumSafeInteger \<Longrightarrow>
    handshake (Paused, m, n, None) (Some (''SESSION_RESUMED'', n + 1)) [] (Resume_pending, m', n + 1, Some (n + 1))"
| resumed: "handshake (Resume_pending, m, n, Some k) None [(Resume_acknowledged, k)] (Connected, m, n, None)"
| ending: "active_phase p \<Longrightarrow> n < kMaximumSafeInteger \<Longrightarrow>
    handshake (p, m, n, w) (Some (''SESSION_ENDED'', n + 1)) [] (End_pending, m, n + 1, Some (n + 1))"
| ended: "handshake (End_pending, m, n, Some k) None [(End_acknowledged, k)] (Ended, m, n, None)"
| abort: "active_phase p \<Longrightarrow> n < kMaximumSafeInteger \<Longrightarrow>
    handshake (p, m, n, w) (Some (''PROTOCOL_ERROR'', n + 1)) [] (Failed, m, n + 1, None)"
| failing: "p \<noteq> Ended \<Longrightarrow> p \<noteq> Failed \<Longrightarrow> m' = m \<or> p = Idle \<and> m < m' \<Longrightarrow>
    n' = n \<or> n < kMaximumSafeInteger \<and> n' = n + 1 \<Longrightarrow> handshake (p, m, n, w) None [] (Failed, m', n', None)"

definition control_abs :: "sender_control \<Rightarrow> handshake_state" where
  "control_abs c = (sc_phase c, sc_media_epoch c, sc_send_sequence c, sc_pending_transition_sequence c)"

definition acknowledges :: "receiver_control_event_kind \<Rightarrow> bool" where
  "acknowledges k \<longleftrightarrow> k = Pause_acknowledged \<or> k = Resume_acknowledged \<or> k = End_acknowledged"

definition acknowledgements :: "exn + sender_control_output \<Rightarrow> (receiver_control_event_kind \<times> u64) list" where
  "acknowledgements r =
     (case r of Inl _ \<Rightarrow> []
      | Inr out \<Rightarrow> filter (\<lambda>(k, _). acknowledges k) (map (\<lambda>e. (ev_kind e, ev_request_sequence e)) (so_events out)))"

lemma acknowledgements_simps [simp]:
  "acknowledgements (Inl e) = []"
  "so_events out = [] \<Longrightarrow> acknowledgements (Inr out) = []"
  by (simp_all add: acknowledgements_def)

text \<open>The text of a message: the common keys with the type and number are serialized and parsed
  back, the keys of the type are set and the result is serialized.\<close>

definition message_text :: "json_library \<Rightarrow> string \<Rightarrow> string \<times> u64 \<Rightarrow> (string \<times> json) list \<Rightarrow> string option" where
  "message_text jl session_id message entries =
     map_option (\<lambda>decoded. jl_dump jl (foldl (\<lambda>j (k, v). json_set k v j) decoded entries))
       (snd (jl_parse jl (jl_dump jl (J_object
         [(''protocolVersion'', J_string kControlProtocol), (''sequence'', J_unsigned (snd message)),
          (''sessionId'', J_string session_id), (''type'', J_string (fst message))]))))"

definition outbound :: "exn + sender_control_output \<Rightarrow> string list" where
  "outbound r = (case r of Inl _ \<Rightarrow> [] | Inr out \<Rightarrow> so_outbound_messages out)"

definition envelope_keys :: "string set" where
  "envelope_keys = {''protocolVersion'', ''sequence'', ''sessionId'', ''type''}"

text \<open>The texts a call hands to the owner are none, or the one of the message sent, with entries that leave
  the common keys alone.\<close>

definition sends :: "json_library \<Rightarrow> string \<Rightarrow> (string \<times> u64) option \<Rightarrow> string list \<Rightarrow> bool" where
  "sends jl session_id msg texts \<longleftrightarrow>
     (case msg of
        None \<Rightarrow> texts = []
      | Some message \<Rightarrow>
          (\<exists>entries encoded. texts = [encoded] \<and> message_text jl session_id message entries = Some encoded \<and>
             fst ` set entries \<inter> envelope_keys = {}))"

lemma outbound_simps [simp]: "outbound (Inl e) = []" "outbound (Inr out) = so_outbound_messages out"
  by (simp_all add: outbound_def)

lemma sends_None [simp]: "sends jl sid None texts \<longleftrightarrow> texts = []"
  by (simp add: sends_def)

text \<open>With a library whose parser inverts its writer, such a text really is a message of that number,
  type and session.\<close>

lemma find_update_other: "k' \<noteq> k \<Longrightarrow> map_of (update_entry k x entries) k' = map_of entries k'"
  by (induction k x entries rule: update_entry.induct) auto

lemma json_find_set_other:
  "k' \<noteq> k \<Longrightarrow> json_find (json_set k x v) k' = json_find v k'"
  by (cases v) (simp_all add: find_update_other)

lemma message_carries_number:
  assumes "\<And>v. snd (jl_parse jl (jl_dump jl v)) = Some v" "message_text jl sid (type, n) entries = Some encoded"
    "fst ` set entries \<inter> envelope_keys = {}"
  shows "\<exists>v. snd (jl_parse jl encoded) = Some v \<and> json_find v ''sequence'' = Some (J_unsigned n) \<and>
    json_find v ''type'' = Some (J_string type) \<and> json_find v ''sessionId'' = Some (J_string sid)"
proof -
  have keep: "json_find (foldl (\<lambda>j (k, v). json_set k v j) v entries) k = json_find v k"
    if "fst ` set entries \<inter> envelope_keys = {}" "k \<in> envelope_keys" for k v
    using that(1)
  proof (induction entries arbitrary: v)
    case (Cons e entries)
    with that(2) have "k \<noteq> fst e" by auto
    with Cons show ?case by (simp add: split_beta json_find_set_other)
  qed simp
  let ?v = "J_object [(''protocolVersion'', J_string kControlProtocol), (''sequence'', J_unsigned n),
      (''sessionId'', J_string sid), (''type'', J_string type)]"
  have "encoded = jl_dump jl (foldl (\<lambda>j (k, v). json_set k v j) ?v entries)"
    using assms(1,2) by (auto simp: message_text_def)
  then show ?thesis
    using assms(1) keep [OF assms(3), of _ ?v] by (simp add: envelope_keys_def)
qed

abbreviation follows :: "json_library \<Rightarrow> sender_control \<Rightarrow> handshake_state \<Rightarrow> control_result \<Rightarrow> bool" where
  "follows jl c s r \<equiv>
     \<exists>msg. handshake s msg (acknowledgements (fst r)) (control_abs (snd r)) \<and> sends jl (sc_session_id c) msg (outbound (fst r))"

lemma silent_follows:
  "handshake s None (acknowledgements (fst r)) (control_abs (snd r)) \<Longrightarrow> outbound (fst r) = [] \<Longrightarrow> follows jl c s r"
  by (intro exI [of _ None]) simp

text \<open>How a state may fail: it stands for \<open>s\<close> itself, or \<open>s\<close> is not over and only a number was
  burnt or a first epoch set.\<close>

definition fails_from :: "handshake_state \<Rightarrow> sender_control \<Rightarrow> bool" where
  "fails_from s c \<longleftrightarrow>
     control_abs c = s \<or>
     (case s of (p, m, n, w) \<Rightarrow>
        \<not> terminal c \<and> p \<noteq> Ended \<and> p \<noteq> Failed \<and> (sc_media_epoch c = m \<or> p = Idle \<and> m < sc_media_epoch c) \<and>
        (sc_send_sequence c = n \<or> n < kMaximumSafeInteger \<and> sc_send_sequence c = n + 1))"

lemma failed_follows:
  assumes "fails_from s c"
  shows "follows jl c0 s (failed c reason)"
proof (rule silent_follows)
  obtain p m n w where s: "s = (p, m, n, w)" by (cases s)
  show "handshake s None (acknowledgements (fst (failed c reason))) (control_abs (snd (failed c reason)))"
  proof (cases "terminal c")
    case True
    with assms have "control_abs c = s" by (auto simp: fails_from_def)
    with True show ?thesis by (simp add: failed_cases(1) empty_output_def handshake.stay)
  next
    case False
    with assms s have "p \<noteq> Ended" "p \<noteq> Failed" "sc_media_epoch c = m \<or> p = Idle \<and> m < sc_media_epoch c"
      "sc_send_sequence c = n \<or> n < kMaximumSafeInteger \<and> sc_send_sequence c = n + 1"
      by (auto simp: terminal_def fails_from_def control_abs_def)
    with False s show ?thesis
      by (simp add: failed_cases(2) acknowledgements_def new_event_def acknowledges_def control_abs_def clear_pending_def
          handshake.failing)
  qed
  show "outbound (fst (failed c reason)) = []" by (cases "terminal c") (simp_all add: failed_cases empty_output_def)
qed

lemma failed_here: "follows jl c0 (control_abs c) (failed c reason)"
  by (rule failed_follows) (simp add: fails_from_def)

lemma extended_text:
  assumes "draft = jl_dump jl (J_object [(''protocolVersion'', J_string kControlProtocol), (''sequence'', J_unsigned n),
      (''sessionId'', J_string sid), (''type'', J_string type)])"
    and "extend_message jl entries (empty_output\<lparr>so_outbound_messages := [draft]\<rparr>) =
      Inr (empty_output\<lparr>so_outbound_messages := [encoded]\<rparr>)"
  shows "message_text jl sid (type, n) entries = Some encoded"
  using assms by (auto simp: message_text_def extend_message_def serialize_def empty_output_def Let_def
      split: option.splits sum.splits if_splits)

lemma send_follows:
  assumes "\<not> terminal c" "fails_from s c" "fst ` set entries \<inter> envelope_keys = {}" "sc_session_id c = sc_session_id c0"
    and burnt: "sc_send_sequence c < kMaximumSafeInteger \<Longrightarrow> fails_from s (bumped c) \<and> handshake s None [] (control_abs (bumped c))"
    and sent: "\<And>encoded. sc_send_sequence c < kMaximumSafeInteger \<Longrightarrow>
      (let r = k (empty_output\<lparr>so_outbound_messages := [encoded]\<rparr>) (bumped c) in
       handshake s (Some (type, sc_send_sequence c + 1)) (acknowledgements (fst r)) (control_abs (snd r)) \<and>
       outbound (fst r) = [encoded])"
  shows "follows jl c0 s (send_message jl c type entries k)"
using assms(1) proof (cases rule: send_message_cases [of c jl type entries k])
  case (stopped c1 reason)
  with assms(2) burnt show ?thesis by (auto intro!: failed_follows)
next
  case (thrown e)
  with burnt show ?thesis by (intro silent_follows) simp_all
next
  case (sent encoded draft)
  from extended_text [OF sent(2,3)] assms(3,4)
  have "sends jl (sc_session_id c0) (Some (type, sc_send_sequence c + 1)) [encoded]"
    by (auto simp: sends_def)
  with assms(6) [OF sent(1), of encoded] sent(4) show ?thesis
    by (intro exI [of _ "Some (type, sc_send_sequence c + 1)"]) (simp add: Let_def)
qed

lemma begin_follows:
  assumes "control_ok c"
  shows "follows jl c (control_abs c) (control_begin jl c m)"
proof (cases "sc_phase c \<noteq> Idle \<or> m = 0 \<or> m > kMaximumSafeInteger")
  case True
  then have "control_begin jl c m = failed c ''CONTROL_BEGIN_INVALID''" by (auto simp: control_begin_def)
  then show ?thesis by (simp only: failed_here)
next
  case False
  let ?c = "c\<lparr>sc_media_epoch := m, sc_phase := Connected, sc_reason := ''CONTROL_CONNECTED''\<rparr>"
  have m: "0 < m" using False by (simp add: word_neq_0_conv)
  have abs: "control_abs c = (Idle, 0, 0, None)"
    using assms False by (auto simp: control_ok_def acknowledgeable_def awaiting_def numbered_def control_abs_def)
  have n: "sc_send_sequence c = 0" using abs by (simp add: control_abs_def)
  have up: "(0 :: u64) < kMaximumSafeInteger" by (simp add: kMaximumSafeInteger_def)
  have "handshake (control_abs c) msg [] (control_abs (bumped ?c))" if "msg = Some (''HELLO'', 1) \<or> msg = None" for msg
    using handshake.connect [OF m up, of msg 0] that abs by (simp add: control_abs_def)
  then have "follows jl c (control_abs c) (send_message jl ?c ''HELLO'' [(''mediaEpoch'', J_unsigned m)] (\<lambda>output c. (Inr output, c)))"
    using m up abs n by (intro send_follows)
      (auto simp: terminal_def empty_output_def fails_from_def envelope_keys_def Let_def control_abs_def)
  with False show ?thesis by (simp add: control_begin_def)
qed

lemma send_here:
  assumes "active_phase (sc_phase c)" "fst ` set entries \<inter> envelope_keys = {}"
    and "\<And>encoded. sc_send_sequence c < kMaximumSafeInteger \<Longrightarrow>
      (let r = k (empty_output\<lparr>so_outbound_messages := [encoded]\<rparr>) (bumped c) in
       handshake (control_abs c) (Some (type, sc_send_sequence c + 1)) (acknowledgements (fst r)) (control_abs (snd r)) \<and>
       outbound (fst r) = [encoded])"
  shows "follows jl c (control_abs c) (send_message jl c type entries k)"
proof (rule send_follows)
  show "\<not> terminal c" using assms(1) by (auto simp: active_phase_def terminal_def)
  then show "sc_send_sequence c < kMaximumSafeInteger \<Longrightarrow>
      fails_from (control_abs c) (bumped c) \<and> handshake (control_abs c) None [] (control_abs (bumped c))"
    using assms(1) by (auto simp: fails_from_def control_abs_def terminal_def intro: handshake.burn)
qed (use assms in \<open>auto simp: fails_from_def\<close>)

lemma owner_follows:
  assumes "control_ok c"
  shows "follows jl c (control_abs c) (request_clock jl c t)" "follows jl c (control_abs c) (control_pause jl c m)"
    "follows jl c (control_abs c) (control_resume jl c m d)" "follows jl c (control_abs c) (control_end jl c m r)"
    "follows jl c (control_abs c) (protocol_error jl c code)" "follows jl c (control_abs c) (channel_closed c)"
proof -
  have none: "\<not> awaiting (sc_phase c) \<Longrightarrow> sc_pending_transition_sequence c = None"
    using assms by (simp add: control_ok_def acknowledgeable_def)
  note shapes = control_abs_def empty_output_def envelope_keys_def Let_def active_phase_def
  have "follows jl c (control_abs c) (Inr empty_output, c)"
    by (rule silent_follows) (simp_all add: empty_output_def handshake.stay)
  then show "follows jl c (control_abs c) (request_clock jl c t)"
    using none unfolding request_clock_def
    by (simp only: split: if_split) (intro conjI impI failed_here send_here,
      auto simp: shapes awaiting_def intro: handshake.clock)
  show "follows jl c (control_abs c) (control_pause jl c m)"
    using none unfolding control_pause_def
    by (simp only: split: if_split) (intro conjI impI failed_here send_here,
      auto simp: shapes awaiting_def intro: handshake.pause)
  show "follows jl c (control_abs c) (control_resume jl c m d)"
    using none unfolding control_resume_def
    by (simp only: split: if_split) (intro conjI impI failed_here send_here,
      auto simp: shapes awaiting_def not_le intro: handshake.resume)
  show "follows jl c (control_abs c) (control_end jl c m r)"
    unfolding control_end_def
    by (simp only: split: if_split) (intro conjI impI failed_here send_here,
      auto simp: shapes intro!: handshake.ending)
  show "follows jl c (control_abs c) (protocol_error jl c code)"
    unfolding protocol_error_def
    by (simp only: split: if_split) (intro conjI impI failed_here send_here,
      auto simp: shapes clear_pending_def acknowledgements_def acknowledges_def new_event_def intro!: handshake.abort)
  show "follows jl c (control_abs c) (channel_closed c)"
    using \<open>follows jl c (control_abs c) (Inr empty_output, c)\<close> failed_here unfolding channel_closed_def by simp
qed

lemma typed_follows:
  assumes "active_phase (sc_phase c)" "receive_typed c v t = Inr (out, c')"
  shows "handshake (control_abs c) None (acknowledgements (Inr out)) (control_abs c')"
using assms(2) proof (cases rule: receive_typed_cases)
  case (clock n sent)
  then show ?thesis by (auto simp: acknowledgements_def acknowledges_def control_abs_def intro: handshake.stay)
next
  case (stats s)
  then show ?thesis by (auto simp: acknowledgements_def acknowledges_def control_abs_def intro: handshake.stay)
next
  case (ack n p r reqs k)
  then show ?thesis
    by (auto simp: acknowledgements_def acknowledges_def control_abs_def intro: handshake.paused handshake.resumed handshake.ended)
next
  case (error r)
  with assms(1) show ?thesis
    by (auto simp: acknowledgements_def acknowledges_def control_abs_def clear_pending_def active_phase_def intro!: handshake.failing)
qed

lemma typed_silent: "receive_typed c v t = Inr (out, c') \<Longrightarrow> so_outbound_messages out = []"
  by (auto simp: receive_typed_def receive_clock_response_def receive_stats_def receive_ack_def
      receive_protocol_error_def empty_output_def Let_def split: if_splits option.splits)

lemma receive_follows: "follows jl c (control_abs c) (control_receive jl c encoded t)"
proof (cases rule: receive_cases [of jl c encoded t])
  case (inactive reason)
  then show ?thesis by (simp only: failed_here)
next
  case (refused b c1 reason)
  then have "control_abs c1 = control_abs c" using admit_frame [OF refused(2)] by (simp add: control_abs_def)
  with refused(3) failed_here [where c = c1] show ?thesis by simp
next
  case (accepted c1 v out c2)
  then have "control_abs c1 = control_abs c" using admit_frame [OF accepted(2)] by (simp add: control_abs_def)
  with typed_follows [OF _ accepted(5)] admit_frame(1) [OF accepted(2)] accepted(1,6) typed_silent [OF accepted(5)]
  show ?thesis by (intro silent_follows) (simp_all add: control_abs_def)
qed

lemma apply_follows: "control_ok c \<Longrightarrow> follows jl c (control_abs c) (control_apply jl c call)"
  by (cases call) (simp_all only: control_apply.simps begin_follows owner_follows receive_follows)

lemma acknowledged_message:
  assumes "control_receive jl c encoded t = (r, c')" "(k, n) \<in> set (acknowledgements r)"
  shows "\<exists>v. strict_parse jl encoded = (False, Some v) \<and> integer_at v ''requestSequence'' = n"
proof (cases rule: receive_cases [of jl c encoded t])
  case (accepted c1 v out c2)
  with assms(1) have r: "r = Inr out" by simp
  from accepted(5) have "integer_at v ''requestSequence'' = n"
  proof (cases rule: receive_typed_cases)
    case (clock n' sent)
    with assms(2) show ?thesis by (auto simp: r acknowledgements_def acknowledges_def)
  next
    case (stats s)
    with assms(2) show ?thesis by (auto simp: r acknowledgements_def acknowledges_def)
  next
    case (ack n' p reason reqs k')
    from ack(4) have "acknowledgements r = filter (\<lambda>(k, _). acknowledges k) [(k', n')]"
      by (simp add: r acknowledgements_def)
    with assms(2) ack(2) show ?thesis by (auto split: if_splits)
  next
    case (error reason)
    with assms(2) show ?thesis by (auto simp: r acknowledgements_def acknowledges_def)
  qed
  with accepted(3) show ?thesis by blast
qed (use assms in \<open>auto simp: failed_def control_fail_def acknowledgements_def acknowledges_def empty_output_def new_event_def
    Let_def split: if_splits\<close>)

text \<open>C3 (refinement). The protocol object implements the handshake: in every state a session can
  reach, every call, with whatever arguments or message, is one step of it. The text it hands out is
  the message of that step, numbered one after the last, and a pause, resume or end waits for
  exactly that number; the acknowledgement events it reports are the ones of the step, and their
  number is the one the received message names. So a transition takes effect only when the
  receiver acknowledges the number of that very message, the media epoch never decreases and
  strictly grows on a resume, and a finished session never moves again.\<close>

theorem control_refines_handshake:
  assumes "make_control session_id = Inr c0" "c = control_run jl c0 calls"
    "control_apply jl c call = (r, c')"
  shows "(\<exists>msg. handshake (control_abs c) msg (acknowledgements r) (control_abs c') \<and>
            sends jl (sc_session_id c) msg (outbound r)) \<and>
    (\<forall>encoded t k n. call = Receive encoded t \<longrightarrow> (k, n) \<in> set (acknowledgements r) \<longrightarrow>
       (\<exists>v. strict_parse jl encoded = (False, Some v) \<and> integer_at v ''requestSequence'' = n))"
proof
  show "\<exists>msg. handshake (control_abs c) msg (acknowledgements r) (control_abs c') \<and>
      sends jl (sc_session_id c) msg (outbound r)"
    using apply_follows [of c jl call] control_state.run_inv [OF make_control_ok [OF assms(1)], of jl calls] assms(2,3) by simp
qed (use assms(3) acknowledged_message in auto)

lemma ending_message:
  "handshake (p, m, 2, w) msg acks (End_pending, 1, 3, Some 3) \<Longrightarrow> p \<noteq> End_pending \<Longrightarrow> msg = Some (''SESSION_ENDED'', 3)"
  by (erule handshake.cases) auto

text \<open>A session that begins, pauses and is ended before the pause is acknowledged: the end is message
  3 and replaces the awaited 2.\<close>

theorem control_refines_handshake_witness:
  "let c = control_run sample_library sample_control [Begin 1, Pause 1];
       (r, c') = control_apply sample_library c (End_session 1 ''STOPPED'') in
   control_abs c = (Pause_pending, 1, 2, Some 2) \<and> control_abs c' = (End_pending, 1, 3, Some 3) \<and>
   handshake (control_abs c) (Some (''SESSION_ENDED'', 3)) (acknowledgements r) (control_abs c') \<and>
   sends sample_library (sc_session_id c) (Some (''SESSION_ENDED'', 3)) (outbound r)"
proof -
  let ?c = "control_run sample_library sample_control [Begin 1, Pause 1]"
  let ?r = "control_apply sample_library ?c (End_session 1 ''STOPPED'')"
  have abs: "control_abs ?c = (Pause_pending, 1, 2, Some 2)" "control_abs (snd ?r) = (End_pending, 1, 3, Some 3)"
    by code_simp+
  obtain msg where msg: "handshake (control_abs ?c) msg (acknowledgements (fst ?r)) (control_abs (snd ?r))"
      "sends sample_library (sc_session_id ?c) msg (outbound (fst ?r))"
    using control_refines_handshake [OF make_sample refl prod.collapse [symmetric],
        of sample_library "[Begin 1, Pause 1]" "End_session 1 ''STOPPED''"] by blast
  from msg(1) [unfolded abs] have "msg = Some (''SESSION_ENDED'', 3)" by (rule ending_message) simp
  with msg abs show ?thesis by (simp only: Let_def split_beta simp_thms)
qed

end
