(* ===== verification/Control_Clock.thy ===== *)
theory Control_Clock
  imports Control_Session "HOL-Library.Product_Lexorder"
begin

text \<open>
  Clock requests and their answers, the rate limit on the receiver's messages, and the clock
  correlation computed from the answers.
\<close>

section \<open>Requests and answers\<close>

text \<open>What one call puts on the wire as a clock request, and which requests it reports answered.\<close>

definition clock_sent :: "control_call \<Rightarrow> control_result \<Rightarrow> (u64 \<times> double) list" where
  "clock_sent call r =
     (case (call, fst r) of
        (Request_clock t, Inr out) \<Rightarrow> if so_outbound_messages out = [] then [] else [(sc_send_sequence (snd r), t)]
      | _ \<Rightarrow> [])"

definition clock_answered :: "exn + sender_control_output \<Rightarrow> (u64 \<times> double) list" where
  "clock_answered r =
     (case r of Inl _ \<Rightarrow> []
      | Inr out \<Rightarrow> map (\<lambda>e. (ev_request_sequence e, ev_sender_send_time_ms e))
                     (filter (\<lambda>e. ev_kind e = Clock_response) (so_events out)))"

fun clock_requests :: "json_library \<Rightarrow> sender_control \<Rightarrow> control_call list \<Rightarrow> (u64 \<times> double) list" where
  "clock_requests jl c [] = []"
| "clock_requests jl c (call # calls) =
     clock_sent call (control_apply jl c call) @ clock_requests jl (snd (control_apply jl c call)) calls"

fun clock_answers :: "json_library \<Rightarrow> sender_control \<Rightarrow> control_call list \<Rightarrow> (u64 \<times> double) list" where
  "clock_answers jl c [] = []"
| "clock_answers jl c (call # calls) =
     clock_answered (fst (control_apply jl c call)) @ clock_answers jl (snd (control_apply jl c call)) calls"

text \<open>One call, as a ledger: what was open and what was sent is what was answered and what is open;
  a call that ends the session answers nothing.\<close>

definition balanced :: "sender_control \<Rightarrow> (u64 \<times> double) list \<Rightarrow> control_result \<Rightarrow> bool" where
  "balanced c sent r \<longleftrightarrow>
     (if terminal (snd r) then clock_answered (fst r) = []
      else mset (sc_outstanding_clock_requests c) + mset sent =
           mset (clock_answered (fst r)) + mset (sc_outstanding_clock_requests (snd r)))"

lemma failed_balanced: "balanced c sent (failed c1 reason)"
proof (cases "terminal c1")
  case True
  then show ?thesis by (simp add: failed_cases(1) balanced_def clock_answered_def empty_output_def)
next
  case False
  then show ?thesis
    by (simp add: failed_cases(2) balanced_def clock_answered_def new_event_def)
      (simp add: terminal_def clear_pending_def)
qed

lemma silent_balanced:
  "terminal c' \<Longrightarrow> filter (\<lambda>e. ev_kind e = Clock_response) (so_events out) = [] \<Longrightarrow> balanced c sent (Inr out, c')"
  "sc_outstanding_clock_requests c' = sc_outstanding_clock_requests c \<Longrightarrow>
   filter (\<lambda>e. ev_kind e = Clock_response) (so_events out) = [] \<Longrightarrow> balanced c [] (Inr out, c')"
  "sc_outstanding_clock_requests c' = sc_outstanding_clock_requests c \<Longrightarrow> balanced c [] (Inl e, c')"
  by (simp_all add: balanced_def clock_answered_def)

lemma send_balanced:
  assumes "\<not> terminal c1" "sc_outstanding_clock_requests c1 = sc_outstanding_clock_requests c"
    "\<And>encoded. balanced c [] (k (empty_output\<lparr>so_outbound_messages := [encoded]\<rparr>) (bumped c1))"
  shows "balanced c [] (send_message jl c1 type entries k)"
  by (rule send_rule) (use assms in \<open>auto intro!: failed_balanced silent_balanced\<close>)

lemma owner_balanced:
  "balanced c [] (control_begin jl c m)" "balanced c [] (control_pause jl c m)" "balanced c [] (control_resume jl c m d)"
  "balanced c [] (control_end jl c m r)" "balanced c [] (protocol_error jl c code)" "balanced c [] (channel_closed c)"
proof -
  show "balanced c [] (control_begin jl c m)"
    by (auto simp: control_begin_def terminal_def empty_output_def intro!: failed_balanced send_balanced silent_balanced)
  show "balanced c [] (control_pause jl c m)"
    by (auto simp: control_pause_def terminal_def empty_output_def intro!: failed_balanced send_balanced silent_balanced(2))
  show "balanced c [] (control_resume jl c m d)"
    by (auto simp: control_resume_def terminal_def empty_output_def intro!: failed_balanced send_balanced silent_balanced(2))
  show "balanced c [] (control_end jl c m r)"
    by (auto simp: control_end_def active_nonterminal empty_output_def intro!: failed_balanced send_balanced silent_balanced(2))
  show "balanced c [] (protocol_error jl c code)"
    by (auto simp: protocol_error_def active_nonterminal intro!: failed_balanced send_balanced silent_balanced(1))
      (auto simp: terminal_def clear_pending_def empty_output_def new_event_def)
  show "balanced c [] (channel_closed c)"
    by (auto simp: channel_closed_def empty_output_def intro!: failed_balanced silent_balanced(2))
qed

lemma request_balanced:
  assumes "control_ok c"
  shows "balanced c (clock_sent (Request_clock t) (request_clock jl c t)) (request_clock jl c t)"
proof -
  let ?k = "\<lambda>output c. (Inr output, c\<lparr>sc_outstanding_clock_requests :=
      store_request (sc_send_sequence c) t (sc_outstanding_clock_requests c),
      sc_last_clock_request_ms := Some t, sc_clock_requests_sent := sc_clock_requests_sent c + 1\<rparr>)"
  let ?r = "send_message jl c ''CLOCK_REQUEST'' [(''senderSendTimeMs'', J_float t)] ?k"
  have "balanced c (clock_sent (Request_clock t) ?r) ?r" if p: "sc_phase c = Connected"
  proof (rule send_rule)
    show "\<not> terminal c" using p by (simp add: terminal_def)
    assume "sc_send_sequence c < kMaximumSafeInteger"
    then show "balanced c (clock_sent (Request_clock t) (?k (empty_output\<lparr>so_outbound_messages := [encoded]\<rparr>) (bumped c)))
      (?k (empty_output\<lparr>so_outbound_messages := [encoded]\<rparr>) (bumped c))" for encoded
      using assms fresh_request [of c t] p
      by (simp add: control_ok_def balanced_def clock_sent_def clock_answered_def empty_output_def terminal_def)
  qed (auto intro: failed_balanced silent_balanced simp: clock_sent_def)
  moreover have "balanced c (clock_sent (Request_clock t) (Inr empty_output, c)) (Inr empty_output, c)"
    by (simp add: clock_sent_def empty_output_def silent_balanced)
  ultimately show ?thesis by (simp add: request_clock_def failed_balanced)
qed

lemma removed_request:
  assumes "distinct (map fst reqs)" "map_of reqs n = Some sent"
  shows "mset reqs = add_mset (n, sent) (mset (filter (\<lambda>(k, _). k \<noteq> n) reqs))"
  using assms
proof (induction reqs)
  case (Cons p reqs)
  show ?case
  proof (cases "fst p = n")
    case True
    with Cons.prems(1) have "filter (\<lambda>(k, _). k \<noteq> n) reqs = reqs"
      by (auto simp: filter_id_conv image_iff split: prod.splits)
    with True Cons.prems(2) show ?thesis by (cases p) auto
  next
    case False
    with Cons show ?thesis by (cases p) auto
  qed
qed simp

lemma typed_balanced:
  assumes "control_ok c" "active_phase (sc_phase c)" "receive_typed c v t = Inr (out, c')"
  shows "balanced c [] (Inr out, c')"
using assms(3) proof (cases rule: receive_typed_cases)
  case (clock n sent)
  then obtain e where "so_events out = [e]" "ev_kind e = Clock_response" "ev_request_sequence e = n"
    "ev_sender_send_time_ms e = sent" by auto
  with clock(1,2) removed_request [of "sc_outstanding_clock_requests c" n sent] assms(1,2) show ?thesis
    by (auto simp: balanced_def clock_answered_def control_ok_def requests_ok_def active_phase_def terminal_def)
next
  case (ack n p r reqs k)
  then show ?thesis by (auto simp: balanced_def clock_answered_def terminal_def)
next
  case (error r)
  then show ?thesis by (auto simp: balanced_def clock_answered_def terminal_def clear_pending_def)
qed (auto simp: balanced_def clock_answered_def)

lemma receive_balanced:
  assumes "control_ok c"
  shows "balanced c [] (control_receive jl c encoded t)"
proof (cases rule: receive_cases [of jl c encoded t])
  case (accepted c1 v out c2)
  have "control_ok c1" "active_phase (sc_phase c1)"
    using admit_ok [OF assms accepted(2)] admit_frame(1) [OF accepted(2)] accepted(1) by simp_all
  from typed_balanced [OF this accepted(5)] admit_frame(6) [OF accepted(2)] accepted(6) show ?thesis
    by (auto simp: balanced_def terminal_def split: if_splits)
qed (auto intro: failed_balanced)

lemma apply_balanced:
  "control_ok c \<Longrightarrow> balanced c (clock_sent call (control_apply jl c call)) (control_apply jl c call)"
  using request_balanced receive_balanced owner_balanced by (cases call) (simp_all add: clock_sent_def)

text \<open>Numbers of the messages only grow, and a clock request carries a number above all earlier ones.\<close>

lemma failed_sequence [simp]: "sc_send_sequence (snd (failed c reason)) = sc_send_sequence c"
  by (cases "terminal c") (simp_all add: failed_cases clear_pending_def)

lemma failed_outbound: "fst (failed c reason) = Inr out \<Longrightarrow> so_outbound_messages out = []"
  by (cases "terminal c") (auto simp: failed_cases empty_output_def)

lemma send_sequence_grows:
  assumes "\<not> terminal c" "\<And>out. sc_send_sequence (snd (k out (bumped c))) = sc_send_sequence c + 1"
  shows "sc_send_sequence c \<le> sc_send_sequence (snd (send_message jl c type entries k))"
  by (rule send_rule) (use assms next_number in \<open>auto simp: less_imp_le\<close>)

lemma apply_sequence:
  "sc_send_sequence c \<le> sc_send_sequence (snd (control_apply jl c call))"
proof (cases call)
  case (Receive encoded t)
  show ?thesis
  proof (cases rule: receive_cases [of jl c encoded t])
    case (accepted c1 v out c2)
    from accepted(5) have "sc_send_sequence c2 = sc_send_sequence c1"
      by (cases rule: receive_typed_cases) (auto simp: clear_pending_def)
    with accepted(6) admit_frame(2) [OF accepted(2)] show ?thesis by (simp add: Receive)
  qed (auto simp: Receive admit_frame(2))
next
  case (Begin m)
  let ?c = "c\<lparr>sc_media_epoch := m, sc_phase := Connected, sc_reason := ''CONTROL_CONNECTED''\<rparr>"
  from send_sequence_grows [of ?c "\<lambda>output c. (Inr output, c)"] show ?thesis
    by (simp add: Begin control_begin_def terminal_def)
qed (auto simp: request_clock_def control_pause_def control_resume_def control_end_def protocol_error_def channel_closed_def
    terminal_def active_phase_def clear_pending_def intro!: send_sequence_grows)

lemma clock_sent_above:
  "clock_sent call (control_apply jl c call) = [] \<or>
   (\<exists>n t. clock_sent call (control_apply jl c call) = [(n, t)] \<and> sc_send_sequence c < n \<and>
          n = sc_send_sequence (snd (control_apply jl c call)))"
proof (cases "\<exists>t. call = Request_clock t")
  case False
  then show ?thesis by (cases call) (auto simp: clock_sent_def)
next
  case True
  then obtain t where call: "call = Request_clock t" by blast
  let ?k = "\<lambda>output c. (Inr output, c\<lparr>sc_outstanding_clock_requests :=
      store_request (sc_send_sequence c) t (sc_outstanding_clock_requests c),
      sc_last_clock_request_ms := Some t, sc_clock_requests_sent := sc_clock_requests_sent c + 1\<rparr>)"
  let ?P = "\<lambda>r. clock_sent (Request_clock t) r = [] \<or>
     clock_sent (Request_clock t) r = [(sc_send_sequence (snd r), t)] \<and> sc_send_sequence c < sc_send_sequence (snd r)"
  have stop: "clock_sent (Request_clock t) (failed c' reason) = []" for c' reason
    using failed_outbound [of c' reason] by (auto simp: clock_sent_def split: sum.splits)
  have "?P (send_message jl c ''CLOCK_REQUEST'' [(''senderSendTimeMs'', J_float t)] ?k)" if "sc_phase c = Connected"
    by (rule send_rule) (use that stop next_number in
        \<open>auto simp: clock_sent_def [of _ "(Inl _, _)"] clock_sent_def [of _ "(Inr _, _)"] terminal_def empty_output_def\<close>)
  moreover have "?P (Inr empty_output, c)" by (simp add: clock_sent_def empty_output_def)
  ultimately have "?P (request_clock jl c t)" using stop by (simp add: request_clock_def)
  then show ?thesis by (auto simp: call)
qed

lemma clock_requests_above:
  "sorted_wrt (<) (map fst (clock_requests jl c calls)) \<and>
   (\<forall>n \<in> set (map fst (clock_requests jl c calls)). sc_send_sequence c < n)"
proof (induction calls arbitrary: c)
  case (Cons call calls)
  let ?r = "control_apply jl c call"
  have up: "sc_send_sequence c \<le> sc_send_sequence (snd ?r)" by (rule apply_sequence)
  from clock_sent_above [of call jl c] show ?case
  proof
    assume "clock_sent call ?r = []"
    with Cons [of "snd ?r"] up show ?thesis by fastforce
  next
    assume "\<exists>n t. clock_sent call ?r = [(n, t)] \<and> sc_send_sequence c < n \<and> n = sc_send_sequence (snd ?r)"
    then obtain n t where s: "clock_sent call ?r = [(n, t)]" "sc_send_sequence c < n" "n = sc_send_sequence (snd ?r)" by blast
    from Cons [of "snd ?r"] s(2,3) have "\<forall>m \<in> set (map fst (clock_requests jl (snd ?r) calls)). n < m \<and> sc_send_sequence c < m"
      by (auto intro: order.strict_trans)
    with Cons [of "snd ?r"] s show ?thesis by simp
  qed
qed simp

lemma terminal_answers: "terminal c \<Longrightarrow> clock_answers jl c calls = []"
proof (induction calls arbitrary: c)
  case (Cons call calls)
  from apply_terminal [OF Cons.prems, of jl call] obtain v where
    "control_apply jl c call = (Inr (empty_output\<lparr>so_valid := v\<rparr>), c)" by blast
  with Cons show ?case by (simp add: clock_answered_def empty_output_def)
qed simp

lemma clock_ledger:
  assumes "control_ok c"
  shows "mset (clock_answers jl c calls) \<subseteq># mset (sc_outstanding_clock_requests c) + mset (clock_requests jl c calls) \<and>
    (\<not> terminal (control_run jl c calls) \<longrightarrow>
       mset (sc_outstanding_clock_requests c) + mset (clock_requests jl c calls) =
       mset (clock_answers jl c calls) + mset (sc_outstanding_clock_requests (control_run jl c calls)))"
  using assms
proof (induction calls arbitrary: c)
  case (Cons call calls)
  let ?r = "control_apply jl c call"
  note ih = Cons.IH [OF apply_ok [OF Cons.prems], of jl call]
  have b: "balanced c (clock_sent call ?r) ?r" by (rule apply_balanced [OF Cons.prems])
  show ?case
  proof (cases "terminal (snd ?r)")
    case True
    have "terminal (control_run jl (snd ?r) calls)"
      using control_end.run_latched [of "snd ?r" "snd ?r" jl calls] True by simp
    moreover have "clock_answers jl c (call # calls) = []"
      using b True by (simp add: balanced_def terminal_answers)
    ultimately show ?thesis by simp
  next
    case False
    then have e: "mset (sc_outstanding_clock_requests c) + mset (clock_sent call ?r) =
        mset (clock_answered (fst ?r)) + mset (sc_outstanding_clock_requests (snd ?r))"
      using b by (simp add: balanced_def)
    have sum: "mset (sc_outstanding_clock_requests c) + mset (clock_requests jl c (call # calls)) =
        mset (clock_answered (fst ?r)) + (mset (sc_outstanding_clock_requests (snd ?r)) + mset (clock_requests jl (snd ?r) calls))"
      by (simp add: e flip: add.assoc)
    show ?thesis using ih by (simp add: sum del: clock_requests.simps)
  qed
qed simp

lemma distinct_submset:
  assumes "mset xs \<subseteq># mset ys" "distinct ys"
  shows "distinct xs"
proof -
  from assms(1) obtain zs where "mset ys = mset (xs @ zs)"
    by (metis ex_mset mset_append mset_subset_eq_exists_conv)
  with assms(2) have "distinct (xs @ zs)" using mset_eq_imp_distinct_iff by blast
  then show ?thesis by simp
qed

text \<open>C13 (safety). Clock answers match clock requests one to one: over any session, the requests on
  the wire carry strictly increasing numbers, every reported answer belongs to a request sent before
  it, with the very send time of that request, no request is answered twice, and while the session
  lives the unanswered ones are exactly the outstanding table.\<close>

theorem clock_answers_match_requests:
  assumes "make_control session_id = Inr c0"
    and "requests = clock_requests jl c0 calls" "answers = clock_answers jl c0 calls" "c = control_run jl c0 calls"
  shows "sorted_wrt (<) (map fst requests) \<and> mset answers \<subseteq># mset requests \<and> distinct (map fst answers) \<and>
    (\<not> terminal c \<longrightarrow> mset requests = mset answers + mset (sc_outstanding_clock_requests c))"
proof -
  have "sc_outstanding_clock_requests c0 = []" using assms(1) by (auto simp: make_control_def split: if_splits)
  with clock_ledger [OF make_control_ok [OF assms(1)], of jl calls] assms(2-4)
  have l: "mset answers \<subseteq># mset requests"
    "\<not> terminal c \<longrightarrow> mset requests = mset answers + mset (sc_outstanding_clock_requests c)" by simp_all
  have s: "sorted_wrt (<) (map fst requests)" using clock_requests_above assms(2) by blast
  then have d: "distinct (map fst requests)" by (simp add: strict_sorted_iff)
  have "mset (map fst answers) \<subseteq># mset (map fst requests)" using l(1) by (simp add: image_mset_subseteq_mono)
  from distinct_submset [OF this d] l s show ?thesis by simp
qed

lemma safe_integer_double [code_unfold]: "d_of_u64 kMaximumSafeInteger = Fin 9007199254740991"
  using d_of_nat_exact [of 9007199254740991] by (simp add: d_of_u64_def kMaximumSafeInteger_def)

theorem clock_answers_match_requests_witness:
  "let calls = [Begin 1, Request_clock (Fin 5), Request_clock (Fin 7)];
       c = control_run sample_library sample_control calls
   in \<not> terminal c \<and> clock_requests sample_library sample_control calls = [(2, Fin 5), (3, Fin 7)] \<and>
      mset [(2, Fin 5), (3, Fin 7)] =
        mset (clock_answers sample_library sample_control calls) + mset (sc_outstanding_clock_requests c)"
proof -
  let ?calls = "[Begin 1, Request_clock (Fin 5), Request_clock (Fin 7)]"
  have "\<not> terminal (control_run sample_library sample_control ?calls)"
    "clock_requests sample_library sample_control ?calls = [(2, Fin 5), (3, Fin 7)]" by code_simp+
  then show ?thesis
    using clock_answers_match_requests [OF make_sample refl refl refl, of sample_library ?calls]
    by (simp only: Let_def simp_thms)
qed

section \<open>The rate limit\<close>

definition message_accepted :: "control_call \<Rightarrow> exn + sender_control_output \<Rightarrow> double list" where
  "message_accepted call r =
     (case (call, r) of (Receive _ t, Inr out) \<Rightarrow> if so_valid out then [t] else [] | _ \<Rightarrow> [])"

fun accepted_times :: "json_library \<Rightarrow> sender_control \<Rightarrow> control_call list \<Rightarrow> double list" where
  "accepted_times jl c [] = []"
| "accepted_times jl c (call # calls) =
     message_accepted call (fst (control_apply jl c call)) @ accepted_times jl (snd (control_apply jl c call)) calls"

text \<open>Any eleven accepted messages in a row take at least a second, as the code measures it.\<close>

definition spaced :: "double list \<Rightarrow> bool" where
  "spaced stamps \<longleftrightarrow>
     (\<forall>i. i + kMaximumReceiverControlMessagesPerSecond < length stamps \<longrightarrow>
        d_le kReceiverRateWindowMs (d_sub (stamps ! (i + kMaximumReceiverControlMessagesPerSecond)) (stamps ! i)))"

definition rate_ok :: "sender_control \<Rightarrow> double list \<Rightarrow> bool" where
  "rate_ok c stamps \<longleftrightarrow>
     spaced stamps \<and>
     (terminal c \<or>
      (\<exists>old. stamps = old @ sc_receiver_message_times c \<and> list_all time_in_range stamps \<and>
         (stamps \<noteq> [] \<longrightarrow>
          (\<exists>l. sc_last_receive_time_ms c = Some l \<and> time_in_range l \<and> (\<forall>x \<in> set stamps. d_le x l) \<and>
             (\<forall>x \<in> set old. d_le kReceiverRateWindowMs (d_sub l x))))))"

lemma round_double_mono: "0 \<le> x \<Longrightarrow> x \<le> y \<Longrightarrow> d_le (round_double x) (round_double y)"
  using rounded_mono [of x y] rounded_nonneg [of x]
  by (auto simp: round_double_def Let_def d_le_def d_equal_def)

lemma elapsed_mono:
  assumes "d_le w (d_sub l x)" "time_in_range l" "time_in_range now" "d_le l now" "time_in_range x" "d_le x l"
  shows "d_le w (d_sub now x)"
proof -
  obtain a b e where f: "l = Fin a" "now = Fin b" "x = Fin e"
    using assms(2,3,5) by (auto simp: time_in_range_def d_isfinite_def split: double.splits)
  with assms(4,6) have "e \<le> a" "a \<le> b" by (auto simp: d_le_def d_equal_def)
  then have "d_le (d_sub l x) (d_sub now x)" by (simp add: f d_sub_def round_double_mono)
  with assms(1) show ?thesis by (rule d_le_trans)
qed

lemma spaced_append:
  assumes "spaced stamps"
    "length stamps \<ge> kMaximumReceiverControlMessagesPerSecond \<Longrightarrow>
       d_le kReceiverRateWindowMs (d_sub now (stamps ! (length stamps - kMaximumReceiverControlMessagesPerSecond)))"
  shows "spaced (stamps @ [now])"
  unfolding spaced_def
proof (intro allI impI)
  let ?n = kMaximumReceiverControlMessagesPerSecond
  fix i assume i: "i + ?n < length (stamps @ [now])"
  show "d_le kReceiverRateWindowMs (d_sub ((stamps @ [now]) ! (i + ?n)) ((stamps @ [now]) ! i))"
  proof (cases "i + ?n < length stamps")
    case True
    with assms(1) show ?thesis by (simp add: spaced_def nth_append)
  next
    case False
    with i have "i + ?n = length stamps" by simp
    moreover from this have "i < length stamps" by (auto simp: kMaximumReceiverControlMessagesPerSecond_def)
    moreover have "i = length stamps - ?n" using \<open>i + ?n = length stamps\<close> by simp
    ultimately show ?thesis using assms(2) by (simp add: nth_append)
  qed
qed

text \<open>Admission keeps the discipline: the deque is the part of the accepted times that is not yet a
  window old.\<close>

lemma admit_rate:
  assumes "rate_ok c stamps" "\<not> terminal c" "admit_receiver_message c now = (True, c')"
  shows "rate_ok c' (stamps @ [now])"
proof -
  let ?w = "\<lambda>t. d_le kReceiverRateWindowMs (d_sub now t)" and ?n = kMaximumReceiverControlMessagesPerSecond
  from assms(1,2) obtain old where old: "stamps = old @ sc_receiver_message_times c" "list_all time_in_range stamps" "spaced stamps"
    and l: "stamps \<noteq> [] \<Longrightarrow> \<exists>l. sc_last_receive_time_ms c = Some l \<and> time_in_range l \<and> (\<forall>x \<in> set stamps. d_le x l) \<and>
             (\<forall>x \<in> set old. d_le kReceiverRateWindowMs (d_sub l x))"
    unfolding rate_ok_def by blast
  define gone where "gone = takeWhile ?w (sc_receiver_message_times c)"
  define recent where "recent = expired_times now (sc_receiver_message_times c)"
  have split: "stamps = (old @ gone) @ recent" by (simp add: old(1) gone_def recent_def expired_times_def)
  have g: "\<not> (\<not> d_isfinite now \<or> d_less now (Fin 0) \<or> d_less (d_of_u64 kMaximumSafeInteger) now)"
    and fwd: "\<not> time_before now (sc_last_receive_time_ms c)"
    and few: "length recent < ?n"
    and c': "c' = c\<lparr>sc_last_receive_time_ms := Some now, sc_receiver_message_times := recent @ [now]\<rparr>"
    using assms(3) by (auto simp: admit_receiver_message_def Let_def recent_def not_le split: if_splits)
  from g have now: "time_in_range now" using range_of_guard by blast
  have le: "d_le l now" if "sc_last_receive_time_ms c = Some l" "time_in_range l" for l
    using that fwd now by (cases l; cases now) (auto simp: time_before_def time_in_range_def d_isfinite_def d_le_def d_equal_def)
  have past: "\<forall>x \<in> set stamps. d_le x now" using l le by (metis d_le_trans list.set_cases neq_Nil_conv)
  have aged: "\<forall>x \<in> set (old @ gone). ?w x"
  proof
    fix x assume x: "x \<in> set (old @ gone)"
    show "?w x"
    proof (cases "x \<in> set gone")
      case True
      then show ?thesis using set_takeWhileD unfolding gone_def by fastforce
    next
      case False
      with x have xo: "x \<in> set old" by simp
      then have "x \<in> set stamps" "stamps \<noteq> []" by (auto simp: old(1))
      with l xo old(2) le now show ?thesis by (auto simp: list_all_iff intro: elapsed_mono)
    qed
  qed
  have "spaced (stamps @ [now])"
  proof (rule spaced_append [OF old(3)])
    assume "length stamps \<ge> ?n"
    with few have i: "length stamps - ?n < length (old @ gone)" by (simp add: split)
    then have "stamps ! (length stamps - ?n) \<in> set (old @ gone)"
      using nth_append_left [OF i, of recent] nth_mem [OF i] split by metis
    with aged show "?w (stamps ! (length stamps - ?n))" by blast
  qed
  moreover have "stamps @ [now] = (old @ gone) @ sc_receiver_message_times c'" by (simp add: c' split)
  moreover have "d_le now now" using now by (cases now) (auto simp: time_in_range_def d_isfinite_def d_le_def d_equal_def)
  ultimately show ?thesis using old(2) now past aged
    unfolding rate_ok_def by (intro conjI disjI2 exI [of _ "old @ gone"]) (auto simp: c')
qed

definition same_times :: "sender_control \<Rightarrow> control_result \<Rightarrow> bool" where
  "same_times c r \<longleftrightarrow> sc_receiver_message_times (snd r) = sc_receiver_message_times c \<and>
     sc_last_receive_time_ms (snd r) = sc_last_receive_time_ms c"

lemma failed_same_times: "same_times c (failed c1 reason)"
  if "sc_receiver_message_times c1 = sc_receiver_message_times c" "sc_last_receive_time_ms c1 = sc_last_receive_time_ms c"
  using that by (cases "terminal c1") (simp_all add: failed_cases same_times_def clear_pending_def)

lemma send_same_times:
  assumes "\<not> terminal c1" "sc_receiver_message_times c1 = sc_receiver_message_times c"
    "sc_last_receive_time_ms c1 = sc_last_receive_time_ms c" "\<And>out. same_times c (k out (bumped c1))"
  shows "same_times c (send_message jl c1 type entries k)"
  by (rule send_rule) (use assms in \<open>auto intro!: failed_same_times simp: same_times_def [of _ "(_, _)"]\<close>)

lemma owner_same_times: "(\<And>encoded t. call \<noteq> Receive encoded t) \<Longrightarrow> same_times c (control_apply jl c call)"
  by (cases call) (auto simp: control_begin_def request_clock_def control_pause_def control_resume_def control_end_def
      protocol_error_def channel_closed_def terminal_def active_phase_def clear_pending_def same_times_def [of _ "(_, _)"]
      intro!: send_same_times failed_same_times)

lemma rate_unchanged:
  assumes "rate_ok c stamps" "same_times c r" "\<not> terminal c"
  shows "rate_ok (snd r) stamps"
  using assms by (auto simp: rate_ok_def same_times_def)

lemma receive_rate:
  assumes "rate_ok c stamps" "\<not> terminal c"
  shows "rate_ok (snd (control_receive jl c encoded t))
    (stamps @ message_accepted (Receive encoded t) (fst (control_receive jl c encoded t)))"
proof -
  have stop: "message_accepted (Receive encoded t) (fst (failed c1 reason)) = []" for c1 reason
    by (cases "terminal c1") (simp_all add: failed_cases message_accepted_def empty_output_def)
  have over: "terminal (snd (failed c1 reason))" if "\<not> terminal c1" for c1 reason
    using that by (simp add: failed_cases) (simp add: terminal_def clear_pending_def)
  have spaced: "spaced stamps" using assms(1) by (simp add: rate_ok_def)
  show ?thesis
  proof (cases rule: receive_cases [of jl c encoded t])
    case (accepted c1 v out c2)
    have times: "sc_receiver_message_times c2 = sc_receiver_message_times c1 \<and> sc_last_receive_time_ms c2 = sc_last_receive_time_ms c1"
      using accepted(5) by (cases rule: receive_typed_cases) (auto simp: clear_pending_def)
    have "so_valid out"
      using accepted(5) by (auto simp: receive_typed_def receive_clock_response_def receive_stats_def receive_ack_def
          receive_protocol_error_def Let_def empty_output_def split: if_splits option.splits)
    moreover have "\<not> terminal c1" using accepted(1) admit_frame(1) [OF accepted(2)] by (simp add: active_nonterminal)
    ultimately show ?thesis
      using admit_rate [OF assms accepted(2)] accepted(6) times
      by (auto simp: rate_ok_def message_accepted_def)
  next
    case (inactive reason)
    with stop over assms(2) spaced show ?thesis by (simp add: rate_ok_def)
  next
    case (refused b c1 reason)
    have "\<not> terminal c1" using assms(2) admit_frame(1) [OF refused(2)] by (simp add: terminal_def)
    with refused stop over spaced show ?thesis by (simp add: rate_ok_def)
  qed
qed

lemma apply_rate:
  assumes "rate_ok c stamps" "\<not> terminal c"
  shows "rate_ok (snd (control_apply jl c call)) (stamps @ message_accepted call (fst (control_apply jl c call)))"
proof (cases "\<exists>encoded t. call = Receive encoded t")
  case True
  with receive_rate [OF assms] show ?thesis by auto
next
  case False
  then have "message_accepted call (fst (control_apply jl c call)) = []" by (auto simp: message_accepted_def split: control_call.splits)
  with rate_unchanged [OF assms(1) owner_same_times assms(2)] False show ?thesis by simp
qed

lemma terminal_accepted: "terminal c \<Longrightarrow> accepted_times jl c calls = []"
proof (induction calls arbitrary: c)
  case (Cons call calls)
  from apply_terminal [OF Cons.prems, of jl call] have "snd (control_apply jl c call) = c" by auto
  moreover have "message_accepted call (fst (control_apply jl c call)) = []"
    using Cons.prems failed_cases(1) [OF Cons.prems]
    by (cases call) (auto simp: message_accepted_def control_receive_def active_phase_def terminal_def empty_output_def)
  ultimately show ?case using Cons by simp
qed simp

lemma run_rate: "rate_ok c stamps \<Longrightarrow> spaced (stamps @ accepted_times jl c calls)"
proof (induction calls arbitrary: c stamps)
  case Nil
  then show ?case by (simp add: rate_ok_def)
next
  case (Cons call calls)
  show ?case
  proof (cases "terminal c")
    case True
    with Cons.prems show ?thesis by (simp only: terminal_accepted append_Nil2) (simp add: rate_ok_def)
  next
    case False
    from Cons.IH [OF apply_rate [OF Cons.prems this]] show ?thesis by simp
  qed
qed

text \<open>C34 (bounds). The receiver cannot exceed ten control messages per second: over any session and
  whatever clock readings are passed in, of eleven accepted messages in a row the last comes at
  least one second after the first, as the code subtracts the readings.\<close>

theorem receiver_rate_limited:
  assumes "make_control session_id = Inr c0"
  shows "spaced (accepted_times jl c0 calls)"
proof -
  have "rate_ok c0 []" using assms by (auto simp: make_control_def rate_ok_def spaced_def split: if_splits)
  from run_rate [OF this, of jl calls] show ?thesis by simp
qed

text \<open>A receiver that reports a protocol error: one message is accepted.\<close>

definition error_library :: json_library where
  "error_library =
     \<lparr>jl_parse = (\<lambda>s. ([], Some (if s = ''E'' then
          J_object [(''code'', J_string ''FAILED''), (''protocolVersion'', J_string kControlProtocol), (''sequence'', J_unsigned 1),
            (''sessionId'', J_string ''ABCDEFGHIJKLMNOPQRSTUV''), (''type'', J_string ''PROTOCOL_ERROR'')] else J_object []))),
      jl_dump = (\<lambda>_. ''{}'')\<rparr>"

theorem receiver_rate_limited_witness:
  "accepted_times error_library sample_control [Begin 1, Receive ''E'' (Fin 3), Receive ''E'' (Fin 4)] = [Fin 3] \<and>
   spaced (accepted_times error_library sample_control [Begin 1, Receive ''E'' (Fin 3), Receive ''E'' (Fin 4)])"
proof
  show "accepted_times error_library sample_control [Begin 1, Receive ''E'' (Fin 3), Receive ''E'' (Fin 4)] = [Fin 3]"
    by code_simp
qed (rule receiver_rate_limited [OF make_sample])

section \<open>The clock estimate\<close>

text \<open>What \<open>std::sort\<close> promises, where the comparison is a strict weak order: the same elements, none
  before an earlier one.\<close>

definition sorts_samples :: "(clock_correlation_sample list \<Rightarrow> clock_correlation_sample list) \<Rightarrow> bool" where
  "sorts_samples arrange \<longleftrightarrow>
     (\<forall>xs. list_all (\<lambda>x. d_isfinite (cs_network_delay_ms x)) xs \<longrightarrow>
        mset (arrange xs) = mset xs \<and> sorted_wrt (\<lambda>a b. \<not> sample_before b a) (arrange xs))"

definition correlation_ok :: "clock_correlation_snapshot \<Rightarrow> bool" where
  "correlation_ok s \<longleftrightarrow>
     length (cc_samples s) \<le> kMaximumClockCorrelationSamples \<and> (cc_valid s \<longleftrightarrow> cc_samples s \<noteq> []) \<and>
     list_all (\<lambda>x. d_isfinite (cs_offset_ms x) \<and> d_isfinite (cs_network_delay_ms x) \<and> d_nonneg (cs_network_delay_ms x)) (cc_samples s) \<and>
     (cc_valid s \<longrightarrow>
        (\<exists>best \<in> set (cc_samples s). cc_offset_ms s = cs_offset_ms best \<and> cc_network_delay_ms s = cs_network_delay_ms best \<and>
           (\<forall>x \<in> set (cc_samples s). d_le (cs_network_delay_ms best) (cs_network_delay_ms x))))"

lemma refresh_ok:
  assumes "sorts_samples arrange" "cc_samples s \<noteq> []" "length (cc_samples s) \<le> kMaximumClockCorrelationSamples"
    "list_all (\<lambda>x. d_isfinite (cs_offset_ms x) \<and> d_isfinite (cs_network_delay_ms x) \<and> d_nonneg (cs_network_delay_ms x)) (cc_samples s)"
  shows "correlation_ok (correlation_refresh arrange s)"
proof -
  have perm: "mset (arrange (cc_samples s)) = mset (cc_samples s)"
    and sorted: "sorted_wrt (\<lambda>a b. \<not> sample_before b a) (arrange (cc_samples s))"
    using assms(1,4) by (auto simp: sorts_samples_def list_all_iff)
  obtain best others where a: "arrange (cc_samples s) = best # others"
    using perm assms(2) by (cases "arrange (cc_samples s)") auto
  from perm a have set: "set (cc_samples s) = insert best (set others)" by (metis list.simps(15) set_mset_mset)
  have "d_le (cs_network_delay_ms best) (cs_network_delay_ms x)" if "x \<in> set (cc_samples s)" for x
  proof -
    have ok: "d_isfinite (cs_network_delay_ms best)" "d_isfinite (cs_network_delay_ms x)"
      using assms(4) that set by (auto simp: list_all_iff)
    from that set sorted a have "x = best \<or> \<not> sample_before x best" by auto
    with ok show ?thesis
      by (cases "cs_network_delay_ms best"; cases "cs_network_delay_ms x")
        (auto simp: sample_before_def d_isfinite_def d_le_def d_equal_def)
  qed
  with assms(2-4) a set show ?thesis
    by (auto simp: correlation_ok_def correlation_refresh_def Let_def)
qed

datatype correlation_call = Observe receiver_control_event | Reset_correlation

fun correlation_step ::
  "(clock_correlation_sample list \<Rightarrow> clock_correlation_sample list) \<Rightarrow> clock_correlation_snapshot \<Rightarrow>
   correlation_call \<Rightarrow> clock_correlation_snapshot" where
  "correlation_step arrange s (Observe e) = snd (correlation_observe arrange s e)"
| "correlation_step arrange s Reset_correlation = correlation_reset s"

lemma observe_ok:
  assumes "sorts_samples arrange" "correlation_ok s"
  shows "correlation_ok (snd (correlation_observe arrange s e))"
proof (cases "fst (correlation_observe arrange s e)")
  case False
  then have "snd (correlation_observe arrange s e) = s" by (auto simp: correlation_observe_def Let_def split: if_splits)
  with assms(2) show ?thesis by simp
next
  case True
  define s1 where "s1 = (if cc_valid s \<and> d_less (cc_uncertainty_ms s) (d_abs (d_sub (measured_offset e) (cc_offset_ms s)))
    then correlation_reset s else s)"
  define kept where "kept = (if length (cc_samples s1) = kMaximumClockCorrelationSamples then tl (cc_samples s1) else cc_samples s1)"
  define x where "x = \<lparr>cs_request_sequence = ev_request_sequence e, cs_sender_send_time_ms = ev_sender_send_time_ms e,
    cs_receiver_receive_time_ms = ev_receiver_receive_time_ms e, cs_receiver_send_time_ms = ev_receiver_send_time_ms e,
    cs_sender_receive_time_ms = ev_sender_receive_time_ms e,
    cs_network_delay_ms = d_max (Fin 0) (measured_delay e), cs_offset_ms = measured_offset e\<rparr>"
  have g: "clock_response_usable e" "\<not> (\<not> d_isfinite (measured_delay e) \<or> d_less (measured_delay e) (d_neg kClockDelayRoundingToleranceMs))"
    "d_isfinite (measured_offset e)"
    using True by (auto simp: correlation_observe_def Let_def split: if_splits)
  then have fin: "d_isfinite (measured_delay e)" "d_isfinite (measured_offset e)" by simp_all
  have x: "cs_network_delay_ms x = d_max (Fin 0) (measured_delay e)" "cs_offset_ms x = measured_offset e" by (simp_all add: x_def)
  have run: "snd (correlation_observe arrange s e) = correlation_refresh arrange (s1\<lparr>cc_samples := kept @ [x]\<rparr>)"
    unfolding correlation_observe_def Let_def s1_def kept_def x_def using g by (simp only: if_False simp_thms snd_conv)
  have "set (cc_samples s1) \<subseteq> set (cc_samples s)" "length (cc_samples s1) \<le> kMaximumClockCorrelationSamples"
    using assms(2) by (auto simp: s1_def correlation_reset_def correlation_ok_def)
  moreover have "set kept \<subseteq> set (cc_samples s1)" by (auto simp: kept_def dest: list.set_sel(2) [rotated] split: if_splits)
      (metis list.sel(2) list.set_sel(2))
  moreover have "length kept < kMaximumClockCorrelationSamples"
    using calculation(2) by (auto simp: kept_def kMaximumClockCorrelationSamples_def)
  moreover have "d_isfinite (cs_network_delay_ms x) \<and> d_nonneg (cs_network_delay_ms x)"
    using fin(1) x(1) by (cases "measured_delay e") (auto simp: d_isfinite_def d_max_def)
  ultimately have "correlation_ok (correlation_refresh arrange (s1\<lparr>cc_samples := kept @ [x]\<rparr>))"
    using assms(2) x(2) fin(2) by (intro refresh_ok assms(1)) (auto simp: list_all_iff correlation_ok_def)
  with run show ?thesis by simp
qed

lemma correlation_step_ok:
  assumes "sorts_samples arrange" "correlation_ok s"
  shows "correlation_ok (correlation_step arrange s call)"
proof (cases call)
  case (Observe e)
  with observe_ok [OF assms] show ?thesis by simp
qed (simp add: correlation_ok_def correlation_reset_def)

interpretation correlation: safe_machine "correlation_step arrange" "\<lambda>s. sorts_samples arrange \<and> correlation_ok s"
  by unfold_locales (simp add: correlation_step_ok)

text \<open>C35 (functional). However answers arrive and whenever the estimator is reset, and whichever
  order the sort gives equal elements, the estimate is valid exactly when there are samples, holds
  at most twelve, and is the offset and delay of a sample whose network delay is nonnegative and
  least of all the samples kept.\<close>

theorem clock_estimate_is_minimum_delay:
  assumes "sorts_samples arrange"
  shows "correlation_ok (foldl (correlation_step arrange) new_correlation calls)"
proof -
  have "correlation_ok new_correlation" by (simp add: correlation_ok_def new_correlation_def)
  with correlation.run_inv [of arrange new_correlation calls] assms show ?thesis by simp
qed

definition sample_key :: "clock_correlation_sample \<Rightarrow> rat \<times> u64" where
  "sample_key x = (case cs_network_delay_ms x of Fin d \<Rightarrow> d | _ \<Rightarrow> 0, cs_request_sequence x)"

lemma key_order:
  assumes "sample_key a \<le> sample_key b" "d_isfinite (cs_network_delay_ms a)" "d_isfinite (cs_network_delay_ms b)"
  shows "\<not> sample_before b a"
  using assms by (cases "cs_network_delay_ms a"; cases "cs_network_delay_ms b")
    (auto simp: sample_key_def sample_before_def d_isfinite_def d_equal_def less_eq_prod_def)

lemma sort_key_sorts: "sorts_samples (sort_key sample_key)"
  unfolding sorts_samples_def
proof (intro allI impI conjI)
  fix xs :: "clock_correlation_sample list"
  assume fin: "list_all (\<lambda>x. d_isfinite (cs_network_delay_ms x)) xs"
  have "sorted_wrt (\<lambda>a b. sample_key a \<le> sample_key b) (sort_key sample_key xs)"
    using sorted_sort_key [of sample_key xs] by (simp add: sorted_wrt_map)
  then show "sorted_wrt (\<lambda>a b. \<not> sample_before b a) (sort_key sample_key xs)"
    by (rule sorted_wrt_mono_rel [rotated]) (use fin in \<open>auto simp: list_all_iff dest: key_order\<close>)
qed simp

definition sample_answer :: receiver_control_event where
  "sample_answer = (new_event Clock_response)\<lparr>ev_request_sequence := 2, ev_sender_send_time_ms := Fin 100,
     ev_receiver_receive_time_ms := Fin 300, ev_receiver_send_time_ms := Fin 304, ev_sender_receive_time_ms := Fin 112\<rparr>"

theorem clock_estimate_is_minimum_delay_witness:
  "let s = foldl (correlation_step (sort_key sample_key)) new_correlation [Observe sample_answer]
   in correlation_ok s \<and> cc_valid s \<and> cc_network_delay_ms s = Fin 8"
proof -
  let ?s = "foldl (correlation_step (sort_key sample_key)) new_correlation [Observe sample_answer]"
  have n: "round_double (numeral k) = Fin (numeral k)" if "(numeral k :: nat) < 2 ^ 53" for k
    using d_of_nat_exact [OF that] by (simp add: d_of_nat_def)
  have exact: "round_double 12 = Fin 12" "round_double 4 = Fin 4" "round_double 8 = Fin 8" "round_double 200 = Fin 200"
    "round_double 192 = Fin 192" "round_double 392 = Fin 392" "round_double 196 = Fin 196" by (rule n, simp)+
  obtain r where r: "round_double (1 / 1000000) = Fin r" "0 \<le> r"
    using round_double_finite [of "1 / 1000000"] by fastforce
  have "cc_valid ?s \<and> cc_network_delay_ms ?s = Fin 8"
    by (simp add: correlation_observe_def clock_response_usable_def sample_answer_def new_event_def finite_nonnegative_def
        d_isfinite_def measured_delay_def measured_offset_def d_sub_def exact kClockDelayRoundingToleranceMs_def r(1)
        new_correlation_def correlation_refresh_def Let_def d_max_def kMaximumClockCorrelationSamples_def) (use r(2) in linarith)
  with clock_estimate_is_minimum_delay [OF sort_key_sorts, of "[Observe sample_answer]"] show ?thesis
    by (simp only: Let_def simp_thms)
qed

end
