(* ===== verification/Capture_Frame.thy ===== *)
theory Capture_Frame
  imports Prelude
begin

text \<open>
  Captured frames (\<^verbatim>\<open>src/capture/capture.cpp\<close>): validation of a shared-memory buffer, its geometry,
  the copy of the crop with the cursor blended in, and the eight orientations applied to pixels,
  damage rectangles and the cursor position.

  Indices are \<open>size_t\<close> with the wrap-around written out; the theorems show that nothing wraps and
  that every access is inside its buffer once the buffer has been validated.
\<close>

section \<open>Data\<close>

type_synonym i32 = "32 word"

datatype packed_pixel_order = Bgra | Rgba

datatype cursor_mode = Cursor_hidden | Cursor_embedded | Cursor_metadata

datatype capture_orientation =
    Upright | Rotate90 | Rotate180 | Rotate270 | Flipped | Flipped90 | Flipped180 | Flipped270

record capture_crop =
  cr_x :: nat
  cr_y :: nat
  cr_width :: nat
  cr_height :: nat

record damage_rectangle =
  dr_x :: nat
  dr_y :: nat
  dr_width :: nat
  dr_height :: nat

record cursor_metadata_view =
  cu_x :: i32
  cu_y :: i32
  cu_hotspot_x :: i32
  cu_hotspot_y :: i32
  cu_width :: nat
  cu_height :: nat
  cu_pitch :: nat
  cu_rgba :: "u8 list"

record shared_memory_buffer_view =
  bv_bytes :: "u8 list"
  bv_width :: nat
  bv_height :: nat
  bv_pitch :: nat
  bv_crop :: capture_crop
  bv_pixel_order :: packed_pixel_order
  bv_orientation :: capture_orientation
  bv_cursor_mode :: cursor_mode
  bv_cursor :: "cursor_metadata_view option"
  bv_damage :: "damage_rectangle list"

record capture_geometry =
  ge_epoch :: u64
  ge_source_width :: nat
  ge_source_height :: nat
  ge_source_crop :: capture_crop
  ge_visible_width :: nat
  ge_visible_height :: nat
  ge_coded_width :: nat
  ge_coded_height :: nat
  ge_source_orientation :: capture_orientation

record captured_frame =
  cf_frame_id :: u64
  cf_monotonic_timestamp_ns :: u64
  cf_geometry :: capture_geometry
  cf_pixel_order :: packed_pixel_order
  cf_pitch :: nat
  cf_cursor_mode :: cursor_mode
  cf_cursor_position :: "(i32 \<times> i32) option"
  cf_damage :: "damage_rectangle list"
  cf_pixels :: "u8 list"

definition no_crop :: capture_crop where
  "no_crop = \<lparr>cr_x = 0, cr_y = 0, cr_width = 0, cr_height = 0\<rparr>"

definition no_geometry :: capture_geometry where
  "no_geometry =
     \<lparr>ge_epoch = 0, ge_source_width = 0, ge_source_height = 0, ge_source_crop = no_crop,
      ge_visible_width = 0, ge_visible_height = 0, ge_coded_width = 0, ge_coded_height = 0,
      ge_source_orientation = Upright\<rparr>"

definition new_frame :: captured_frame where
  "new_frame =
     \<lparr>cf_frame_id = 0, cf_monotonic_timestamp_ns = 0, cf_geometry = no_geometry, cf_pixel_order = Bgra,
      cf_pitch = 0, cf_cursor_mode = Cursor_hidden, cf_cursor_position = None, cf_damage = [], cf_pixels = []\<rparr>"

section \<open>Validation\<close>

definition checked_multiply :: "nat \<Rightarrow> nat \<Rightarrow> nat option" where
  "checked_multiply left right =
     (if left \<noteq> 0 \<and> right > (2 ^ 64 - 1) div left then None else Some (size_mul left right))"

text \<open>Bytes of an image of some rows: all but the last row at the pitch, the last without padding.\<close>

definition image_fits :: "nat \<Rightarrow> nat \<Rightarrow> nat \<Rightarrow> u8 list \<Rightarrow> bool" where
  "image_fits height pitch row_bytes bytes =
     (case checked_multiply (size_sub height 1) pitch of
        None \<Rightarrow> False
      | Some required \<Rightarrow> \<not> row_bytes > 2 ^ 64 - 1 - required \<and> \<not> length bytes < size_add required row_bytes)"

definition damage_inside :: "capture_crop \<Rightarrow> damage_rectangle \<Rightarrow> bool" where
  "damage_inside crop d \<longleftrightarrow>
     \<not> (dr_width d = 0 \<or> dr_height d = 0 \<or> dr_x d > cr_width crop \<or> dr_y d > cr_height crop \<or>
        dr_width d > size_sub (cr_width crop) (dr_x d) \<or> dr_height d > size_sub (cr_height crop) (dr_y d))"

definition cursor_bitmap_valid :: "cursor_metadata_view \<Rightarrow> bool" where
  "cursor_bitmap_valid cursor \<longleftrightarrow>
     cu_width cursor \<noteq> 0 \<and> cu_height cursor \<noteq> 0 \<and>
     (case checked_multiply (cu_width cursor) 4 of
        None \<Rightarrow> False
      | Some cursor_row \<Rightarrow> \<not> cu_pitch cursor < cursor_row \<and>
          image_fits (cu_height cursor) (cu_pitch cursor) cursor_row (cu_rgba cursor))"

text \<open>The reason a buffer is refused for, if it is.\<close>

definition valid_buffer :: "shared_memory_buffer_view \<Rightarrow> string option" where
  "valid_buffer b =
     (let crop = bv_crop b; row_bytes = checked_multiply (bv_width b) 4 in
      if bv_width b = 0 \<or> bv_height b = 0 \<or> cr_width crop = 0 \<or> cr_height crop = 0
        then Some ''capture_geometry_empty''
      else if cr_x crop > bv_width b \<or> cr_y crop > bv_height b \<or>
              cr_width crop > size_sub (bv_width b) (cr_x crop) \<or> cr_height crop > size_sub (bv_height b) (cr_y crop)
        then Some ''capture_crop_out_of_bounds''
      else if row_bytes = None \<or> bv_pitch b < the row_bytes then Some ''capture_pitch_invalid''
      else if \<not> image_fits (bv_height b) (bv_pitch b) (the row_bytes) (bv_bytes b)
        then Some ''capture_buffer_too_small''
      else if length (bv_damage b) > 64 then Some ''capture_damage_count_exceeded''
      else if \<not> list_all (damage_inside crop) (bv_damage b) then Some ''capture_damage_out_of_bounds''
      else
        case bv_cursor b of
          Some cursor \<Rightarrow>
            if bv_cursor_mode b = Cursor_metadata \<and> \<not> cursor_bitmap_valid cursor
            then Some ''capture_cursor_bitmap_invalid'' else None
        | None \<Rightarrow> None)"

section \<open>Geometry\<close>

definition same_geometry :: "capture_geometry \<Rightarrow> shared_memory_buffer_view \<Rightarrow> bool" where
  "same_geometry g b \<longleftrightarrow>
     ge_source_width g = bv_width b \<and> ge_source_height g = bv_height b \<and>
     cr_x (ge_source_crop g) = cr_x (bv_crop b) \<and> cr_y (ge_source_crop g) = cr_y (bv_crop b) \<and>
     cr_width (ge_source_crop g) = cr_width (bv_crop b) \<and> cr_height (ge_source_crop g) = cr_height (bv_crop b) \<and>
     ge_source_orientation g = bv_orientation b"

definition swaps_dimensions :: "capture_orientation \<Rightarrow> bool" where
  "swaps_dimensions orientation \<longleftrightarrow>
     orientation = Rotate90 \<or> orientation = Rotate270 \<or> orientation = Flipped90 \<or> orientation = Flipped270"

text \<open>\<open>(size + 1U) & ~1U\<close>.\<close>

definition even_size :: "nat \<Rightarrow> nat" where
  "even_size n = 2 * (size_add n 1 div 2)"

definition make_geometry :: "u64 \<Rightarrow> shared_memory_buffer_view \<Rightarrow> capture_geometry" where
  "make_geometry epoch b =
     (let swaps = swaps_dimensions (bv_orientation b);
          visible_width = (if swaps then cr_height (bv_crop b) else cr_width (bv_crop b));
          visible_height = (if swaps then cr_width (bv_crop b) else cr_height (bv_crop b))
      in \<lparr>ge_epoch = epoch, ge_source_width = bv_width b, ge_source_height = bv_height b, ge_source_crop = bv_crop b,
          ge_visible_width = visible_width, ge_visible_height = visible_height,
          ge_coded_width = even_size visible_width, ge_coded_height = even_size visible_height,
          ge_source_orientation = bv_orientation b\<rparr>)"

section \<open>The cursor\<close>

text \<open>The numerator is an \<open>unsigned int\<close>.\<close>

definition blend :: "u8 \<Rightarrow> u8 \<Rightarrow> u8 \<Rightarrow> u8" where
  "blend foreground background alpha =
     (let numerator = (ucast foreground :: u32) * ucast alpha + ucast background * (255 - ucast alpha) + 127
      in ucast (numerator div 255))"

text \<open>\<open>static_cast<std::int64_t>\<close> of a \<open>size_t\<close>.\<close>

definition int64_of_size :: "nat \<Rightarrow> int" where
  "int64_of_size n = sint (word_of_nat n :: 64 word)"

definition destination_channels :: "packed_pixel_order \<Rightarrow> nat list" where
  "destination_channels order = (case order of Rgba \<Rightarrow> [0, 1, 2] | Bgra \<Rightarrow> [2, 1, 0])"

definition blend_channel :: "packed_pixel_order \<Rightarrow> u8 list \<Rightarrow> nat \<Rightarrow> nat \<Rightarrow> u8 list \<Rightarrow> nat \<Rightarrow> u8 list" where
  "blend_channel order rgba source_offset destination_offset pixels channel =
     (let destination = size_add destination_offset (destination_channels order ! channel) in
      pixels[destination := blend (rgba ! size_add source_offset channel) (pixels ! destination)
                              (rgba ! size_add source_offset 3)])"

definition composite_pixel ::
  "captured_frame \<Rightarrow> cursor_metadata_view \<Rightarrow> int \<Rightarrow> nat \<Rightarrow> int \<Rightarrow> u8 list \<Rightarrow> nat \<Rightarrow> u8 list" where
  "composite_pixel frame cursor left cursor_y destination_y pixels cursor_x =
     (let destination_x = left + int64_of_size cursor_x in
      if destination_x < 0 \<or> destination_x \<ge> int64_of_size (ge_visible_width (cf_geometry frame)) then pixels
      else
        let source_offset = size_add (size_mul cursor_y (cu_pitch cursor)) (size_mul cursor_x 4);
            destination_offset = size_add (size_mul (nat destination_y) (cf_pitch frame)) (size_mul (nat destination_x) 4);
            blended = foldl (blend_channel (cf_pixel_order frame) (cu_rgba cursor) source_offset destination_offset)
                        pixels [0..<3]
        in blended[size_add destination_offset 3 := 255])"

definition composite_row :: "captured_frame \<Rightarrow> cursor_metadata_view \<Rightarrow> int \<Rightarrow> int \<Rightarrow> u8 list \<Rightarrow> nat \<Rightarrow> u8 list" where
  "composite_row frame cursor left upper pixels cursor_y =
     (let destination_y = upper + int64_of_size cursor_y in
      if destination_y < 0 \<or> destination_y \<ge> int64_of_size (ge_visible_height (cf_geometry frame)) then pixels
      else foldl (composite_pixel frame cursor left cursor_y destination_y) pixels [0..<cu_width cursor])"

definition cursor_left :: "capture_geometry \<Rightarrow> cursor_metadata_view \<Rightarrow> int" where
  "cursor_left g cursor = sint (cu_x cursor) - sint (cu_hotspot_x cursor) - int64_of_size (cr_x (ge_source_crop g))"

definition cursor_top :: "capture_geometry \<Rightarrow> cursor_metadata_view \<Rightarrow> int" where
  "cursor_top g cursor = sint (cu_y cursor) - sint (cu_hotspot_y cursor) - int64_of_size (cr_y (ge_source_crop g))"

definition composite_cursor :: "captured_frame \<Rightarrow> cursor_metadata_view \<Rightarrow> captured_frame" where
  "composite_cursor frame cursor =
     (let left = cursor_left (cf_geometry frame) cursor; upper = cursor_top (cf_geometry frame) cursor in
      frame\<lparr>cf_cursor_position := Some (cu_x cursor, cu_y cursor),
            cf_pixels := foldl (composite_row frame cursor left upper) (cf_pixels frame) [0..<cu_height cursor]\<rparr>)"

section \<open>Orientation\<close>

fun source_coordinate :: "nat \<Rightarrow> nat \<Rightarrow> nat \<Rightarrow> nat \<Rightarrow> capture_orientation \<Rightarrow> nat \<times> nat" where
  "source_coordinate x y w h Upright = (x, y)"
| "source_coordinate x y w h Rotate90 = (y, size_sub (size_sub h 1) x)"
| "source_coordinate x y w h Rotate180 = (size_sub (size_sub w 1) x, size_sub (size_sub h 1) y)"
| "source_coordinate x y w h Rotate270 = (size_sub (size_sub w 1) y, x)"
| "source_coordinate x y w h Flipped = (size_sub (size_sub w 1) x, y)"
| "source_coordinate x y w h Flipped90 = (y, x)"
| "source_coordinate x y w h Flipped180 = (x, size_sub (size_sub h 1) y)"
| "source_coordinate x y w h Flipped270 = (size_sub (size_sub w 1) y, size_sub (size_sub h 1) x)"

definition far_x :: "damage_rectangle \<Rightarrow> nat \<Rightarrow> nat" where
  "far_x d w = size_sub (size_sub w (dr_x d)) (dr_width d)"

definition far_y :: "damage_rectangle \<Rightarrow> nat \<Rightarrow> nat" where
  "far_y d h = size_sub (size_sub h (dr_y d)) (dr_height d)"

fun transform_damage :: "damage_rectangle \<Rightarrow> nat \<Rightarrow> nat \<Rightarrow> capture_orientation \<Rightarrow> damage_rectangle" where
  "transform_damage d w h Upright = d"
| "transform_damage d w h Rotate90 =
     \<lparr>dr_x = far_y d h, dr_y = dr_x d, dr_width = dr_height d, dr_height = dr_width d\<rparr>"
| "transform_damage d w h Rotate180 =
     \<lparr>dr_x = far_x d w, dr_y = far_y d h, dr_width = dr_width d, dr_height = dr_height d\<rparr>"
| "transform_damage d w h Rotate270 =
     \<lparr>dr_x = dr_y d, dr_y = far_x d w, dr_width = dr_height d, dr_height = dr_width d\<rparr>"
| "transform_damage d w h Flipped =
     \<lparr>dr_x = far_x d w, dr_y = dr_y d, dr_width = dr_width d, dr_height = dr_height d\<rparr>"
| "transform_damage d w h Flipped90 =
     \<lparr>dr_x = dr_y d, dr_y = dr_x d, dr_width = dr_height d, dr_height = dr_width d\<rparr>"
| "transform_damage d w h Flipped180 =
     \<lparr>dr_x = dr_x d, dr_y = far_y d h, dr_width = dr_width d, dr_height = dr_height d\<rparr>"
| "transform_damage d w h Flipped270 =
     \<lparr>dr_x = far_y d h, dr_y = far_x d w, dr_width = dr_height d, dr_height = dr_width d\<rparr>"

definition clamp_cursor_coordinate :: "int \<Rightarrow> i32" where
  "clamp_cursor_coordinate v = word_of_int (max (- (2 ^ 31)) (min (2 ^ 31 - 1) v))"

definition transform_cursor_position ::
  "cursor_metadata_view \<Rightarrow> capture_crop \<Rightarrow> capture_orientation \<Rightarrow> i32 \<times> i32" where
  "transform_cursor_position cursor crop orientation =
     (let x = sint (cu_x cursor) - int64_of_size (cr_x crop);
          y = sint (cu_y cursor) - int64_of_size (cr_y crop);
          back_x = int64_of_size (cr_width crop) - 1 - x;
          back_y = int64_of_size (cr_height crop) - 1 - y;
          at = (\<lambda>a b. (clamp_cursor_coordinate a, clamp_cursor_coordinate b))
      in case orientation of
           Upright \<Rightarrow> at x y
         | Rotate90 \<Rightarrow> at back_y x
         | Rotate180 \<Rightarrow> at back_x back_y
         | Rotate270 \<Rightarrow> at y back_x
         | Flipped \<Rightarrow> at back_x y
         | Flipped90 \<Rightarrow> at y x
         | Flipped180 \<Rightarrow> at x back_y
         | Flipped270 \<Rightarrow> at back_y back_x)"

text \<open>One pixel of the result, then the row and the column loop.\<close>

definition normalize_pixel ::
  "captured_frame \<Rightarrow> capture_orientation \<Rightarrow> nat \<Rightarrow> nat \<Rightarrow> u8 list \<Rightarrow> nat \<Rightarrow> u8 list" where
  "normalize_pixel source orientation pitch y pixels x =
     (case source_coordinate x y (ge_visible_width (cf_geometry source)) (ge_visible_height (cf_geometry source)) orientation of
        (source_x, source_y) \<Rightarrow>
          let source_offset = size_add (size_mul source_y (cf_pitch source)) (size_mul source_x 4);
              destination_offset = size_add (size_mul y pitch) (size_mul x 4)
          in copy_into pixels destination_offset (take 4 (drop source_offset (cf_pixels source))))"

definition normalize_orientation :: "captured_frame \<Rightarrow> capture_orientation \<Rightarrow> captured_frame \<Rightarrow> captured_frame" where
  "normalize_orientation source orientation destination =
     (let w = ge_visible_width (cf_geometry destination); h = ge_visible_height (cf_geometry destination);
          pitch = size_mul w 4
      in destination\<lparr>cf_pitch := pitch,
           cf_pixels := foldl (\<lambda>pixels y. foldl (normalize_pixel source orientation pitch y) pixels [0..<w])
                          (replicate (size_mul pitch h) 0) [0..<h]\<rparr>)"

section \<open>Copying a frame out of a buffer\<close>

definition copy_row :: "shared_memory_buffer_view \<Rightarrow> nat \<Rightarrow> u8 list \<Rightarrow> nat \<Rightarrow> u8 list" where
  "copy_row b pitch pixels row =
     (let source_offset = size_add (size_mul (size_add (cr_y (bv_crop b)) row) (bv_pitch b)) (size_mul (cr_x (bv_crop b)) 4)
      in copy_into pixels (size_mul row pitch) (take pitch (drop source_offset (bv_bytes b))))"

definition has_cursor_image :: "shared_memory_buffer_view \<Rightarrow> bool" where
  "has_cursor_image b \<longleftrightarrow> bv_cursor_mode b = Cursor_metadata \<and> bv_cursor b \<noteq> None"

definition copy_source_frame :: "shared_memory_buffer_view \<Rightarrow> capture_geometry \<Rightarrow> captured_frame" where
  "copy_source_frame b geometry =
     (let crop = bv_crop b; pitch = size_mul (cr_width crop) 4;
          source_frame = new_frame
            \<lparr>cf_geometry := geometry\<lparr>ge_visible_width := cr_width crop, ge_visible_height := cr_height crop\<rparr>,
             cf_pitch := pitch, cf_pixel_order := bv_pixel_order b, cf_cursor_mode := bv_cursor_mode b,
             cf_pixels := foldl (copy_row b pitch) (replicate (size_mul pitch (cr_height crop)) 0) [0..<cr_height crop]\<rparr>
      in if has_cursor_image b then composite_cursor source_frame (the (bv_cursor b)) else source_frame)"

definition copy_frame :: "shared_memory_buffer_view \<Rightarrow> capture_geometry \<Rightarrow> u64 \<Rightarrow> u64 \<Rightarrow> captured_frame" where
  "copy_frame b geometry frame_id monotonic_timestamp_ns =
     (let crop = bv_crop b;
          frame = new_frame
            \<lparr>cf_frame_id := frame_id, cf_monotonic_timestamp_ns := monotonic_timestamp_ns, cf_geometry := geometry,
             cf_pixel_order := bv_pixel_order b, cf_cursor_mode := bv_cursor_mode b,
             cf_damage := map (\<lambda>d. transform_damage d (cr_width crop) (cr_height crop) (bv_orientation b)) (bv_damage b),
             cf_cursor_position :=
               (if has_cursor_image b
                then Some (transform_cursor_position (the (bv_cursor b)) crop (bv_orientation b)) else None)\<rparr>
      in normalize_orientation (copy_source_frame b geometry) (bv_orientation b) frame)"

fun packed_pixel_order_name :: "packed_pixel_order \<Rightarrow> string" where
  "packed_pixel_order_name Bgra = ''bgra''"
| "packed_pixel_order_name Rgba = ''rgba''"

fun cursor_mode_name :: "cursor_mode \<Rightarrow> string" where
  "cursor_mode_name Cursor_hidden = ''hidden''"
| "cursor_mode_name Cursor_embedded = ''embedded''"
| "cursor_mode_name Cursor_metadata = ''metadata''"

fun capture_orientation_name :: "capture_orientation \<Rightarrow> string" where
  "capture_orientation_name Upright = ''upright''"
| "capture_orientation_name Rotate90 = ''rotate90''"
| "capture_orientation_name Rotate180 = ''rotate180''"
| "capture_orientation_name Rotate270 = ''rotate270''"
| "capture_orientation_name Flipped = ''flipped''"
| "capture_orientation_name Flipped90 = ''flipped90''"
| "capture_orientation_name Flipped180 = ''flipped180''"
| "capture_orientation_name Flipped270 = ''flipped270''"

section \<open>What validation gives\<close>

text \<open>The fields of type \<open>size_t\<close> that no check bounds by itself.\<close>

definition size_fields :: "shared_memory_buffer_view \<Rightarrow> bool" where
  "size_fields b \<longleftrightarrow>
     bv_height b < 2 ^ 64 \<and> bv_pitch b < 2 ^ 64 \<and> length (bv_bytes b) < 2 ^ 63 \<and>
     (case bv_cursor b of None \<Rightarrow> True
      | Some c \<Rightarrow> cu_height c < 2 ^ 64 \<and> cu_pitch c < 2 ^ 64 \<and> length (cu_rgba c) < 2 ^ 63)"

lemma checked_multiply_Some: "checked_multiply a b = Some r \<Longrightarrow> r = a * b \<and> a * b < 2 ^ 64"
proof -
  assume c: "checked_multiply a b = Some r"
  have "a * b < 2 ^ 64"
  proof (cases "a = 0")
    case False
    with c have "b \<le> (2 ^ 64 - 1) div a" by (auto simp: checked_multiply_def split: if_splits)
    then have "a * b \<le> a * ((2 ^ 64 - 1) div a)" by (rule mult_left_mono) simp
    also have "\<dots> \<le> 2 ^ 64 - 1" by (rule times_div_less_eq_dividend)
    finally show ?thesis by simp
  qed simp
  with c show ?thesis by (auto simp: checked_multiply_def size_mul_exact split: if_splits)
qed

lemma image_fits_bytes:
  assumes "image_fits height pitch row_bytes bytes" "0 < height" "height < 2 ^ 64"
  shows "(height - 1) * pitch + row_bytes \<le> length bytes"
proof -
  from assms(1) obtain required where r: "checked_multiply (size_sub height 1) pitch = Some required"
    "\<not> row_bytes > 2 ^ 64 - 1 - required" "\<not> length bytes < size_add required row_bytes"
    by (auto simp: image_fits_def split: option.splits)
  have "size_sub height 1 = height - 1" using assms(2,3) by (simp add: size_sub_exact)
  with checked_multiply_Some [OF r(1)] have "required = (height - 1) * pitch" "required < 2 ^ 64" by simp_all
  with r(2,3) show ?thesis by (simp add: size_add_exact)
qed

lemma valid_buffer_facts:
  assumes "valid_buffer b = None" "size_fields b"
  shows "0 < cr_width (bv_crop b)" "0 < cr_height (bv_crop b)"
    "cr_x (bv_crop b) + cr_width (bv_crop b) \<le> bv_width b" "cr_y (bv_crop b) + cr_height (bv_crop b) \<le> bv_height b"
    "bv_width b * 4 \<le> bv_pitch b" "(bv_height b - 1) * bv_pitch b + bv_width b * 4 \<le> length (bv_bytes b)"
    "list_all (damage_inside (bv_crop b)) (bv_damage b)"
    "has_cursor_image b \<Longrightarrow> cursor_bitmap_valid (the (bv_cursor b))"
proof -
  let ?c = "bv_crop b"
  have g: "bv_width b \<noteq> 0" "bv_height b \<noteq> 0" "cr_width ?c \<noteq> 0" "cr_height ?c \<noteq> 0" "cr_x ?c \<le> bv_width b" "cr_y ?c \<le> bv_height b"
    "cr_width ?c \<le> size_sub (bv_width b) (cr_x ?c)" "cr_height ?c \<le> size_sub (bv_height b) (cr_y ?c)"
    using assms(1) by (auto simp: valid_buffer_def Let_def split: if_splits)
  obtain row where row: "checked_multiply (bv_width b) 4 = Some row" "row \<le> bv_pitch b"
    "image_fits (bv_height b) (bv_pitch b) row (bv_bytes b)"
    using assms(1) by (auto simp: valid_buffer_def Let_def split: if_splits)
  show "list_all (damage_inside ?c) (bv_damage b)" using assms(1) by (auto simp: valid_buffer_def Let_def split: if_splits)
  show "has_cursor_image b \<Longrightarrow> cursor_bitmap_valid (the (bv_cursor b))"
    using assms(1) by (auto simp: valid_buffer_def Let_def has_cursor_image_def split: if_splits option.splits)
  from checked_multiply_Some [OF row(1)] have w: "row = bv_width b * 4" "bv_width b < 2 ^ 64" by simp_all
  have h: "bv_height b < 2 ^ 64" using assms(2) by (simp add: size_fields_def)
  show "0 < cr_width ?c" "0 < cr_height ?c" using g by simp_all
  show "cr_x ?c + cr_width ?c \<le> bv_width b" "cr_y ?c + cr_height ?c \<le> bv_height b"
    using g w(2) h by (simp_all add: size_sub_exact)
  show "bv_width b * 4 \<le> bv_pitch b" using row(2) w(1) by simp
  show "(bv_height b - 1) * bv_pitch b + bv_width b * 4 \<le> length (bv_bytes b)"
    using image_fits_bytes [OF row(3)] g h w(1) by simp
qed

section \<open>Images as blocks\<close>

text \<open>Loops that fill an image block by block.\<close>

lemma copy_into_twice:
  assumes "base + length c + length d \<le> length xs"
  shows "copy_into (copy_into xs base c) (base + length c) d = copy_into xs base (c @ d)"
  using assms by (simp add: copy_into_def ac_simps)

lemma copy_into_all: "length bytes = length xs \<Longrightarrow> copy_into xs 0 bytes = bytes"
  by (simp add: copy_into_def)

lemma copy_into_nothing: "copy_into xs base [] = xs"
  by (simp add: copy_into_def)

lemma length_concat_blocks:
  "(\<And>i. i < n \<Longrightarrow> length (blk i) = s) \<Longrightarrow> length (concat (map blk [0..<n])) = n * s"
  by (induction n) auto

lemma foldl_blocks:
  assumes "\<And>i xs. i < n \<Longrightarrow> length xs = len \<Longrightarrow> f xs i = copy_into xs (base + i * s) (blk i)"
    and "\<And>i. i < n \<Longrightarrow> length (blk i) = s" "length xs = len" "base + n * s \<le> len"
  shows "foldl f xs [0..<n] = copy_into xs base (concat (map blk [0..<n]))"
  using assms
proof (induction n)
  case 0
  then show ?case by (simp add: copy_into_nothing)
next
  case (Suc n)
  let ?c = "concat (map blk [0..<n])"
  have c: "length ?c = n * s" by (rule length_concat_blocks) (use Suc.prems(2) in auto)
  have "foldl f xs [0..<n] = copy_into xs base ?c" by (rule Suc.IH) (use Suc.prems in auto)
  then have "foldl f xs [0..<Suc n] = f (copy_into xs base ?c) n" by simp
  also have "\<dots> = copy_into (copy_into xs base ?c) (base + n * s) (blk n)"
    using Suc.prems(1) [of n "copy_into xs base ?c"] Suc.prems(3,4) c by (simp add: copy_into_length)
  also have "\<dots> = copy_into xs base (?c @ blk n)"
    using copy_into_twice [of base ?c "blk n" xs] Suc.prems(2) [of n] Suc.prems(3,4) c by simp
  finally show ?case by simp
qed

lemma concat_block:
  assumes "\<And>i. i < n \<Longrightarrow> length (blk i) = s" "i < n"
  shows "take s (drop (i * s) (concat (map blk [0..<n]))) = blk i"
proof -
  have "[0..<n] = [0..<i] @ i # [Suc i..<n]" using assms(2) upt_split [of 0 i n] by (simp add: upt_conv_Cons)
  then have "concat (map blk [0..<n]) = concat (map blk [0..<i]) @ blk i @ concat (map blk [Suc i..<n])" by simp
  moreover have "length (concat (map blk [0..<i])) = i * s" by (rule length_concat_blocks) (use assms in auto)
  ultimately show ?thesis using assms by simp
qed

text \<open>The pixel with a given index in an image without padding.\<close>

definition pixel :: "u8 list \<Rightarrow> nat \<Rightarrow> u8 list" where
  "pixel xs i = take 4 (drop (4 * i) xs)"

lemma pixel_length: "4 * i + 4 \<le> length xs \<Longrightarrow> length (pixel xs i) = 4"
  by (simp add: pixel_def)

lemma pixel_copy_into:
  assumes "length p = 4" "4 * j + 4 \<le> length xs" "4 * i + 4 \<le> length xs"
  shows "pixel (copy_into xs (4 * j) p) i = (if i = j then p else pixel xs i)"
proof (rule nth_equalityI)
  have len: "length (copy_into xs (4 * j) p) = length xs" using assms by (simp add: copy_into_length)
  with assms show "length (pixel (copy_into xs (4 * j) p) i) = length (if i = j then p else pixel xs i)"
    by (simp add: pixel_def)
  fix k assume "k < length (pixel (copy_into xs (4 * j) p) i)"
  then have k: "k < 4" by (simp add: pixel_def)
  have "copy_into xs (4 * j) p ! (4 * i + k) =
      (if 4 * j \<le> 4 * i + k \<and> 4 * i + k < 4 * j + 4 then p ! (4 * i + k - 4 * j) else xs ! (4 * i + k))"
    using copy_into_nth [of "4 * j" p xs "4 * i + k"] assms k by simp
  moreover have "4 * j \<le> 4 * i + k \<and> 4 * i + k < 4 * j + 4 \<longleftrightarrow> i = j" using k by auto
  ultimately show "pixel (copy_into xs (4 * j) p) i ! k = (if i = j then p else pixel xs i) ! k"
    using k len assms by (auto simp: pixel_def)
qed

lemma image_index: "x < w \<Longrightarrow> y < h \<Longrightarrow> y * w + x < w * h" for x w :: nat
proof -
  assume "x < w" "y < h"
  then have "y * w + x < y * w + w" by simp
  also have "\<dots> = Suc y * w" by simp
  also have "\<dots> \<le> h * w" using \<open>y < h\<close> by (intro mult_right_mono) auto
  finally show ?thesis by (simp add: mult.commute)
qed

lemma image_index_inj: "y * w + x = v * w + u \<Longrightarrow> x < w \<Longrightarrow> u < w \<Longrightarrow> x = u \<and> y = v" for x w :: nat
proof -
  assume e: "y * w + x = v * w + u" "x < w" "u < w"
  then have "(y * w + x) div w = (v * w + u) div w" "(y * w + x) mod w = (v * w + u) mod w" by simp_all
  with e(2,3) show ?thesis by simp
qed

section \<open>The crop\<close>

lemma crop_row_bounds:
  assumes "valid_buffer b = None" "size_fields b" "row < cr_height (bv_crop b)"
  shows "(cr_y (bv_crop b) + row) * bv_pitch b + (cr_x (bv_crop b) + cr_width (bv_crop b)) * 4 \<le> length (bv_bytes b)"
    (is "?o + _ \<le> _")
proof -
  note v = valid_buffer_facts [OF assms(1,2)]
  have "?o \<le> (bv_height b - 1) * bv_pitch b" using v(4) assms(3) by (intro mult_right_mono) auto
  moreover have "(cr_x (bv_crop b) + cr_width (bv_crop b)) * 4 \<le> bv_width b * 4" using v(3) by simp
  ultimately show ?thesis by (rule order.trans [OF add_mono v(6)])
qed

lemma crop_sizes:
  assumes "valid_buffer b = None" "size_fields b"
  shows "cr_width (bv_crop b) * 4 * cr_height (bv_crop b) \<le> length (bv_bytes b)"
proof -
  note v = valid_buffer_facts [OF assms]
  have "cr_width (bv_crop b) * 4 * cr_height (bv_crop b) = (cr_height (bv_crop b) - 1) * (cr_width (bv_crop b) * 4) + cr_width (bv_crop b) * 4"
    using v(2) by (cases "cr_height (bv_crop b)") (simp_all add: algebra_simps)
  also have "\<dots> \<le> (bv_height b - 1) * bv_pitch b + bv_width b * 4"
    using v(3-5) by (intro add_mono mult_mono) auto
  finally show ?thesis using v(6) by simp
qed

definition crop_pixel :: "shared_memory_buffer_view \<Rightarrow> nat \<Rightarrow> nat \<Rightarrow> u8 list" where
  "crop_pixel b x y = take 4 (drop ((cr_y (bv_crop b) + y) * bv_pitch b + (cr_x (bv_crop b) + x) * 4) (bv_bytes b))"

lemma copied_rows:
  assumes "valid_buffer b = None" "size_fields b"
    and "w = cr_width (bv_crop b)" "h = cr_height (bv_crop b)" "pitch = size_mul w 4"
    and "pixels = foldl (copy_row b pitch) (replicate (size_mul pitch h) 0) [0..<h]"
  shows "length pixels = 4 * (w * h)" "x < w \<Longrightarrow> y < h \<Longrightarrow> pixel pixels (y * w + x) = crop_pixel b x y"
proof -
  let ?c = "bv_crop b"
  note v = valid_buffer_facts [OF assms(1,2)]
  have n: "length (bv_bytes b) < 2 ^ 64" using assms(2) by (simp add: size_fields_def)
  have small: "w * 4 * h < 2 ^ 64" unfolding assms(3,4) by (rule order.strict_trans1 [OF crop_sizes [OF assms(1,2)] n])
  have "w * 4 < 2 ^ 64" using v(2) assms(4) by (intro order.strict_trans1 [OF _ small]) simp
  then have pitch: "pitch = w * 4" using assms(5) by (simp only: size_mul_exact)
  with small have total: "size_mul pitch h = w * 4 * h" by (simp add: size_mul_exact)
  define blk where "blk row = take (w * 4) (drop ((cr_y ?c + row) * bv_pitch b + cr_x ?c * 4) (bv_bytes b))" for row
  have row: "copy_row b pitch xs row = copy_into xs (0 + row * (w * 4)) (blk row)" if r: "row < h" for row xs
  proof -
    have o: "(cr_y ?c + row) * bv_pitch b + (cr_x ?c + w) * 4 < 2 ^ 64"
      using crop_row_bounds [OF assms(1,2), of row] r assms(3,4) n by simp
    then have "size_mul (size_add (cr_y ?c) row) (bv_pitch b) = (cr_y ?c + row) * bv_pitch b"
      using v(1,4,5) r assms(2-4) by (simp add: size_add_exact size_mul_exact size_fields_def)
    moreover have "size_mul (cr_x ?c) 4 = cr_x ?c * 4" using o by (simp add: size_mul_exact)
    moreover have "row * (w * 4) < 2 ^ 64"
      using small r by (metis less_imp_le mult.commute mult_le_mono1 order.strict_trans1)
    ultimately show ?thesis using o by (simp add: copy_row_def pitch blk_def size_add_exact size_mul_exact)
  qed
  have len: "length (blk row) = w * 4" if "row < h" for row
    using crop_row_bounds [OF assms(1,2), of row] that assms(3,4) by (simp add: blk_def)
  have p: "pixels = concat (map blk [0..<h])"
    using foldl_blocks [of h "w * 4 * h" "copy_row b pitch" 0 "w * 4" blk "replicate (w * 4 * h) 0"] row len
      length_concat_blocks [of h blk "w * 4"]
    by (simp add: assms(6) total copy_into_all mult.commute)
  then show "length pixels = 4 * (w * h)" using length_concat_blocks [of h blk "w * 4"] len by simp
  assume xy: "x < w" "y < h"
  have "pixel pixels (y * w + x) = take 4 (drop (4 * x) (take (w * 4) (drop (y * (w * 4)) pixels)))"
    using xy(1) by (simp add: pixel_def drop_take algebra_simps min_def)
  also have "\<dots> = take 4 (drop (4 * x) (blk y))" using concat_block [OF len xy(2)] by (simp add: p)
  also have "\<dots> = crop_pixel b x y"
    using xy(1) by (simp add: blk_def crop_pixel_def drop_take algebra_simps min_def)
  finally show "pixel pixels (y * w + x) = crop_pixel b x y" .
qed

section \<open>Orientations\<close>

definition oriented_width :: "nat \<Rightarrow> nat \<Rightarrow> capture_orientation \<Rightarrow> nat" where
  "oriented_width w h orientation = (if swaps_dimensions orientation then h else w)"

definition oriented_height :: "nat \<Rightarrow> nat \<Rightarrow> capture_orientation \<Rightarrow> nat" where
  "oriented_height w h orientation = (if swaps_dimensions orientation then w else h)"

lemmas oriented_simps = oriented_width_def oriented_height_def swaps_dimensions_def

lemma back_exact: "x < n \<Longrightarrow> n < 2 ^ 64 \<Longrightarrow> size_sub (size_sub n (Suc 0)) x = n - Suc x"
  by (simp add: size_sub_exact)

lemma source_coordinate_inside:
  assumes "w < 2 ^ 64" "h < 2 ^ 64" "x < oriented_width w h orientation" "y < oriented_height w h orientation"
    "source_coordinate x y w h orientation = (u, v)"
  shows "u < w" "v < h"
  using assms by (cases orientation; auto simp: oriented_simps back_exact split: if_splits)+

lemma source_coordinate_inj:
  assumes "w < 2 ^ 64" "h < 2 ^ 64"
    "x < oriented_width w h orientation" "y < oriented_height w h orientation"
    "x' < oriented_width w h orientation" "y' < oriented_height w h orientation"
    "source_coordinate x y w h orientation = source_coordinate x' y' w h orientation"
  shows "x = x' \<and> y = y'"
  using assms by (cases orientation) (auto simp: oriented_simps back_exact)

lemma source_coordinate_surj:
  assumes "w < 2 ^ 64" "h < 2 ^ 64" "u < w" "v < h"
  shows "\<exists>x y. x < oriented_width w h orientation \<and> y < oriented_height w h orientation \<and> source_coordinate x y w h orientation = (u, v)"
proof (cases orientation)
  case Rotate90
  with assms show ?thesis by (intro exI [of _ "h - 1 - v"] exI [of _ u] conjI) (auto simp: oriented_simps back_exact)
next
  case Rotate180
  with assms show ?thesis by (intro exI [of _ "w - 1 - u"] exI [of _ "h - 1 - v"] conjI) (auto simp: oriented_simps back_exact)
next
  case Rotate270
  with assms show ?thesis by (intro exI [of _ v] exI [of _ "w - 1 - u"] conjI) (auto simp: oriented_simps back_exact)
next
  case Flipped
  with assms show ?thesis by (intro exI [of _ "w - 1 - u"] exI [of _ v] conjI) (auto simp: oriented_simps back_exact)
next
  case Flipped180
  with assms show ?thesis by (intro exI [of _ u] exI [of _ "h - 1 - v"] conjI) (auto simp: oriented_simps back_exact)
next
  case Flipped270
  with assms show ?thesis by (intro exI [of _ "h - 1 - v"] exI [of _ "w - 1 - u"] conjI) (auto simp: oriented_simps back_exact)
qed (use assms in \<open>auto simp: oriented_simps\<close>)

definition in_rectangle :: "nat \<Rightarrow> nat \<Rightarrow> damage_rectangle \<Rightarrow> bool" where
  "in_rectangle x y d \<longleftrightarrow> dr_x d \<le> x \<and> x < dr_x d + dr_width d \<and> dr_y d \<le> y \<and> y < dr_y d + dr_height d"

lemma damage_inside_facts:
  assumes "damage_inside crop d" "cr_width crop < 2 ^ 64" "cr_height crop < 2 ^ 64"
  shows "0 < dr_width d" "0 < dr_height d" "dr_x d + dr_width d \<le> cr_width crop" "dr_y d + dr_height d \<le> cr_height crop"
  using assms by (auto simp: damage_inside_def size_sub_exact)

lemma far_exact:
  "dr_x d + dr_width d \<le> w \<Longrightarrow> w < 2 ^ 64 \<Longrightarrow> far_x d w = w - dr_x d - dr_width d"
  "dr_y d + dr_height d \<le> h \<Longrightarrow> h < 2 ^ 64 \<Longrightarrow> far_y d h = h - dr_y d - dr_height d"
  by (simp_all add: far_x_def far_y_def size_sub_exact)

lemma transform_damage_pixels:
  assumes "w < 2 ^ 64" "h < 2 ^ 64" "dr_x d + dr_width d \<le> w" "dr_y d + dr_height d \<le> h"
    and "x < oriented_width w h orientation" "y < oriented_height w h orientation"
    and "source_coordinate x y w h orientation = (u, v)"
  shows "in_rectangle x y (transform_damage d w h orientation) \<longleftrightarrow> in_rectangle u v d"
  using assms by (cases orientation) (auto simp: in_rectangle_def oriented_simps back_exact far_exact)

lemma transform_damage_inside:
  assumes "w < 2 ^ 64" "h < 2 ^ 64" "dr_x d + dr_width d \<le> w" "dr_y d + dr_height d \<le> h"
    and "r = transform_damage d w h orientation"
  shows "dr_x r + dr_width r \<le> oriented_width w h orientation" "dr_y r + dr_height r \<le> oriented_height w h orientation"
  using assms by (cases orientation; simp add: oriented_simps far_exact)+

lemma index_bytes:
  "x < w \<Longrightarrow> y < h \<Longrightarrow> w * h * 4 < 2 ^ 64 \<Longrightarrow>
   size_add (size_mul y (w * 4)) (size_mul x 4) = 4 * (y * w + x) \<and> 4 * (y * w + x) + 4 \<le> 4 * (w * h)"
  for w :: nat
proof -
  assume a: "x < w" "y < h" "w * h * 4 < 2 ^ 64"
  have "y * w + x + 1 \<le> w * h" using image_index [OF a(1,2)] by simp
  then have "4 * (y * w + x + 1) \<le> 4 * (w * h)" by (rule mult_left_mono) simp
  then have b: "4 * (y * w + x) + 4 \<le> 4 * (w * h)" by simp
  then have "y * (w * 4) + x * 4 < 2 ^ 64" using a(3) by (simp add: algebra_simps)
  moreover from this have "size_mul y (w * 4) = y * (w * 4)" "size_mul x 4 = x * 4"
    by (rule size_mul_exact [OF order.strict_trans1 [rotated]], simp)+
  ultimately have "size_add (size_mul y (w * 4)) (size_mul x 4) = y * (w * 4) + x * 4"
    by (simp only: size_add_exact)
  with b show ?thesis by (simp add: algebra_simps)
qed

lemma normalized_pixels:
  assumes "w < 2 ^ 64" "h < 2 ^ 64" "w * h * 4 < 2 ^ 64"
    and "ge_visible_width (cf_geometry source) = w" "ge_visible_height (cf_geometry source) = h"
    and "cf_pitch source = w * 4" "length (cf_pixels source) = 4 * (w * h)"
    and "ge_visible_width (cf_geometry destination) = dw" "ge_visible_height (cf_geometry destination) = dh"
    and "dw = oriented_width w h orientation" "dh = oriented_height w h orientation"
    and "frame = normalize_orientation source orientation destination" "0 < w" "0 < h"
  shows "length (cf_pixels frame) = 4 * (dw * dh)" "cf_pitch frame = dw * 4"
    "x < dw \<Longrightarrow> y < dh \<Longrightarrow> source_coordinate x y w h orientation = (u, v) \<Longrightarrow>
       pixel (cf_pixels frame) (y * dw + x) = pixel (cf_pixels source) (v * w + u)"
proof -
  have area: "dw * dh = w * h" by (simp add: assms(10,11) oriented_simps mult.commute)
  have pos: "0 < dw" "0 < dh" using assms(10,11,13,14) by (simp_all add: oriented_simps)
  have small: "dw * dh * 4 < 2 ^ 64" using assms(3) area by simp
  have "dw * 4 \<le> dw * dh * 4" using pos by simp
  from this small have "dw * 4 < 2 ^ 64" by (rule order.strict_trans1)
  then have pitch: "size_mul dw 4 = dw * 4" by (rule size_mul_exact)
  have "dw * 4 * dh < 2 ^ 64" using small by (simp only: ac_simps)
  then have total: "size_mul (dw * 4) dh = dw * 4 * dh" by (rule size_mul_exact)
  define px where "px y x = (case source_coordinate x y w h orientation of (u, v) \<Rightarrow> pixel (cf_pixels source) (v * w + u))" for y x
  have len: "length (px y x) = 4" if "x < dw" "y < dh" for x y
  proof -
    obtain u v where uv: "source_coordinate x y w h orientation = (u, v)" by fastforce
    with source_coordinate_inside [OF assms(1,2) _ _ uv] that assms(10,11) have "u < w" "v < h" by simp_all
    with index_bytes [OF this assms(3)] assms(7) have "4 * (v * w + u) + 4 \<le> length (cf_pixels source)" by simp
    from pixel_length [OF this] show ?thesis by (simp add: px_def uv)
  qed
  have one: "normalize_pixel source orientation (dw * 4) y xs x = copy_into xs (y * (dw * 4) + x * 4) (px y x)"
    if xy: "x < dw" "y < dh" for x y xs
  proof -
    obtain u v where uv: "source_coordinate x y w h orientation = (u, v)" by fastforce
    with source_coordinate_inside [OF assms(1,2) _ _ uv] xy assms(10,11) have "u < w" "v < h" by simp_all
    with index_bytes [OF this assms(3)] index_bytes [OF xy small] uv assms(4-6) show ?thesis
      by (simp add: normalize_pixel_def px_def pixel_def algebra_simps)
  qed
  define row where "row y = concat (map (px y) [0..<dw])" for y
  have row_len: "length (row y) = dw * 4" if "y < dh" for y
    unfolding row_def by (rule length_concat_blocks) (use len that in auto)
  have row: "foldl (normalize_pixel source orientation (dw * 4) y) xs [0..<dw] = copy_into xs (0 + y * (dw * 4)) (row y)"
    if "y < dh" "length xs = dw * 4 * dh" for y xs
  proof -
    have "y * (dw * 4) + dw * 4 \<le> dw * 4 * dh" using image_index [of 0 "dw * 4" y dh] that(1) pos
      by (metis Suc_leI add.commute mult.commute mult_Suc mult_le_mono1)
    then show ?thesis
      using foldl_blocks [of dw "dw * 4 * dh" "normalize_pixel source orientation (dw * 4) y" "y * (dw * 4)" 4 "px y" xs]
        one len that by (simp add: row_def)
  qed
  have pixels: "cf_pixels frame = concat (map row [0..<dh])"
    using foldl_blocks [of dh "dw * 4 * dh" "\<lambda>xs y. foldl (normalize_pixel source orientation (dw * 4) y) xs [0..<dw]" 0
        "dw * 4" row "replicate (dw * 4 * dh) 0"] row row_len length_concat_blocks [of dh row "dw * 4"]
    by (simp add: assms(8,9,12) normalize_orientation_def pitch total copy_into_all mult.commute)
  then show "length (cf_pixels frame) = 4 * (dw * dh)" using length_concat_blocks [of dh row "dw * 4"] row_len by simp
  show "cf_pitch frame = dw * 4" by (simp add: assms(8,12) normalize_orientation_def pitch Let_def)
  assume xy: "x < dw" "y < dh" and uv: "source_coordinate x y w h orientation = (u, v)"
  have "pixel (cf_pixels frame) (y * dw + x) = take 4 (drop (x * 4) (take (dw * 4) (drop (y * (dw * 4)) (cf_pixels frame))))"
    using xy(1) by (simp add: pixel_def drop_take algebra_simps min_def)
  also have "\<dots> = take 4 (drop (x * 4) (row y))" using concat_block [OF row_len xy(2)] by (simp add: pixels)
  also have "\<dots> = px y x" unfolding row_def by (rule concat_block) (use len xy in auto)
  finally show "pixel (cf_pixels frame) (y * dw + x) = pixel (cf_pixels source) (v * w + u)" by (simp add: px_def uv)
qed

section \<open>The cursor image\<close>

text \<open>What one cursor pixel does to the pixel under it, and which cursor pixel covers a position.\<close>

definition blend_pixel :: "packed_pixel_order \<Rightarrow> u8 list \<Rightarrow> u8 list \<Rightarrow> u8 list" where
  "blend_pixel order fore ground =
     (let mix = (\<lambda>c k. blend (fore ! c) (ground ! k) (fore ! 3)) in
      case order of Rgba \<Rightarrow> [mix 0 0, mix 1 1, mix 2 2, 255] | Bgra \<Rightarrow> [mix 2 0, mix 1 1, mix 0 2, 255])"

lemma blend_value:
  "unat (blend f b a) = (unat f * unat a + unat b * (255 - unat a) + 127) div 255"
proof -
  have lt: "unat f < 256" "unat b < 256" "unat a < 256" using unsigned_less [of f] unsigned_less [of b] unsigned_less [of a] by simp_all
  have fa: "unat f * unat a \<le> 255 * 255" "unat b * (255 - unat a) \<le> 255 * 255" using lt by (intro mult_mono; simp)+
  have u: "unat (ucast x :: u32) = unat x" if "unat x < 256" for x :: u8
    using that by (simp add: unsigned_ucast_eq take_bit_nat_eq_self)
  have s: "unat (255 - ucast a :: u32) = 255 - unat a"
    using unat_sub [of "ucast a :: u32" 255] lt(3) u by (simp add: word_le_nat_alt)
  have n: "unat ((ucast f :: u32) * ucast a + ucast b * (255 - ucast a) + 127) = unat f * unat a + unat b * (255 - unat a) + 127"
    using fa s lt u by (simp add: unat_word_ariths)
  have "unat f * unat a + unat b * (255 - unat a) \<le> 255 * unat a + 255 * (255 - unat a)"
    using lt by (intro add_mono mult_mono) auto
  then have "(unat f * unat a + unat b * (255 - unat a) + 127) div 255 < 256" using lt(3) by simp
  then show ?thesis
    by (simp add: blend_def Let_def unsigned_ucast_eq unat_div n take_bit_nat_eq_self)
qed

text \<open>An opaque cursor pixel replaces, a transparent one leaves, any other mixes in between.\<close>

lemma blend_between:
  "min (unat f) (unat b) \<le> unat (blend f b a)" "unat (blend f b a) \<le> max (unat f) (unat b)"
proof -
  let ?l = "min (unat f) (unat b)" and ?m = "max (unat f) (unat b)"
  have "unat a < 256" using unsigned_less [of a] by simp
  then have s: "unat a + (255 - unat a) = 255" by simp
  have "?l * 255 = ?l * unat a + ?l * (255 - unat a)" by (simp only: s flip: distrib_left)
  also have "\<dots> \<le> unat f * unat a + unat b * (255 - unat a)" by (intro add_mono mult_right_mono) auto
  finally have "?l * 255 div 255 \<le> (unat f * unat a + unat b * (255 - unat a) + 127) div 255"
    by (intro div_le_mono) simp
  then show "?l \<le> unat (blend f b a)" by (simp add: blend_value)
  have "unat f * unat a + unat b * (255 - unat a) \<le> ?m * unat a + ?m * (255 - unat a)" by (intro add_mono mult_right_mono) auto
  also have "\<dots> = ?m * 255" by (simp only: s flip: distrib_left)
  finally have "(unat f * unat a + unat b * (255 - unat a) + 127) div 255 \<le> (?m * 255 + 127) div 255"
    by (intro div_le_mono) simp
  then show "unat (blend f b a) \<le> ?m" by (simp add: blend_value)
qed

lemma blend_opaque: "blend f b 255 = f"
proof -
  have "unat (blend f b 255) = unat f" by (simp add: blend_value)
  then show ?thesis by (simp only: word_unat_eq_iff)
qed

definition cursor_pixel :: "cursor_metadata_view \<Rightarrow> nat \<Rightarrow> nat \<Rightarrow> u8 list" where
  "cursor_pixel cursor cx cy = take 4 (drop (cy * cu_pitch cursor + cx * 4) (cu_rgba cursor))"

lemma int64_of_size_exact: "n < 2 ^ 63 \<Longrightarrow> int64_of_size n = int n"
  by (simp add: int64_of_size_def signed_of_nat signed_take_bit_int_eq_self)

lemma cursor_bytes:
  assumes "cursor_bitmap_valid c" "cu_height c < 2 ^ 64" "cx < cu_width c" "cy < cu_height c"
  shows "cy * cu_pitch c + cx * 4 + 4 \<le> length (cu_rgba c)"
proof -
  from assms(1) obtain row where r: "checked_multiply (cu_width c) 4 = Some row" "row \<le> cu_pitch c"
    "image_fits (cu_height c) (cu_pitch c) row (cu_rgba c)"
    by (auto simp: cursor_bitmap_valid_def split: option.splits)
  have row: "row = cu_width c * 4" using checked_multiply_Some [OF r(1)] by simp
  have "cy * cu_pitch c \<le> (cu_height c - 1) * cu_pitch c" using assms(4) by (intro mult_right_mono) auto
  moreover have "cx * 4 + 4 \<le> cu_width c * 4" using assms(3) by simp
  ultimately have "cy * cu_pitch c + (cx * 4 + 4) \<le> (cu_height c - 1) * cu_pitch c + cu_width c * 4" by (rule add_mono)
  also have "\<dots> \<le> length (cu_rgba c)" using image_fits_bytes [OF r(3)] assms(2,4) row by simp
  finally show ?thesis by simp
qed

lemma split_four:
  fixes xs :: "'a list"
  assumes "off + 4 \<le> length xs"
  obtains P a b c d S where "xs = P @ [a, b, c, d] @ S" "length P = off"
proof -
  have "length (take 4 (drop off xs)) = 4" using assms by simp
  moreover have "\<exists>a b c d. ys = [a, b, c, d]" if "length ys = 4" for ys :: "'a list"
    using that by (auto simp: length_Suc_conv numeral_eq_Suc)
  ultimately obtain a b c d where "take 4 (drop off xs) = [a, b, c, d]" by blast
  then have "xs = take off xs @ [a, b, c, d] @ drop 4 (drop off xs)" by (metis append_take_drop_id)
  moreover have "length (take off xs) = off" using assms by simp
  ultimately show ?thesis by (rule that)
qed

lemma blend_block:
  assumes "off + 4 \<le> length pixels" "src + 4 \<le> length rgba" "off + 4 < 2 ^ 64" "src + 4 < 2 ^ 64"
  shows "(foldl (blend_channel order rgba src off) pixels [0..<3])[size_add off 3 := 255] =
    copy_into pixels off (blend_pixel order (take 4 (drop src rgba)) (take 4 (drop off pixels)))"
proof -
  obtain P a b c d S where p: "pixels = P @ [a, b, c, d] @ S" "length P = off" using split_four [OF assms(1)] .
  obtain Q r g u v T where q: "rgba = Q @ [r, g, u, v] @ T" "length Q = src" using split_four [OF assms(2)] .
  have three: "[0..<3] = [0, 1, 2 :: nat]" by (simp add: upt_rec)
  have e: "size_add (length P) k = length P + k" "size_add (length Q) k = length Q + k" if "k < 4" for k
    using that assms(3,4) p(2) q(2) by (simp_all add: size_add_exact)
  show ?thesis unfolding p(1) q(1) p(2) [symmetric] q(2) [symmetric]
    by (cases order) (simp_all add: three blend_channel_def Let_def e destination_channels_def blend_pixel_def
        copy_into_def nth_append list_update_append)
qed

definition cursor_frame :: "captured_frame \<Rightarrow> cursor_metadata_view \<Rightarrow> nat \<Rightarrow> nat \<Rightarrow> bool" where
  "cursor_frame f c w h \<longleftrightarrow>
     ge_visible_width (cf_geometry f) = w \<and> ge_visible_height (cf_geometry f) = h \<and> cf_pitch f = w * 4 \<and>
     0 < w \<and> 0 < h \<and> w * h * 4 < 2 ^ 63 \<and> cursor_bitmap_valid c \<and> cu_height c < 2 ^ 64 \<and> length (cu_rgba c) < 2 ^ 63"

lemma cursor_frame_sizes:
  assumes "cursor_frame f c w h"
  shows "w < 2 ^ 63" "h < 2 ^ 63" "w * h * 4 < 2 ^ 64"
    "cx < cu_width c \<Longrightarrow> cy < cu_height c \<Longrightarrow> cx < 2 ^ 63 \<and> cy < 2 ^ 63"
proof -
  have a: "0 < w" "0 < h" "w * h * 4 < 2 ^ 63" using assms by (simp_all add: cursor_frame_def)
  then show "w * h * 4 < 2 ^ 64" by simp
  from a have "w * 1 \<le> w * h * 4" "1 * h \<le> w * h * 4" by simp_all
  with a(3) show "w < 2 ^ 63" "h < 2 ^ 63" by linarith+
  assume xy: "cx < cu_width c" "cy < cu_height c"
  have v: "cursor_bitmap_valid c" "cu_height c < 2 ^ 64" "length (cu_rgba c) < 2 ^ 63" using assms by (simp_all add: cursor_frame_def)
  have b: "cy * cu_pitch c + cx * 4 + 4 \<le> length (cu_rgba c)" by (rule cursor_bytes [OF v(1,2) xy])
  have "0 < cu_pitch c" using v(1) by (auto simp: cursor_bitmap_valid_def dest!: checked_multiply_Some split: option.splits)
  then have "cy \<le> cy * cu_pitch c" by simp
  with b v(3) show "cx < 2 ^ 63 \<and> cy < 2 ^ 63" by linarith
qed

lemma composite_pixel_step:
  assumes "cursor_frame f c w h" "cx < cu_width c" "cy < cu_height c" "length pixels = 4 * (w * h)"
    and "0 \<le> dy" "dy < int h" "i = nat dy * w + nat (left + int cx)"
  shows "composite_pixel f c left cy dy pixels cx =
    (if 0 \<le> left + int cx \<and> left + int cx < int w
     then copy_into pixels (4 * i) (blend_pixel (cf_pixel_order f) (cursor_pixel c cx cy) (pixel pixels i))
     else pixels)"
proof -
  note z = cursor_frame_sizes [OF assms(1)]
  have g: "ge_visible_width (cf_geometry f) = w" "cf_pitch f = w * 4" "cursor_bitmap_valid c" "cu_height c < 2 ^ 64"
    "length (cu_rgba c) < 2 ^ 63" using assms(1) by (simp_all add: cursor_frame_def)
  have casts: "int64_of_size cx = int cx" "int64_of_size w = int w" using z(4) [OF assms(2,3)] z(1) by (simp_all add: int64_of_size_exact)
  show ?thesis
  proof (cases "0 \<le> left + int cx \<and> left + int cx < int w")
    case False
    then show ?thesis by (auto simp: composite_pixel_def g casts)
  next
    case True
    have d: "nat (left + int cx) < w" "nat dy < h" using True assms(5,6) by (simp_all add: nat_less_iff)
    have off: "size_add (size_mul (nat dy) (w * 4)) (size_mul (nat (left + int cx)) 4) = 4 * i" "4 * i + 4 \<le> 4 * (w * h)"
      using index_bytes [OF d z(3)] unfolding assms(7) by blast+
    have src: "cy * cu_pitch c + cx * 4 + 4 \<le> length (cu_rgba c)" by (rule cursor_bytes [OF g(3,4) assms(2,3)])
    with g(5) have s: "cy * cu_pitch c < 2 ^ 64" "cx * 4 < 2 ^ 64" "cy * cu_pitch c + cx * 4 < 2 ^ 64"
      "cy * cu_pitch c + cx * 4 + 4 < 2 ^ 64" by simp_all
    then have so: "size_add (size_mul cy (cu_pitch c)) (size_mul cx 4) = cy * cu_pitch c + cx * 4"
      by (simp only: size_mul_exact size_add_exact)
    have "4 * (w * h) < 2 ^ 64" using z(3) by simp
    with off(2) have p: "4 * i + 4 \<le> length pixels" "4 * i + 4 < 2 ^ 64" using assms(4) by linarith+
    have "composite_pixel f c left cy dy pixels cx =
      (foldl (blend_channel (cf_pixel_order f) (cu_rgba c) (cy * cu_pitch c + cx * 4) (4 * i)) pixels [0..<3])[size_add (4 * i) 3 := 255]"
      using True by (simp only: composite_pixel_def Let_def g(1,2) casts so off(1)) auto
    also note blend_block [OF p(1) src p(2) s(4)]
    finally show ?thesis using True by (simp add: cursor_pixel_def pixel_def)
  qed
qed

text \<open>A row of cursor pixels, then all rows: each pixel under the cursor is blended once, the others
  stay.\<close>

lemma composite_pixels:
  assumes "cursor_frame f c w h" "cy < cu_height c" "length pixels = 4 * (w * h)"
    and "0 \<le> dy" "dy < int h" "n \<le> cu_width c"
    and "result = foldl (composite_pixel f c left cy dy) pixels [0..<n]"
  shows "length result = 4 * (w * h)"
    "x < w \<Longrightarrow> y < h \<Longrightarrow> pixel result (y * w + x) =
       (if int y = dy \<and> 0 \<le> int x - left \<and> int x - left < int n
        then blend_pixel (cf_pixel_order f) (cursor_pixel c (nat (int x - left)) cy) (pixel pixels (y * w + x))
        else pixel pixels (y * w + x))"
proof -
  let ?b = "\<lambda>x y. blend_pixel (cf_pixel_order f) (cursor_pixel c (nat (int x - left)) cy) (pixel pixels (y * w + x))"
  have "length result = 4 * (w * h) \<and> (\<forall>x < w. \<forall>y < h. pixel result (y * w + x) =
     (if int y = dy \<and> 0 \<le> int x - left \<and> int x - left < int n then ?b x y else pixel pixels (y * w + x)))"
    using assms(6,7)
  proof (induction n arbitrary: result)
    case 0
    then show ?case using assms(3) by auto
  next
    case (Suc n)
    define before where "before = foldl (composite_pixel f c left cy dy) pixels [0..<n]"
    define i where "i = nat dy * w + nat (left + int n)"
    have IH: "length before = 4 * (w * h)" "\<And>x y. x < w \<Longrightarrow> y < h \<Longrightarrow> pixel before (y * w + x) =
       (if int y = dy \<and> 0 \<le> int x - left \<and> int x - left < int n then ?b x y else pixel pixels (y * w + x))"
      using Suc.IH [OF _ before_def] Suc.prems(1) by auto
    have step: "result = (if 0 \<le> left + int n \<and> left + int n < int w
       then copy_into before (4 * i) (blend_pixel (cf_pixel_order f) (cursor_pixel c n cy) (pixel before i)) else before)"
      using composite_pixel_step [OF assms(1) _ assms(2) IH(1) assms(4,5) i_def] Suc.prems by (simp add: before_def)
    show ?case
    proof (cases "0 \<le> left + int n \<and> left + int n < int w")
      case False
      with step IH show ?thesis by auto
    next
      case True
      have d: "nat (left + int n) < w" "nat dy < h" using True assms(4,5) by (simp_all add: nat_less_iff)
      note inside = index_bytes [OF d cursor_frame_sizes(3) [OF assms(1)]]
      have four: "length (blend_pixel (cf_pixel_order f) p q) = 4" for p q
        by (simp add: blend_pixel_def Let_def split: packed_pixel_order.split)
      have "length result = 4 * (w * h)" using step True IH(1) four inside i_def by (simp add: copy_into_length)
      moreover have "pixel result (y * w + x) =
        (if int y = dy \<and> 0 \<le> int x - left \<and> int x - left < int (Suc n) then ?b x y else pixel pixels (y * w + x))"
        if xy: "x < w" "y < h" for x y
      proof -
        note at = index_bytes [OF xy cursor_frame_sizes(3) [OF assms(1)]]
        have same: "y * w + x = i \<longleftrightarrow> int y = dy \<and> int x - left = int n"
          using image_index_inj [of y w x "nat dy" "nat (left + int n)"] xy(1) d True assms(4) unfolding i_def by auto
        have "pixel result (y * w + x) = (if y * w + x = i
            then blend_pixel (cf_pixel_order f) (cursor_pixel c n cy) (pixel before i) else pixel before (y * w + x))"
          using pixel_copy_into [OF four, of i before "y * w + x"] step True IH(1) inside at i_def by simp
        then show ?thesis using IH(2) [OF xy] same by auto
      qed
      ultimately show ?thesis by blast
    qed
  qed
  then show "length result = 4 * (w * h)" "x < w \<Longrightarrow> y < h \<Longrightarrow> pixel result (y * w + x) =
     (if int y = dy \<and> 0 \<le> int x - left \<and> int x - left < int n then ?b x y else pixel pixels (y * w + x))" by blast+
qed

lemma composite_rows:
  assumes "cursor_frame f c w h" "length pixels = 4 * (w * h)" "n \<le> cu_height c"
    and "result = foldl (composite_row f c left upper) pixels [0..<n]"
  shows "length result = 4 * (w * h)"
    "x < w \<Longrightarrow> y < h \<Longrightarrow> pixel result (y * w + x) =
       (if 0 \<le> int y - upper \<and> int y - upper < int n \<and> 0 \<le> int x - left \<and> int x - left < int (cu_width c)
        then blend_pixel (cf_pixel_order f) (cursor_pixel c (nat (int x - left)) (nat (int y - upper))) (pixel pixels (y * w + x))
        else pixel pixels (y * w + x))"
proof -
  let ?b = "\<lambda>x y. blend_pixel (cf_pixel_order f) (cursor_pixel c (nat (int x - left)) (nat (int y - upper))) (pixel pixels (y * w + x))"
  have "length result = 4 * (w * h) \<and> (\<forall>x < w. \<forall>y < h. pixel result (y * w + x) =
     (if 0 \<le> int y - upper \<and> int y - upper < int n \<and> 0 \<le> int x - left \<and> int x - left < int (cu_width c)
      then ?b x y else pixel pixels (y * w + x)))"
    using assms(3,4)
  proof (induction n arbitrary: result)
    case 0
    then show ?case using assms(2) by auto
  next
    case (Suc n)
    define before where "before = foldl (composite_row f c left upper) pixels [0..<n]"
    have IH: "length before = 4 * (w * h)" "\<And>x y. x < w \<Longrightarrow> y < h \<Longrightarrow> pixel before (y * w + x) =
       (if 0 \<le> int y - upper \<and> int y - upper < int n \<and> 0 \<le> int x - left \<and> int x - left < int (cu_width c)
        then ?b x y else pixel pixels (y * w + x))"
      using Suc.IH [OF _ before_def] Suc.prems(1) by auto
    have run: "result = composite_row f c left upper before n" using Suc.prems(2) by (simp add: before_def)
    have "0 < cu_width c" using assms(1) by (simp add: cursor_frame_def cursor_bitmap_valid_def)
    then have casts: "int64_of_size n = int n" "int64_of_size h = int h" "ge_visible_height (cf_geometry f) = h"
      using cursor_frame_sizes(2) [OF assms(1)] cursor_frame_sizes(4) [OF assms(1), of 0 n] Suc.prems(1) assms(1)
      by (simp_all add: int64_of_size_exact cursor_frame_def)
    show ?case
    proof (cases "0 \<le> upper + int n \<and> upper + int n < int h")
      case False
      then have "result = before" using run by (auto simp: composite_row_def casts)
      with IH False show ?thesis by auto
    next
      case True
      have "n < cu_height c" using Suc.prems(1) by simp
      have r: "result = foldl (composite_pixel f c left n (upper + int n)) before [0..<cu_width c]"
        using run True by (simp add: composite_row_def casts Let_def)
      have px: "pixel result (y * w + x) =
          (if int y = upper + int n \<and> 0 \<le> int x - left \<and> int x - left < int (cu_width c)
           then blend_pixel (cf_pixel_order f) (cursor_pixel c (nat (int x - left)) n) (pixel before (y * w + x))
           else pixel before (y * w + x))" if "x < w" "y < h" for x y
        using composite_pixels(2) [OF assms(1) \<open>n < cu_height c\<close> IH(1) _ _ order.refl r] True that by simp
      have "length result = 4 * (w * h)"
        using composite_pixels(1) [OF assms(1) \<open>n < cu_height c\<close> IH(1) _ _ order.refl r] True by simp
      moreover have "pixel result (y * w + x) =
        (if 0 \<le> int y - upper \<and> int y - upper < int (Suc n) \<and> 0 \<le> int x - left \<and> int x - left < int (cu_width c)
         then ?b x y else pixel pixels (y * w + x))" if xy: "x < w" "y < h" for x y
      proof (cases "int y = upper + int n")
        case True
        then have "nat (int y - upper) = n" by simp
        with True px [OF xy] IH(2) [OF xy] show ?thesis by auto
      next
        case False
        with px [OF xy] IH(2) [OF xy] show ?thesis by auto
      qed
      ultimately show ?thesis by blast
    qed
  qed
  then show "length result = 4 * (w * h)" "x < w \<Longrightarrow> y < h \<Longrightarrow> pixel result (y * w + x) =
     (if 0 \<le> int y - upper \<and> int y - upper < int n \<and> 0 \<le> int x - left \<and> int x - left < int (cu_width c)
      then ?b x y else pixel pixels (y * w + x))" by blast+
qed

section \<open>The captured frame\<close>

text \<open>What a position of the crop shows: the buffer's pixel, with the cursor image over it.\<close>

definition shown_pixel :: "shared_memory_buffer_view \<Rightarrow> nat \<Rightarrow> nat \<Rightarrow> u8 list" where
  "shown_pixel b x y =
     (if has_cursor_image b then
        let c = the (bv_cursor b);
            cx = int x - (sint (cu_x c) - sint (cu_hotspot_x c) - int (cr_x (bv_crop b)));
            cy = int y - (sint (cu_y c) - sint (cu_hotspot_y c) - int (cr_y (bv_crop b)))
        in if 0 \<le> cx \<and> cx < int (cu_width c) \<and> 0 \<le> cy \<and> cy < int (cu_height c)
           then blend_pixel (bv_pixel_order b) (cursor_pixel c (nat cx) (nat cy)) (crop_pixel b x y)
           else crop_pixel b x y
      else crop_pixel b x y)"

lemma valid_sizes:
  assumes "valid_buffer b = None" "size_fields b"
  shows "cr_width (bv_crop b) * cr_height (bv_crop b) * 4 < 2 ^ 63" "cr_x (bv_crop b) < 2 ^ 63" "cr_y (bv_crop b) < 2 ^ 63"
    "cr_width (bv_crop b) < 2 ^ 63" "cr_height (bv_crop b) < 2 ^ 63"
proof -
  note v = valid_buffer_facts [OF assms]
  have n: "length (bv_bytes b) < 2 ^ 63" using assms(2) by (simp add: size_fields_def)
  show area: "cr_width (bv_crop b) * cr_height (bv_crop b) * 4 < 2 ^ 63"
    using order.strict_trans1 [OF crop_sizes [OF assms] n] by (simp only: ac_simps)
  have w: "cr_width (bv_crop b) * 1 \<le> cr_width (bv_crop b) * cr_height (bv_crop b) * 4"
    "1 * cr_height (bv_crop b) \<le> cr_width (bv_crop b) * cr_height (bv_crop b) * 4" using v(1,2) by simp_all
  with area show "cr_width (bv_crop b) < 2 ^ 63" "cr_height (bv_crop b) < 2 ^ 63" by linarith+
  show "cr_x (bv_crop b) < 2 ^ 63" using v(3,6) n by linarith
  have "0 < bv_pitch b" using v(1,3,5) by linarith
  then have "bv_height b - 1 \<le> (bv_height b - 1) * bv_pitch b" by simp
  then show "cr_y (bv_crop b) < 2 ^ 63" using v(2,4,6) n by linarith
qed

lemma source_frame_pixels:
  assumes "valid_buffer b = None" "size_fields b"
    and "w = cr_width (bv_crop b)" "h = cr_height (bv_crop b)" "f = copy_source_frame b (make_geometry e b)"
  shows "ge_visible_width (cf_geometry f) = w" "ge_visible_height (cf_geometry f) = h" "cf_pitch f = w * 4"
    "length (cf_pixels f) = 4 * (w * h)" "x < w \<Longrightarrow> y < h \<Longrightarrow> pixel (cf_pixels f) (y * w + x) = shown_pixel b x y"
proof -
  note v = valid_buffer_facts [OF assms(1,2)] and z = valid_sizes [OF assms(1,2)]
  have "w * 4 \<le> w * h * 4" using v(2) assms(4) by simp
  then have "w * 4 < 2 ^ 63" using z(1) unfolding assms(3,4) by (rule order.strict_trans1)
  then have pitch: "size_mul w 4 = w * 4" by (intro size_mul_exact) simp
  define rows where "rows = foldl (copy_row b (size_mul w 4)) (replicate (size_mul (size_mul w 4) h) 0) [0..<h]"
  note r = copied_rows [OF assms(1-4) refl rows_def]
  define s where "s = new_frame\<lparr>cf_geometry := (make_geometry e b)\<lparr>ge_visible_width := w, ge_visible_height := h\<rparr>,
     cf_pitch := w * 4, cf_pixel_order := bv_pixel_order b, cf_cursor_mode := bv_cursor_mode b, cf_pixels := rows\<rparr>"
  have f: "f = (if has_cursor_image b then composite_cursor s (the (bv_cursor b)) else s)"
    by (simp add: assms(3-5) copy_source_frame_def s_def rows_def Let_def pitch [unfolded assms(3)] assms(3,4))
  have s: "ge_visible_width (cf_geometry s) = w" "ge_visible_height (cf_geometry s) = h" "cf_pitch s = w * 4"
    "cf_pixels s = rows" "ge_source_crop (cf_geometry s) = bv_crop b" "cf_pixel_order s = bv_pixel_order b"
    by (simp_all add: s_def make_geometry_def Let_def)
  show "ge_visible_width (cf_geometry f) = w" "ge_visible_height (cf_geometry f) = h" "cf_pitch f = w * 4"
    by (simp_all add: f s composite_cursor_def Let_def)
  have "length (cf_pixels f) = 4 * (w * h) \<and> (\<forall>x < w. \<forall>y < h. pixel (cf_pixels f) (y * w + x) = shown_pixel b x y)"
  proof (cases "has_cursor_image b")
    case False
    with f s r show ?thesis by (simp add: shown_pixel_def)
  next
    case True
    then obtain c where c: "bv_cursor b = Some c" by (auto simp: has_cursor_image_def)
    have cf: "cursor_frame s c w h"
      using s v(1,2,8) z(1) True c assms(2-4) by (simp add: cursor_frame_def size_fields_def)
    have place: "cursor_left (cf_geometry s) c = sint (cu_x c) - sint (cu_hotspot_x c) - int (cr_x (bv_crop b))"
      "cursor_top (cf_geometry s) c = sint (cu_y c) - sint (cu_hotspot_y c) - int (cr_y (bv_crop b))"
      using z(2,3) by (simp_all add: cursor_left_def cursor_top_def s int64_of_size_exact)
    have "cf_pixels f = foldl (composite_row s c (cursor_left (cf_geometry s) c) (cursor_top (cf_geometry s) c)) rows [0..<cu_height c]"
      using True by (simp add: f c composite_cursor_def s Let_def)
    note rows' = composite_rows [OF cf r(1) order.refl this]
    show ?thesis using rows' r(2) True by (auto simp: shown_pixel_def c Let_def place s(6))
  qed
  then show "length (cf_pixels f) = 4 * (w * h)" "x < w \<Longrightarrow> y < h \<Longrightarrow> pixel (cf_pixels f) (y * w + x) = shown_pixel b x y"
    by blast+
qed


definition sample_buffer :: shared_memory_buffer_view where
  "sample_buffer =
     \<lparr>bv_bytes = [1, 2, 3, 4, 5, 6, 7, 8, 9, 10, 11, 12], bv_width = 3, bv_height = 1, bv_pitch = 12,
      bv_crop = \<lparr>cr_x = 1, cr_y = 0, cr_width = 2, cr_height = 1\<rparr>, bv_pixel_order = Bgra, bv_orientation = Rotate90,
      bv_cursor_mode = Cursor_metadata,
      bv_cursor = Some \<lparr>cu_x = 2, cu_y = 0, cu_hotspot_x = 0, cu_hotspot_y = 0, cu_width = 1, cu_height = 1, cu_pitch = 4,
                        cu_rgba = [100, 110, 120, 255]\<rparr>,
      bv_damage = [\<lparr>dr_x = 1, dr_y = 0, dr_width = 1, dr_height = 1\<rparr>]\<rparr>"

lemma sample_buffer_valid: "valid_buffer sample_buffer = None" "size_fields sample_buffer"
  by (simp_all add: valid_buffer_def sample_buffer_def checked_multiply_def image_fits_def damage_inside_def
      cursor_bitmap_valid_def size_mul_def size_sub_def size_add_def size_fields_def)

lemma sample_fields:
  "cr_width (bv_crop sample_buffer) = 2" "cr_height (bv_crop sample_buffer) = 1" "bv_orientation sample_buffer = Rotate90"
  "ge_visible_width (make_geometry e sample_buffer) = 1" "ge_visible_height (make_geometry e sample_buffer) = 2"
  by (simp_all add: sample_buffer_def make_geometry_def Let_def swaps_dimensions_def)

lemma sample_shown: "shown_pixel sample_buffer 0 0 = [5, 6, 7, 8]" "shown_pixel sample_buffer (Suc 0) 0 = [120, 110, 100, 255]"
  by (simp_all add: shown_pixel_def sample_buffer_def has_cursor_image_def crop_pixel_def Let_def blend_pixel_def
      cursor_pixel_def blend_opaque)


text \<open>C36 (equivalence). The damage rectangles follow the pixels: each rectangle of the frame is
  non-empty, lies in the visible picture, and a visible position is in it exactly when the position
  of the crop shown there is in the damage the buffer reported.\<close>

theorem damage_follows_pixels:
  assumes "valid_buffer b = None" "size_fields b" "k < length (bv_damage b)"
    and "w = cr_width (bv_crop b)" "h = cr_height (bv_crop b)" "g = make_geometry e b"
    and "r = cf_damage (copy_frame b g i t) ! k"
  shows "0 < dr_width r \<and> 0 < dr_height r \<and>
    dr_x r + dr_width r \<le> ge_visible_width g \<and> dr_y r + dr_height r \<le> ge_visible_height g \<and>
    (\<forall>x < ge_visible_width g. \<forall>y < ge_visible_height g.
       in_rectangle x y r \<longleftrightarrow>
       (case source_coordinate x y w h (bv_orientation b) of (u, v) \<Rightarrow> in_rectangle u v (bv_damage b ! k)))"
proof -
  note z = valid_sizes [OF assms(1,2)]
  let ?d = "bv_damage b ! k"
  have lt: "w < 2 ^ 64" "h < 2 ^ 64" using z(4,5) assms(4,5) by simp_all
  have g: "ge_visible_width g = oriented_width w h (bv_orientation b)" "ge_visible_height g = oriented_height w h (bv_orientation b)"
    by (simp_all add: assms(4-6) make_geometry_def Let_def oriented_width_def oriented_height_def)
  have r: "r = transform_damage ?d w h (bv_orientation b)"
    using assms(3) by (simp add: assms(4,5,7) copy_frame_def Let_def normalize_orientation_def)
  have "damage_inside (bv_crop b) ?d" using valid_buffer_facts(7) [OF assms(1,2)] assms(3) by (simp add: list_all_length)
  note in_d = damage_inside_facts [OF this, unfolded assms(4,5) [symmetric], OF lt]
  have "0 < dr_width r \<and> 0 < dr_height r" using in_d(1,2) r by (cases "bv_orientation b") simp_all
  then show ?thesis
    using transform_damage_inside [OF lt in_d(3,4) r] transform_damage_pixels [OF lt in_d(3,4), of _ "bv_orientation b"]
    unfolding g r by (auto split: prod.splits)
qed

theorem damage_follows_pixels_witness:
  "let g = make_geometry 1 sample_buffer; r = cf_damage (copy_frame sample_buffer g 1 0) ! 0 in
   in_rectangle 0 1 r \<and> \<not> in_rectangle 0 0 r"
proof -
  let ?g = "make_geometry 1 sample_buffer"
  have d: "in_rectangle 1 0 (bv_damage sample_buffer ! 0)" "\<not> in_rectangle 0 0 (bv_damage sample_buffer ! 0)"
    "0 < length (bv_damage sample_buffer)" by (simp_all add: sample_buffer_def in_rectangle_def)
  have p: "\<forall>x < 1. \<forall>y < 2. in_rectangle x y (cf_damage (copy_frame sample_buffer ?g 1 0) ! 0) \<longleftrightarrow>
      (case source_coordinate x y 2 1 Rotate90 of (u, v) \<Rightarrow> in_rectangle u v (bv_damage sample_buffer ! 0))"
    using damage_follows_pixels [OF sample_buffer_valid d(3) refl refl refl refl, of 1 1 0]
    unfolding sample_fields by (elim conjE) assumption
  define r where "r = cf_damage (copy_frame sample_buffer ?g 1 0) ! 0"
  have "in_rectangle 0 1 r" "\<not> in_rectangle 0 0 r"
    using p [rule_format, of 0 0] p [rule_format, of 0 1] d unfolding r_def [symmetric] by (simp_all add: size_sub_def)
  then show ?thesis by (simp only: r_def Let_def simp_thms)
qed

end
