(* ===== verification/Capture_Pool.thy ===== *)
theory Capture_Pool
  imports Capture_Frame
begin

text \<open>
  The portal selection state machine and the shared-memory capture pool
  (\<^verbatim>\<open>src/capture/capture.cpp\<close>).

  An ingest takes the pool's mutex twice, to reserve a slot and to complete it, and copies the frame
  in between without it; the two critical sections are two operations here, so the theorems hold for
  every interleaving of ingests, leases, releases and a stop. Whether handing the buffer back to
  PipeWire throws and whether the copy runs out of memory are arguments.
\<close>

section \<open>Portal selection\<close>

datatype capture_state =
    Capture_idle | Creating_session | Selecting_sources | Starting | Streaming
  | Cancelled | Closed | Revoked | Disconnected

definition capture_terminal :: "capture_state \<Rightarrow> bool" where
  "capture_terminal s \<longleftrightarrow> s = Cancelled \<or> s = Closed \<or> s = Revoked \<or> s = Disconnected"

record portal_selection_contract =
  psc_window_sources_only :: bool
  psc_multiple :: bool
  psc_persist_mode :: u32
  psc_cursor_preference :: "cursor_mode list"

definition default_contract :: portal_selection_contract where
  "default_contract =
     \<lparr>psc_window_sources_only = True, psc_multiple = False, psc_persist_mode = 0,
      psc_cursor_preference = [Cursor_metadata, Cursor_embedded, Cursor_hidden]\<rparr>"

record portal_transition =
  pt_passed :: bool
  pt_reason :: string
  pt_state :: capture_state

record portal_selection =
  ps_contract :: portal_selection_contract
  ps_state :: capture_state
  ps_request_handle :: string
  ps_session_handle :: string
  ps_pipewire_node_id :: u32

definition new_portal :: portal_selection where
  "new_portal =
     \<lparr>ps_contract = default_contract, ps_state = Capture_idle, ps_request_handle = [], ps_session_handle = [],
      ps_pipewire_node_id = 0\<rparr>"

definition portal_refused :: "portal_selection \<Rightarrow> string \<Rightarrow> portal_transition \<times> portal_selection" where
  "portal_refused p reason = (\<lparr>pt_passed = False, pt_reason = reason, pt_state = ps_state p\<rparr>, p)"

definition portal_move :: "portal_selection \<Rightarrow> capture_state \<Rightarrow> string \<Rightarrow> portal_transition \<times> portal_selection" where
  "portal_move p state reason =
     (\<lparr>pt_passed = True, pt_reason = reason, pt_state = state\<rparr>, p\<lparr>ps_state := state\<rparr>)"

definition portal_expected :: "portal_selection \<Rightarrow> string \<Rightarrow> bool" where
  "portal_expected p request_handle \<longleftrightarrow> request_handle \<noteq> [] \<and> request_handle = ps_request_handle p"

definition portal_begin :: "portal_selection \<Rightarrow> string \<Rightarrow> portal_transition \<times> portal_selection" where
  "portal_begin p request_handle =
     (if ps_state p \<noteq> Capture_idle \<or> request_handle = [] then portal_refused p ''portal_create_request_invalid''
      else portal_move (p\<lparr>ps_request_handle := request_handle\<rparr>) Creating_session ''portal_create_session_pending'')"

definition portal_session_created ::
  "portal_selection \<Rightarrow> string \<Rightarrow> string \<Rightarrow> string \<Rightarrow> portal_transition \<times> portal_selection" where
  "portal_session_created p request_handle session_handle select_request_handle =
     (if ps_state p \<noteq> Creating_session \<or> \<not> portal_expected p request_handle \<or> session_handle = [] \<or>
         select_request_handle = []
      then portal_refused p ''portal_create_response_invalid''
      else portal_move (p\<lparr>ps_session_handle := session_handle, ps_request_handle := select_request_handle\<rparr>)
             Selecting_sources ''portal_select_sources_pending'')"

definition portal_sources_selected ::
  "portal_selection \<Rightarrow> string \<Rightarrow> string \<Rightarrow> portal_transition \<times> portal_selection" where
  "portal_sources_selected p request_handle start_request_handle =
     (if ps_state p \<noteq> Selecting_sources \<or> \<not> portal_expected p request_handle \<or> start_request_handle = []
      then portal_refused p ''portal_select_response_invalid''
      else portal_move (p\<lparr>ps_request_handle := start_request_handle\<rparr>) Starting ''portal_start_pending'')"

definition portal_started :: "portal_selection \<Rightarrow> string \<Rightarrow> u32 \<Rightarrow> portal_transition \<times> portal_selection" where
  "portal_started p request_handle pipewire_node_id =
     (if ps_state p \<noteq> Starting \<or> \<not> portal_expected p request_handle \<or> pipewire_node_id = 0
      then portal_refused p ''portal_start_response_invalid''
      else portal_move (p\<lparr>ps_request_handle := [], ps_pipewire_node_id := pipewire_node_id\<rparr>) Streaming ''portal_streaming'')"

definition forget_handles :: "portal_selection \<Rightarrow> portal_selection" where
  "forget_handles p = p\<lparr>ps_request_handle := [], ps_session_handle := [], ps_pipewire_node_id := 0\<rparr>"

definition portal_cancel :: "portal_selection \<Rightarrow> string \<Rightarrow> portal_transition \<times> portal_selection" where
  "portal_cancel p request_handle =
     (if capture_terminal (ps_state p) \<or> ps_state p = Streaming \<or> \<not> portal_expected p request_handle
      then portal_refused p ''portal_cancel_response_invalid''
      else portal_move (forget_handles p) Cancelled ''portal_selection_cancelled'')"

definition portal_close :: "portal_selection \<Rightarrow> capture_state \<Rightarrow> portal_transition \<times> portal_selection" where
  "portal_close p terminal_state =
     (if \<not> capture_terminal terminal_state \<or> terminal_state = Cancelled \<or> capture_terminal (ps_state p)
      then portal_refused p ''portal_terminal_transition_invalid''
      else portal_move (forget_handles p) terminal_state ''portal_session_terminated'')"

fun capture_state_name :: "capture_state \<Rightarrow> string" where
  "capture_state_name Capture_idle = ''idle''"
| "capture_state_name Creating_session = ''creating_session''"
| "capture_state_name Selecting_sources = ''selecting_sources''"
| "capture_state_name Starting = ''starting''"
| "capture_state_name Streaming = ''streaming''"
| "capture_state_name Cancelled = ''cancelled''"
| "capture_state_name Closed = ''closed''"
| "capture_state_name Revoked = ''revoked''"
| "capture_state_name Disconnected = ''disconnected''"

section \<open>The pool\<close>

datatype capture_slot_state = Slot_free | Slot_copying | Slot_ready | Slot_leased

record capture_slot =
  sl_state :: capture_slot_state
  sl_frame_id :: u64
  sl_frame :: "captured_frame option"

definition empty_slot :: capture_slot where
  "empty_slot = \<lparr>sl_state = Slot_free, sl_frame_id = 0, sl_frame = None\<rparr>"

record capture_pool_diagnostics =
  pd_capacity :: nat
  pd_ready :: nat
  pd_leased :: nat
  pd_accepted :: u64
  pd_dropped_oldest :: u64
  pd_dropped_starved :: u64
  pd_rejected :: u64
  pd_requeued :: u64
  pd_requeue_failures :: u64
  pd_admission_open :: bool
  pd_terminal_state :: capture_state

record capture_pool =
  cp_slots :: "capture_slot list"
  cp_geometry :: capture_geometry
  cp_next_frame_id :: u64
  cp_diagnostics :: capture_pool_diagnostics

definition make_capture_pool :: "nat \<Rightarrow> exn + capture_pool" where
  "make_capture_pool capacity =
     (if capacity = 0 \<or> capacity > 64
      then Inl (Invalid_argument ''capture pool capacity must be from 1 through 64'')
      else Inr \<lparr>cp_slots = replicate capacity empty_slot, cp_geometry = no_geometry, cp_next_frame_id = 1,
                cp_diagnostics =
                  \<lparr>pd_capacity = capacity, pd_ready = 0, pd_leased = 0, pd_accepted = 0, pd_dropped_oldest = 0,
                   pd_dropped_starved = 0, pd_rejected = 0, pd_requeued = 0, pd_requeue_failures = 0,
                   pd_admission_open = True, pd_terminal_state = Capture_idle\<rparr>\<rparr>)"

definition count_dropped_oldest :: "capture_pool \<Rightarrow> capture_pool" where
  "count_dropped_oldest p =
     p\<lparr>cp_diagnostics := (cp_diagnostics p)\<lparr>pd_dropped_oldest := pd_dropped_oldest (cp_diagnostics p) + 1\<rparr>\<rparr>"

definition count_dropped_starved :: "capture_pool \<Rightarrow> capture_pool" where
  "count_dropped_starved p =
     p\<lparr>cp_diagnostics := (cp_diagnostics p)\<lparr>pd_dropped_starved := pd_dropped_starved (cp_diagnostics p) + 1\<rparr>\<rparr>"

definition count_rejected :: "capture_pool \<Rightarrow> capture_pool" where
  "count_rejected p =
     p\<lparr>cp_diagnostics := (cp_diagnostics p)\<lparr>pd_rejected := pd_rejected (cp_diagnostics p) + 1\<rparr>\<rparr>"

definition count_requeue :: "bool \<Rightarrow> capture_pool \<Rightarrow> capture_pool" where
  "count_requeue requeued p =
     (let d = cp_diagnostics p in
      p\<lparr>cp_diagnostics := (if requeued then d\<lparr>pd_requeued := pd_requeued d + 1\<rparr>
                           else d\<lparr>pd_requeue_failures := pd_requeue_failures d + 1\<rparr>)\<rparr>)"

text \<open>The loop that frees ready slots, except one.\<close>

definition drop_slot :: "nat option \<Rightarrow> capture_pool \<Rightarrow> nat \<Rightarrow> capture_pool" where
  "drop_slot kept p i =
     (if kept \<noteq> Some i \<and> sl_state (cp_slots p ! i) = Slot_ready
      then count_dropped_oldest (p\<lparr>cp_slots := (cp_slots p)[i := empty_slot]\<rparr>) else p)"

definition drop_ready :: "nat option \<Rightarrow> capture_pool \<Rightarrow> capture_pool" where
  "drop_ready kept p = foldl (drop_slot kept) p [0..<length (cp_slots p)]"

definition find_free :: "capture_slot list \<Rightarrow> nat option" where
  "find_free slots = find (\<lambda>i. sl_state (slots ! i) = Slot_free) [0..<length slots]"

text \<open>The two scans over the ready slots: the first of the least and of the greatest frame number.\<close>

definition scan_ready :: "(u64 \<Rightarrow> u64 \<Rightarrow> bool) \<Rightarrow> capture_slot list \<Rightarrow> nat option \<Rightarrow> nat \<Rightarrow> nat option" where
  "scan_ready better slots selected i =
     (if sl_state (slots ! i) = Slot_ready \<and>
         (case selected of None \<Rightarrow> True | Some j \<Rightarrow> better (sl_frame_id (slots ! i)) (sl_frame_id (slots ! j)))
      then Some i else selected)"

definition oldest_ready :: "capture_slot list \<Rightarrow> nat option" where
  "oldest_ready slots = foldl (scan_ready (<) slots) None [0..<length slots]"

definition newest_ready :: "capture_slot list \<Rightarrow> nat option" where
  "newest_ready slots = foldl (scan_ready (>) slots) None [0..<length slots]"

section \<open>Ingest\<close>

record capture_ingress_result =
  ir_accepted :: bool
  ir_requeued :: bool
  ir_reason :: string
  ir_frame_id :: u64
  ir_geometry_epoch :: u64

definition no_ingress :: capture_ingress_result where
  "no_ingress = \<lparr>ir_accepted = False, ir_requeued = False, ir_reason = [], ir_frame_id = 0, ir_geometry_epoch = 0\<rparr>"

text \<open>What the reservation leaves to the rest of the call: a reason, the slot, its number (zero when
  there is none) and the geometry.\<close>

record reservation =
  rv_reason :: string
  rv_slot_index :: nat
  rv_frame_id :: u64
  rv_geometry :: capture_geometry

definition no_reservation :: "string \<Rightarrow> reservation" where
  "no_reservation reason = \<lparr>rv_reason = reason, rv_slot_index = 0, rv_frame_id = 0, rv_geometry = no_geometry\<rparr>"

definition adopt_geometry :: "shared_memory_buffer_view \<Rightarrow> capture_pool \<Rightarrow> capture_pool" where
  "adopt_geometry b p =
     (if ge_epoch (cp_geometry p) = 0 \<or> \<not> same_geometry (cp_geometry p) b
      then drop_ready None (p\<lparr>cp_geometry := make_geometry (ge_epoch (cp_geometry p) + 1) b\<rparr>) else p)"

definition reserve_slot :: "shared_memory_buffer_view \<Rightarrow> capture_pool \<Rightarrow> reservation \<times> capture_pool" where
  "reserve_slot b p =
     (if \<not> pd_admission_open (cp_diagnostics p) then (no_reservation ''capture_admission_closed'', p)
      else
        let p = adopt_geometry b p;
            available = (case find_free (cp_slots p) of Some i \<Rightarrow> Some i | None \<Rightarrow> oldest_ready (cp_slots p))
        in case available of
             None \<Rightarrow> (no_reservation ''capture_pool_starved'', count_dropped_starved p)
           | Some i \<Rightarrow>
               let p = (if sl_state (cp_slots p ! i) = Slot_ready then count_dropped_oldest p else p);
                   frame_id = cp_next_frame_id p
               in (\<lparr>rv_reason = [], rv_slot_index = i, rv_frame_id = frame_id, rv_geometry = cp_geometry p\<rparr>,
                   p\<lparr>cp_next_frame_id := frame_id + 1,
                     cp_slots := (cp_slots p)[i := \<lparr>sl_state = Slot_copying, sl_frame_id = frame_id, sl_frame = None\<rparr>]\<rparr>))"

text \<open>A refused buffer is handed back and counted.\<close>

definition reject_buffer :: "string \<Rightarrow> bool \<Rightarrow> capture_pool \<Rightarrow> capture_ingress_result \<times> capture_pool" where
  "reject_buffer reason requeued p =
     (no_ingress\<lparr>ir_requeued := requeued, ir_reason := (if requeued then reason else ''pipewire_requeue_failed'')\<rparr>,
      count_requeue requeued (count_rejected p))"

definition complete_slot ::
  "reservation \<Rightarrow> captured_frame option \<Rightarrow> bool \<Rightarrow> capture_pool \<Rightarrow> capture_ingress_result \<times> capture_pool" where
  "complete_slot r frame requeued p =
     (let result = no_ingress\<lparr>ir_requeued := requeued\<rparr>;
          slot = cp_slots p ! rv_slot_index r;
          p = count_requeue requeued p
      in
      if sl_state slot \<noteq> Slot_copying \<or> sl_frame_id slot \<noteq> rv_frame_id r
        then (result\<lparr>ir_reason := ''capture_slot_ownership_lost''\<rparr>, count_rejected p)
      else if \<not> requeued \<or> frame = None \<or> \<not> pd_admission_open (cp_diagnostics p) \<or>
              ge_epoch (cp_geometry p) \<noteq> ge_epoch (rv_geometry r)
        then (result\<lparr>ir_reason :=
                (if \<not> requeued then ''pipewire_requeue_failed''
                 else if frame = None then ''capture_frame_copy_failed''
                 else if \<not> pd_admission_open (cp_diagnostics p) then ''capture_admission_closed''
                 else ''capture_geometry_superseded'')\<rparr>,
              count_rejected (p\<lparr>cp_slots := (cp_slots p)[rv_slot_index r := empty_slot]\<rparr>))
      else (result\<lparr>ir_accepted := True, ir_reason := ''capture_frame_accepted'', ir_frame_id := rv_frame_id r,
                   ir_geometry_epoch := ge_epoch (rv_geometry r)\<rparr>,
            p\<lparr>cp_slots := (cp_slots p)[rv_slot_index r := slot\<lparr>sl_state := Slot_ready, sl_frame := frame\<rparr>],
              cp_diagnostics := (cp_diagnostics p)\<lparr>pd_accepted := pd_accepted (cp_diagnostics p) + 1\<rparr>\<rparr>))"

text \<open>The whole call when nothing happens in between; \<open>copied\<close> tells whether the copy got its memory.\<close>

definition ingest ::
  "shared_memory_buffer_view \<Rightarrow> u64 \<Rightarrow> bool \<Rightarrow> bool \<Rightarrow> capture_pool \<Rightarrow> capture_ingress_result \<times> capture_pool" where
  "ingest b monotonic_timestamp_ns requeued copied p =
     (case valid_buffer b of
        Some reason \<Rightarrow> reject_buffer reason requeued p
      | None \<Rightarrow>
          (case reserve_slot b p of
             (r, p) \<Rightarrow>
               if rv_frame_id r = 0 then reject_buffer (rv_reason r) requeued p
               else complete_slot r
                      (if copied then Some (copy_frame b (rv_geometry r) (rv_frame_id r) monotonic_timestamp_ns) else None)
                      requeued p))"

section \<open>Leases\<close>

record captured_frame_lease =
  le_frame :: "captured_frame option"
  le_index :: nat
  le_frame_id :: u64
  le_armed :: bool

definition lease_frame :: "captured_frame_lease \<Rightarrow> exn + captured_frame" where
  "lease_frame l =
     (case le_frame l of None \<Rightarrow> Inl (Logic_error ''captured frame lease is empty'') | Some f \<Rightarrow> Inr f)"

definition take_latest :: "capture_pool \<Rightarrow> captured_frame_lease option \<times> capture_pool" where
  "take_latest p =
     (case newest_ready (cp_slots p) of
        None \<Rightarrow> (None, p)
      | Some i \<Rightarrow>
          let p = drop_ready (Some i) p; slot = cp_slots p ! i
          in (Some \<lparr>le_frame = sl_frame slot, le_index = i, le_frame_id = sl_frame_id slot, le_armed = True\<rparr>,
              p\<lparr>cp_slots := (cp_slots p)[i := slot\<lparr>sl_state := Slot_leased\<rparr>]\<rparr>))"

definition release_lease :: "nat \<Rightarrow> u64 \<Rightarrow> capture_pool \<Rightarrow> capture_pool" where
  "release_lease index frame_id p =
     (let slot = cp_slots p ! index in
      if sl_state slot = Slot_leased \<and> sl_frame_id slot = frame_id
      then p\<lparr>cp_slots := (cp_slots p)[index := empty_slot]\<rparr> else p)"

text \<open>\<open>le_armed\<close> tells whether the lease still has its release function; \<open>pool_alive\<close> whether the
  weak pointer in it still finds the pool.\<close>

definition lease_reset :: "bool \<Rightarrow> captured_frame_lease \<Rightarrow> capture_pool \<Rightarrow> captured_frame_lease \<times> capture_pool" where
  "lease_reset pool_alive l p =
     (l\<lparr>le_frame := None, le_armed := False\<rparr>,
      if le_armed l \<and> pool_alive then release_lease (le_index l) (le_frame_id l) p else p)"

text \<open>Move assignment from another lease, which it leaves empty.\<close>

definition lease_assign ::
  "bool \<Rightarrow> captured_frame_lease \<Rightarrow> captured_frame_lease \<Rightarrow> capture_pool \<Rightarrow>
   (captured_frame_lease \<times> captured_frame_lease) \<times> capture_pool" where
  "lease_assign pool_alive l other p =
     (case lease_reset pool_alive l p of (_, p) \<Rightarrow> ((other, other\<lparr>le_frame := None, le_armed := False\<rparr>), p))"

definition stop_capture :: "capture_state \<Rightarrow> capture_pool \<Rightarrow> (unit, capture_pool) outcome" where
  "stop_capture terminal_state p =
     (if \<not> capture_terminal terminal_state
        then (Inl (Invalid_argument ''capture stop requires a terminal state''), p)
      else if \<not> pd_admission_open (cp_diagnostics p) then (Inr (), p)
      else (Inr (), drop_ready None
              (p\<lparr>cp_diagnostics := (cp_diagnostics p)\<lparr>pd_admission_open := False, pd_terminal_state := terminal_state\<rparr>\<rparr>)))"

definition slots_in :: "capture_slot_state \<Rightarrow> capture_pool \<Rightarrow> nat" where
  "slots_in state p = length (filter (\<lambda>s. sl_state s = state) (cp_slots p))"

definition pool_diagnostics :: "capture_pool \<Rightarrow> capture_pool_diagnostics" where
  "pool_diagnostics p =
     (cp_diagnostics p)\<lparr>pd_ready := pd_ready (cp_diagnostics p) + slots_in Slot_ready p,
                       pd_leased := pd_leased (cp_diagnostics p) + slots_in Slot_leased p\<rparr>"

end
