(* ===== verification/Capture_Safety.thy ===== *)
theory Capture_Safety
  imports Capture_Pool
begin

text \<open>
  What the capture pool guarantees under every interleaving of its callers: slots have one owner,
  ingests and releases never touch a slot of another, every delivered frame is delivered once and
  belongs to the current geometry, and the counters account for every accepted frame. Then what the
  portal state machine guarantees.
\<close>

section \<open>The pool and its callers\<close>

text \<open>An ingest between its two critical sections holds a ticket; a taken frame is a lease until it
  is released. \<open>sy_taken\<close> lists the frames handed out, the newest last.\<close>

record capture_system =
  sy_pool :: capture_pool
  sy_tickets :: "(reservation \<times> shared_memory_buffer_view \<times> u64) list"
  sy_leases :: "(nat \<times> u64) list"
  sy_taken :: "captured_frame list"
  sy_steps :: nat

datatype capture_event =
    Ingest_begin shared_memory_buffer_view u64
  | Ingest_end nat bool bool
  | Take_latest
  | Release nat
  | Stop_capture capture_state

definition ingest_begin :: "shared_memory_buffer_view \<Rightarrow> capture_pool \<Rightarrow> reservation \<times> capture_pool" where
  "ingest_begin b p = (case valid_buffer b of Some reason \<Rightarrow> (no_reservation reason, p) | None \<Rightarrow> reserve_slot b p)"

definition ingest_end ::
  "reservation \<times> shared_memory_buffer_view \<times> u64 \<Rightarrow> bool \<Rightarrow> bool \<Rightarrow> capture_pool \<Rightarrow> capture_ingress_result \<times> capture_pool" where
  "ingest_end ticket requeued copied p =
     (case ticket of (r, b, t) \<Rightarrow>
        if rv_frame_id r = 0 then reject_buffer (rv_reason r) requeued p
        else complete_slot r (if copied then Some (copy_frame b (rv_geometry r) (rv_frame_id r) t) else None) requeued p)"

lemma ingest_is_begin_then_end:
  "ingest b t requeued copied p = (case ingest_begin b p of (r, p) \<Rightarrow> ingest_end (r, b, t) requeued copied p)"
  by (auto simp: ingest_def ingest_begin_def ingest_end_def no_reservation_def split: option.splits prod.splits)

fun capture_step :: "capture_system \<Rightarrow> capture_event \<Rightarrow> capture_system" where
  "capture_step y (Ingest_begin b t) =
     (case ingest_begin b (sy_pool y) of (r, p) \<Rightarrow>
        y\<lparr>sy_pool := p, sy_tickets := sy_tickets y @ [(r, b, t)], sy_steps := sy_steps y + 1\<rparr>)"
| "capture_step y (Ingest_end k requeued copied) =
     (if k < length (sy_tickets y)
      then y\<lparr>sy_pool := snd (ingest_end (sy_tickets y ! k) requeued copied (sy_pool y)),
             sy_tickets := take k (sy_tickets y) @ drop (k + 1) (sy_tickets y), sy_steps := sy_steps y + 1\<rparr>
      else y)"
| "capture_step y Take_latest =
     (case take_latest (sy_pool y) of
        (None, p) \<Rightarrow> y\<lparr>sy_pool := p, sy_steps := sy_steps y + 1\<rparr>
      | (Some l, p) \<Rightarrow>
          y\<lparr>sy_pool := p, sy_leases := sy_leases y @ [(le_index l, le_frame_id l)],
            sy_taken := sy_taken y @ [the (le_frame l)], sy_steps := sy_steps y + 1\<rparr>)"
| "capture_step y (Release k) =
     (if k < length (sy_leases y)
      then y\<lparr>sy_pool := release_lease (fst (sy_leases y ! k)) (snd (sy_leases y ! k)) (sy_pool y),
             sy_leases := take k (sy_leases y) @ drop (k + 1) (sy_leases y), sy_steps := sy_steps y + 1\<rparr>
      else y)"
| "capture_step y (Stop_capture s) =
     y\<lparr>sy_pool := snd (stop_capture s (sy_pool y)), sy_steps := sy_steps y + 1\<rparr>"

definition start_system :: "capture_pool \<Rightarrow> capture_system" where
  "start_system p = \<lparr>sy_pool = p, sy_tickets = [], sy_leases = [], sy_taken = [], sy_steps = 0\<rparr>"

section \<open>The scans\<close>

lemma drop_ready_spec:
  "length (cp_slots (drop_ready kept p)) = length (cp_slots p) \<and> cp_geometry (drop_ready kept p) = cp_geometry p \<and>
   cp_next_frame_id (drop_ready kept p) = cp_next_frame_id p \<and>
   (\<forall>i < length (cp_slots p). cp_slots (drop_ready kept p) ! i =
      (if kept \<noteq> Some i \<and> sl_state (cp_slots p ! i) = Slot_ready then empty_slot else cp_slots p ! i)) \<and>
   cp_diagnostics (drop_ready kept p) =
     (cp_diagnostics p)\<lparr>pd_dropped_oldest := pd_dropped_oldest (cp_diagnostics p) +
        of_nat (length (filter (\<lambda>i. kept \<noteq> Some i \<and> sl_state (cp_slots p ! i) = Slot_ready) [0..<length (cp_slots p)]))\<rparr>"
proof -
  have "n \<le> length (cp_slots p) \<Longrightarrow>
    (let q = foldl (drop_slot kept) p [0..<n] in
     length (cp_slots q) = length (cp_slots p) \<and> cp_geometry q = cp_geometry p \<and> cp_next_frame_id q = cp_next_frame_id p \<and>
     (\<forall>i < length (cp_slots p). cp_slots q ! i =
        (if i < n \<and> kept \<noteq> Some i \<and> sl_state (cp_slots p ! i) = Slot_ready then empty_slot else cp_slots p ! i)) \<and>
     cp_diagnostics q = (cp_diagnostics p)\<lparr>pd_dropped_oldest := pd_dropped_oldest (cp_diagnostics p) +
        of_nat (length (filter (\<lambda>i. kept \<noteq> Some i \<and> sl_state (cp_slots p ! i) = Slot_ready) [0..<n]))\<rparr>)" for n
  proof (induction n)
    case (Suc n)
    then show ?case
      by (auto simp: Let_def drop_slot_def count_dropped_oldest_def nth_list_update less_Suc_eq add.assoc split: if_splits)
  qed (simp add: Let_def)
  from this [of "length (cp_slots p)"] show ?thesis by (simp add: drop_ready_def Let_def)
qed

lemma find_free_Some: "find_free slots = Some i \<Longrightarrow> i < length slots \<and> sl_state (slots ! i) = Slot_free"
  by (auto simp: find_free_def find_Some_iff)

text \<open>A scan finds the best ready slot.\<close>

lemma scan_spec:
  assumes "\<And>a. \<not> better a a" "\<And>a b c. \<not> better a b \<Longrightarrow> better c b \<Longrightarrow> \<not> better a c"
  shows "case foldl (scan_ready better slots) None [0..<n] of
      None \<Rightarrow> \<forall>i < n. sl_state (slots ! i) \<noteq> Slot_ready
    | Some j \<Rightarrow> j < n \<and> sl_state (slots ! j) = Slot_ready \<and>
        (\<forall>i < n. sl_state (slots ! i) = Slot_ready \<longrightarrow> \<not> better (sl_frame_id (slots ! i)) (sl_frame_id (slots ! j)))"
proof (induction n)
  case (Suc n)
  let ?old = "foldl (scan_ready better slots) None [0..<n]"
  have step: "foldl (scan_ready better slots) None [0..<Suc n] = scan_ready better slots ?old n" by simp
  show ?case
  proof (cases ?old)
    case None
    with Suc have "\<forall>i < n. sl_state (slots ! i) \<noteq> Slot_ready" by simp
    then show ?thesis unfolding step None by (auto simp: scan_ready_def less_Suc_eq assms(1))
  next
    case (Some j)
    with Suc have j: "j < n" "sl_state (slots ! j) = Slot_ready"
      "\<And>i. i < n \<Longrightarrow> sl_state (slots ! i) = Slot_ready \<Longrightarrow> \<not> better (sl_frame_id (slots ! i)) (sl_frame_id (slots ! j))" by auto
    show ?thesis
    proof (cases "sl_state (slots ! n) = Slot_ready \<and> better (sl_frame_id (slots ! n)) (sl_frame_id (slots ! j))")
      case True
      then have "\<not> better (sl_frame_id (slots ! i)) (sl_frame_id (slots ! n))" if "i < n" "sl_state (slots ! i) = Slot_ready" for i
        using assms(2) j(3) [OF that] by blast
      with True j assms(1) show ?thesis unfolding step Some by (auto simp: scan_ready_def less_Suc_eq)
    next
      case False
      with j show ?thesis unfolding step Some by (auto simp: scan_ready_def less_Suc_eq)
    qed
  qed
qed simp

lemma oldest_ready_Some: "oldest_ready slots = Some i \<Longrightarrow> i < length slots \<and> sl_state (slots ! i) = Slot_ready"
  using scan_spec [where better = "(<)" and slots = slots and n = "length slots"] by (auto simp: oldest_ready_def)

lemma newest_ready_Some:
  assumes "newest_ready slots = Some i"
  shows "i < length slots" "sl_state (slots ! i) = Slot_ready"
    "j < length slots \<Longrightarrow> sl_state (slots ! j) = Slot_ready \<Longrightarrow> sl_frame_id (slots ! j) \<le> sl_frame_id (slots ! i)"
  using scan_spec [where better = "(>)" and slots = slots and n = "length slots"] assms by (auto simp: newest_ready_def not_less)

lemma newest_ready_None: "newest_ready slots = None \<Longrightarrow> i < length slots \<Longrightarrow> sl_state (slots ! i) \<noteq> Slot_ready"
  using scan_spec [where better = "(>)" and slots = slots and n = "length slots"] by (auto simp: newest_ready_def)

section \<open>Ownership\<close>

definition live :: "reservation \<times> shared_memory_buffer_view \<times> u64 \<Rightarrow> bool" where
  "live ticket \<longleftrightarrow> rv_frame_id (fst ticket) \<noteq> 0"

abbreviation slot_of :: "capture_system \<Rightarrow> nat \<Rightarrow> capture_slot" where
  "slot_of y i \<equiv> cp_slots (sy_pool y) ! i"

abbreviation slot_count :: "capture_system \<Rightarrow> nat" where
  "slot_count y \<equiv> length (cp_slots (sy_pool y))"

text \<open>Every copying slot belongs to the one ingest whose ticket names it, every leased slot to one
  lease, each with the number of the slot.\<close>

definition held :: "capture_slot_state \<Rightarrow> capture_slot list \<Rightarrow> (nat \<times> u64) set" where
  "held state slots = {(i, n). i < length slots \<and> sl_state (slots ! i) = state \<and> sl_frame_id (slots ! i) = n}"

definition claims :: "(reservation \<times> shared_memory_buffer_view \<times> u64) list \<Rightarrow> (nat \<times> u64) list" where
  "claims tickets = map (\<lambda>x. (rv_slot_index (fst x), rv_frame_id (fst x))) (filter live tickets)"

definition owned :: "capture_slot_state \<Rightarrow> capture_slot list \<Rightarrow> (nat \<times> u64) list \<Rightarrow> bool" where
  "owned state slots owners \<longleftrightarrow> distinct (map fst owners) \<and> set owners = held state slots"

lemma held_update:
  "i < length slots \<Longrightarrow>
   held state (slots[i := s]) = (if sl_state s = state then {(i, sl_frame_id s)} else {}) \<union> {x \<in> held state slots. fst x \<noteq> i}"
  by (auto simp: held_def nth_list_update split: if_splits)

lemma without_owner:
  assumes "distinct (map fst xs)" "k < length xs"
  shows "distinct (map fst (take k xs @ drop (k + 1) xs))"
    "set (take k xs @ drop (k + 1) xs) = {x \<in> set xs. fst x \<noteq> fst (xs ! k)}"
proof -
  have split: "xs = take k xs @ xs ! k # drop (k + 1) xs" using assms(2) by (simp add: id_take_nth_drop)
  then have d: "distinct (map fst (take k xs) @ fst (xs ! k) # map fst (drop (k + 1) xs))"
    using assms(1) by (metis list.map(2) map_append)
  then show "distinct (map fst (take k xs @ drop (k + 1) xs))" by auto
  have "set xs = insert (xs ! k) (set (take k xs @ drop (k + 1) xs))" by (subst split) auto
  moreover have "fst (xs ! k) \<notin> fst ` set (take k xs @ drop (k + 1) xs)" using d by (auto simp: image_Un)
  ultimately show "set (take k xs @ drop (k + 1) xs) = {x \<in> set xs. fst x \<noteq> fst (xs ! k)}"
    by (auto simp: image_Un) (metis fst_conv image_eqI)+
qed

lemma held_elsewhere: "sl_state (slots ! i) \<noteq> state \<Longrightarrow> {x \<in> held state slots. fst x \<noteq> i} = held state slots"
  by (auto simp: held_def)

lemma owned_add:
  assumes "owned state slots owners" "i < length slots" "sl_state (slots ! i) \<noteq> state" "sl_state s = state"
  shows "owned state (slots[i := s]) (owners @ [(i, sl_frame_id s)])"
proof -
  have "i \<notin> fst ` set owners" using assms(1,3) by (auto simp: owned_def held_def)
  moreover have "held state (slots[i := s]) = insert (i, sl_frame_id s) (held state slots)"
    using held_update [OF assms(2), of state s] held_elsewhere [OF assms(3)] assms(4) by simp
  ultimately show ?thesis using assms(1) by (auto simp: owned_def)
qed

lemma owned_remove:
  assumes "owned state slots owners" "k < length owners" "sl_state s \<noteq> state"
  shows "owned state (slots[fst (owners ! k) := s]) (take k owners @ drop (k + 1) owners)"
proof -
  have "owners ! k \<in> held state slots" using assms(1,2) by (auto simp: owned_def dest: nth_mem)
  then have "fst (owners ! k) < length slots" by (auto simp: held_def)
  then show ?thesis using assms without_owner [of owners k] by (simp add: owned_def held_update)
qed

lemma owned_other:
  assumes "owned state slots owners" "i < length slots" "sl_state (slots ! i) \<noteq> state" "sl_state s \<noteq> state"
  shows "owned state (slots[i := s]) owners"
  using assms held_elsewhere [OF assms(3)] by (simp add: owned_def held_update)

definition frames_ok :: "capture_system \<Rightarrow> bool" where
  "frames_ok y \<longleftrightarrow>
     (\<forall>i < slot_count y. sl_state (slot_of y i) = Slot_ready \<longrightarrow>
        pd_admission_open (cp_diagnostics (sy_pool y)) \<and>
        (\<exists>f. sl_frame (slot_of y i) = Some f \<and> cf_frame_id f = sl_frame_id (slot_of y i) \<and>
             ge_epoch (cf_geometry f) = ge_epoch (cp_geometry (sy_pool y))))"

text \<open>Frame numbers: different for different slots in use, below the next one, and not those of frames
  already handed out unless the slot is the leased one.\<close>

definition busy :: "capture_slot list \<Rightarrow> nat set" where
  "busy slots = {i. i < length slots \<and> sl_state (slots ! i) \<noteq> Slot_free}"

definition undelivered :: "capture_slot list \<Rightarrow> nat set" where
  "undelivered slots = {i. i < length slots \<and> (sl_state (slots ! i) = Slot_copying \<or> sl_state (slots ! i) = Slot_ready)}"

definition number_of :: "capture_slot list \<Rightarrow> nat \<Rightarrow> u64" where
  "number_of slots i = sl_frame_id (slots ! i)"

definition numbers_ok :: "capture_slot list \<Rightarrow> u64 \<Rightarrow> captured_frame list \<Rightarrow> bool" where
  "numbers_ok slots fresh taken \<longleftrightarrow>
     inj_on (number_of slots) (busy slots) \<and> number_of slots ` busy slots \<subseteq> {0<..<fresh} \<and>
     distinct (map cf_frame_id taken) \<and> cf_frame_id ` set taken \<subseteq> {..<fresh} \<and>
     number_of slots ` undelivered slots \<inter> cf_frame_id ` set taken = {}"

lemma numbers_ok_fewer:
  assumes "numbers_ok slots fresh taken" "busy slots' \<subseteq> busy slots" "undelivered slots' \<subseteq> undelivered slots"
    "\<And>i. i \<in> busy slots' \<Longrightarrow> number_of slots' i = number_of slots i"
  shows "numbers_ok slots' fresh taken"
proof -
  have o: "inj_on (number_of slots) (busy slots)" "number_of slots ` busy slots \<subseteq> {0<..<fresh}"
     "distinct (map cf_frame_id taken)" "cf_frame_id ` set taken \<subseteq> {..<fresh}"
     "number_of slots ` undelivered slots \<inter> cf_frame_id ` set taken = {}"
    using assms(1) by (simp_all only: numbers_ok_def)
  have sub: "undelivered slots' \<subseteq> busy slots'" by (auto simp: busy_def undelivered_def)
  have "number_of slots' ` busy slots' = number_of slots ` busy slots'" by (rule image_cong [OF refl]) (rule assms(4))
  with assms(2) have 1: "number_of slots' ` busy slots' \<subseteq> number_of slots ` busy slots" by (simp add: image_mono)
  have "number_of slots' ` undelivered slots' = number_of slots ` undelivered slots'"
    by (rule image_cong [OF refl]) (use assms(4) sub in blast)
  with assms(3) have 2: "number_of slots' ` undelivered slots' \<subseteq> number_of slots ` undelivered slots" by (simp add: image_mono)
  have "inj_on (number_of slots) (busy slots')" by (rule inj_on_subset [OF o(1) assms(2)])
  then have 3: "inj_on (number_of slots') (busy slots')" by (subst inj_on_cong [of _ _ "number_of slots"]) (use assms(4) in auto)
  show ?thesis unfolding numbers_ok_def
    by (intro conjI 3 o(3,4) order.trans [OF 1 o(2)]) (use 2 o(5) in blast)
qed

lemma numbers_ok_reserve:
  assumes "numbers_ok slots fresh taken" "i < length slots" "fresh < fresh + 1" "0 < fresh"
    "slots' = slots[i := \<lparr>sl_state = Slot_copying, sl_frame_id = fresh, sl_frame = f\<rparr>]"
  shows "numbers_ok slots' (fresh + 1) taken"
proof -
  have b: "busy slots' = insert i (busy slots)" "undelivered slots' = insert i (undelivered slots)"
    using assms(2,5) by (auto simp: busy_def undelivered_def nth_list_update split: if_splits)
  have n: "number_of slots' j = (if j = i then fresh else number_of slots j)" for j
    using assms(2,5) by (simp add: number_of_def nth_list_update)
  have lt: "number_of slots j < fresh" if "j \<in> busy slots" for j using that assms(1) by (auto simp: numbers_ok_def)
  have up: "x < fresh + 1" if "x < fresh" for x using that assms(3) by (rule order.strict_trans)
  have "inj_on (number_of slots') (busy slots')"
    using assms(1) lt unfolding b numbers_ok_def inj_on_def n by (metis insertE order.irrefl)
  moreover have "number_of slots' ` busy slots' \<subseteq> {0<..<fresh + 1}"
    using assms(1,3,4) up unfolding b numbers_ok_def by (auto simp: n)
  moreover have "cf_frame_id ` set taken \<subseteq> {..<fresh + 1}" using assms(1) up unfolding numbers_ok_def by auto
  moreover have "number_of slots' ` undelivered slots' \<inter> cf_frame_id ` set taken = {}"
    using assms(1) unfolding b numbers_ok_def by (auto simp: n split: if_splits)
  ultimately show ?thesis using assms(1) unfolding numbers_ok_def by blast
qed

lemma numbers_ok_take:
  assumes "numbers_ok slots fresh taken" "i \<in> undelivered slots" "cf_frame_id f = number_of slots i"
    "slots' = slots[i := (slots ! i)\<lparr>sl_state := Slot_leased\<rparr>]"
  shows "numbers_ok slots' fresh (taken @ [f])"
proof -
  have i: "i < length slots" "i \<in> busy slots" using assms(2) by (auto simp: undelivered_def busy_def)
  have b: "busy slots' = busy slots" "undelivered slots' = undelivered slots - {i}"
    using assms(2,4) by (auto simp: busy_def undelivered_def nth_list_update split: if_splits)
  have n: "number_of slots' j = number_of slots j" for j
    using i assms(4) by (auto simp: number_of_def nth_list_update)
  have o: "inj_on (number_of slots) (busy slots)" "number_of slots ` busy slots \<subseteq> {0<..<fresh}"
     "distinct (map cf_frame_id taken)" "cf_frame_id ` set taken \<subseteq> {..<fresh}"
     "number_of slots ` undelivered slots \<inter> cf_frame_id ` set taken = {}"
    using assms(1) by (simp_all only: numbers_ok_def)
  have same: "number_of slots' = number_of slots" using n by (rule ext)
  have other: "number_of slots j \<noteq> number_of slots i" if "j \<in> undelivered slots - {i}" for j
    using inj_onD [OF o(1), of j i] that i(2) by (auto simp: busy_def undelivered_def)
  have new: "cf_frame_id f \<notin> cf_frame_id ` set taken" using o(5) assms(2,3) by auto
  have "number_of slots ` (undelivered slots - {i}) \<inter> cf_frame_id ` set (taken @ [f]) = {}"
    using o(5) other unfolding set_append image_Un list.set image_insert image_empty assms(3) by blast
  moreover have "cf_frame_id ` set (taken @ [f]) \<subseteq> {..<fresh}" using o(2,4) i(2) assms(3) by auto
  moreover have "distinct (map cf_frame_id (taken @ [f]))" using o(3) new by simp
  ultimately show ?thesis unfolding numbers_ok_def b same using o(1,2) by blast
qed

definition capture_ok :: "capture_system \<Rightarrow> bool" where
  "capture_ok y \<longleftrightarrow>
     owned Slot_copying (cp_slots (sy_pool y)) (claims (sy_tickets y)) \<and>
     owned Slot_leased (cp_slots (sy_pool y)) (sy_leases y) \<and> frames_ok y \<and>
     numbers_ok (cp_slots (sy_pool y)) (cp_next_frame_id (sy_pool y)) (sy_taken y) \<and>
     unat (cp_next_frame_id (sy_pool y)) \<le> sy_steps y + 1 \<and> 0 < cp_next_frame_id (sy_pool y)"

text \<open>Dropping ready slots, whatever else happens to the counters.\<close>

definition thinned :: "capture_pool \<Rightarrow> capture_pool \<Rightarrow> bool" where
  "thinned p q \<longleftrightarrow>
     length (cp_slots q) = length (cp_slots p) \<and> cp_next_frame_id q = cp_next_frame_id p \<and>
     (\<forall>i < length (cp_slots p). cp_slots q ! i = cp_slots p ! i \<or>
        sl_state (cp_slots p ! i) = Slot_ready \<and> cp_slots q ! i = empty_slot) \<and>
     (\<forall>i < length (cp_slots p). sl_state (cp_slots q ! i) = Slot_ready \<longrightarrow>
        ge_epoch (cp_geometry q) = ge_epoch (cp_geometry p) \<and>
        pd_admission_open (cp_diagnostics q) = pd_admission_open (cp_diagnostics p))"

lemma empty_slot_simps [simp]: "sl_state empty_slot = Slot_free"
  by (simp add: empty_slot_def)

lemma thinned_slot:
  assumes "thinned p q" "i < length (cp_slots p)"
  shows "sl_state (cp_slots q ! i) \<noteq> Slot_free \<Longrightarrow> cp_slots q ! i = cp_slots p ! i"
    "sl_state (cp_slots p ! i) \<noteq> Slot_ready \<Longrightarrow> cp_slots q ! i = cp_slots p ! i"
  using assms by (auto simp: thinned_def)

lemma thinned_held:
  assumes "thinned p q" "state = Slot_copying \<or> state = Slot_leased"
  shows "held state (cp_slots q) = held state (cp_slots p)"
proof -
  have "sl_state (cp_slots q ! i) = state \<and> sl_frame_id (cp_slots q ! i) = n \<longleftrightarrow>
        sl_state (cp_slots p ! i) = state \<and> sl_frame_id (cp_slots p ! i) = n" if "i < length (cp_slots p)" for i n
    using thinned_slot [OF assms(1) that] assms(2) by (metis capture_slot_state.distinct)
  moreover have "length (cp_slots q) = length (cp_slots p)" using assms(1) by (simp add: thinned_def)
  ultimately show ?thesis by (auto simp: held_def)
qed

lemma thinned_ok:
  assumes "capture_ok y" "thinned (sy_pool y) q" "sy_steps y \<le> n"
  shows "capture_ok (y\<lparr>sy_pool := q, sy_steps := n\<rparr>)"
proof -
  have len: "length (cp_slots q) = slot_count y" "cp_next_frame_id q = cp_next_frame_id (sy_pool y)"
    using assms(2) by (simp_all add: thinned_def)
  note same = thinned_slot [OF assms(2)]
  have ok: "frames_ok y" "numbers_ok (cp_slots (sy_pool y)) (cp_next_frame_id (sy_pool y)) (sy_taken y)"
    using assms(1) by (simp_all add: capture_ok_def)
  have "frames_ok (y\<lparr>sy_pool := q, sy_steps := n\<rparr>)"
    using ok(1) assms(2) same(1) by (auto simp: frames_ok_def len thinned_def)
  moreover have "numbers_ok (cp_slots q) (cp_next_frame_id (sy_pool y)) (sy_taken y)"
    using ok(2) by (rule numbers_ok_fewer) (use same(1) len in \<open>auto simp: busy_def undelivered_def number_of_def\<close>)
  ultimately show ?thesis
    using assms(1,3) thinned_held [OF assms(2)] by (simp add: capture_ok_def owned_def len)
qed

lemma drop_ready_thinned:
  "thinned p (drop_ready kept p)"
  using drop_ready_spec [of kept p] by (auto simp: thinned_def)

lemma drop_all_ready:
  assumes "i < length (cp_slots p)"
  shows "sl_state (cp_slots (drop_ready None p) ! i) \<noteq> Slot_ready"
  using drop_ready_spec [of None p] assms by auto

section \<open>Every step keeps it\<close>

lemma adopt_geometry_thinned: "thinned p (adopt_geometry b p)"
proof (cases "ge_epoch (cp_geometry p) = 0 \<or> \<not> same_geometry (cp_geometry p) b")
  case True
  let ?q = "p\<lparr>cp_geometry := make_geometry (ge_epoch (cp_geometry p) + 1) b\<rparr>"
  have "adopt_geometry b p = drop_ready None ?q" using True by (simp add: adopt_geometry_def)
  then show ?thesis using drop_ready_spec [of None ?q] by (auto simp: thinned_def)
qed (simp add: adopt_geometry_def thinned_def)

lemma thinned_counters:
  assumes "cp_slots q = cp_slots p" "cp_geometry q = cp_geometry p" "cp_next_frame_id q = cp_next_frame_id p"
    "pd_admission_open (cp_diagnostics q) = pd_admission_open (cp_diagnostics p)"
  shows "thinned p q"
  using assms by (simp add: thinned_def)

lemma reserve_capture_ok:
  assumes "capture_ok y" "i < slot_count y" "sl_state (slot_of y i) = Slot_free \<or> sl_state (slot_of y i) = Slot_ready"
    and "sy_steps y + 2 < 2 ^ 64" "fresh = cp_next_frame_id (sy_pool y)"
    and "r = \<lparr>rv_reason = [], rv_slot_index = i, rv_frame_id = fresh, rv_geometry = g\<rparr>"
  shows "capture_ok (y\<lparr>sy_pool := (sy_pool y)\<lparr>cp_next_frame_id := fresh + 1,
       cp_slots := (cp_slots (sy_pool y))[i := \<lparr>sl_state = Slot_copying, sl_frame_id = fresh, sl_frame = None\<rparr>]\<rparr>,
     sy_tickets := sy_tickets y @ [(r, b, t)], sy_steps := sy_steps y + 1\<rparr>)"
proof -
  let ?slots = "cp_slots (sy_pool y)" and ?s = "\<lparr>sl_state = Slot_copying, sl_frame_id = fresh, sl_frame = None\<rparr>"
  have fresh: "0 < fresh" "unat fresh \<le> sy_steps y + 1" "fresh \<noteq> - 1"
    using assms(1,4,5) unat_max_u64 by (auto simp: capture_ok_def)
  then have up: "fresh < fresh + 1" "unat (fresh + 1) = unat fresh + 1" "0 < fresh + 1"
    using less_inc_u64 unat_inc_u64 by (auto intro: order.strict_trans)
  have "claims (sy_tickets y @ [(r, b, t)]) = claims (sy_tickets y) @ [(i, sl_frame_id ?s)]"
    using fresh(1) by (simp add: claims_def live_def assms(6))
  then have "owned Slot_copying (?slots[i := ?s]) (claims (sy_tickets y @ [(r, b, t)]))"
    using owned_add [of Slot_copying ?slots "claims (sy_tickets y)" i ?s] assms(1-3) by (auto simp: capture_ok_def)
  moreover have "owned Slot_leased (?slots[i := ?s]) (sy_leases y)"
    using owned_other [of Slot_leased ?slots "sy_leases y" i ?s] assms(1-3) by (auto simp: capture_ok_def)
  moreover have "numbers_ok (?slots[i := ?s]) (fresh + 1) (sy_taken y)"
    using numbers_ok_reserve [OF _ assms(2) up(1) fresh(1) refl] assms(1,5) by (simp add: capture_ok_def)
  ultimately show ?thesis using assms(1,2) fresh up
    by (auto simp: capture_ok_def frames_ok_def nth_list_update split: if_splits)
qed

lemma add_dead_ticket:
  "capture_ok y \<Longrightarrow> rv_frame_id r = 0 \<Longrightarrow> capture_ok (y\<lparr>sy_tickets := sy_tickets y @ [(r, b, t)]\<rparr>)"
  by (simp add: capture_ok_def claims_def live_def frames_ok_def)

lemma ingest_begin_cases:
  obtains (dead) r where "ingest_begin b p = (r, p)" "rv_frame_id r = 0"
  | (starved) r where "ingest_begin b p = (r, count_dropped_starved (adopt_geometry b p))" "rv_frame_id r = 0"
  | (reserved) i q where "i < length (cp_slots (adopt_geometry b p))"
      "sl_state (cp_slots (adopt_geometry b p) ! i) = Slot_free \<or> sl_state (cp_slots (adopt_geometry b p) ! i) = Slot_ready"
      "q = (if sl_state (cp_slots (adopt_geometry b p) ! i) = Slot_ready then count_dropped_oldest (adopt_geometry b p) else adopt_geometry b p)"
      "ingest_begin b p = (\<lparr>rv_reason = [], rv_slot_index = i, rv_frame_id = cp_next_frame_id q, rv_geometry = cp_geometry q\<rparr>,
         q\<lparr>cp_next_frame_id := cp_next_frame_id q + 1,
           cp_slots := (cp_slots q)[i := \<lparr>sl_state = Slot_copying, sl_frame_id = cp_next_frame_id q, sl_frame = None\<rparr>]\<rparr>)"
proof (cases "valid_buffer b = None \<and> pd_admission_open (cp_diagnostics p)")
  case False
  then obtain reason where "ingest_begin b p = (no_reservation reason, p)"
    by (cases "valid_buffer b") (auto simp: ingest_begin_def reserve_slot_def)
  then show ?thesis by (rule that(1)) (simp add: no_reservation_def)
next
  case True
  define q where "q = adopt_geometry b p"
  define available where "available = (case find_free (cp_slots q) of Some i \<Rightarrow> Some i | None \<Rightarrow> oldest_ready (cp_slots q))"
  have run: "ingest_begin b p = (case available of None \<Rightarrow> (no_reservation ''capture_pool_starved'', count_dropped_starved q)
      | Some i \<Rightarrow> let q = (if sl_state (cp_slots q ! i) = Slot_ready then count_dropped_oldest q else q); frame_id = cp_next_frame_id q
               in (\<lparr>rv_reason = [], rv_slot_index = i, rv_frame_id = frame_id, rv_geometry = cp_geometry q\<rparr>,
                   q\<lparr>cp_next_frame_id := frame_id + 1,
                     cp_slots := (cp_slots q)[i := \<lparr>sl_state = Slot_copying, sl_frame_id = frame_id, sl_frame = None\<rparr>]\<rparr>))"
    using True unfolding ingest_begin_def reserve_slot_def available_def q_def Let_def by (simp only: option.case simp_thms if_False)
  show ?thesis
  proof (cases available)
    case None
    with run have "ingest_begin b p = (no_reservation ''capture_pool_starved'', count_dropped_starved (adopt_geometry b p))"
      by (simp add: q_def)
    then show ?thesis by (rule that(2)) (simp add: no_reservation_def)
  next
    case (Some i)
    have i: "i < length (cp_slots q)" "sl_state (cp_slots q ! i) = Slot_free \<or> sl_state (cp_slots q ! i) = Slot_ready"
      using Some find_free_Some oldest_ready_Some unfolding available_def by (auto split: option.splits)
    show ?thesis
      by (rule that(3) [OF i [unfolded q_def] refl]) (use run Some in \<open>simp add: Let_def q_def\<close>)
  qed
qed

lemma begin_step_ok:
  assumes "capture_ok y" "sy_steps y + 2 < 2 ^ 64"
  shows "capture_ok (capture_step y (Ingest_begin b t))"
proof -
  let ?p = "sy_pool y" and ?n = "sy_steps y + 1"
  have no_slot: "capture_ok (y\<lparr>sy_pool := q, sy_tickets := sy_tickets y @ [(r, b, t)], sy_steps := ?n\<rparr>)"
    if "thinned ?p q" "rv_frame_id r = 0" for q r
    using add_dead_ticket [OF thinned_ok [OF assms(1) that(1), of ?n], of r b t] that(2) by (cases y) simp
  have th: "thinned ?p (adopt_geometry b ?p)" by (rule adopt_geometry_thinned)
  show ?thesis
  proof (cases rule: ingest_begin_cases [of b ?p])
    case (dead r)
    with no_slot [of ?p r] show ?thesis by (simp add: thinned_counters)
  next
    case (starved r)
    have "thinned ?p (count_dropped_starved (adopt_geometry b ?p))" using th by (simp add: thinned_def count_dropped_starved_def)
    with no_slot starved show ?thesis by simp
  next
    case (reserved i q)
    have thq: "thinned ?p q" and slots: "cp_slots q = cp_slots (adopt_geometry b ?p)"
      using th reserved(3) by (simp_all add: thinned_def count_dropped_oldest_def)
    have "capture_ok (y\<lparr>sy_pool := q, sy_steps := sy_steps y\<rparr>)" by (rule thinned_ok [OF assms(1) thq order.refl])
    then have ok: "capture_ok (y\<lparr>sy_pool := q\<rparr>)" by simp
    from reserve_capture_ok [OF ok, of i "cp_next_frame_id q" _ "cp_geometry q" b t] reserved assms(2) slots show ?thesis by simp
  qed
qed

lemma claims_split: "k < length ts \<Longrightarrow> claims ts = claims (take k ts) @ claims [ts ! k] @ claims (drop (k + 1) ts)"
  by (subst id_take_nth_drop [of k ts]) (simp_all add: claims_def)

lemma claims_remove:
  assumes "k < length ts" "live (ts ! k)"
  obtains m where "m < length (claims ts)" "claims ts ! m = (rv_slot_index (fst (ts ! k)), rv_frame_id (fst (ts ! k)))"
    "claims (take k ts @ drop (k + 1) ts) = take m (claims ts) @ drop (m + 1) (claims ts)"
proof (rule that [of "length (claims (take k ts))"])
  let ?x = "(rv_slot_index (fst (ts ! k)), rv_frame_id (fst (ts ! k)))"
  have c: "claims ts = claims (take k ts) @ ?x # claims (drop (k + 1) ts)"
    using claims_split [OF assms(1)] assms(2) by (simp add: claims_def)
  show "length (claims (take k ts)) < length (claims ts)" by (subst c) simp
  show "claims ts ! length (claims (take k ts)) = ?x" by (subst c) simp
  have "claims (take k ts @ drop (k + 1) ts) = claims (take k ts) @ claims (drop (k + 1) ts)" by (simp add: claims_def)
  then show "claims (take k ts @ drop (k + 1) ts) =
    take (length (claims (take k ts))) (claims ts) @ drop (length (claims (take k ts)) + 1) (claims ts)" by (subst (1 2) c) simp
qed

lemma claims_remove_dead:
  "k < length ts \<Longrightarrow> \<not> live (ts ! k) \<Longrightarrow> claims (take k ts @ drop (k + 1) ts) = claims ts"
  using claims_split [of k ts] by (simp add: claims_def)

lemma count_requeue_simps [simp]:
  "cp_slots (count_requeue v p) = cp_slots p" "cp_geometry (count_requeue v p) = cp_geometry p"
  "cp_next_frame_id (count_requeue v p) = cp_next_frame_id p"
  "pd_admission_open (cp_diagnostics (count_requeue v p)) = pd_admission_open (cp_diagnostics p)"
  "pd_accepted (cp_diagnostics (count_requeue v p)) = pd_accepted (cp_diagnostics p)"
  "pd_dropped_oldest (cp_diagnostics (count_requeue v p)) = pd_dropped_oldest (cp_diagnostics p)"
  by (simp_all add: count_requeue_def Let_def)

lemma slot_change_ok:
  assumes "capture_ok y" "k < length (sy_tickets y)" "live (sy_tickets y ! k)" "i = rv_slot_index (fst (sy_tickets y ! k))"
    and "sl_state s = Slot_free \<or> sl_state s = Slot_ready \<and> sl_frame_id s = sl_frame_id (slot_of y i) \<and>
         pd_admission_open (cp_diagnostics p) \<and>
         (\<exists>f. sl_frame s = Some f \<and> cf_frame_id f = sl_frame_id s \<and> ge_epoch (cf_geometry f) = ge_epoch (cp_geometry p))"
    and "cp_slots p = (cp_slots (sy_pool y))[i := s]" "cp_geometry p = cp_geometry (sy_pool y)"
    "cp_next_frame_id p = cp_next_frame_id (sy_pool y)"
    "pd_admission_open (cp_diagnostics p) = pd_admission_open (cp_diagnostics (sy_pool y))"
  shows "capture_ok (y\<lparr>sy_pool := p, sy_tickets := take k (sy_tickets y) @ drop (k + 1) (sy_tickets y), sy_steps := sy_steps y + 1\<rparr>)"
proof -
  let ?slots = "cp_slots (sy_pool y)"
  obtain m where m: "m < length (claims (sy_tickets y))" "fst (claims (sy_tickets y) ! m) = i"
    "claims (take k (sy_tickets y) @ drop (k + 1) (sy_tickets y)) = take m (claims (sy_tickets y)) @ drop (m + 1) (claims (sy_tickets y))"
    using claims_remove [OF assms(2,3)] assms(4) by (metis fst_conv)
  have ok: "owned Slot_copying ?slots (claims (sy_tickets y))" "owned Slot_leased ?slots (sy_leases y)"
    "numbers_ok ?slots (cp_next_frame_id (sy_pool y)) (sy_taken y)" "frames_ok y"
    using assms(1) by (simp_all add: capture_ok_def)
  have "claims (sy_tickets y) ! m \<in> held Slot_copying ?slots" using ok(1) m(1) by (auto simp: owned_def dest: nth_mem)
  then have i: "i < length ?slots" "sl_state (?slots ! i) = Slot_copying" using m(2) by (auto simp: held_def)
  have "owned Slot_copying (?slots[i := s]) (claims (take k (sy_tickets y) @ drop (k + 1) (sy_tickets y)))"
    using owned_remove [OF ok(1) m(1), of s] m(2,3) assms(5) by auto
  moreover have "owned Slot_leased (?slots[i := s]) (sy_leases y)" using owned_other [OF ok(2) i(1), of s] i(2) assms(5) by auto
  moreover have "numbers_ok (?slots[i := s]) (cp_next_frame_id (sy_pool y)) (sy_taken y)"
    using ok(3) by (rule numbers_ok_fewer)
      (use i assms(5) in \<open>auto simp: busy_def undelivered_def number_of_def nth_list_update split: if_splits\<close>)
  moreover have "frames_ok (y\<lparr>sy_pool := p, sy_tickets := take k (sy_tickets y) @ drop (k + 1) (sy_tickets y), sy_steps := sy_steps y + 1\<rparr>)"
    using ok(4) i assms(5-9) by (auto simp: frames_ok_def nth_list_update split: if_splits)
  ultimately show ?thesis using assms(1,6,8) by (simp add: capture_ok_def)
qed

lemma end_step_ok:
  assumes "capture_ok y"
  shows "capture_ok (capture_step y (Ingest_end k requeued copied))"
proof (cases "k < length (sy_tickets y)")
  case False
  with assms show ?thesis by simp
next
  case k: True
  obtain r b t where x: "sy_tickets y ! k = (r, b, t)" by (cases "sy_tickets y ! k")
  let ?p = "sy_pool y" and ?ts = "take k (sy_tickets y) @ drop (k + 1) (sy_tickets y)"
  show ?thesis
  proof (cases "live (sy_tickets y ! k)")
    case False
    let ?q = "count_requeue requeued (count_rejected ?p)"
    have "thinned ?p ?q" by (rule thinned_counters) (simp_all add: count_requeue_def count_rejected_def Let_def)
    from thinned_ok [OF assms this, of "sy_steps y + 1"]
    have "capture_ok (y\<lparr>sy_pool := ?q, sy_tickets := ?ts, sy_steps := sy_steps y + 1\<rparr>)"
      using claims_remove_dead [OF k False] by (simp add: capture_ok_def frames_ok_def)
    with False k x show ?thesis by (simp add: ingest_end_def live_def reject_buffer_def)
  next
    case True
    let ?i = "rv_slot_index r" and ?q = "count_requeue requeued ?p"
    have q: "cp_slots ?q = cp_slots ?p" "cp_geometry ?q = cp_geometry ?p" "cp_next_frame_id ?q = cp_next_frame_id ?p"
      "pd_admission_open (cp_diagnostics ?q) = pd_admission_open (cp_diagnostics ?p)" by (simp_all add: count_requeue_def Let_def)
    obtain m where "m < length (claims (sy_tickets y))" "claims (sy_tickets y) ! m = (?i, rv_frame_id r)"
      using claims_remove [OF k True] x by auto
    then have "(?i, rv_frame_id r) \<in> held Slot_copying (cp_slots ?p)"
      using assms by (auto simp: capture_ok_def owned_def dest: nth_mem)
    then have own: "sl_state (slot_of y ?i) = Slot_copying" "sl_frame_id (slot_of y ?i) = rv_frame_id r" by (auto simp: held_def)
    define f where "f = (if copied then Some (copy_frame b (rv_geometry r) (rv_frame_id r) t) else None)"
    have run: "capture_step y (Ingest_end k requeued copied) =
        y\<lparr>sy_pool := snd (complete_slot r f requeued ?p), sy_tickets := ?ts, sy_steps := sy_steps y + 1\<rparr>"
      using k x True by (simp add: ingest_end_def live_def f_def)
    show ?thesis
    proof (cases "\<not> requeued \<or> f = None \<or> \<not> pd_admission_open (cp_diagnostics ?p) \<or> ge_epoch (cp_geometry ?p) \<noteq> ge_epoch (rv_geometry r)")
      case bad: True
      have "snd (complete_slot r f requeued ?p) = count_rejected (?q\<lparr>cp_slots := (cp_slots ?q)[?i := empty_slot]\<rparr>)"
        using bad own by (simp add: complete_slot_def Let_def q)
      with run slot_change_ok [OF assms k True, of ?i empty_slot "count_rejected (?q\<lparr>cp_slots := (cp_slots ?q)[?i := empty_slot]\<rparr>)"] x q
      show ?thesis by (simp add: count_rejected_def)
    next
      case good: False
      let ?s = "(slot_of y ?i)\<lparr>sl_state := Slot_ready, sl_frame := f\<rparr>"
      have cf: "cf_frame_id (copy_frame b (rv_geometry r) (rv_frame_id r) t) = rv_frame_id r"
        "cf_geometry (copy_frame b (rv_geometry r) (rv_frame_id r) t) = rv_geometry r"
        by (simp_all add: copy_frame_def normalize_orientation_def Let_def)
      have "snd (complete_slot r f requeued ?p) = ?q\<lparr>cp_slots := (cp_slots ?q)[?i := ?s],
          cp_diagnostics := (cp_diagnostics ?q)\<lparr>pd_accepted := pd_accepted (cp_diagnostics ?q) + 1\<rparr>\<rparr>"
        using good own by (auto simp: complete_slot_def Let_def q)
      with run slot_change_ok [OF assms k True, of ?i ?s "?q\<lparr>cp_slots := (cp_slots ?q)[?i := ?s],
          cp_diagnostics := (cp_diagnostics ?q)\<lparr>pd_accepted := pd_accepted (cp_diagnostics ?q) + 1\<rparr>\<rparr>"] x q good own cf
      show ?thesis by (auto simp: f_def split: if_splits)
    qed
  qed
qed

lemma take_step_ok:
  assumes "capture_ok y"
  shows "capture_ok (capture_step y Take_latest)"
proof (cases "newest_ready (cp_slots (sy_pool y))")
  case None
  then have "capture_step y Take_latest = y\<lparr>sy_pool := sy_pool y, sy_steps := sy_steps y + 1\<rparr>"
    by (simp add: take_latest_def)
  with thinned_ok [OF assms thinned_counters [OF refl refl refl refl], of "sy_steps y + 1"] show ?thesis by simp
next
  case (Some i)
  let ?p = "drop_ready (Some i) (sy_pool y)"
  note i = newest_ready_Some [OF Some]
  have d: "length (cp_slots ?p) = slot_count y" "cp_slots ?p ! i = slot_of y i" using drop_ready_spec [of "Some i" "sy_pool y"] i(1) by auto
  have ok: "capture_ok (y\<lparr>sy_pool := ?p, sy_steps := sy_steps y + 1\<rparr>)"
    by (rule thinned_ok [OF assms drop_ready_thinned]) simp
  let ?slots = "cp_slots ?p" and ?s = "(slot_of y i)\<lparr>sl_state := Slot_leased\<rparr>"
  from assms i obtain f where f: "sl_frame (slot_of y i) = Some f" "cf_frame_id f = sl_frame_id (slot_of y i)"
    by (auto simp: capture_ok_def frames_ok_def)
  have run: "capture_step y Take_latest = y\<lparr>sy_pool := ?p\<lparr>cp_slots := ?slots[i := ?s]\<rparr>,
      sy_leases := sy_leases y @ [(i, sl_frame_id ?s)], sy_taken := sy_taken y @ [f], sy_steps := sy_steps y + 1\<rparr>"
    using Some d f by (simp add: take_latest_def Let_def)
  have "owned Slot_leased (?slots[i := ?s]) (sy_leases y @ [(i, sl_frame_id ?s)])"
    using ok d i by (intro owned_add) (auto simp: capture_ok_def)
  moreover have "owned Slot_copying (?slots[i := ?s]) (claims (sy_tickets y))"
    using ok d i by (intro owned_other) (auto simp: capture_ok_def)
  moreover have "numbers_ok (?slots[i := ?s]) (cp_next_frame_id ?p) (sy_taken y @ [f])"
    using ok d i f numbers_ok_take [of ?slots "cp_next_frame_id ?p" "sy_taken y" i f]
    by (simp add: capture_ok_def undelivered_def number_of_def)
  moreover have "frames_ok (y\<lparr>sy_pool := ?p\<lparr>cp_slots := ?slots[i := ?s]\<rparr>,
      sy_leases := sy_leases y @ [(i, sl_frame_id ?s)], sy_taken := sy_taken y @ [f], sy_steps := sy_steps y + 1\<rparr>)"
    using ok d i by (auto simp: capture_ok_def frames_ok_def nth_list_update split: if_splits)
  ultimately show ?thesis using ok unfolding run by (simp add: capture_ok_def)
qed

lemma release_step_ok:
  assumes "capture_ok y"
  shows "capture_ok (capture_step y (Release k))"
proof (cases "k < length (sy_leases y)")
  case k: True
  let ?slots = "cp_slots (sy_pool y)" and ?i = "fst (sy_leases y ! k)"
  have ok: "owned Slot_leased ?slots (sy_leases y)" "owned Slot_copying ?slots (claims (sy_tickets y))"
    "numbers_ok ?slots (cp_next_frame_id (sy_pool y)) (sy_taken y)" "frames_ok y" using assms by (simp_all add: capture_ok_def)
  have "sy_leases y ! k \<in> held Slot_leased ?slots" using ok(1) k by (auto simp: owned_def dest: nth_mem)
  then have own: "?i < length ?slots" "sl_state (?slots ! ?i) = Slot_leased" "sl_frame_id (?slots ! ?i) = snd (sy_leases y ! k)"
    by (auto simp: held_def)
  let ?y = "y\<lparr>sy_pool := (sy_pool y)\<lparr>cp_slots := ?slots[?i := empty_slot]\<rparr>,
      sy_leases := take k (sy_leases y) @ drop (k + 1) (sy_leases y), sy_steps := sy_steps y + 1\<rparr>"
  have run: "capture_step y (Release k) = ?y" using k own by (simp add: release_lease_def Let_def)
  have "owned Slot_leased (?slots[?i := empty_slot]) (take k (sy_leases y) @ drop (k + 1) (sy_leases y))"
    by (rule owned_remove [OF ok(1) k]) simp
  moreover have "owned Slot_copying (?slots[?i := empty_slot]) (claims (sy_tickets y))"
    using own by (intro owned_other [OF ok(2)]) auto
  moreover have "numbers_ok (?slots[?i := empty_slot]) (cp_next_frame_id (sy_pool y)) (sy_taken y)"
    using ok(3) by (rule numbers_ok_fewer)
      (use own in \<open>auto simp: busy_def undelivered_def number_of_def nth_list_update split: if_splits\<close>)
  moreover have "frames_ok ?y" using ok(4) own by (auto simp: frames_ok_def nth_list_update split: if_splits)
  ultimately show ?thesis using assms unfolding run by (simp add: capture_ok_def)
qed (use assms in simp)

lemma stop_thinned: "thinned p (snd (stop_capture s p))"
proof (cases "capture_terminal s \<and> pd_admission_open (cp_diagnostics p)")
  case True
  let ?q = "p\<lparr>cp_diagnostics := (cp_diagnostics p)\<lparr>pd_admission_open := False, pd_terminal_state := s\<rparr>\<rparr>"
  have "snd (stop_capture s p) = drop_ready None ?q" using True by (simp add: stop_capture_def)
  then show ?thesis using drop_ready_spec [of None ?q] by (auto simp: thinned_def)
qed (auto simp: stop_capture_def thinned_def)

lemma capture_step_ok:
  assumes "capture_ok y" "sy_steps y + 2 < 2 ^ 64"
  shows "capture_ok (capture_step y e)"
proof (cases e)
  case (Stop_capture s)
  with thinned_ok [OF assms(1) stop_thinned, of "sy_steps y + 1"] show ?thesis by simp
qed (use assms begin_step_ok end_step_ok take_step_ok release_step_ok in auto)

lemma steps_grow: "sy_steps y \<le> sy_steps (capture_step y e) \<and> sy_steps (capture_step y e) \<le> sy_steps y + 1"
  by (cases e) (auto split: prod.splits option.splits)

interpretation capture: safe_machine capture_step "\<lambda>y. sy_steps y + 1 < 2 ^ 64 \<longrightarrow> capture_ok y"
proof
  fix y e assume ok: "sy_steps y + 1 < 2 ^ 64 \<longrightarrow> capture_ok y"
  show "sy_steps (capture_step y e) + 1 < 2 ^ 64 \<longrightarrow> capture_ok (capture_step y e)"
  proof
    assume lt: "sy_steps (capture_step y e) + 1 < 2 ^ 64"
    with ok steps_grow [of y e] have y: "capture_ok y" by auto
    show "capture_ok (capture_step y e)"
    proof (cases "sy_steps y + 2 < 2 ^ 64")
      case True
      with y show ?thesis by (rule capture_step_ok)
    next
      case False
      with lt steps_grow [of y e] have "capture_step y e = y" by (cases e) (auto split: prod.splits option.splits if_splits)
      with y show ?thesis by simp
    qed
  qed
qed

section \<open>The counters\<close>

definition ready_slots :: "capture_pool \<Rightarrow> nat set" where
  "ready_slots p = {i. i < length (cp_slots p) \<and> sl_state (cp_slots p ! i) = Slot_ready}"

lemma finite_ready [simp]: "finite (ready_slots p)"
  by (simp add: ready_slots_def)

lemma slots_in_ready: "slots_in Slot_ready p = card (ready_slots p)"
  by (simp add: slots_in_def length_filter_conv_card ready_slots_def)

text \<open>Every accepted frame was handed out, was dropped as an older one, or is ready.\<close>

definition ledger_ok :: "capture_pool \<Rightarrow> nat \<Rightarrow> bool" where
  "ledger_ok p taken \<longleftrightarrow>
     unat (pd_accepted (cp_diagnostics p)) = taken + unat (pd_dropped_oldest (cp_diagnostics p)) + card (ready_slots p)"

lemma drop_ready_ledger:
  assumes "ledger_ok p taken" "q = drop_ready kept p"
  shows "ledger_ok q taken" "pd_accepted (cp_diagnostics q) = pd_accepted (cp_diagnostics p)"
    "ready_slots q = {i \<in> ready_slots p. kept = Some i}"
proof -
  note d = drop_ready_spec [of kept p, folded assms(2)]
  show r: "ready_slots q = {i \<in> ready_slots p. kept = Some i}" using d by (auto simp: ready_slots_def split: if_splits)
  show a: "pd_accepted (cp_diagnostics q) = pd_accepted (cp_diagnostics p)" using d by simp
  let ?gone = "{i \<in> ready_slots p. kept \<noteq> Some i}"
  have "length (filter (\<lambda>i. kept \<noteq> Some i \<and> sl_state (cp_slots p ! i) = Slot_ready) [0..<length (cp_slots p)]) = card ?gone"
    by (auto simp: length_filter_conv_card ready_slots_def intro: arg_cong [where f = card])
  then have n: "pd_dropped_oldest (cp_diagnostics q) = pd_dropped_oldest (cp_diagnostics p) + of_nat (card ?gone)" using d by simp
  have "ready_slots p = ready_slots q \<union> ?gone" "ready_slots q \<inter> ?gone = {}" using r by auto
  then have c: "card (ready_slots p) = card (ready_slots q) + card ?gone" by (metis card_Un_disjoint finite_Un finite_ready)
  have "unat (pd_dropped_oldest (cp_diagnostics p)) + card ?gone < 2 ^ 64"
    using assms(1) c unat_lt_u64 [of "pd_accepted (cp_diagnostics p)"] by (simp add: ledger_ok_def)
  then have "unat (pd_dropped_oldest (cp_diagnostics q)) = unat (pd_dropped_oldest (cp_diagnostics p)) + card ?gone"
    by (simp add: n unat_word_ariths unat_of_nat)
  with assms(1) a c show "ledger_ok q taken" by (simp add: ledger_ok_def)
qed

lemma ready_update:
  assumes "i < length (cp_slots p)" "cp_slots q = (cp_slots p)[i := s]"
  shows "ready_slots q = (if sl_state s = Slot_ready then insert i (ready_slots p) else ready_slots p - {i})"
  using assms by (auto simp: ready_slots_def nth_list_update split: if_splits)

lemma ledger_begin:
  assumes "ledger_ok p taken"
  shows "ledger_ok (snd (ingest_begin b p)) taken \<and> pd_accepted (cp_diagnostics (snd (ingest_begin b p))) = pd_accepted (cp_diagnostics p)"
proof -
  define q where "q = adopt_geometry b p"
  let ?p = "p\<lparr>cp_geometry := make_geometry (ge_epoch (cp_geometry p) + 1) b\<rparr>"
  have "ledger_ok ?p taken" using assms by (simp add: ledger_ok_def ready_slots_def)
  from drop_ready_ledger(1,2) [OF this refl, of None] assms
  have q: "ledger_ok q taken" "pd_accepted (cp_diagnostics q) = pd_accepted (cp_diagnostics p)"
    by (simp_all add: q_def adopt_geometry_def)
  show ?thesis
  proof (cases rule: ingest_begin_cases [of b p])
    case (dead r)
    with assms show ?thesis by simp
  next
    case (starved r)
    with q show ?thesis by (simp add: count_dropped_starved_def ledger_ok_def ready_slots_def flip: q_def)
  next
    case (reserved i q')
    note reserved = reserved [folded q_def]
    define z where "z = snd (ingest_begin b p)"
    have z: "cp_slots z = (cp_slots q)[i := \<lparr>sl_state = Slot_copying, sl_frame_id = cp_next_frame_id q', sl_frame = None\<rparr>]"
      "cp_diagnostics z = cp_diagnostics q'" using reserved(3,4) by (simp_all add: z_def count_dropped_oldest_def)
    have r: "ready_slots z = ready_slots q - {i}" using ready_update [OF reserved(1) z(1)] by simp
    have "ledger_ok z taken"
    proof (cases "i \<in> ready_slots q")
      case True
      then have "card (ready_slots z) + 1 = card (ready_slots q)" using r card_Suc_Diff1 [OF finite_ready True] by simp
      moreover have "unat (pd_dropped_oldest (cp_diagnostics q)) + 1 < 2 ^ 64"
        using q(1) calculation unat_lt_u64 [of "pd_accepted (cp_diagnostics q)"] by (simp add: ledger_ok_def)
      moreover have "cp_diagnostics z = (cp_diagnostics q)\<lparr>pd_dropped_oldest := pd_dropped_oldest (cp_diagnostics q) + 1\<rparr>"
        using True z(2) reserved(3) by (simp add: ready_slots_def count_dropped_oldest_def)
      ultimately show ?thesis using q(1) by (simp add: ledger_ok_def unat_word_ariths)
    next
      case False
      then have "ready_slots z = ready_slots q" "cp_diagnostics z = cp_diagnostics q"
        using r z(2) reserved(1,3) by (auto simp: ready_slots_def)
      with q(1) show ?thesis by (simp add: ledger_ok_def)
    qed
    moreover have "pd_accepted (cp_diagnostics z) = pd_accepted (cp_diagnostics p)"
      using q(2) z(2) reserved(3) by (simp add: count_dropped_oldest_def)
    ultimately show ?thesis by (simp add: z_def)
  qed
qed

lemma ledger_end:
  assumes "capture_ok y" "ledger_ok (sy_pool y) taken" "k < length (sy_tickets y)"
    "unat (pd_accepted (cp_diagnostics (sy_pool y))) \<le> n" "n + 1 < 2 ^ 64"
  shows "ledger_ok (snd (ingest_end (sy_tickets y ! k) requeued copied (sy_pool y))) taken \<and>
    unat (pd_accepted (cp_diagnostics (snd (ingest_end (sy_tickets y ! k) requeued copied (sy_pool y))))) \<le> n + 1"
proof -
  let ?p = "sy_pool y"
  obtain r b t where x: "sy_tickets y ! k = (r, b, t)" by (cases "sy_tickets y ! k")
  define f where "f = (if copied then Some (copy_frame b (rv_geometry r) (rv_frame_id r) t) else None)"
  define q where "q = snd (ingest_end (sy_tickets y ! k) requeued copied ?p)"
  show ?thesis
  proof (cases "live (sy_tickets y ! k)")
    case False
    then have "q = count_requeue requeued (count_rejected ?p)" by (simp add: q_def x ingest_end_def live_def reject_buffer_def)
    then have "ready_slots q = ready_slots ?p" "pd_accepted (cp_diagnostics q) = pd_accepted (cp_diagnostics ?p)"
      "pd_dropped_oldest (cp_diagnostics q) = pd_dropped_oldest (cp_diagnostics ?p)"
      by (simp_all add: ready_slots_def count_rejected_def)
    with assms(2,4) show ?thesis by (simp add: ledger_ok_def flip: q_def)
  next
    case True
    obtain m where "m < length (claims (sy_tickets y))" "claims (sy_tickets y) ! m = (rv_slot_index r, rv_frame_id r)"
      using claims_remove [OF assms(3) True] x by auto
    then have "(rv_slot_index r, rv_frame_id r) \<in> held Slot_copying (cp_slots ?p)"
      using assms(1) by (auto simp: capture_ok_def owned_def dest: nth_mem)
    then have own: "rv_slot_index r < slot_count y" "sl_state (slot_of y (rv_slot_index r)) = Slot_copying"
      "sl_frame_id (slot_of y (rv_slot_index r)) = rv_frame_id r" by (auto simp: held_def)
    have run: "q = snd (complete_slot r f requeued ?p)" using True by (simp add: q_def x ingest_end_def live_def f_def)
    have out: "rv_slot_index r \<notin> ready_slots ?p" using own(2) by (simp add: ready_slots_def)
    show ?thesis
    proof (cases "\<not> requeued \<or> f = None \<or> \<not> pd_admission_open (cp_diagnostics ?p) \<or> ge_epoch (cp_geometry ?p) \<noteq> ge_epoch (rv_geometry r)")
      case True
      with run own have q: "q = count_rejected ((count_requeue requeued ?p)\<lparr>cp_slots := (cp_slots ?p)[rv_slot_index r := empty_slot]\<rparr>)"
        by (simp add: complete_slot_def Let_def)
      have "ready_slots q = ready_slots ?p" using ready_update [OF own(1), of q empty_slot] out by (simp add: q count_rejected_def)
      with assms(2,4) show ?thesis by (simp add: q ledger_ok_def count_rejected_def flip: q_def)
    next
      case False
      let ?s = "(slot_of y (rv_slot_index r))\<lparr>sl_state := Slot_ready, sl_frame := f\<rparr>"
      from False run own have q: "cp_slots q = (cp_slots ?p)[rv_slot_index r := ?s]"
        "pd_accepted (cp_diagnostics q) = pd_accepted (cp_diagnostics ?p) + 1"
        "pd_dropped_oldest (cp_diagnostics q) = pd_dropped_oldest (cp_diagnostics ?p)"
        by (auto simp: complete_slot_def Let_def)
      have "ready_slots q = insert (rv_slot_index r) (ready_slots ?p)" using ready_update [OF own(1) q(1)] by simp
      then have "card (ready_slots q) = card (ready_slots ?p) + 1" using out by simp
      moreover have "unat (pd_accepted (cp_diagnostics q)) = unat (pd_accepted (cp_diagnostics ?p)) + 1"
        using assms(4,5) by (simp add: q(2) unat_word_ariths)
      ultimately show ?thesis using assms(2,4) q(3) by (simp add: ledger_ok_def flip: q_def)
    qed
  qed
qed

definition accounted :: "capture_system \<Rightarrow> bool" where
  "accounted y \<longleftrightarrow> ledger_ok (sy_pool y) (length (sy_taken y)) \<and> unat (pd_accepted (cp_diagnostics (sy_pool y))) \<le> sy_steps y"

lemma accounted_step:
  assumes "capture_ok y" "accounted y" "sy_steps y + 1 < 2 ^ 64"
  shows "accounted (capture_step y e)"
proof (cases e)
  case (Ingest_begin b t)
  with ledger_begin [of "sy_pool y" "length (sy_taken y)" b] assms(2) show ?thesis by (auto simp: accounted_def split: prod.splits)
next
  case (Ingest_end k requeued copied)
  show ?thesis
  proof (cases "k < length (sy_tickets y)")
    case True
    with Ingest_end ledger_end [OF assms(1) _ True _ assms(3), of "length (sy_taken y)" requeued copied] assms(2)
    show ?thesis by (auto simp: accounted_def)
  qed (use Ingest_end assms(2) in simp)
next
  case Take_latest
  show ?thesis
  proof (cases "newest_ready (cp_slots (sy_pool y))")
    case None
    with Take_latest assms(2) show ?thesis by (simp add: accounted_def take_latest_def)
  next
    case (Some i)
    let ?p = "drop_ready (Some i) (sy_pool y)"
    note i = newest_ready_Some [OF Some]
    have L: "ledger_ok (sy_pool y) (length (sy_taken y))" using assms(2) by (simp add: accounted_def)
    have d: "length (cp_slots ?p) = slot_count y" "cp_slots ?p ! i = slot_of y i" using drop_ready_spec [of "Some i" "sy_pool y"] i(1) by auto
    note l = drop_ready_ledger [OF L refl, of "Some i"]
    have r: "ready_slots ?p = {i}" using l(3) i(1,2) by (auto simp: ready_slots_def)
    define q where "q = ?p\<lparr>cp_slots := (cp_slots ?p)[i := (slot_of y i)\<lparr>sl_state := Slot_leased\<rparr>]\<rparr>"
    have "ready_slots q = {}" using ready_update [of i ?p q] d i(1) r by (simp add: q_def)
    then have "ledger_ok q (length (sy_taken y) + 1)" using l(1) r by (simp add: ledger_ok_def q_def)
    moreover have "pd_accepted (cp_diagnostics q) = pd_accepted (cp_diagnostics (sy_pool y))" using l(2) by (simp add: q_def)
    ultimately show ?thesis using Take_latest Some assms(2) d by (simp add: accounted_def take_latest_def Let_def flip: q_def)
  qed
next
  case (Release k)
  let ?i = "fst (sy_leases y ! k)"
  have "ready_slots (release_lease ?i n (sy_pool y)) = ready_slots (sy_pool y)" for n
  proof (cases "?i < slot_count y \<and> sl_state (slot_of y ?i) = Slot_leased")
    case True
    then show ?thesis
      using ready_update [of ?i "sy_pool y" "release_lease ?i n (sy_pool y)" empty_slot]
      by (auto simp: release_lease_def Let_def ready_slots_def)
  next
    case False
    then show ?thesis by (auto simp: release_lease_def Let_def ready_slots_def)
  qed
  with Release assms(2) show ?thesis by (simp add: accounted_def ledger_ok_def release_lease_def Let_def)
next
  case (Stop_capture s)
  let ?q = "(sy_pool y)\<lparr>cp_diagnostics := (cp_diagnostics (sy_pool y))\<lparr>pd_admission_open := False, pd_terminal_state := s\<rparr>\<rparr>"
  have "ledger_ok ?q (length (sy_taken y))" using assms(2) by (simp add: accounted_def ledger_ok_def ready_slots_def)
  from drop_ready_ledger(1,2) [OF this refl, of None] assms(2) show ?thesis
    by (simp add: Stop_capture accounted_def stop_capture_def)
qed

end
