(* ===== verification/Capture_Delivery.thy ===== *)
theory Capture_Delivery
  imports Capture_Safety "HOL-Library.Sublist"
begin

text \<open>
  The contract of the capture pool over whole runs: who owns a slot, and that every accepted frame is
  accounted for; then the portal handshake.
\<close>

section \<open>Ownership and accounting over runs\<close>

abbreviation capture_run :: "capture_pool \<Rightarrow> capture_event list \<Rightarrow> capture_system" where
  "capture_run p \<equiv> foldl capture_step (start_system p)"

lemma run_steps: "sy_steps (foldl capture_step y events) \<le> sy_steps y + length events"
proof (induction events arbitrary: y)
  case (Cons e events)
  from Cons [of "capture_step y e"] steps_grow [of y e] show ?case by simp
qed simp

lemma fresh_pool:
  assumes "make_capture_pool n = Inr p"
  shows "capture_ok (start_system p)" "accounted (start_system p)" "length (cp_slots p) = n" "cp_slots p = replicate n empty_slot"
proof -
  have p: "cp_slots p = replicate n empty_slot" "cp_next_frame_id p = 1" "pd_accepted (cp_diagnostics p) = 0"
    "pd_dropped_oldest (cp_diagnostics p) = 0" using assms by (auto simp: make_capture_pool_def split: if_splits)
  have none: "busy (cp_slots p) = {}" "undelivered (cp_slots p) = {}" "held Slot_leased (cp_slots p) = {}"
    "held Slot_copying (cp_slots p) = {}" by (auto simp: p busy_def undelivered_def held_def)
  show "capture_ok (start_system p)"
    using none by (auto simp: capture_ok_def start_system_def p owned_def claims_def frames_ok_def numbers_ok_def)
  show "accounted (start_system p)"
    by (auto simp: accounted_def start_system_def p ledger_ok_def ready_slots_def)
  show "length (cp_slots p) = n" "cp_slots p = replicate n empty_slot" by (simp_all add: p)
qed

lemma run_capture_ok:
  assumes "make_capture_pool n = Inr p" "length events + 1 < 2 ^ 64"
  shows "capture_ok (capture_run p events)"
proof -
  have "sy_steps (capture_run p events) + 1 < 2 ^ 64"
    using run_steps [of "start_system p" events] assms(2) by (simp add: start_system_def)
  with capture.run_inv [of "start_system p" events] fresh_pool(1) [OF assms(1)] show ?thesis by blast
qed

text \<open>C16 (safety). Under every interleaving of ingests, takes, releases and stops, every slot being
  copied belongs to exactly one ingest in flight and every leased slot to exactly one lease, so an
  ingest never finds that it lost its slot and a release frees exactly the slot of its own frame;
  frame numbers in use differ, no frame is handed out twice, and a ready frame is of the current
  geometry and only there while admission is open.\<close>

theorem capture_slots_have_one_owner:
  assumes "make_capture_pool n = Inr p" "length events + 1 < 2 ^ 64" "y = capture_run p events"
  shows "capture_ok y \<and>
    (\<forall>k < length (sy_tickets y). live (sy_tickets y ! k) \<longrightarrow>
       ir_reason (fst (ingest_end (sy_tickets y ! k) requeued copied (sy_pool y))) \<noteq> ''capture_slot_ownership_lost'') \<and>
    (\<forall>(i, m) \<in> set (sy_leases y). release_lease i m (sy_pool y) = (sy_pool y)\<lparr>cp_slots := (cp_slots (sy_pool y))[i := empty_slot]\<rparr>)"
proof -
  have ok: "capture_ok y" using run_capture_ok [OF assms(1,2)] assms(3) by simp
  have "ir_reason (fst (ingest_end (sy_tickets y ! k) requeued copied (sy_pool y))) \<noteq> ''capture_slot_ownership_lost''"
    if k: "k < length (sy_tickets y)" and l: "live (sy_tickets y ! k)" for k
  proof -
    obtain r b t where x: "sy_tickets y ! k = (r, b, t)" by (cases "sy_tickets y ! k")
    obtain m where "m < length (claims (sy_tickets y))" "claims (sy_tickets y) ! m = (rv_slot_index r, rv_frame_id r)"
      using claims_remove [OF k l] x by auto
    then have "(rv_slot_index r, rv_frame_id r) \<in> held Slot_copying (cp_slots (sy_pool y))"
      using ok by (auto simp: capture_ok_def owned_def dest: nth_mem)
    with l x show ?thesis by (auto simp: held_def ingest_end_def complete_slot_def live_def Let_def no_ingress_def)
  qed
  moreover have "release_lease i m (sy_pool y) = (sy_pool y)\<lparr>cp_slots := (cp_slots (sy_pool y))[i := empty_slot]\<rparr>"
    if "(i, m) \<in> set (sy_leases y)" for i m
    using that ok by (auto simp: capture_ok_def owned_def held_def release_lease_def Let_def)
  ultimately show ?thesis using ok by blast
qed

theorem capture_slots_have_one_owner_witness:
  "\<exists>p. make_capture_pool 2 = Inr p \<and>
     capture_ok (capture_run p [Ingest_begin sample_buffer 5, Ingest_begin sample_buffer 6, Ingest_end 1 True True, Take_latest])"
proof -
  obtain p where p: "make_capture_pool 2 = Inr p" by (simp add: make_capture_pool_def)
  define events where "events = [Ingest_begin sample_buffer 5, Ingest_begin sample_buffer 6, Ingest_end 1 True True, Take_latest]"
  have "length events + 1 < 2 ^ 64" by (simp add: events_def)
  from capture_slots_have_one_owner [OF p this refl] p show ?thesis unfolding events_def by blast
qed

text \<open>C37 (invariant). The counters are exact: every accepted frame has been handed out, or counted as
  dropped in favour of a newer one, or is ready now.\<close>

theorem capture_frames_accounted:
  assumes "make_capture_pool n = Inr p" "length events + 1 < 2 ^ 64" "y = capture_run p events"
    "d = pool_diagnostics (sy_pool y)"
  shows "unat (pd_accepted d) = length (sy_taken y) + unat (pd_dropped_oldest d) + slots_in Slot_ready (sy_pool y)"
proof -
  have "accounted (capture_run p es)" if "length es + 1 < 2 ^ 64" for es
    using that
  proof (induction es rule: rev_induct)
    case Nil
    then show ?case using fresh_pool(2) [OF assms(1)] by simp
  next
    case (snoc e es)
    then have "accounted (capture_run p es)" "capture_ok (capture_run p es)" "sy_steps (capture_run p es) + 1 < 2 ^ 64"
      using run_capture_ok [OF assms(1), of es] run_steps [of "start_system p" es] by (simp_all add: start_system_def)
    then show ?case using accounted_step by simp
  qed
  from this [OF assms(2)] show ?thesis
    by (simp add: assms(3,4) accounted_def ledger_ok_def pool_diagnostics_def slots_in_ready)
qed

theorem capture_frames_accounted_witness:
  "\<exists>p y. make_capture_pool 2 = Inr p \<and>
     y = capture_run p [Ingest_begin sample_buffer 5, Ingest_begin sample_buffer 6, Ingest_end 1 True True, Take_latest] \<and>
     unat (pd_accepted (pool_diagnostics (sy_pool y))) =
       length (sy_taken y) + unat (pd_dropped_oldest (pool_diagnostics (sy_pool y))) + slots_in Slot_ready (sy_pool y)"
proof -
  obtain p where p: "make_capture_pool 2 = Inr p" by (simp add: make_capture_pool_def)
  define events where "events = [Ingest_begin sample_buffer 5, Ingest_begin sample_buffer 6, Ingest_end 1 True True, Take_latest]"
  have "length events + 1 < 2 ^ 64" by (simp add: events_def)
  from capture_frames_accounted [OF p this refl refl] p show ?thesis unfolding events_def by blast
qed

section \<open>The portal handshake\<close>

datatype portal_event =
    Portal_begin string
  | Session_created string string string
  | Sources_selected string string
  | Portal_started string u32
  | Portal_cancel string
  | Portal_close capture_state

fun portal_step :: "portal_selection \<Rightarrow> portal_event \<Rightarrow> portal_selection" where
  "portal_step p (Portal_begin r) = snd (portal_begin p r)"
| "portal_step p (Session_created r s q) = snd (portal_session_created p r s q)"
| "portal_step p (Sources_selected r q) = snd (portal_sources_selected p r q)"
| "portal_step p (Portal_started r n) = snd (portal_started p r n)"
| "portal_step p (Portal_cancel r) = snd (portal_cancel p r)"
| "portal_step p (Portal_close s) = snd (portal_close p s)"

lemmas portal_ops = portal_begin_def portal_session_created_def portal_sources_selected_def portal_started_def
  portal_cancel_def portal_close_def portal_refused_def portal_move_def portal_expected_def forget_handles_def

text \<open>What the responses seen so far must contain, in order, for the portal to be where it is.\<close>

fun handshake :: "capture_state \<Rightarrow> string \<Rightarrow> string \<Rightarrow> string \<Rightarrow> string \<Rightarrow> u32 \<Rightarrow> portal_event list" where
  "handshake Creating_session a s b c n = [Portal_begin a]"
| "handshake Selecting_sources a s b c n = [Portal_begin a, Session_created a s b]"
| "handshake Starting a s b c n = [Portal_begin a, Session_created a s b, Sources_selected b c]"
| "handshake Streaming a s b c n = [Portal_begin a, Session_created a s b, Sources_selected b c, Portal_started c n]"
| "handshake _ a s b c n = []"

fun pending_handle :: "capture_state \<Rightarrow> string \<Rightarrow> string \<Rightarrow> string \<Rightarrow> string" where
  "pending_handle Creating_session a b c = a"
| "pending_handle Selecting_sources a b c = b"
| "pending_handle Starting a b c = c"
| "pending_handle _ a b c = []"

definition portal_ok :: "portal_event list \<Rightarrow> portal_selection \<Rightarrow> bool" where
  "portal_ok events p \<longleftrightarrow>
     (\<exists>a b c. subseq (handshake (ps_state p) a (ps_session_handle p) b c (ps_pipewire_node_id p)) events \<and>
        ps_request_handle p = pending_handle (ps_state p) a b c) \<and>
     (ps_session_handle p \<noteq> [] \<longleftrightarrow> ps_state p \<in> {Selecting_sources, Starting, Streaming}) \<and>
     (ps_pipewire_node_id p \<noteq> 0 \<longleftrightarrow> ps_state p = Streaming) \<and>
     ps_contract p = default_contract"

lemma subseq_snoc: "subseq xs ys \<Longrightarrow> subseq (xs @ [e]) (ys @ [e])" "subseq xs ys \<Longrightarrow> subseq xs (ys @ [e])"
  by (auto intro: list_emb_append_mono subseq_rev_drop_many)

lemma portal_ok_kept: "portal_ok events p \<Longrightarrow> portal_ok (events @ [e]) p"
  unfolding portal_ok_def by (blast intro: subseq_snoc(2))

lemma portal_ok_gone:
  "capture_terminal s \<Longrightarrow> portal_ok events p \<Longrightarrow> portal_ok (events @ [e]) ((forget_handles p)\<lparr>ps_state := s\<rparr>)"
  by (auto simp: portal_ok_def forget_handles_def capture_terminal_def)

lemma portal_ok_step:
  assumes "portal_ok events p"
  shows "portal_ok (events @ [e]) (portal_step p e)"
proof (cases e)
  case (Portal_begin r)
  then show ?thesis using assms portal_ok_kept [OF assms] subseq_snoc(1) [of "[]" events e]
    by (auto simp: portal_ops) (auto simp: portal_ok_def)
next
  case (Session_created r s q)
  show ?thesis
  proof (cases "portal_step p e = p")
    case False
    then have "ps_state p = Creating_session" "ps_request_handle p = r" "s \<noteq> []" "q \<noteq> []"
      "portal_step p e = p\<lparr>ps_session_handle := s, ps_request_handle := q, ps_state := Selecting_sources\<rparr>"
      by (auto simp: Session_created portal_ops split: if_splits)
    with assms subseq_snoc(1) [of "[Portal_begin r]" events e] show ?thesis by (auto simp: portal_ok_def Session_created)
  qed (simp add: portal_ok_kept assms)
next
  case (Sources_selected r q)
  show ?thesis
  proof (cases "portal_step p e = p")
    case False
    then have step: "ps_state p = Selecting_sources" "ps_request_handle p = r"
      "portal_step p e = p\<lparr>ps_request_handle := q, ps_state := Starting\<rparr>"
      by (auto simp: Sources_selected portal_ops split: if_splits)
    with assms obtain a where "subseq [Portal_begin a, Session_created a (ps_session_handle p) r] events"
      by (auto simp: portal_ok_def)
    from subseq_snoc(1) [OF this, of e] step assms show ?thesis by (auto simp: portal_ok_def Sources_selected)
  qed (simp add: portal_ok_kept assms)
next
  case (Portal_started r n)
  show ?thesis
  proof (cases "portal_step p e = p")
    case False
    then have step: "ps_state p = Starting" "ps_request_handle p = r" "n \<noteq> 0"
      "portal_step p e = p\<lparr>ps_request_handle := [], ps_pipewire_node_id := n, ps_state := Streaming\<rparr>"
      by (auto simp: Portal_started portal_ops split: if_splits)
    with assms obtain a b where "subseq [Portal_begin a, Session_created a (ps_session_handle p) b, Sources_selected b r] events"
      by (auto simp: portal_ok_def)
    from subseq_snoc(1) [OF this, of e] step assms show ?thesis by (auto simp: portal_ok_def Portal_started)
  qed (simp add: portal_ok_kept assms)
next
  case (Portal_cancel r)
  then show ?thesis using portal_ok_gone [OF _ assms, of Cancelled e] portal_ok_kept [OF assms, of e]
    by (auto simp: portal_cancel_def portal_refused_def portal_move_def capture_terminal_def)
next
  case (Portal_close s)
  then show ?thesis using portal_ok_gone [OF _ assms, of s e] portal_ok_kept [OF assms, of e]
    by (auto simp: portal_close_def portal_refused_def portal_move_def)
qed

text \<open>Once terminal, always terminal; that is the latch.\<close>

interpretation portal: latched_machine portal_step "\<lambda>p. True" "\<lambda>p. capture_terminal s \<and> ps_state p = s" for s
proof
  fix p :: portal_selection and e assume "capture_terminal s \<and> ps_state p = s"
  then show "capture_terminal s \<and> ps_state (portal_step p e) = s" by (cases e) (auto simp: portal_ops capture_terminal_def)
qed simp

text \<open>C38 (safety). Whatever the portal's responses are and in whatever order they come, a stream node is
  held exactly while streaming, and streaming is reached only by the responses of the handshake in
  their order, each for the request handle issued before it: the session of the creation and the
  node of the start response are the ones held. A terminal state forgets the handles and is final.\<close>

theorem portal_streams_after_handshake:
  assumes "p = foldl portal_step new_portal events"
  shows "(ps_pipewire_node_id p \<noteq> 0 \<longleftrightarrow> ps_state p = Streaming) \<and>
    (ps_state p = Streaming \<longrightarrow>
       (\<exists>a b c. subseq [Portal_begin a, Session_created a (ps_session_handle p) b, Sources_selected b c,
                       Portal_started c (ps_pipewire_node_id p)] events)) \<and>
    (capture_terminal (ps_state p) \<longrightarrow>
       ps_request_handle p = [] \<and> ps_session_handle p = [] \<and>
       ps_state (foldl portal_step p later) = ps_state p)"
proof -
  have "portal_ok es (foldl portal_step new_portal es)" for es
    by (induction es rule: rev_induct) (simp_all add: portal_ok_step, simp add: portal_ok_def new_portal_def)
  then have ok: "portal_ok events p" by (simp add: assms)
  then have "ps_state p = Streaming \<Longrightarrow>
      \<exists>a b c. subseq [Portal_begin a, Session_created a (ps_session_handle p) b, Sources_selected b c,
                     Portal_started c (ps_pipewire_node_id p)] events" by (simp add: portal_ok_def)
  moreover have "capture_terminal (ps_state p) \<Longrightarrow> ps_request_handle p = [] \<and> ps_session_handle p = []"
    using ok by (auto simp: portal_ok_def capture_terminal_def)
  ultimately show ?thesis using ok portal.run_latched [of "ps_state p" p later] by (simp add: portal_ok_def)
qed

theorem portal_streams_after_handshake_witness:
  "let p = foldl portal_step new_portal
     [Portal_begin ''a'', Portal_started ''a'' 7, Session_created ''a'' ''s'' ''b'', Sources_selected ''b'' ''c'', Portal_started ''c'' 42]
   in ps_state p = Streaming \<and> ps_pipewire_node_id p = 42 \<and> ps_session_handle p = ''s''"
  using portal_streams_after_handshake [OF refl, of
     "[Portal_begin ''a'', Portal_started ''a'' 7, Session_created ''a'' ''s'' ''b'', Sources_selected ''b'' ''c'', Portal_started ''c'' 42]" "[]"]
  by (simp add: portal_ops new_portal_def)

end
