(* ===== verification/Owner_Signaling.thy ===== *)
theory Owner_Signaling
  imports Control_Protocol
begin

text \<open>
  The owner's side of the signaling service (\<^verbatim>\<open>src/transport/owner_signaling.cpp\<close>): the origin check,
  the protocol object with its phases, capability and sequence numbers, and the client that applies
  its outputs to a web socket and queues its events.

  The JSON library is the parameter of \<open>Control_Protocol\<close>; a \<open>dump\<close> that throws counts as an empty text,
  which \<open>serialize\<close> refuses in the same way. The web socket's answers are arguments.
\<close>

section \<open>Checks\<close>

definition kSignalingProtocol :: string where "kSignalingProtocol = ''glyphrelay-signal-v1''"
definition kMaximumSignalBytes :: nat where "kMaximumSignalBytes = 64 * 1024"
definition kMaximumSdpBytes :: nat where "kMaximumSdpBytes = 64 * 1024"
definition kMaximumCandidateBytes :: nat where "kMaximumCandidateBytes = 4 * 1024"
definition kMaximumPendingEvents :: nat where "kMaximumPendingEvents = 32"
definition kOwnerLivenessTimeout :: int where "kOwnerLivenessTimeout = 5 * 1000000000"

definition matches_capability :: "string \<Rightarrow> bool" where
  "matches_capability s \<longleftrightarrow> 22 \<le> length s \<and> length s \<le> 128 \<and> list_all session_character s"

definition matches_dns_or_ipv4 :: "string \<Rightarrow> bool" where
  "matches_dns_or_ipv4 s \<longleftrightarrow> s \<noteq> [] \<and> list_all (\<lambda>c. c \<in> set ''abcdefghijklmnopqrstuvwxyz0123456789.-'') s"

definition matches_ipv6 :: "string \<Rightarrow> bool" where
  "matches_ipv6 s \<longleftrightarrow> s \<noteq> [] \<and> list_all (\<lambda>c. c \<in> set ''0123456789abcdef:.%'') s"

definition valid_bounded_text :: "string \<Rightarrow> nat \<Rightarrow> bool" where
  "valid_bounded_text s maximum_bytes \<longleftrightarrow> s \<noteq> [] \<and> length s \<le> maximum_bytes \<and> CHR 0x00 \<notin> set s"

definition valid_deadline :: "json \<Rightarrow> bool" where
  "valid_deadline v =
     (case json_number v of
        None \<Rightarrow> False
      | Some x \<Rightarrow> d_isfinite x \<and> d_less (Fin 0) x \<and> d_le x (d_of_u64 kMaximumSafeInteger))"

definition has_deadline :: "json \<Rightarrow> string \<Rightarrow> bool" where
  "has_deadline v k = (case json_find v k of None \<Rightarrow> False | Some x \<Rightarrow> valid_deadline x)"

definition valid_string_field :: "json \<Rightarrow> string \<Rightarrow> nat \<Rightarrow> bool" where
  "valid_string_field v k maximum_bytes =
     (case json_find v k of Some (J_string s) \<Rightarrow> valid_bounded_text s maximum_bytes | _ \<Rightarrow> False)"

definition serialize_signal :: "json_library \<Rightarrow> json \<Rightarrow> exn + string" where
  "serialize_signal jl v =
     (let encoded = jl_dump jl v in
      if encoded = [] \<or> length encoded > kMaximumSignalBytes
      then Inl (Runtime_error ''OWNER_SIGNAL_MESSAGE_SIZE_INVALID'') else Inr encoded)"

section \<open>The origin\<close>

definition digit :: "char \<Rightarrow> bool" where
  "digit c \<longleftrightarrow> c \<in> set ''0123456789''"

definition digit_value :: "char \<Rightarrow> nat" where
  "digit_value c = of_char c - of_char CHR ''0''"

text \<open>At most five digits, so the \<open>unsigned int\<close> does not wrap.\<close>

definition port_value :: "string \<Rightarrow> nat" where
  "port_value s = foldl (\<lambda>port c. port * 10 + digit_value c) 0 s"

definition parse_port :: "string \<Rightarrow> exn + nat" where
  "parse_port s =
     (if s = [] \<or> length s > 5 \<or> \<not> list_all digit s then Inl (Invalid_argument ''signaling_origin_port_invalid'')
      else if port_value s = 0 \<or> port_value s > 65535 then Inl (Invalid_argument ''signaling_origin_port_invalid'')
      else Inr (port_value s))"

definition starts_with :: "string \<Rightarrow> string \<Rightarrow> bool" where
  "starts_with s p \<longleftrightarrow> take (length p) s = p"

text \<open>The text before the first occurrence of a character, and the one after it.\<close>

definition before_first :: "char \<Rightarrow> string \<Rightarrow> string" where
  "before_first c s = takeWhile (\<lambda>x. x \<noteq> c) s"

definition after_first :: "char \<Rightarrow> string \<Rightarrow> string" where
  "after_first c s = drop (length (before_first c s) + 1) s"

text \<open>The host with its brackets, and the port.\<close>

definition parse_bracketed :: "string \<Rightarrow> exn + (string \<times> nat option)" where
  "parse_bracketed authority =
     (let inner = before_first CHR '']'' (tl authority); rest = after_first CHR '']'' (tl authority) in
      if CHR '']'' \<notin> set authority \<or> inner = [] \<or> \<not> matches_ipv6 inner
        then Inl (Invalid_argument ''signaling_origin_host_invalid'')
      else let host = CHR ''['' # inner @ '']'' in
        if rest = [] then Inr (host, None)
        else if hd rest \<noteq> CHR '':'' then Inl (Invalid_argument ''signaling_origin_authority_invalid'')
        else case parse_port (tl rest) of Inl e \<Rightarrow> Inl e | Inr port \<Rightarrow> Inr (host, Some port))"

definition parse_plain :: "string \<Rightarrow> exn + (string \<times> nat option)" where
  "parse_plain authority =
     (if CHR '':'' \<in> set authority \<and> CHR '':'' \<in> set (after_first CHR '':'' authority)
        then Inl (Invalid_argument ''signaling_origin_host_invalid'')
      else
        case (if CHR '':'' \<in> set authority
              then case parse_port (after_first CHR '':'' authority) of Inl e \<Rightarrow> Inl e | Inr port \<Rightarrow> Inr (Some port)
              else Inr None) of
          Inl e \<Rightarrow> Inl e
        | Inr port \<Rightarrow>
            let host = before_first CHR '':'' authority in
            if host = [] \<or> \<not> matches_dns_or_ipv4 host then Inl (Invalid_argument ''signaling_origin_host_invalid'')
            else Inr (host, port))"

definition parse_origin :: "string \<Rightarrow> exn + string" where
  "parse_origin origin =
     (let secure = starts_with origin ''https://''; insecure = starts_with origin ''http://'';
          authority = drop (if secure then 8 else 7) origin
      in
      if \<not> secure \<and> \<not> insecure then Inl (Invalid_argument ''signaling_origin_scheme_invalid'')
      else if authority = [] \<or> list_ex (\<lambda>c. c \<in> set (''/?#@'' @ [CHR 0x5C, CHR 0x0D, CHR 0x0A])) authority
        then Inl (Invalid_argument ''signaling_origin_authority_invalid'')
      else
        case (if hd authority = CHR ''['' then parse_bracketed authority else parse_plain authority) of
          Inl e \<Rightarrow> Inl e
        | Inr (host, port) \<Rightarrow>
            if \<not> secure \<and> \<not> (host = ''127.0.0.1'' \<or> host = ''[::1]'')
              then Inl (Invalid_argument ''insecure_non_loopback_signaling_origin'')
            else if secure \<and> port = Some 443 \<or> insecure \<and> port = Some 80
              then Inl (Invalid_argument ''signaling_origin_noncanonical_default_port'')
            else Inr ((if secure then ''wss://'' else ''ws://'') @ authority @ ''/v1/signal''))"

section \<open>The protocol object\<close>

datatype owner_signaling_phase =
    Owner_idle | Creating | Owner_only | Join_pending | Join_open | Join_reserved | Negotiating
  | Owner_connected | Restart_negotiating | Owner_revoked | Owner_expired | Owner_failed | Owner_stopped

datatype owner_signaling_event_kind =
    On_session_created | On_join_created | On_receiver_reserved | On_receiver_offer
  | On_receiver_restart_offer | On_receiver_candidate | On_receiver_disconnected | On_terminal

record owner_signaling_event =
  oe_kind :: owner_signaling_event_kind
  oe_value :: string

record owner_signaling_output =
  oo_valid :: bool
  oo_close_transport :: bool
  oo_outbound_messages :: "string list"
  oo_events :: "owner_signaling_event list"

definition no_signal_output :: owner_signaling_output where
  "no_signal_output = \<lparr>oo_valid = True, oo_close_transport = False, oo_outbound_messages = [], oo_events = []\<rparr>"

record owner_signaling =
  ow_expected_origin :: string
  ow_owner_capability :: string
  ow_session_id :: string
  ow_phase :: owner_signaling_phase
  ow_client_sequence :: u64
  ow_server_sequence :: u64
  ow_reason :: string
  ow_automatically_create_join :: bool

definition make_owner :: "string \<Rightarrow> exn + owner_signaling" where
  "make_owner expected_origin =
     (case parse_origin expected_origin of
        Inl e \<Rightarrow> Inl e
      | Inr _ \<Rightarrow> Inr \<lparr>ow_expected_origin = expected_origin, ow_owner_capability = [], ow_session_id = [],
                      ow_phase = Owner_idle, ow_client_sequence = 0, ow_server_sequence = 0,
                      ow_reason = ''OWNER_SIGNALING_IDLE'', ow_automatically_create_join = False\<rparr>)"

definition active_owner_phase :: "owner_signaling_phase \<Rightarrow> bool" where
  "active_owner_phase phase \<longleftrightarrow>
     phase = Creating \<or> phase = Owner_only \<or> phase = Join_pending \<or> phase = Join_open \<or> phase = Join_reserved \<or>
     phase = Negotiating \<or> phase = Owner_connected \<or> phase = Restart_negotiating"

definition owner_active :: "owner_signaling \<Rightarrow> bool" where
  "owner_active c = active_owner_phase (ow_phase c)"

definition clear_owner_capability :: "owner_signaling \<Rightarrow> owner_signaling" where
  "clear_owner_capability c = c\<lparr>ow_owner_capability := []\<rparr>"

definition owner_event :: "owner_signaling_event_kind \<Rightarrow> string \<Rightarrow> owner_signaling_event" where
  "owner_event kind v = \<lparr>oe_kind = kind, oe_value = v\<rparr>"

definition append_output :: "owner_signaling_output \<Rightarrow> owner_signaling_output \<Rightarrow> owner_signaling_output" where
  "append_output destination source =
     \<lparr>oo_valid = (oo_valid destination \<and> oo_valid source),
      oo_close_transport = (oo_close_transport destination \<or> oo_close_transport source),
      oo_outbound_messages = oo_outbound_messages destination @ oo_outbound_messages source,
      oo_events = oo_events destination @ oo_events source\<rparr>"

type_synonym owner_step = "owner_signaling_output \<times> owner_signaling"

definition owner_fail :: "string \<Rightarrow> owner_signaling \<Rightarrow> owner_step" where
  "owner_fail reason c =
     (let output = no_signal_output\<lparr>oo_valid := False\<rparr> in
      if ow_phase c \<in> {Owner_failed, Owner_revoked, Owner_expired, Owner_stopped} then (output, c)
      else (output\<lparr>oo_close_transport := True, oo_events := [owner_event On_terminal reason]\<rparr>,
            clear_owner_capability (c\<lparr>ow_reason := reason, ow_phase := Owner_failed\<rparr>)))"

definition authenticated_message ::
  "json_library \<Rightarrow> string \<Rightarrow> (string \<times> string) option \<Rightarrow> owner_signaling \<Rightarrow> owner_step" where
  "authenticated_message jl type field c =
     (if ow_owner_capability c = [] \<or> ow_session_id c = [] \<or> ow_client_sequence c \<ge> kMaximumSafeInteger
      then owner_fail ''OWNER_SIGNAL_AUTHENTICATED_SEND_INVALID'' c
      else
        let c = c\<lparr>ow_client_sequence := ow_client_sequence c + 1\<rparr>;
            message = J_object
              [(''ownerCapability'', J_string (ow_owner_capability c)), (''protocolVersion'', J_string kSignalingProtocol),
               (''sequence'', J_unsigned (ow_client_sequence c)), (''sessionId'', J_string (ow_session_id c)),
               (''type'', J_string type)];
            message = (case field of None \<Rightarrow> message | Some (k, v) \<Rightarrow> json_set k (J_string v) message)
        in case serialize_signal jl message of
             Inl _ \<Rightarrow> owner_fail ''OWNER_SIGNAL_MESSAGE_SIZE_INVALID'' c
           | Inr encoded \<Rightarrow> (no_signal_output\<lparr>oo_outbound_messages := [encoded]\<rparr>, c))"

section \<open>The calls of the owner\<close>

definition owner_begin :: "json_library \<Rightarrow> bool \<Rightarrow> owner_signaling \<Rightarrow> (owner_signaling_output, owner_signaling) outcome" where
  "owner_begin jl automatically_create_join c =
     (if ow_phase c \<noteq> Owner_idle
      then (case owner_fail ''OWNER_SIGNAL_BEGIN_STATE_INVALID'' c of (output, c) \<Rightarrow> (Inr output, c))
      else
        let c = c\<lparr>ow_automatically_create_join := automatically_create_join, ow_phase := Creating,
                  ow_reason := ''OWNER_SIGNAL_SESSION_CREATING'', ow_client_sequence := 1\<rparr>
        in case serialize_signal jl (J_object [(''protocolVersion'', J_string kSignalingProtocol),
                  (''sequence'', J_unsigned (ow_client_sequence c)), (''type'', J_string ''CREATE_SESSION'')]) of
             Inl e \<Rightarrow> (Inl e, c)
           | Inr encoded \<Rightarrow> (Inr (no_signal_output\<lparr>oo_outbound_messages := [encoded]\<rparr>), c))"

definition owner_create_join :: "json_library \<Rightarrow> owner_signaling \<Rightarrow> owner_step" where
  "owner_create_join jl c =
     (if ow_phase c \<noteq> Owner_only then owner_fail ''OWNER_SIGNAL_CREATE_JOIN_STATE_INVALID'' c
      else case authenticated_message jl ''CREATE_JOIN'' None c of
        (output, c) \<Rightarrow>
          if oo_valid output then (output, c\<lparr>ow_phase := Join_pending, ow_reason := ''OWNER_SIGNAL_JOIN_PENDING''\<rparr>)
          else (output, c))"

definition owner_send_answer :: "json_library \<Rightarrow> string \<Rightarrow> bool \<Rightarrow> owner_signaling \<Rightarrow> owner_step" where
  "owner_send_answer jl sdp restart c =
     (let expected = (if restart then Restart_negotiating else Negotiating) in
      if ow_phase c \<noteq> expected \<or> \<not> valid_bounded_text sdp kMaximumSdpBytes
      then owner_fail ''OWNER_SIGNAL_ANSWER_INVALID'' c
      else case authenticated_message jl (if restart then ''OWNER_ICE_RESTART_ANSWER'' else ''OWNER_ANSWER'') (Some (''sdp'', sdp)) c of
        (output, c) \<Rightarrow>
          if oo_valid output
          then (output, c\<lparr>ow_phase := Owner_connected,
                  ow_reason := (if restart then ''OWNER_SIGNAL_RESTART_ANSWER_SENT'' else ''OWNER_SIGNAL_ANSWER_SENT'')\<rparr>)
          else (output, c))"

definition owner_send_candidate :: "json_library \<Rightarrow> string \<Rightarrow> owner_signaling \<Rightarrow> owner_step" where
  "owner_send_candidate jl candidate c =
     (if ow_phase c \<noteq> Negotiating \<and> ow_phase c \<noteq> Owner_connected \<and> ow_phase c \<noteq> Restart_negotiating \<or>
         \<not> valid_bounded_text candidate kMaximumCandidateBytes
      then owner_fail ''OWNER_SIGNAL_CANDIDATE_INVALID'' c
      else authenticated_message jl ''OWNER_ICE_CANDIDATE'' (Some (''candidate'', candidate)) c)"

definition owner_stop :: "json_library \<Rightarrow> bool \<Rightarrow> owner_signaling \<Rightarrow> owner_step" where
  "owner_stop jl revoke c =
     (case (if owner_active c \<and> ow_owner_capability c \<noteq> []
            then authenticated_message jl (if revoke then ''OWNER_REVOKE'' else ''OWNER_STOP'') None c
            else (no_signal_output, c)) of
        (output, c) \<Rightarrow>
          let reason = (if revoke then ''OWNER_SIGNAL_REVOKED_LOCALLY'' else ''OWNER_SIGNAL_STOPPED'')
          in (output\<lparr>oo_close_transport := True, oo_events := oo_events output @ [owner_event On_terminal reason]\<rparr>,
              (clear_owner_capability c)\<lparr>ow_phase := Owner_stopped, ow_reason := reason\<rparr>))"

definition transport_failed :: "string \<Rightarrow> owner_signaling \<Rightarrow> owner_step" where
  "transport_failed reason c = (if \<not> owner_active c then (no_signal_output, c) else owner_fail reason c)"

section \<open>Messages of the service\<close>

text \<open>A branch gives the reason of its failure, or an output, which may also be an exception, and the
  new state; the failure may come after a change of state.\<close>

type_synonym signal_branch = "(string + (exn + owner_signaling_output)) \<times> owner_signaling"

definition accept_signal ::
  "owner_signaling_event list \<Rightarrow> (owner_signaling \<Rightarrow> owner_signaling) \<Rightarrow> owner_signaling \<Rightarrow> signal_branch" where
  "accept_signal events change c =
     (Inr (Inr (no_signal_output\<lparr>oo_events := events\<rparr>)), change (c\<lparr>ow_server_sequence := ow_server_sequence c + 1\<rparr>))"

definition signal_envelope_valid :: "owner_signaling \<Rightarrow> json \<Rightarrow> bool" where
  "signal_envelope_valid c v \<longleftrightarrow>
     (case v of J_object _ \<Rightarrow> True | _ \<Rightarrow> False) \<and>
     valid_string_field v ''protocolVersion'' 64 \<and> has_string v ''protocolVersion'' kSignalingProtocol \<and>
     valid_string_field v ''type'' 64 \<and> has_safe_integer v ''sequence'' False \<and>
     integer_at v ''sequence'' = ow_server_sequence c + 1 \<and>
     valid_string_field v ''sessionId'' 128 \<and> matches_session (string_at v ''sessionId'')"

definition receive_session_created :: "json_library \<Rightarrow> json \<Rightarrow> owner_signaling \<Rightarrow> signal_branch" where
  "receive_session_created jl v c =
     (if ow_phase c \<noteq> Creating \<or>
         \<not> exact_keys v [''absoluteDeadlineMs'', ''ownerCapability'', ''protocolVersion'', ''sequence'', ''sessionId'', ''type''] \<or>
         \<not> valid_string_field v ''ownerCapability'' 128 \<or> \<not> matches_capability (string_at v ''ownerCapability'') \<or>
         \<not> has_deadline v ''absoluteDeadlineMs''
      then (Inl ''OWNER_SIGNAL_SESSION_CREATED_INVALID'', c)
      else
        let c = c\<lparr>ow_session_id := string_at v ''sessionId'', ow_owner_capability := string_at v ''ownerCapability'',
                  ow_server_sequence := ow_server_sequence c + 1, ow_phase := Owner_only,
                  ow_reason := ''OWNER_SIGNAL_SESSION_CREATED''\<rparr>;
            output = no_signal_output\<lparr>oo_events := [owner_event On_session_created (ow_session_id c)]\<rparr>
        in if ow_automatically_create_join c
           then (case owner_create_join jl c of (joined, c) \<Rightarrow> (Inr (Inr (append_output output joined)), c))
           else (Inr (Inr output), c))"

definition receive_join_created :: "json \<Rightarrow> owner_signaling \<Rightarrow> signal_branch" where
  "receive_join_created v c =
     (if ow_phase c \<noteq> Join_pending \<or>
         \<not> exact_keys v [''joinExpiresAtMs'', ''joinUrl'', ''protocolVersion'', ''sequence'', ''sessionId'', ''type''] \<or>
         \<not> valid_string_field v ''joinUrl'' 512 \<or> \<not> has_deadline v ''joinExpiresAtMs''
      then (Inl ''OWNER_SIGNAL_JOIN_CREATED_INVALID'', c)
      else
        let join_url = string_at v ''joinUrl'';
            prefix = ow_expected_origin c @ ''/#join='' @ ow_session_id c @ ''.''
        in if \<not> starts_with join_url prefix \<or> \<not> matches_capability (drop (length prefix) join_url)
           then (Inl ''OWNER_SIGNAL_JOIN_URL_INVALID'', c)
           else accept_signal [owner_event On_join_created join_url]
                  (\<lambda>c. c\<lparr>ow_phase := Join_open, ow_reason := ''OWNER_SIGNAL_JOIN_CREATED''\<rparr>) c)"

definition receive_reserved :: "json \<Rightarrow> owner_signaling \<Rightarrow> signal_branch" where
  "receive_reserved v c =
     (if ow_phase c \<noteq> Join_open \<or> \<not> exact_keys v [''protocolVersion'', ''sequence'', ''sessionId'', ''type'']
      then (Inl ''OWNER_SIGNAL_RECEIVER_RESERVED_INVALID'', c)
      else accept_signal [owner_event On_receiver_reserved []]
             (\<lambda>c. c\<lparr>ow_phase := Join_reserved, ow_reason := ''OWNER_SIGNAL_RECEIVER_RESERVED''\<rparr>) c)"

definition receive_offer :: "bool \<Rightarrow> json \<Rightarrow> owner_signaling \<Rightarrow> signal_branch" where
  "receive_offer restart v c =
     (if (if restart then ow_phase c \<noteq> Owner_connected else ow_phase c \<noteq> Join_reserved) \<or>
         \<not> exact_keys v [''protocolVersion'', ''sdp'', ''sequence'', ''sessionId'', ''type''] \<or>
         \<not> valid_string_field v ''sdp'' kMaximumSdpBytes
      then (Inl ''OWNER_SIGNAL_RECEIVER_OFFER_INVALID'', c)
      else accept_signal
             [owner_event (if restart then On_receiver_restart_offer else On_receiver_offer) (string_at v ''sdp'')]
             (\<lambda>c. c\<lparr>ow_phase := (if restart then Restart_negotiating else Negotiating),
                   ow_reason := (if restart then ''OWNER_SIGNAL_RESTART_OFFER'' else ''OWNER_SIGNAL_RECEIVER_OFFER'')\<rparr>) c)"

definition receive_candidate :: "json \<Rightarrow> owner_signaling \<Rightarrow> signal_branch" where
  "receive_candidate v c =
     (if ow_phase c \<noteq> Negotiating \<and> ow_phase c \<noteq> Owner_connected \<and> ow_phase c \<noteq> Restart_negotiating \<or>
         \<not> exact_keys v [''candidate'', ''protocolVersion'', ''sequence'', ''sessionId'', ''type''] \<or>
         \<not> valid_string_field v ''candidate'' kMaximumCandidateBytes
      then (Inl ''OWNER_SIGNAL_RECEIVER_CANDIDATE_INVALID'', c)
      else accept_signal [owner_event On_receiver_candidate (string_at v ''candidate'')] (\<lambda>c. c) c)"

definition receive_heartbeat :: "json_library \<Rightarrow> json \<Rightarrow> owner_signaling \<Rightarrow> signal_branch" where
  "receive_heartbeat jl v c =
     (if \<not> exact_keys v [''deadlineMs'', ''heartbeatSequence'', ''protocolVersion'', ''sequence'', ''sessionId'', ''type''] \<or>
         \<not> has_deadline v ''deadlineMs'' \<or> \<not> has_safe_integer v ''heartbeatSequence'' False
      then (Inl ''OWNER_SIGNAL_HEARTBEAT_INVALID'', c)
      else
        let c = c\<lparr>ow_server_sequence := ow_server_sequence c + 1\<rparr> in
        if ow_client_sequence c \<ge> kMaximumSafeInteger then (Inl ''OWNER_SIGNAL_CLIENT_SEQUENCE_EXHAUSTED'', c)
        else
          let c = c\<lparr>ow_client_sequence := ow_client_sequence c + 1\<rparr>
          in case serialize_signal jl (J_object
                    [(''heartbeatSequence'', J_unsigned (integer_at v ''heartbeatSequence'')),
                     (''ownerCapability'', J_string (ow_owner_capability c)),
                     (''protocolVersion'', J_string kSignalingProtocol), (''sequence'', J_unsigned (ow_client_sequence c)),
                     (''sessionId'', J_string (ow_session_id c)), (''type'', J_string ''OWNER_HEARTBEAT_ACK'')]) of
               Inl e \<Rightarrow> (Inr (Inl e), c)
             | Inr encoded \<Rightarrow> (Inr (Inr (no_signal_output\<lparr>oo_outbound_messages := [encoded]\<rparr>)), c))"

definition receive_disconnected :: "json \<Rightarrow> owner_signaling \<Rightarrow> signal_branch" where
  "receive_disconnected v c =
     (if ow_phase c \<noteq> Join_reserved \<and> ow_phase c \<noteq> Negotiating \<and> ow_phase c \<noteq> Owner_connected \<and>
           ow_phase c \<noteq> Restart_negotiating \<or>
         \<not> exact_keys v [''protocolVersion'', ''reason'', ''sequence'', ''sessionId'', ''type''] \<or>
         \<not> valid_string_field v ''reason'' 256
      then (Inl ''OWNER_SIGNAL_RECEIVER_DISCONNECTED_INVALID'', c)
      else accept_signal [owner_event On_receiver_disconnected (string_at v ''reason'')]
             (\<lambda>c. c\<lparr>ow_phase := Owner_only, ow_reason := ''OWNER_SIGNAL_RECEIVER_DISCONNECTED''\<rparr>) c)"

definition receive_terminal :: "bool \<Rightarrow> json \<Rightarrow> owner_signaling \<Rightarrow> signal_branch" where
  "receive_terminal revoked v c =
     (if \<not> exact_keys v [''protocolVersion'', ''reason'', ''sequence'', ''sessionId'', ''type''] \<or>
         \<not> valid_string_field v ''reason'' 256
      then (Inl ''OWNER_SIGNAL_TERMINAL_MESSAGE_INVALID'', c)
      else
        let reason = string_at v ''reason'' in
        (Inr (Inr (no_signal_output\<lparr>oo_close_transport := True, oo_events := [owner_event On_terminal reason]\<rparr>)),
         clear_owner_capability (c\<lparr>ow_server_sequence := ow_server_sequence c + 1,
           ow_phase := (if revoked then Owner_revoked else Owner_expired), ow_reason := reason\<rparr>)))"

definition receive_signal_typed :: "json_library \<Rightarrow> json \<Rightarrow> owner_signaling \<Rightarrow> signal_branch" where
  "receive_signal_typed jl v c =
     (let type = message_type v in
      if type \<noteq> ''SESSION_CREATED'' \<and> string_at v ''sessionId'' \<noteq> ow_session_id c
        then (Inl ''OWNER_SIGNAL_SESSION_MISMATCH'', c)
      else if type = ''SESSION_CREATED'' then receive_session_created jl v c
      else if type = ''JOIN_CREATED'' then receive_join_created v c
      else if type = ''RECEIVER_RESERVED'' then receive_reserved v c
      else if type = ''RECEIVER_OFFER'' \<or> type = ''RECEIVER_ICE_RESTART_OFFER''
        then receive_offer (type = ''RECEIVER_ICE_RESTART_OFFER'') v c
      else if type = ''RECEIVER_ICE_CANDIDATE'' then receive_candidate v c
      else if type = ''HEARTBEAT'' then receive_heartbeat jl v c
      else if type = ''RECEIVER_DISCONNECTED'' then receive_disconnected v c
      else if type = ''SESSION_REVOKED'' \<or> type = ''SESSION_EXPIRED'' then receive_terminal (type = ''SESSION_REVOKED'') v c
      else (Inl ''OWNER_SIGNAL_TYPE_INVALID'', c))"

definition owner_receive :: "json_library \<Rightarrow> string \<Rightarrow> owner_signaling \<Rightarrow> (owner_signaling_output, owner_signaling) outcome" where
  "owner_receive jl message c =
     (let failing = (\<lambda>reason c. case owner_fail reason c of (output, c) \<Rightarrow> (Inr output, c)) in
      if \<not> owner_active c then failing ''OWNER_SIGNAL_RECEIVE_STATE_INVALID'' c
      else if \<not> valid_bounded_text message kMaximumSignalBytes then failing ''OWNER_SIGNAL_MESSAGE_SIZE_INVALID'' c
      else
        case strict_parse jl message of
          (duplicate_key, None) \<Rightarrow> failing ''OWNER_SIGNAL_MESSAGE_INVALID'' c
        | (duplicate_key, Some decoded) \<Rightarrow>
            if duplicate_key \<or> \<not> signal_envelope_valid c decoded then failing ''OWNER_SIGNAL_MESSAGE_INVALID'' c
            else case receive_signal_typed jl decoded c of
              (Inl reason, c) \<Rightarrow> failing reason c
            | (Inr result, c) \<Rightarrow> (result, c))"

record owner_signaling_diagnostics =
  od_phase :: owner_signaling_phase
  od_transport_open :: bool
  od_owner_capability_present :: bool
  od_client_sequence :: u64
  od_server_sequence :: u64
  od_session_id :: string
  od_reason :: string

definition owner_diagnostics :: "owner_signaling \<Rightarrow> owner_signaling_diagnostics" where
  "owner_diagnostics c =
     \<lparr>od_phase = ow_phase c, od_transport_open = False, od_owner_capability_present = (ow_owner_capability c \<noteq> []),
      od_client_sequence = ow_client_sequence c, od_server_sequence = ow_server_sequence c,
      od_session_id = ow_session_id c, od_reason = ow_reason c\<rparr>"

fun owner_signaling_phase_name :: "owner_signaling_phase \<Rightarrow> string" where
  "owner_signaling_phase_name Owner_idle = ''IDLE''"
| "owner_signaling_phase_name Creating = ''CREATING''"
| "owner_signaling_phase_name Owner_only = ''OWNER_ONLY''"
| "owner_signaling_phase_name Join_pending = ''JOIN_PENDING''"
| "owner_signaling_phase_name Join_open = ''JOIN_OPEN''"
| "owner_signaling_phase_name Join_reserved = ''JOIN_RESERVED''"
| "owner_signaling_phase_name Negotiating = ''NEGOTIATING''"
| "owner_signaling_phase_name Owner_connected = ''CONNECTED''"
| "owner_signaling_phase_name Restart_negotiating = ''RESTART_NEGOTIATING''"
| "owner_signaling_phase_name Owner_revoked = ''REVOKED''"
| "owner_signaling_phase_name Owner_expired = ''EXPIRED''"
| "owner_signaling_phase_name Owner_failed = ''FAILED''"
| "owner_signaling_phase_name Owner_stopped = ''STOPPED''"

end
