(* ===== verification/Owner_Safety.thy ===== *)
theory Owner_Safety
  imports Owner_Signaling
begin

text \<open>
  What the owner's side of the signaling service guarantees: which origins are accepted, and that over
  any calls and any messages of the service the messages sent and the events reported are a run of the
  handshake, numbered in order and authenticated with the one capability of the session.
\<close>

section \<open>Accepted origins\<close>

definition port_digits :: "string \<Rightarrow> bool" where
  "port_digits s \<longleftrightarrow> s \<noteq> [] \<and> length s \<le> 5 \<and> list_all digit s \<and> 0 < port_value s \<and> port_value s \<le> 65535"

definition authority_text :: "string \<Rightarrow> string option \<Rightarrow> string" where
  "authority_text host port = host @ (case port of None \<Rightarrow> [] | Some s \<Rightarrow> CHR '':'' # s)"

definition origin_host :: "string \<Rightarrow> bool" where
  "origin_host host \<longleftrightarrow> matches_dns_or_ipv4 host \<or> (\<exists>inner. host = CHR ''['' # inner @ '']'' \<and> matches_ipv6 inner)"

lemma parse_port_iff: "parse_port s = Inr n \<longleftrightarrow> port_digits s \<and> n = port_value s"
  by (auto simp: parse_port_def port_digits_def)

lemma split_first [simp]:
  assumes "c \<notin> set h"
  shows "before_first c (h @ c # s) = h" "after_first c (h @ c # s) = s" "before_first c h = h" "after_first c h = []"
proof -
  have "takeWhile (\<lambda>x. x \<noteq> c) (h @ s') = h @ takeWhile (\<lambda>x. x \<noteq> c) s'" for s'
    using assms by (intro takeWhile_append2) auto
  from this [of "c # s"] this [of "[]"] show 1: "before_first c (h @ c # s) = h" and 2: "before_first c h = h"
    unfolding before_first_def by simp_all
  show "after_first c (h @ c # s) = s" "after_first c h = []" unfolding after_first_def 1 2 by simp_all
qed

lemma first_split_unique:
  fixes c :: char
  assumes "x @ c # y = h @ c # s" "c \<notin> set x" "c \<notin> set h"
  shows "x = h \<and> y = s"
  using arg_cong [OF assms(1), of "before_first c"] arg_cong [OF assms(1), of "after_first c"]
  by (simp only: split_first(1,2) [OF assms(2)] split_first(1,2) [OF assms(3)] simp_thms)

lemma split_firstE:
  assumes "c \<in> set s"
  obtains a b where "s = a @ c # b" "c \<notin> set a"
  using split_list_first [OF assms] by blast

text \<open>Characters that separate the parts of an origin are in none of them.\<close>

abbreviation refused_characters :: string where
  "refused_characters \<equiv> ''/?#@'' @ [CHR 0x5C, CHR 0x0D, CHR 0x0A]"

lemma character_sets_apart:
  "set ''abcdefghijklmnopqrstuvwxyz0123456789.-'' \<inter> set (refused_characters @ '':[]'') = {}"
  "set ''0123456789abcdef:.%'' \<inter> set (refused_characters @ ''[]'') = {}"
  "set ''0123456789'' \<inter> set (refused_characters @ '':[]'') = {}"
  by simp_all

lemma within_apart: "list_all (\<lambda>c. c \<in> A) h \<Longrightarrow> A \<inter> B = {} \<Longrightarrow> set h \<inter> B = {}"
  by (auto simp: list_all_iff)

lemma dns_chars: "matches_dns_or_ipv4 h \<Longrightarrow> set h \<inter> set (refused_characters @ '':[]'') = {}"
  unfolding matches_dns_or_ipv4_def by (elim conjE) (rule within_apart [OF _ character_sets_apart(1)])

lemma ipv6_chars: "matches_ipv6 h \<Longrightarrow> set h \<inter> set (refused_characters @ ''[]'') = {}"
  unfolding matches_ipv6_def by (elim conjE) (rule within_apart [OF _ character_sets_apart(2)])

lemma port_chars: "port_digits s \<Longrightarrow> set s \<inter> set (refused_characters @ '':[]'') = {}"
  unfolding port_digits_def digit_def by (elim conjE) (rule within_apart [OF _ character_sets_apart(3)])

lemma matches_nonempty: "matches_dns_or_ipv4 h \<Longrightarrow> h \<noteq> []" "matches_ipv6 h \<Longrightarrow> h \<noteq> []"
  unfolding matches_dns_or_ipv4_def matches_ipv6_def by (elim conjE, assumption)+

lemma matches_nothing [simp]: "\<not> matches_dns_or_ipv4 []" "\<not> matches_ipv6 []" "\<not> port_digits []"
  by (simp_all add: matches_dns_or_ipv4_def matches_ipv6_def port_digits_def)

lemma parse_port_refused: "parse_port s = Inl e \<Longrightarrow> \<not> port_digits s"
  by (auto simp: parse_port_def port_digits_def split: if_splits)

lemma parse_plain_iff:
  "parse_plain a = Inr (h, p) \<longleftrightarrow>
   (\<exists>port. a = authority_text h port \<and> matches_dns_or_ipv4 h \<and> (\<forall>s \<in> set_option port. port_digits s) \<and> p = map_option port_value port)"
proof (cases "CHR '':'' \<in> set a")
  case False
  then show ?thesis
    by (auto simp: parse_plain_def Let_def authority_text_def matches_nonempty split: option.splits)
next
  case True
  then obtain x y where a: "a = x @ CHR '':'' # y" "CHR '':'' \<notin> set x" by (rule split_firstE)
  have eq: "x = h \<and> y = s" if "x @ CHR '':'' # y = h @ CHR '':'' # s" "matches_dns_or_ipv4 h" for s
    using first_split_unique [OF that(1) a(2)] dns_chars [OF that(2)] by auto
  have ne: "x @ CHR '':'' # y \<noteq> h" if "matches_dns_or_ipv4 h" using dns_chars [OF that] by auto
  have "parse_plain a = Inr (h, p) \<longleftrightarrow> h = x \<and> matches_dns_or_ipv4 x \<and> port_digits y \<and> p = Some (port_value y)"
    using a port_chars [of y] by (auto simp: parse_plain_def Let_def parse_port_iff parse_port_refused split: sum.splits if_splits)
  also have "\<dots> \<longleftrightarrow> (\<exists>port. a = authority_text h port \<and> matches_dns_or_ipv4 h \<and> (\<forall>s \<in> set_option port. port_digits s) \<and>
      p = map_option port_value port)"
    using a(1) eq ne by (auto simp: authority_text_def split: option.splits intro: exI [of _ "Some y"])
  finally show ?thesis .
qed

lemma parse_bracketed_iff:
  assumes "a = CHR ''['' # t"
  shows "parse_bracketed a = Inr (h, p) \<longleftrightarrow>
   (\<exists>port inner. a = authority_text h port \<and> h = CHR ''['' # inner @ '']'' \<and> matches_ipv6 inner \<and>
      (\<forall>s \<in> set_option port. port_digits s) \<and> p = map_option port_value port)"
proof (cases "CHR '']'' \<in> set t")
  case False
  then show ?thesis using assms by (auto simp: parse_bracketed_def Let_def authority_text_def)
next
  case True
  then obtain x y where t: "t = x @ CHR '']'' # y" "CHR '']'' \<notin> set x" by (rule split_firstE)
  have eq: "x = inner \<and> y = s" if "x @ CHR '']'' # y = inner @ CHR '']'' # s" "matches_ipv6 inner" for inner s
    using first_split_unique [OF that(1) t(2)] ipv6_chars [OF that(2)] by auto
  show ?thesis
  proof
    assume "parse_bracketed a = Inr (h, p)"
    then show "\<exists>port inner. a = authority_text h port \<and> h = CHR ''['' # inner @ '']'' \<and> matches_ipv6 inner \<and>
        (\<forall>s \<in> set_option port. port_digits s) \<and> p = map_option port_value port"
      using assms t by (cases y) (auto simp: parse_bracketed_def Let_def authority_text_def parse_port_iff
          split: if_splits sum.splits intro: exI [of _ "None"] exI [of _ "Some (tl y)"])
  next
    assume "\<exists>port inner. a = authority_text h port \<and> h = CHR ''['' # inner @ '']'' \<and> matches_ipv6 inner \<and>
        (\<forall>s \<in> set_option port. port_digits s) \<and> p = map_option port_value port"
    then show "parse_bracketed a = Inr (h, p)"
      using assms t eq by (auto simp: parse_bracketed_def Let_def authority_text_def parse_port_iff parse_port_refused
          split: option.splits sum.splits)
  qed
qed

lemma authority_parsed_iff:
  assumes "a \<noteq> []"
  shows "(if hd a = CHR ''['' then parse_bracketed a else parse_plain a) = Inr (h, p) \<longleftrightarrow>
    (\<exists>port. a = authority_text h port \<and> origin_host h \<and> (\<forall>s \<in> set_option port. port_digits s) \<and> p = map_option port_value port)"
proof (cases "hd a = CHR ''[''")
  case True
  then obtain t where t: "a = CHR ''['' # t" using assms by (cases a) auto
  have "\<not> matches_dns_or_ipv4 h" if "a = authority_text h port" for port
  proof
    assume m: "matches_dns_or_ipv4 h"
    then obtain c h' where "h = c # h'" by (cases h) auto
    with m dns_chars [OF m] that t show False by (auto simp: authority_text_def)
  qed
  then show ?thesis using True parse_bracketed_iff [OF t, of h p] by (auto simp: origin_host_def)
next
  case False
  have "matches_dns_or_ipv4 h" if "a = authority_text h port" "origin_host h" for port
    using that False by (auto simp: origin_host_def authority_text_def)
  then show ?thesis using False parse_plain_iff [of a h p] by (auto simp: origin_host_def)
qed

lemma authority_clean:
  assumes "origin_host h" "\<forall>s \<in> set_option port. port_digits s"
  shows "authority_text h port \<noteq> []" "set (authority_text h port) \<inter> set refused_characters = {}"
proof -
  have h: "set h \<inter> set refused_characters = {}" "h \<noteq> []"
    using assms(1) dns_chars [of h] ipv6_chars matches_nonempty(1) [of h] by (fastforce simp: origin_host_def)+
  then show "authority_text h port \<noteq> []" by (simp add: authority_text_def)
  show "set (authority_text h port) \<inter> set refused_characters = {}"
  proof (cases port)
    case (Some s)
    then have "set s \<inter> set refused_characters = {}" using assms(2) port_chars [of s] by auto
    with h(1) Some show ?thesis by (auto simp: authority_text_def)
  qed (use h(1) in \<open>simp add: authority_text_def\<close>)
qed

lemma starts_with_iff: "starts_with s p \<longleftrightarrow> (\<exists>r. s = p @ r)"
  unfolding starts_with_def by (metis append_eq_conv_conj append_take_drop_id)

definition origin_port :: "bool \<Rightarrow> string option \<Rightarrow> bool" where
  "origin_port secure port =
     (case port of None \<Rightarrow> True | Some s \<Rightarrow> port_digits s \<and> port_value s \<noteq> (if secure then 443 else 80))"

lemma origin_port_iff:
  "origin_port secure port \<longleftrightarrow> (\<forall>s \<in> set_option port. port_digits s) \<and>
     map_option port_value port \<noteq> (if secure then Some 443 else Some 80)"
  by (auto simp: origin_port_def split: option.splits)

text \<open>C39 (equivalence). Exactly the canonical origins are accepted: a DNS, IPv4 or bracketed IPv6 host, an
  optional port from 1 to 65535 other than the scheme's own, and no encryption only for the two
  loopback addresses; the endpoint is the same authority under the matching web socket scheme.\<close>

theorem accepted_origins_canonical:
  "parse_origin origin = Inr endpoint \<longleftrightarrow>
   (\<exists>secure host port. origin = (if secure then ''https://'' else ''http://'') @ authority_text host port \<and>
      endpoint = (if secure then ''wss://'' else ''ws://'') @ authority_text host port @ ''/v1/signal'' \<and>
      origin_host host \<and> (secure \<or> host = ''127.0.0.1'' \<or> host = ''[::1]'') \<and> origin_port secure port)"
  (is "?l \<longleftrightarrow> (\<exists>secure host port. ?spec secure host port)")
proof
  assume ?l
  define secure where "secure = starts_with origin ''https://''"
  define a where "a = drop (if secure then 8 else 7) origin"
  from \<open>?l\<close> have scheme: "secure \<or> starts_with origin ''http://''" and ne: "a \<noteq> []"
    by (auto simp: parse_origin_def Let_def secure_def a_def split: if_splits)
  obtain r where r: "origin = (if secure then ''https://'' else ''http://'') @ r"
    using scheme starts_with_iff [of origin "''http://''"] secure_def [unfolded starts_with_iff] by (cases secure) auto
  then have "a = r" by (simp add: a_def)
  with r have o: "origin = (if secure then ''https://'' else ''http://'') @ a" by (simp only:)
  obtain h p where hp: "(if hd a = CHR ''['' then parse_bracketed a else parse_plain a) = Inr (h, p)"
    and rest: "secure \<or> h = ''127.0.0.1'' \<or> h = ''[::1]''" "p \<noteq> (if secure then Some 443 else Some 80)"
      "endpoint = (if secure then ''wss://'' else ''ws://'') @ a @ ''/v1/signal''"
    using \<open>?l\<close> scheme unfolding parse_origin_def Let_def secure_def [symmetric] a_def [symmetric]
    by (auto split: if_splits sum.splits)
  show "\<exists>secure host port. ?spec secure host port"
    using authority_parsed_iff [OF ne, of h p] hp rest o by (auto simp: origin_port_iff intro!: exI [of _ secure] exI [of _ h])
next
  assume "\<exists>secure host port. ?spec secure host port"
  then obtain secure host port where sp: "?spec secure host port" by blast
  define a where "a = authority_text host port"
  have s: "starts_with origin ''https://'' = secure" "starts_with origin ''http://'' = (\<not> secure)"
    "drop (if secure then 8 else 7) origin = a" using sp by (auto simp: starts_with_def a_def)
  have clean: "a \<noteq> []" "\<not> list_ex (\<lambda>c. c \<in> set refused_characters) a"
    using authority_clean [of host port] sp by (auto simp: a_def list_ex_iff origin_port_iff)
  have parsed: "(if hd a = CHR ''['' then parse_bracketed a else parse_plain a) = Inr (host, map_option port_value port)"
    using authority_parsed_iff [OF clean(1), of host "map_option port_value port"] sp by (auto simp: a_def origin_port_iff)
  have "map_option port_value port \<noteq> (if secure then Some 443 else Some 80)" using sp by (simp add: origin_port_iff)
  then show ?l unfolding parse_origin_def Let_def s using clean parsed sp by (cases secure) (auto simp: a_def)
qed

end
