(* ===== verification/Owner_Session.thy ===== *)
theory Owner_Session
  imports Owner_Safety
begin

text \<open>
  The owner's session over any sequence of calls and of messages from the service: the messages sent
  and the events reported, in their order, are a run of the handshake.
\<close>

section \<open>The handshake\<close>

datatype signal_item = Sent json | Told owner_signaling_event

fun messages_of :: "signal_item list \<Rightarrow> json list" where
  "messages_of [] = []"
| "messages_of (Sent v # items) = v # messages_of items"
| "messages_of (Told e # items) = messages_of items"

fun events_of :: "signal_item list \<Rightarrow> owner_signaling_event list" where
  "events_of [] = []"
| "events_of (Sent v # items) = events_of items"
| "events_of (Told e # items) = e # events_of items"

lemma of_append [simp]:
  "messages_of (xs @ ys) = messages_of xs @ messages_of ys" "events_of (xs @ ys) = events_of xs @ events_of ys"
  by (induction xs rule: messages_of.induct) auto

definition talking :: "owner_signaling_phase \<Rightarrow> bool" where
  "talking p \<longleftrightarrow> p = Negotiating \<or> p = Owner_connected \<or> p = Restart_negotiating"

definition established :: "owner_signaling_phase \<Rightarrow> bool" where
  "established p \<longleftrightarrow> active_owner_phase p \<and> p \<noteq> Creating"

definition over :: "owner_signaling_phase \<Rightarrow> bool" where
  "over p \<longleftrightarrow> p = Owner_failed \<or> p = Owner_revoked \<or> p = Owner_expired \<or> p = Owner_stopped"

text \<open>Which item may come in which phase, and the phase after it; \<open>Owner_stopped\<close> stands for every end.\<close>

definition provided :: "bool \<Rightarrow> 'a \<Rightarrow> 'a option" where
  "provided b x = (if b then Some x else None)"

definition after_message :: "owner_signaling_phase \<Rightarrow> string \<Rightarrow> owner_signaling_phase option" where
  "after_message p type =
     (if type = ''CREATE_SESSION'' then provided (p = Owner_idle) Creating
      else if type = ''CREATE_JOIN'' then provided (p = Owner_only) Join_pending
      else if type = ''OWNER_ANSWER'' then provided (p = Negotiating) Owner_connected
      else if type = ''OWNER_ICE_RESTART_ANSWER'' then provided (p = Restart_negotiating) Owner_connected
      else if type = ''OWNER_ICE_CANDIDATE'' then provided (talking p) p
      else provided ((type = ''OWNER_HEARTBEAT_ACK'' \<or> type = ''OWNER_STOP'' \<or> type = ''OWNER_REVOKE'') \<and> established p) p)"

fun after_event :: "owner_signaling_phase \<Rightarrow> owner_signaling_event_kind \<Rightarrow> owner_signaling_phase option" where
  "after_event p On_session_created = provided (p = Creating) Owner_only"
| "after_event p On_join_created = provided (p = Join_pending) Join_open"
| "after_event p On_receiver_reserved = provided (p = Join_open) Join_reserved"
| "after_event p On_receiver_offer = provided (p = Join_reserved) Negotiating"
| "after_event p On_receiver_restart_offer = provided (p = Owner_connected) Restart_negotiating"
| "after_event p On_receiver_candidate = provided (talking p) p"
| "after_event p On_receiver_disconnected = provided (p = Join_reserved \<or> talking p) Owner_only"
| "after_event p On_terminal = Some Owner_stopped"

fun session_next :: "owner_signaling_phase \<Rightarrow> signal_item \<Rightarrow> owner_signaling_phase option" where
  "session_next p (Sent v) = after_message p (message_type v)"
| "session_next p (Told e) = after_event p (oe_kind e)"

definition session_run :: "signal_item list \<Rightarrow> owner_signaling_phase option" where
  "session_run items = foldl (\<lambda>p item. Option.bind p (\<lambda>p. session_next p item)) (Some Owner_idle) items"

lemma session_run_snoc [simp]: "session_run (items @ [item]) = Option.bind (session_run items) (\<lambda>p. session_next p item)"
  by (simp add: session_run_def)

definition final :: "owner_signaling_phase \<Rightarrow> owner_signaling_phase" where
  "final p = (if over p then Owner_stopped else p)"

section \<open>The invariant\<close>

definition number :: "json \<Rightarrow> u64" where
  "number v = integer_at v ''sequence''"

definition authentic :: "string \<Rightarrow> string \<Rightarrow> json \<Rightarrow> bool" where
  "authentic capability session v \<longleftrightarrow>
     string_at v ''ownerCapability'' = capability \<and> string_at v ''sessionId'' = session"

definition identified :: "signal_item list \<Rightarrow> owner_signaling \<Rightarrow> bool" where
  "identified items c \<longleftrightarrow>
     (established (ow_phase c) \<or> ow_owner_capability c = []) \<and>
     (ow_phase c = Creating \<longrightarrow> ow_session_id c = [] \<and> (\<forall>v \<in> set (messages_of items). message_type v = ''CREATE_SESSION'')) \<and>
     (ow_phase c = Owner_idle \<longrightarrow> items = [] \<and> ow_session_id c = []) \<and>
     (\<exists>capability session. matches_capability capability \<and> matches_session session \<and>
        (established (ow_phase c) \<longrightarrow> ow_owner_capability c = capability \<and> ow_session_id c = session) \<and>
        (\<forall>v \<in> set (messages_of items). message_type v \<noteq> ''CREATE_SESSION'' \<longrightarrow> authentic capability session v))"

definition numbered :: "signal_item list \<Rightarrow> u64 \<Rightarrow> bool" where
  "numbered items n \<longleftrightarrow>
     sorted_wrt (<) (map number (messages_of items)) \<and> (\<forall>v \<in> set (messages_of items). 0 < number v \<and> number v \<le> n) \<and>
     n \<le> kMaximumSafeInteger"

definition session_ok :: "signal_item list \<Rightarrow> owner_signaling \<Rightarrow> bool" where
  "session_ok items c \<longleftrightarrow>
     session_run items = Some (final (ow_phase c)) \<and> identified items c \<and> numbered items (ow_client_sequence c)"

definition continues :: "json_library \<Rightarrow> signal_item list \<Rightarrow> owner_step \<Rightarrow> bool" where
  "continues jl items r \<longleftrightarrow>
     (\<exists>more_items. oo_outbound_messages (fst r) = map (jl_dump jl) (messages_of more_items) \<and>
        oo_events (fst r) = events_of more_items \<and> session_ok (items @ more_items) (snd r))"

lemmas phase_simps = active_owner_phase_def established_def over_def talking_def final_def provided_def

lemma safe_increment: "n < kMaximumSafeInteger \<Longrightarrow> n < n + 1 \<and> n + 1 \<le> kMaximumSafeInteger" for n :: u64
  by (auto simp: kMaximumSafeInteger_def word_less_nat_alt word_le_nat_alt unat_word_ariths)

lemma numbered_more: "numbered items n \<Longrightarrow> n < kMaximumSafeInteger \<Longrightarrow> numbered items (n + 1)"
  using safe_increment [of n] by (auto simp: numbered_def)

lemma numbered_told [simp]: "numbered (items @ [Told e]) n = numbered items n"
  by (simp add: numbered_def)

lemma numbered_sent:
  assumes "numbered items n" "n < kMaximumSafeInteger" "number v = n + 1"
  shows "numbered (items @ [Sent v]) (n + 1)"
proof -
  note up = safe_increment [OF assms(2)]
  have "\<forall>w \<in> set (messages_of items). number w < n + 1" using assms(1) up by (auto simp: numbered_def)
  moreover have "0 < n + 1" using up by (metis order.strict_trans1 word_zero_le)
  ultimately show ?thesis using assms up by (auto simp: numbered_def sorted_wrt_append)
qed

lemma more_client_sequence:
  "session_ok items c \<Longrightarrow> ow_client_sequence c < kMaximumSafeInteger \<Longrightarrow>
   session_ok items (c\<lparr>ow_client_sequence := ow_client_sequence c + 1\<rparr>)"
  by (auto simp: session_ok_def identified_def numbered_more)

lemma same_state: "session_ok items c \<Longrightarrow> continues jl items (no_signal_output\<lparr>oo_valid := b\<rparr>, c)"
  by (auto simp: continues_def no_signal_output_def intro!: exI [of _ "[]"])

lemma no_output_continues: "session_ok items c \<Longrightarrow> continues jl items (no_signal_output, c)"
  using same_state [of items c jl True] by (simp add: no_signal_output_def)

lemma established_facts: "established p \<Longrightarrow> p \<noteq> Creating \<and> p \<noteq> Owner_idle \<and> \<not> over p \<and> final p = p"
  by (cases p) (simp_all add: phase_simps)

lemma over_facts: "over p \<Longrightarrow> p \<noteq> Creating \<and> p \<noteq> Owner_idle \<and> \<not> established p \<and> final p = Owner_stopped"
  by (cases p) (simp_all add: phase_simps)

lemma identifiedE:
  assumes "identified items c"
  obtains capability session where "matches_capability capability" "matches_session session"
    "established (ow_phase c) \<longrightarrow> ow_owner_capability c = capability \<and> ow_session_id c = session"
    "\<forall>v \<in> set (messages_of items). message_type v \<noteq> ''CREATE_SESSION'' \<longrightarrow> authentic capability session v"
  using assms unfolding identified_def by blast

text \<open>Once the session has left the first two phases, \<open>identified\<close> is about the messages alone.\<close>

lemma identifiedI:
  assumes "established (ow_phase c) \<or> over (ow_phase c) \<and> ow_owner_capability c = []"
    "matches_capability capability" "matches_session session"
    "established (ow_phase c) \<Longrightarrow> ow_owner_capability c = capability \<and> ow_session_id c = session"
    "\<forall>v \<in> set (messages_of items). message_type v \<noteq> ''CREATE_SESSION'' \<longrightarrow> authentic capability session v"
  shows "identified items c"
  using assms established_facts [of "ow_phase c"] over_facts [of "ow_phase c"] unfolding identified_def by blast

lemma ended_ok:
  assumes "session_ok items c" "over (ow_phase c')" "ow_owner_capability c' = []" "ow_client_sequence c' = ow_client_sequence c"
  shows "session_ok (items @ [Told (owner_event On_terminal r)]) c'"
proof -
  have "identified items c" using assms(1) by (simp add: session_ok_def)
  then obtain capability session where i: "matches_capability capability" "matches_session session"
    "\<forall>v \<in> set (messages_of items). message_type v \<noteq> ''CREATE_SESSION'' \<longrightarrow> authentic capability session v"
    by (rule identifiedE)
  have "identified (items @ [Told (owner_event On_terminal r)]) c'"
    by (rule identifiedI [OF _ i(1,2)]) (use assms over_facts [OF assms(2)] i(3) in auto)
  then show ?thesis using assms over_facts [OF assms(2)] by (simp add: session_ok_def owner_event_def)
qed

lemma told_ok:
  assumes "session_ok items c" "established (ow_phase c)" "after_event (ow_phase c) kind = Some (ow_phase c')"
    "established (ow_phase c')" "ow_owner_capability c' = ow_owner_capability c" "ow_session_id c' = ow_session_id c"
    "ow_client_sequence c' = ow_client_sequence c"
  shows "session_ok (items @ [Told (owner_event kind r)]) c'"
proof -
  have "identified items c" using assms(1) by (simp add: session_ok_def)
  then obtain capability session where i: "matches_capability capability" "matches_session session"
    "established (ow_phase c) \<longrightarrow> ow_owner_capability c = capability \<and> ow_session_id c = session"
    "\<forall>v \<in> set (messages_of items). message_type v \<noteq> ''CREATE_SESSION'' \<longrightarrow> authentic capability session v"
    by (rule identifiedE)
  have "identified (items @ [Told (owner_event kind r)]) c'"
    by (rule identifiedI [OF _ i(1,2)]) (use assms i(3,4) in auto)
  then show ?thesis using assms established_facts [OF assms(2)] established_facts [OF assms(4)]
    by (simp add: session_ok_def owner_event_def)
qed

lemma sent_ok:
  assumes "session_ok items c" "established (ow_phase c)" "after_message (ow_phase c) (message_type v) = Some (ow_phase c')"
    "established (ow_phase c')" "ow_owner_capability c' = ow_owner_capability c" "ow_session_id c' = ow_session_id c"
    "ow_client_sequence c' = ow_client_sequence c + 1" "ow_client_sequence c < kMaximumSafeInteger"
    "number v = ow_client_sequence c + 1" "authentic (ow_owner_capability c) (ow_session_id c) v"
  shows "session_ok (items @ [Sent v]) c'"
proof -
  have "identified items c" using assms(1) by (simp add: session_ok_def)
  then obtain capability session where i: "matches_capability capability" "matches_session session"
    "established (ow_phase c) \<longrightarrow> ow_owner_capability c = capability \<and> ow_session_id c = session"
    "\<forall>v \<in> set (messages_of items). message_type v \<noteq> ''CREATE_SESSION'' \<longrightarrow> authentic capability session v"
    by (rule identifiedE)
  have "identified (items @ [Sent v]) c'"
    by (rule identifiedI [OF _ i(1,2)]) (use assms i(3,4) in auto)
  then show ?thesis
    using assms established_facts [OF assms(2)] established_facts [OF assms(4)] numbered_sent [of items "ow_client_sequence c" v]
    by (simp add: session_ok_def)
qed

lemma one_item:
  "session_ok (items @ [Told e]) c \<Longrightarrow> oo_outbound_messages output = [] \<Longrightarrow> oo_events output = [e] \<Longrightarrow> continues jl items (output, c)"
  "session_ok (items @ [Sent v]) c \<Longrightarrow> oo_outbound_messages output = [jl_dump jl v] \<Longrightarrow> oo_events output = [] \<Longrightarrow> continues jl items (output, c)"
  by (force simp: continues_def intro: exI [of _ "[Told e]"] exI [of _ "[Sent v]"])+

lemma continues_append:
  assumes "session_ok (items @ [Told e]) c" "oo_outbound_messages output = []" "oo_events output = [e]"
    "continues jl (items @ [Told e]) (output', c')"
  shows "continues jl items (append_output output output', c')"
proof -
  obtain m where "oo_outbound_messages output' = map (jl_dump jl) (messages_of m)" "oo_events output' = events_of m"
    "session_ok ((items @ [Told e]) @ m) c'" using assms(4) by (auto simp: continues_def)
  then show ?thesis using assms(2,3) by (auto simp: continues_def append_output_def intro!: exI [of _ "Told e # m"])
qed

lemma fail_continues:
  assumes "session_ok items c"
  shows "continues jl items (owner_fail reason c)"
proof (cases "over (ow_phase c)")
  case True
  with assms show ?thesis by (auto simp: owner_fail_def Let_def over_def intro: same_state)
next
  case False
  with assms show ?thesis
    by (auto simp: owner_fail_def Let_def over_def no_signal_output_def clear_owner_capability_def intro!: one_item(1) ended_ok)
qed

section \<open>The calls of the owner\<close>

definition auth_json :: "owner_signaling \<Rightarrow> string \<Rightarrow> (string \<times> string) option \<Rightarrow> json" where
  "auth_json c type field =
     (let message = J_object
              [(''ownerCapability'', J_string (ow_owner_capability c)), (''protocolVersion'', J_string kSignalingProtocol),
               (''sequence'', J_unsigned (ow_client_sequence c + 1)), (''sessionId'', J_string (ow_session_id c)),
               (''type'', J_string type)]
      in case field of None \<Rightarrow> message | Some (k, v) \<Rightarrow> json_set k (J_string v) message)"

lemma auth_json_fields:
  assumes "field = None \<or> field = Some (''sdp'', s) \<or> field = Some (''candidate'', s)"
  shows "message_type (auth_json c type field) = type" "number (auth_json c type field) = ow_client_sequence c + 1"
    "authentic (ow_owner_capability c) (ow_session_id c) (auth_json c type field)"
  using assms by (auto simp: auth_json_def message_type_def string_at_def number_def integer_at_def safe_integer_def authentic_def)

lemma authenticated_message_cases:
  obtains (failing) c1 reason where "authenticated_message jl type field c = owner_fail reason c1"
      "c1 = c \<or> ow_client_sequence c < kMaximumSafeInteger \<and> c1 = c\<lparr>ow_client_sequence := ow_client_sequence c + 1\<rparr>"
  | (sent) "ow_client_sequence c < kMaximumSafeInteger"
      "authenticated_message jl type field c =
         (no_signal_output\<lparr>oo_outbound_messages := [jl_dump jl (auth_json c type field)]\<rparr>,
          c\<lparr>ow_client_sequence := ow_client_sequence c + 1\<rparr>)"
proof (cases "ow_owner_capability c = [] \<or> ow_session_id c = [] \<or> ow_client_sequence c \<ge> kMaximumSafeInteger")
  case True
  then show ?thesis by (intro that(1) [of "''OWNER_SIGNAL_AUTHENTICATED_SEND_INVALID''" c]) (auto simp: authenticated_message_def)
next
  case False
  let ?c = "c\<lparr>ow_client_sequence := ow_client_sequence c + 1\<rparr>"
  have run: "authenticated_message jl type field c =
      (case serialize_signal jl (auth_json c type field) of
         Inl _ \<Rightarrow> owner_fail ''OWNER_SIGNAL_MESSAGE_SIZE_INVALID'' ?c
       | Inr encoded \<Rightarrow> (no_signal_output\<lparr>oo_outbound_messages := [encoded]\<rparr>, ?c))"
    using False by (cases field) (simp_all add: authenticated_message_def auth_json_def Let_def split_beta)
  show ?thesis
  proof (cases "serialize_signal jl (auth_json c type field)")
    case (Inl e)
    with False run show ?thesis by (intro that(1) [of "''OWNER_SIGNAL_MESSAGE_SIZE_INVALID''" ?c]) auto
  next
    case (Inr encoded)
    then have "encoded = jl_dump jl (auth_json c type field)" by (auto simp: serialize_signal_def Let_def split: if_splits)
    with Inr False run show ?thesis by (intro that(2)) auto
  qed
qed

text \<open>An authenticated message that leads to phase \<open>p\<close>.\<close>

lemma authenticated_continues:
  assumes "session_ok items c" "established (ow_phase c)" "established p" "after_message (ow_phase c) type = Some p"
    "field = None \<or> field = Some (''sdp'', s) \<or> field = Some (''candidate'', s)"
    "\<And>c'. ow_phase c' = ow_phase c \<Longrightarrow> ow_phase (h c') = p \<and> ow_owner_capability (h c') = ow_owner_capability c' \<and>
       ow_session_id (h c') = ow_session_id c' \<and> ow_client_sequence (h c') = ow_client_sequence c'"
  shows "continues jl items (case authenticated_message jl type field c of (output, c) \<Rightarrow> if oo_valid output then (output, h c) else (output, c))"
proof (cases rule: authenticated_message_cases [of jl type field c])
  case (failing c1 reason)
  then have "session_ok items c1" using assms(1) more_client_sequence by auto
  from fail_continues [OF this, of jl reason] failing(1) show ?thesis
    by (auto simp: owner_fail_def Let_def no_signal_output_def split: if_splits)
next
  case sent
  have h: "ow_phase (h (c\<lparr>ow_client_sequence := ow_client_sequence c + 1\<rparr>)) = p"
    "ow_owner_capability (h (c\<lparr>ow_client_sequence := ow_client_sequence c + 1\<rparr>)) = ow_owner_capability c"
    "ow_session_id (h (c\<lparr>ow_client_sequence := ow_client_sequence c + 1\<rparr>)) = ow_session_id c"
    "ow_client_sequence (h (c\<lparr>ow_client_sequence := ow_client_sequence c + 1\<rparr>)) = ow_client_sequence c + 1"
    using assms(6) [of "c\<lparr>ow_client_sequence := ow_client_sequence c + 1\<rparr>"] by simp_all
  note f = auth_json_fields [OF assms(5), of c type]
  have "session_ok (items @ [Sent (auth_json c type field)]) (h (c\<lparr>ow_client_sequence := ow_client_sequence c + 1\<rparr>))"
    by (rule sent_ok [OF assms(1,2)]) (use h f sent(1) assms(3,4) in simp_all)
  from one_item(2) [OF this] show ?thesis using sent(2) by (simp add: no_signal_output_def)
qed

lemma join_continues:
  assumes "session_ok items c"
  shows "continues jl items (owner_create_join jl c)"
proof (cases "ow_phase c = Owner_only")
  case True
  then have "established (ow_phase c)" "after_message (ow_phase c) ''CREATE_JOIN'' = Some Join_pending" "established Join_pending"
    by (simp_all add: phase_simps after_message_def)
  from authenticated_continues [OF assms this(1,3,2), of None "[]" "\<lambda>c. c\<lparr>ow_phase := Join_pending, ow_reason := ''OWNER_SIGNAL_JOIN_PENDING''\<rparr>" jl]
    True show ?thesis by (simp add: owner_create_join_def)
qed (use assms in \<open>simp add: owner_create_join_def fail_continues\<close>)

lemma answer_continues:
  assumes "session_ok items c"
  shows "continues jl items (owner_send_answer jl sdp restart c)"
proof (cases "ow_phase c \<noteq> (if restart then Restart_negotiating else Negotiating) \<or> \<not> valid_bounded_text sdp kMaximumSdpBytes")
  case False
  then have p: "established (ow_phase c)" "established Owner_connected"
    "after_message (ow_phase c) (if restart then ''OWNER_ICE_RESTART_ANSWER'' else ''OWNER_ANSWER'') = Some Owner_connected"
    by (auto simp: phase_simps after_message_def)
  from authenticated_continues [OF assms p, of "Some (''sdp'', sdp)" sdp "\<lambda>c. c\<lparr>ow_phase := Owner_connected,
       ow_reason := (if restart then ''OWNER_SIGNAL_RESTART_ANSWER_SENT'' else ''OWNER_SIGNAL_ANSWER_SENT'')\<rparr>" jl]
    False show ?thesis by (simp add: owner_send_answer_def Let_def)
qed (use assms in \<open>simp add: owner_send_answer_def fail_continues\<close>)

lemma candidate_continues:
  assumes "session_ok items c"
  shows "continues jl items (owner_send_candidate jl candidate c)"
proof (cases "talking (ow_phase c) \<and> valid_bounded_text candidate kMaximumCandidateBytes")
  case True
  then have p: "established (ow_phase c)" "after_message (ow_phase c) ''OWNER_ICE_CANDIDATE'' = Some (ow_phase c)"
    by (auto simp: phase_simps after_message_def)
  from authenticated_continues [OF assms p(1,1,2), of "Some (''candidate'', candidate)" candidate "\<lambda>c. c" jl] True
  show ?thesis by (auto simp: owner_send_candidate_def talking_def split_beta)
qed (use assms in \<open>auto simp: owner_send_candidate_def talking_def fail_continues\<close>)

lemma continues_ended:
  assumes "continues jl items (output, c)" "over (ow_phase c')" "ow_owner_capability c' = []" "ow_client_sequence c' = ow_client_sequence c"
  shows "continues jl items (output\<lparr>oo_close_transport := b, oo_events := oo_events output @ [owner_event On_terminal r]\<rparr>, c')"
proof -
  obtain m where m: "oo_outbound_messages output = map (jl_dump jl) (messages_of m)" "oo_events output = events_of m"
    "session_ok (items @ m) c" using assms(1) by (auto simp: continues_def)
  from ended_ok [OF m(3) assms(2-4), of r] m(1,2) show ?thesis
    by (auto simp: continues_def intro!: exI [of _ "m @ [Told (owner_event On_terminal r)]"])
qed

lemma stop_continues:
  assumes "session_ok items c"
  shows "continues jl items (owner_stop jl revoke c)"
proof -
  let ?type = "if revoke then ''OWNER_REVOKE'' else ''OWNER_STOP''"
  define r where "r = (if owner_active c \<and> ow_owner_capability c \<noteq> [] then authenticated_message jl ?type None c
            else (no_signal_output, c))"
  have "continues jl items r"
  proof (cases "owner_active c \<and> ow_owner_capability c \<noteq> []")
    case True
    with assms have e: "established (ow_phase c)" by (auto simp: session_ok_def identified_def)
    then have "after_message (ow_phase c) ?type = Some (ow_phase c)" by (auto simp: after_message_def provided_def)
    from authenticated_continues [OF assms e e this, of None "[]" "\<lambda>c. c" jl] True show ?thesis by (simp add: r_def)
  next
    case False
    with no_output_continues [OF assms] show ?thesis by (auto simp: r_def)
  qed
  moreover obtain o1 c' where "r = (o1, c')" by (cases r)
  ultimately show ?thesis
    by (auto simp: owner_stop_def Let_def clear_owner_capability_def over_def simp flip: r_def intro!: continues_ended)
qed

section \<open>Messages of the service\<close>

text \<open>The result of a call that may throw, and of a branch of \<open>receive\<close>.\<close>

definition continues_outcome :: "json_library \<Rightarrow> signal_item list \<Rightarrow> (owner_signaling_output, owner_signaling) outcome \<Rightarrow> bool" where
  "continues_outcome jl items r = (case r of (Inl e, c) \<Rightarrow> session_ok items c | (Inr output, c) \<Rightarrow> continues jl items (output, c))"

definition continues_branch :: "json_library \<Rightarrow> signal_item list \<Rightarrow> signal_branch \<Rightarrow> bool" where
  "continues_branch jl items r =
     (case r of (Inl reason, c) \<Rightarrow> session_ok items c | (Inr result, c) \<Rightarrow> continues_outcome jl items (result, c))"

lemma branch_simps [simp]:
  "continues_branch jl items (Inl reason, c) = session_ok items c"
  "continues_branch jl items (Inr (Inl e), c) = session_ok items c"
  "continues_branch jl items (Inr (Inr output), c) = continues jl items (output, c)"
  "continues_outcome jl items (Inl e, c) = session_ok items c"
  "continues_outcome jl items (Inr output, c) = continues jl items (output, c)"
  by (simp_all add: continues_branch_def continues_outcome_def)

lemma accept_continues:
  assumes "session_ok items c" "established (ow_phase c)" "c' = change (c\<lparr>ow_server_sequence := ow_server_sequence c + 1\<rparr>)"
    "after_event (ow_phase c) kind = Some (ow_phase c')" "established (ow_phase c')"
    "ow_owner_capability c' = ow_owner_capability c" "ow_session_id c' = ow_session_id c"
    "ow_client_sequence c' = ow_client_sequence c"
  shows "continues_branch jl items (accept_signal [owner_event kind r] change c)"
  using told_ok [OF assms(1,2,4-8), of r] assms(3) by (auto simp: accept_signal_def no_signal_output_def intro!: one_item(1))

lemma session_created_ok:
  assumes "session_ok items c" "ow_phase c = Creating" "matches_capability capability" "matches_session session"
    "ow_phase c' = Owner_only" "ow_owner_capability c' = capability" "ow_session_id c' = session"
    "ow_client_sequence c' = ow_client_sequence c"
  shows "session_ok (items @ [Told (owner_event On_session_created r)]) c'"
proof -
  have "identified (items @ [Told (owner_event On_session_created r)]) c'"
    by (rule identifiedI [OF _ assms(3,4)]) (use assms in \<open>auto simp: session_ok_def identified_def phase_simps\<close>)
  then show ?thesis using assms by (simp add: session_ok_def owner_event_def phase_simps)
qed

lemma receive_session_created_continues:
  assumes "session_ok items c" "matches_session (string_at v ''sessionId'')"
  shows "continues_branch jl items (receive_session_created jl v c)"
proof (cases "ow_phase c = Creating \<and> matches_capability (string_at v ''ownerCapability'')")
  case True
  define c1 where "c1 = c\<lparr>ow_session_id := string_at v ''sessionId'', ow_owner_capability := string_at v ''ownerCapability'',
                  ow_server_sequence := ow_server_sequence c + 1, ow_phase := Owner_only,
                  ow_reason := ''OWNER_SIGNAL_SESSION_CREATED''\<rparr>"
  let ?e = "owner_event On_session_created (ow_session_id c1)"
  have ok: "session_ok (items @ [Told ?e]) c1"
    by (rule session_created_ok [OF assms(1) _ _ assms(2)]) (use True in \<open>simp_all add: c1_def\<close>)
  obtain joined c2 where j: "owner_create_join jl c1 = (joined, c2)" by (cases "owner_create_join jl c1")
  have "continues jl items (append_output (no_signal_output\<lparr>oo_events := [?e]\<rparr>) joined, c2)"
    by (rule continues_append [OF ok]) (use join_continues [OF ok, of jl] j in \<open>simp_all add: no_signal_output_def\<close>)
  moreover have "continues jl items (no_signal_output\<lparr>oo_events := [?e]\<rparr>, c1)"
    by (rule one_item(1) [OF ok]) (simp_all add: no_signal_output_def)
  ultimately show ?thesis using assms(1) j by (simp add: receive_session_created_def Let_def flip: c1_def)
qed (use assms in \<open>auto simp: receive_session_created_def\<close>)

lemma heartbeat_continues:
  assumes "session_ok items c" "established (ow_phase c)"
  shows "continues_branch jl items (receive_heartbeat jl v c)"
proof -
  let ?c = "c\<lparr>ow_server_sequence := ow_server_sequence c + 1\<rparr>"
  let ?d = "?c\<lparr>ow_client_sequence := ow_client_sequence ?c + 1\<rparr>"
  let ?v = "J_object [(''heartbeatSequence'', J_unsigned (integer_at v ''heartbeatSequence'')),
                     (''ownerCapability'', J_string (ow_owner_capability c)),
                     (''protocolVersion'', J_string kSignalingProtocol), (''sequence'', J_unsigned (ow_client_sequence c + 1)),
                     (''sessionId'', J_string (ow_session_id c)), (''type'', J_string ''OWNER_HEARTBEAT_ACK'')]"
  have c: "session_ok items ?c" using assms(1) by (simp add: session_ok_def identified_def)
  have "session_ok (items @ [Sent ?v]) ?d" if "ow_client_sequence c < kMaximumSafeInteger"
    by (rule sent_ok [OF assms(1,2)])
      (use that assms(2) in \<open>simp_all add: message_type_def string_at_def number_def integer_at_def safe_integer_def authentic_def
         after_message_def provided_def\<close>)
  from one_item(2) [OF this] c more_client_sequence [OF c] assms(1) show ?thesis
    by (auto simp: receive_heartbeat_def Let_def serialize_signal_def no_signal_output_def not_le)
qed

lemma terminal_continues:
  "session_ok items c \<Longrightarrow> continues_branch jl items (receive_terminal revoked v c)"
  by (auto simp: receive_terminal_def Let_def clear_owner_capability_def no_signal_output_def over_def intro!: one_item(1) ended_ok)

lemma established_branches_continue:
  assumes "session_ok items c" "established (ow_phase c)"
  shows "continues_branch jl items (receive_join_created v c)" "continues_branch jl items (receive_reserved v c)"
    "continues_branch jl items (receive_offer restart v c)" "continues_branch jl items (receive_candidate v c)"
    "continues_branch jl items (receive_disconnected v c)"
proof -
  note accept = accept_continues [OF assms refl]
  show "continues_branch jl items (receive_join_created v c)" "continues_branch jl items (receive_reserved v c)"
    "continues_branch jl items (receive_offer restart v c)" "continues_branch jl items (receive_candidate v c)"
    "continues_branch jl items (receive_disconnected v c)"
    using assms
    by (auto simp: receive_join_created_def receive_reserved_def receive_offer_def receive_candidate_def receive_disconnected_def Let_def
        intro!: accept) (simp_all add: phase_simps)
qed

lemma typed_continues:
  assumes "session_ok items c" "owner_active c" "matches_session (string_at v ''sessionId'')"
  shows "continues_branch jl items (receive_signal_typed jl v c)"
proof (cases "established (ow_phase c)")
  case True
  with assms established_branches_continue [OF assms(1) True] heartbeat_continues [OF assms(1) True] terminal_continues [OF assms(1)]
    receive_session_created_continues [OF assms(1,3)]
  show ?thesis by (simp add: receive_signal_typed_def Let_def)
next
  case False
  with assms have "ow_phase c = Creating" by (simp add: established_def owner_active_def)
  with assms have "string_at v ''sessionId'' \<noteq> ow_session_id c" by (auto simp: session_ok_def identified_def matches_session_def)
  with assms receive_session_created_continues [OF assms(1,3)] show ?thesis by (simp add: receive_signal_typed_def Let_def)
qed

lemma fail_outcome:
  "session_ok items c \<Longrightarrow> continues_outcome jl items (case owner_fail reason c of (o1, c) \<Rightarrow> (Inr o1, c))"
  using fail_continues [of items c jl reason] by (cases "owner_fail reason c") simp

lemma receive_continues:
  assumes "session_ok items c"
  shows "continues_outcome jl items (owner_receive jl message c)"
proof (cases "owner_active c \<and> valid_bounded_text message kMaximumSignalBytes")
  case True
  obtain d v where p: "strict_parse jl message = (d, v)" by (cases "strict_parse jl message")
  show ?thesis
  proof (cases "\<exists>w. v = Some w \<and> \<not> d \<and> signal_envelope_valid c w")
    case good: True
    then obtain w where w: "v = Some w" "\<not> d" "signal_envelope_valid c w" by blast
    obtain r c' where t: "receive_signal_typed jl w c = (r, c')" by (cases "receive_signal_typed jl w c")
    have "continues_branch jl items (r, c')"
      using typed_continues [OF assms, of w jl] True w(3) t by (simp add: signal_envelope_valid_def)
    then show ?thesis
      using True p w t fail_outcome [of items c' jl] by (cases r) (auto simp: owner_receive_def Let_def continues_branch_def)
  next
    case False
    then show ?thesis using True p fail_outcome [OF assms, of jl] by (cases v) (auto simp: owner_receive_def Let_def)
  qed
qed (use fail_outcome [OF assms] in \<open>auto simp: owner_receive_def Let_def\<close>)

section \<open>Runs\<close>

datatype owner_call =
    Owner_begin bool
  | Owner_receive string
  | Owner_create_join
  | Owner_send_answer string bool
  | Owner_send_candidate string
  | Owner_stop bool
  | Owner_transport_failed string

definition lift_step :: "owner_step \<Rightarrow> (owner_signaling_output, owner_signaling) outcome" where
  "lift_step r = (Inr (fst r), snd r)"

fun owner_call_result :: "json_library \<Rightarrow> owner_signaling \<Rightarrow> owner_call \<Rightarrow> (owner_signaling_output, owner_signaling) outcome" where
  "owner_call_result jl c (Owner_begin b) = owner_begin jl b c"
| "owner_call_result jl c (Owner_receive m) = owner_receive jl m c"
| "owner_call_result jl c Owner_create_join = lift_step (owner_create_join jl c)"
| "owner_call_result jl c (Owner_send_answer sdp b) = lift_step (owner_send_answer jl sdp b c)"
| "owner_call_result jl c (Owner_send_candidate s) = lift_step (owner_send_candidate jl s c)"
| "owner_call_result jl c (Owner_stop b) = lift_step (owner_stop jl b c)"
| "owner_call_result jl c (Owner_transport_failed r) = lift_step (transport_failed r c)"

text \<open>The protocol object with everything it has sent and reported.\<close>

record owner_history =
  oh_state :: owner_signaling
  oh_sent :: "string list"
  oh_events :: "owner_signaling_event list"

definition owner_history_step :: "json_library \<Rightarrow> owner_history \<Rightarrow> owner_call \<Rightarrow> owner_history" where
  "owner_history_step jl h call =
     (case owner_call_result jl (oh_state h) call of
        (Inl e, c) \<Rightarrow> h\<lparr>oh_state := c\<rparr>
      | (Inr o1, c) \<Rightarrow> \<lparr>oh_state = c, oh_sent = oh_sent h @ oo_outbound_messages o1, oh_events = oh_events h @ oo_events o1\<rparr>)"

definition new_history :: "owner_signaling \<Rightarrow> owner_history" where
  "new_history c = \<lparr>oh_state = c, oh_sent = [], oh_events = []\<rparr>"

text \<open>The JSON library writes the first message, three short strings and a number, in at most 64 KiB.\<close>

definition writes_create_session :: "json_library \<Rightarrow> bool" where
  "writes_create_session jl \<longleftrightarrow>
     (let encoded = jl_dump jl (J_object [(''protocolVersion'', J_string kSignalingProtocol), (''sequence'', J_unsigned 1),
                                 (''type'', J_string ''CREATE_SESSION'')])
      in encoded \<noteq> [] \<and> length encoded \<le> kMaximumSignalBytes)"

lemma begin_continues:
  assumes "session_ok items c" "writes_create_session jl"
  shows "continues_outcome jl items (owner_begin jl b c)"
proof (cases "ow_phase c = Owner_idle")
  case True
  let ?v = "J_object [(''protocolVersion'', J_string kSignalingProtocol), (''sequence'', J_unsigned 1), (''type'', J_string ''CREATE_SESSION'')]"
  have start: "items = []" "ow_owner_capability c = []" "ow_session_id c = []"
    using assms(1) True by (auto simp: session_ok_def identified_def phase_simps)
  obtain capability session where "matches_capability capability" "matches_session session"
    using assms(1) by (auto simp: session_ok_def identified_def)
  then have "session_ok (items @ [Sent ?v]) (c\<lparr>ow_automatically_create_join := b, ow_phase := Creating,
                  ow_reason := ''OWNER_SIGNAL_SESSION_CREATING'', ow_client_sequence := 1\<rparr>)"
    using start by (auto simp: session_ok_def identified_def numbered_def session_run_def after_message_def message_type_def string_at_def
        number_def integer_at_def safe_integer_def phase_simps kMaximumSafeInteger_def)
  from one_item(2) [OF this] True assms(2) show ?thesis
    by (auto simp: owner_begin_def Let_def serialize_signal_def writes_create_session_def no_signal_output_def)
qed (use fail_outcome [OF assms(1)] in \<open>simp add: owner_begin_def\<close>)

lemma call_continues:
  assumes "session_ok items c" "writes_create_session jl"
  shows "continues_outcome jl items (owner_call_result jl c call)"
proof (cases call)
  case (Owner_transport_failed r)
  then show ?thesis
    using fail_continues [OF assms(1), of jl r] no_output_continues [OF assms(1), of jl] by (simp add: lift_step_def transport_failed_def)
qed (use assms begin_continues receive_continues join_continues answer_continues candidate_continues stop_continues
      in \<open>simp_all add: lift_step_def\<close>)

definition history_ok :: "json_library \<Rightarrow> owner_history \<Rightarrow> bool" where
  "history_ok jl h \<longleftrightarrow>
     (\<exists>items. oh_sent h = map (jl_dump jl) (messages_of items) \<and> oh_events h = events_of items \<and> session_ok items (oh_state h))"

interpretation owner_session: safe_machine "owner_history_step jl" "\<lambda>h. writes_create_session jl \<longrightarrow> history_ok jl h" for jl
proof
  fix h call assume ok: "writes_create_session jl \<longrightarrow> history_ok jl h"
  show "writes_create_session jl \<longrightarrow> history_ok jl (owner_history_step jl h call)"
  proof
    assume w: "writes_create_session jl"
    with ok obtain items where i: "oh_sent h = map (jl_dump jl) (messages_of items)" "oh_events h = events_of items"
      "session_ok items (oh_state h)" by (auto simp: history_ok_def)
    obtain r c where r: "owner_call_result jl (oh_state h) call = (r, c)" by (cases "owner_call_result jl (oh_state h) call")
    have next_ok: "continues_outcome jl items (r, c)" using call_continues [OF i(3) w, of call] r by simp
    show "history_ok jl (owner_history_step jl h call)"
    proof (cases r)
      case (Inl e)
      with next_ok i r show ?thesis by (auto simp: owner_history_step_def history_ok_def)
    next
      case (Inr o1)
      with next_ok obtain m where "oo_outbound_messages o1 = map (jl_dump jl) (messages_of m)" "oo_events o1 = events_of m"
        "session_ok (items @ m) c" by (auto simp: continues_def)
      with Inr i r show ?thesis by (auto simp: owner_history_step_def history_ok_def intro!: exI [of _ "items @ m"])
    qed
  qed
qed

lemma new_history_ok:
  assumes "make_owner origin = Inr c"
  shows "history_ok jl (new_history c)"
proof -
  have "matches_capability (replicate 22 CHR ''a'')" "matches_session (replicate 22 CHR ''a'')"
    by (simp_all add: matches_capability_def matches_session_def session_character_def list_all_iff)
  then have "identified [] c" using assms by (auto simp: make_owner_def identified_def phase_simps split: sum.splits)
  with assms show ?thesis
    by (auto simp: history_ok_def new_history_def session_ok_def session_run_def numbered_def make_owner_def phase_simps
        split: sum.splits intro!: exI [of _ "[]"])
qed

lemma owner_run_ok:
  assumes "make_owner origin = Inr c" "writes_create_session jl"
  shows "history_ok jl (foldl (owner_history_step jl) (new_history c) calls)"
  using owner_session.run_inv [of jl "new_history c" calls] new_history_ok [OF assms(1)] assms(2) by simp

text \<open>After the end nothing is sent.\<close>

lemma over_call:
  assumes "over (ow_phase c)"
  shows "\<exists>o1 c'. owner_call_result jl c call = (Inr o1, c') \<and> oo_outbound_messages o1 = [] \<and> over (ow_phase c')"
proof -
  have "\<not> owner_active c" "ow_phase c \<noteq> Owner_idle" "\<And>r. owner_fail r c = (no_signal_output\<lparr>oo_valid := False\<rparr>, c)"
    using assms by (auto simp: over_def owner_active_def active_owner_phase_def owner_fail_def)
  with assms show ?thesis
    by (cases call) (auto simp: lift_step_def owner_begin_def owner_receive_def owner_create_join_def owner_send_answer_def
        owner_send_candidate_def owner_stop_def transport_failed_def no_signal_output_def clear_owner_capability_def Let_def over_def)
qed

interpretation owner_silence: latched_machine "owner_history_step jl" "\<lambda>h. True" "\<lambda>h. over (ow_phase (oh_state h)) \<and> oh_sent h = sent"
  for jl sent
proof
  fix h :: owner_history and call assume "over (ow_phase (oh_state h)) \<and> oh_sent h = sent"
  with over_call [of "oh_state h" jl call]
  show "over (ow_phase (oh_state (owner_history_step jl h call))) \<and> oh_sent (owner_history_step jl h call) = sent"
    by (auto simp: owner_history_step_def)
qed simp

text \<open>C17 (refinement). Over any calls and any messages of the service, the messages sent and the events
  reported, in their order, are a run of the handshake that ends in the phase the object is in: a
  session is created before a join, a receiver reserved before its offer, each answer follows its
  own offer, candidates pass only while negotiating or connected, and an end is final.\<close>

theorem owner_session_follows_handshake:
  assumes "make_owner origin = Inr c" "writes_create_session jl" "h = foldl (owner_history_step jl) (new_history c) calls"
  shows "\<exists>items. oh_sent h = map (jl_dump jl) (messages_of items) \<and> oh_events h = events_of items \<and>
    session_run items = Some (final (ow_phase (oh_state h)))"
  using owner_run_ok [OF assms(1,2), of calls] assms(3) by (auto simp: history_ok_def session_ok_def)

definition quiet_library :: json_library where
  "quiet_library = \<lparr>jl_parse = (\<lambda>_. ([], None)), jl_dump = (\<lambda>_. ''{}'')\<rparr>"

lemma quiet_writes: "writes_create_session quiet_library"
  by (simp add: writes_create_session_def quiet_library_def kMaximumSignalBytes_def)

lemma sample_owner: "\<exists>c. make_owner ''https://a'' = Inr c"
  by (simp add: make_owner_def parse_origin_def starts_with_def parse_plain_def before_first_def matches_dns_or_ipv4_def)

theorem owner_session_follows_handshake_witness:
  "\<exists>c. make_owner ''https://a'' = Inr c \<and> writes_create_session quiet_library \<and>
     (\<exists>items h. h = foldl (owner_history_step quiet_library) (new_history c) [Owner_begin True, Owner_stop False] \<and>
        oh_sent h = map (jl_dump quiet_library) (messages_of items) \<and> session_run items = Some (final (ow_phase (oh_state h))))"
proof -
  obtain c where c: "make_owner ''https://a'' = Inr c" using sample_owner by blast
  from owner_session_follows_handshake [OF c quiet_writes refl] c quiet_writes show ?thesis by blast
qed



end
