(* ===== verification/Owner_Client.thy ===== *)
theory Owner_Client
  imports Owner_Session
begin

text \<open>
  The signaling client (\<^verbatim>\<open>src/transport/owner_signaling.cpp\<close>, \<open>OwnerSignalingClient\<close>): it runs the protocol
  object under a mutex, and sends the messages, queues the events and closes the socket outside of
  it. Each part of \<open>apply\<close> between two uses of the mutex is a step of a job, so the theorems hold for
  every interleaving of the application, the socket's callbacks and the watchdog. Whether the socket
  opens and takes a message and what the clock shows (in nanoseconds) are arguments.
\<close>

section \<open>The client\<close>

record signaling_client =
  cl_automatically_create_join :: bool
  cl_protocol :: owner_signaling
  cl_events :: "owner_signaling_event list"
  cl_last_server_activity :: int
  cl_started :: bool
  cl_transport_open :: bool
  cl_shutdown :: bool

definition make_client :: "string \<Rightarrow> bool \<Rightarrow> int \<Rightarrow> exn + signaling_client" where
  "make_client origin automatically_create_join now =
     (case make_owner origin of
        Inl e \<Rightarrow> Inl e
      | Inr c \<Rightarrow> Inr \<lparr>cl_automatically_create_join = automatically_create_join, cl_protocol = c, cl_events = [],
                      cl_last_server_activity = now, cl_started = False, cl_transport_open = False, cl_shutdown = False\<rparr>)"

text \<open>What is left of a call after its critical section: an output to apply, a failure to report, or
  the socket to close.\<close>

datatype client_job =
    Applying "string list" "owner_signaling_event list" bool
  | Failing string
  | Closing bool

definition apply_output :: "owner_signaling_output \<Rightarrow> client_job" where
  "apply_output o1 = Applying (oo_outbound_messages o1) (oo_events o1) (oo_close_transport o1)"

text \<open>Running an operation of the protocol object under the mutex. An operation that throws leaves no
  job.\<close>

definition run_operation ::
  "(owner_signaling \<Rightarrow> (owner_signaling_output, owner_signaling) outcome) \<Rightarrow> signaling_client \<Rightarrow> client_job list \<times> signaling_client" where
  "run_operation operation c =
     (case operation (cl_protocol c) of
        (Inl e, p) \<Rightarrow> ([], c\<lparr>cl_protocol := p\<rparr>)
      | (Inr o1, p) \<Rightarrow> ([apply_output o1], c\<lparr>cl_protocol := p\<rparr>))"

definition client_run ::
  "(owner_signaling \<Rightarrow> (owner_signaling_output, owner_signaling) outcome) \<Rightarrow> signaling_client \<Rightarrow> client_job list \<times> signaling_client" where
  "client_run operation c = (if cl_shutdown c then ([], c) else run_operation operation c)"

definition client_start :: "bool \<Rightarrow> signaling_client \<Rightarrow> client_job list \<times> signaling_client" where
  "client_start opens c =
     (if cl_started c \<or> cl_shutdown c then ([], c)
      else (if opens then [] else [Failing ''OWNER_SIGNAL_OPEN_FAILED''], c\<lparr>cl_started := True\<rparr>))"

definition client_opened :: "json_library \<Rightarrow> int \<Rightarrow> signaling_client \<Rightarrow> client_job list \<times> signaling_client" where
  "client_opened jl now c =
     (if cl_shutdown c then ([], c)
      else run_operation (owner_begin jl (cl_automatically_create_join c))
             (c\<lparr>cl_transport_open := True, cl_last_server_activity := now\<rparr>))"

definition client_received :: "json_library \<Rightarrow> string \<Rightarrow> int \<Rightarrow> signaling_client \<Rightarrow> client_job list \<times> signaling_client" where
  "client_received jl message now c =
     (if cl_shutdown c then ([], c)
      else case owner_receive jl message (cl_protocol c) of
        (Inl e, p) \<Rightarrow> ([], c\<lparr>cl_protocol := p\<rparr>)
      | (Inr o1, p) \<Rightarrow>
          ([apply_output o1],
           if oo_valid o1 then c\<lparr>cl_protocol := p, cl_last_server_activity := now\<rparr> else c\<lparr>cl_protocol := p\<rparr>))"

definition client_closed :: "signaling_client \<Rightarrow> client_job list \<times> signaling_client" where
  "client_closed c =
     (let c = c\<lparr>cl_transport_open := False\<rparr> in
      if cl_shutdown c then ([apply_output no_signal_output], c)
      else run_operation (\<lambda>p. lift_step (transport_failed ''OWNER_SIGNAL_TRANSPORT_CLOSED'' p)) c)"

definition client_failed :: "string \<Rightarrow> signaling_client \<Rightarrow> client_job list \<times> signaling_client" where
  "client_failed reason c =
     (let c = c\<lparr>cl_transport_open := False\<rparr> in
      if cl_shutdown c then ([apply_output no_signal_output], c)
      else run_operation (\<lambda>p. lift_step (transport_failed reason p))
             (if reason = ''OWNER_SIGNAL_EVENT_QUEUE_OVERFLOW'' then c\<lparr>cl_events := []\<rparr> else c))"

definition client_stop :: "json_library \<Rightarrow> bool \<Rightarrow> signaling_client \<Rightarrow> client_job list \<times> signaling_client" where
  "client_stop jl revoke c = run_operation (\<lambda>p. lift_step (owner_stop jl revoke p)) c"

text \<open>One turn of the watchdog.\<close>

definition watch_turn :: "int \<Rightarrow> signaling_client \<Rightarrow> client_job list \<times> signaling_client" where
  "watch_turn now c =
     (if cl_shutdown c \<or> \<not> cl_transport_open c \<or> \<not> owner_active (cl_protocol c) \<or>
         now - cl_last_server_activity c < kOwnerLivenessTimeout
      then ([], c)
      else case run_operation (\<lambda>p. lift_step (transport_failed ''OWNER_SIGNAL_HEARTBEAT_TIMEOUT'' p)) c of
        (jobs, c) \<Rightarrow> (jobs, c\<lparr>cl_transport_open := False\<rparr>))"

definition wait_for_event :: "signaling_client \<Rightarrow> owner_signaling_event option \<times> signaling_client" where
  "wait_for_event c = (case cl_events c of [] \<Rightarrow> (None, c) | e # events \<Rightarrow> (Some e, c\<lparr>cl_events := events\<rparr>))"

definition client_shutdown :: "signaling_client \<Rightarrow> signaling_client" where
  "client_shutdown c = c\<lparr>cl_shutdown := True\<rparr>"

definition client_diagnostics :: "signaling_client \<Rightarrow> owner_signaling_diagnostics" where
  "client_diagnostics c = (owner_diagnostics (cl_protocol c))\<lparr>od_transport_open := cl_transport_open c\<rparr>"

section \<open>Applying an output\<close>

fun push_events :: "owner_signaling_event list \<Rightarrow> owner_signaling_event list \<Rightarrow> bool \<times> owner_signaling_event list" where
  "push_events [] events = (False, events)"
| "push_events (e # new_events) events =
     (if length events \<ge> kMaximumPendingEvents then (True, events) else push_events new_events (events @ [e]))"

text \<open>What a job does to the socket.\<close>

datatype socket_call = Sent_message string | Close_called

text \<open>One step of a job, with the socket's answer to the question the step asks: whether it is open and
  takes the message, or, before it is told to close, whether it is not closed yet
  (\<open>!websocket.isClosed()\<close>).\<close>

fun job_step :: "bool \<Rightarrow> client_job \<Rightarrow> signaling_client \<Rightarrow> socket_call list \<times> client_job list \<times> signaling_client" where
  "job_step answer (Applying (m # messages) events close) c =
     (if answer then ([Sent_message m], [Applying messages events close], c)
      else ([], [Failing ''OWNER_SIGNAL_SEND_FAILED''], c))"
| "job_step answer (Applying [] events close) c =
     (case push_events events (cl_events c) of
        (event_overflow, queued) \<Rightarrow>
          ([], [if event_overflow then Failing ''OWNER_SIGNAL_EVENT_QUEUE_OVERFLOW'' else Closing close], c\<lparr>cl_events := queued\<rparr>))"
| "job_step answer (Failing reason) c = ([], client_failed reason c)"
| "job_step answer (Closing close) c = (if close \<and> answer then [Close_called] else [], [], c)"

section \<open>The client and its surroundings\<close>

text \<open>Jobs in flight, the messages the socket took, the events the application took, how often the
  socket was told to close, and how many steps jobs have made.\<close>

record client_system =
  cy_client :: signaling_client
  cy_jobs :: "client_job list"
  cy_wire :: "string list"
  cy_delivered :: "owner_signaling_event list"
  cy_close_calls :: nat
  cy_job_steps :: nat

datatype client_action =
    Start_client bool
  | Socket_opened int
  | Socket_received string int
  | Socket_closed
  | Socket_failed string
  | Call_create_join
  | Call_send_answer string bool
  | Call_send_candidate string
  | Call_stop bool
  | Watch int
  | Wait_for_event
  | Shutdown
  | Job_step nat bool

definition add_jobs :: "client_system \<Rightarrow> client_job list \<times> signaling_client \<Rightarrow> client_system" where
  "add_jobs y r = y\<lparr>cy_client := snd r, cy_jobs := cy_jobs y @ fst r\<rparr>"

definition sent_messages :: "socket_call list \<Rightarrow> string list" where
  "sent_messages calls = concat (map (\<lambda>x. case x of Sent_message m \<Rightarrow> [m] | Close_called \<Rightarrow> []) calls)"

fun client_step :: "json_library \<Rightarrow> client_system \<Rightarrow> client_action \<Rightarrow> client_system" where
  "client_step jl y (Start_client opens) = add_jobs y (client_start opens (cy_client y))"
| "client_step jl y (Socket_opened now) = add_jobs y (client_opened jl now (cy_client y))"
| "client_step jl y (Socket_received m now) = add_jobs y (client_received jl m now (cy_client y))"
| "client_step jl y Socket_closed = add_jobs y (client_closed (cy_client y))"
| "client_step jl y (Socket_failed reason) = add_jobs y (client_failed reason (cy_client y))"
| "client_step jl y Call_create_join = add_jobs y (client_run (\<lambda>p. lift_step (owner_create_join jl p)) (cy_client y))"
| "client_step jl y (Call_send_answer sdp restart) =
     add_jobs y (client_run (\<lambda>p. lift_step (owner_send_answer jl sdp restart p)) (cy_client y))"
| "client_step jl y (Call_send_candidate s) =
     add_jobs y (client_run (\<lambda>p. lift_step (owner_send_candidate jl s p)) (cy_client y))"
| "client_step jl y (Call_stop revoke) = add_jobs y (client_stop jl revoke (cy_client y))"
| "client_step jl y (Watch now) = add_jobs y (watch_turn now (cy_client y))"
| "client_step jl y Wait_for_event =
     (case wait_for_event (cy_client y) of
        (e, c) \<Rightarrow> y\<lparr>cy_client := c, cy_delivered := cy_delivered y @ (case e of None \<Rightarrow> [] | Some e \<Rightarrow> [e])\<rparr>)"
| "client_step jl y Shutdown = y\<lparr>cy_client := client_shutdown (cy_client y)\<rparr>"
| "client_step jl y (Job_step k answer) =
     (if k < length (cy_jobs y)
      then case job_step answer (cy_jobs y ! k) (cy_client y) of (calls, jobs, c) \<Rightarrow>
           y\<lparr>cy_client := c, cy_jobs := take k (cy_jobs y) @ jobs @ drop (k + 1) (cy_jobs y),
             cy_wire := cy_wire y @ sent_messages calls,
             cy_close_calls := cy_close_calls y + length (filter (\<lambda>x. x = Close_called) calls),
             cy_job_steps := cy_job_steps y + 1\<rparr>
      else y)"

definition start_client_system :: "signaling_client \<Rightarrow> client_system" where
  "start_client_system c =
     \<lparr>cy_client = c, cy_jobs = [], cy_wire = [], cy_delivered = [], cy_close_calls = 0, cy_job_steps = 0\<rparr>"

section \<open>Every job ends\<close>

text \<open>How many steps a job may still take, depending on whether the session is over.\<close>

fun job_rank :: "bool \<Rightarrow> client_job \<Rightarrow> nat" where
  "job_rank ended (Closing b) = 1"
| "job_rank ended (Failing r) = (if ended then 3 else 5)"
| "job_rank ended (Applying messages events b) =
     (if messages = [] \<and> events = [] then 2 else length messages + (if ended then 4 else 6))"

abbreviation client_over :: "signaling_client \<Rightarrow> bool" where
  "client_over c \<equiv> over (ow_phase (cl_protocol c))"

definition steps_left :: "bool \<Rightarrow> client_job list \<Rightarrow> nat" where
  "steps_left ended jobs = sum_list (map (job_rank ended) jobs)"

lemma steps_left_simps [simp]:
  "steps_left ended [] = 0" "steps_left ended (j # js) = job_rank ended j + steps_left ended js"
  "steps_left ended (js @ js') = steps_left ended js + steps_left ended js'"
  by (simp_all add: steps_left_def)

lemma job_rank_mono: "(a \<longrightarrow> b) \<Longrightarrow> job_rank b j \<le> job_rank a j"
  by (cases j) auto

lemma steps_left_mono: "(a \<longrightarrow> b) \<Longrightarrow> steps_left b js \<le> steps_left a js"
  by (induction js) (auto intro: add_mono job_rank_mono)

lemma one_message:
  "length (oo_outbound_messages (fst (authenticated_message jl type field c))) \<le> 1"
  by (rule authenticated_message_cases [of jl type field c])
    (auto simp: owner_fail_def no_signal_output_def Let_def)

lemma fail_no_message [simp]: "oo_outbound_messages (fst (owner_fail reason c)) = []"
  by (simp add: owner_fail_def no_signal_output_def Let_def)

lemma join_one_message: "length (oo_outbound_messages (fst (owner_create_join jl c))) \<le> 1"
  using one_message [of jl "''CREATE_JOIN''" None c] by (auto simp: owner_create_join_def split_beta)

lemma receive_typed_one_message:
  "receive_signal_typed jl v c = (Inr (Inr o1), c') \<Longrightarrow> length (oo_outbound_messages o1) \<le> 1"
  using join_one_message
  by (auto simp: receive_signal_typed_def receive_session_created_def receive_join_created_def receive_reserved_def receive_offer_def
      receive_candidate_def receive_heartbeat_def receive_disconnected_def receive_terminal_def accept_signal_def append_output_def
      no_signal_output_def Let_def split_beta split: if_splits sum.splits)

lemma fail_outcome_one_message:
  "(case owner_fail reason c of (o1, c) \<Rightarrow> (Inr o1, c)) = (Inr o2, c') \<Longrightarrow> oo_outbound_messages o2 = []"
  using fail_no_message [of reason c] by (cases "owner_fail reason c") auto

lemma receive_one_message:
  assumes "owner_receive jl message c = (Inr o1, c')"
  shows "length (oo_outbound_messages o1) \<le> 1"
proof (cases "owner_active c \<and> valid_bounded_text message kMaximumSignalBytes")
  case True
  obtain d v where p: "strict_parse jl message = (d, v)" by (cases "strict_parse jl message")
  show ?thesis
  proof (cases "\<exists>w. v = Some w \<and> \<not> d \<and> signal_envelope_valid c w")
    case good: True
    then obtain w where w: "v = Some w" "\<not> d" "signal_envelope_valid c w" by blast
    obtain r c1 where t: "receive_signal_typed jl w c = (r, c1)" by (cases "receive_signal_typed jl w c")
    show ?thesis
    proof (cases r)
      case (Inl reason)
      with assms True p w t show ?thesis by (auto simp: owner_receive_def Let_def dest: fail_outcome_one_message)
    next
      case (Inr result)
      with assms True p w t receive_typed_one_message [of jl w c o1 c'] show ?thesis by (simp add: owner_receive_def Let_def)
    qed
  next
    case False
    with assms True p show ?thesis by (cases v) (auto simp: owner_receive_def Let_def dest: fail_outcome_one_message)
  qed
next
  case False
  with assms show ?thesis by (auto simp: owner_receive_def Let_def split: if_splits dest: fail_outcome_one_message)
qed

lemma call_one_message:
  assumes "owner_call_result jl c call = (Inr o1, c')"
  shows "length (oo_outbound_messages o1) \<le> 1"
proof (cases call)
  case (Owner_begin b)
  with assms show ?thesis
    using fail_no_message [of "''OWNER_SIGNAL_BEGIN_STATE_INVALID''" c]
    by (auto simp: owner_begin_def no_signal_output_def Let_def split_beta split: if_splits sum.splits)
next
  case (Owner_receive m)
  with assms show ?thesis using receive_one_message by simp
next
  case (Owner_send_answer sdp b)
  with assms show ?thesis using one_message
    by (auto simp: owner_send_answer_def lift_step_def Let_def split_beta split: if_splits)
next
  case (Owner_send_candidate s)
  with assms show ?thesis using one_message
    by (auto simp: owner_send_candidate_def lift_step_def split: if_splits)
next
  case (Owner_stop b)
  with assms show ?thesis using one_message
    by (auto simp: owner_stop_def lift_step_def no_signal_output_def Let_def split_beta split: if_splits)
qed (use assms join_one_message in \<open>auto simp: lift_step_def transport_failed_def no_signal_output_def split: if_splits\<close>)

text \<open>A call leaves at most one job, of rank at most seven, and does not reopen an ended session.\<close>

definition brief :: "signaling_client \<Rightarrow> client_job list \<times> signaling_client \<Rightarrow> bool" where
  "brief c r \<longleftrightarrow> (client_over c \<longrightarrow> client_over (snd r)) \<and> steps_left (client_over (snd r)) (fst r) \<le> 7"

lemma run_brief: "brief c (run_operation (\<lambda>p. owner_call_result jl p call) c)"
proof -
  obtain r p where r: "owner_call_result jl (cl_protocol c) call = (r, p)" by (cases "owner_call_result jl (cl_protocol c) call")
  have "client_over c \<longrightarrow> over (ow_phase p)" using over_call [of "cl_protocol c" jl call] r by auto
  moreover have "length (oo_outbound_messages o1) \<le> 1" if "r = Inr o1" for o1 using call_one_message r that by blast
  ultimately show ?thesis using r by (cases r) (auto simp: brief_def run_operation_def apply_output_def)
qed

lemma brief_fields: "brief (c\<lparr>cl_transport_open := a, cl_last_server_activity := t\<rparr>) r = brief c r"
  "brief (c\<lparr>cl_transport_open := a\<rparr>) r = brief c r" "brief (c\<lparr>cl_transport_open := a, cl_events := es\<rparr>) r = brief c r"
  by (simp_all add: brief_def)

lemma brief_nothing: "brief c ([], c)" "brief c ([apply_output no_signal_output], c\<lparr>cl_transport_open := a\<rparr>)"
  by (simp_all add: brief_def apply_output_def no_signal_output_def)

lemma failed_brief: "brief c (client_failed reason c)"
  using run_brief [of "c\<lparr>cl_transport_open := False\<rparr>" jl "Owner_transport_failed reason" for jl]
    run_brief [of "c\<lparr>cl_transport_open := False, cl_events := []\<rparr>" jl "Owner_transport_failed reason" for jl]
  by (auto simp: client_failed_def brief_nothing brief_fields Let_def)

lemma closed_brief: "brief c (client_closed c)"
  using run_brief [of "c\<lparr>cl_transport_open := False\<rparr>" jl "Owner_transport_failed ''OWNER_SIGNAL_TRANSPORT_CLOSED''" for jl]
  by (simp add: client_closed_def brief_nothing brief_fields Let_def)

lemma watch_brief: "brief c (watch_turn now c)"
  using run_brief [of c jl "Owner_transport_failed ''OWNER_SIGNAL_HEARTBEAT_TIMEOUT''" for jl]
  by (auto simp: watch_turn_def brief_nothing split_beta) (simp add: brief_def)

lemma opened_brief: "brief c (client_opened jl now c)"
  using run_brief [of "c\<lparr>cl_transport_open := True, cl_last_server_activity := now\<rparr>" jl "Owner_begin (cl_automatically_create_join c)"]
  by (simp add: client_opened_def brief_nothing brief_fields)

lemma received_brief: "brief c (client_received jl m now c)"
  using run_brief [of c jl "Owner_receive m"]
  by (auto simp: client_received_def brief_nothing run_operation_def brief_def split: prod.splits sum.splits)

lemma calls_brief:
  "brief c (client_run (\<lambda>p. lift_step (owner_create_join jl p)) c)"
  "brief c (client_run (\<lambda>p. lift_step (owner_send_answer jl sdp restart p)) c)"
  "brief c (client_run (\<lambda>p. lift_step (owner_send_candidate jl s p)) c)"
  "brief c (client_stop jl revoke c)"
  using run_brief [of c jl Owner_create_join] run_brief [of c jl "Owner_send_answer sdp restart"]
    run_brief [of c jl "Owner_send_candidate s"] run_brief [of c jl "Owner_stop revoke"]
  by (simp_all add: client_run_def client_stop_def brief_nothing)

lemma start_brief: "brief c (client_start opens c)"
  by (simp add: client_start_def brief_def)

lemma job_step_rank:
  assumes "job_step answer job c = (calls, jobs, c')"
  shows "(client_over c \<longrightarrow> client_over c') \<and> steps_left (client_over c') jobs + 1 \<le> job_rank (client_over c) job"
proof (cases job)
  case (Applying messages events close)
  show ?thesis
  proof (cases messages)
    case Nil
    then show ?thesis using assms Applying by (cases events) (auto split: prod.splits if_splits)
  next
    case (Cons m ms)
    then show ?thesis using assms Applying by (auto split: if_splits)
  qed
next
  case (Failing reason)
  have f: "client_failed reason c = (jobs, c')" using assms Failing by simp
  then have mono: "client_over c \<longrightarrow> client_over c'" using failed_brief [of c reason] by (simp add: brief_def)
  show ?thesis
  proof (cases "cl_shutdown c \<or> \<not> owner_active (cl_protocol c)")
    case True
    with f have "jobs = [Applying [] [] False]"
      by (auto simp: client_failed_def run_operation_def lift_step_def transport_failed_def apply_output_def no_signal_output_def Let_def
          split: if_splits)
    with mono Failing show ?thesis by simp
  next
    case False
    then have a: "owner_active (cl_protocol c)" "\<not> client_over c" "ow_phase (cl_protocol c) \<notin> {Owner_failed, Owner_revoked, Owner_expired, Owner_stopped}"
      by (auto simp: owner_active_def phase_simps)
    with False f have "jobs = [Applying [] [owner_event On_terminal reason] True]" "ow_phase (cl_protocol c') = Owner_failed"
      by (auto simp: client_failed_def run_operation_def lift_step_def transport_failed_def apply_output_def no_signal_output_def
          owner_fail_def clear_owner_capability_def Let_def split: if_splits)
    with a(2) Failing show ?thesis by (simp add: over_def)
  qed
qed (use assms in auto)

definition is_job_step :: "client_action \<Rightarrow> bool" where
  "is_job_step a = (case a of Job_step _ _ \<Rightarrow> True | _ \<Rightarrow> False)"

definition work :: "client_system \<Rightarrow> nat" where
  "work y = cy_job_steps y + steps_left (client_over (cy_client y)) (cy_jobs y)"

lemma add_jobs_work:
  assumes "brief (cy_client y) r"
  shows "work (add_jobs y r) \<le> work y + 7"
proof -
  have "steps_left (client_over (snd r)) (cy_jobs y) \<le> steps_left (client_over (cy_client y)) (cy_jobs y)"
    using assms by (intro steps_left_mono) (simp add: brief_def)
  with assms show ?thesis by (simp add: work_def add_jobs_def brief_def)
qed

lemma job_step_work:
  assumes "k < length (cy_jobs y)"
  shows "work (client_step jl y (Job_step k answer)) \<le> work y"
proof -
  let ?job = "cy_jobs y ! k" and ?a = "client_over (cy_client y)"
  obtain calls jobs c' where r: "job_step answer ?job (cy_client y) = (calls, jobs, c')"
    by (cases "job_step answer ?job (cy_client y)")
  note s = job_step_rank [OF r]
  have "steps_left (client_over c') xs \<le> steps_left ?a xs" for xs using s by (intro steps_left_mono) simp
  from this [of "take k (cy_jobs y)"] this [of "drop (k + 1) (cy_jobs y)"]
  have "steps_left (client_over c') (take k (cy_jobs y) @ jobs @ drop (k + 1) (cy_jobs y)) + 1 \<le>
      steps_left ?a (take k (cy_jobs y) @ ?job # drop (k + 1) (cy_jobs y))" using s by simp
  also have "take k (cy_jobs y) @ ?job # drop (k + 1) (cy_jobs y) = cy_jobs y" using assms by (simp add: id_take_nth_drop [symmetric])
  finally show ?thesis using assms r by (simp add: work_def Let_def)
qed

lemma client_step_work: "work (client_step jl y a) \<le> work y + (if is_job_step a then 0 else 7)"
proof (cases a)
  case Wait_for_event
  then show ?thesis by (simp add: is_job_step_def work_def wait_for_event_def split: list.splits)
next
  case Shutdown
  then show ?thesis by (simp add: is_job_step_def work_def client_shutdown_def)
next
  case (Job_step k answer)
  then show ?thesis using job_step_work [of k y jl answer] by (cases "k < length (cy_jobs y)") (simp_all add: is_job_step_def)
qed (use add_jobs_work start_brief opened_brief received_brief closed_brief failed_brief calls_brief watch_brief
      in \<open>simp_all add: is_job_step_def\<close>)

text \<open>C18 (termination). Applying outputs ends, although a failing send or a full event queue starts the
  work over through the failure path: however the threads interleave and whatever the socket answers,
  the jobs have made at most seven steps for each call, callback and turn of the watchdog.\<close>

theorem client_jobs_terminate:
  "cy_job_steps (foldl (client_step jl) (start_client_system c) actions) \<le> 7 * length (filter (\<lambda>a. \<not> is_job_step a) actions)"
proof -
  have "work (foldl (client_step jl) y as) \<le> work y + 7 * length (filter (\<lambda>a. \<not> is_job_step a) as)" for y as
  proof (induction as arbitrary: y)
    case (Cons a as)
    from Cons [of "client_step jl y a"] client_step_work [of jl y a] show ?case by (simp split: if_splits)
  qed simp
  from this [of "start_client_system c" actions] show ?thesis by (simp add: work_def start_client_system_def)
qed

section \<open>An output that is applied\<close>

lemma push_events_room:
  "length events + length new_events \<le> kMaximumPendingEvents \<Longrightarrow> push_events new_events events = (False, events @ new_events)"
  by (induction new_events arbitrary: events) auto

lemma job_at: "k < length jobs \<Longrightarrow> take k jobs @ x # drop (k + 1) jobs = jobs[k := x]"
  by (simp add: upd_conv_take_nth_drop)

lemma sends_all:
  assumes "k < length (cy_jobs y)" "cy_jobs y ! k = Applying (messages @ rest) events close"
  shows "foldl (client_step jl) y (replicate (length messages) (Job_step k True)) =
    y\<lparr>cy_jobs := (cy_jobs y)[k := Applying rest events close], cy_wire := cy_wire y @ messages,
      cy_job_steps := cy_job_steps y + length messages\<rparr>"
  using assms
proof (induction messages arbitrary: y)
  case Nil
  then have "(cy_jobs y)[k := Applying rest events close] = cy_jobs y" by (metis append_Nil list_update_id)
  then show ?case by simp
next
  case (Cons m messages)
  define z where "z = y\<lparr>cy_jobs := (cy_jobs y)[k := Applying (messages @ rest) events close], cy_wire := cy_wire y @ [m],
      cy_job_steps := cy_job_steps y + 1\<rparr>"
  have "client_step jl y (Job_step k True) = z"
    using Cons.prems job_at [OF Cons.prems(1)] by (simp add: z_def sent_messages_def)
  moreover have "k < length (cy_jobs z)" "cy_jobs z ! k = Applying (messages @ rest) events close"
    using Cons.prems(1) by (simp_all add: z_def)
  ultimately show ?case using Cons.IH [of z] by (simp add: z_def)
qed

lemma queue_step:
  assumes "k < length (cy_jobs y)" "cy_jobs y ! k = Applying [] events close"
    "length (cl_events (cy_client y)) + length events \<le> kMaximumPendingEvents"
  shows "client_step jl y (Job_step k answer) =
    y\<lparr>cy_client := (cy_client y)\<lparr>cl_events := cl_events (cy_client y) @ events\<rparr>, cy_jobs := (cy_jobs y)[k := Closing close],
      cy_job_steps := cy_job_steps y + 1\<rparr>"
  using assms(1,2) push_events_room [OF assms(3)] job_at [OF assms(1)] by (simp add: sent_messages_def)

lemma close_step:
  assumes "k < length (cy_jobs y)" "cy_jobs y ! k = Closing close"
  shows "client_step jl y (Job_step k answer) =
    y\<lparr>cy_jobs := take k (cy_jobs y) @ drop (k + 1) (cy_jobs y),
      cy_close_calls := cy_close_calls y + (if close \<and> answer then 1 else 0), cy_job_steps := cy_job_steps y + 1\<rparr>"
  using assms by (simp add: sent_messages_def)

text \<open>C40 (functional). An output whose events fit into the queue, applied while the socket takes its
  messages and is not closed yet, takes effect exactly: its messages go out in order, its events are
  queued in order, and the socket is told to close exactly when the output says so; nothing else
  changes.\<close>

theorem applied_output_takes_effect:
  assumes "k < length (cy_jobs y)" "cy_jobs y ! k = apply_output o1"
    "length (cl_events (cy_client y)) + length (oo_events o1) \<le> kMaximumPendingEvents"
  shows "foldl (client_step jl) y (replicate (length (oo_outbound_messages o1) + 2) (Job_step k True)) =
    y\<lparr>cy_client := (cy_client y)\<lparr>cl_events := cl_events (cy_client y) @ oo_events o1\<rparr>,
      cy_jobs := take k (cy_jobs y) @ drop (k + 1) (cy_jobs y), cy_wire := cy_wire y @ oo_outbound_messages o1,
      cy_close_calls := cy_close_calls y + (if oo_close_transport o1 then 1 else 0),
      cy_job_steps := cy_job_steps y + length (oo_outbound_messages o1) + 2\<rparr>"
proof -
  let ?es = "oo_events o1" and ?b = "oo_close_transport o1" and ?ms = "oo_outbound_messages o1"
  define y1 where "y1 = y\<lparr>cy_jobs := (cy_jobs y)[k := Applying [] ?es ?b], cy_wire := cy_wire y @ ?ms,
      cy_job_steps := cy_job_steps y + length ?ms\<rparr>"
  define y2 where "y2 = y1\<lparr>cy_client := (cy_client y)\<lparr>cl_events := cl_events (cy_client y) @ ?es\<rparr>,
      cy_jobs := (cy_jobs y)[k := Closing ?b], cy_job_steps := cy_job_steps y + length ?ms + 1\<rparr>"
  have split: "replicate (length ?ms + 2) (Job_step k True) = replicate (length ?ms) (Job_step k True) @ [Job_step k True, Job_step k True]"
    by (simp add: replicate_app_Cons_same)
  have 1: "foldl (client_step jl) y (replicate (length ?ms) (Job_step k True)) = y1"
    using sends_all [OF assms(1), of ?ms "[]" ?es ?b jl] assms(2) by (simp add: apply_output_def y1_def)
  have 2: "client_step jl y1 (Job_step k True) = y2"
    using queue_step [of k y1 ?es ?b jl True] assms(1,3) by (simp add: y1_def y2_def)
  have 3: "client_step jl y2 (Job_step k True) =
      y2\<lparr>cy_jobs := take k (cy_jobs y) @ drop (k + 1) (cy_jobs y),
         cy_close_calls := cy_close_calls y + (if ?b then 1 else 0), cy_job_steps := cy_job_steps y + length ?ms + 2\<rparr>"
    using close_step [of k y2 ?b jl True] assms(1) by (simp add: y2_def y1_def)
  show ?thesis by (simp only: split foldl_append 1 foldl_Cons foldl_Nil 2 3) (simp add: y2_def y1_def)
qed

definition sample_output :: owner_signaling_output where
  "sample_output =
     \<lparr>oo_valid = True, oo_close_transport = True, oo_outbound_messages = [''m''], oo_events = [owner_event On_terminal ''r'']\<rparr>"

definition sample_protocol :: owner_signaling where
  "sample_protocol =
     \<lparr>ow_expected_origin = ''https://a'', ow_owner_capability = [], ow_session_id = [], ow_phase = Owner_stopped,
      ow_client_sequence = 2, ow_server_sequence = 1, ow_reason = ''OWNER_SIGNAL_STOPPED'', ow_automatically_create_join = True\<rparr>"

definition sample_client :: "owner_signaling_event list \<Rightarrow> signaling_client" where
  "sample_client events =
     \<lparr>cl_automatically_create_join = True, cl_protocol = sample_protocol, cl_events = events, cl_last_server_activity = 0,
      cl_started = True, cl_transport_open = True, cl_shutdown = False\<rparr>"

definition sample_system :: "owner_signaling_event list \<Rightarrow> client_system" where
  "sample_system events = (start_client_system (sample_client events))\<lparr>cy_jobs := [apply_output sample_output]\<rparr>"

theorem applied_output_takes_effect_witness:
  "let z = foldl (client_step quiet_library) (sample_system []) (replicate (length (oo_outbound_messages sample_output) + 2) (Job_step 0 True))
   in cl_events (cy_client z) = [owner_event On_terminal ''r''] \<and> cy_wire z = [''m''] \<and> cy_close_calls z = 1 \<and> cy_jobs z = []"
proof -
  have "0 < length (cy_jobs (sample_system []))" "cy_jobs (sample_system []) ! 0 = apply_output sample_output"
    "length (cl_events (cy_client (sample_system []))) + length (oo_events sample_output) \<le> kMaximumPendingEvents"
    by (simp_all add: sample_system_def start_client_system_def sample_client_def sample_output_def kMaximumPendingEvents_def)
  note z = applied_output_takes_effect [OF this, of quiet_library]
  show ?thesis unfolding z Let_def by (simp add: sample_system_def start_client_system_def sample_client_def sample_output_def)
qed

section \<open>Where the client falls short\<close>

text \<open>When the event queue is full as the session ends, the terminal event is lost: the overflow path
  clears the queue, and, the session being over already, reports nothing and does not close the socket.\<close>

lemma full_queue_loses_terminal_event:
  assumes "length (cl_events (cy_client y)) = kMaximumPendingEvents" "\<not> cl_shutdown (cy_client y)" "client_over (cy_client y)"
    "cy_jobs y = [Applying [] [e] True]" "z = foldl (client_step jl) y (replicate 4 (Job_step 0 answer))"
  shows "cl_events (cy_client z) = [] \<and> cy_jobs z = [] \<and> cy_close_calls z = cy_close_calls y"
proof -
  have "\<not> owner_active (cl_protocol (cy_client y))" using assms(3) by (auto simp: owner_active_def phase_simps)
  then show ?thesis using assms
    by (simp add: eval_nat_numeral Let_def client_failed_def run_operation_def lift_step_def transport_failed_def apply_output_def
        no_signal_output_def)
qed

text \<open>Numbers are given under the mutex but messages are sent outside of it, so two calls on different
  threads can reach the wire in the wrong order.\<close>

lemma concurrent_calls_swap_messages:
  assumes "talking (ow_phase p)" "ow_owner_capability p \<noteq> []" "ow_session_id p \<noteq> []" "ow_client_sequence p + 1 < kMaximumSafeInteger"
    "ow_client_sequence p < kMaximumSafeInteger" "valid_bounded_text a kMaximumCandidateBytes" "valid_bounded_text b kMaximumCandidateBytes"
    "\<And>v. jl_dump jl v \<noteq> [] \<and> length (jl_dump jl v) \<le> kMaximumSignalBytes"
    "p = cl_protocol (cy_client y)" "cy_jobs y = []" "\<not> cl_shutdown (cy_client y)"
    "p' = p\<lparr>ow_client_sequence := ow_client_sequence p + 1\<rparr>"
  shows "cy_wire (foldl (client_step jl) y [Call_send_candidate a, Call_send_candidate b, Job_step 1 True, Job_step 0 True]) =
    cy_wire y @ [jl_dump jl (auth_json p' ''OWNER_ICE_CANDIDATE'' (Some (''candidate'', b))),
                 jl_dump jl (auth_json p ''OWNER_ICE_CANDIDATE'' (Some (''candidate'', a)))]"
proof -
  have text_fits: "jl_dump jl v \<noteq> []" "\<not> kMaximumSignalBytes < length (jl_dump jl v)" for v
    using assms(8) [of v] by auto
  have send: "owner_send_candidate jl s q = (no_signal_output\<lparr>oo_outbound_messages :=
        [jl_dump jl (auth_json q ''OWNER_ICE_CANDIDATE'' (Some (''candidate'', s)))]\<rparr>, q\<lparr>ow_client_sequence := ow_client_sequence q + 1\<rparr>)"
    if "talking (ow_phase q)" "ow_owner_capability q \<noteq> []" "ow_session_id q \<noteq> []" "ow_client_sequence q < kMaximumSafeInteger"
      "valid_bounded_text s kMaximumCandidateBytes" for q s
    using that by (auto simp: owner_send_candidate_def talking_def authenticated_message_def serialize_signal_def auth_json_def
        Let_def text_fits)
  have 1: "owner_send_candidate jl a p = (no_signal_output\<lparr>oo_outbound_messages :=
        [jl_dump jl (auth_json p ''OWNER_ICE_CANDIDATE'' (Some (''candidate'', a)))]\<rparr>, p')" using send [of p a] assms by simp
  have 2: "owner_send_candidate jl b p' = (no_signal_output\<lparr>oo_outbound_messages :=
        [jl_dump jl (auth_json p' ''OWNER_ICE_CANDIDATE'' (Some (''candidate'', b)))]\<rparr>, p'\<lparr>ow_client_sequence := ow_client_sequence p' + 1\<rparr>)"
    using send [of p' b] assms by simp
  show ?thesis using 1 2 assms(9-11)
    by (simp add: client_run_def run_operation_def lift_step_def add_jobs_def apply_output_def no_signal_output_def Let_def sent_messages_def)
qed

end
