(* ===== verification/Spec2Isabelle.thy ===== *)
theory Spec2Isabelle
  imports H264_Sps Rtp_Recovery Media_Pacer Media_Egress Encoded_Fanout Preprocess_Pool Controller_Intake Sha256 Control_Clock Capture_Delivery Owner_Client
begin

text \<open>
  \<^bold>\<open>GlyphRelay: the media path of the sender\<close>

  GlyphRelay captures a screen, marks its text regions, encodes H.264 on the GPU, and sends the
  stream over WebRTC to one receiver while it may also record it. This development models the
  part of the C++ sender that carries its own logic between the screen, the GPU driver and the
  socket, and proves what that part promises. All paths are relative to \<^verbatim>\<open>src/\<close> of the repository checkout.

  \<^bold>\<open>How the parts interact.\<close> The portal handshake opens a PipeWire stream; its buffers are copied into
  the capture pool, which hands out the newest frame. A surface is reserved in the preprocess ownership ring, submitted to
  the encoder through the submission coordinator, and comes back as an Annex B access unit. The
  fanout hands each access unit to the transport queue and to the recorder. The sender parses it
  into NAL units, checks the parameter sets, packetizes it into RTP, and keeps the packets in the
  retransmission cache. The pacer releases packets against a token bucket; the egress gate is the
  last check before the native send and counts what leaves. Receiver feedback goes to the RTP
  recovery controller (retransmissions and IDR requests) and to the rate controller, whose
  decisions set the quality levels. The owner opens the session and
  negotiates with the receiver over the signaling service; pausing, resuming and ending it and the
  correlation of the two clocks run over the control channel.

  \<^bold>\<open>Theories and sources.\<close>
  \<^item> \<open>Prelude\<close>: machine integers, exceptions as values, saturating counters, \<open>size_t\<close> arithmetic, and
    the locales \<open>safe_machine\<close>, \<open>ranked_machine\<close>, \<open>latched_machine\<close>: a component is a step function on
    its state, and what one step keeps, every sequence of calls keeps. Each component interprets
    them on its own step function.
  \<^item> \<open>Annex_B\<close>: \<^verbatim>\<open>src/media/annex_b.cpp\<close>. Start codes, emulation prevention, access units.
  \<^item> \<open>H264_Parser\<close>: \<^verbatim>\<open>src/media/h264_sps.cpp\<close>. The bit reader, Exp-Golomb codes and the SPS parser.
    \<open>H264_Writer\<close> writes the whole syntax of a set and reads it back stage by stage; \<open>H264_Sps\<close> holds the
    theorems.
  \<^item> \<open>Rtp_Packetizer\<close>, \<open>Retransmission_Cache\<close>, \<open>Rtp_Recovery\<close>: \<^verbatim>\<open>src/transport/rtp_transport.cpp\<close>. RFC 6184
    packetization, the bounded cache, NACK, PLI and FIR handling.
  \<^item> \<open>Binary64\<close>: the C++ \<open>double\<close>, IEEE 754 binary64 over rationals, rounding to nearest even.
  \<^item> \<open>Media_Pacer\<close>: \<^verbatim>\<open>src/transport/media_pacer.cpp\<close>. The token bucket and its queue.
  \<^item> \<open>Media_Egress\<close>: \<^verbatim>\<open>src/transport/media_egress.cpp\<close>. The final send boundary and its accounting.
  \<^item> \<open>Encoded_Fanout\<close>: \<^verbatim>\<open>src/transport/encoded_fanout.cpp\<close>. The transport queue and the fanout.
  \<^item> \<open>Gpu_Contracts\<close>: \<^verbatim>\<open>src/gpu/gpu_contracts.cpp\<close>. Submission validation, resource life cycles, the
    submission coordinator, the shutdown order.
  \<^item> \<open>Preprocess_Pool\<close>: \<^verbatim>\<open>src/gpu/preprocess_pool.cpp\<close>. Ownership of source and surface slots.
  \<^item> \<open>Controller_Trace\<close>, \<open>Controller\<close>: \<^verbatim>\<open>src/transport/controller.cpp\<close>. The rate controller and the trace
    it writes. \<open>Controller_Safety\<close>, \<open>Controller_Evidence\<close> and \<open>Controller_Intake\<close> hold its theorems.
  \<^item> \<open>Sha256\<close>: \<^verbatim>\<open>src/core/sha256.cpp\<close>. The streaming hash, its hex form and the file loop.
  \<^item> \<open>Control_Protocol\<close>: \<^verbatim>\<open>src/transport/control_protocol.cpp\<close>. The sender side of the control channel and
    the clock correlation estimator. \<open>Control_Safety\<close>, \<open>Control_Session\<close> and \<open>Control_Clock\<close> hold its
    theorems.
  \<^item> \<open>Capture_Frame\<close>, \<open>Capture_Pool\<close>: \<^verbatim>\<open>src/capture/capture.cpp\<close>. Validation and copy of a buffer with crop,
    cursor, orientation and damage; the portal handshake and the pool of frames. \<open>Capture_Safety\<close> and
    \<open>Capture_Delivery\<close> hold the theorems on the last two.
  \<^item> \<open>Owner_Signaling\<close>, \<open>Owner_Client\<close>: \<^verbatim>\<open>src/transport/owner_signaling.cpp\<close>. The origin check, the owner's
    signaling protocol and the client around it. \<open>Owner_Safety\<close> and \<open>Owner_Session\<close> hold the theorems on
    the first two.

  \<^bold>\<open>How the model corresponds to the code.\<close> A struct or class is a record with one field per member,
  an enum a datatype, \<open>uint8_t\<close> to \<open>uint64_t\<close> are words, \<open>size_t\<close> is a natural number with the
  wrap-around at \<open>2 ^ 64\<close> written out, \<open>double\<close> is \<open>Binary64.double\<close>. A member function is a function
  from the object to its result and the object afterwards; a \<open>throw\<close> is a left value next to the
  state reached, so every theorem over call sequences covers calls that throw. Locks are explicit
  only where interleaving matters (the egress gate, as a step relation, the capture pool, whose ingest is two steps, and the signaling client); elsewhere every public
  function runs under one mutex and is one step. Callbacks and driver answers (the native send,
  the recorder, the NVENC submission) are parameters that may answer anything the type allows. The
  C library functions \<open>exp\<close> and \<open>pow\<close> are a parameter of the rate controller, the JSON library is one of
  the control and signaling protocols, and the order in which a sort leaves equal elements is one of the clock
  estimator.

  \<^bold>\<open>What the theorems show.\<close> For the parsers: soundness of what is accepted, bounds, and round trips
  with writers of the format. For packetization: a receiver gets the NAL units back, identities
  are never reused. For every stateful component: an invariant over all call sequences (exact
  accounting, bounds, epochs), and its contract on top: at most two retransmissions per packet, a
  NACK is answered or leads to an IDR, IDR requests other than those of new epochs are a second apart, FIFO and paid-for release, nothing of a closed epoch leaves
  under any interleaving, the transport sees only decodable prefixes, bitstreams come out in
  submission order, device memory is never shared, quality levels form a ladder, state changes of
  the rate controller rest on evidence that lasted. The control session follows its handshake, in
  which every message has the next number and every transition awaits the number of its own message,
  closes its channel once, matches clock answers to requests and limits the receiver's rate; the
  hash is the one of FIPS 180-4 however its input is cut. A captured frame shows the crop in its
  orientation with the cursor blended in, its damage follows the pixels, every slot of the pool has
  one owner under every interleaving, and a stream node is held only after the whole handshake.
  The signaling session is a run of its handshake with authenticated, increasing messages; its client
  never applies an output forever, under any interleaving of its threads.

  \<^bold>\<open>Termination and bounds.\<close> Every loop of the modelled code is a total function: the scans recurse on
  the bytes left, the bit reader on its remaining bits, queue loops on the queue; no fuel is used. (The
  consumer of \<open>Gpu_Contracts.consume\<close>, which is a client of the code, counts its rounds: as many as
  there are submissions in flight are enough.)
  Unsigned differences of times are elapsed times because each component refuses a clock that goes
  back; the theorems carry that as part of their invariants. Lists stay shorter than \<open>2 ^ 64\<close> by the
  components' own bounds or by the spacing of the steps that extend them.

  \<^bold>\<open>Not modelled.\<close> Code that is a thin layer over an operating system service, a driver or a third
  party library: the calls of D-Bus and PipeWire, CUDA kernels and contexts, the NVENC and
  OpenH264 encoders, libdatachannel peers, file recording, the doctor probes,
  command line parsing, the benchmark and fixture tools, and the TypeScript and Python tooling.
  Heap exhaustion (\<open>bad_alloc\<close>) is not modelled. Of \<open>double\<close>, the sign of zero is not kept.
\<close>

end
